(* ===== verification/Prelude.thy ===== *)
theory Prelude
  imports Main "HOL-Library.Word"
begin

text \<open>
  Shared vocabulary of the development: the machine integers of the source as words, the Rust
  idioms the components use (\<open>?\<close> on a \<open>Result\<close>, \<open>div_ceil\<close>, checked and saturating
  arithmetic, bounds-checked slices), and the generic lemmas on lists, words and results that
  the component proofs rest on. A Rust \<open>usize\<close> is a \<open>nat\<close>; a fixed-width field is a word.
  A \<open>u64\<close> that is only ever computed with (a block number, a byte count) is a \<open>nat\<close> whose bound
  is stated where it matters; the checked operations below carry their width explicitly.
\<close>

unbundle bit_operations_syntax

named_theorems codec_simps \<open>reading back what an encoder wrote\<close>
named_theorems len_simps \<open>lengths of encoded records\<close>
named_theorems fmt_consts \<open>numeric constants of the formats\<close>

type_synonym u8 = "8 word"
type_synonym u16 = "16 word"
type_synonym u32 = "32 word"
type_synonym u64 = "64 word"
type_synonym bytes = "u8 list"

subsection \<open>Results\<close>

text \<open>Rust's \<open>?\<close> on a \<open>Result\<close>: the error leaves the function, the value continues.\<close>

definition bindE :: "'e + 'a \<Rightarrow> ('a \<Rightarrow> 'e + 'b) \<Rightarrow> 'e + 'b" where
  "bindE m f = (case m of Inl e \<Rightarrow> Inl e | Inr x \<Rightarrow> f x)"

text \<open>An early \<open>return Err(e)\<close> under a condition.\<close>

definition failIf :: "bool \<Rightarrow> 'e \<Rightarrow> 'e + unit" where
  "failIf c e = (if c then Inl e else Inr ())"

definition ok_or :: "'a option \<Rightarrow> 'e \<Rightarrow> 'e + 'a" where
  "ok_or m e = (case m of None \<Rightarrow> Inl e | Some x \<Rightarrow> Inr x)"

definition okR :: "'e + 'a \<Rightarrow> 'a option" where
  "okR m = (case m of Inl _ \<Rightarrow> None | Inr x \<Rightarrow> Some x)"

definition is_ok :: "'e + 'a \<Rightarrow> bool" where
  "is_ok m = (case m of Inl _ \<Rightarrow> False | Inr _ \<Rightarrow> True)"

definition map_errE :: "('e \<Rightarrow> 'f) \<Rightarrow> 'e + 'a \<Rightarrow> 'f + 'a" where
  "map_errE f m = (case m of Inl e \<Rightarrow> Inl (f e) | Inr x \<Rightarrow> Inr x)"

subsection \<open>Arithmetic\<close>

definition div_ceil :: "nat \<Rightarrow> nat \<Rightarrow> nat" where
  "div_ceil a b = (a + b - 1) div b"

text \<open>\<open>checked_add\<close> at a width of \<open>w\<close> bits.\<close>

definition checked_add :: "nat \<Rightarrow> nat \<Rightarrow> nat \<Rightarrow> nat option" where
  "checked_add w a b = (if a + b < 2 ^ w then Some (a + b) else None)"

definition saturating_mul :: "nat \<Rightarrow> nat \<Rightarrow> nat \<Rightarrow> nat" where
  "saturating_mul w a b = min (a * b) (2 ^ w - 1)"

subsection \<open>Slices\<close>

text \<open>\<open>&xs[off..off + n]\<close> where the bounds are already known to hold.\<close>

definition slice :: "nat \<Rightarrow> nat \<Rightarrow> 'a list \<Rightarrow> 'a list" where
  "slice off n xs = take n (drop off xs)"

text \<open>\<open>xs.get(off..off + n)\<close>: \<open>None\<close> when the range leaves the slice.\<close>

definition get_range :: "'a list \<Rightarrow> nat \<Rightarrow> nat \<Rightarrow> 'a list option" where
  "get_range xs off n = (if off + n \<le> length xs then Some (slice off n xs) else None)"

text \<open>\<open>xs.get(i)\<close>.\<close>

definition get_at :: "'a list \<Rightarrow> nat \<Rightarrow> 'a option" where
  "get_at xs i = (if i < length xs then Some (xs ! i) else None)"

text \<open>An array of zeros, \<open>[0u8; n]\<close>.\<close>

definition zeros :: "nat \<Rightarrow> bytes" where
  "zeros n = replicate n 0"

text \<open>\<open>out[off..off + bs.len()].copy_from_slice(bs)\<close>.\<close>

definition put_bytes :: "'a list \<Rightarrow> nat \<Rightarrow> 'a list \<Rightarrow> 'a list" where
  "put_bytes out off bs = take off out @ bs @ drop (off + length bs) out"

subsection \<open>Lemmas on results\<close>

lemma bindE_simps [simp]:
  "bindE (Inl e) f = Inl e" "bindE (Inr x) f = f x"
  by (simp_all add: bindE_def)

lemma bindE_eq_Inr: "bindE m f = Inr y \<longleftrightarrow> (\<exists>x. m = Inr x \<and> f x = Inr y)"
  by (cases m) auto

lemma failIf_bind: "bindE (failIf c e) f = (if c then Inl e else f ())"
  by (simp add: failIf_def)

lemma failIf_eq_Inr [simp]: "failIf c e = Inr u \<longleftrightarrow> \<not> c"
  by (simp add: failIf_def)

lemma ok_or_simps [simp]:
  "ok_or None e = Inl e" "ok_or (Some x) e = Inr x"
  by (simp_all add: ok_or_def)

lemma ok_or_eq_Inr: "ok_or m e = Inr x \<longleftrightarrow> m = Some x"
  by (cases m) auto

lemma okR_simps [simp]: "okR (Inl e) = None" "okR (Inr x) = Some x"
  by (simp_all add: okR_def)

lemma okR_eq_Some: "okR m = Some x \<longleftrightarrow> m = Inr x"
  by (cases m) auto

lemma is_ok_simps [simp]: "\<not> is_ok (Inl e)" "is_ok (Inr x)"
  by (simp_all add: is_ok_def)

lemma map_errE_simps [simp]:
  "map_errE f (Inl e) = Inl (f e)" "map_errE f (Inr x) = Inr x"
  by (simp_all add: map_errE_def)

lemma map_errE_eq_Inr [simp]: "map_errE f m = Inr x \<longleftrightarrow> m = Inr x"
  by (cases m) auto

subsection \<open>Lemmas on slices\<close>

lemma length_slice [simp]: "length (slice off n xs) = min n (length xs - off)"
  by (simp add: slice_def)

lemma slice_0 [simp]: "slice off 0 xs = []"
  by (simp add: slice_def)

lemma slice_all: "length xs = n \<Longrightarrow> slice 0 n xs = xs"
  by (simp add: slice_def)

lemma nth_slice: "i < n \<Longrightarrow> off + i < length xs \<Longrightarrow> slice off n xs ! i = xs ! (off + i)"
  by (simp add: slice_def)

lemma slice_append_left: "off + n \<le> length xs \<Longrightarrow> slice off n (xs @ ys) = slice off n xs"
  by (simp add: slice_def)

lemma slice_append_right:
  "length xs \<le> off \<Longrightarrow> slice off n (xs @ ys) = slice (off - length xs) n ys"
  by (simp add: slice_def)

lemma slice_take: "off + n \<le> k \<Longrightarrow> slice off n (take k xs) = slice off n xs"
  by (simp add: slice_def drop_take min_def)

lemma slice_slice: "i + n \<le> m \<Longrightarrow> slice i n (slice off m xs) = slice (off + i) n xs"
  by (simp add: slice_def drop_take min_def add.commute)

lemma slice_Suc: "off < length xs \<Longrightarrow> slice off (Suc n) xs = xs ! off # slice (Suc off) n xs"
  by (simp add: slice_def Cons_nth_drop_Suc [symmetric])

lemma slice_append_slice:
  "slice off m xs @ slice (off + m) n xs = slice off (m + n) xs"
  by (simp add: slice_def take_add add.commute)

lemma take_append_slice: "take off xs @ slice off n xs = take (off + n) xs"
  by (simp add: slice_def take_add)

lemma get_range_Some: "get_range xs off n = Some ys \<Longrightarrow> ys = slice off n xs \<and> length ys = n"
  by (auto simp: get_range_def split: if_splits)

lemma get_range_in [simp]: "off + n \<le> length xs \<Longrightarrow> get_range xs off n = Some (slice off n xs)"
  by (simp add: get_range_def)

lemma get_at_in [simp]: "i < length xs \<Longrightarrow> get_at xs i = Some (xs ! i)"
  by (simp add: get_at_def)

lemma length_zeros [simp]: "length (zeros n) = n"
  by (simp add: zeros_def)

lemma slice_zeros: "off + n \<le> m \<Longrightarrow> slice off n (zeros m) = zeros n"
  by (simp add: slice_def zeros_def)

lemma nth_zeros [simp]: "i < n \<Longrightarrow> zeros n ! i = 0"
  by (simp add: zeros_def)

lemma take_zeros [simp]: "take k (zeros n) = zeros (min k n)"
  by (simp add: zeros_def)

lemma drop_zeros [simp]: "drop k (zeros n) = zeros (n - k)"
  by (simp add: zeros_def)

lemma zeros_append: "zeros m @ zeros n = zeros (m + n)"
  by (simp add: zeros_def replicate_add)

subsection \<open>Lemmas on writing into an array\<close>

lemma length_put_bytes [len_simps, simp]:
  "off + length bs \<le> length out \<Longrightarrow> length (put_bytes out off bs) = length out"
  by (simp add: put_bytes_def)

lemma slice_put_same [codec_simps]:
  "off + length bs \<le> length out \<Longrightarrow> n = length bs \<Longrightarrow> slice off n (put_bytes out off bs) = bs"
  by (simp add: put_bytes_def slice_def)

lemma slice_put_before [codec_simps]:
  "off + length bs \<le> length out \<Longrightarrow> a + n \<le> off \<Longrightarrow>
   slice a n (put_bytes out off bs) = slice a n out"
  by (rule nth_equalityI) (auto simp: put_bytes_def slice_def nth_append)

lemma slice_put_after [codec_simps]:
  assumes "off + length bs \<le> length out" and "off + length bs \<le> a"
  shows "slice a n (put_bytes out off bs) = slice a n out"
proof -
  have "drop a (put_bytes out off bs) = drop (a - (off + length bs)) (drop (off + length bs) out)"
    using assms by (simp add: put_bytes_def)
  also have "\<dots> = drop a out" using assms(2) by simp
  finally show ?thesis by (simp add: slice_def)
qed

lemma take_put_before [codec_simps]:
  "off + length bs \<le> length out \<Longrightarrow> k \<le> off \<Longrightarrow> take k (put_bytes out off bs) = take k out"
  by (simp add: put_bytes_def min_def)

lemma nth_put_bytes:
  assumes "off + length bs \<le> length out" and "i < length out"
  shows "put_bytes out off bs ! i =
    (if off \<le> i \<and> i < off + length bs then bs ! (i - off) else out ! i)"
  using assms by (auto simp: put_bytes_def nth_append)

lemma nth_put_in [codec_simps]:
  "off + length bs \<le> length out \<Longrightarrow> off \<le> i \<Longrightarrow> i < off + length bs \<Longrightarrow>
   put_bytes out off bs ! i = bs ! (i - off)"
  by (simp add: nth_put_bytes)

lemma nth_put_out [codec_simps]:
  "off + length bs \<le> length out \<Longrightarrow> i < length out \<Longrightarrow> i < off \<or> off + length bs \<le> i \<Longrightarrow>
   put_bytes out off bs ! i = out ! i"
  by (auto simp: nth_put_bytes)

lemma put_bytes_append:
  "off + length xs + length ys \<le> length out \<Longrightarrow>
   put_bytes (put_bytes out off xs) (off + length xs) ys = put_bytes out off (xs @ ys)"
  by (simp add: put_bytes_def ac_simps)

lemma put_bytes_Nil [simp]: "off \<le> length out \<Longrightarrow> put_bytes out off [] = out"
  by (simp add: put_bytes_def)

subsection \<open>Lemmas on arithmetic\<close>

lemma div_ceil_le_iff: "0 < b \<Longrightarrow> div_ceil a b \<le> n \<longleftrightarrow> a \<le> n * b"
proof -
  assume b: "0 < b"
  have "div_ceil a b \<le> n \<longleftrightarrow> (a + b - 1) div b < n + 1"
    by (auto simp: div_ceil_def)
  also have "\<dots> \<longleftrightarrow> a + b - 1 < (n + 1) * b"
    using b by (simp add: div_less_iff_less_mult)
  also have "\<dots> \<longleftrightarrow> a \<le> n * b"
    using b by (auto simp: algebra_simps)
  finally show ?thesis .
qed

lemma le_div_ceil_mult: "0 < b \<Longrightarrow> a \<le> div_ceil a b * b"
  using div_ceil_le_iff [of b a "div_ceil a b"] by simp

lemma div_ceil_mult_less: "0 < b \<Longrightarrow> 0 < a \<Longrightarrow> div_ceil a b * b < a + b"
proof -
  assume "0 < b" and "0 < a"
  then have "div_ceil a b * b \<le> a + b - 1"
    by (simp add: div_ceil_def)
  then show ?thesis using \<open>0 < a\<close> \<open>0 < b\<close> by linarith
qed

lemma div_ceil_0 [simp]: "0 < b \<Longrightarrow> div_ceil 0 b = 0"
  by (simp add: div_ceil_def)

lemma div_ceil_dvd [simp]: "0 < b \<Longrightarrow> div_ceil (k * b) b = k"
proof -
  assume b: "0 < b"
  have "div_ceil (k * b) b \<le> k" using b by (simp add: div_ceil_le_iff)
  moreover have "k * b \<le> div_ceil (k * b) b * b" using b by (rule le_div_ceil_mult)
  ultimately show ?thesis using b by simp
qed

lemma checked_add_Some: "checked_add w a b = Some c \<longleftrightarrow> c = a + b \<and> a + b < 2 ^ w"
  by (auto simp: checked_add_def)

subsection \<open>Lemmas on words\<close>

lemma word_unat_of_nat: "n < 2 ^ LENGTH('a) \<Longrightarrow> unat (of_nat n :: 'a::len word) = n"
  by (simp add: unat_of_nat take_bit_nat_eq_self)

lemma unat_add_no_wrap:
  "unat a + unat b < 2 ^ LENGTH('a) \<Longrightarrow> unat (a + b) = unat a + unat (b :: 'a::len word)"
  by (simp add: unat_word_ariths)

lemma unat_add_of_nat:
  "unat a + k < 2 ^ LENGTH('a) \<Longrightarrow> unat (a + of_nat k :: 'a::len word) = unat a + k"
  by (simp add: unat_add_no_wrap word_unat_of_nat)

lemma xor_cancel_left: "a XOR (a XOR b) = (b :: 'a::len word)"
  by (simp add: xor.assoc [symmetric])

lemma xor_eq_iff: "a XOR b = a XOR c \<longleftrightarrow> b = (c :: 'a::len word)"
  by (metis xor_cancel_left)

end
