(* ===== verification/Bytes.thy ===== *)
theory Bytes
  imports Prelude
begin

text \<open>
  Little-endian integers in byte arrays: \<open>to_le_bytes\<close> and \<open>from_le_bytes\<close> at every width, and
  the accessors of \<open>firmware/obc-storage/src/flat/raw.rs\<close> built on them. Reading back a written
  integer gives the integer, and an encoded integer is determined by its bytes.
\<close>

text \<open>\<open>from_le_bytes\<close>: the first byte is the least significant one.\<close>

fun of_le :: "bytes \<Rightarrow> 'a::len word" where
  "of_le [] = 0"
| "of_le (b # bs) = ucast b OR push_bit 8 (of_le bs)"

text \<open>\<open>to_le_bytes\<close> of an integer of \<open>n\<close> bytes.\<close>

fun to_le :: "nat \<Rightarrow> 'a::len word \<Rightarrow> bytes" where
  "to_le 0 w = []"
| "to_le (Suc n) w = ucast w # to_le n (drop_bit 8 w)"

definition le16 :: "u16 \<Rightarrow> bytes" where "le16 = to_le 2"

definition le32 :: "u32 \<Rightarrow> bytes" where "le32 = to_le 4"

definition le64 :: "u64 \<Rightarrow> bytes" where "le64 = to_le 8"

subsection \<open>The accessors of raw.rs\<close>

definition u16_at :: "bytes \<Rightarrow> nat \<Rightarrow> u16" where
  "u16_at bs off = of_le (slice off 2 bs)"

definition u32_at :: "bytes \<Rightarrow> nat \<Rightarrow> u32" where
  "u32_at bs off = of_le (slice off 4 bs)"

definition u64_at :: "bytes \<Rightarrow> nat \<Rightarrow> u64" where
  "u64_at bs off = of_le (slice off 8 bs)"

definition bytes16_at :: "bytes \<Rightarrow> nat \<Rightarrow> bytes" where
  "bytes16_at bs off = slice off 16 bs"

definition put_u16 :: "bytes \<Rightarrow> nat \<Rightarrow> u16 \<Rightarrow> bytes" where
  "put_u16 out off v = put_bytes out off (le16 v)"

definition put_u32 :: "bytes \<Rightarrow> nat \<Rightarrow> u32 \<Rightarrow> bytes" where
  "put_u32 out off v = put_bytes out off (le32 v)"

definition put_u64 :: "bytes \<Rightarrow> nat \<Rightarrow> u64 \<Rightarrow> bytes" where
  "put_u64 out off v = put_bytes out off (le64 v)"

text \<open>\<open>out[i] = b\<close> for one byte.\<close>

definition put_u8 :: "bytes \<Rightarrow> nat \<Rightarrow> u8 \<Rightarrow> bytes" where
  "put_u8 out off b = put_bytes out off [b]"

definition is_zero :: "bytes \<Rightarrow> nat \<Rightarrow> nat \<Rightarrow> bool" where
  "is_zero bs off n = list_all (\<lambda>b. b = 0) (slice off n bs)"

text \<open>The consecutive fields of a record, from offset \<open>off\<close>, of the given widths.\<close>

fun cells :: "nat \<Rightarrow> nat list \<Rightarrow> 'a list \<Rightarrow> 'a list list" where
  "cells off [] bs = []"
| "cells off (w # ws) bs = slice off w bs # cells (off + w) ws bs"

subsection \<open>Encoding an integer and reading it back\<close>

lemma length_to_le [simp]: "length (to_le n w) = n"
  by (induction n arbitrary: w) auto

lemma length_le [simp]: "length (le16 a) = 2" "length (le32 b) = 4" "length (le64 c) = 8"
  by (simp_all add: le16_def le32_def le64_def)

lemma of_le_to_le_take: "of_le (to_le n w) = take_bit (8 * n) (w :: 'a::len word)"
proof (induction n arbitrary: w)
  case 0
  then show ?case by simp
next
  case (Suc n)
  have "of_le (to_le (Suc n) w) = ucast (ucast w :: u8) OR push_bit 8 (take_bit (8 * n) (drop_bit 8 w))"
    by (simp add: Suc.IH)
  also have "\<dots> = take_bit (8 * Suc n) w"
    by (rule bit_word_eqI) (auto simp: bit_simps)
  finally show ?case .
qed

lemma of_le_to_le [simp]: "LENGTH('a) \<le> 8 * n \<Longrightarrow> of_le (to_le n w) = (w :: 'a::len word)"
  by (simp add: of_le_to_le_take take_bit_word_eq_self)

lemma ucast_of_le_Cons:
  "8 \<le> LENGTH('a) \<Longrightarrow> ucast (of_le (b # bs) :: 'a::len word) = b"
  by (rule bit_word_eqI) (auto simp: bit_simps)

lemma drop_of_le_Cons:
  assumes "8 * length (b # bs) \<le> LENGTH('a)"
  shows "drop_bit 8 (of_le (b # bs) :: 'a::len word) = of_le bs"
proof -
  have small: "take_bit (8 * length bs) (of_le bs :: 'a word) = of_le bs" for bs
  proof (induction bs)
    case (Cons b bs)
    have "take_bit (8 * length (b # bs)) (of_le (b # bs) :: 'a word) =
        ucast b OR push_bit 8 (take_bit (8 * length bs) (of_le bs))"
      by (rule bit_word_eqI) (auto simp: bit_simps dest: bit_imp_le_length)
    then show ?case by (simp add: Cons.IH)
  qed simp
  have "drop_bit 8 (of_le (b # bs) :: 'a word) = take_bit (LENGTH('a) - 8) (of_le bs)"
    by (rule bit_word_eqI) (auto simp: bit_simps dest: bit_imp_le_length)
  also have "\<dots> = take_bit (LENGTH('a) - 8) (take_bit (8 * length bs) (of_le bs))"
    by (simp add: small)
  also have "\<dots> = take_bit (8 * length bs) (of_le bs)"
    using assms by (simp add: min_absorb2)
  also have "\<dots> = of_le bs" by (rule small)
  finally show ?thesis .
qed

lemma to_le_of_le [simp]:
  "length bs = n \<Longrightarrow> 8 * n \<le> LENGTH('a) \<Longrightarrow> to_le n (of_le bs :: 'a::len word) = bs"
proof (induction bs arbitrary: n)
  case (Cons b bs)
  then have "8 * length (b # bs) \<le> LENGTH('a)" by auto
  then show ?case
    using Cons by (auto simp: ucast_of_le_Cons drop_of_le_Cons simp del: of_le.simps)
qed simp

lemma of_le_inj:
  "length xs = length ys \<Longrightarrow> 8 * length xs \<le> LENGTH('a) \<Longrightarrow>
   (of_le xs :: 'a::len word) = of_le ys \<longleftrightarrow> xs = ys"
  by (metis to_le_of_le)

lemma of_le_le [simp]: "of_le (le16 a) = a" "of_le (le32 b) = b" "of_le (le64 c) = c"
  by (simp_all add: le16_def le32_def le64_def)

lemma le_of_le:
  "length xs = 2 \<Longrightarrow> le16 (of_le xs) = xs"
  "length ys = 4 \<Longrightarrow> le32 (of_le ys) = ys"
  "length zs = 8 \<Longrightarrow> le64 (of_le zs) = zs"
  by (simp_all add: le16_def le32_def le64_def)

lemma le_inject [simp]:
  "le16 a = le16 a' \<longleftrightarrow> a = a'" "le32 b = le32 b' \<longleftrightarrow> b = b'" "le64 c = le64 c' \<longleftrightarrow> c = c'"
  by (metis of_le_le)+

lemmas put_defs [codec_simps] = put_u8_def put_u16_def put_u32_def put_u64_def

lemmas at_defs [codec_simps] = u16_at_def u32_at_def u64_at_def bytes16_at_def

subsection \<open>Reserved fields\<close>

lemma is_zero_iff: "off + n \<le> length bs \<Longrightarrow> is_zero bs off n \<longleftrightarrow> slice off n bs = zeros n"
  by (auto simp: is_zero_def zeros_def list_all_iff replicate_eqI
      dest: arg_cong [where f = set] intro!: replicate_eqI)

lemma is_zero_cong: "slice off n bs = slice off n bs' \<Longrightarrow> is_zero bs off n = is_zero bs' off n"
  by (simp add: is_zero_def)

lemma is_zero_zeros [codec_simps]: "is_zero (zeros m) off n"
  by (auto simp: is_zero_def list_all_iff slice_def zeros_def dest: in_set_dropD in_set_takeD)

lemma is_zero_put [codec_simps]:
  "off + length bs \<le> length out \<Longrightarrow> a + n \<le> off \<or> off + length bs \<le> a \<Longrightarrow>
   is_zero (put_bytes out off bs) a n = is_zero out a n"
  by (rule is_zero_cong) (auto simp: codec_simps)

subsection \<open>Records as sequences of fields\<close>

lemma concat_cells: "concat (cells off ws bs) = slice off (sum_list ws) bs"
  by (induction ws arbitrary: off) (simp_all add: slice_append_slice)

lemma cells_take_eqI:
  "cells 0 ws xs = cells 0 ws ys \<Longrightarrow> sum_list ws = n \<Longrightarrow> take n xs = take n ys"
  by (metis concat_cells slice_def drop0)

lemma cells_eqI:
  "cells 0 ws xs = cells 0 ws ys \<Longrightarrow> length xs = sum_list ws \<Longrightarrow> length ys = sum_list ws \<Longrightarrow> xs = ys"
  using cells_take_eqI [of ws xs ys "sum_list ws"] by simp

lemma le_at:
  "off + 2 \<le> length bs \<Longrightarrow> le16 (u16_at bs off) = slice off 2 bs"
  "off + 4 \<le> length bs \<Longrightarrow> le32 (u32_at bs off) = slice off 4 bs"
  "off + 8 \<le> length bs \<Longrightarrow> le64 (u64_at bs off) = slice off 8 bs"
  by (simp_all add: u16_at_def u32_at_def u64_at_def le_of_le)

lemma slice_at:
  "u16_at bs off = v \<Longrightarrow> off + 2 \<le> length bs \<Longrightarrow> slice off 2 bs = le16 v"
  "u32_at bs off = v' \<Longrightarrow> off + 4 \<le> length bs \<Longrightarrow> slice off 4 bs = le32 v'"
  "u64_at bs off = v'' \<Longrightarrow> off + 8 \<le> length bs \<Longrightarrow> slice off 8 bs = le64 v''"
  by (auto simp: le_at)

lemma slice_one:
  "off < length bs \<Longrightarrow> slice off (Suc 0) bs = [bs ! off]"
  "off < length bs \<Longrightarrow> slice off 1 bs = [bs ! off]"
  by (simp_all add: slice_Suc)

lemma cells_concat:
  "map length fs = ws \<Longrightarrow> cells (length pre) ws (pre @ concat fs @ rest) = fs"
proof (induction fs arbitrary: ws pre)
  case (Cons f fs)
  have "cells (length pre + length f) (map length fs) ((pre @ f) @ concat fs @ rest) = fs"
    using Cons.IH [of "map length fs" "pre @ f"] by simp
  then show ?case using Cons.prems by (auto simp: slice_def)
qed simp

text \<open>Filling a zeroed block in ascending order appends the fields, with zeros in the gaps.\<close>

fun ascending :: "nat \<Rightarrow> nat \<Rightarrow> (nat \<times> bytes) list \<Rightarrow> bool" where
  "ascending at n [] \<longleftrightarrow> at \<le> n"
| "ascending at n ((off, bs) # fs) \<longleftrightarrow> at \<le> off \<and> ascending (off + length bs) n fs"

fun filled :: "nat \<Rightarrow> nat \<Rightarrow> (nat \<times> bytes) list \<Rightarrow> bytes" where
  "filled at n [] = zeros (n - at)"
| "filled at n ((off, bs) # fs) = zeros (off - at) @ bs @ filled (off + length bs) n fs"

lemma ascending_le: "ascending at n fs \<Longrightarrow> at \<le> n"
  by (induction fs arbitrary: at) fastforce+

lemma fold_put_filled:
  "ascending (length xs) n fs \<Longrightarrow>
   fold (\<lambda>(off, bs) out. put_bytes out off bs) fs (xs @ zeros (n - length xs)) = xs @ filled (length xs) n fs"
proof (induction fs arbitrary: xs)
  case (Cons f fs)
  obtain off bs where f: "f = (off, bs)" by fastforce
  define ys where "ys = xs @ zeros (off - length xs) @ bs"
  have asc: "length xs \<le> off" "ascending (off + length bs) n fs" using Cons.prems by (simp_all add: f)
  have len: "length ys = off + length bs" using asc(1) by (simp add: ys_def)
  have "off + length bs \<le> n" using ascending_le [OF asc(2)] .
  then have "put_bytes (xs @ zeros (n - length xs)) off bs = ys @ zeros (n - length ys)"
    using asc(1) len by (simp add: put_bytes_def ys_def)
  then show ?case using Cons.IH [of ys] asc(2) by (simp add: f len) (simp add: ys_def)
qed simp

end
