(* ===== verification/Crc32.thy ===== *)
theory Crc32
  imports Bytes
begin

text \<open>
  CRC-32/IEEE, \<open>firmware/obc-crc/src/lib.rs\<close>: the lookup table and the eight slicing lanes as the
  compile-time loops build them, the incremental hasher and both builds of its \<open>update\<close>
  (byte at a time, and slice-by-8 for the application firmware).

  One table-driven byte step is eight steps of the bitwise remainder, which is linear over XOR and
  injective. From linearity the two builds of \<open>update\<close> agree on every input; from injectivity two
  messages of one length that differ inside a window of four bytes have different checksums, which
  is what every CRC-framed record of the formats relies on.
\<close>

subsection \<open>The tables\<close>

text \<open>One round of the inner loop that builds the table.\<close>

definition crc_bit :: "u32 \<Rightarrow> u32" where
  "crc_bit c = (if c AND 1 \<noteq> 0 then 0xEDB88320 XOR drop_bit 1 c else drop_bit 1 c)"

fun crc_bits :: "nat \<Rightarrow> u32 \<Rightarrow> u32" where
  "crc_bits 0 c = c"
| "crc_bits (Suc k) c = crc_bits k (crc_bit c)"

definition TABLE :: "u32 list" where
  "TABLE = map (\<lambda>i. crc_bits 8 (of_nat i)) [0..<256]"

text \<open>Lane \<open>l\<close> of the slicing tables, each lane computed from the one before it.\<close>

fun tables_lane :: "nat \<Rightarrow> u32 list" where
  "tables_lane 0 = TABLE"
| "tables_lane (Suc l) =
     map (\<lambda>prior. TABLE ! unat (prior AND 0xFF) XOR drop_bit 8 prior) (tables_lane l)"

definition TABLES :: "u32 list list" where
  "TABLES = map tables_lane [0..<8]"

subsection \<open>The hasher\<close>

record crc32_hasher =
  crc_state :: u32

definition crc_new :: crc32_hasher where
  "crc_new = \<lparr>crc_state = 0xFFFFFFFF\<rparr>"

definition from_checksum :: "u32 \<Rightarrow> crc32_hasher" where
  "from_checksum checksum = \<lparr>crc_state = checksum XOR 0xFFFFFFFF\<rparr>"

definition crc_byte :: "u8 \<Rightarrow> u32 \<Rightarrow> u32" where
  "crc_byte b c = TABLE ! unat ((c XOR ucast b) AND 0xFF) XOR drop_bit 8 c"

text \<open>\<open>update\<close> as the compact builds compile it.\<close>

definition crc_update :: "crc32_hasher \<Rightarrow> bytes \<Rightarrow> crc32_hasher" where
  "crc_update h bs = h\<lparr>crc_state := fold crc_byte bs (crc_state h)\<rparr>"

text \<open>One eight-byte chunk of the \<open>slice-by-8\<close> build.\<close>

definition crc_chunk8 :: "bytes \<Rightarrow> u32 \<Rightarrow> u32" where
  "crc_chunk8 chunk c =
     (let first = of_le (slice 0 4 chunk) XOR c; second = of_le (slice 4 4 chunk) :: u32 in
      (TABLES ! 7) ! unat (first AND 0xFF)
      XOR (TABLES ! 6) ! unat (drop_bit 8 first AND 0xFF)
      XOR (TABLES ! 5) ! unat (drop_bit 16 first AND 0xFF)
      XOR (TABLES ! 4) ! unat (drop_bit 24 first)
      XOR (TABLES ! 3) ! unat (second AND 0xFF)
      XOR (TABLES ! 2) ! unat (drop_bit 8 second AND 0xFF)
      XOR (TABLES ! 1) ! unat (drop_bit 16 second AND 0xFF)
      XOR (TABLES ! 0) ! unat (drop_bit 24 second))"

text \<open>The loop over the eight-byte chunks, then the byte loop over the remainder.\<close>

function crc_fold8 :: "bytes \<Rightarrow> u32 \<Rightarrow> u32" where
  "crc_fold8 bs c =
     (if 8 \<le> length bs then crc_fold8 (drop 8 bs) (crc_chunk8 (take 8 bs) c)
      else fold crc_byte bs c)"
  by pat_completeness auto
termination
  by (relation "measure (\<lambda>(bs, c). length bs)") auto

definition crc_update_slice8 :: "crc32_hasher \<Rightarrow> bytes \<Rightarrow> crc32_hasher" where
  "crc_update_slice8 h bs = h\<lparr>crc_state := crc_fold8 bs (crc_state h)\<rparr>"

definition finalize :: "crc32_hasher \<Rightarrow> u32" where
  "finalize h = crc_state h XOR 0xFFFFFFFF"

definition checksum :: "bytes \<Rightarrow> u32" where
  "checksum bs = finalize (crc_update crc_new bs)"

definition crc32 :: "bytes \<Rightarrow> u32" where
  "crc32 data = checksum data"

declare crc_fold8.simps [simp del]

subsection \<open>The bitwise remainder is linear and injective\<close>

lemma crc_bit_alt: "crc_bit c = (if odd c then 0xEDB88320 XOR drop_bit 1 c else drop_bit 1 c)"
  by (simp add: crc_bit_def and_one_eq odd_iff_mod_2_eq_one)

lemma drop_bit_xor_word: "drop_bit n (a XOR b) = drop_bit n a XOR drop_bit n (b :: 'a::len word)"
  by (rule bit_word_eqI) (simp add: bit_simps)

lemma crc_bit_xor: "crc_bit (a XOR b) = crc_bit a XOR crc_bit b"
  by (cases "odd a"; cases "odd b")
    (simp_all add: crc_bit_alt drop_bit_xor_word even_xor_iff ac_simps xor_cancel_left)

lemma crc_bits_xor: "crc_bits n (a XOR b) = crc_bits n a XOR crc_bits n b"
  by (induction n arbitrary: a b) (simp_all add: crc_bit_xor)

lemma crc_bits_add: "crc_bits (m + n) c = crc_bits n (crc_bits m c)"
  by (induction m arbitrary: c) simp_all

lemma crc_bits_shift: "take_bit n c = 0 \<Longrightarrow> crc_bits n c = drop_bit n c"
proof (induction n arbitrary: c)
  case (Suc n)
  have even: "even c"
  proof -
    have "bit (take_bit (Suc n) c) 0 \<longleftrightarrow> bit c 0" by (simp add: bit_take_bit_iff)
    then show ?thesis using Suc.prems by (simp add: bit_0)
  qed
  have "take_bit n (drop_bit 1 c) = drop_bit 1 (take_bit (Suc n) c)"
    by (rule bit_word_eqI) (simp add: bit_simps)
  then have "take_bit n (drop_bit 1 c) = 0" using Suc.prems by simp
  then have "crc_bits n (drop_bit 1 c) = drop_bit n (drop_bit 1 c)" by (rule Suc.IH)
  with even show ?case by (simp add: crc_bit_alt)
qed simp

lemma crc_bit_zero: "crc_bit d = 0 \<longleftrightarrow> d = 0"
proof
  assume z: "crc_bit d = 0"
  have "even d"
  proof (rule ccontr)
    assume "odd d"
    with z have "0xEDB88320 XOR drop_bit 1 d = (0 :: u32)" by (simp add: crc_bit_alt)
    then have "bit (0xEDB88320 XOR drop_bit 1 d) 31 = bit (0 :: u32) 31" by simp
    then show False by (auto simp: bit_simps dest: bit_imp_le_length)
  qed
  with z have d: "drop_bit 1 d = 0" by (simp add: crc_bit_alt)
  show "d = 0"
  proof (rule bit_word_eqI)
    fix n assume "n < LENGTH(32)"
    show "bit d n \<longleftrightarrow> bit (0 :: u32) n"
    proof (cases n)
      case 0
      with \<open>even d\<close> show ?thesis by (simp add: bit_0)
    next
      case (Suc m)
      have "bit d n = bit (drop_bit 1 d) m" using Suc by (simp add: bit_drop_bit_eq)
      with d show ?thesis by simp
    qed
  qed
qed (simp add: crc_bit_alt)

lemma crc_bits_zero: "crc_bits n d = 0 \<longleftrightarrow> d = 0"
  by (induction n arbitrary: d) (simp_all add: crc_bit_zero)

lemma crc_bits_inj: "crc_bits n a = crc_bits n b \<longleftrightarrow> a = b"
proof -
  have "crc_bits n a = crc_bits n b \<longleftrightarrow> crc_bits n (a XOR b) = 0"
    by (metis crc_bits_xor xor_eq_iff xor_self_eq)
  then show ?thesis by (metis crc_bits_zero xor_eq_iff xor_self_eq)
qed

subsection \<open>One byte through the table\<close>

lemma TABLE_nth: "i < 256 \<Longrightarrow> TABLE ! i = crc_bits 8 (of_nat i)"
  by (simp add: TABLE_def)

lemma and_255_less: "unat (x AND 255 :: u32) < 256"
proof -
  have "x AND 255 = take_bit 8 x"
    by (simp add: take_bit_eq_mask mask_eq_exp_minus_1)
  then show ?thesis by (simp add: unsigned_take_bit_eq take_bit_nat_less_exp
      order_less_le_trans [OF take_bit_nat_less_exp])
qed

lemma TABLE_and: "TABLE ! unat (x AND 255) = crc_bits 8 (x AND 255)"
  by (simp add: TABLE_nth and_255_less)

lemma crc_bits8_split: "crc_bits 8 c = crc_bits 8 (c AND 255) XOR drop_bit 8 c"
proof -
  let ?hi = "push_bit 8 (drop_bit 8 c)"
  have c: "c = (c AND 255) XOR ?hi"
    by (rule bit_word_eqI) (auto simp: bit_simps take_bit_eq_mask [symmetric]
        mask_eq_exp_minus_1 [of 8, where 'a = u32, simplified, symmetric])
  have "take_bit 8 ?hi = 0"
    by (rule bit_word_eqI) (simp add: bit_simps)
  then have "crc_bits 8 ?hi = drop_bit 8 ?hi" by (rule crc_bits_shift)
  also have "\<dots> = drop_bit 8 c"
    by (rule bit_word_eqI) (auto simp: bit_simps dest: bit_imp_le_length)
  finally show ?thesis by (subst c) (simp add: crc_bits_xor)
qed

lemma crc_byte_bits [code]: "crc_byte b c = crc_bits 8 (c XOR ucast b)"
proof -
  have "drop_bit 8 (c XOR ucast b) = drop_bit 8 c"
    by (rule bit_word_eqI) (auto simp: bit_simps dest: bit_imp_le_length)
  then show ?thesis
    by (simp add: crc_byte_def TABLE_and crc_bits8_split [of "c XOR ucast b"])
qed

text \<open>Up to four bytes are one remainder of the state with the bytes folded in.\<close>

lemma fold_crc_bits:
  "length bs \<le> 4 \<Longrightarrow> fold crc_byte bs c = crc_bits (8 * length bs) (c XOR of_le bs)"
proof (induction bs arbitrary: c)
  case (Cons b bs)
  let ?hi = "push_bit 8 (of_le bs) :: u32"
  have le: "(of_le (b # bs) :: u32) = ucast b XOR ?hi"
    by (rule bit_word_eqI) (auto simp: bit_simps dest: bit_imp_le_length)
  have "take_bit 8 ?hi = 0"
    by (rule bit_word_eqI) (simp add: bit_simps)
  then have hi: "crc_bits 8 ?hi = drop_bit 8 ?hi" by (rule crc_bits_shift)
  have "drop_bit 8 (of_le (b # bs) :: u32) = of_le bs"
    using Cons.prems by (intro drop_of_le_Cons) simp
  moreover have "drop_bit 8 (of_le (b # bs) :: u32) = drop_bit 8 ?hi"
    unfolding le drop_bit_xor_word
    by (rule bit_word_eqI) (auto simp: bit_simps dest: bit_imp_le_length)
  ultimately have hi: "crc_bits 8 ?hi = of_le bs" using hi by simp
  have "fold crc_byte (b # bs) c = crc_bits (8 * length bs) (crc_bits 8 (c XOR ucast b) XOR of_le bs)"
    using Cons.prems Cons.IH [of "crc_byte b c"] by (simp add: crc_byte_bits [of b c])
  also have "crc_bits 8 (c XOR ucast b) XOR of_le bs = crc_bits 8 (c XOR of_le (b # bs))"
    by (simp only: le crc_bits_xor hi xor.assoc)
  also have "crc_bits (8 * length bs) (crc_bits 8 (c XOR of_le (b # bs))) =
      crc_bits (8 + 8 * length bs) (c XOR of_le (b # bs))"
    by (simp only: crc_bits_add)
  finally show ?case by simp
qed simp

subsection \<open>The slicing lanes\<close>

lemma length_tables_lane [simp]: "length (tables_lane l) = 256"
  by (induction l) (simp_all add: TABLE_def)

lemma tables_lane_nth: "i < 256 \<Longrightarrow> tables_lane l ! i = crc_bits (8 * Suc l) (of_nat i)"
proof (induction l)
  case 0
  then show ?case by (simp add: TABLE_nth)
next
  case (Suc l)
  have "tables_lane (Suc l) ! i = crc_bits 8 (crc_bits (8 * Suc l) (of_nat i))"
    using Suc by (simp add: TABLE_and crc_bits8_split [symmetric] del: crc_bits.simps)
  also have "\<dots> = crc_bits (8 * Suc (Suc l)) (of_nat i)"
    by (simp only: crc_bits_add [symmetric]) (simp add: algebra_simps)
  finally show ?case .
qed

lemma TABLES_nth:
  "l < 8 \<Longrightarrow> unat x < 256 \<Longrightarrow> (TABLES ! l) ! unat (x :: u32) = crc_bits (8 * Suc l) x"
  by (simp add: TABLES_def tables_lane_nth del: crc_bits.simps)

lemma drop_24_less: "unat (drop_bit 24 x :: u32) < 256"
proof -
  have "unat (drop_bit 24 x) = unat x div 2 ^ 24"
    by (simp only: unat_drop_bit_eq) (simp only: drop_bit_eq_div)
  also have "\<dots> < 256"
    using unsigned_less [where ?'a = nat, of x] by (simp add: less_mult_imp_div_less)
  finally show ?thesis .
qed

lemma crc_bits_peel:
  "8 \<le> n \<Longrightarrow> crc_bits n x = crc_bits n (x AND 255) XOR crc_bits (n - 8) (drop_bit 8 x)"
proof -
  assume n: "8 \<le> n"
  have "crc_bits n x = crc_bits (n - 8) (crc_bits 8 (x AND 255) XOR drop_bit 8 x)"
    using crc_bits_add [of 8 "n - 8" x] n by (simp add: crc_bits8_split [of x])
  also have "\<dots> = crc_bits n (x AND 255) XOR crc_bits (n - 8) (drop_bit 8 x)"
    using crc_bits_add [of 8 "n - 8" "x AND 255"] n by (simp add: crc_bits_xor)
  finally show ?thesis .
qed

text \<open>A word is the XOR of its four bytes, each moved down by its own number of byte steps.\<close>

lemma crc_bits_word:
  assumes "32 \<le> n"
  shows "crc_bits n x = crc_bits n (x AND 255) XOR crc_bits (n - 8) (drop_bit 8 x AND 255)
    XOR crc_bits (n - 16) (drop_bit 16 x AND 255) XOR crc_bits (n - 24) (drop_bit 24 x)"
proof -
  have "crc_bits n x = crc_bits n (x AND 255) XOR crc_bits (n - 8) (drop_bit 8 x)"
    using assms by (intro crc_bits_peel) simp
  also have "crc_bits (n - 8) (drop_bit 8 x) =
      crc_bits (n - 8) (drop_bit 8 x AND 255) XOR crc_bits (n - 16) (drop_bit 16 x)"
    using assms crc_bits_peel [of "n - 8" "drop_bit 8 x"] by simp
  also have "crc_bits (n - 16) (drop_bit 16 x) =
      crc_bits (n - 16) (drop_bit 16 x AND 255) XOR crc_bits (n - 24) (drop_bit 24 x)"
    using assms crc_bits_peel [of "n - 16" "drop_bit 16 x"] by simp
  finally show ?thesis by (simp add: xor.assoc)
qed

lemma crc_chunk8_fold:
  assumes "length bs = 8"
  shows "crc_chunk8 bs c = fold crc_byte bs c"
proof -
  define a where "a = slice 0 4 bs"
  define b where "b = slice 4 4 bs"
  define first where "first = of_le a XOR c"
  define second where "second = (of_le b :: u32)"
  have len: "length a = 4" "length b = 4" using assms by (simp_all add: a_def b_def)
  have bs: "bs = a @ b"
    using assms slice_append_slice [of 0 4 bs 4] by (simp add: a_def b_def slice_all)
  have "fold crc_byte bs c = crc_bits 32 (crc_bits 32 first XOR second)"
    by (simp add: bs fold_crc_bits len first_def second_def xor.commute del: crc_bits.simps)
  also have "\<dots> = crc_bits 64 first XOR crc_bits 32 second"
    using crc_bits_add [of 32 32 first] by (simp add: crc_bits_xor del: crc_bits.simps)
  also have "crc_bits 64 first = crc_bits 64 (first AND 255)
      XOR crc_bits 56 (drop_bit 8 first AND 255) XOR crc_bits 48 (drop_bit 16 first AND 255)
      XOR crc_bits 40 (drop_bit 24 first)"
    using crc_bits_word [of 64 first] by (simp del: crc_bits.simps)
  also have "crc_bits 32 second = crc_bits 32 (second AND 255)
      XOR crc_bits 24 (drop_bit 8 second AND 255) XOR crc_bits 16 (drop_bit 16 second AND 255)
      XOR crc_bits 8 (drop_bit 24 second)"
    using crc_bits_word [of 32 second] by (simp del: crc_bits.simps)
  finally show ?thesis
    by (simp add: crc_chunk8_def Let_def a_def [symmetric] b_def [symmetric]
        first_def [symmetric] second_def [symmetric] TABLES_nth and_255_less drop_24_less
        xor.assoc del: crc_bits.simps)
qed

lemma crc_fold8_eq: "crc_fold8 bs c = fold crc_byte bs c"
proof (induction bs c rule: crc_fold8.induct)
  case (1 bs c)
  show ?case
  proof (cases "8 \<le> length bs")
    case True
    have "crc_fold8 bs c = fold crc_byte (drop 8 bs) (fold crc_byte (take 8 bs) c)"
      using True "1.IH" by (simp add: crc_fold8.simps [of bs] crc_chunk8_fold)
    also have "\<dots> = fold crc_byte (take 8 bs @ drop 8 bs) c" by (simp only: fold_append o_apply)
    finally show ?thesis by simp
  next
    case False
    then show ?thesis by (simp add: crc_fold8.simps [of bs])
  qed
qed

subsection \<open>The hasher as a running checksum\<close>

lemma crc_update_append: "crc_update h (xs @ ys) = crc_update (crc_update h xs) ys"
  by (simp add: crc_update_def)

lemma crc_update_Nil [simp]: "crc_update h [] = h"
  by (simp add: crc_update_def)

lemma finalize_from_checksum [simp]: "from_checksum (finalize h) = h"
  by (simp add: from_checksum_def finalize_def xor.assoc)

lemma crc32_alt: "crc32 bs = fold crc_byte bs 0xFFFFFFFF XOR 0xFFFFFFFF"
  by (simp add: crc32_def checksum_def finalize_def crc_update_def crc_new_def)

lemma finalize_new_update: "finalize (crc_update crc_new bs) = crc32 bs"
  by (simp add: crc32_def checksum_def)

lemma fold_crc_inj: "fold crc_byte bs c = fold crc_byte bs c' \<longleftrightarrow> c = c'"
proof (induction bs arbitrary: c c')
  case (Cons b bs)
  have "fold crc_byte (b # bs) c = fold crc_byte (b # bs) c' \<longleftrightarrow> crc_byte b c = crc_byte b c'"
    by (simp add: Cons.IH)
  also have "\<dots> \<longleftrightarrow> c = c'"
    by (simp add: crc_byte_bits crc_bits_inj) (metis xor.commute xor_eq_iff)
  finally show ?case .
qed simp

lemma fold_crc_window:
  assumes "length xs = length ys" and "length xs \<le> 4"
  shows "fold crc_byte xs c = fold crc_byte ys c \<longleftrightarrow> xs = ys"
proof -
  have "fold crc_byte xs c = fold crc_byte ys c \<longleftrightarrow> (of_le xs :: u32) = of_le ys"
    using assms by (simp add: fold_crc_bits crc_bits_inj xor_eq_iff)
  then show ?thesis using assms by (simp add: of_le_inj)
qed

lemma burst_differs:
  assumes "length mid = length mid'" and "length mid \<le> 4" and "mid \<noteq> mid'"
  shows "crc32 (pre @ mid @ post) \<noteq> crc32 (pre @ mid' @ post)"
  using assms by (auto simp: crc32_alt fold_crc_inj fold_crc_window
      dest: arg_cong [where f = "\<lambda>x. x XOR 0xFFFFFFFF"] simp: xor.assoc)

text \<open>
  A frame is a message followed by its own checksum, least significant byte first. The hasher's
  state after a whole frame is one constant exactly when the stored checksum is right.
\<close>

definition crc_residue :: u32 where
  "crc_residue = crc_bits 32 0xFFFFFFFF"

lemma crc_frame_iff:
  assumes "length st = 4"
  shows "of_le st = crc32 data \<longleftrightarrow> fold crc_byte (data @ st) 0xFFFFFFFF = crc_residue"
proof -
  let ?s = "fold crc_byte data 0xFFFFFFFF"
  have "fold crc_byte (data @ st) 0xFFFFFFFF = crc_bits 32 (?s XOR of_le st)"
    using assms by (simp add: fold_crc_bits del: crc_bits.simps)
  then have "fold crc_byte (data @ st) 0xFFFFFFFF = crc_residue \<longleftrightarrow> ?s XOR of_le st = 0xFFFFFFFF"
    by (simp add: crc_residue_def crc_bits_inj)
  also have "\<dots> \<longleftrightarrow> of_le st = ?s XOR 0xFFFFFFFF"
    by (metis xor_cancel_left)
  finally show ?thesis by (simp add: crc32_alt)
qed

text \<open>
  No valid frame turns into another valid frame by damage inside four consecutive bytes, the
  stored checksum included.
\<close>

lemma crc_frame_damage:
  assumes "length mid = length mid'" and "length mid \<le> 4" and "mid \<noteq> mid'"
    and "data @ st = pre @ mid @ post" and "data' @ st' = pre @ mid' @ post"
    and "length st = 4" and "length st' = 4" and "of_le st = crc32 data"
  shows "of_le st' \<noteq> crc32 data'"
proof -
  have "fold crc_byte (pre @ mid @ post) 0xFFFFFFFF = crc_residue"
    using assms by (simp only: crc_frame_iff assms(4) [symmetric])
  moreover have "fold crc_byte (pre @ mid @ post) 0xFFFFFFFF \<noteq> fold crc_byte (pre @ mid' @ post) 0xFFFFFFFF"
    using assms(1-3) by (simp add: fold_crc_inj fold_crc_window)
  ultimately show ?thesis
    using assms(7) by (simp only: crc_frame_iff assms(5))
qed

subsection \<open>Properties\<close>

text \<open>
  C20: the slice-by-8 build of \<open>update\<close> computes exactly what the byte-at-a-time build computes, on
  every running state and every input, so a checksum written by the application firmware is the one
  the bootloader and the companion recompute.
\<close>

theorem crc_update_slice8_eq: "crc_update_slice8 h bs = crc_update h bs"
  by (simp add: crc_update_slice8_def crc_update_def crc_fold8_eq)

text \<open>
  C21: two messages of one length that differ only inside a window of at most four bytes have
  different CRC-32 values; the surrounding bytes may be anything of any length.
\<close>

theorem crc32_detects_burst:
  assumes "length mid = length mid'" and "length mid \<le> 4" and "mid \<noteq> mid'"
  shows "crc32 (pre @ mid @ post) \<noteq> crc32 (pre @ mid' @ post)"
  using assms by (rule burst_differs)

theorem crc32_detects_burst_witness:
  "crc32 ([1, 2] @ [3, 4] @ [5]) \<noteq> crc32 ([1, 2] @ [3, 5] @ [5])"
  by (rule crc32_detects_burst) simp_all

text \<open>
  A checksum is a resume anchor: hashing a prefix, keeping only its finalized CRC, and
  continuing from it over the rest gives the CRC of the whole message, wherever it is cut; and the
  standard check value holds, \<open>crc32("123456789") = 0xCBF43926\<close>.
\<close>

theorem crc32_resumes:
  "finalize (crc_update (from_checksum (crc32 xs)) ys) = crc32 (xs @ ys)
   \<and> crc32 [49, 50, 51, 52, 53, 54, 55, 56, 57] = 0xCBF43926"
proof
  show "finalize (crc_update (from_checksum (crc32 xs)) ys) = crc32 (xs @ ys)"
    by (simp add: finalize_new_update [symmetric] crc_update_append)
  show "crc32 [49, 50, 51, 52, 53, 54, 55, 56, 57] = 0xCBF43926"
    by code_simp
qed

end
