(* ===== verification/Dfu_Image.thy ===== *)
theory Dfu_Image
  imports Crc32
begin

text \<open>
  The memory map of the update path (\<open>firmware/obc-dfu/src/layout.rs\<close>), the OBCU image header
  codec (\<open>image.rs\<close>), the signed message and key files (\<open>sig.rs\<close>) and the staged-blob carve
  (\<open>blobstage.rs\<close>). Both codecs are CRC-framed: what was encoded decodes to itself, and damage
  inside four consecutive bytes of a header never decodes.

  The Ed25519 primitives themselves come from a third-party crate and are parameters of the
  definitions that use them (theory \<open>Dfu_Armer\<close>).
\<close>

subsection \<open>The memory map: layout.rs\<close>

definition PAGE_LEN :: nat where [fmt_consts]: "PAGE_LEN = 4096"

definition STAGE_LEN :: nat where [fmt_consts]: "STAGE_LEN = 20480"

definition APP_SLOT_BASE :: u32 where [fmt_consts]: "APP_SLOT_BASE = 0x00008000"

definition BOOT_STATE_BASE :: u32 where [fmt_consts]: "BOOT_STATE_BASE = 0x001FB000"

definition SEMMC_STAGE_BASE :: u32 where
  [fmt_consts]: "SEMMC_STAGE_BASE = BOOT_STATE_BASE - of_nat STAGE_LEN"

definition APP_SLOT_LEN :: u32 where
  [fmt_consts]: "APP_SLOT_LEN = SEMMC_STAGE_BASE - APP_SLOT_BASE"

definition SETTINGS_BASE :: u32 where
  [fmt_consts]: "SETTINGS_BASE = BOOT_STATE_BASE + of_nat PAGE_LEN"

definition RAM_START :: u32 where [fmt_consts]: "RAM_START = 0x20000000"

definition RAM_END :: u32 where [fmt_consts]: "RAM_END = RAM_START + 512 * 1024"

subsection \<open>The header: image.rs\<close>

definition HEADER_LEN :: nat where [fmt_consts]: "HEADER_LEN = 64"

definition IMAGE_MAGIC :: bytes where "IMAGE_MAGIC = [0x4F, 0x42, 0x43, 0x55]"

definition HEADER_VERSION :: u16 where "HEADER_VERSION = 1"

definition HEADER_CRC_LEN :: nat where [fmt_consts]: "HEADER_CRC_LEN = 60"

definition FW_VERSION_LEN :: nat where [fmt_consts]: "FW_VERSION_LEN = 32"

definition SIG_SCHEME_NONE :: u16 where "SIG_SCHEME_NONE = 0"

definition SIG_SCHEME_ED25519 :: u16 where "SIG_SCHEME_ED25519 = 1"

definition SIG_LEN :: nat where [fmt_consts]: "SIG_LEN = 64"

definition MAX_IMAGE_LEN :: u32 where [fmt_consts]: "MAX_IMAGE_LEN = APP_SLOT_LEN"

definition MAX_CONTAINER_LEN :: u32 where
  [fmt_consts]: "MAX_CONTAINER_LEN = MAX_IMAGE_LEN + of_nat HEADER_LEN + of_nat SIG_LEN"

record image_header =
  image_len :: u32
  image_crc32 :: u32
  fw_version :: bytes
  sig_scheme :: u16
  sig_len :: u16

text \<open>The array type \<open>[u8; FW_VERSION_LEN]\<close> of the version field.\<close>

definition wf_header :: "image_header \<Rightarrow> bool" where
  "wf_header h \<longleftrightarrow> length (fw_version h) = FW_VERSION_LEN"

definition matching_image :: "image_header option \<Rightarrow> bytes \<Rightarrow> bytes option" where
  "matching_image installed slot =
     (case installed of None \<Rightarrow> None
      | Some h \<Rightarrow>
          if image_len h = 0 \<or> image_len h > MAX_IMAGE_LEN then None
          else (case get_range slot 0 (unat (image_len h)) of None \<Rightarrow> None
                | Some img \<Rightarrow> if crc32 img = image_crc32 h then Some img else None))"

definition looks_like_vector_table :: "bytes \<Rightarrow> bool" where
  "looks_like_vector_table img =
     (if length img < 4 then False
      else let sp = u32_at img 0 in RAM_START \<le> sp \<and> sp < RAM_END)"

text \<open>\<open>str::is_char_boundary\<close>: the ends of the string, or a byte that is no continuation byte.\<close>

definition is_char_boundary :: "bytes \<Rightarrow> nat \<Rightarrow> bool" where
  "is_char_boundary s i \<longleftrightarrow>
     i = 0 \<or> i = length s \<or> (i < length s \<and> (s ! i) AND 0xC0 \<noteq> 0x80)"

text \<open>The loop of \<open>ImageHeader::new\<close> that moves the cut back to a character boundary.\<close>

fun back_to_boundary :: "bytes \<Rightarrow> nat \<Rightarrow> nat" where
  "back_to_boundary s 0 = 0"
| "back_to_boundary s (Suc e) =
     (if is_char_boundary s (Suc e) then Suc e else back_to_boundary s e)"

definition image_header_new :: "bytes \<Rightarrow> bytes \<Rightarrow> image_header" where
  "image_header_new img version =
     (let end = back_to_boundary version (min (length version) FW_VERSION_LEN) in
      \<lparr>image_len = of_nat (length img),
       image_crc32 = crc32 img,
       fw_version = put_bytes (zeros FW_VERSION_LEN) 0 (take end version),
       sig_scheme = SIG_SCHEME_NONE,
       sig_len = 0\<rparr>)"

definition signed_header :: "image_header \<Rightarrow> image_header" where
  "signed_header h = h\<lparr>sig_scheme := SIG_SCHEME_ED25519, sig_len := of_nat SIG_LEN\<rparr>"

definition unsigned_header :: "image_header \<Rightarrow> image_header" where
  "unsigned_header h = h\<lparr>sig_scheme := SIG_SCHEME_NONE, sig_len := 0\<rparr>"

definition is_signed :: "image_header \<Rightarrow> bool" where
  "is_signed h \<longleftrightarrow> sig_scheme h \<noteq> SIG_SCHEME_NONE"

text \<open>Both lengths are \<open>u64\<close> sums of a \<open>u32\<close> and a \<open>u16\<close>, so they cannot wrap.\<close>

definition container_len :: "image_header \<Rightarrow> nat" where
  "container_len h = HEADER_LEN + unat (image_len h) + unat (sig_len h)"

definition sig_offset :: "image_header \<Rightarrow> nat" where
  "sig_offset h = HEADER_LEN + unat (image_len h)"

definition header_encode :: "image_header \<Rightarrow> bytes" where
  "header_encode h =
     (let b = zeros HEADER_LEN;
          b = put_bytes b 0 IMAGE_MAGIC;
          b = put_bytes b 4 (le16 HEADER_VERSION);
          b = put_bytes b 8 (le32 (image_len h));
          b = put_bytes b 12 (le32 (image_crc32 h));
          b = put_bytes b 16 (fw_version h);
          b = put_bytes b 48 (le16 (sig_scheme h));
          b = put_bytes b 50 (le16 (sig_len h));
          crc = crc32 (take HEADER_CRC_LEN b)
      in put_bytes b HEADER_CRC_LEN (le32 crc))"

definition header_decode :: "bytes \<Rightarrow> image_header option" where
  "header_decode bs =
     (if slice 0 4 bs \<noteq> IMAGE_MAGIC then None
      else if u16_at bs 4 \<noteq> HEADER_VERSION then None
      else if u32_at bs 60 \<noteq> crc32 (take HEADER_CRC_LEN bs) then None
      else Some \<lparr>image_len = u32_at bs 8, image_crc32 = u32_at bs 12,
                 fw_version = slice 16 32 bs, sig_scheme = u16_at bs 48,
                 sig_len = u16_at bs 50\<rparr>)"

subsection \<open>The signed message and key files: sig.rs\<close>

definition SIG_CONTEXT :: bytes where
  "SIG_CONTEXT = [0x4F, 0x42, 0x43, 0x55, 0x76, 0x32, 0x2D, 0x73, 0x69, 0x67, 0]"

definition SIG_PREFIX_LEN :: nat where
  "SIG_PREFIX_LEN = length SIG_CONTEXT + FW_VERSION_LEN + 4"

definition signing_prefix :: "image_header \<Rightarrow> bytes" where
  "signing_prefix h =
     (let out = zeros SIG_PREFIX_LEN; c = length SIG_CONTEXT;
          out = put_bytes out 0 SIG_CONTEXT;
          out = put_bytes out c (fw_version h)
      in put_bytes out (c + FW_VERSION_LEN) (le32 (image_len h)))"

text \<open>\<open>nibble\<close> and \<open>hex32\<close> panic on a malformed key file; the panic is \<open>None\<close>.\<close>

definition nibble :: "u8 \<Rightarrow> u8 option" where
  "nibble c =
     (if 0x30 \<le> c \<and> c \<le> 0x39 then Some (c - 0x30)
      else if 0x61 \<le> c \<and> c \<le> 0x66 then Some (c - 0x61 + 10)
      else if 0x41 \<le> c \<and> c \<le> 0x46 then Some (c - 0x41 + 10)
      else None)"

fun hex_bytes :: "nat \<Rightarrow> bytes \<Rightarrow> bytes option" where
  "hex_bytes 0 hex = Some []"
| "hex_bytes (Suc n) (a # b # hex) =
     (case (nibble a, nibble b) of
        (Some x, Some y) \<Rightarrow> map_option (\<lambda>rest. (push_bit 4 x OR y) # rest) (hex_bytes n hex)
      | _ \<Rightarrow> None)"
| "hex_bytes (Suc n) _ = None"

definition hex32 :: "bytes \<Rightarrow> bytes option" where
  "hex32 hex =
     (if length hex = 64 \<or> (length hex = 65 \<and> hex ! 64 = 0x0A)
         \<or> (length hex = 66 \<and> hex ! 64 = 0x0D \<and> hex ! 65 = 0x0A)
      then hex_bytes 32 hex else None)"

subsection \<open>The staged-blob carve: blobstage.rs\<close>

definition STAGE_HEADER_LEN :: nat where [fmt_consts]: "STAGE_HEADER_LEN = 16"

definition MAX_BLOB_LEN :: nat where [fmt_consts]: "MAX_BLOB_LEN = STAGE_LEN - STAGE_HEADER_LEN"

definition STAGE_MAGIC :: bytes where "STAGE_MAGIC = [0x4F, 0x42, 0x53, 0x42]"

definition STAGE_VERSION :: u16 where "STAGE_VERSION = 1"

definition encode_stage_header :: "bytes \<Rightarrow> bytes option" where
  "encode_stage_header blob =
     (if blob = [] \<or> length blob > MAX_BLOB_LEN then None
      else
        let crc = crc_update crc_new blob;
            h = zeros STAGE_HEADER_LEN;
            h = put_bytes h 0 STAGE_MAGIC;
            h = put_bytes h 4 (le16 STAGE_VERSION);
            h = put_bytes h 6 (le32 (of_nat (length blob)));
            h = put_bytes h 10 (le32 (finalize crc))
        in Some h)"

definition validate_stage :: "bytes \<Rightarrow> bytes option" where
  "validate_stage carve =
     (if length carve < STAGE_HEADER_LEN then None
      else if slice 0 4 carve \<noteq> STAGE_MAGIC \<or> u16_at carve 4 \<noteq> STAGE_VERSION then None
      else
        let len = unat (u32_at carve 6) in
        if len = 0 \<or> len > length carve - STAGE_HEADER_LEN \<or> len > MAX_BLOB_LEN then None
        else
          let want = u32_at carve 10; blob = slice STAGE_HEADER_LEN len carve;
              crc = crc_update crc_new blob
          in if finalize crc \<noteq> want then None else Some blob)"

record sp_image_geometry =
  code_bytes :: nat
  vri_offset :: nat
  vri_bytes :: nat
  image_bytes :: nat

definition SP_ID_SEMMC :: u16 where "SP_ID_SEMMC = 0xE33C"

definition sp_geometry :: "bytes \<Rightarrow> nat \<Rightarrow> sp_image_geometry option" where
  "sp_geometry blob ram_carve =
     (if length blob < 32 then None
      else
        let w0 = u32_at blob 0; w1 = u32_at blob 4; w3 = u32_at blob 12; w6 = u32_at blob 24 in
        if w0 AND 0xFFFF \<noteq> 0xA005 \<or> drop_bit 16 w0 AND 0xF \<noteq> 2
           \<or> drop_bit 20 w0 AND 0xFF \<noteq> 1 \<or> drop_bit 31 w0 \<noteq> 0 then None
        else if (ucast (w1 AND 0xFFFF) :: u16) \<noteq> SP_ID_SEMMC then None
        else
          let code = unat (w3 AND 0xFFFF) * 16;
              ram_footprint = unat (drop_bit 16 w3) * 16;
              exec_data = unat (drop_bit 16 w6);
              vri = unat (w6 AND 0xFFFF) * 16 in
          if ram_footprint \<noteq> exec_data + vri then None
          else if length blob > code then None
          else
            let off = code + exec_data; total = off + vri in
            if vri = 0 \<or> total > ram_carve then None
            else Some \<lparr>code_bytes = code, vri_offset = off, vri_bytes = vri, image_bytes = total\<rparr>)"

subsection \<open>The header codec\<close>

lemma image_consts [simp]: "length IMAGE_MAGIC = 4" "length STAGE_MAGIC = 4" "length SIG_CONTEXT = 11"
  by (simp_all add: IMAGE_MAGIC_def STAGE_MAGIC_def SIG_CONTEXT_def)

lemma length_header_encode [simp]: "wf_header h \<Longrightarrow> length (header_encode h) = 64"
  by (simp add: header_encode_def Let_def wf_header_def fmt_consts)

lemma header_roundtrip: "wf_header h \<Longrightarrow> header_decode (header_encode h) = Some h"
  by (simp add: header_decode_def header_encode_def Let_def wf_header_def fmt_consts
      codec_simps)

lemma header_decode_wf: "header_decode bs = Some h \<Longrightarrow> length bs = 64 \<Longrightarrow> wf_header h"
  by (auto simp: header_decode_def wf_header_def fmt_consts split: if_splits)


lemma header_decode_crc:
  "header_decode bs = Some h \<Longrightarrow> of_le (slice 60 4 bs) = crc32 (take 60 bs)"
  by (simp add: header_decode_def u32_at_def fmt_consts split: if_splits)

lemma header_split: "length bs = 64 \<Longrightarrow> take 60 bs @ slice 60 4 bs = bs"
  by (simp add: take_append_slice)

lemma header_decode_damaged:
  assumes "header_decode (pre @ mid @ post) = Some h" and "length (pre @ mid @ post) = 64"
    and "length mid = length mid'" and "length mid \<le> 4" and "mid \<noteq> mid'"
  shows "header_decode (pre @ mid' @ post) = None"
proof (rule ccontr)
  let ?b = "pre @ mid @ post" and ?b' = "pre @ mid' @ post"
  assume "header_decode ?b' \<noteq> None"
  then obtain h' where h': "header_decode ?b' = Some h'" by auto
  have len': "length ?b' = 64" using assms(2,3) by simp
  have "of_le (slice 60 4 ?b') \<noteq> crc32 (take 60 ?b')"
    by (rule crc_frame_damage [OF assms(3-5) header_split [OF assms(2)] header_split [OF len']
          _ _ header_decode_crc [OF assms(1)]])
      (use assms(2) len' in simp_all)
  with header_decode_crc [OF h'] show False by simp
qed

lemma back_to_boundary_le: "back_to_boundary s e \<le> e"
  by (induction e) auto

lemma back_to_boundary_ok: "is_char_boundary s (back_to_boundary s e)"
  by (induction e) (auto simp: is_char_boundary_def)

lemma image_header_new_wf: "wf_header (image_header_new img v)"
proof -
  have "back_to_boundary v (min (length v) 32) \<le> 32"
    using back_to_boundary_le [of v "min (length v) 32"] by simp
  then show ?thesis
    by (simp add: wf_header_def image_header_new_def Let_def fmt_consts min_def put_bytes_def)
qed

lemma max_image_len: "unat MAX_IMAGE_LEN = 2023424"
  by (simp add: fmt_consts)

lemma matching_image_Some:
  "matching_image inst slot = Some img \<longleftrightarrow>
     (\<exists>h. inst = Some h \<and> image_len h \<noteq> 0 \<and> image_len h \<le> MAX_IMAGE_LEN
        \<and> unat (image_len h) \<le> length slot \<and> img = take (unat (image_len h)) slot
        \<and> crc32 img = image_crc32 h)"
  by (cases inst) (auto simp: matching_image_def get_range_def slice_def not_le split: if_splits)

lemma signing_prefix_alt:
  "wf_header h \<Longrightarrow> signing_prefix h = SIG_CONTEXT @ fw_version h @ le32 (image_len h)"
  by (rule nth_equalityI)
    (auto simp: signing_prefix_def Let_def wf_header_def fmt_consts SIG_PREFIX_LEN_def
      put_bytes_def nth_append)

subsection \<open>The carve codec\<close>

lemma length_stage_header: "encode_stage_header blob = Some h \<Longrightarrow> length h = 16"
  by (auto simp: encode_stage_header_def Let_def fmt_consts split: if_splits)

lemma stage_header_fields:
  assumes "encode_stage_header blob = Some h"
  shows "slice 0 4 h = STAGE_MAGIC" "slice 4 2 h = le16 STAGE_VERSION"
    "slice 6 4 h = le32 (of_nat (length blob))" "slice 10 4 h = le32 (crc32 blob)"
    "0 < length blob" "length blob \<le> MAX_BLOB_LEN"
  using assms
  by (auto simp: encode_stage_header_def Let_def fmt_consts codec_simps finalize_new_update
      split: if_splits)

lemma validate_stage_encoded:
  assumes "encode_stage_header blob = Some h"
  shows "validate_stage (h @ blob @ rest) = Some blob"
proof -
  note f = stage_header_fields [OF assms]
  have h: "length h = 16" by (rule length_stage_header [OF assms])
  have u: "unat (of_nat (length blob) :: u32) = length blob"
    using f(6) by (intro word_unat_of_nat) (simp add: fmt_consts)
  show ?thesis
    using f h u
    by (simp add: validate_stage_def Let_def at_defs slice_append_left slice_append_right
        finalize_new_update fmt_consts slice_all)
qed

subsection \<open>Properties\<close>

text \<open>
  Every image header survives its codec: what \<open>encode\<close> writes is 64 bytes that \<open>decode\<close> reads
  back as the same header, the headers \<open>new\<close> builds included.
\<close>

theorem image_header_codec:
  assumes "wf_header h"
  shows "length (header_encode h) = HEADER_LEN \<and> header_decode (header_encode h) = Some h
    \<and> header_decode (header_encode (image_header_new img v)) = Some (image_header_new img v)"
  using assms image_header_new_wf [of img v] by (simp add: header_roundtrip HEADER_LEN_def)

theorem image_header_codec_witness:
  "header_decode (header_encode \<lparr>image_len = 5, image_crc32 = 7, fw_version = zeros 32,
     sig_scheme = 1, sig_len = 64\<rparr>) =
   Some \<lparr>image_len = 5, image_crc32 = 7, fw_version = zeros 32, sig_scheme = 1, sig_len = 64\<rparr>"
  using image_header_codec [of "\<lparr>image_len = 5, image_crc32 = 7, fw_version = zeros 32,
     sig_scheme = 1, sig_len = 64\<rparr>"]
  by (simp add: wf_header_def FW_VERSION_LEN_def)

text \<open>
  A torn or corrupted header is refused: if 64 bytes decode, then any change confined to a
  window of at most four of them, wherever it lies, does not.
\<close>

theorem image_header_damage_refused:
  assumes "header_decode (pre @ mid @ post) = Some h" and "length (pre @ mid @ post) = 64"
    and "length mid = length mid'" and "length mid \<le> 4" and "mid \<noteq> mid'"
  shows "header_decode (pre @ mid' @ post) = None"
  using assms by (rule header_decode_damaged)

theorem image_header_damage_refused_witness:
  "\<exists>b b'. header_decode b \<noteq> None \<and> length b' = 64 \<and> b \<noteq> b' \<and> header_decode b' = None"
proof -
  define h where "h = \<lparr>image_len = 5, image_crc32 = 7, fw_version = zeros 32, sig_scheme = 1, sig_len = 64\<rparr>"
  define b where "b = header_encode h"
  have wf: "wf_header h" by (simp add: h_def wf_header_def FW_VERSION_LEN_def)
  have len: "length b = 64" using wf by (simp add: b_def)
  have ok: "header_decode b = Some h" using header_roundtrip [OF wf] by (simp add: b_def)
  obtain x ys where b: "b = x # ys" using len by (cases b) auto
  have "header_decode ([] @ [x + 1] @ ys) = None"
    using ok len by (intro image_header_damage_refused [of "[]" "[x]" ys h]) (simp_all add: b)
  then show ?thesis
    using ok len b by (intro exI [of _ b] exI [of _ "(x + 1) # ys"]) simp
qed

text \<open>
  C33: the signed message determines what was signed: two containers whose signing prefix and image
  concatenate to the same bytes agree on the version field, the image length and every image byte,
  so a signature cannot be moved to a relabelled or truncated image.
\<close>

theorem signed_message_binds:
  assumes "wf_header h" and "wf_header h'"
    and "signing_prefix h @ img = signing_prefix h' @ img'"
  shows "fw_version h = fw_version h' \<and> image_len h = image_len h' \<and> img = img'"
  using assms by (simp add: signing_prefix_alt wf_header_def)

theorem signed_message_binds_witness:
  "signing_prefix (image_header_new [1, 2] [65]) @ [1, 2] \<noteq>
   signing_prefix (image_header_new [1, 2, 3] [65]) @ [1, 2]"
  using signed_message_binds [OF image_header_new_wf image_header_new_wf,
      of "[1, 2]" "[65]" "[1, 2]" "[1, 2, 3]" "[65]" "[1, 2]"]
  by (auto simp: image_header_new_def Let_def)

text \<open>
  The staged storage blob survives its carve: after the armer writes the header line in front of
  the blob, validation of the carve returns exactly the blob, whatever bytes follow it; and a carve
  that validates with a geometry places the whole image inside the execution carve.
\<close>

theorem stage_carve_roundtrip:
  assumes "encode_stage_header blob = Some h"
  shows "validate_stage (h @ blob @ rest) = Some blob
    \<and> (\<forall>carve g. sp_geometry blob carve = Some g \<longrightarrow>
         length blob \<le> code_bytes g \<and> code_bytes g \<le> vri_offset g
         \<and> vri_offset g + vri_bytes g = image_bytes g \<and> 0 < vri_bytes g \<and> image_bytes g \<le> carve)"
  using validate_stage_encoded [OF assms]
  by (auto simp: sp_geometry_def Let_def split: if_splits)

theorem stage_carve_roundtrip_witness:
  "\<exists>h. encode_stage_header [1, 2, 3] = Some h \<and> validate_stage (h @ [1, 2, 3] @ [9]) = Some [1, 2, 3]"
proof -
  obtain h where h: "encode_stage_header [1, 2, 3] = Some h"
    by (auto simp: encode_stage_header_def Let_def fmt_consts)
  then show ?thesis using stage_carve_roundtrip [OF h, of "[9]"] by auto
qed

end
