(* ===== verification/Dfu_State.thy ===== *)
theory Dfu_State
  imports Dfu_Image
begin

text \<open>
  The boot-state page, \<open>firmware/obc-dfu/src/state.rs\<close>: the staged reference with its block
  extents, the three boot states, the CRC-framed page codec, the bootloader's decision and the
  post-update verdict.

  A staged reference keeps its extents in a fixed array of eight with a count; the model keeps the
  live prefix as a list, and \<open>wf_staged\<close> states what the constructor and the decoder enforce. The
  codec lemmas are stated on appended byte strings: reading at an offset what was written there
  succeeds and advances past it, whatever precedes and follows.
\<close>

subsection \<open>Extents and staged references\<close>

definition MAX_EXTENTS :: nat where [fmt_consts]: "MAX_EXTENTS = 8"

record extent =
  start_block :: u32
  ext_blocks :: u32

definition EXTENT_WIRE :: nat where [fmt_consts]: "EXTENT_WIRE = 8"

definition staged_wire_len :: "nat \<Rightarrow> nat" where
  "staged_wire_len n = HEADER_LEN + 4 + 4 + 2 + n * EXTENT_WIRE"

record staged_ref =
  sr_header :: image_header
  sr_len :: u32
  sr_crc32 :: u32
  sr_extents :: "extent list"

definition staged_new :: "image_header \<Rightarrow> u32 \<Rightarrow> u32 \<Rightarrow> extent list \<Rightarrow> staged_ref option" where
  "staged_new h len crc extents =
     (if length extents > MAX_EXTENTS \<or> len \<noteq> image_len h \<or> crc \<noteq> image_crc32 h then None
      else Some \<lparr>sr_header = h, sr_len = len, sr_crc32 = crc, sr_extents = extents\<rparr>)"

definition wf_staged :: "staged_ref \<Rightarrow> bool" where
  "wf_staged s \<longleftrightarrow> wf_header (sr_header s) \<and> length (sr_extents s) \<le> MAX_EXTENTS
     \<and> sr_len s = image_len (sr_header s) \<and> sr_crc32 s = image_crc32 (sr_header s)"

text \<open>The write loop over the extents; the cursor moves by \<open>EXTENT_WIRE\<close>.\<close>

fun write_extents :: "extent list \<Rightarrow> bytes \<Rightarrow> nat \<Rightarrow> bytes \<times> nat" where
  "write_extents [] out c = (out, c)"
| "write_extents (e # es) out c =
     (let out = put_bytes out c (le32 (start_block e));
          out = put_bytes out (c + 4) (le32 (ext_blocks e))
      in write_extents es out (c + EXTENT_WIRE))"

definition staged_write :: "staged_ref \<Rightarrow> bytes \<Rightarrow> nat \<Rightarrow> bytes \<times> nat" where
  "staged_write s out off =
     (let c = off;
          out = put_bytes out c (header_encode (sr_header s)); c = c + HEADER_LEN;
          out = put_bytes out c (le32 (sr_len s)); c = c + 4;
          out = put_bytes out c (le32 (sr_crc32 s)); c = c + 4;
          out = put_bytes out c (le16 (of_nat (length (sr_extents s)))); c = c + 2
      in write_extents (sr_extents s) out c)"

fun read_extents :: "nat \<Rightarrow> bytes \<Rightarrow> nat \<Rightarrow> (extent list \<times> nat) option" where
  "read_extents 0 body c = Some ([], c)"
| "read_extents (Suc n) body c =
     (case get_range body c 4 of None \<Rightarrow> None
      | Some a \<Rightarrow> (case get_range body (c + 4) 4 of None \<Rightarrow> None
        | Some b \<Rightarrow> (case read_extents n body (c + EXTENT_WIRE) of None \<Rightarrow> None
          | Some (es, c') \<Rightarrow> Some (\<lparr>start_block = of_le a, ext_blocks = of_le b\<rparr> # es, c'))))"

definition staged_read :: "bytes \<Rightarrow> nat \<Rightarrow> (staged_ref \<times> nat) option" where
  "staged_read body off =
     Option.bind (get_range body off HEADER_LEN) (\<lambda>hb.
     Option.bind (header_decode hb) (\<lambda>h.
     let c = off + HEADER_LEN in
     Option.bind (get_range body c 4) (\<lambda>lb.
     let len = of_le lb; c = c + 4 in
     Option.bind (get_range body c 4) (\<lambda>cb.
     let crc = of_le cb; c = c + 4 in
     Option.bind (get_range body c 2) (\<lambda>nb.
     let count = unat (of_le nb :: u16); c = c + 2 in
     if count > MAX_EXTENTS then None
     else if len \<noteq> image_len h \<or> crc \<noteq> image_crc32 h then None
     else Option.bind (read_extents count body c) (\<lambda>(es, c).
       Some (\<lparr>sr_header = h, sr_len = len, sr_crc32 = crc, sr_extents = es\<rparr>, c)))))))"

subsection \<open>Outcomes and boot states\<close>

datatype outcome_kind = OutcomeInstalled | OutcomeRolledBack | OutcomeStageRejected | OutcomeArmAbandoned

fun outcome_tag :: "outcome_kind \<Rightarrow> u8" where
  "outcome_tag OutcomeInstalled = 0"
| "outcome_tag OutcomeRolledBack = 1"
| "outcome_tag OutcomeStageRejected = 2"
| "outcome_tag OutcomeArmAbandoned = 3"

definition outcome_from_tag :: "u8 \<Rightarrow> outcome_kind option" where
  "outcome_from_tag tag =
     (if tag = 0 then Some OutcomeInstalled else if tag = 1 then Some OutcomeRolledBack
      else if tag = 2 then Some OutcomeStageRejected else if tag = 3 then Some OutcomeArmAbandoned
      else None)"

record last_outcome =
  lo_kind :: outcome_kind
  lo_generation :: u32

datatype boot_state =
    Idle "image_header option" "last_outcome option"
  | Armed u32 staged_ref "staged_ref option"
  | Trial u32 image_header "staged_ref option"

fun wf_state :: "boot_state \<Rightarrow> bool" where
  "wf_state (Idle installed _) = pred_option wf_header installed"
| "wf_state (Armed _ u r) = (wf_staged u \<and> pred_option wf_staged r)"
| "wf_state (Trial _ h r) = (wf_header h \<and> pred_option wf_staged r)"

fun generation :: "boot_state \<Rightarrow> u32" where
  "generation (Idle _ _) = 0"
| "generation (Armed g _ _) = g"
| "generation (Trial g _ _) = g"

fun running_image :: "boot_state \<Rightarrow> image_header option" where
  "running_image (Idle installed _) = installed"
| "running_image (Trial _ installed _) = Some installed"
| "running_image (Armed _ _ rollback) = map_option sr_header rollback"

subsection \<open>The page codec\<close>

definition STATE_MAGIC :: bytes where "STATE_MAGIC = [0x4F, 0x42, 0x43, 0x42]"

definition STATE_VERSION :: u16 where "STATE_VERSION = 2"

definition STATE_VERSION_V1 :: u16 where "STATE_VERSION_V1 = 1"

definition HDR_LEN :: nat where [fmt_consts]: "HDR_LEN = 16"

definition CRC_LEN :: nat where [fmt_consts]: "CRC_LEN = 4"

definition TAG_IDLE :: u8 where "TAG_IDLE = 0"

definition TAG_ARMED :: u8 where "TAG_ARMED = 1"

definition TAG_TRIAL :: u8 where "TAG_TRIAL = 2"

definition MAX_ENCODED_LEN :: nat where
  "MAX_ENCODED_LEN =
     (let max_staged = staged_wire_len MAX_EXTENTS; armed_payload = max_staged + 1 + max_staged;
          unpadded = HDR_LEN + armed_payload + CRC_LEN
      in div_ceil unpadded 16 * 16)"

record encoded_page =
  ep_buf :: bytes
  ep_len :: nat

definition as_bytes :: "encoded_page \<Rightarrow> bytes" where
  "as_bytes p = take (ep_len p) (ep_buf p)"

fun put_opt_header :: "bytes \<Rightarrow> nat \<Rightarrow> image_header option \<Rightarrow> bytes \<times> nat" where
  "put_opt_header out off (Some h) =
     (put_bytes (put_u8 out off 1) (off + 1) (header_encode h), off + 1 + HEADER_LEN)"
| "put_opt_header out off None = (put_u8 out off 0, off + 1)"

fun put_opt_staged :: "bytes \<Rightarrow> nat \<Rightarrow> staged_ref option \<Rightarrow> bytes \<times> nat" where
  "put_opt_staged out off (Some s) = staged_write s (put_u8 out off 1) (off + 1)"
| "put_opt_staged out off None = (put_u8 out off 0, off + 1)"

fun put_opt_outcome :: "bytes \<Rightarrow> nat \<Rightarrow> last_outcome option \<Rightarrow> bytes \<times> nat" where
  "put_opt_outcome out off (Some lo) =
     (let out = put_u8 out off 1;
          out = put_u8 out (off + 1) (outcome_tag (lo_kind lo));
          out = put_bytes out (off + 2) (le32 (lo_generation lo))
      in (out, off + 6))"
| "put_opt_outcome out off None = (put_u8 out off 0, off + 1)"

definition get_opt_outcome :: "bytes \<Rightarrow> nat \<Rightarrow> (last_outcome option \<times> nat) option" where
  "get_opt_outcome body off =
     Option.bind (get_at body off) (\<lambda>t.
     if t = 0 then Some (None, off + 1)
     else if t = 1 then
       Option.bind (get_at body (off + 1)) (\<lambda>k.
       Option.bind (outcome_from_tag k) (\<lambda>kind.
       Option.bind (get_range body (off + 2) 4) (\<lambda>g.
       Some (Some \<lparr>lo_kind = kind, lo_generation = of_le g\<rparr>, off + 6))))
     else None)"

definition get_opt_header :: "bytes \<Rightarrow> nat \<Rightarrow> (image_header option \<times> nat) option" where
  "get_opt_header body off =
     Option.bind (get_at body off) (\<lambda>t.
     if t = 0 then Some (None, off + 1)
     else if t = 1 then
       Option.bind (get_range body (off + 1) HEADER_LEN) (\<lambda>hb.
       Option.bind (header_decode hb) (\<lambda>h. Some (Some h, off + 1 + HEADER_LEN)))
     else None)"

definition get_opt_staged :: "bytes \<Rightarrow> nat \<Rightarrow> (staged_ref option \<times> nat) option" where
  "get_opt_staged body off =
     Option.bind (get_at body off) (\<lambda>t.
     if t = 0 then Some (None, off + 1)
     else if t = 1 then Option.bind (staged_read body (off + 1)) (\<lambda>(s, c). Some (Some s, c))
     else None)"

text \<open>The state-specific part of \<open>encode\<close>: the tag, the generation and the end of the payload.\<close>

fun encode_body :: "boot_state \<Rightarrow> bytes \<Rightarrow> u8 \<times> u32 \<times> bytes \<times> nat" where
  "encode_body (Idle installed lo) b =
     (let (b, c) = put_opt_header b HDR_LEN installed; (b, end) = put_opt_outcome b c lo
      in (TAG_IDLE, 0, b, end))"
| "encode_body (Armed g update rollback) b =
     (let (b, c) = staged_write update b HDR_LEN; (b, end) = put_opt_staged b c rollback
      in (TAG_ARMED, g, b, end))"
| "encode_body (Trial g installed rollback) b =
     (let b = put_bytes b HDR_LEN (header_encode installed);
          (b, end) = put_opt_staged b (HDR_LEN + HEADER_LEN) rollback
      in (TAG_TRIAL, g, b, end))"

definition state_encode :: "boot_state \<Rightarrow> encoded_page" where
  "state_encode st =
     (let b = zeros MAX_ENCODED_LEN;
          b = put_bytes b 0 STATE_MAGIC;
          b = put_bytes b 4 (le16 STATE_VERSION);
          (tag, g, b, end) = encode_body st b;
          b = put_u8 b 6 tag;
          b = put_bytes b 12 (le32 g);
          blob_len = div_ceil (end + CRC_LEN) 16 * 16;
          b = put_bytes b 8 (le32 (of_nat blob_len));
          crc_off = blob_len - CRC_LEN;
          crc = crc32 (take crc_off b);
          b = put_bytes b crc_off (le32 crc)
      in \<lparr>ep_buf = b, ep_len = blob_len\<rparr>)"

text \<open>The payload of each tag, parsed inside the CRC-covered span.\<close>

definition decode_payload :: "u16 \<Rightarrow> u8 \<Rightarrow> u32 \<Rightarrow> bytes \<Rightarrow> boot_state option" where
  "decode_payload version tag g body =
     (if tag = TAG_IDLE then
        Option.bind (get_opt_header body HDR_LEN) (\<lambda>(installed, c).
        if version = STATE_VERSION_V1 then Some (Idle installed None)
        else Option.bind (get_opt_outcome body c) (\<lambda>(lo, _). Some (Idle installed lo)))
      else if tag = TAG_ARMED then
        Option.bind (staged_read body HDR_LEN) (\<lambda>(update, c).
        Option.bind (get_opt_staged body c) (\<lambda>(rollback, _). Some (Armed g update rollback)))
      else if tag = TAG_TRIAL then
        Option.bind (get_range body HDR_LEN HEADER_LEN) (\<lambda>hb.
        Option.bind (header_decode hb) (\<lambda>installed.
        Option.bind (get_opt_staged body (HDR_LEN + HEADER_LEN)) (\<lambda>(rollback, _).
        Some (Trial g installed rollback))))
      else None)"

definition state_decode_inner :: "bytes \<Rightarrow> boot_state option" where
  "state_decode_inner bs =
     (if length bs < HDR_LEN + CRC_LEN then None
      else if slice 0 4 bs \<noteq> STATE_MAGIC then None
      else
        let version = u16_at bs 4 in
        if version \<noteq> STATE_VERSION \<and> version \<noteq> STATE_VERSION_V1 then None
        else
          let blob_len = unat (u32_at bs 8) in
          if blob_len < HDR_LEN + CRC_LEN \<or> blob_len > length bs \<or> \<not> 16 dvd blob_len then None
          else
            let crc_off = blob_len - CRC_LEN in
            if u32_at bs crc_off \<noteq> crc32 (take crc_off bs) then None
            else decode_payload version (bs ! 6) (u32_at bs 12) (take crc_off bs))"

definition state_decode :: "bytes \<Rightarrow> boot_state" where
  "state_decode bs = (case state_decode_inner bs of Some st \<Rightarrow> st | None \<Rightarrow> Idle None None)"

subsection \<open>The decision and the verdict\<close>

datatype boot_decision =
    Jump
  | Install staged_ref u32 "staged_ref option"
  | Rollback staged_ref image_header u32
  | AcceptAndClear image_header u32

fun decide :: "boot_state \<Rightarrow> boot_decision" where
  "decide (Idle _ _) = Jump"
| "decide (Armed g update rollback) = Install update g rollback"
| "decide (Trial g installed (Some r)) = Rollback r installed g"
| "decide (Trial g installed None) = AcceptAndClear installed g"

datatype verdict = TrialInProgress | NoVerdict | Confirmed | Reverted | NotStarted

definition outcome_verdict :: "outcome_kind \<Rightarrow> verdict" where
  "outcome_verdict k = (case k of OutcomeInstalled \<Rightarrow> Confirmed | _ \<Rightarrow> Reverted)"

fun state_verdict :: "boot_state \<Rightarrow> u32 option \<Rightarrow> verdict" where
  "state_verdict (Trial _ _ _) _ = TrialInProgress"
| "state_verdict (Armed _ _ _) _ = NotStarted"
| "state_verdict (Idle _ _) None = NoVerdict"
| "state_verdict (Idle _ None) (Some g) = Reverted"
| "state_verdict (Idle _ (Some lo)) (Some g) =
     (if lo_generation lo = g then outcome_verdict (lo_kind lo) else Reverted)"

subsection \<open>The page as appended byte strings\<close>

definition extent_bytes :: "extent \<Rightarrow> bytes" where
  "extent_bytes e = le32 (start_block e) @ le32 (ext_blocks e)"

definition staged_bytes :: "staged_ref \<Rightarrow> bytes" where
  "staged_bytes s = header_encode (sr_header s) @ le32 (sr_len s) @ le32 (sr_crc32 s)
     @ le16 (of_nat (length (sr_extents s))) @ concat (map extent_bytes (sr_extents s))"

fun opt_bytes :: "('a \<Rightarrow> bytes) \<Rightarrow> 'a option \<Rightarrow> bytes" where
  "opt_bytes f None = [0]"
| "opt_bytes f (Some x) = 1 # f x"

definition outcome_bytes :: "last_outcome \<Rightarrow> bytes" where
  "outcome_bytes lo = outcome_tag (lo_kind lo) # le32 (lo_generation lo)"

fun payload :: "boot_state \<Rightarrow> bytes" where
  "payload (Idle installed lo) = opt_bytes header_encode installed @ opt_bytes outcome_bytes lo"
| "payload (Armed g u r) = staged_bytes u @ opt_bytes staged_bytes r"
| "payload (Trial g h r) = header_encode h @ opt_bytes staged_bytes r"

fun state_tag :: "boot_state \<Rightarrow> u8" where
  "state_tag (Idle _ _) = TAG_IDLE"
| "state_tag (Armed _ _ _) = TAG_ARMED"
| "state_tag (Trial _ _ _) = TAG_TRIAL"

lemma length_extent_bytes [simp]: "length (extent_bytes e) = 8"
  by (simp add: extent_bytes_def)

lemma length_extents_bytes [simp]: "length (concat (map extent_bytes es)) = 8 * length es"
  by (induction es) simp_all

lemma length_staged_bytes: "wf_staged s \<Longrightarrow> length (staged_bytes s) = 74 + 8 * length (sr_extents s)"
  by (simp add: staged_bytes_def wf_staged_def)

lemma length_staged_bytes_le: "wf_staged s \<Longrightarrow> length (staged_bytes s) \<le> 138"
  by (auto simp: length_staged_bytes wf_staged_def fmt_consts)

lemma length_opt_le:
  "pred_option P x \<Longrightarrow> (\<And>y. P y \<Longrightarrow> length (f y) \<le> n) \<Longrightarrow> length (opt_bytes f x) \<le> Suc n"
  by (cases x) auto

lemma length_opt_staged_le: "pred_option wf_staged r \<Longrightarrow> length (opt_bytes staged_bytes r) \<le> 139"
  using length_opt_le [of wf_staged r staged_bytes 138] length_staged_bytes_le by simp

lemma length_payload: "wf_state st \<Longrightarrow> length (payload st) \<le> 277"
proof (cases st)
  case (Idle installed lo)
  assume "wf_state st"
  with Idle have "length (opt_bytes header_encode installed) \<le> Suc 64"
    by (intro length_opt_le [of wf_header]) auto
  moreover have "length (opt_bytes outcome_bytes lo) \<le> 6"
    by (cases lo) (auto simp: outcome_bytes_def)
  ultimately show ?thesis using Idle by simp
next
  case (Armed g u r)
  assume "wf_state st"
  with Armed show ?thesis
    using length_staged_bytes_le [of u] length_opt_staged_le [of r] by simp
next
  case (Trial g h r)
  assume "wf_state st"
  with Trial show ?thesis
    using length_opt_staged_le [of r] by simp
qed

lemma write_extents_eq:
  "c + 8 * length es \<le> length out \<Longrightarrow>
   write_extents es out c = (put_bytes out c (concat (map extent_bytes es)), c + 8 * length es)"
proof (induction es arbitrary: out c)
  case (Cons e es)
  let ?o = "put_bytes out c (extent_bytes e)"
  have o: "put_bytes (put_bytes out c (le32 (start_block e))) (c + 4) (le32 (ext_blocks e)) = ?o"
    using Cons.prems put_bytes_append [of c "le32 (start_block e)" "le32 (ext_blocks e)" out]
    by (simp add: extent_bytes_def)
  have "length ?o = length out"
    using Cons.prems by simp
  then show ?case
    using Cons.prems Cons.IH [of "c + 8" ?o]
      put_bytes_append [of c "extent_bytes e" "concat (map extent_bytes es)" out]
    by (simp add: Let_def o EXTENT_WIRE_def)
qed simp

lemma staged_write_eq:
  assumes "wf_staged s" and "off + length (staged_bytes s) \<le> length out"
  shows "staged_write s out off = (put_bytes out off (staged_bytes s), off + length (staged_bytes s))"
proof -
  let ?h = "header_encode (sr_header s)" and ?l = "le32 (sr_len s)" and ?c = "le32 (sr_crc32 s)"
    and ?n = "le16 (of_nat (length (sr_extents s)))" and ?es = "concat (map extent_bytes (sr_extents s))"
  have h: "length ?h = 64" using assms(1) by (simp add: wf_staged_def)
  have len: "off + 74 + 8 * length (sr_extents s) \<le> length out"
    using assms by (simp add: length_staged_bytes)
  have p: "put_bytes (put_bytes (put_bytes (put_bytes out off ?h) (off + 64) ?l) (off + 68) ?c) (off + 72) ?n
      = put_bytes out off (?h @ ?l @ ?c @ ?n)"
    using len h put_bytes_append [of off ?h ?l out] put_bytes_append [of off "?h @ ?l" ?c out]
      put_bytes_append [of off "?h @ ?l @ ?c" ?n out]
    by simp
  show ?thesis
    using len h p put_bytes_append [of off "?h @ ?l @ ?c @ ?n" ?es out]
    by (simp add: staged_write_def Let_def write_extents_eq fmt_consts staged_bytes_def add.assoc
        add.commute [of 74 off])
qed

lemma put_opt_staged_eq:
  assumes "pred_option wf_staged r" and "off + length (opt_bytes staged_bytes r) \<le> length out"
  shows "put_opt_staged out off r =
    (put_bytes out off (opt_bytes staged_bytes r), off + length (opt_bytes staged_bytes r))"
  using assms put_bytes_append [of off "[1]" "staged_bytes (the r)" out]
  by (cases r) (auto simp: put_u8_def staged_write_eq)

lemma put_opt_header_eq:
  assumes "pred_option wf_header r" and "off + length (opt_bytes header_encode r) \<le> length out"
  shows "put_opt_header out off r =
    (put_bytes out off (opt_bytes header_encode r), off + length (opt_bytes header_encode r))"
  using assms put_bytes_append [of off "[1]" "header_encode (the r)" out]
  by (cases r) (auto simp: put_u8_def fmt_consts)

lemma put_opt_outcome_eq:
  assumes "off + length (opt_bytes outcome_bytes r) \<le> length out"
  shows "put_opt_outcome out off r =
    (put_bytes out off (opt_bytes outcome_bytes r), off + length (opt_bytes outcome_bytes r))"
proof (cases r)
  case (Some lo)
  then show ?thesis
    using assms put_bytes_append [of off "[1]" "[outcome_tag (lo_kind lo)]" out]
      put_bytes_append [of off "[1, outcome_tag (lo_kind lo)]" "le32 (lo_generation lo)" out]
    by (simp add: put_u8_def Let_def outcome_bytes_def)
qed (simp add: put_u8_def)

lemma encode_body_eq:
  assumes "wf_state st" and "16 + length (payload st) \<le> length b"
  shows "encode_body st b =
    (state_tag st, generation st, put_bytes b 16 (payload st), 16 + length (payload st))"
proof (cases st)
  case (Idle installed lo)
  then show ?thesis
    using assms put_bytes_append [of 16 "opt_bytes header_encode installed" "opt_bytes outcome_bytes lo" b]
    by (simp add: put_opt_header_eq put_opt_outcome_eq fmt_consts)
next
  case (Armed g u r)
  then show ?thesis
    using assms put_bytes_append [of 16 "staged_bytes u" "opt_bytes staged_bytes r" b]
    by (simp add: staged_write_eq put_opt_staged_eq fmt_consts)
next
  case (Trial g h r)
  then show ?thesis
    using assms put_bytes_append [of 16 "header_encode h" "opt_bytes staged_bytes r" b]
    by (simp add: put_opt_staged_eq fmt_consts)
qed

text \<open>The CRC-covered part of a page: the 16-byte head, the payload and the zero padding.\<close>

definition blob_size :: "boot_state \<Rightarrow> nat" where
  "blob_size st = div_ceil (16 + length (payload st) + 4) 16 * 16"

definition state_head :: "boot_state \<Rightarrow> bytes" where
  "state_head st = STATE_MAGIC @ le16 STATE_VERSION @ [state_tag st, 0]
     @ le32 (of_nat (blob_size st)) @ le32 (generation st)"

definition state_frame :: "boot_state \<Rightarrow> bytes" where
  "state_frame st = state_head st @ payload st @ zeros (blob_size st - 20 - length (payload st))"

lemma length_state_magic [simp]: "length STATE_MAGIC = 4"
  by (simp add: STATE_MAGIC_def)

lemma length_state_head [simp]: "length (state_head st) = 16"
  by (simp add: state_head_def)

lemma max_encoded_len: "MAX_ENCODED_LEN = 304"
  by (simp add: MAX_ENCODED_LEN_def staged_wire_len_def fmt_consts Let_def div_ceil_def)

lemma blob_size_bounds:
  assumes "wf_state st"
  shows "20 + length (payload st) \<le> blob_size st" "blob_size st \<le> 304" "16 dvd blob_size st"
proof -
  show "20 + length (payload st) \<le> blob_size st"
    using le_div_ceil_mult [of 16 "16 + length (payload st) + 4"] by (simp add: blob_size_def)
  have "div_ceil (16 + length (payload st) + 4) 16 \<le> 19"
    using length_payload [OF assms] by (simp add: div_ceil_le_iff)
  then show "blob_size st \<le> 304" by (simp add: blob_size_def)
  show "16 dvd blob_size st" by (simp add: blob_size_def)
qed

lemma length_state_frame: "wf_state st \<Longrightarrow> length (state_frame st) = blob_size st - 4"
  using blob_size_bounds [of st] by (simp add: state_frame_def)

lemma state_encode_bytes:
  assumes "wf_state st"
  shows "as_bytes (state_encode st) = state_frame st @ le32 (crc32 (state_frame st))"
    and "ep_len (state_encode st) = blob_size st"
proof -
  note bb = blob_size_bounds [OF assms]
  let ?p = "payload st" and ?n = "blob_size st"
  define b where "b = put_bytes (put_bytes (put_u8 (put_bytes (put_bytes (put_bytes (zeros 304) 0 STATE_MAGIC)
     4 (le16 STATE_VERSION)) 16 ?p) 6 (state_tag st)) 12 (le32 (generation st))) 8 (le32 (of_nat ?n))"
  have b: "b = state_head st @ ?p @ zeros (288 - length ?p)"
    using bb by (simp add: b_def put_u8_def put_bytes_def state_head_def zeros_append,
        simp add: zeros_def)
  have take_b: "take (?n - 4) b = state_frame st"
    using bb by (simp add: b state_frame_def)
  have "state_encode st = \<lparr>ep_buf = put_bytes b (?n - 4) (le32 (crc32 (take (?n - 4) b))), ep_len = ?n\<rparr>"
    using bb length_payload [OF assms]
    by (simp add: state_encode_def Let_def max_encoded_len encode_body_eq [OF assms] CRC_LEN_def
       b_def blob_size_def)
  then show "as_bytes (state_encode st) = state_frame st @ le32 (crc32 (state_frame st))"
    and "ep_len (state_encode st) = blob_size st"
    using bb take_b length_state_frame [OF assms] by (simp_all add: as_bytes_def put_bytes_def)
qed

subsection \<open>Reading a payload back\<close>

lemmas slice_appends = slice_append_left slice_append_right slice_all

lemma read_extents_eq:
  "c = length xs \<Longrightarrow>
   read_extents (length es) (xs @ concat (map extent_bytes es) @ ys) c = Some (es, c + 8 * length es)"
proof (induction es arbitrary: xs c)
  case (Cons e es)
  let ?b = "xs @ extent_bytes e @ concat (map extent_bytes es) @ ys"
  have "slice c 4 ?b = le32 (start_block e)" "slice (c + 4) 4 ?b = le32 (ext_blocks e)"
    using Cons.prems by (simp_all add: extent_bytes_def slice_appends)
  then show ?case
    using Cons.prems Cons.IH [of "c + 8" "xs @ extent_bytes e"] by (simp add: EXTENT_WIRE_def)
qed simp

lemma staged_read_eq:
  assumes "wf_staged s" and off: "off = length xs"
  shows "staged_read (xs @ staged_bytes s @ ys) off = Some (s, off + length (staged_bytes s))"
proof -
  let ?h = "header_encode (sr_header s)" and ?l = "le32 (sr_len s)" and ?c = "le32 (sr_crc32 s)"
    and ?n = "le16 (of_nat (length (sr_extents s)))" and ?es = "concat (map extent_bytes (sr_extents s))"
  have wf: "wf_header (sr_header s)" and n: "length (sr_extents s) \<le> 8"
    and eq: "image_len (sr_header s) = sr_len s" "image_crc32 (sr_header s) = sr_crc32 s"
    using assms(1) by (simp_all add: wf_staged_def fmt_consts)
  have u: "unat (of_nat (length (sr_extents s)) :: u16) = length (sr_extents s)"
    using n by (intro word_unat_of_nat) simp
  have es: "read_extents (length (sr_extents s)) (xs @ ?h @ ?l @ ?c @ ?n @ ?es @ ys) (74 + length xs)
      = Some (sr_extents s, 74 + length xs + 8 * length (sr_extents s))"
    using read_extents_eq [of "74 + length xs" "xs @ ?h @ ?l @ ?c @ ?n" "sr_extents s" ys] wf by simp
  have body: "xs @ staged_bytes s @ ys = xs @ ?h @ ?l @ ?c @ ?n @ ?es @ ys"
    by (simp add: staged_bytes_def)
  show ?thesis
    unfolding body staged_read_def
    using wf n off u eq es
    by (simp add: slice_appends header_roundtrip fmt_consts Let_def
        length_staged_bytes [OF assms(1)])
qed

lemma get_opt_staged_eq:
  "pred_option wf_staged r \<Longrightarrow> off = length xs \<Longrightarrow>
   get_opt_staged (xs @ opt_bytes staged_bytes r @ ys) off
     = Some (r, off + length (opt_bytes staged_bytes r))"
  using staged_read_eq [of "the r" "Suc off" "xs @ [1]" ys]
  by (cases r) (simp_all add: get_opt_staged_def nth_append)

lemma get_opt_header_eq:
  "pred_option wf_header r \<Longrightarrow> off = length xs \<Longrightarrow>
   get_opt_header (xs @ opt_bytes header_encode r @ ys) off
     = Some (r, off + length (opt_bytes header_encode r))"
  by (cases r)
    (simp_all add: get_opt_header_def nth_append slice_appends header_roundtrip fmt_consts
      slice_def)

lemma outcome_from_tag_tag [simp]: "outcome_from_tag (outcome_tag k) = Some k"
  by (cases k) (simp_all add: outcome_from_tag_def)

lemma get_opt_outcome_eq:
  "off = length xs \<Longrightarrow>
   get_opt_outcome (xs @ opt_bytes outcome_bytes r @ ys) off
     = Some (r, off + length (opt_bytes outcome_bytes r))"
  by (cases r)
    (simp_all add: get_opt_outcome_def nth_append outcome_bytes_def slice_def)

lemma decode_payload_eq:
  assumes "wf_state st" and "length xs = 16"
  shows "decode_payload STATE_VERSION (state_tag st) (generation st) (xs @ payload st @ ys) = Some st"
proof (cases st)
  case (Idle installed lo)
  let ?h = "opt_bytes header_encode installed"
  have "get_opt_header (xs @ ?h @ opt_bytes outcome_bytes lo @ ys) 16 = Some (installed, 16 + length ?h)"
    using assms Idle by (simp add: get_opt_header_eq)
  moreover have "get_opt_outcome ((xs @ ?h) @ opt_bytes outcome_bytes lo @ ys) (16 + length ?h)
      = Some (lo, 16 + length ?h + length (opt_bytes outcome_bytes lo))"
    using assms by (intro get_opt_outcome_eq) simp
  ultimately show ?thesis
    using Idle by (simp add: decode_payload_def STATE_VERSION_def STATE_VERSION_V1_def HDR_LEN_def)
next
  case (Armed g u r)
  have "staged_read (xs @ staged_bytes u @ opt_bytes staged_bytes r @ ys) 16
      = Some (u, 16 + length (staged_bytes u))"
    using assms Armed by (simp add: staged_read_eq)
  moreover have "get_opt_staged ((xs @ staged_bytes u) @ opt_bytes staged_bytes r @ ys)
      (16 + length (staged_bytes u)) = Some (r, 16 + length (staged_bytes u) + length (opt_bytes staged_bytes r))"
    using assms Armed by (intro get_opt_staged_eq) simp_all
  ultimately show ?thesis
    using Armed by (simp add: decode_payload_def TAG_IDLE_def TAG_ARMED_def HDR_LEN_def)
next
  case (Trial g h r)
  have "get_opt_staged ((xs @ header_encode h) @ opt_bytes staged_bytes r @ ys) 80
      = Some (r, 80 + length (opt_bytes staged_bytes r))"
    using assms Trial by (intro get_opt_staged_eq) simp_all
  then show ?thesis
    using Trial assms
    by (simp add: decode_payload_def TAG_IDLE_def TAG_ARMED_def TAG_TRIAL_def fmt_consts
        slice_appends header_roundtrip)
qed

lemma state_decode_inner_eq:
  assumes "wf_state st"
  shows "state_decode_inner (as_bytes (state_encode st) @ stale) = Some st"
proof -
  note bb = blob_size_bounds [OF assms]
  let ?f = "state_frame st" and ?n = "blob_size st"
  let ?p = "as_bytes (state_encode st) @ stale"
  have p: "?p = ?f @ le32 (crc32 ?f) @ stale"
    by (simp add: state_encode_bytes(1) [OF assms])
  have lf: "length ?f = ?n - 4" by (rule length_state_frame [OF assms])
  have u: "unat (of_nat ?n :: u32) = ?n"
    using bb by (intro word_unat_of_nat) simp
  have head: "slice 0 4 ?p = STATE_MAGIC" "slice 4 2 ?p = le16 STATE_VERSION"
    "slice 8 4 ?p = le32 (of_nat ?n)" "slice 12 4 ?p = le32 (generation st)" "?p ! 6 = state_tag st"
    by (simp_all add: p state_frame_def state_head_def slice_appends nth_append)
     (simp_all add: slice_def numeral_2_eq_2)
  have tail: "take (?n - 4) ?p = ?f" "slice (?n - 4) 4 ?p = le32 (crc32 ?f)"
    using lf by (simp_all add: p slice_appends)
  have dp: "decode_payload STATE_VERSION (state_tag st) (generation st) ?f = Some st"
    unfolding state_frame_def by (rule decode_payload_eq [OF assms]) simp
  have "?n \<le> length ?p" using bb lf by (simp add: p)
  then show ?thesis
    using bb head tail u dp
    by (simp add: state_decode_inner_def at_defs Let_def fmt_consts)
qed

subsection \<open>What a page can decode to\<close>

lemma read_extents_length: "read_extents n body c = Some (es, c') \<Longrightarrow> length es = n"
  by (induction n arbitrary: c es) (auto split: option.splits)

lemma staged_read_wf: "staged_read body off = Some (s, c) \<Longrightarrow> wf_staged s"
  by (auto simp: staged_read_def Let_def bind_eq_Some_conv wf_staged_def fmt_consts
      split: if_splits dest!: get_range_Some read_extents_length intro: header_decode_wf)

lemma get_opt_staged_wf: "get_opt_staged body off = Some (r, c) \<Longrightarrow> pred_option wf_staged r"
  by (auto simp: get_opt_staged_def bind_eq_Some_conv split: if_splits dest: staged_read_wf)

lemma header_slice_wf:
  "header_decode (slice off 64 body) = Some h \<Longrightarrow> min 64 (length body - off) = 64 \<Longrightarrow> wf_header h"
  by (erule header_decode_wf) simp

lemma get_opt_header_wf: "get_opt_header body off = Some (r, c) \<Longrightarrow> pred_option wf_header r"
  by (auto simp: get_opt_header_def bind_eq_Some_conv fmt_consts split: if_splits
      dest!: get_range_Some intro: header_slice_wf)

lemma decode_payload_wf: "decode_payload v t g body = Some st \<Longrightarrow> wf_state st"
  by (auto simp: decode_payload_def bind_eq_Some_conv fmt_consts split: if_splits
      dest!: get_range_Some get_opt_header_wf get_opt_staged_wf staged_read_wf
      intro: header_slice_wf)

lemma state_decode_wf: "wf_state (state_decode bs)"
  by (auto simp: state_decode_def state_decode_inner_def Let_def
      split: option.splits if_splits dest: decode_payload_wf)

lemma state_decode_eq: "wf_state st \<Longrightarrow> state_decode (as_bytes (state_encode st) @ stale) = st"
  by (simp add: state_decode_def state_decode_inner_eq)

lemma length_as_bytes: "wf_state st \<Longrightarrow> length (as_bytes (state_encode st)) = blob_size st"
  using blob_size_bounds [of st] by (simp add: state_encode_bytes length_state_frame)

lemma slice_same_outside:
  "length mid = length mid' \<Longrightarrow> a + n \<le> length pre \<or> length pre + length mid \<le> a \<Longrightarrow>
   slice a n (pre @ mid @ post) = slice a n (pre @ mid' @ post)"
  by (auto simp: slice_appends)

lemma state_decode_inner_crc:
  "state_decode_inner b \<noteq> None \<Longrightarrow> unat (u32_at b 8) = n \<Longrightarrow>
   of_le (slice (n - 4) 4 b) = crc32 (take (n - 4) b)"
  by (auto simp: state_decode_inner_def Let_def CRC_LEN_def u32_at_def split: if_splits)

lemma state_decode_damaged:
  assumes page: "as_bytes (state_encode st) = pre @ mid @ post" and wf: "wf_state st"
    and mid: "length mid = length mid'" "length mid \<le> 4" "mid \<noteq> mid'"
    and out: "length pre + length mid \<le> 8 \<or> 12 \<le> length pre"
  shows "state_decode_inner (pre @ mid' @ post @ stale) = None"
proof (rule ccontr)
  let ?b = "pre @ mid' @ post @ stale" and ?n = "blob_size st" and ?f = "state_frame st"
  note bb = blob_size_bounds [OF wf]
  have len: "length (pre @ mid @ post) = ?n" using length_as_bytes [OF wf] page by simp
  have f: "pre @ mid @ post = ?f @ le32 (crc32 ?f)" using state_encode_bytes(1) [OF wf] page by simp
  have "slice 8 4 ?b = slice 8 4 (pre @ mid @ post @ stale)"
    using out mid(1) by (intro slice_same_outside) auto
  also have "\<dots> = slice 8 4 (?f @ le32 (crc32 ?f) @ stale)"
    using f by (metis append.assoc)
  also have "\<dots> = le32 (of_nat ?n)"
    by (simp add: state_frame_def state_head_def slice_appends) (simp add: slice_def)
  finally have n: "unat (u32_at ?b 8) = ?n"
    using bb by (simp add: u32_at_def word_unat_of_nat)
  assume "state_decode_inner ?b \<noteq> None"
  then have crc: "of_le (slice (?n - 4) 4 ?b) = crc32 (take (?n - 4) ?b)"
    using n by (rule state_decode_inner_crc)
  have len': "length (pre @ mid' @ post) = ?n" using len mid(1) by simp
  have "take (?n - 4) ?b @ slice (?n - 4) 4 ?b = take ?n ?b"
    using bb take_append_slice [of "?n - 4" ?b 4] by simp
  also have "\<dots> = pre @ mid' @ post" using len' by simp
  finally have fr: "take (?n - 4) ?b @ slice (?n - 4) 4 ?b = pre @ mid' @ post" .
  have "of_le (slice (?n - 4) 4 ?b) \<noteq> crc32 (take (?n - 4) ?b)"
    by (rule crc_frame_damage [OF mid f [symmetric] fr]) (use len' bb in simp_all)
  with crc show False by simp
qed

subsection \<open>Properties\<close>

text \<open>
  The boot-state page survives its codec. Whatever state is written, and whatever bytes of an
  older and longer page are left behind it, the bootloader reads back exactly that state; the page
  is a whole number of 16-byte RRAM lines and fits both its buffer and the state page.
\<close>

theorem state_page_roundtrip:
  assumes "wf_state st"
  shows "state_decode (as_bytes (state_encode st) @ stale) = st
    \<and> 16 dvd length (as_bytes (state_encode st))
    \<and> length (as_bytes (state_encode st)) \<le> MAX_ENCODED_LEN \<and> MAX_ENCODED_LEN \<le> PAGE_LEN"
  using state_decode_eq [OF assms] length_as_bytes [OF assms] blob_size_bounds [OF assms]
  by (simp add: max_encoded_len PAGE_LEN_def)

theorem state_page_roundtrip_witness:
  "state_decode (as_bytes (state_encode (Idle None (Some \<lparr>lo_kind = OutcomeRolledBack, lo_generation = 3\<rparr>))) @ [255, 1])
     = Idle None (Some \<lparr>lo_kind = OutcomeRolledBack, lo_generation = 3\<rparr>)"
  using state_page_roundtrip [of "Idle None (Some \<lparr>lo_kind = OutcomeRolledBack, lo_generation = 3\<rparr>)" "[255, 1]"]
  by simp

text \<open>
  C32: the page decoder is total and never yields a malformed state: for every byte string the
  decoded state is well formed (at most eight extents, the staged length and CRC those of the
  embedded header), and its decision installs or rolls back only well-formed references.
\<close>

theorem state_decode_well_formed:
  "wf_state (state_decode bs)
   \<and> (\<forall>u g r. decide (state_decode bs) = Install u g r \<longrightarrow> wf_staged u \<and> pred_option wf_staged r)
   \<and> (\<forall>r h g. decide (state_decode bs) = Rollback r h g \<longrightarrow> wf_staged r \<and> wf_header h)"
proof -
  have "wf_state (state_decode bs)" by (rule state_decode_wf)
  then show ?thesis
    by (cases "state_decode bs" rule: decide.cases) auto
qed

theorem state_decode_well_formed_witness: "wf_state (state_decode [1, 2])"
  using state_decode_well_formed [of "[1, 2]"] by blast



end
