(* ===== verification/Dfu_Engine.thy ===== *)
theory Dfu_Engine
  imports Dfu_State
begin

text \<open>
  The bootloader's install engine, \<open>firmware/obc-dfu/src/engine.rs\<close>: the byte stream over the
  extent chain, the verify, flash and readback passes, the retry loop and the state transition.

  The \<open>InstallIo\<close> trait is a record of operations on a device state; \<open>Err(IoError)\<close> is \<open>Inl\<close>.
  The staging buffer never carries bytes from one step to the next, so the model keeps its length.
  The locale \<open>install_device\<close> states what the trait documents: reads observe the card and the
  slot, a write touches only the span it names, and a state write leaves the slot alone. The
  engine's lemmas are proved once inside it. \<open>honest_device\<close> adds that a successful line write
  stores its data, \<open>faultless_device\<close> that nothing fails.
\<close>

subsection \<open>Constants and types\<close>

definition SD_BLOCK_LEN :: nat where [fmt_consts]: "SD_BLOCK_LEN = 512"

definition RRAM_LINE_LEN :: nat where [fmt_consts]: "RRAM_LINE_LEN = 16"

definition FLASH_RETRIES :: nat where "FLASH_RETRIES = 3"

definition PAD_BYTE :: u8 where "PAD_BYTE = 0xFF"

record slot =
  slot_base :: u32
  slot_len :: u32

datatype io_error = IoError

datatype phase = Verify | Flash | Readback

record 's install_io =
  io_read_blocks :: "u32 \<Rightarrow> nat \<Rightarrow> 's \<Rightarrow> (io_error + bytes) \<times> 's"
  io_write_lines :: "u32 \<Rightarrow> bytes \<Rightarrow> 's \<Rightarrow> (io_error + unit) \<times> 's"
  io_read_flash :: "u32 \<Rightarrow> nat \<Rightarrow> 's \<Rightarrow> (io_error + bytes) \<times> 's"
  io_write_state :: "boot_state \<Rightarrow> 's \<Rightarrow> (io_error + unit) \<times> 's"
  io_progress :: "phase \<Rightarrow> u32 \<Rightarrow> u32 \<Rightarrow> 's \<Rightarrow> 's"

datatype outcome = OJump | OStageRejected | OArmAbandoned | OInstalled | OSdError bool | OFlashError

datatype stream_error = Exhausted | StreamIo

datatype verify_error = Mismatch | VerifyIo

datatype pass_error = PassSd | PassFlash

subsection \<open>The byte stream over the extents\<close>

record extent_stream =
  es_extents :: "extent list"
  es_idx :: nat
  es_blocks_done :: u32
  es_scratch :: bytes
  es_pos :: nat
  es_len :: nat

definition stream_new :: "extent list \<Rightarrow> extent_stream" where
  "stream_new extents = \<lparr>es_extents = extents, es_idx = 0, es_blocks_done = 0,
     es_scratch = zeros SD_BLOCK_LEN, es_pos = 0, es_len = 0\<rparr>"

function next_block :: "extent_stream \<Rightarrow> (u32 \<times> u32) option \<times> extent_stream" where
  "next_block st =
     (if length (es_extents st) \<le> es_idx st then (None, st)
      else
        let e = es_extents st ! es_idx st;
            left = (if es_blocks_done st \<le> ext_blocks e then ext_blocks e - es_blocks_done st else 0) in
        if left = 0 then next_block (st\<lparr>es_idx := es_idx st + 1, es_blocks_done := 0\<rparr>)
        else (case checked_add 32 (unat (start_block e)) (unat (es_blocks_done st)) of
                None \<Rightarrow> (None, st)
              | Some start \<Rightarrow> (Some (of_nat start, left), st)))"
  by pat_completeness auto
termination
  by (relation "measure (\<lambda>st. length (es_extents st) - es_idx st)") auto

text \<open>
  The loop of \<open>fill\<close>: \<open>rem\<close> is \<open>out.len() - w\<close>, \<open>acc\<close> is \<open>out[..w]\<close>. Every round either fills
  some of \<open>out\<close> or reloads the empty scratch block.
\<close>

function fill_loop :: "'s install_io \<Rightarrow> extent_stream \<Rightarrow> nat \<Rightarrow> bytes \<Rightarrow> 's
    \<Rightarrow> (stream_error + bytes \<times> extent_stream) \<times> 's" where
  "fill_loop io st rem acc s =
     (if rem = 0 then (Inr (acc, st), s)
      else if es_pos st < es_len st then
        (let n = min (es_len st - es_pos st) rem in
         fill_loop io (st\<lparr>es_pos := es_pos st + n\<rparr>) (rem - n)
           (acc @ slice (es_pos st) n (es_scratch st)) s)
      else
        (case next_block st of
           (None, st1) \<Rightarrow> (Inl Exhausted, s)
         | (Some (start, left), st1) \<Rightarrow>
             let whole = min (rem div SD_BLOCK_LEN) (unat left) in
             if whole > 0 then
               (case io_read_blocks io start (whole * SD_BLOCK_LEN) s of
                  (Inl _, s1) \<Rightarrow> (Inl StreamIo, s1)
                | (Inr bs, s1) \<Rightarrow>
                    fill_loop io (st1\<lparr>es_blocks_done := es_blocks_done st1 + of_nat whole\<rparr>)
                      (rem - whole * SD_BLOCK_LEN) (acc @ bs) s1)
             else
               (case io_read_blocks io start SD_BLOCK_LEN s of
                  (Inl _, s1) \<Rightarrow> (Inl StreamIo, s1)
                | (Inr bs, s1) \<Rightarrow>
                    fill_loop io (st1\<lparr>es_blocks_done := es_blocks_done st1 + 1, es_scratch := bs,
                      es_pos := 0, es_len := SD_BLOCK_LEN\<rparr>) rem acc s1)))"
  by pat_completeness auto
termination
  by (relation "measures [\<lambda>(io, st, rem, acc, s). rem,
        \<lambda>(io, st, rem, acc, s). if es_pos st < es_len st then 0 else 1]")
    (auto simp: SD_BLOCK_LEN_def)

definition fill :: "'s install_io \<Rightarrow> extent_stream \<Rightarrow> nat \<Rightarrow> 's
    \<Rightarrow> (stream_error + bytes \<times> extent_stream) \<times> 's" where
  "fill io st n s = fill_loop io st n [] s"

declare next_block.simps [simp del] fill_loop.simps [simp del]

subsection \<open>Verify\<close>

definition padded_len :: "u32 \<Rightarrow> u32" where
  "padded_len len = of_nat (div_ceil (unat len) RRAM_LINE_LEN) * of_nat RRAM_LINE_LEN"

text \<open>
  The loops below run while \<open>done < len\<close> with chunks of \<open>min bl (len - done)\<close> bytes; \<open>bl\<close> is the
  length of the staging buffer, which \<open>run\<close> makes a non-zero number of whole blocks.
\<close>

function verify_loop :: "'s install_io \<Rightarrow> nat \<Rightarrow> nat \<Rightarrow> extent_stream \<Rightarrow> crc32_hasher \<Rightarrow> nat \<Rightarrow> 's
    \<Rightarrow> (verify_error + crc32_hasher) \<times> 's" where
  "verify_loop io bl len st crc done s =
     (if len \<le> done \<or> bl = 0 then (Inr crc, s)
      else
        let n = min bl (len - done) in
        case fill io st n s of
          (Inl Exhausted, s1) \<Rightarrow> (Inl Mismatch, s1)
        | (Inl StreamIo, s1) \<Rightarrow> (Inl VerifyIo, s1)
        | (Inr (bs, st1), s1) \<Rightarrow>
            verify_loop io bl len st1 (crc_update crc bs) (done + n)
              (io_progress io Verify (of_nat (done + n)) (of_nat len) s1))"
  by pat_completeness auto
termination
  by (relation "measure (\<lambda>(io, bl, len, st, crc, done, s). len - done)") auto

definition verify :: "'s install_io \<Rightarrow> staged_ref \<Rightarrow> slot \<Rightarrow> nat \<Rightarrow> 's \<Rightarrow> (verify_error + unit) \<times> 's" where
  "verify io staged sl bl s =
     (let len = sr_len staged in
      if len = 0 \<or> len > MAX_IMAGE_LEN \<or> padded_len len > slot_len sl then (Inl Mismatch, s)
      else
        case fill io (stream_new (sr_extents staged)) HEADER_LEN s of
          (Inl Exhausted, s1) \<Rightarrow> (Inl Mismatch, s1)
        | (Inl StreamIo, s1) \<Rightarrow> (Inl VerifyIo, s1)
        | (Inr (hdr, st), s1) \<Rightarrow>
            if header_decode hdr \<noteq> Some (sr_header staged) then (Inl Mismatch, s1)
            else
              case verify_loop io bl (unat len) st crc_new 0 (io_progress io Verify 0 len s1) of
                (Inl e, s2) \<Rightarrow> (Inl e, s2)
              | (Inr crc, s2) \<Rightarrow>
                  if finalize crc \<noteq> sr_crc32 staged then (Inl Mismatch, s2) else (Inr (), s2))"

subsection \<open>Flash and readback\<close>

function flash_loop :: "'s install_io \<Rightarrow> slot \<Rightarrow> nat \<Rightarrow> nat \<Rightarrow> extent_stream \<Rightarrow> nat \<Rightarrow> 's
    \<Rightarrow> (pass_error + unit) \<times> 's" where
  "flash_loop io sl bl len st done s =
     (if len \<le> done \<or> bl = 0 then (Inr (), s)
      else
        let n = min bl (len - done) in
        case fill io st n s of
          (Inl _, s1) \<Rightarrow> (Inl PassSd, s1)
        | (Inr (bs, st1), s1) \<Rightarrow>
            let padded = div_ceil n RRAM_LINE_LEN * RRAM_LINE_LEN in
            if padded > bl then (Inl PassFlash, s1)
            else
              let chunk = bs @ replicate (padded - n) PAD_BYTE in
              case io_write_lines io (slot_base sl + of_nat done) chunk s1 of
                (Inl _, s2) \<Rightarrow> (Inl PassFlash, s2)
              | (Inr _, s2) \<Rightarrow>
                  flash_loop io sl bl len st1 (done + n)
                    (io_progress io Flash (of_nat (done + n)) (of_nat len) s2))"
  by pat_completeness auto
termination
  by (relation "measure (\<lambda>(io, sl, bl, len, st, done, s). len - done)") auto

definition flash_pass :: "'s install_io \<Rightarrow> staged_ref \<Rightarrow> slot \<Rightarrow> nat \<Rightarrow> 's \<Rightarrow> (pass_error + unit) \<times> 's" where
  "flash_pass io staged sl bl s =
     (let len = unat (sr_len staged) in
      case fill io (stream_new (sr_extents staged)) HEADER_LEN s of
        (Inl _, s1) \<Rightarrow> (Inl PassSd, s1)
      | (Inr (_, st), s1) \<Rightarrow> flash_loop io sl bl len st 0 (io_progress io Flash 0 (of_nat len) s1))"

function readback_loop :: "'s install_io \<Rightarrow> slot \<Rightarrow> nat \<Rightarrow> nat \<Rightarrow> crc32_hasher \<Rightarrow> nat \<Rightarrow> 's
    \<Rightarrow> (pass_error + crc32_hasher) \<times> 's" where
  "readback_loop io sl bl len crc done s =
     (if len \<le> done \<or> bl = 0 then (Inr crc, s)
      else
        let n = min bl (len - done) in
        case io_read_flash io (slot_base sl + of_nat done) n s of
          (Inl _, s1) \<Rightarrow> (Inl PassFlash, s1)
        | (Inr bs, s1) \<Rightarrow>
            readback_loop io sl bl len (crc_update crc bs) (done + n)
              (io_progress io Readback (of_nat (done + n)) (of_nat len) s1))"
  by pat_completeness auto
termination
  by (relation "measure (\<lambda>(io, sl, bl, len, crc, done, s). len - done)") auto

definition readback :: "'s install_io \<Rightarrow> staged_ref \<Rightarrow> slot \<Rightarrow> nat \<Rightarrow> 's \<Rightarrow> (pass_error + bool) \<times> 's" where
  "readback io staged sl bl s =
     (let len = unat (sr_len staged) in
      case readback_loop io sl bl len crc_new 0 (io_progress io Readback 0 (of_nat len) s) of
        (Inl e, s1) \<Rightarrow> (Inl e, s1)
      | (Inr crc, s1) \<Rightarrow> (Inr (finalize crc = sr_crc32 staged), s1))"

text \<open>One attempt: a flash pass and, when it went through, a readback.\<close>

definition flash_attempt :: "'s install_io \<Rightarrow> staged_ref \<Rightarrow> slot \<Rightarrow> nat \<Rightarrow> 's \<Rightarrow> (pass_error + bool) \<times> 's" where
  "flash_attempt io staged sl bl s =
     (case flash_pass io staged sl bl s of
        (Inl PassSd, s1) \<Rightarrow> (Inl PassSd, s1)
      | (Inl PassFlash, s1) \<Rightarrow> (Inr True, s1)
      | (Inr _, s1) \<Rightarrow>
          (case readback io staged sl bl s1 of
             (Inl PassSd, s2) \<Rightarrow> (Inl PassSd, s2)
           | (Inl PassFlash, s2) \<Rightarrow> (Inr True, s2)
           | (Inr matched, s2) \<Rightarrow> (Inr (\<not> matched), s2)))"

text \<open>The retry loop; the argument is \<open>attempts_left\<close> before the decrement.\<close>

fun flash_attempts :: "nat \<Rightarrow> 's install_io \<Rightarrow> staged_ref \<Rightarrow> slot \<Rightarrow> nat \<Rightarrow> 's \<Rightarrow> (pass_error + unit) \<times> 's" where
  "flash_attempts 0 io staged sl bl s = (Inl PassFlash, s)"
| "flash_attempts (Suc attempts_left) io staged sl bl s =
     (case flash_attempt io staged sl bl s of
        (Inl e, s1) \<Rightarrow> (Inl e, s1)
      | (Inr failed, s1) \<Rightarrow>
          if \<not> failed then (Inr (), s1)
          else if attempts_left = 0 then (Inl PassFlash, s1)
          else flash_attempts attempts_left io staged sl bl s1)"

definition flash_verified :: "'s install_io \<Rightarrow> staged_ref \<Rightarrow> slot \<Rightarrow> nat \<Rightarrow> 's \<Rightarrow> (pass_error + unit) \<times> 's" where
  "flash_verified io staged sl bl s = flash_attempts (1 + FLASH_RETRIES) io staged sl bl s"

subsection \<open>The pipeline and the entry points\<close>

definition install_pipeline :: "'s install_io \<Rightarrow> staged_ref \<Rightarrow> slot \<Rightarrow> nat \<Rightarrow> bool \<Rightarrow> boot_state \<Rightarrow> boot_state
    \<Rightarrow> 's \<Rightarrow> outcome \<times> 's" where
  "install_pipeline io source sl bl verify_io_pre_erase mismatch_state success_state s =
     (case verify io source sl bl s of
        (Inl Mismatch, s1) \<Rightarrow> (case io_write_state io mismatch_state s1 of (_, s2) \<Rightarrow> (OStageRejected, s2))
      | (Inl VerifyIo, s1) \<Rightarrow> (OSdError verify_io_pre_erase, s1)
      | (Inr _, s1) \<Rightarrow>
          (case flash_verified io source sl bl s1 of
             (Inl PassSd, s2) \<Rightarrow> (OSdError False, s2)
           | (Inl PassFlash, s2) \<Rightarrow> (OFlashError, s2)
           | (Inr _, s2) \<Rightarrow>
               (case io_write_state io success_state s2 of
                  (Inr _, s3) \<Rightarrow> (OInstalled, s3)
                | (Inl _, s3) \<Rightarrow> (OFlashError, s3))))"

definition run :: "boot_state \<Rightarrow> slot \<Rightarrow> 's install_io \<Rightarrow> nat \<Rightarrow> 's \<Rightarrow> outcome \<times> 's" where
  "run state sl io buf_len s =
     (let whole = buf_len - buf_len mod SD_BLOCK_LEN in
      if whole = 0 then (OFlashError, s)
      else
        case decide state of
          Jump \<Rightarrow> (OJump, s)
        | AcceptAndClear installed g \<Rightarrow>
            (case io_write_state io
               (Idle (Some installed) (Some \<lparr>lo_kind = OutcomeInstalled, lo_generation = g\<rparr>)) s of
               (_, s1) \<Rightarrow> (OJump, s1))
        | Install update g rollback \<Rightarrow>
            let mismatch = Idle (map_option sr_header rollback)
                  (Some \<lparr>lo_kind = OutcomeStageRejected, lo_generation = g\<rparr>);
                success = Trial g (sr_header update) rollback
            in install_pipeline io update sl whole True mismatch success s
        | Rollback snapshot installed g \<Rightarrow>
            let mismatch = Idle (Some installed) (Some \<lparr>lo_kind = OutcomeInstalled, lo_generation = g\<rparr>);
                success = Idle (Some (sr_header snapshot))
                  (Some \<lparr>lo_kind = OutcomeRolledBack, lo_generation = g\<rparr>)
            in install_pipeline io snapshot sl whole False mismatch success s)"

fun abandon_arm :: "boot_state \<Rightarrow> 's install_io \<Rightarrow> 's \<Rightarrow> outcome \<times> 's" where
  "abandon_arm (Armed g update rollback) io s =
     (case io_write_state io (Idle (map_option sr_header rollback)
         (Some \<lparr>lo_kind = OutcomeArmAbandoned, lo_generation = g\<rparr>)) s of
        (_, s1) \<Rightarrow> (OArmAbandoned, s1))"
| "abandon_arm (Idle _ _) io s = (OJump, s)"
| "abandon_arm (Trial _ _ _) io s = (OJump, s)"

declare verify_loop.simps [simp del] flash_loop.simps [simp del] readback_loop.simps [simp del]

subsection \<open>The stream against the chain it reads\<close>

definition ext_range :: "extent \<Rightarrow> nat list" where
  "ext_range e = [unat (start_block e)..<unat (start_block e) + unat (ext_blocks e)]"

definition chain_blocks :: "extent list \<Rightarrow> nat list" where
  "chain_blocks es = concat (map ext_range es)"

definition chain_bytes :: "(nat \<Rightarrow> bytes) \<Rightarrow> extent list \<Rightarrow> bytes" where
  "chain_bytes c es = concat (map c (chain_blocks es))"

text \<open>No extent runs past the 32-bit block space.\<close>

definition extents_ok :: "extent list \<Rightarrow> bool" where
  "extents_ok es \<longleftrightarrow> list_all (\<lambda>e. unat (start_block e) + unat (ext_blocks e) \<le> 2 ^ 32) es"

definition st_blocks :: "extent_stream \<Rightarrow> nat list" where
  "st_blocks st =
     (if es_idx st < length (es_extents st)
      then drop (unat (es_blocks_done st)) (ext_range (es_extents st ! es_idx st))
           @ chain_blocks (drop (Suc (es_idx st)) (es_extents st))
      else [])"

definition st_rest :: "(nat \<Rightarrow> bytes) \<Rightarrow> extent_stream \<Rightarrow> bytes" where
  "st_rest c st = drop (es_pos st) (take (es_len st) (es_scratch st)) @ concat (map c (st_blocks st))"

definition st_ok :: "extent_stream \<Rightarrow> bool" where
  "st_ok st \<longleftrightarrow> es_pos st \<le> es_len st \<and> es_len st \<le> length (es_scratch st)"

lemma chain_blocks_Cons [simp]: "chain_blocks (e # es) = ext_range e @ chain_blocks es"
  by (simp add: chain_blocks_def)

lemma chain_blocks_Nil [simp]: "chain_blocks [] = []"
  by (simp add: chain_blocks_def)

lemma chain_blocks_drop:
  "i < length es \<Longrightarrow> chain_blocks (drop i es) = ext_range (es ! i) @ chain_blocks (drop (Suc i) es)"
  by (simp add: Cons_nth_drop_Suc [symmetric])

lemma st_new: "st_rest c (stream_new es) = chain_bytes c es" "st_ok (stream_new es)"
proof -
  have "st_blocks (stream_new es) = chain_blocks es"
    using chain_blocks_drop [of 0 es] by (cases es) (simp_all add: st_blocks_def stream_new_def)
  then show "st_rest c (stream_new es) = chain_bytes c es"
    by (simp add: st_rest_def chain_bytes_def stream_new_def)
  show "st_ok (stream_new es)"
    by (simp add: st_ok_def stream_new_def)
qed

lemma st_blocks_skip:
  assumes "es_idx st < length (es_extents st)"
    and "unat (ext_blocks (es_extents st ! es_idx st)) \<le> unat (es_blocks_done st)"
  shows "st_blocks st = st_blocks (st\<lparr>es_idx := es_idx st + 1, es_blocks_done := 0\<rparr>)"
  using assms by (auto simp: st_blocks_def ext_range_def chain_blocks_drop)

lemma unat_saturating_sub:
  "unat (if a \<le> b then b - a else (0 :: u32)) = unat b - unat a"
  by (auto simp: unat_sub word_le_nat_alt)

lemma next_block_keeps:
  "es_extents (snd (next_block st)) = es_extents st \<and> es_scratch (snd (next_block st)) = es_scratch st
   \<and> es_pos (snd (next_block st)) = es_pos st \<and> es_len (snd (next_block st)) = es_len st"
  by (induction st rule: next_block.induct)
    (subst (1 2 3 4) next_block.simps, auto simp: Let_def split: option.splits)

text \<open>
  \<open>next_block\<close> skips spent extents without losing a block: what it returns is a run of blocks at the
  front of what is left, and it returns nothing only when nothing is left.
\<close>

lemma next_block_run:
  assumes "next_block st = (Some (start, left), st')" and "extents_ok (es_extents st)"
  shows "0 < unat left \<and> st_blocks st' = st_blocks st
    \<and> es_extents st' = es_extents st \<and> es_scratch st' = es_scratch st
    \<and> es_pos st' = es_pos st \<and> es_len st' = es_len st
    \<and> es_idx st' < length (es_extents st')
    \<and> unat (es_blocks_done st') + unat left < 2 ^ 32
    \<and> unat (start_block (es_extents st' ! es_idx st')) + unat (es_blocks_done st') = unat start
    \<and> unat (ext_blocks (es_extents st' ! es_idx st')) = unat (es_blocks_done st') + unat left"
  using assms
proof (induction st rule: next_block.induct)
  case (1 st)
  let ?e = "es_extents st ! es_idx st"
  let ?left = "if es_blocks_done st \<le> ext_blocks ?e then ext_blocks ?e - es_blocks_done st else 0"
  have idx: "es_idx st < length (es_extents st)"
    using "1.prems"(1) by (auto simp: next_block.simps [of st] split: if_splits)
  have ul: "unat ?left = unat (ext_blocks ?e) - unat (es_blocks_done st)"
    by (rule unat_saturating_sub)
  show ?case
  proof (cases "?left = 0")
    case True
    have nb: "next_block st = next_block (st\<lparr>es_idx := es_idx st + 1, es_blocks_done := 0\<rparr>)"
      using idx True by (subst next_block.simps) (simp add: Let_def)
    have "unat (ext_blocks ?e) \<le> unat (es_blocks_done st)"
      using ul unfolding True by simp
    then have "st_blocks st = st_blocks (st\<lparr>es_idx := es_idx st + 1, es_blocks_done := 0\<rparr>)"
      by (rule st_blocks_skip [OF idx])
    then show ?thesis
      using "1.IH" [OF _ refl refl True "1.prems"(1) [unfolded nb]] idx "1.prems"(2) by auto
  next
    case False
    have "unat (ext_blocks ?e) < 2 ^ 32" using unsigned_less [where ?'a = nat, of "ext_blocks ?e"] by simp
    moreover have pos: "0 < unat ?left" using False by (simp add: unat_gt_0)
    ultimately show ?thesis
      using "1.prems"(1) idx ul False
      by (auto simp: next_block.simps [of st] Let_def checked_add_def unat_add_no_wrap unat_sub
          word_le_nat_alt split: if_splits)
  qed
qed

lemma next_block_none:
  assumes "next_block st = (None, st')" and "extents_ok (es_extents st)"
  shows "st_blocks st = []"
  using assms
proof (induction st rule: next_block.induct)
  case (1 st)
  let ?e = "es_extents st ! es_idx st"
  let ?left = "if es_blocks_done st \<le> ext_blocks ?e then ext_blocks ?e - es_blocks_done st else 0"
  have ul: "unat ?left = unat (ext_blocks ?e) - unat (es_blocks_done st)"
    by (rule unat_saturating_sub)
  show ?case
  proof (cases "es_idx st < length (es_extents st)")
    case idx: True
    have okr: "unat (start_block ?e) + unat (ext_blocks ?e) \<le> 2 ^ 32"
      using "1.prems"(2) idx by (simp add: extents_ok_def list_all_length)
    have z: "?left = 0"
    proof (rule ccontr)
      assume nz: "?left \<noteq> 0"
      then have "0 < unat ?left" by (simp add: unat_gt_0)
      then have "unat (start_block ?e) + unat (es_blocks_done st) < 2 ^ 32" using ul okr by linarith
      with "1.prems"(1) idx nz show False
        by (simp add: next_block.simps [of st] Let_def checked_add_def)
    qed
    have nb: "next_block st = next_block (st\<lparr>es_idx := es_idx st + 1, es_blocks_done := 0\<rparr>)"
      using idx z by (subst next_block.simps) (simp add: Let_def)
    have "unat (ext_blocks ?e) \<le> unat (es_blocks_done st)"
      using ul unfolding z by simp
    then have "st_blocks st = st_blocks (st\<lparr>es_idx := es_idx st + 1, es_blocks_done := 0\<rparr>)"
      by (rule st_blocks_skip [OF idx])
    then show ?thesis
      using "1.IH" [OF _ refl refl z "1.prems"(1) [unfolded nb]] idx "1.prems"(2)
      by (simp del: unat_eq_zero)
  qed (simp add: st_blocks_def)
qed

lemma st_rest_advance:
  assumes "next_block st = (Some (start, left), st1)" and "extents_ok (es_extents st)"
    and "\<not> es_pos st < es_len st" and "k \<le> unat left"
  shows "st_rest c st = concat (map c [unat start..<unat start + k])
    @ concat (map c (st_blocks (st1\<lparr>es_blocks_done := es_blocks_done st1 + of_nat k\<rparr>)))"
proof -
  note nb = next_block_run [OF assms(1,2)]
  let ?e = "es_extents st1 ! es_idx st1" and ?d = "unat (es_blocks_done st1)"
  have k: "unat (es_blocks_done st1 + of_nat k) = ?d + k"
    using nb assms(4) by (intro unat_add_of_nat) simp
  have "drop ?d (ext_range ?e) = [unat start..<unat start + k] @ drop (?d + k) (ext_range ?e)"
  proof -
    have "[unat start..<unat start + unat left] =
        [unat start..<unat start + k] @ [unat start + k..<unat start + unat left]"
      using assms(4) upt_add_eq_append [of "unat start" "unat start + k" "unat left - k"] by simp
    moreover have "unat (start_block ?e) + ?d = unat start"
      "unat (start_block ?e) + unat (ext_blocks ?e) = unat start + unat left"
      using nb by auto
    ultimately show ?thesis by (simp add: ext_range_def add.assoc [symmetric])
  qed
  moreover have "es_idx st1 < length (es_extents st1)" using nb by metis
  ultimately have "st_blocks st1 = [unat start..<unat start + k]
      @ st_blocks (st1\<lparr>es_blocks_done := es_blocks_done st1 + of_nat k\<rparr>)"
    using k by (simp add: st_blocks_def)
  then show ?thesis
    using assms(3) nb by (simp add: st_rest_def)
qed

subsection \<open>What the engine relies on\<close>

text \<open>The observable parts of a device: the card's blocks, the slot's bytes and the state page.\<close>

record 's device_view =
  dv_ok :: "'s \<Rightarrow> bool"
  dv_card :: "'s \<Rightarrow> nat \<Rightarrow> bytes"
  dv_slot :: "'s \<Rightarrow> bytes"
  dv_page :: "'s \<Rightarrow> bytes"

definition undisturbed :: "'s device_view \<Rightarrow> 's \<Rightarrow> 's \<Rightarrow> bool" where
  "undisturbed v s s' \<longleftrightarrow> dv_ok v s' \<and> dv_card v s' = dv_card v s \<and> dv_slot v s' = dv_slot v s
     \<and> dv_page v s' = dv_page v s"

text \<open>At most the first \<open>k\<close> bytes of the slot changed, and nothing else.\<close>

definition slot_written :: "'s device_view \<Rightarrow> nat \<Rightarrow> 's \<Rightarrow> 's \<Rightarrow> bool" where
  "slot_written v k s s' \<longleftrightarrow> dv_ok v s' \<and> dv_card v s' = dv_card v s \<and> dv_page v s' = dv_page v s
     \<and> length (dv_slot v s') = length (dv_slot v s) \<and> drop k (dv_slot v s') = drop k (dv_slot v s)"

lemma undisturbed_trans [trans]: "undisturbed v s s' \<Longrightarrow> undisturbed v s' s'' \<Longrightarrow> undisturbed v s s''"
  by (auto simp: undisturbed_def)

lemma undisturbed_refl: "dv_ok v s \<Longrightarrow> undisturbed v s s"
  by (simp add: undisturbed_def)

lemma undisturbed_ok: "undisturbed v s s' \<Longrightarrow> dv_ok v s'"
  by (simp add: undisturbed_def)

lemma undisturbed_written: "undisturbed v s s' \<Longrightarrow> slot_written v k s s'"
  by (simp add: undisturbed_def slot_written_def)

lemma slot_written_trans [trans]: "slot_written v k s s' \<Longrightarrow> slot_written v k s' s'' \<Longrightarrow> slot_written v k s s''"
  by (auto simp: slot_written_def)

lemma slot_written_ok: "slot_written v k s s' \<Longrightarrow> dv_ok v s'"
  by (simp add: slot_written_def)

text \<open>What one \<open>fill\<close> must deliver over a card with contents \<open>c\<close>.\<close>

definition fill_post :: "(nat \<Rightarrow> bytes) \<Rightarrow> extent_stream \<Rightarrow> nat \<Rightarrow> bytes
    \<Rightarrow> stream_error + bytes \<times> extent_stream \<Rightarrow> bool" where
  "fill_post c st rem acc r = (case r of
       Inl Exhausted \<Rightarrow> extents_ok (es_extents st) \<longrightarrow> length (st_rest c st) < rem
     | Inl StreamIo \<Rightarrow> True
     | Inr (bs, st') \<Rightarrow> length bs = length acc + rem \<and> st_ok st' \<and> es_extents st' = es_extents st
         \<and> (extents_ok (es_extents st) \<longrightarrow> rem \<le> length (st_rest c st)
              \<and> bs = acc @ take rem (st_rest c st) \<and> st_rest c st' = drop rem (st_rest c st)))"

lemma fill_post_step:
  assumes "fill_post c st1 rem1 (acc @ bs) r" and "rem = length bs + rem1"
    and "es_extents st1 = es_extents st"
    and "extents_ok (es_extents st) \<Longrightarrow> st_rest c st = bs @ st_rest c st1"
  shows "fill_post c st rem acc r"
  using assms by (auto simp: fill_post_def split: sum.splits stream_error.splits)

lemma scratch_take:
  assumes "st_ok st" and "es_pos st < es_len st" and "n = min (es_len st - es_pos st) rem"
  shows "st_ok (st\<lparr>es_pos := es_pos st + n\<rparr>)"
    and "length (slice (es_pos st) n (es_scratch st)) = n"
    and "st_rest c st = slice (es_pos st) n (es_scratch st) @ st_rest c (st\<lparr>es_pos := es_pos st + n\<rparr>)"
proof -
  show "st_ok (st\<lparr>es_pos := es_pos st + n\<rparr>)" and "length (slice (es_pos st) n (es_scratch st)) = n"
    using assms by (auto simp: st_ok_def)
  have "slice (es_pos st) n (es_scratch st) = take n (drop (es_pos st) (take (es_len st) (es_scratch st)))"
    using assms(3) by (simp add: slice_def drop_take min_def)
  moreover have "drop (es_pos st) (take (es_len st) (es_scratch st)) =
      take n (drop (es_pos st) (take (es_len st) (es_scratch st)))
      @ drop (es_pos st + n) (take (es_len st) (es_scratch st))"
    by (metis append_take_drop_id drop_drop add.commute)
  moreover have "st_blocks (st\<lparr>es_pos := es_pos st + n\<rparr>) = st_blocks st"
    by (simp add: st_blocks_def)
  ultimately show "st_rest c st = slice (es_pos st) n (es_scratch st) @ st_rest c (st\<lparr>es_pos := es_pos st + n\<rparr>)"
    by (simp add: st_rest_def)
qed

text \<open>What the verify loop must deliver when \<open>rest\<close> is left of the stream.\<close>

definition verify_post :: "bytes \<Rightarrow> nat \<Rightarrow> crc32_hasher \<Rightarrow> verify_error + crc32_hasher \<Rightarrow> bool" where
  "verify_post rest n crc r = (case r of
       Inl Mismatch \<Rightarrow> length rest < n
     | Inl VerifyIo \<Rightarrow> True
     | Inr crc' \<Rightarrow> n \<le> length rest \<and> crc' = crc_update crc (take n rest))"

lemma verify_post_step:
  assumes "verify_post (drop m rest) (n - m) (crc_update crc (take m rest)) r"
    and "m \<le> n" and "m \<le> length rest"
  shows "verify_post rest n crc r"
proof -
  have "take n rest = take m rest @ take (n - m) (drop m rest)"
    using assms(2) by (metis le_add_diff_inverse take_add)
  then show ?thesis
    using assms by (auto simp: verify_post_def crc_update_append split: sum.splits verify_error.splits)
qed

text \<open>A stage that is what its record says it is, and fits the slot.\<close>

definition stage_valid :: "(nat \<Rightarrow> bytes) \<Rightarrow> slot \<Rightarrow> staged_ref \<Rightarrow> bool" where
  "stage_valid c sl staged \<longleftrightarrow>
     (let chain = chain_bytes c (sr_extents staged); len = unat (sr_len staged) in
      sr_len staged \<noteq> 0 \<and> sr_len staged \<le> MAX_IMAGE_LEN \<and> padded_len (sr_len staged) \<le> slot_len sl
      \<and> HEADER_LEN + len \<le> length chain
      \<and> header_decode (take HEADER_LEN chain) = Some (sr_header staged)
      \<and> crc32 (slice HEADER_LEN len chain) = sr_crc32 staged)"

text \<open>The raw image of a stage, and the image padded to whole RRAM lines.\<close>

definition staged_image :: "(nat \<Rightarrow> bytes) \<Rightarrow> staged_ref \<Rightarrow> bytes" where
  "staged_image c staged = slice HEADER_LEN (unat (sr_len staged)) (chain_bytes c (sr_extents staged))"

definition pad_len :: "nat \<Rightarrow> nat" where
  "pad_len n = div_ceil n RRAM_LINE_LEN * RRAM_LINE_LEN"

definition flash_content :: "(nat \<Rightarrow> bytes) \<Rightarrow> staged_ref \<Rightarrow> bytes" where
  "flash_content c staged = staged_image c staged
     @ replicate (pad_len (unat (sr_len staged)) - unat (sr_len staged)) PAD_BYTE"

lemma pad_len_bounds: "n \<le> pad_len n" "pad_len n < n + 16" "16 dvd pad_len n"
proof -
  show "n \<le> pad_len n" "16 dvd pad_len n"
    using le_div_ceil_mult [of 16 n] by (simp_all add: pad_len_def RRAM_LINE_LEN_def)
  show "pad_len n < n + 16"
    using div_ceil_mult_less [of 16 n] by (cases "n = 0") (simp_all add: pad_len_def RRAM_LINE_LEN_def)
qed

lemma pad_len_unique: "n \<le> m \<Longrightarrow> m < n + 16 \<Longrightarrow> 16 dvd m \<Longrightarrow> pad_len n = m"
  using pad_len_bounds [of n] by (auto elim!: dvdE)

lemma pad_len_le: "n \<le> m \<Longrightarrow> 16 dvd m \<Longrightarrow> pad_len n \<le> m"
  by (auto elim!: dvdE simp: pad_len_def RRAM_LINE_LEN_def div_ceil_le_iff)

lemma pad_len_dvd: "16 dvd n \<Longrightarrow> pad_len n = n"
  by (rule pad_len_unique) simp_all

lemma pad_len_add: "16 dvd d \<Longrightarrow> pad_len (d + n) = d + pad_len n"
  using pad_len_bounds [of n] by (intro pad_len_unique) auto

lemma padded_len_unat: "len \<le> MAX_IMAGE_LEN \<Longrightarrow> unat (padded_len len) = pad_len (unat len)"
proof -
  assume "len \<le> MAX_IMAGE_LEN"
  then have "unat len \<le> 2023424" using max_image_len by (simp add: word_le_nat_alt)
  then have "pad_len (unat len) < 2 ^ 32" using pad_len_bounds(2) [of "unat len"] by simp
  moreover have "padded_len len = of_nat (pad_len (unat len))"
    by (simp add: padded_len_def pad_len_def)
  ultimately show ?thesis by (simp add: word_unat_of_nat)
qed

lemma stage_valid_fits:
  assumes "stage_valid c sl staged"
  shows "0 < unat (sr_len staged)" "pad_len (unat (sr_len staged)) \<le> unat (slot_len sl)"
    "length (staged_image c staged) = unat (sr_len staged)"
    "length (flash_content c staged) = pad_len (unat (sr_len staged))"
    "crc32 (staged_image c staged) = sr_crc32 staged"
proof -
  show fit: "0 < unat (sr_len staged)" "pad_len (unat (sr_len staged)) \<le> unat (slot_len sl)"
    and len: "length (staged_image c staged) = unat (sr_len staged)"
    and "crc32 (staged_image c staged) = sr_crc32 staged"
    using assms
    by (auto simp: stage_valid_def Let_def word_le_nat_alt padded_len_unat [symmetric] unat_gt_0
        staged_image_def)
  show "length (flash_content c staged) = pad_len (unat (sr_len staged))"
    using len pad_len_bounds(1) [of "unat (sr_len staged)"] by (simp add: flash_content_def)
qed

text \<open>What an outcome of the pipeline promises about the slot and the state page.\<close>

definition pipeline_post :: "'s device_view \<Rightarrow> staged_ref \<Rightarrow> boot_state \<Rightarrow> boot_state \<Rightarrow> bool
    \<Rightarrow> 's \<Rightarrow> outcome \<Rightarrow> 's \<Rightarrow> bool" where
  "pipeline_post v src succ mm pre s out s' \<longleftrightarrow>
     (let k = pad_len (unat (sr_len src)) in
      dv_ok v s' \<and> dv_card v s' = dv_card v s
      \<and> length (dv_slot v s') = length (dv_slot v s) \<and> drop k (dv_slot v s') = drop k (dv_slot v s)
      \<and> (case out of
           OInstalled \<Rightarrow> 0 < unat (sr_len src) \<and> k \<le> length (dv_slot v s')
             \<and> crc32 (take (unat (sr_len src)) (dv_slot v s')) = sr_crc32 src
             \<and> state_decode (dv_page v s') = succ
         | OStageRejected \<Rightarrow> dv_slot v s' = dv_slot v s
         | OSdError pre_erase \<Rightarrow> dv_page v s' = dv_page v s
             \<and> (pre_erase \<longrightarrow> pre \<and> dv_slot v s' = dv_slot v s)
         | OFlashError \<Rightarrow> 0 < unat (sr_len src)
         | OJump \<Rightarrow> False
         | OArmAbandoned \<Rightarrow> False))"

text \<open>One chunk of a pass: \<open>n\<close> bytes at \<open>done\<close>, from a buffer of whole lines.\<close>

definition chunk_at :: "nat \<Rightarrow> nat \<Rightarrow> nat \<Rightarrow> nat \<Rightarrow> bool" where
  "chunk_at bl len done n \<longleftrightarrow> RRAM_LINE_LEN dvd bl \<and> RRAM_LINE_LEN dvd done \<and> done < len \<and> 0 < bl
     \<and> n = min bl (len - done)"

lemma chunk_fits:
  assumes "chunk_at bl len done n"
  shows "0 < n" "16 dvd done" "pad_len n \<le> bl" "done + pad_len n \<le> pad_len len"
    "done + n < len \<Longrightarrow> pad_len n = n \<and> 16 dvd done + n" "done + n \<le> len"
    "done + n = len \<Longrightarrow> done + pad_len n = pad_len len"
proof -
  have bl: "16 dvd bl" "16 dvd done" "done < len" "0 < bl" and n: "n = min bl (len - done)"
    using assms by (simp_all add: chunk_at_def RRAM_LINE_LEN_def)
  show "0 < n" "16 dvd done" "done + n \<le> len" using bl n by auto
  show "pad_len n \<le> bl"
    using n bl(1) by (intro pad_len_le) simp_all
  show last: "done + n = len \<Longrightarrow> done + pad_len n = pad_len len"
    using pad_len_add [OF bl(2), of n] by auto
  show mid: "done + n < len \<Longrightarrow> pad_len n = n \<and> 16 dvd done + n"
    using n bl by (simp add: min_def pad_len_dvd split: if_splits)
  show "done + pad_len n \<le> pad_len len"
    using last mid pad_len_bounds(1) [of len] \<open>done + n \<le> len\<close> by (cases "done + n = len") auto
qed

lemma slot_written_put:
  assumes "dv_ok v s'" "dv_card v s' = dv_card v s" "dv_page v s' = dv_page v s"
    and "dv_slot v s' = put_bytes (dv_slot v s) off d" and "off + length d \<le> k"
    and "off + length d \<le> length (dv_slot v s)"
  shows "slot_written v k s s'"
proof -
  have "drop k (put_bytes (dv_slot v s) off d) = drop k (dv_slot v s)"
    using assms(5,6) by (simp add: put_bytes_def min_def)
  then show ?thesis using assms by (simp add: slot_written_def)
qed

locale install_device =
  fixes io :: "'s install_io" and sl :: slot and v :: "'s device_view"
  assumes slot_in_space: "unat (slot_base sl) + unat (slot_len sl) \<le> 2 ^ 32"
    and slot_aligned: "RRAM_LINE_LEN dvd unat (slot_base sl)"
    and card_len: "dv_ok v s \<Longrightarrow> length (dv_card v s k) = SD_BLOCK_LEN"
    and slot_mem_len: "dv_ok v s \<Longrightarrow> length (dv_slot v s) = unat (slot_len sl)"
    and read_blocks: "dv_ok v s \<Longrightarrow> 0 < n \<Longrightarrow> SD_BLOCK_LEN dvd n \<Longrightarrow>
      io_read_blocks io b n s = (r, s') \<Longrightarrow>
      undisturbed v s s' \<and> (\<forall>bs. r = Inr bs \<longrightarrow>
        bs = concat (map (dv_card v s) [unat b..<unat b + n div SD_BLOCK_LEN]))"
    and read_flash: "dv_ok v s \<Longrightarrow> slot_base sl \<le> a \<Longrightarrow>
      unat a + n \<le> unat (slot_base sl) + unat (slot_len sl) \<Longrightarrow>
      io_read_flash io a n s = (r, s') \<Longrightarrow>
      undisturbed v s s' \<and> (\<forall>bs. r = Inr bs \<longrightarrow>
        bs = slice (unat a - unat (slot_base sl)) n (dv_slot v s))"
    and write_lines: "dv_ok v s \<Longrightarrow> slot_base sl \<le> a \<Longrightarrow> RRAM_LINE_LEN dvd unat a \<Longrightarrow>
      data \<noteq> [] \<Longrightarrow> RRAM_LINE_LEN dvd length data \<Longrightarrow>
      unat a + length data \<le> unat (slot_base sl) + unat (slot_len sl) \<Longrightarrow>
      io_write_lines io a data s = (rw, s') \<Longrightarrow>
      dv_ok v s' \<and> dv_card v s' = dv_card v s \<and> dv_page v s' = dv_page v s
      \<and> (\<exists>data'. length data' = length data
           \<and> dv_slot v s' = put_bytes (dv_slot v s) (unat a - unat (slot_base sl)) data')"
    and write_state: "dv_ok v s \<Longrightarrow> wf_state st \<Longrightarrow> io_write_state io st s = (rw, s') \<Longrightarrow>
      dv_ok v s' \<and> dv_card v s' = dv_card v s \<and> dv_slot v s' = dv_slot v s
      \<and> (rw = Inr () \<longrightarrow> state_decode (dv_page v s') = st)"
    and progress: "dv_ok v s \<Longrightarrow> undisturbed v s (io_progress io ph d t s)"
begin

text \<open>
  The stream: whatever the extents say, filling disturbs nothing and yields exactly the bytes asked
  for; over a chain inside the block space those are the next bytes of the chain, and the stream is
  exhausted only when the chain is shorter.
\<close>

lemma read_len:
  assumes "dv_ok v s" and "io_read_blocks io b (k * SD_BLOCK_LEN) s = (Inr bs, s')" and "0 < k"
  shows "bs = concat (map (dv_card v s) [unat b..<unat b + k])" and "length bs = k * SD_BLOCK_LEN"
    and "undisturbed v s s'"
proof -
  show bs: "bs = concat (map (dv_card v s) [unat b..<unat b + k])" and "undisturbed v s s'"
    using read_blocks [OF assms(1) _ _ assms(2)] assms(3) by (simp_all add: SD_BLOCK_LEN_def)
  show "length bs = k * SD_BLOCK_LEN"
    using assms(1) by (simp add: bs length_concat card_len comp_def sum_list_triv)
qed

lemma fill_round_read:
  assumes ok: "dv_ok v s" and st: "st_ok st" and "rem \<noteq> 0" and pos: "\<not> es_pos st < es_len st"
    and nb: "next_block st = (Some (start, left), st1)"
    and "fill_loop io st rem acc s = (r, s')"
  shows "undisturbed v s s' \<and> r = Inl StreamIo \<or>
    (\<exists>st2 rem2 bs s1. undisturbed v s s1 \<and> st_ok st2 \<and> es_extents st2 = es_extents st
       \<and> fill_loop io st2 rem2 (acc @ bs) s1 = (r, s') \<and> rem = length bs + rem2
       \<and> (extents_ok (es_extents st) \<longrightarrow> st_rest (dv_card v s) st = bs @ st_rest (dv_card v s) st2)
       \<and> (bs = [] \<longrightarrow> es_pos st2 < es_len st2))"
proof -
  define whole where "whole = min (rem div SD_BLOCK_LEN) (unat left)"
  define k where "k = (if whole > 0 then whole else 1)"
  have k: "0 < k" by (simp add: k_def)
  note keep = next_block_keeps [of st, unfolded nb snd_conv]
  let ?st = "st1\<lparr>es_blocks_done := es_blocks_done st1 + of_nat k\<rparr>"
  obtain x s1 where rd: "io_read_blocks io start (k * SD_BLOCK_LEN) s = (x, s1)"
    by (cases "io_read_blocks io start (k * SD_BLOCK_LEN) s")
  have u: "undisturbed v s s1"
    using read_blocks [OF ok _ _ rd] k by (simp add: SD_BLOCK_LEN_def)
  note step = assms(6) [unfolded fill_loop.simps [of io st rem acc s] nb Let_def prod.case option.case
      whole_def [symmetric]]
  show ?thesis
  proof (cases x)
    case (Inl e)
    then show ?thesis
      using step assms(3) pos rd u by (auto simp: k_def split: if_splits)
  next
    case (Inr bs)
    note rl = read_len [OF ok rd [unfolded Inr] k]
    have adv: "st_rest (dv_card v s) st = bs @ concat (map (dv_card v s) (st_blocks ?st))"
      if "extents_ok (es_extents st)"
      using st_rest_advance [OF nb that pos, of k] next_block_run [OF nb that] rl(1)
      by (auto simp: k_def whole_def)
    show ?thesis
    proof (cases "whole > 0")
      case True
      have "fill_loop io ?st (rem - length bs) (acc @ bs) s1 = (r, s')"
        using step assms(3) pos rd Inr True rl(2) by (simp add: k_def)
      moreover have "length bs \<le> rem"
        using rl(2) True by (simp add: k_def whole_def min_def SD_BLOCK_LEN_def) linarith
      moreover have "bs \<noteq> []" using rl(2) k by (auto simp: SD_BLOCK_LEN_def)
      moreover have "st_rest (dv_card v s) ?st = concat (map (dv_card v s) (st_blocks ?st))"
        using pos keep by (simp add: st_rest_def)
      ultimately show ?thesis
        using u adv st keep by (intro disjI2 exI [of _ ?st] exI [of _ "rem - length bs"] exI [of _ bs]
          exI [of _ s1]) (simp add: st_ok_def)
    next
      case False
      let ?st2 = "?st\<lparr>es_scratch := bs, es_pos := 0, es_len := SD_BLOCK_LEN\<rparr>"
      have "fill_loop io ?st2 rem acc s1 = (r, s')"
        using step assms(3) pos rd Inr False by (simp add: k_def)
      moreover have "st_rest (dv_card v s) ?st2 = bs @ concat (map (dv_card v s) (st_blocks ?st))"
        using rl(2) False by (simp add: st_rest_def k_def st_blocks_def)
      ultimately show ?thesis
        using u adv st keep rl(2) False by (intro disjI2 exI [of _ ?st2] exI [of _ rem] exI [of _ "[]"]
          exI [of _ s1]) (simp add: st_ok_def k_def SD_BLOCK_LEN_def)
    qed
  qed
qed

lemma fill_loop_spec:
  assumes "dv_ok v s" and "st_ok st" and "fill_loop io st rem acc s = (r, s')"
  shows "undisturbed v s s' \<and> fill_post (dv_card v s) st rem acc r"
  using assms
proof (induction "2 * rem + (if es_pos st < es_len st then 0 else 1)" arbitrary: st rem acc s rule: less_induct)
  case less
  note step = less.prems(3) [unfolded fill_loop.simps [of io st rem acc s]]
  consider (nil) "rem = 0" | (scratch) "rem \<noteq> 0" "es_pos st < es_len st"
    | (blocks) "rem \<noteq> 0" "\<not> es_pos st < es_len st" by blast
  then show ?case
  proof cases
    case nil
    then show ?thesis using less.prems step by (auto simp: undisturbed_refl fill_post_def)
  next
    case scratch
    define n where "n = min (es_len st - es_pos st) rem"
    note t = scratch_take [OF less.prems(2) scratch(2) n_def]
    have "fill_loop io (st\<lparr>es_pos := es_pos st + n\<rparr>) (rem - n)
        (acc @ slice (es_pos st) n (es_scratch st)) s = (r, s')"
      using step scratch by (simp add: Let_def n_def)
    then have "undisturbed v s s' \<and> fill_post (dv_card v s) (st\<lparr>es_pos := es_pos st + n\<rparr>) (rem - n)
        (acc @ slice (es_pos st) n (es_scratch st)) r"
      using scratch less.prems(1) t(1) by (intro less.hyps) (auto simp: n_def)
    then show ?thesis
      using t(2) n_def by (auto intro!: fill_post_step [OF _ _ _ t(3)])
  next
    case blocks
    obtain nb st1 where nb: "next_block st = (nb, st1)" by (cases "next_block st")
    show ?thesis
    proof (cases nb)
      case None
      with step blocks nb have r: "r = Inl Exhausted" "s' = s" by auto
      then show ?thesis
        using less.prems(1) blocks next_block_none [OF nb [unfolded None]]
        by (auto simp: undisturbed_refl fill_post_def st_rest_def)
    next
      case (Some p)
      obtain start left where p: "p = (start, left)" by (cases p)
      from fill_round_read [OF less.prems(1,2) blocks nb [unfolded Some p] less.prems(3)]
      show ?thesis
      proof (elim disjE exE conjE)
        fix st2 rem2 bs s1
        assume u: "undisturbed v s s1" and f: "fill_loop io st2 rem2 (acc @ bs) s1 = (r, s')"
          and st2: "st_ok st2" and ex: "es_extents st2 = es_extents st" and rem: "rem = length bs + rem2"
          and rest: "extents_ok (es_extents st) \<longrightarrow>
            st_rest (dv_card v s) st = bs @ st_rest (dv_card v s) st2"
          and lt: "bs = [] \<longrightarrow> es_pos st2 < es_len st2"
        have "undisturbed v s1 s' \<and> fill_post (dv_card v s1) st2 rem2 (acc @ bs) r"
          using u st2 rem lt blocks f by (intro less.hyps) (auto simp: undisturbed_ok)
        moreover have "dv_card v s1 = dv_card v s" using u by (simp add: undisturbed_def)
        ultimately show ?thesis
          using u rem ex rest by (auto intro: undisturbed_trans fill_post_step [of _ st2 rem2 acc bs])
      qed (simp add: fill_post_def)
    qed
  qed
qed

lemma fill_spec:
  "dv_ok v s \<Longrightarrow> st_ok st \<Longrightarrow> fill io st n s = (r, s') \<Longrightarrow>
   undisturbed v s s' \<and> fill_post (dv_card v s) st n [] r"
  unfolding fill_def by (rule fill_loop_spec)

lemma progress_ok: "undisturbed v s0 s \<Longrightarrow> undisturbed v s0 (io_progress io ph d t s)"
  by (metis undisturbed_trans undisturbed_ok progress)

lemma verify_loop_spec:
  assumes "dv_ok v s" and "st_ok st" and "0 < bl" and "done \<le> len"
    and "verify_loop io bl len st crc done s = (r, s')"
  shows "undisturbed v s s' \<and> (extents_ok (es_extents st) \<longrightarrow>
    verify_post (st_rest (dv_card v s) st) (len - done) crc r)"
  using assms
proof (induction "len - done" arbitrary: st crc "done" s rule: less_induct)
  case less
  note step = less.prems(5) [unfolded verify_loop.simps [of io bl len st crc "done" s]]
  show ?case
  proof (cases "len \<le> done")
    case True
    then show ?thesis using step less.prems by (auto simp: undisturbed_refl verify_post_def)
  next
    case False
    define n where "n = min bl (len - done)"
    obtain x s1 where f: "fill io st n s = (x, s1)" by (cases "fill io st n s")
    note fs = fill_spec [OF less.prems(1,2) f]
    note step = step [unfolded Let_def n_def [symmetric] f prod.case]
    show ?thesis
    proof (cases x)
      case (Inl e)
      then show ?thesis
        using step False less.prems(3) fs
        by (cases e) (auto simp: verify_post_def fill_post_def n_def)
    next
      case (Inr y)
      obtain bs st1 where y: "y = (bs, st1)" by (cases y)
      let ?s = "io_progress io Verify (of_nat (done + n)) (of_nat len) s1"
      have u: "undisturbed v s ?s" using fs progress_ok by blast
      then have c: "dv_card v ?s = dv_card v s" by (simp add: undisturbed_def)
      have "verify_loop io bl len st1 (crc_update crc bs) (done + n) ?s = (r, s')"
        using step False less.prems(3) Inr y by simp
      moreover have "st_ok st1" "es_extents st1 = es_extents st"
        using fs Inr y by (simp_all add: fill_post_def)
      ultimately have "undisturbed v ?s s' \<and> (extents_ok (es_extents st) \<longrightarrow>
          verify_post (st_rest (dv_card v s) st1) (len - (done + n)) (crc_update crc bs) r)"
        using less.hyps [of "done + n" ?s st1 "crc_update crc bs"] False less.prems(3) u c
        by (simp add: n_def undisturbed_ok)
      then show ?thesis
        using u fs Inr y False
        by (auto simp: fill_post_def n_def intro: undisturbed_trans verify_post_step)
    qed
  qed
qed

lemma verify_spec:
  assumes "dv_ok v s" and "0 < bl" and "verify io staged sl bl s = (r, s')"
  shows "undisturbed v s s' \<and> (extents_ok (sr_extents staged) \<longrightarrow>
    (r = Inr () \<longrightarrow> stage_valid (dv_card v s) sl staged)
    \<and> (r = Inl Mismatch \<longrightarrow> \<not> stage_valid (dv_card v s) sl staged))"
proof (cases "sr_len staged = 0 \<or> sr_len staged > MAX_IMAGE_LEN \<or> padded_len (sr_len staged) > slot_len sl")
  case True
  then show ?thesis
    using assms by (auto simp: verify_def stage_valid_def Let_def undisturbed_refl)
next
  case False
  let ?st = "stream_new (sr_extents staged)" and ?chain = "chain_bytes (dv_card v s) (sr_extents staged)"
    and ?len = "unat (sr_len staged)"
  obtain x s1 where f: "fill io ?st HEADER_LEN s = (x, s1)" by (cases "fill io ?st HEADER_LEN s")
  note fs = fill_spec [OF assms(1) st_new(2) f, unfolded fill_post_def st_new(1)]
  note step = assms(3) [unfolded verify_def Let_def f prod.case]
  show ?thesis
  proof (cases x)
    case (Inl e)
    then show ?thesis
      using step False fs by (cases e) (auto simp: stage_valid_def Let_def stream_new_def)
  next
    case (Inr y)
    obtain hdr st where y: "y = (hdr, st)" by (cases y)
    let ?s = "io_progress io Verify 0 (sr_len staged) s1"
    have u: "undisturbed v s ?s" using fs progress_ok by blast
    then have c: "dv_card v ?s = dv_card v s" by (simp add: undisturbed_def)
    have h: "hdr = take HEADER_LEN ?chain" "st_rest (dv_card v s) st = drop HEADER_LEN ?chain"
      "HEADER_LEN \<le> length ?chain" if "extents_ok (sr_extents staged)"
      using fs Inr y that by (simp_all add: stream_new_def)
    have st: "st_ok st" "es_extents st = sr_extents staged"
      using fs Inr y by (simp_all add: stream_new_def)
    obtain z s2 where vl: "verify_loop io bl ?len st crc_new 0 ?s = (z, s2)"
      by (cases "verify_loop io bl ?len st crc_new 0 ?s")
    note vs = verify_loop_spec [OF undisturbed_ok [OF u] st(1) assms(2) le0 vl, unfolded c st(2)]
    show ?thesis
    proof (cases "header_decode hdr = Some (sr_header staged)")
      case False
      then show ?thesis
        using step \<open>\<not> (sr_len staged = 0 \<or> _)\<close> Inr y fs h by (auto simp: stage_valid_def Let_def)
    next
      case True
      note step = step [unfolded Inr y sum.case prod.case vl]
      show ?thesis
        using step False True vs u h
        by (cases z)
          (auto simp: stage_valid_def Let_def verify_post_def slice_def finalize_new_update
            intro: undisturbed_trans split: if_splits verify_error.splits)
    qed
  qed
qed

lemma readback_loop_spec:
  assumes "dv_ok v s" and "0 < bl" and "done \<le> len" and "len \<le> unat (slot_len sl)"
    and "readback_loop io sl bl len crc done s = (r, s')"
  shows "undisturbed v s s' \<and>
    (\<forall>crc'. r = Inr crc' \<longrightarrow> crc' = crc_update crc (slice done (len - done) (dv_slot v s)))"
  using assms
proof (induction "len - done" arbitrary: crc "done" s rule: less_induct)
  case less
  note step = less.prems(5) [unfolded readback_loop.simps [of io sl bl len crc "done" s]]
  show ?case
  proof (cases "len \<le> done")
    case True
    then show ?thesis using step less.prems by (auto simp: undisturbed_refl)
  next
    case False
    define n where "n = min bl (len - done)"
    let ?a = "slot_base sl + of_nat done"
    have a: "unat ?a = unat (slot_base sl) + done"
      using False less.prems(4) slot_in_space by (intro unat_add_of_nat) simp
    obtain x s1 where f: "io_read_flash io ?a n s = (x, s1)" by (cases "io_read_flash io ?a n s")
    have rf: "undisturbed v s s1 \<and> (\<forall>bs. x = Inr bs \<longrightarrow> bs = slice done n (dv_slot v s))"
      using read_flash [OF less.prems(1) _ _ f] a False less.prems(4)
      by (simp add: word_le_nat_alt n_def)
    note step = step [unfolded Let_def n_def [symmetric] f prod.case]
    show ?thesis
    proof (cases x)
      case (Inl e)
      then show ?thesis using step False less.prems(2) rf by auto
    next
      case (Inr bs)
      let ?s = "io_progress io Readback (of_nat (done + n)) (of_nat len) s1"
      have u: "undisturbed v s ?s" using rf progress_ok by blast
      then have "dv_slot v ?s = dv_slot v s" by (simp add: undisturbed_def)
      moreover have "readback_loop io sl bl len (crc_update crc bs) (done + n) ?s = (r, s')"
        using step False less.prems(2) Inr by simp
      moreover have "slice done (len - done) (dv_slot v s)
          = slice done n (dv_slot v s) @ slice (done + n) (len - (done + n)) (dv_slot v s)"
        using False by (simp add: slice_append_slice n_def)
      ultimately show ?thesis
        using less.hyps [of "done + n" ?s "crc_update crc bs"] False less.prems(2,4) u rf Inr
        by (auto simp: n_def undisturbed_ok crc_update_append intro: undisturbed_trans)
    qed
  qed
qed

lemma readback_spec:
  assumes "dv_ok v s" and "0 < bl" and "unat (sr_len staged) \<le> unat (slot_len sl)"
    and "readback io staged sl bl s = (r, s')"
  shows "undisturbed v s s'
    \<and> (\<forall>m. r = Inr m \<longrightarrow> m = (crc32 (take (unat (sr_len staged)) (dv_slot v s)) = sr_crc32 staged))"
proof -
  let ?len = "unat (sr_len staged)"
  let ?s = "io_progress io Readback 0 (sr_len staged) s"
  have u: "undisturbed v s ?s" using assms(1) by (rule progress)
  obtain x s1 where rl: "readback_loop io sl bl ?len crc_new 0 ?s = (x, s1)"
    by (cases "readback_loop io sl bl ?len crc_new 0 ?s")
  note rs = readback_loop_spec [OF undisturbed_ok [OF u] assms(2) le0 assms(3) rl]
  have "dv_slot v ?s = dv_slot v s" using u by (simp add: undisturbed_def)
  then show ?thesis
    using assms(4) rs u
    by (cases x) (auto simp: readback_def Let_def rl slice_def finalize_new_update
        intro: undisturbed_trans)
qed

text \<open>The flash pass writes inside the padded image and nowhere else.\<close>

lemma write_chunk:
  assumes "dv_ok v s" and "chunk_at bl len done n" and "length bs = n"
    and "pad_len len \<le> unat (slot_len sl)"
    and "io_write_lines io (slot_base sl + of_nat done) (bs @ replicate (pad_len n - n) PAD_BYTE) s = (r, s')"
  shows "dv_ok v s' \<and> dv_card v s' = dv_card v s \<and> dv_page v s' = dv_page v s
    \<and> (\<exists>d. length d = pad_len n \<and> dv_slot v s' = put_bytes (dv_slot v s) done d)"
    and "slot_base sl \<le> slot_base sl + of_nat done"
    and "RRAM_LINE_LEN dvd unat (slot_base sl + of_nat done)"
    and "unat (slot_base sl + of_nat done) = unat (slot_base sl) + done"
    and "done + pad_len n \<le> unat (slot_len sl)"
proof -
  note cf = chunk_fits [OF assms(2)]
  let ?a = "slot_base sl + of_nat done"
  show le: "done + pad_len n \<le> unat (slot_len sl)" using cf assms(4) by simp
  show a: "unat ?a = unat (slot_base sl) + done"
    using le cf pad_len_bounds(1) [of n] slot_in_space by (intro unat_add_of_nat) simp
  show "slot_base sl \<le> ?a" using a by (simp add: word_le_nat_alt)
  show "RRAM_LINE_LEN dvd unat ?a"
    using a slot_aligned cf by (simp add: RRAM_LINE_LEN_def)
  then show "dv_ok v s' \<and> dv_card v s' = dv_card v s \<and> dv_page v s' = dv_page v s
    \<and> (\<exists>d. length d = pad_len n \<and> dv_slot v s' = put_bytes (dv_slot v s) done d)"
    using write_lines [OF assms(1) _ _ _ _ _ assms(5)] a le cf pad_len_bounds [of n] assms(3)
    by (auto simp: word_le_nat_alt RRAM_LINE_LEN_def)
qed

lemma flash_loop_frame:
  assumes "dv_ok v s" and "st_ok st" and "RRAM_LINE_LEN dvd bl" and "done < len \<longrightarrow> RRAM_LINE_LEN dvd done"
    and "pad_len len \<le> unat (slot_len sl)" and "flash_loop io sl bl len st done s = (r, s')"
  shows "slot_written v (pad_len len) s s'"
  using assms
proof (induction "len - done" arbitrary: st "done" s rule: less_induct)
  case less
  note step = less.prems(6) [unfolded flash_loop.simps [of io sl bl len st "done" s]]
  show ?case
  proof (cases "len \<le> done \<or> bl = 0")
    case True
    then show ?thesis using step less.prems(1) by (auto simp: undisturbed_written undisturbed_refl)
  next
    case False
    define n where "n = min bl (len - done)"
    have ca: "chunk_at bl len done n"
      using False less.prems(3,4) by (auto simp: chunk_at_def n_def)
    note cf = chunk_fits [OF ca]
    obtain x s1 where f: "fill io st n s = (x, s1)" by (cases "fill io st n s")
    note fs = fill_spec [OF less.prems(1,2) f]
    note step = step [unfolded Let_def n_def [symmetric] f prod.case pad_len_def [symmetric]]
    show ?thesis
    proof (cases x)
      case (Inl e)
      then show ?thesis using step False fs by (auto simp: undisturbed_written)
    next
      case (Inr y)
      obtain bs st1 where y: "y = (bs, st1)" by (cases y)
      have bs: "length bs = n" "st_ok st1" using fs Inr y by (simp_all add: fill_post_def)
      obtain w s2 where wl: "io_write_lines io (slot_base sl + of_nat done)
          (bs @ replicate (pad_len n - n) PAD_BYTE) s1 = (w, s2)"
        by (cases "io_write_lines io (slot_base sl + of_nat done)
          (bs @ replicate (pad_len n - n) PAD_BYTE) s1")
      note wc = write_chunk [OF undisturbed_ok [OF conjunct1 [OF fs]] ca bs(1) less.prems(5) wl]
      have "slot_written v (pad_len len) s1 s2"
        using wc(1,5) cf slot_mem_len [OF undisturbed_ok [OF conjunct1 [OF fs]]]
        by (auto intro: slot_written_put)
      then have w2: "slot_written v (pad_len len) s s2"
        using fs by (blast intro: slot_written_trans undisturbed_written)
      show ?thesis
      proof (cases w)
        case (Inl e)
        then show ?thesis using step False Inr y wl w2 cf by (simp add: \<open>x = Inr y\<close>)
      next
        case (Inr q)
        let ?s = "io_progress io Flash (of_nat (done + n)) (of_nat len) s2"
        have w3: "slot_written v (pad_len len) s ?s"
          using w2 progress [OF slot_written_ok [OF w2]] by (blast intro: slot_written_trans undisturbed_written)
        have "flash_loop io sl bl len st1 (done + n) ?s = (r, s')"
          using step False Inr y wl cf by (simp add: \<open>x = Inr y\<close>)
        then have "slot_written v (pad_len len) ?s s'"
          using less.hyps [of "done + n" ?s st1] False cf(1,5,6) less.prems(3,5) bs(2) slot_written_ok [OF w3]
          by (simp add: RRAM_LINE_LEN_def)
        then show ?thesis using w3 by (blast intro: slot_written_trans)
      qed
    qed
  qed
qed

lemma flash_pass_frame:
  assumes "dv_ok v s" and "RRAM_LINE_LEN dvd bl" and "pad_len (unat (sr_len staged)) \<le> unat (slot_len sl)"
    and "flash_pass io staged sl bl s = (r, s')"
  shows "slot_written v (pad_len (unat (sr_len staged))) s s'"
proof -
  let ?st = "stream_new (sr_extents staged)" and ?len = "unat (sr_len staged)"
  obtain x s1 where f: "fill io ?st HEADER_LEN s = (x, s1)" by (cases "fill io ?st HEADER_LEN s")
  note fs = fill_spec [OF assms(1) st_new(2) f, unfolded fill_post_def]
  show ?thesis
  proof (cases x)
    case (Inl e)
    then show ?thesis using assms(4) f fs by (auto simp: flash_pass_def undisturbed_written)
  next
    case (Inr y)
    obtain hdr st where y: "y = (hdr, st)" by (cases y)
    let ?s = "io_progress io Flash 0 (sr_len staged) s1"
    have u: "undisturbed v s ?s" using fs progress_ok by blast
    have "flash_loop io sl bl ?len st 0 ?s = (r, s')"
      using assms(4) f Inr y by (simp add: flash_pass_def Let_def)
    then have "slot_written v (pad_len ?len) ?s s'"
      using flash_loop_frame [OF undisturbed_ok [OF u], of st bl 0 ?len] fs Inr y assms(2,3) by simp
    then show ?thesis using u by (blast intro: slot_written_trans undisturbed_written)
  qed
qed

lemma flash_attempt_spec:
  assumes "dv_ok v s" and "RRAM_LINE_LEN dvd bl" and "0 < bl"
    and "pad_len (unat (sr_len staged)) \<le> unat (slot_len sl)"
    and "flash_attempt io staged sl bl s = (r, s')"
  shows "slot_written v (pad_len (unat (sr_len staged))) s s'
    \<and> (r = Inr False \<longrightarrow> crc32 (take (unat (sr_len staged)) (dv_slot v s')) = sr_crc32 staged)"
proof -
  let ?k = "pad_len (unat (sr_len staged))"
  have len: "unat (sr_len staged) \<le> unat (slot_len sl)"
    using assms(4) pad_len_bounds(1) [of "unat (sr_len staged)"] by simp
  obtain x s1 where fp: "flash_pass io staged sl bl s = (x, s1)" by (cases "flash_pass io staged sl bl s")
  note w = flash_pass_frame [OF assms(1,2,4) fp]
  obtain y s2 where rb: "readback io staged sl bl s1 = (y, s2)" by (cases "readback io staged sl bl s1")
  note rs = readback_spec [OF slot_written_ok [OF w] assms(3) len rb]
  then have "slot_written v ?k s s2" and "dv_slot v s2 = dv_slot v s1"
    using w by (blast intro: slot_written_trans undisturbed_written, simp add: undisturbed_def)
  then show ?thesis
    using assms(5) fp rb w rs
    by (auto simp: flash_attempt_def split: sum.splits pass_error.splits)
qed

lemma flash_attempts_spec:
  assumes "dv_ok v s" and "RRAM_LINE_LEN dvd bl" and "0 < bl"
    and "pad_len (unat (sr_len staged)) \<le> unat (slot_len sl)"
    and "flash_attempts n io staged sl bl s = (r, s')"
  shows "slot_written v (pad_len (unat (sr_len staged))) s s'
    \<and> (r = Inr () \<longrightarrow> crc32 (take (unat (sr_len staged)) (dv_slot v s')) = sr_crc32 staged)"
  using assms
proof (induction n arbitrary: s)
  case 0
  then show ?case by (auto simp: undisturbed_written undisturbed_refl)
next
  case (Suc n)
  obtain x s1 where fa: "flash_attempt io staged sl bl s = (x, s1)" by (cases "flash_attempt io staged sl bl s")
  note fs = flash_attempt_spec [OF Suc.prems(1-4) fa]
  note ok = slot_written_ok [OF conjunct1 [OF fs]]
  show ?case
    using Suc.prems(5) fa fs Suc.IH [OF ok Suc.prems(2-4)]
    by (auto split: sum.splits if_splits intro: slot_written_trans)
qed

lemma verify_gate:
  "verify io staged sl bl s = (Inr u, s') \<Longrightarrow>
   0 < unat (sr_len staged) \<and> pad_len (unat (sr_len staged)) \<le> unat (slot_len sl)"
  by (auto simp: verify_def Let_def word_le_nat_alt padded_len_unat [symmetric] unat_gt_0 not_less
      split: if_splits)

text \<open>
  The whole pipeline, over any device and any staged record: where it wrote, and what each outcome
  says about the slot and the page.
\<close>

lemma install_pipeline_spec:
  assumes "dv_ok v s" and "RRAM_LINE_LEN dvd bl" and "0 < bl" and "wf_state mm" and "wf_state succ"
    and "install_pipeline io src sl bl pre mm succ s = (out, s')"
  shows "pipeline_post v src succ mm pre s out s'"
proof -
  obtain x s1 where vf: "verify io src sl bl s = (x, s1)" by (cases "verify io src sl bl s")
  have u: "undisturbed v s s1" using verify_spec [OF assms(1,3) vf] by blast
  note ok1 = undisturbed_ok [OF u]
  show ?thesis
  proof (cases x)
    case (Inl e)
    show ?thesis
    proof (cases e)
      case Mismatch
      obtain y s2 where ws: "io_write_state io mm s1 = (y, s2)" by (cases "io_write_state io mm s1")
      show ?thesis
        using assms(6) vf Inl Mismatch ws write_state [OF ok1 assms(4) ws] u
        by (auto simp: install_pipeline_def pipeline_post_def undisturbed_def)
    next
      case VerifyIo
      then show ?thesis
        using assms(6) vf Inl u by (auto simp: install_pipeline_def pipeline_post_def undisturbed_def)
    qed
  next
    case (Inr q)
    note g = verify_gate [OF vf [unfolded Inr]]
    obtain y s2 where fv: "flash_verified io src sl bl s1 = (y, s2)" by (cases "flash_verified io src sl bl s1")
    note fs = flash_attempts_spec [OF ok1 assms(2,3) conjunct2 [OF g] fv [unfolded flash_verified_def]]
    note ok2 = slot_written_ok [OF conjunct1 [OF fs]]
    obtain z s3 where ws: "io_write_state io succ s2 = (z, s3)" by (cases "io_write_state io succ s2")
    note wl = write_state [OF ok2 assms(5) ws]
    show ?thesis
      using assms(6) vf Inr fv fs wl ws u g slot_mem_len [OF assms(1)]
      by (auto simp: install_pipeline_def pipeline_post_def undisturbed_def slot_written_def
          split: sum.splits pass_error.splits)
  qed
qed

end

text \<open>A device whose line writes, when they report success, stored the data.\<close>

locale honest_device = install_device +
  assumes write_stores: "dv_ok v s \<Longrightarrow> slot_base sl \<le> a \<Longrightarrow> RRAM_LINE_LEN dvd unat a \<Longrightarrow>
      data \<noteq> [] \<Longrightarrow> RRAM_LINE_LEN dvd length data \<Longrightarrow>
      unat a + length data \<le> unat (slot_base sl) + unat (slot_len sl) \<Longrightarrow>
      io_write_lines io a data s = (Inr (), s') \<Longrightarrow>
      dv_slot v s' = put_bytes (dv_slot v s) (unat a - unat (slot_base sl)) data"
begin

lemma write_chunk_stores:
  assumes "dv_ok v s" and "chunk_at bl len done n" and "length bs = n"
    and "pad_len len \<le> unat (slot_len sl)"
    and "io_write_lines io (slot_base sl + of_nat done) (bs @ replicate (pad_len n - n) PAD_BYTE) s = (Inr (), s')"
  shows "dv_slot v s' = put_bytes (dv_slot v s) done (bs @ replicate (pad_len n - n) PAD_BYTE)"
proof -
  note wc = write_chunk [OF assms]
  show ?thesis
    using write_stores [OF assms(1) wc(2,3) _ _ _ assms(5)] wc(4,5) chunk_fits(1) [OF assms(2)]
      pad_len_bounds [of n] assms(3)
    by (auto simp: RRAM_LINE_LEN_def)
qed

lemma flash_loop_stores:
  assumes "dv_ok v s" and "st_ok st" and "RRAM_LINE_LEN dvd bl" and "0 < bl"
    and "done < len" and "RRAM_LINE_LEN dvd done" and "pad_len len \<le> unat (slot_len sl)"
    and "extents_ok (es_extents st)" and "flash_loop io sl bl len st done s = (Inr (), s')"
  shows "dv_slot v s' = put_bytes (dv_slot v s) done
    (take (len - done) (st_rest (dv_card v s) st) @ replicate (pad_len len - len) PAD_BYTE)"
  using assms
proof (induction "len - done" arbitrary: st "done" s rule: less_induct)
  case less
  note step = less.prems(9) [unfolded flash_loop.simps [of io sl bl len st "done" s]]
  define n where "n = min bl (len - done)"
  have ca: "chunk_at bl len done n"
    using less.prems by (auto simp: chunk_at_def n_def)
  note cf = chunk_fits [OF ca]
  obtain x s1 where f: "fill io st n s = (x, s1)" by (cases "fill io st n s")
  note fs = fill_spec [OF less.prems(1,2) f]
  note step = step [unfolded Let_def n_def [symmetric] f prod.case pad_len_def [symmetric]]
  obtain bs st1 where x: "x = Inr (bs, st1)"
    using step less.prems(4,5) by (auto split: sum.splits)
  let ?rest = "st_rest (dv_card v s) st" and ?chunk = "bs @ replicate (pad_len n - n) PAD_BYTE"
  have bs: "bs = take n ?rest" "length bs = n" "st_ok st1" "es_extents st1 = es_extents st"
    "st_rest (dv_card v s) st1 = drop n ?rest" and u1: "undisturbed v s s1"
    using fs x less.prems(8) by (simp_all add: fill_post_def)
  obtain s2 where wl: "io_write_lines io (slot_base sl + of_nat done) ?chunk s1 = (Inr (), s2)"
    and rest: "flash_loop io sl bl len st1 (done + n)
      (io_progress io Flash (of_nat (done + n)) (of_nat len) s2) = (Inr (), s')"
    using step less.prems(4,5) x cf(3) by (auto split: sum.splits prod.splits)
  note wc = write_chunk [OF undisturbed_ok [OF u1] ca bs(2) less.prems(7) wl]
  have slot2: "dv_slot v s2 = put_bytes (dv_slot v s) done ?chunk"
    using write_chunk_stores [OF undisturbed_ok [OF u1] ca bs(2) less.prems(7) wl] u1
    by (simp add: undisturbed_def)
  let ?s = "io_progress io Flash (of_nat (done + n)) (of_nat len) s2"
  have u2: "undisturbed v s2 ?s" using wc(1) by (simp add: progress)
  have s: "dv_slot v ?s = dv_slot v s2" "dv_card v ?s = dv_card v s" "dv_ok v ?s"
    using u2 wc(1) u1 by (simp_all add: undisturbed_def)
  show ?case
  proof (cases "done + n = len")
    case True
    have "s' = ?s" using rest True by (simp add: flash_loop.simps)
    moreover have "pad_len n - n = pad_len len - len" using cf(7) [OF True] True by simp
    ultimately show ?thesis using slot2 s(1) bs(1) True by auto
  next
    case False
    then have lt: "done + n < len" using cf(6) by simp
    let ?tail = "take (len - (done + n)) (drop n ?rest) @ replicate (pad_len len - len) PAD_BYTE"
    have "dv_slot v s' = put_bytes (dv_slot v ?s) (done + n) ?tail"
      using less.hyps [of "done + n" ?s st1] cf(1) cf(5) [OF lt] less.prems(3,4,7,8) lt bs(3-5) s(2,3) rest
      by (simp add: RRAM_LINE_LEN_def)
    also have "\<dots> = put_bytes (put_bytes (dv_slot v s) done bs) (done + length bs) ?tail"
      using slot2 s(1) bs(2) cf(5) [OF lt] by simp
    also have "\<dots> = put_bytes (dv_slot v s) done (bs @ ?tail)"
      using slot_mem_len [OF less.prems(1)] less.prems(7) pad_len_bounds(1) [of len] lt bs(2)
      by (intro put_bytes_append) auto
    also have "bs @ ?tail = take (len - done) ?rest @ replicate (pad_len len - len) PAD_BYTE"
      using lt take_add [of n "len - (done + n)" ?rest] by (simp add: bs(1))
    finally show ?thesis .
  qed
qed

lemma flash_pass_stores:
  assumes "dv_ok v s" and "RRAM_LINE_LEN dvd bl" and "0 < bl" and "0 < unat (sr_len staged)"
    and "pad_len (unat (sr_len staged)) \<le> unat (slot_len sl)" and "extents_ok (sr_extents staged)"
    and "flash_pass io staged sl bl s = (Inr (), s')"
  shows "dv_slot v s' = put_bytes (dv_slot v s) 0 (flash_content (dv_card v s) staged)"
proof -
  let ?st = "stream_new (sr_extents staged)" and ?len = "unat (sr_len staged)"
  obtain x s1 where f: "fill io ?st HEADER_LEN s = (x, s1)" by (cases "fill io ?st HEADER_LEN s")
  note fs = fill_spec [OF assms(1) st_new(2) f, unfolded fill_post_def st_new(1)]
  obtain hdr st where x: "x = Inr (hdr, st)"
    using assms(7) f by (auto simp: flash_pass_def Let_def split: sum.splits)
  let ?s = "io_progress io Flash 0 (sr_len staged) s1"
  have u: "undisturbed v s ?s" using fs progress_ok by blast
  have "flash_loop io sl bl ?len st 0 ?s = (Inr (), s')"
    using assms(7) f x by (simp add: flash_pass_def Let_def)
  then have "dv_slot v s' = put_bytes (dv_slot v ?s) 0
      (take ?len (st_rest (dv_card v ?s) st) @ replicate (pad_len ?len - ?len) PAD_BYTE)"
    using flash_loop_stores [OF undisturbed_ok [OF u], of st bl 0 ?len] fs x assms(2-6)
    by (simp add: stream_new_def)
  then show ?thesis
    using u fs x assms(6)
    by (simp add: undisturbed_def flash_content_def staged_image_def slice_def stream_new_def)
qed

lemma flash_attempt_stores:
  assumes "dv_ok v s" and "RRAM_LINE_LEN dvd bl" and "0 < bl"
    and "stage_valid (dv_card v s) sl staged" and "extents_ok (sr_extents staged)"
    and "flash_attempt io staged sl bl s = (Inr False, s')"
  shows "dv_slot v s' = flash_content (dv_card v s) staged
    @ drop (pad_len (unat (sr_len staged))) (dv_slot v s)"
proof -
  note fit = stage_valid_fits [OF assms(4)]
  obtain s1 where fp: "flash_pass io staged sl bl s = (Inr (), s1)"
    and rb: "readback io staged sl bl s1 = (Inr True, s')"
    using assms(6) by (auto simp: flash_attempt_def split: sum.splits prod.splits pass_error.splits)
  have "unat (sr_len staged) \<le> unat (slot_len sl)"
    using fit pad_len_bounds(1) [of "unat (sr_len staged)"] by simp
  then have "undisturbed v s1 s'"
    using readback_spec [OF slot_written_ok [OF flash_pass_frame [OF assms(1,2) _ fp]] assms(3) _ rb] fit
    by blast
  then show ?thesis
    using flash_pass_stores [OF assms(1-3) _ _ assms(5) fp] fit
    by (simp add: undisturbed_def put_bytes_def)
qed

lemma flash_attempts_stores:
  assumes "dv_ok v s" and "RRAM_LINE_LEN dvd bl" and "0 < bl"
    and "stage_valid (dv_card v s) sl staged" and "extents_ok (sr_extents staged)"
    and "flash_attempts n io staged sl bl s = (Inr (), s')"
  shows "dv_slot v s' = flash_content (dv_card v s) staged
    @ drop (pad_len (unat (sr_len staged))) (dv_slot v s)"
  using assms
proof (induction n arbitrary: s)
  case (Suc n)
  obtain x s1 where fa: "flash_attempt io staged sl bl s = (Inr x, s1)"
    using Suc.prems(6) by (auto split: sum.splits prod.splits)
  note w = conjunct1 [OF flash_attempt_spec [OF Suc.prems(1-3) _ fa]]
  show ?case
  proof (cases x)
    case True
    have w: "slot_written v (pad_len (unat (sr_len staged))) s s1"
      using w stage_valid_fits [OF Suc.prems(4)] by blast
    then show ?thesis
      using Suc.IH [OF slot_written_ok [OF w]] Suc.prems True fa
      by (auto simp: slot_written_def split: if_splits)
  next
    case False
    then show ?thesis
      using flash_attempt_stores [OF Suc.prems(1-5)] fa Suc.prems(6) by simp
  qed
qed simp

lemma install_pipeline_stores:
  assumes "dv_ok v s" and "RRAM_LINE_LEN dvd bl" and "0 < bl" and "wf_state succ"
    and "extents_ok (sr_extents src)"
    and "install_pipeline io src sl bl pre mm succ s = (OInstalled, s')"
  shows "stage_valid (dv_card v s) sl src
    \<and> dv_slot v s' = flash_content (dv_card v s) src @ drop (pad_len (unat (sr_len src))) (dv_slot v s)"
proof -
  obtain s1 s2 where vf: "verify io src sl bl s = (Inr (), s1)"
    and fv: "flash_attempts (1 + FLASH_RETRIES) io src sl bl s1 = (Inr (), s2)"
    and ws: "io_write_state io succ s2 = (Inr (), s')"
    using assms(6)
    by (auto simp: install_pipeline_def flash_verified_def
        split: sum.splits prod.splits verify_error.splits pass_error.splits)
  note vs = verify_spec [OF assms(1,3) vf]
  have u: "undisturbed v s s1" and sv: "stage_valid (dv_card v s) sl src"
    using vs assms(5) by simp_all
  have sv1: "stage_valid (dv_card v s1) sl src" using u sv by (simp add: undisturbed_def)
  note fit = stage_valid_fits [OF sv1]
  note ok1 = undisturbed_ok [OF u]
  have "dv_ok v s2"
    using flash_attempts_spec [OF ok1 assms(2,3) fit(2) fv] by (blast intro: slot_written_ok)
  then show ?thesis
    using flash_attempts_stores [OF ok1 assms(2,3) sv1 assms(5) fv] write_state [OF _ assms(4) ws] u sv
    by (simp add: undisturbed_def)
qed

end

text \<open>A device on which nothing fails.\<close>

locale faultless_device = honest_device +
  assumes reads_succeed: "dv_ok v s \<Longrightarrow> 0 < n \<Longrightarrow> SD_BLOCK_LEN dvd n \<Longrightarrow>
      \<exists>bs s'. io_read_blocks io b n s = (Inr bs, s')"
    and flash_reads_succeed: "dv_ok v s \<Longrightarrow> \<exists>bs s'. io_read_flash io a n s = (Inr bs, s')"
    and writes_succeed: "dv_ok v s \<Longrightarrow> \<exists>s'. io_write_lines io a data s = (Inr (), s')"
    and state_writes_succeed: "dv_ok v s \<Longrightarrow> \<exists>s'. io_write_state io st s = (Inr (), s')"
begin

lemma fill_loop_no_io:
  "io' = io \<Longrightarrow> dv_ok v s \<Longrightarrow> fst (fill_loop io' st rem acc s) \<noteq> Inl StreamIo"
proof (induction io' st rem acc s rule: fill_loop.induct)
  case (1 io' st rem acc s)
  have rd: "\<exists>bs s1. io_read_blocks io b (k * SD_BLOCK_LEN) s = (Inr bs, s1) \<and> dv_ok v s1" if "0 < k" for b k
    using reads_succeed [OF "1.prems"(2), of "k * SD_BLOCK_LEN" b] that
      read_blocks [OF "1.prems"(2), of "k * SD_BLOCK_LEN" b]
    by (fastforce simp: SD_BLOCK_LEN_def undisturbed_def)
  note unf = fill_loop.simps [of io st rem acc s]
  consider (nil) "rem = 0" | (scratch) "rem \<noteq> 0" "es_pos st < es_len st"
    | (none) st1 where "rem \<noteq> 0" "\<not> es_pos st < es_len st" "next_block st = (None, st1)"
    | (some) start left st1 where "rem \<noteq> 0" "\<not> es_pos st < es_len st"
        "next_block st = (Some (start, left), st1)"
    by (metis not_Some_eq surj_pair)
  then show ?case
  proof cases
    case nil
    then show ?thesis by (simp add: fill_loop.simps)
  next
    case scratch
    then show ?thesis using "1.IH"(1) [OF scratch refl "1.prems"] "1.prems"(1) by (simp add: unf Let_def)
  next
    case none
    then show ?thesis using "1.prems"(1) by (simp add: unf)
  next
    case some
    define whole where "whole = min (rem div SD_BLOCK_LEN) (unat left)"
    note unf = unf [unfolded some(3) Let_def prod.case option.case whole_def [symmetric]]
    show ?thesis
    proof (cases "whole > 0")
      case True
      obtain bs s1 where r: "io_read_blocks io start (whole * SD_BLOCK_LEN) s = (Inr bs, s1)" "dv_ok v s1"
        using rd [OF True] by blast
      show ?thesis
        using "1.IH"(2) [OF some(1,2) some(3) [symmetric] refl refl whole_def True _ refl "1.prems"(1) r(2)]
          r(1) some(1,2) True "1.prems"(1)
        by (simp add: unf)
    next
      case False
      obtain bs s1 where r: "io_read_blocks io start SD_BLOCK_LEN s = (Inr bs, s1)" "dv_ok v s1"
        using rd [of 1 start] by auto
      show ?thesis
        using "1.IH"(3) [OF some(1,2) some(3) [symmetric] refl refl whole_def False _ refl "1.prems"(1) r(2)]
          r(1) some(1,2) False "1.prems"(1)
        by (simp add: unf)
    qed
  qed
qed

lemma fill_total:
  assumes "dv_ok v s" and "st_ok st" and "extents_ok (es_extents st)"
    and "n \<le> length (st_rest (dv_card v s) st)"
  obtains st' s' where "fill io st n s = (Inr (take n (st_rest (dv_card v s) st), st'), s')"
    "undisturbed v s s'" "st_ok st'" "es_extents st' = es_extents st"
    "st_rest (dv_card v s') st' = drop n (st_rest (dv_card v s) st)"
proof -
  obtain x s' where f: "fill io st n s = (x, s')" by (cases "fill io st n s")
  have "x \<noteq> Inl StreamIo" using fill_loop_no_io [OF refl assms(1), of st n "[]"] f by (simp add: fill_def)
  moreover note fs = fill_spec [OF assms(1,2) f, unfolded fill_post_def]
  ultimately show ?thesis
    using assms(3,4) f that by (cases x) (auto simp: undisturbed_def split: stream_error.splits)
qed

lemma verify_loop_total:
  assumes "dv_ok v s" and "st_ok st" and "extents_ok (es_extents st)" and "0 < bl"
    and "len - done \<le> length (st_rest (dv_card v s) st)"
  shows "\<exists>crc' s'. verify_loop io bl len st crc done s = (Inr crc', s')"
  using assms
proof (induction "len - done" arbitrary: st crc "done" s rule: less_induct)
  case less
  show ?case
  proof (cases "len \<le> done")
    case False
    define n where "n = min bl (len - done)"
    have n: "n \<le> length (st_rest (dv_card v s) st)" "0 < n" using less.prems(4,5) False by (auto simp: n_def)
    obtain st1 s1 where f: "fill io st n s = (Inr (take n (st_rest (dv_card v s) st), st1), s1)"
      and u: "undisturbed v s s1" and st1: "st_ok st1" "es_extents st1 = es_extents st"
      "st_rest (dv_card v s1) st1 = drop n (st_rest (dv_card v s) st)"
      using fill_total [OF less.prems(1-3) n(1)] by metis
    let ?s = "io_progress io Verify (of_nat (done + n)) (of_nat len) s1"
    have u2: "undisturbed v s1 ?s" using progress [OF undisturbed_ok [OF u]] .
    then have "dv_card v ?s = dv_card v s1" by (simp add: undisturbed_def)
    then show ?thesis
      using less.hyps [of "done + n" ?s st1] less.prems(3-5) st1 n False undisturbed_ok [OF u2] f
      by (subst verify_loop.simps) (simp add: Let_def n_def [symmetric] del: of_nat_add)
  qed (simp add: verify_loop.simps)
qed

lemma readback_loop_total:
  "dv_ok v s \<Longrightarrow> len \<le> unat (slot_len sl) \<Longrightarrow>
   \<exists>crc' s'. readback_loop io sl bl len crc done s = (Inr crc', s')"
proof (induction "len - done" arbitrary: crc "done" s rule: less_induct)
  case less
  show ?case
  proof (cases "len \<le> done \<or> bl = 0")
    case False
    define n where "n = min bl (len - done)"
    let ?a = "slot_base sl + of_nat done"
    obtain bs s1 where f: "io_read_flash io ?a n s = (Inr bs, s1)"
      using flash_reads_succeed [OF less.prems(1)] by blast
    have "unat ?a = unat (slot_base sl) + done"
      using False less.prems(2) slot_in_space by (intro unat_add_of_nat) simp
    then have "undisturbed v s s1"
      using read_flash [OF less.prems(1) _ _ f] False less.prems(2) by (auto simp: word_le_nat_alt n_def)
    then have "dv_ok v (io_progress io Readback (of_nat (done + n)) (of_nat len) s1)"
      by (intro undisturbed_ok [OF progress]) (rule undisturbed_ok)
    moreover have "len - (done + n) < len - done" using False by (auto simp: n_def)
    ultimately show ?thesis
      using less.hyps [of "done + n" _ "crc_update crc bs"] less.prems(2) False f
      by (subst readback_loop.simps) (simp add: Let_def n_def [symmetric] del: of_nat_add)
  qed (auto simp: readback_loop.simps)
qed

lemma flash_loop_total:
  assumes "dv_ok v s" and "st_ok st" and "extents_ok (es_extents st)" and "RRAM_LINE_LEN dvd bl"
    and "done < len \<longrightarrow> RRAM_LINE_LEN dvd done" and "pad_len len \<le> unat (slot_len sl)"
    and "len - done \<le> length (st_rest (dv_card v s) st)"
  shows "\<exists>s'. flash_loop io sl bl len st done s = (Inr (), s')"
  using assms
proof (induction "len - done" arbitrary: st "done" s rule: less_induct)
  case less
  show ?case
  proof (cases "len \<le> done \<or> bl = 0")
    case False
    define n where "n = min bl (len - done)"
    have ca: "chunk_at bl len done n" using False less.prems(4,5) by (auto simp: chunk_at_def n_def)
    note cf = chunk_fits [OF ca]
    have n: "n \<le> length (st_rest (dv_card v s) st)" using less.prems(7) by (simp add: n_def)
    let ?bs = "take n (st_rest (dv_card v s) st)"
    obtain st1 s1 where f: "fill io st n s = (Inr (?bs, st1), s1)"
      and u: "undisturbed v s s1" and st1: "st_ok st1" "es_extents st1 = es_extents st"
      "st_rest (dv_card v s1) st1 = drop n (st_rest (dv_card v s) st)"
      using fill_total [OF less.prems(1-3) n] by metis
    obtain s2 where wl: "io_write_lines io (slot_base sl + of_nat done)
        (?bs @ replicate (pad_len n - n) PAD_BYTE) s1 = (Inr (), s2)"
      using writes_succeed [OF undisturbed_ok [OF u]] by blast
    have bs: "length ?bs = n" using n by simp
    have s2: "dv_ok v s2" "dv_card v s2 = dv_card v s1"
      using write_chunk(1) [OF undisturbed_ok [OF u] ca bs less.prems(6) wl] by simp_all
    let ?s = "io_progress io Flash (of_nat (done + n)) (of_nat len) s2"
    have s3: "dv_ok v ?s" "dv_card v ?s = dv_card v s1"
      using progress [OF s2(1), of Flash "of_nat (done + n)" "of_nat len"] s2 by (simp_all add: undisturbed_def)
    have "\<exists>s'. flash_loop io sl bl len st1 (done + n) ?s = (Inr (), s')"
      using less.hyps [of "done + n" ?s st1] cf(1,5,6) False less.prems(3,4,6,7) st1 s3
      by (simp add: RRAM_LINE_LEN_def)
    then show ?thesis
      using False f wl cf(3)
      by (subst flash_loop.simps) (simp add: Let_def n_def [symmetric] pad_len_def [symmetric] del: of_nat_add)
  qed (auto simp: flash_loop.simps)
qed

lemma verify_total:
  assumes "dv_ok v s" and "0 < bl" and "stage_valid (dv_card v s) sl staged" and "extents_ok (sr_extents staged)"
  shows "\<exists>s'. verify io staged sl bl s = (Inr (), s')"
proof -
  let ?st = "stream_new (sr_extents staged)" and ?chain = "chain_bytes (dv_card v s) (sr_extents staged)"
    and ?len = "unat (sr_len staged)"
  have sv: "HEADER_LEN + ?len \<le> length ?chain" "header_decode (take HEADER_LEN ?chain) = Some (sr_header staged)"
    "\<not> (sr_len staged = 0 \<or> sr_len staged > MAX_IMAGE_LEN \<or> padded_len (sr_len staged) > slot_len sl)"
    using assms(3) by (auto simp: stage_valid_def Let_def)
  obtain st1 s1 where f: "fill io ?st HEADER_LEN s = (Inr (take HEADER_LEN ?chain, st1), s1)"
    and u: "undisturbed v s s1" and st1: "st_ok st1" "es_extents st1 = sr_extents staged"
    "st_rest (dv_card v s1) st1 = drop HEADER_LEN ?chain"
    using fill_total [OF assms(1) st_new(2), of "sr_extents staged" HEADER_LEN] sv(1) assms(4)
    by (auto simp: st_new(1)) (auto simp: stream_new_def)
  let ?s = "io_progress io Verify 0 (sr_len staged) s1"
  have s2: "dv_ok v ?s" "dv_card v ?s = dv_card v s1"
    using progress [OF undisturbed_ok [OF u], of Verify 0 "sr_len staged"] by (simp_all add: undisturbed_def)
  have "\<exists>crc s2. verify_loop io bl ?len st1 crc_new 0 ?s = (Inr crc, s2)"
    using s2 st1 sv(1) assms(2,4) by (intro verify_loop_total) simp_all
  then obtain crc s2 where vl: "verify_loop io bl ?len st1 crc_new 0 ?s = (Inr crc, s2)" by blast
  obtain r s' where r: "verify io staged sl bl s = (r, s')" by (cases "verify io staged sl bl s")
  have "r \<noteq> Inl Mismatch" using verify_spec [OF assms(1,2) r] assms(3,4) by simp
  moreover have "r \<noteq> Inl VerifyIo" using r f vl sv by (auto simp: verify_def Let_def split: if_splits)
  ultimately show ?thesis using r by (cases r) (auto intro: verify_error.exhaust)
qed

lemma flash_pass_total:
  assumes "dv_ok v s" and "RRAM_LINE_LEN dvd bl"
    and "stage_valid (dv_card v s) sl staged" and "extents_ok (sr_extents staged)"
  shows "\<exists>s'. flash_pass io staged sl bl s = (Inr (), s')"
proof -
  let ?st = "stream_new (sr_extents staged)" and ?chain = "chain_bytes (dv_card v s) (sr_extents staged)"
    and ?len = "unat (sr_len staged)"
  have len: "HEADER_LEN + ?len \<le> length ?chain" using assms(3) by (simp add: stage_valid_def Let_def)
  obtain st1 s1 where f: "fill io ?st HEADER_LEN s = (Inr (take HEADER_LEN ?chain, st1), s1)"
    and u: "undisturbed v s s1" and st1: "st_ok st1" "es_extents st1 = sr_extents staged"
    "st_rest (dv_card v s1) st1 = drop HEADER_LEN ?chain"
    using fill_total [OF assms(1) st_new(2), of "sr_extents staged" HEADER_LEN] len assms(4)
    by (auto simp: st_new(1)) (auto simp: stream_new_def)
  let ?s = "io_progress io Flash 0 (sr_len staged) s1"
  have s2: "dv_ok v ?s" "dv_card v ?s = dv_card v s1"
    using progress [OF undisturbed_ok [OF u], of Flash 0 "sr_len staged"] by (simp_all add: undisturbed_def)
  have "\<exists>s'. flash_loop io sl bl ?len st1 0 ?s = (Inr (), s')"
    using s2 st1 len assms(2,4) stage_valid_fits(2) [OF assms(3)] by (intro flash_loop_total) simp_all
  then show ?thesis using f by (simp add: flash_pass_def Let_def)
qed

lemma flash_attempt_total:
  assumes "dv_ok v s" and "RRAM_LINE_LEN dvd bl" and "0 < bl"
    and "stage_valid (dv_card v s) sl staged" and "extents_ok (sr_extents staged)"
  shows "\<exists>s'. flash_attempt io staged sl bl s = (Inr False, s')"
proof -
  note fit = stage_valid_fits [OF assms(4)]
  let ?len = "unat (sr_len staged)"
  obtain s1 where fp: "flash_pass io staged sl bl s = (Inr (), s1)"
    using flash_pass_total [OF assms(1,2,4,5)] by blast
  have ok1: "dv_ok v s1" using flash_pass_frame [OF assms(1,2) fit(2) fp] by (rule slot_written_ok)
  have len: "?len \<le> unat (slot_len sl)" using fit(2) pad_len_bounds(1) [of ?len] by simp
  have slot: "take ?len (dv_slot v s1) = staged_image (dv_card v s) staged"
    using flash_pass_stores [OF assms(1-3) fit(1,2) assms(5) fp] fit(3)
    by (simp add: put_bytes_def flash_content_def)
  have "dv_ok v (io_progress io Readback 0 (sr_len staged) s1)"
    using progress [OF ok1] by (rule undisturbed_ok)
  then obtain crc s2 where "readback_loop io sl bl ?len crc_new 0 (io_progress io Readback 0 (sr_len staged) s1)
      = (Inr crc, s2)"
    using readback_loop_total [OF _ len] by blast
  then have rb: "readback io staged sl bl s1 = (Inr (finalize crc = sr_crc32 staged), s2)"
    by (simp add: readback_def Let_def)
  have "finalize crc = sr_crc32 staged"
    using readback_spec [OF ok1 assms(3) len rb] slot fit(5) by simp
  then show ?thesis using fp rb by (simp add: flash_attempt_def)
qed

lemma install_pipeline_total:
  assumes "dv_ok v s" and "RRAM_LINE_LEN dvd bl" and "0 < bl" and "wf_state succ"
    and "stage_valid (dv_card v s) sl src" and "extents_ok (sr_extents src)"
  shows "\<exists>s'. install_pipeline io src sl bl pre mm succ s = (OInstalled, s')"
proof -
  obtain s1 where vf: "verify io src sl bl s = (Inr (), s1)"
    using verify_total [OF assms(1,3,5,6)] by blast
  have u: "undisturbed v s s1" using verify_spec [OF assms(1,3) vf] by blast
  then have sv1: "stage_valid (dv_card v s1) sl src" using assms(5) by (simp add: undisturbed_def)
  obtain s2 where fa: "flash_attempt io src sl bl s1 = (Inr False, s2)"
    using flash_attempt_total [OF undisturbed_ok [OF u] assms(2,3) sv1 assms(6)] by blast
  have "dv_ok v s2"
    using flash_attempt_spec [OF undisturbed_ok [OF u] assms(2,3) stage_valid_fits(2) [OF sv1] fa]
    by (blast intro: slot_written_ok)
  then show ?thesis
    using vf fa state_writes_succeed [of s2 succ]
    by (auto simp: install_pipeline_def flash_verified_def)
qed

end

subsection \<open>Properties\<close>

text \<open>What a decision that streams an image installs, and the state that records it.\<close>

fun target :: "boot_state \<Rightarrow> (staged_ref \<times> boot_state) option" where
  "target (Armed g u r) = Some (u, Trial g (sr_header u) r)"
| "target (Trial g h (Some r)) =
     Some (r, Idle (Some (sr_header r)) (Some \<lparr>lo_kind = OutcomeRolledBack, lo_generation = g\<rparr>))"
| "target (Trial g h None) = None"
| "target (Idle _ _) = None"

lemma whole_blocks: "SD_BLOCK_LEN dvd n - n mod SD_BLOCK_LEN" "RRAM_LINE_LEN dvd n - n mod SD_BLOCK_LEN"
proof -
  show "SD_BLOCK_LEN dvd n - n mod SD_BLOCK_LEN" by (simp add: dvd_minus_mod)
  then show "RRAM_LINE_LEN dvd n - n mod SD_BLOCK_LEN"
    by (rule dvd_trans [rotated]) (simp add: fmt_consts)
qed

lemma run_target:
  assumes "target st = Some (src, succ)" and "wf_state st" and "buf_len - buf_len mod SD_BLOCK_LEN \<noteq> 0"
  shows "\<exists>mm pre. wf_state mm \<and> wf_state succ \<and> wf_staged src \<and> (pre \<longleftrightarrow> (\<exists>g u r. st = Armed g u r))
    \<and> run st sl io buf_len s =
        install_pipeline io src sl (buf_len - buf_len mod SD_BLOCK_LEN) pre mm succ s"
proof (cases st rule: target.cases)
  case (1 g u r)
  have "wf_state (Idle (map_option sr_header r) (Some \<lparr>lo_kind = OutcomeStageRejected, lo_generation = g\<rparr>))"
    using assms(2) 1 by (cases r) (auto simp: wf_staged_def)
  then show ?thesis
    using assms 1 by (intro exI conjI) (auto simp: run_def Let_def wf_staged_def)
next
  case (2 g h r)
  have "wf_state (Idle (Some h) (Some \<lparr>lo_kind = OutcomeInstalled, lo_generation = g\<rparr>))"
    using assms(2) 2 by simp
  then show ?thesis
    using assms 2 by (intro exI conjI) (auto simp: run_def Let_def wf_staged_def)
qed (use assms(1) in auto)

lemma run_no_target:
  assumes "install_device io sl v" and "dv_ok v s" and "wf_state st" and "target st = None"
    and "run st sl io buf_len s = (out, s')"
  shows "(out = OJump \<or> out = OFlashError) \<and> dv_ok v s' \<and> dv_card v s' = dv_card v s \<and> dv_slot v s' = dv_slot v s"
proof (cases st rule: target.cases)
  case (3 g h)
  let ?i = "Idle (Some h) (Some \<lparr>lo_kind = OutcomeInstalled, lo_generation = g\<rparr>)"
  obtain x s1 where w: "io_write_state io ?i s = (x, s1)" by (cases "io_write_state io ?i s")
  show ?thesis
    using assms(2,3,5) 3 install_device.write_state [OF assms(1,2) _ w] w
    by (auto simp: run_def Let_def split: if_splits)
qed (use assms(2,4,5) in \<open>auto simp: run_def Let_def split: if_splits\<close>)

context install_device
begin

lemma run_spec:
  assumes "dv_ok v s" and "wf_state st" and "run st sl io buf_len s = (out, s')"
  shows "dv_ok v s' \<and> dv_card v s' = dv_card v s
    \<and> (out \<in> {OJump, OStageRejected, OSdError True} \<longrightarrow> dv_slot v s' = dv_slot v s)
    \<and> (\<forall>pre. out = OSdError pre \<longrightarrow> dv_page v s' = dv_page v s)
    \<and> (out = OSdError True \<longrightarrow> (\<exists>g u r. st = Armed g u r))
    \<and> (out = OInstalled \<longrightarrow> (\<exists>src succ. target st = Some (src, succ)
         \<and> 0 < unat (sr_len src) \<and> pad_len (unat (sr_len src)) \<le> length (dv_slot v s')
         \<and> crc32 (take (unat (sr_len src)) (dv_slot v s')) = sr_crc32 src
         \<and> drop (pad_len (unat (sr_len src))) (dv_slot v s') = drop (pad_len (unat (sr_len src))) (dv_slot v s)
         \<and> state_decode (dv_page v s') = succ))
    \<and> out \<noteq> OArmAbandoned"
proof (cases "target st = None \<or> buf_len - buf_len mod SD_BLOCK_LEN = 0")
  case True
  then show ?thesis
    using run_no_target [OF install_device_axioms assms(1,2) _ assms(3)] assms(1,3) by (auto simp: run_def Let_def)
next
  case False
  then obtain src succ where t: "target st = Some (src, succ)" and w: "buf_len - buf_len mod SD_BLOCK_LEN \<noteq> 0"
    by auto
  obtain mm pre where wf: "wf_state mm" "wf_state succ" and pre: "pre \<longleftrightarrow> (\<exists>g u r. st = Armed g u r)"
    and r: "install_pipeline io src sl (buf_len - buf_len mod SD_BLOCK_LEN) pre mm succ s = (out, s')"
    using run_target [OF t assms(2) w, of sl io s] assms(3) by auto
  have "pipeline_post v src succ mm pre s out s'"
    using w by (intro install_pipeline_spec [OF assms(1) whole_blocks(2) _ wf r]) simp
  then show ?thesis
    using t pre by (cases out) (auto simp: pipeline_post_def Let_def)
qed

text \<open>What an outcome says about the stage on the card.\<close>

lemma install_pipeline_stage:
  assumes "dv_ok v s" and "0 < bl" and "extents_ok (sr_extents src)"
    and "install_pipeline io src sl bl pre mm succ s = (out, s')"
  shows "out \<noteq> OJump \<and> (out = OStageRejected \<longrightarrow> \<not> stage_valid (dv_card v s) sl src)
    \<and> (\<forall>p. out = OSdError p \<longrightarrow> dv_slot v s' = dv_slot v s \<or> stage_valid (dv_card v s) sl src)"
proof -
  obtain x s1 where vf: "verify io src sl bl s = (x, s1)" by (cases "verify io src sl bl s")
  show ?thesis
    using verify_spec [OF assms(1,2) vf] assms(3,4) vf
    by (auto simp: install_pipeline_def undisturbed_def
        split: sum.splits prod.splits verify_error.splits pass_error.splits)
qed

lemma run_stage:
  assumes "dv_ok v s" and "wf_state st" and "run st sl io buf_len s = (out, s')"
    and "target st = Some (src, succ)" and "extents_ok (sr_extents src)"
  shows "out \<noteq> OJump \<and> (out = OStageRejected \<longrightarrow> \<not> stage_valid (dv_card v s) sl src)
    \<and> (\<forall>p. out = OSdError p \<longrightarrow> dv_slot v s' = dv_slot v s \<or> stage_valid (dv_card v s) sl src)"
proof (cases "buf_len - buf_len mod SD_BLOCK_LEN = 0")
  case True
  then show ?thesis using assms(3) by (auto simp: run_def Let_def)
next
  case False
  then obtain mm pre where
    "install_pipeline io src sl (buf_len - buf_len mod SD_BLOCK_LEN) pre mm succ s = (out, s')"
    using run_target [OF assms(4,2), of buf_len sl io s] assms(3) by auto
  then show ?thesis using install_pipeline_stage [OF assms(1) _ assms(5)] False by blast
qed

end

text \<open>
  C2: the engine never loses an image and never records an install it did not check. Over any
  device that keeps the documented contract, faulty or not, and any state the page can hold: when
  the outcome is a jump, a rejected stage or an abandonable card error, not one byte of the slot has
  changed; a card error leaves the state page as it was and is abandonable only for an armed state;
  and when the outcome is \<open>Installed\<close>, the slot's bytes carry the recorded CRC, nothing past the
  padded image changed, and the page holds the follow-up state.
\<close>

theorem engine_run_safe:
  assumes "install_device io sl v" and "dv_ok v s" and "wf_state st" and "run st sl io buf_len s = (out, s')"
  shows "dv_ok v s' \<and> dv_card v s' = dv_card v s
    \<and> (out \<in> {OJump, OStageRejected, OSdError True} \<longrightarrow> dv_slot v s' = dv_slot v s)
    \<and> (\<forall>pre. out = OSdError pre \<longrightarrow> dv_page v s' = dv_page v s)
    \<and> (out = OSdError True \<longrightarrow> (\<exists>g u r. st = Armed g u r))
    \<and> (out = OInstalled \<longrightarrow> (\<exists>src succ. target st = Some (src, succ)
         \<and> 0 < unat (sr_len src) \<and> pad_len (unat (sr_len src)) \<le> length (dv_slot v s')
         \<and> crc32 (take (unat (sr_len src)) (dv_slot v s')) = sr_crc32 src
         \<and> drop (pad_len (unat (sr_len src))) (dv_slot v s') = drop (pad_len (unat (sr_len src))) (dv_slot v s)
         \<and> state_decode (dv_page v s') = succ))
    \<and> out \<noteq> OArmAbandoned"
  by (rule install_device.run_spec [OF assms])

text \<open>
  C22: on a device whose successful writes store their data, an install is the staged image exactly:
  after \<open>Installed\<close> the stage on the card was valid (header, length, CRC, fit) and the slot holds the
  image bytes of the extent chain, then \<open>0xFF\<close> up to the line boundary, then what it held before.
\<close>

theorem engine_installs_the_image:
  assumes "honest_device io sl v" and "dv_ok v s" and "wf_state st" and "target st = Some (src, succ)"
    and "extents_ok (sr_extents src)" and "run st sl io buf_len s = (OInstalled, s')"
  shows "stage_valid (dv_card v s) sl src
    \<and> dv_slot v s' = staged_image (dv_card v s) src
        @ replicate (pad_len (unat (sr_len src)) - unat (sr_len src)) PAD_BYTE
        @ drop (pad_len (unat (sr_len src))) (dv_slot v s)"
proof -
  have w: "buf_len - buf_len mod SD_BLOCK_LEN \<noteq> 0"
    using assms(6) by (auto simp: run_def Let_def split: if_splits)
  obtain mm pre where wf: "wf_state succ"
    and r: "install_pipeline io src sl (buf_len - buf_len mod SD_BLOCK_LEN) pre mm succ s = (OInstalled, s')"
    using run_target [OF assms(4,3) w, of sl io s] assms(6) by auto
  show ?thesis
    using honest_device.install_pipeline_stores [OF assms(1,2) whole_blocks(2) _ wf assms(5) r] w
    by (simp add: flash_content_def)
qed

context faultless_device
begin

lemma run_total:
  assumes "dv_ok v s" and "wf_state st" and "target st = Some (src, succ)"
    and "extents_ok (sr_extents src)" and "stage_valid (dv_card v s) sl src" and "SD_BLOCK_LEN \<le> buf_len"
  shows "\<exists>s'. run st sl io buf_len s = (OInstalled, s') \<and> state_decode (dv_page v s') = succ"
proof -
  have w: "buf_len - buf_len mod SD_BLOCK_LEN \<noteq> 0"
    using assms(6) mod_less_divisor [of SD_BLOCK_LEN buf_len] by (simp add: SD_BLOCK_LEN_def)
  obtain mm pre where wf: "wf_state mm" "wf_state succ"
    and r: "run st sl io buf_len s =
      install_pipeline io src sl (buf_len - buf_len mod SD_BLOCK_LEN) pre mm succ s"
    using run_target [OF assms(3,2) w, of sl io s] by auto
  obtain s' where i: "install_pipeline io src sl (buf_len - buf_len mod SD_BLOCK_LEN) pre mm succ s = (OInstalled, s')"
    using install_pipeline_total [OF assms(1) whole_blocks(2) _ wf(2) assms(5,4)] w by blast
  have "pipeline_post v src succ mm pre s OInstalled s'"
    using w by (intro install_pipeline_spec [OF assms(1) whole_blocks(2) _ wf i]) simp
  then show ?thesis using r i by (simp add: pipeline_post_def Let_def)
qed

end

text \<open>
  C23: the engine makes progress: on a device where no operation fails, a staging buffer of at least
  one block and a valid stage are enough for \<open>run\<close> to return \<open>Installed\<close>, for an armed update and
  for a rollback alike, with the follow-up state on the page.
\<close>

theorem engine_installs_when_healthy:
  assumes "faultless_device io sl v" and "dv_ok v s" and "wf_state st" and "target st = Some (src, succ)"
    and "extents_ok (sr_extents src)" and "stage_valid (dv_card v s) sl src" and "SD_BLOCK_LEN \<le> buf_len"
  shows "\<exists>s'. run st sl io buf_len s = (OInstalled, s') \<and> state_decode (dv_page v s') = succ"
  by (rule faultless_device.run_total [OF assms])

end
