(* ===== verification/Dfu_Boot.thy ===== *)
theory Dfu_Boot
  imports Dfu_Engine
begin

text \<open>
  The bootloader around the engine: \<open>BootIo\<close> of \<open>firmware/obc-boot/src/install.rs\<close>, and the boot
  sequence of \<open>main.rs\<close> with its card bring-up, backoff and abandon loop.

  The RRAM controller, the card transport, the LED, the COM wave and the watchdog are hardware or
  third-party drivers. They are a record of operations on a hardware state, and the locale
  \<open>boot_hardware\<close> names what the bootloader relies on: only an RRAM write changes the memory, a
  write touches only the span it names and stores its data when it reports success, and a
  successful read returns what is there. \<open>BootIo\<close> over such hardware is an honest install device.
  The linker symbols are the constants of \<open>layout.rs\<close>.

  The retry loop may run forever, so it takes a number of laps; \<open>None\<close> is "still retrying".
\<close>

subsection \<open>The hardware and BootIo\<close>

record 'h boot_hw =
  hw_mem :: "'h \<Rightarrow> nat \<Rightarrow> u8"
  hw_cyccnt :: "'h \<Rightarrow> bool"
  hw_sd_read :: "u32 \<Rightarrow> nat \<Rightarrow> 'h \<Rightarrow> (unit + bytes) \<times> 'h"
  hw_try_init :: "'h \<Rightarrow> bool \<times> 'h"
  hw_shutdown :: "'h \<Rightarrow> 'h"
  hw_rram_write :: "u32 \<Rightarrow> bytes \<Rightarrow> 'h \<Rightarrow> (unit + unit) \<times> 'h"
  hw_rram_read :: "u32 \<Rightarrow> nat \<Rightarrow> 'h \<Rightarrow> (unit + bytes) \<times> 'h"
  hw_dog_pet :: "'h \<Rightarrow> 'h"
  hw_dog_start :: "'h \<Rightarrow> 'h"
  hw_com_poll :: "'h \<Rightarrow> 'h"
  hw_led_toggle :: "'h \<Rightarrow> 'h"
  hw_led_off :: "'h \<Rightarrow> 'h"
  hw_blink_code :: "nat \<Rightarrow> 'h \<Rightarrow> 'h"
  hw_delay_ms :: "u32 \<Rightarrow> 'h \<Rightarrow> 'h"

definition VERIFY_TOGGLE_CHUNKS :: u32 where "VERIFY_TOGGLE_CHUNKS = 64"

definition FLASH_TOGGLE_CHUNKS :: u32 where "FLASH_TOGGLE_CHUNKS = 8"

text \<open>The mutable part of a \<open>BootIo\<close>: the borrowed hardware and the chunk counter.\<close>

record 'h boot_io_st =
  bio_hw :: 'h
  bio_chunks :: u32

definition boot_io_new :: "'h \<Rightarrow> 'h boot_io_st" where
  "boot_io_new h = \<lparr>bio_hw = h, bio_chunks = 0\<rparr>"

definition lift_hw :: "('h \<Rightarrow> (unit + 'a) \<times> 'h) \<Rightarrow> 'h boot_io_st \<Rightarrow> (io_error + 'a) \<times> 'h boot_io_st" where
  "lift_hw f s = (case f (bio_hw s) of (r, h) \<Rightarrow> (map_errE (\<lambda>_. IoError) r, s\<lparr>bio_hw := h\<rparr>))"

definition bio_read_blocks :: "'h boot_hw \<Rightarrow> bool \<Rightarrow> u32 \<Rightarrow> nat \<Rightarrow> 'h boot_io_st
    \<Rightarrow> (io_error + bytes) \<times> 'h boot_io_st" where
  "bio_read_blocks hw sd start n s = (if \<not> sd then (Inl IoError, s) else lift_hw (hw_sd_read hw start n) s)"

definition bio_write_lines :: "'h boot_hw \<Rightarrow> u32 \<Rightarrow> bytes \<Rightarrow> 'h boot_io_st
    \<Rightarrow> (io_error + unit) \<times> 'h boot_io_st" where
  "bio_write_lines hw addr data = lift_hw (hw_rram_write hw addr data)"

definition bio_read_flash :: "'h boot_hw \<Rightarrow> u32 \<Rightarrow> nat \<Rightarrow> 'h boot_io_st
    \<Rightarrow> (io_error + bytes) \<times> 'h boot_io_st" where
  "bio_read_flash hw addr n = lift_hw (hw_rram_read hw addr n)"

definition bio_write_state :: "'h boot_hw \<Rightarrow> u32 \<Rightarrow> boot_state \<Rightarrow> 'h boot_io_st
    \<Rightarrow> (io_error + unit) \<times> 'h boot_io_st" where
  "bio_write_state hw state_addr st =
     (let page = state_encode st in lift_hw (hw_rram_write hw state_addr (as_bytes page)))"

definition bio_progress :: "'h boot_hw \<Rightarrow> phase \<Rightarrow> u32 \<Rightarrow> u32 \<Rightarrow> 'h boot_io_st \<Rightarrow> 'h boot_io_st" where
  "bio_progress hw ph d t s =
     (let h = hw_com_poll hw (hw_dog_pet hw (bio_hw s));
          chunks = bio_chunks s + 1;
          period = (case ph of Verify \<Rightarrow> VERIFY_TOGGLE_CHUNKS | _ \<Rightarrow> FLASH_TOGGLE_CHUNKS);
          h = (if unat chunks mod unat period = 0 then hw_led_toggle hw h else h)
      in \<lparr>bio_hw = h, bio_chunks = chunks\<rparr>)"

definition boot_io :: "'h boot_hw \<Rightarrow> bool \<Rightarrow> u32 \<Rightarrow> 'h boot_io_st install_io" where
  "boot_io hw sd state_addr =
     \<lparr>io_read_blocks = bio_read_blocks hw sd,
      io_write_lines = bio_write_lines hw,
      io_read_flash = bio_read_flash hw,
      io_write_state = bio_write_state hw state_addr,
      io_progress = bio_progress hw\<rparr>"

subsection \<open>The boot sequence\<close>

definition INSTALL_BUF_LEN :: nat where [fmt_consts]: "INSTALL_BUF_LEN = 4096"

definition BACKOFF_MIN_MS :: u32 where "BACKOFF_MIN_MS = 250"

definition BACKOFF_MAX_MS :: u32 where "BACKOFF_MAX_MS = 8000"

definition ARM_ABANDON_ROUNDS :: nat where "ARM_ABANDON_ROUNDS = 10"

definition SEMMC_RAM_CARVE :: nat where "SEMMC_RAM_CARVE = 20480"

text \<open>A span of the memory map, read in place.\<close>

definition mem_span :: "'h boot_hw \<Rightarrow> 'h \<Rightarrow> nat \<Rightarrow> nat \<Rightarrow> bytes" where
  "mem_span hw h a n = map (hw_mem hw h) [a..<a + n]"

definition boot_state_page :: "'h boot_hw \<Rightarrow> 'h \<Rightarrow> bytes" where
  "boot_state_page hw h = mem_span hw h (unat BOOT_STATE_BASE) PAGE_LEN"

definition staged_blob :: "'h boot_hw \<Rightarrow> 'h \<Rightarrow> (bytes \<times> sp_image_geometry) option" where
  "staged_blob hw h =
     (let carve = mem_span hw h (unat SEMMC_STAGE_BASE) STAGE_LEN in
      Option.bind (validate_stage carve) (\<lambda>blob.
      Option.bind (sp_geometry blob SEMMC_RAM_CARVE) (\<lambda>geom. Some (blob, geom))))"

definition app_slot :: slot where
  "app_slot = \<lparr>slot_base = APP_SLOT_BASE, slot_len = SEMMC_STAGE_BASE - APP_SLOT_BASE\<rparr>"

text \<open>A failed lap: pet the dog, blink three, wait, and double the backoff.\<close>

definition back_off :: "'h boot_hw \<Rightarrow> u32 \<Rightarrow> 'h \<Rightarrow> 'h" where
  "back_off hw backoff h = hw_delay_ms hw backoff (hw_blink_code hw 3 (hw_dog_pet hw h))"

definition next_backoff :: "u32 \<Rightarrow> u32" where
  "next_backoff backoff = min (backoff * 2) BACKOFF_MAX_MS"

definition abandon :: "'h boot_hw \<Rightarrow> boot_state \<Rightarrow> 'h \<Rightarrow> outcome \<times> 'h" where
  "abandon hw st h =
     (case abandon_arm st (boot_io hw False BOOT_STATE_BASE) (boot_io_new h) of
        (out, s) \<Rightarrow> (out, bio_hw s))"

definition run_once :: "'h boot_hw \<Rightarrow> boot_state \<Rightarrow> bool \<Rightarrow> 'h \<Rightarrow> outcome \<times> 'h" where
  "run_once hw st sd h =
     (case run st app_slot (boot_io hw sd BOOT_STATE_BASE) INSTALL_BUF_LEN (boot_io_new h) of
        (out, s) \<Rightarrow> (out, bio_hw s))"

fun boot_loop :: "nat \<Rightarrow> 'h boot_hw \<Rightarrow> boot_state \<Rightarrow> bool \<Rightarrow> bool \<Rightarrow> u32 \<Rightarrow> nat \<Rightarrow> 'h
    \<Rightarrow> (outcome \<times> 'h) option" where
  "boot_loop 0 hw st abandonable sd backoff rounds h = None"
| "boot_loop (Suc laps) hw st abandonable sd backoff rounds h =
     (case (if sd then hw_try_init hw h else (True, h)) of (ready, h) \<Rightarrow>
      if \<not> ready then
        (let h = back_off hw backoff h; backoff = next_backoff backoff in
         if abandonable then
           (let rounds = rounds + 1 in
            if rounds \<ge> ARM_ABANDON_ROUNDS then Some (abandon hw st h)
            else boot_loop laps hw st abandonable sd backoff rounds h)
         else boot_loop laps hw st abandonable sd backoff rounds h)
      else
        (case run_once hw st sd h of
           (OSdError pre_erase, h) \<Rightarrow>
             (let h = back_off hw backoff h; backoff = next_backoff backoff in
              if abandonable \<and> pre_erase then
                (let rounds = rounds + 1 in
                 if rounds \<ge> ARM_ABANDON_ROUNDS then Some (abandon hw st h)
                 else boot_loop laps hw st abandonable sd backoff rounds h)
              else boot_loop laps hw st abandonable sd backoff rounds h)
         | (out, h) \<Rightarrow> Some (out, h)))"

text \<open>How a boot ends: the jump to the application, or the LED SOS that waits for a power cycle.\<close>

datatype boot_end = JumpToApp | SosForever

fun finish :: "'h boot_hw \<Rightarrow> outcome \<Rightarrow> bool \<Rightarrow> 'h \<Rightarrow> boot_end \<times> 'h" where
  "finish hw OJump install_decision h = (JumpToApp, hw_led_off hw h)"
| "finish hw OStageRejected install_decision h = (JumpToApp, hw_blink_code hw 2 (hw_led_off hw h))"
| "finish hw OArmAbandoned install_decision h = (JumpToApp, hw_blink_code hw 2 (hw_led_off hw h))"
| "finish hw OInstalled install_decision h =
     (JumpToApp, if install_decision then hw_dog_start hw (hw_led_off hw h) else hw_led_off hw h)"
| "finish hw OFlashError install_decision h = (SosForever, hw_led_off hw h)"
| "finish hw (OSdError _) install_decision h = (SosForever, hw_led_off hw h)"

definition needs_card :: "boot_decision \<Rightarrow> bool" where
  "needs_card d = (case d of Install _ _ _ \<Rightarrow> True | Rollback _ _ _ \<Rightarrow> True | _ \<Rightarrow> False)"

definition is_install :: "boot_decision \<Rightarrow> bool" where
  "is_install d = (case d of Install _ _ _ \<Rightarrow> True | _ \<Rightarrow> False)"

definition boot :: "nat \<Rightarrow> 'h boot_hw \<Rightarrow> 'h \<Rightarrow> (boot_end \<times> 'h) option" where
  "boot laps hw h =
     (let st = state_decode (boot_state_page hw h); decision = decide st in
      if decision = Jump then Some (JumpToApp, h)
      else
        let abandonable = is_install decision in
        if needs_card decision \<and> (staged_blob hw h = None \<or> \<not> hw_cyccnt hw h) then
          if abandonable then
            (case abandon hw st h of (out, h) \<Rightarrow> Some (finish hw out abandonable h))
          else Some (SosForever, h)
        else
          (case boot_loop laps hw st abandonable (needs_card decision) BACKOFF_MIN_MS 0 h of
             None \<Rightarrow> None
           | Some (out, h) \<Rightarrow>
               let h = (if needs_card decision then hw_shutdown hw h else h)
               in Some (finish hw out abandonable h)))"

subsection \<open>What the bootloader relies on\<close>

definition same_hw :: "'h boot_hw \<Rightarrow> ('h \<Rightarrow> bool) \<Rightarrow> ('h \<Rightarrow> nat \<Rightarrow> bytes) \<Rightarrow> 'h \<Rightarrow> 'h \<Rightarrow> bool" where
  "same_hw hw good blocks h h' \<longleftrightarrow> good h' \<and> hw_mem hw h' = hw_mem hw h \<and> blocks h' = blocks h"

text \<open>The bootloader's view of its device: the app slot and the state page are spans of the memory.\<close>

definition boot_view :: "'h boot_hw \<Rightarrow> ('h \<Rightarrow> bool) \<Rightarrow> ('h \<Rightarrow> nat \<Rightarrow> bytes) \<Rightarrow> 'h boot_io_st device_view" where
  "boot_view hw good blocks =
     \<lparr>dv_ok = \<lambda>s. good (bio_hw s), dv_card = \<lambda>s. blocks (bio_hw s),
      dv_slot = \<lambda>s. mem_span hw (bio_hw s) (unat APP_SLOT_BASE) (unat (slot_len app_slot)),
      dv_page = \<lambda>s. boot_state_page hw (bio_hw s)\<rparr>"

lemma length_mem_span [simp]: "length (mem_span hw h a n) = n"
  by (simp add: mem_span_def)

lemma same_hw_undisturbed:
  "same_hw hw good blocks (bio_hw s) (bio_hw s') \<Longrightarrow> undisturbed (boot_view hw good blocks) s s'"
  by (simp add: same_hw_def undisturbed_def boot_view_def boot_state_page_def mem_span_def)

lemma same_hw_trans:
  "same_hw hw good blocks h h' \<Longrightarrow> same_hw hw good blocks h' h'' \<Longrightarrow> same_hw hw good blocks h h''"
  by (simp add: same_hw_def)

lemma same_hw_good: "same_hw hw good blocks h h' \<Longrightarrow> good h'"
  by (simp add: same_hw_def)

lemma lift_hw_eq:
  "lift_hw f s = (x, s') \<longleftrightarrow> (\<exists>r h. f (bio_hw s) = (r, h) \<and> x = map_errE (\<lambda>_. IoError) r \<and> s' = s\<lparr>bio_hw := h\<rparr>)"
  by (auto simp: lift_hw_def split: prod.splits)

lemma mem_span_slice: "off + n \<le> m \<Longrightarrow> slice off n (mem_span hw h a m) = mem_span hw h (a + off) n"
  by (rule nth_equalityI) (simp_all add: mem_span_def nth_slice add.assoc)

lemma mem_span_put:
  assumes "\<forall>k. k < a \<or> a + n \<le> k \<longrightarrow> hw_mem hw h' k = hw_mem hw h k" and "b \<le> a" and "a + n \<le> b + m"
  shows "mem_span hw h' b m = put_bytes (mem_span hw h b m) (a - b) (mem_span hw h' a n)"
proof (rule nth_equalityI)
  show "length (mem_span hw h' b m) = length (put_bytes (mem_span hw h b m) (a - b) (mem_span hw h' a n))"
    using assms by simp
  fix i assume "i < length (mem_span hw h' b m)"
  then show "mem_span hw h' b m ! i = put_bytes (mem_span hw h b m) (a - b) (mem_span hw h' a n) ! i"
    using assms by (subst nth_put_bytes) (auto simp: mem_span_def add.commute)
qed

lemma mem_span_outside:
  assumes "\<forall>k. k < a \<or> a + n \<le> k \<longrightarrow> hw_mem hw h' k = hw_mem hw h k" and "b + m \<le> a \<or> a + n \<le> b"
  shows "mem_span hw h' b m = mem_span hw h b m"
  using assms by (auto simp: mem_span_def)

lemma layout_bounds:
  "unat APP_SLOT_BASE = 32768" "unat (slot_len app_slot) = 2023424" "unat (slot_base app_slot) = 32768"
  "unat BOOT_STATE_BASE = 2076672" "unat SEMMC_STAGE_BASE = 2056192"
  by (simp_all add: app_slot_def fmt_consts)

locale boot_hardware =
  fixes hw :: "'h boot_hw" and good :: "'h \<Rightarrow> bool" and blocks :: "'h \<Rightarrow> nat \<Rightarrow> bytes"
  assumes block_len: "good h \<Longrightarrow> length (blocks h k) = SD_BLOCK_LEN"
    and pet: "good h \<Longrightarrow> same_hw hw good blocks h (hw_dog_pet hw h)"
    and dog_start: "good h \<Longrightarrow> same_hw hw good blocks h (hw_dog_start hw h)"
    and com_poll: "good h \<Longrightarrow> same_hw hw good blocks h (hw_com_poll hw h)"
    and led_toggle: "good h \<Longrightarrow> same_hw hw good blocks h (hw_led_toggle hw h)"
    and led_off: "good h \<Longrightarrow> same_hw hw good blocks h (hw_led_off hw h)"
    and blink: "good h \<Longrightarrow> same_hw hw good blocks h (hw_blink_code hw n h)"
    and delay: "good h \<Longrightarrow> same_hw hw good blocks h (hw_delay_ms hw ms h)"
    and shutdown: "good h \<Longrightarrow> same_hw hw good blocks h (hw_shutdown hw h)"
    and try_init: "good h \<Longrightarrow> hw_try_init hw h = (b, h') \<Longrightarrow> same_hw hw good blocks h h'"
    and sd_read: "good h \<Longrightarrow> 0 < n \<Longrightarrow> SD_BLOCK_LEN dvd n \<Longrightarrow> hw_sd_read hw a n h = (r, h') \<Longrightarrow>
      same_hw hw good blocks h h' \<and> (\<forall>bs. r = Inr bs \<longrightarrow>
        bs = concat (map (blocks h) [unat a..<unat a + n div SD_BLOCK_LEN]))"
    and rram_read: "good h \<Longrightarrow> hw_rram_read hw a n h = (r, h') \<Longrightarrow>
      same_hw hw good blocks h h' \<and> (\<forall>bs. r = Inr bs \<longrightarrow> bs = mem_span hw h (unat a) n)"
    and rram_write: "good h \<Longrightarrow> RRAM_LINE_LEN dvd unat a \<Longrightarrow> RRAM_LINE_LEN dvd length data \<Longrightarrow>
      hw_rram_write hw a data h = (rw, h') \<Longrightarrow>
      good h' \<and> blocks h' = blocks h
      \<and> (\<forall>k. k < unat a \<or> unat a + length data \<le> k \<longrightarrow> hw_mem hw h' k = hw_mem hw h k)
      \<and> (rw = Inr () \<longrightarrow> mem_span hw h' (unat a) (length data) = data)"
begin

lemmas bio_ops = boot_io_def bio_read_blocks_def bio_write_lines_def bio_read_flash_def
  bio_write_state_def Let_def lift_hw_eq

lemma bio_read_law:
  assumes "good (bio_hw s)" and "0 < n" and "SD_BLOCK_LEN dvd n"
    and "io_read_blocks (boot_io hw sd BOOT_STATE_BASE) a n s = (r, s')"
  shows "undisturbed (boot_view hw good blocks) s s' \<and> (\<forall>bs. r = Inr bs \<longrightarrow>
    bs = concat (map (blocks (bio_hw s)) [unat a..<unat a + n div SD_BLOCK_LEN]))"
proof (cases sd)
  case True
  then obtain x h where "hw_sd_read hw a n (bio_hw s) = (x, h)" "r = map_errE (\<lambda>_. IoError) x" "s' = s\<lparr>bio_hw := h\<rparr>"
    using assms(4) by (auto simp: bio_ops)
  then show ?thesis using sd_read [OF assms(1-3)] by (auto intro: same_hw_undisturbed)
next
  case False
  then show ?thesis using assms by (auto simp: bio_ops undisturbed_def boot_view_def)
qed

lemma bio_read_flash_law:
  assumes "good (bio_hw s)" and "APP_SLOT_BASE \<le> a"
    and "unat a + n \<le> unat APP_SLOT_BASE + unat (slot_len app_slot)"
    and "io_read_flash (boot_io hw sd BOOT_STATE_BASE) a n s = (r, s')"
  shows "undisturbed (boot_view hw good blocks) s s' \<and> (\<forall>bs. r = Inr bs \<longrightarrow>
    bs = slice (unat a - unat APP_SLOT_BASE) n (dv_slot (boot_view hw good blocks) s))"
proof -
  obtain x h where x: "hw_rram_read hw a n (bio_hw s) = (x, h)" "r = map_errE (\<lambda>_. IoError) x" "s' = s\<lparr>bio_hw := h\<rparr>"
    using assms(4) by (auto simp: bio_ops)
  have "slice (unat a - unat APP_SLOT_BASE) n (dv_slot (boot_view hw good blocks) s) = mem_span hw (bio_hw s) (unat a) n"
    using assms(2,3) by (simp add: boot_view_def mem_span_slice word_le_nat_alt)
  then show ?thesis using x rram_read [OF assms(1) x(1)] by (auto intro: same_hw_undisturbed)
qed

lemma bio_write_law:
  assumes "good (bio_hw s)" and "APP_SLOT_BASE \<le> a" and "RRAM_LINE_LEN dvd unat a"
    and "RRAM_LINE_LEN dvd length data"
    and fits: "unat a + length data \<le> unat APP_SLOT_BASE + unat (slot_len app_slot)"
    and "io_write_lines (boot_io hw sd BOOT_STATE_BASE) a data s = (rw, s')"
  shows "good (bio_hw s') \<and> blocks (bio_hw s') = blocks (bio_hw s)
    \<and> boot_state_page hw (bio_hw s') = boot_state_page hw (bio_hw s)
    \<and> dv_slot (boot_view hw good blocks) s' = put_bytes (dv_slot (boot_view hw good blocks) s)
        (unat a - unat APP_SLOT_BASE) (mem_span hw (bio_hw s') (unat a) (length data))
    \<and> (rw = Inr () \<longrightarrow> mem_span hw (bio_hw s') (unat a) (length data) = data)"
proof -
  obtain r h' where w: "hw_rram_write hw a data (bio_hw s) = (r, h')" by (cases "hw_rram_write hw a data (bio_hw s)")
  note rw = rram_write [OF assms(1,3,4) w]
  have s': "bio_hw s' = h'" "rw = map_errE (\<lambda>_. IoError) r" using assms(6) w by (auto simp: bio_ops)
  have "mem_span hw h' (unat BOOT_STATE_BASE) PAGE_LEN = mem_span hw (bio_hw s) (unat BOOT_STATE_BASE) PAGE_LEN"
    using rw fits by (intro mem_span_outside) (auto simp: layout_bounds)
  moreover have "mem_span hw h' (unat APP_SLOT_BASE) (unat (slot_len app_slot)) =
      put_bytes (mem_span hw (bio_hw s) (unat APP_SLOT_BASE) (unat (slot_len app_slot)))
        (unat a - unat APP_SLOT_BASE) (mem_span hw h' (unat a) (length data))"
    using rw fits assms(2) by (intro mem_span_put) (auto simp: word_le_nat_alt)
  ultimately show ?thesis using rw s' by (simp add: boot_view_def boot_state_page_def)
qed

lemma bio_write_state_law:
  assumes "good (bio_hw s)" and "wf_state st"
    and "io_write_state (boot_io hw sd BOOT_STATE_BASE) st s = (rw, s')"
  shows "good (bio_hw s') \<and> blocks (bio_hw s') = blocks (bio_hw s)
    \<and> dv_slot (boot_view hw good blocks) s' = dv_slot (boot_view hw good blocks) s
    \<and> (rw = Inr () \<longrightarrow> state_decode (boot_state_page hw (bio_hw s')) = st)"
proof -
  let ?p = "as_bytes (state_encode st)"
  have len: "length ?p \<le> 304" "16 dvd length ?p"
    using length_as_bytes [OF assms(2)] blob_size_bounds [OF assms(2)] by simp_all
  obtain r h' where w: "hw_rram_write hw BOOT_STATE_BASE ?p (bio_hw s) = (r, h')"
    by (cases "hw_rram_write hw BOOT_STATE_BASE ?p (bio_hw s)")
  note rw = rram_write [OF assms(1) _ _ w]
  have al: "RRAM_LINE_LEN dvd unat BOOT_STATE_BASE" "RRAM_LINE_LEN dvd length ?p"
    using len by (simp_all add: layout_bounds RRAM_LINE_LEN_def)
  note rw = rw [OF al]
  have s': "bio_hw s' = h'" "rw = map_errE (\<lambda>_. IoError) r" using assms(3) w by (auto simp: bio_ops)
  have "mem_span hw h' (unat APP_SLOT_BASE) (unat (slot_len app_slot)) =
      mem_span hw (bio_hw s) (unat APP_SLOT_BASE) (unat (slot_len app_slot))"
    using rw by (intro mem_span_outside [of "unat BOOT_STATE_BASE" "length ?p"]) (simp_all add: layout_bounds)
  moreover have "mem_span hw h' (unat BOOT_STATE_BASE) PAGE_LEN =
      put_bytes (mem_span hw (bio_hw s) (unat BOOT_STATE_BASE) PAGE_LEN) (unat BOOT_STATE_BASE - unat BOOT_STATE_BASE)
        (mem_span hw h' (unat BOOT_STATE_BASE) (length ?p))"
    using rw len by (intro mem_span_put) (auto simp: PAGE_LEN_def)
  ultimately show ?thesis
    using rw s' state_decode_eq [OF assms(2)]
    by (auto simp: boot_view_def boot_state_page_def put_bytes_def)
qed

lemma bio_progress_law:
  assumes "good (bio_hw s)"
  shows "undisturbed (boot_view hw good blocks) s (bio_progress hw ph d t s)"
proof (rule same_hw_undisturbed)
  note p = pet [OF assms]
  note c = com_poll [OF same_hw_good [OF p]]
  note l = led_toggle [OF same_hw_good [OF c]]
  show "same_hw hw good blocks (bio_hw s) (bio_hw (bio_progress hw ph d t s))"
    using same_hw_trans [OF p c] same_hw_trans [OF same_hw_trans [OF p c] l]
    by (simp add: bio_progress_def Let_def)
qed

end

text \<open>\<open>BootIo\<close> over such hardware keeps the contract of the engine.\<close>

sublocale boot_hardware \<subseteq> dev: honest_device "boot_io hw sd BOOT_STATE_BASE" app_slot "boot_view hw good blocks"
  for sd
proof (unfold_locales, goal_cases)
  case (5 s n b r s')
  then show ?case using bio_read_law [of s n sd b r s'] by (simp add: boot_view_def)
next
  case (6 s a n r s')
  then show ?case using bio_read_flash_law [of s a n sd r s'] by (simp add: boot_view_def app_slot_def)
next
  case (7 s a data rw s')
  then show ?case
    using bio_write_law [of s a data sd rw s']
    by (intro conjI exI [of _ "mem_span hw (bio_hw s') (unat a) (length data)"])
      (simp_all add: boot_view_def app_slot_def)
next
  case (8 s st rw s')
  then show ?case using bio_write_state_law [of s st sd rw s'] by (simp add: boot_view_def)
next
  case (9 s ph d t)
  then show ?case using bio_progress_law [of s ph d t] by (simp add: boot_view_def boot_io_def)
next
  case (10 s a data s')
  then show ?case using bio_write_law [of s a data sd "Inr ()" s'] by (auto simp: boot_view_def app_slot_def)
qed (simp_all add: layout_bounds RRAM_LINE_LEN_def boot_view_def block_len)

subsection \<open>The boot loop\<close>

definition app_slot_bytes :: "'h boot_hw \<Rightarrow> 'h \<Rightarrow> bytes" where
  "app_slot_bytes hw h = mem_span hw h (unat APP_SLOT_BASE) (unat (slot_len app_slot))"

text \<open>The slot holds a checked copy of what the state asked for, and the page records it.\<close>

definition installed_ok :: "'h boot_hw \<Rightarrow> boot_state \<Rightarrow> 'h \<Rightarrow> bool" where
  "installed_ok hw st h \<longleftrightarrow> (\<exists>src succ. target st = Some (src, succ) \<and> 0 < unat (sr_len src)
     \<and> crc32 (take (unat (sr_len src)) (app_slot_bytes hw h)) = sr_crc32 src
     \<and> state_decode (boot_state_page hw h) = succ)"

lemma same_hw_slot:
  "same_hw hw good blocks h h' \<Longrightarrow> app_slot_bytes hw h' = app_slot_bytes hw h
     \<and> boot_state_page hw h' = boot_state_page hw h \<and> blocks h' = blocks h \<and> good h'"
  by (simp add: same_hw_def app_slot_bytes_def boot_state_page_def mem_span_def)

context boot_hardware
begin

lemma boot_io_honest: "honest_device (boot_io hw sd BOOT_STATE_BASE) app_slot (boot_view hw good blocks)"
  by (rule dev.honest_device_axioms)

lemma run_once_spec:
  assumes "good h" and "wf_state st" and "run_once hw st sd h = (out, h')"
  shows "good h' \<and> blocks h' = blocks h
    \<and> (out \<in> {OJump, OStageRejected, OSdError True} \<longrightarrow> app_slot_bytes hw h' = app_slot_bytes hw h)
    \<and> (\<forall>pre. out = OSdError pre \<longrightarrow> boot_state_page hw h' = boot_state_page hw h)
    \<and> (out = OInstalled \<longrightarrow> installed_ok hw st h') \<and> out \<noteq> OArmAbandoned"
proof -
  obtain s' where r: "run st app_slot (boot_io hw sd BOOT_STATE_BASE) INSTALL_BUF_LEN (boot_io_new h) = (out, s')"
    and h': "h' = bio_hw s'"
    using assms(3) by (auto simp: run_once_def split: prod.splits)
  have "dv_ok (boot_view hw good blocks) (boot_io_new h)"
    using assms(1) by (simp add: boot_view_def boot_io_new_def)
  from dev.run_spec [OF this assms(2) r] show ?thesis
    by (auto simp: h' boot_view_def boot_io_new_def app_slot_bytes_def installed_ok_def)
qed

lemma run_once_stage:
  assumes "good h" and "wf_state st" and "run_once hw st sd h = (out, h')"
    and "target st = Some (src, succ)" and "extents_ok (sr_extents src)"
  shows "out \<noteq> OJump \<and> (out = OStageRejected \<longrightarrow> \<not> stage_valid (blocks h) app_slot src)
    \<and> (\<forall>p. out = OSdError p \<longrightarrow> app_slot_bytes hw h' = app_slot_bytes hw h \<or> stage_valid (blocks h) app_slot src)"
proof -
  obtain s' where r: "run st app_slot (boot_io hw sd BOOT_STATE_BASE) INSTALL_BUF_LEN (boot_io_new h) = (out, s')"
    and h': "h' = bio_hw s'"
    using assms(3) by (auto simp: run_once_def split: prod.splits)
  have "dv_ok (boot_view hw good blocks) (boot_io_new h)"
    using assms(1) by (simp add: boot_view_def boot_io_new_def)
  from dev.run_stage [OF this assms(2) r assms(4,5)] show ?thesis
    by (auto simp: h' boot_view_def boot_io_new_def app_slot_bytes_def)
qed

lemma accept_loop:
  assumes "good h" and "wf_state st" and "target st = None" and "decide st \<noteq> Jump"
    and "boot_loop laps hw st False False backoff rounds h = Some (out, h')"
  shows "good h' \<and> app_slot_bytes hw h' = app_slot_bytes hw h"
proof -
  obtain out1 h1 where r: "run_once hw st False h = (out1, h1)" by (cases "run_once hw st False h")
  have "out1 = OJump"
    using r assms(3,4)
    by (cases st rule: target.cases) (auto simp: run_once_def run_def fmt_consts split: prod.splits)
  then show ?thesis
    using assms(5) r run_once_spec [OF assms(1,2) r] by (cases laps) auto
qed

lemma back_off_same:
  assumes "good h"
  shows "same_hw hw good blocks h (back_off hw b h)"
proof -
  note p = pet [OF assms]
  note pb = same_hw_trans [OF p blink [OF same_hw_good [OF p]]]
  show ?thesis unfolding back_off_def by (rule same_hw_trans [OF pb delay [OF same_hw_good [OF pb]]])
qed

lemma abandon_spec:
  assumes "good h" and "wf_state st" and "abandon hw st h = (out, h')"
  shows "good h' \<and> blocks h' = blocks h \<and> app_slot_bytes hw h' = app_slot_bytes hw h
    \<and> out = (case st of Armed _ _ _ \<Rightarrow> OArmAbandoned | _ \<Rightarrow> OJump)"
proof (cases st)
  case (Armed g u r)
  let ?i = "Idle (map_option sr_header r) (Some \<lparr>lo_kind = OutcomeArmAbandoned, lo_generation = g\<rparr>)"
  obtain x s' where w: "io_write_state (boot_io hw False BOOT_STATE_BASE) ?i (boot_io_new h) = (x, s')"
    by (cases "io_write_state (boot_io hw False BOOT_STATE_BASE) ?i (boot_io_new h)")
  have "wf_state ?i" using assms(2) Armed by (cases r) (auto simp: wf_staged_def)
  then show ?thesis
    using bio_write_state_law [OF _ _ w] assms(1,3) w Armed
    by (auto simp: abandon_def boot_io_new_def boot_view_def app_slot_bytes_def)
qed (use assms in \<open>auto simp: abandon_def boot_io_new_def\<close>)

text \<open>
  The invariant of the retry loop: the slot is as it was at the start, or the stage on the card is
  valid, so that a later lap installs it.
\<close>

lemma boot_loop_spec:
  assumes "good h" and "wf_state st" and "target st = Some (src, succ)" and "extents_ok (sr_extents src)"
    and "abandonable \<Longrightarrow> \<forall>h h'. good h \<longrightarrow> run_once hw st sd h \<noteq> (OSdError False, h')"
    and "boot_loop laps hw st abandonable sd backoff rounds h = Some (out, h')"
    and "app_slot_bytes hw h = old \<or> \<not> abandonable \<and> stage_valid (blocks h) app_slot src"
  shows "good h' \<and> (\<forall>pre. out \<noteq> OSdError pre)
    \<and> (out \<in> {OJump, OStageRejected, OArmAbandoned} \<longrightarrow> app_slot_bytes hw h' = old)
    \<and> (out = OInstalled \<longrightarrow> installed_ok hw st h')"
  using assms(1,6,7)
proof (induction laps arbitrary: backoff rounds h)
  case (Suc laps)
  obtain ready h1 where i: "(if sd then hw_try_init hw h else (True, h)) = (ready, h1)" by fastforce
  have s1: "same_hw hw good blocks h h1"
    using i try_init [OF Suc.prems(1)] Suc.prems(1) by (auto simp: same_hw_def split: if_splits)
  note h1 = same_hw_slot [OF s1]
  let ?inv = "\<lambda>h. app_slot_bytes hw h = old \<or> \<not> abandonable \<and> stage_valid (blocks h) app_slot src"
  let ?post = "good h' \<and> (\<forall>pre. out \<noteq> OSdError pre)
    \<and> (out \<in> {OJump, OStageRejected, OArmAbandoned} \<longrightarrow> app_slot_bytes hw h' = old)
    \<and> (out = OInstalled \<longrightarrow> installed_ok hw st h')"
  have retry: ?post
    if "good h2" "?inv h2" and "(if abandonable \<and> c then
          if ARM_ABANDON_ROUNDS \<le> rounds + 1 then Some (abandon hw st (back_off hw backoff h2))
          else boot_loop laps hw st abandonable sd (next_backoff backoff) (rounds + 1) (back_off hw backoff h2)
        else boot_loop laps hw st abandonable sd (next_backoff backoff) rounds (back_off hw backoff h2))
        = Some (out, h')" for h2 c
  proof -
    note b = same_hw_slot [OF back_off_same [OF that(1), of backoff]]
    show ?thesis
      using that b Suc.IH [of "back_off hw backoff h2"] abandon_spec [OF _ assms(2), of "back_off hw backoff h2" out h']
      by (auto split: if_splits boot_state.splits)
  qed
  show ?case
  proof (cases ready)
    case False
    then show ?thesis
      using Suc.prems(2,3) i h1 by (intro retry [of h1 True]) (auto simp: Let_def split: if_splits)
  next
    case True
    obtain out1 h2 where r: "run_once hw st sd h1 = (out1, h2)" by (cases "run_once hw st sd h1")
    note rs = run_once_spec [OF conjunct2 [OF conjunct2 [OF conjunct2 [OF h1]]] assms(2) r]
      run_once_stage [OF conjunct2 [OF conjunct2 [OF conjunct2 [OF h1]]] assms(2) r assms(3,4)]
    show ?thesis
    proof (cases "\<exists>pre. out1 = OSdError pre")
      case True
      then obtain pre where pre: "out1 = OSdError pre" ..
      have "?inv h2" using rs pre h1 Suc.prems(3) assms(5) r by (cases pre) auto
      then show ?thesis
        using Suc.prems(2) i \<open>ready\<close> r pre rs
        by (intro retry [of h2 pre]) (auto simp: Let_def split: if_splits)
    next
      case False
      then have "out = out1" "h' = h2"
        using Suc.prems(2) i \<open>ready\<close> r by (auto split: outcome.splits)
      then show ?thesis using rs False h1 Suc.prems(3) by auto
    qed
  qed
qed simp

lemma boot_loop_abandons:
  assumes "good h" and dead: "\<And>h. fst (hw_try_init hw h) = False"
    and "rounds < ARM_ABANDON_ROUNDS" and "ARM_ABANDON_ROUNDS - rounds \<le> laps"
  shows "\<exists>h2. same_hw hw good blocks h h2
    \<and> boot_loop laps hw st True True backoff rounds h = Some (abandon hw st h2)"
  using assms(1,3,4)
proof (induction laps arbitrary: backoff rounds h)
  case (Suc laps)
  obtain h1 where i: "hw_try_init hw h = (False, h1)" using dead [of h] by (cases "hw_try_init hw h") auto
  have s1: "same_hw hw good blocks h h1" by (rule try_init [OF Suc.prems(1) i])
  let ?h = "back_off hw backoff h1"
  have s2: "same_hw hw good blocks h ?h" by (rule same_hw_trans [OF s1 back_off_same [OF same_hw_good [OF s1]]])
  show ?case
  proof (cases "ARM_ABANDON_ROUNDS \<le> rounds + 1")
    case True
    then show ?thesis using i s2 by (intro exI [of _ ?h]) (simp add: Let_def)
  next
    case False
    then have "\<exists>h2. same_hw hw good blocks ?h h2
        \<and> boot_loop laps hw st True True (next_backoff backoff) (rounds + 1) ?h = Some (abandon hw st h2)"
      using Suc.prems s2 by (intro Suc.IH) (auto simp: same_hw_def)
    then show ?thesis using i False s2 by (auto simp: Let_def intro: same_hw_trans)
  qed
qed simp

lemma finish_same:
  "good h \<Longrightarrow> same_hw hw good blocks h (snd (finish hw out d h))"
  using led_off [of h] blink [of "hw_led_off hw h" 2] dog_start [of "hw_led_off hw h"]
  by (cases out) (auto simp: same_hw_def)

lemma shutdown_finish:
  assumes "good h" and "finish hw out d (if c then hw_shutdown hw h else h) = (e, h')"
  shows "same_hw hw good blocks h h'"
  using assms finish_same [of "if c then hw_shutdown hw h else h" out d] shutdown [of h]
  by (auto simp: same_hw_def split: if_splits)

lemma boot_spec:
  assumes "good h" and st: "st = state_decode (boot_state_page hw h)"
    and ext: "\<And>src succ. target st = Some (src, succ) \<Longrightarrow> extents_ok (sr_extents src)"
    and keep: "is_install (decide st) \<Longrightarrow> \<forall>h h'. good h \<longrightarrow> run_once hw st True h \<noteq> (OSdError False, h')"
    and boot: "boot laps hw h = Some (JumpToApp, h')"
  shows "app_slot_bytes hw h' = app_slot_bytes hw h \<or> installed_ok hw st h'"
proof -
  have wf: "wf_state st" by (simp add: st state_decode_wf)
  let ?dec = "decide st"
  note b = boot [unfolded boot_def Let_def st [symmetric]]
  consider (jump) "?dec = Jump" | (noblob) "?dec \<noteq> Jump" "needs_card ?dec" "staged_blob hw h = None \<or> \<not> hw_cyccnt hw h"
    | (loop) out h1 where "?dec \<noteq> Jump"
        "boot_loop laps hw st (is_install ?dec) (needs_card ?dec) BACKOFF_MIN_MS 0 h = Some (out, h1)"
        "finish hw out (is_install ?dec) (if needs_card ?dec then hw_shutdown hw h1 else h1) = (JumpToApp, h')"
    using b by (auto split: if_splits option.splits prod.splits)
  then show ?thesis
  proof cases
    case jump
    then show ?thesis using b by simp
  next
    case noblob
    obtain out h1 where a: "abandon hw st h = (out, h1)" by (cases "abandon hw st h")
    note as = abandon_spec [OF assms(1) wf a]
    have "finish hw out (is_install ?dec) h1 = (JumpToApp, h')"
      using b noblob a by (auto split: if_splits)
    then show ?thesis
      using as same_hw_slot [OF finish_same [of h1 out "is_install ?dec"]] by simp
  next
    case loop
    show ?thesis
    proof (cases "target st")
      case None
      then have "\<not> needs_card ?dec" "\<not> is_install ?dec"
        using loop(1) by (cases st rule: target.cases; simp add: needs_card_def is_install_def)+
      then have "good h1 \<and> app_slot_bytes hw h1 = app_slot_bytes hw h"
        using accept_loop [OF assms(1) wf None loop(1)] loop(2) by simp
      then show ?thesis
        using same_hw_slot [OF shutdown_finish [OF _ loop(3)]] by simp
    next
      case (Some p)
      obtain src succ where t: "target st = Some (src, succ)" using Some by (cases p) auto
      have nc: "needs_card ?dec" using t by (cases st rule: target.cases) (auto simp: needs_card_def)
      have "good h1 \<and> (\<forall>pre. out \<noteq> OSdError pre)
          \<and> (out \<in> {OJump, OStageRejected, OArmAbandoned} \<longrightarrow> app_slot_bytes hw h1 = app_slot_bytes hw h)
          \<and> (out = OInstalled \<longrightarrow> installed_ok hw st h1)"
        using boot_loop_spec [OF assms(1) wf t ext [OF t] _ loop(2), of "app_slot_bytes hw h"] keep nc by simp
      moreover from this have "same_hw hw good blocks h1 h'" using shutdown_finish loop(3) by blast
      note same_hw_slot [OF this]
      ultimately show ?thesis
        using loop(3) by (cases out) (auto simp: installed_ok_def)
    qed
  qed
qed

lemma abandon_page:
  assumes "good h" and "wf_state (Armed g u r)" and "\<forall>a d h. fst (hw_rram_write hw a d h) = Inr ()"
    and "abandon hw (Armed g u r) h = (out, h')"
  shows "state_decode (boot_state_page hw h') =
    Idle (map_option sr_header r) (Some \<lparr>lo_kind = OutcomeArmAbandoned, lo_generation = g\<rparr>)"
proof -
  let ?i = "Idle (map_option sr_header r) (Some \<lparr>lo_kind = OutcomeArmAbandoned, lo_generation = g\<rparr>)"
  obtain x s' where w: "io_write_state (boot_io hw False BOOT_STATE_BASE) ?i (boot_io_new h) = (x, s')"
    by (cases "io_write_state (boot_io hw False BOOT_STATE_BASE) ?i (boot_io_new h)")
  have "x = Inr ()"
    using w assms(3) [rule_format, of BOOT_STATE_BASE "as_bytes (state_encode ?i)" h]
    by (auto simp: bio_ops boot_io_new_def)
  moreover have "wf_state ?i" using assms(2) by (cases r) (auto simp: wf_staged_def)
  ultimately show ?thesis
    using bio_write_state_law [OF _ _ w] assms(1,4) w by (simp add: abandon_def boot_io_new_def)
qed

lemma boot_dead_card:
  assumes "good h" and st: "state_decode (boot_state_page hw h) = Armed g u r"
    and "\<forall>h. fst (hw_try_init hw h) = False" and "ARM_ABANDON_ROUNDS \<le> laps"
  shows "\<exists>h'. boot laps hw h = Some (JumpToApp, h') \<and> app_slot_bytes hw h' = app_slot_bytes hw h
    \<and> ((\<forall>a d h. fst (hw_rram_write hw a d h) = Inr ()) \<longrightarrow> state_decode (boot_state_page hw h') =
         Idle (map_option sr_header r) (Some \<lparr>lo_kind = OutcomeArmAbandoned, lo_generation = g\<rparr>))"
proof -
  have wf: "wf_state (Armed g u r)" using state_decode_wf [of "boot_state_page hw h"] st by simp
  obtain h2 where s2: "same_hw hw good blocks h h2"
    and bl: "boot_loop laps hw (Armed g u r) True True BACKOFF_MIN_MS 0 h = Some (abandon hw (Armed g u r) h2)"
    using boot_loop_abandons [OF assms(1), of 0 laps "Armed g u r" BACKOFF_MIN_MS] assms(3,4)
    by (auto simp: ARM_ABANDON_ROUNDS_def)
  let ?blob = "staged_blob hw h \<noteq> None \<and> hw_cyccnt hw h"
  let ?h2 = "if ?blob then h2 else h"
  have s: "same_hw hw good blocks h ?h2" using s2 assms(1) by (simp add: same_hw_def)
  obtain out h3 where a: "abandon hw (Armed g u r) ?h2 = (out, h3)" by (cases "abandon hw (Armed g u r) ?h2")
  note as = abandon_spec [OF same_hw_good [OF s] wf a]
  let ?h = "if ?blob then hw_shutdown hw h3 else h3"
  obtain e h' where f: "finish hw out True ?h = (e, h')" by (cases "finish hw out True ?h")
  have e: "e = JumpToApp" using f as by simp
  have "boot laps hw h = Some (JumpToApp, h')"
    using bl a f e st
    by (auto simp: boot_def Let_def needs_card_def is_install_def split: if_splits)
  moreover have "same_hw hw good blocks h3 h'"
    using shutdown_finish [OF _ f] as by blast
  ultimately show ?thesis
    using abandon_page [OF same_hw_good [OF s] wf _ a] as same_hw_slot [OF s] same_hw_slot [of hw good blocks h3 h']
    by auto
qed

end

subsection \<open>A bench device\<close>

text \<open>
  A concrete device: a card that can die after a number of reads, and an RRAM whose next write can
  tear after one line. It keeps the laws of \<open>boot_hardware\<close>, and with no fault scheduled nothing on
  it fails.
\<close>

record bench =
  bn_mem :: "nat \<Rightarrow> u8"
  bn_blocks :: "nat \<Rightarrow> bytes"
  bn_reads :: "nat option"
  bn_torn :: bool

definition store_bytes :: "(nat \<Rightarrow> u8) \<Rightarrow> nat \<Rightarrow> bytes \<Rightarrow> nat \<Rightarrow> u8" where
  "store_bytes m a d k = (if a \<le> k \<and> k < a + length d then d ! (k - a) else m k)"

definition bench_read :: "u32 \<Rightarrow> nat \<Rightarrow> bench \<Rightarrow> (unit + bytes) \<times> bench" where
  "bench_read a n h =
     (if bn_reads h = Some 0 then (Inl (), h)
      else (Inr (concat (map (bn_blocks h) [unat a..<unat a + n div SD_BLOCK_LEN])),
            h\<lparr>bn_reads := map_option (\<lambda>k. k - 1) (bn_reads h)\<rparr>))"

definition bench_write :: "u32 \<Rightarrow> bytes \<Rightarrow> bench \<Rightarrow> (unit + unit) \<times> bench" where
  "bench_write a data h =
     (if bn_torn h then
        (Inl (), h\<lparr>bn_mem := store_bytes (bn_mem h) (unat a) (take RRAM_LINE_LEN data), bn_torn := False\<rparr>)
      else (Inr (), h\<lparr>bn_mem := store_bytes (bn_mem h) (unat a) data\<rparr>))"

definition bench_hw :: "bench boot_hw" where
  "bench_hw =
     \<lparr>hw_mem = bn_mem, hw_cyccnt = (\<lambda>h. True), hw_sd_read = bench_read,
      hw_try_init = (\<lambda>h. (bn_reads h \<noteq> Some 0, h)), hw_shutdown = (\<lambda>h. h),
      hw_rram_write = bench_write,
      hw_rram_read = (\<lambda>a n h. (Inr (map (bn_mem h) [unat a..<unat a + n]), h)),
      hw_dog_pet = (\<lambda>h. h), hw_dog_start = (\<lambda>h. h), hw_com_poll = (\<lambda>h. h), hw_led_toggle = (\<lambda>h. h),
      hw_led_off = (\<lambda>h. h), hw_blink_code = (\<lambda>n h. h), hw_delay_ms = (\<lambda>n h. h)\<rparr>"

definition bench_good :: "bench \<Rightarrow> bool" where
  "bench_good h \<longleftrightarrow> (\<forall>k. length (bn_blocks h k) = SD_BLOCK_LEN)"

definition bench_fine :: "bench \<Rightarrow> bool" where
  "bench_fine h \<longleftrightarrow> bench_good h \<and> bn_reads h = None \<and> \<not> bn_torn h"

lemma bench_quiet:
  "hw_shutdown bench_hw h = h" "hw_led_off bench_hw h = h" "hw_blink_code bench_hw n h = h"
  "hw_dog_start bench_hw h = h" "hw_cyccnt bench_hw h"
  by (simp_all add: bench_hw_def)

lemma store_span: "map (store_bytes m a d) [a..<a + length d] = d"
  by (rule nth_equalityI) (simp_all add: store_bytes_def)

lemma store_prefix: "length d \<le> n \<Longrightarrow> map (store_bytes m a d) [a..<a + n] = d @ map m [a + length d..<a + n]"
  by (rule nth_equalityI) (auto simp: store_bytes_def nth_append)

lemma store_outside: "a + n \<le> b \<or> b + length d \<le> a \<Longrightarrow> map (store_bytes m b d) [a..<a + n] = map m [a..<a + n]"
  by (auto simp: store_bytes_def)

interpretation bench: boot_hardware bench_hw bench_good bn_blocks
proof (unfold_locales, goal_cases)
  case (11 h n a r h')
  then show ?case by (auto simp: bench_hw_def bench_read_def same_hw_def bench_good_def split: if_splits)
next
  case (13 h a data rw h')
  then show ?case
    using store_span [of "bn_mem h" "unat a" data]
    by (auto simp: bench_hw_def bench_write_def bench_good_def mem_span_def store_bytes_def split: if_splits)
qed (auto simp: bench_hw_def same_hw_def bench_good_def mem_span_def)

interpretation fine: boot_hardware bench_hw bench_fine bn_blocks
proof (unfold_locales, goal_cases)
  case (11 h n a r h')
  then show ?case
    by (auto simp: bench_hw_def bench_read_def same_hw_def bench_fine_def bench_good_def split: if_splits)
next
  case (13 h a data rw h')
  then show ?case
    using store_span [of "bn_mem h" "unat a" data]
    by (auto simp: bench_hw_def bench_write_def bench_fine_def bench_good_def mem_span_def store_bytes_def
        split: if_splits)
qed (auto simp: bench_hw_def same_hw_def bench_fine_def bench_good_def mem_span_def)

interpretation fine_dev: faultless_device "boot_io bench_hw True BOOT_STATE_BASE" app_slot
  "boot_view bench_hw bench_fine bn_blocks"
  by unfold_locales
    (auto simp: boot_io_def bio_read_blocks_def bio_read_flash_def bio_write_lines_def bio_write_state_def
      lift_hw_def Let_def boot_view_def bench_hw_def bench_read_def bench_write_def bench_fine_def)

text \<open>
  A bench set-up: one card block holds a signed-off container with a 32-byte image, the state page
  is armed for it, the carve holds a bootable storage blob, and the slot is blank.
\<close>

definition demo_image :: bytes where "demo_image = replicate 32 7"

definition demo_header :: image_header where "demo_header = image_header_new demo_image []"

definition demo_ref :: staged_ref where
  "demo_ref = \<lparr>sr_header = demo_header, sr_len = image_len demo_header, sr_crc32 = image_crc32 demo_header,
     sr_extents = [\<lparr>start_block = 0, ext_blocks = 1\<rparr>]\<rparr>"

definition demo_armed :: boot_state where "demo_armed = Armed 1 demo_ref None"

definition demo_blob :: bytes where
  "demo_blob = le32 0x0012A005 @ le32 0xE33C @ zeros 4 @ le32 0x00010002 @ zeros 8 @ le32 1 @ zeros 4"

definition demo_mem :: "boot_state \<Rightarrow> nat \<Rightarrow> u8" where
  "demo_mem st = store_bytes (store_bytes (\<lambda>k. 0xFF) (unat BOOT_STATE_BASE) (as_bytes (state_encode st)))
     (unat SEMMC_STAGE_BASE) (the (encode_stage_header demo_blob) @ demo_blob)"

definition demo_blocks :: "nat \<Rightarrow> bytes" where
  "demo_blocks k = (if k = 0 then header_encode demo_header @ demo_image @ zeros 416 else zeros 512)"

definition demo_bench :: "boot_state \<Rightarrow> nat option \<Rightarrow> bool \<Rightarrow> bench" where
  "demo_bench st reads torn = \<lparr>bn_mem = demo_mem st, bn_blocks = demo_blocks, bn_reads = reads, bn_torn = torn\<rparr>"

lemma demo_header_simps [simp]:
  "wf_header demo_header" "unat (image_len demo_header) = 32" "image_len demo_header = 32"
  "image_crc32 demo_header = crc32 demo_image" "length demo_image = 32"
  by (simp_all add: demo_header_def image_header_new_wf) (simp_all add: image_header_new_def Let_def demo_image_def)

lemma demo_ref_simps [simp]:
  "sr_header demo_ref = demo_header" "sr_len demo_ref = 32" "sr_crc32 demo_ref = crc32 demo_image"
  "sr_extents demo_ref = [\<lparr>start_block = 0, ext_blocks = 1\<rparr>]"
  by (simp_all add: demo_ref_def)

lemma demo_armed_wf: "wf_state demo_armed" "target demo_armed = Some (demo_ref, Trial 1 demo_header None)"
  "extents_ok (sr_extents demo_ref)"
  by (simp_all add: demo_armed_def wf_staged_def fmt_consts extents_ok_def)

lemma demo_decide: "decide demo_armed = Install demo_ref 1 None"
  by (simp add: demo_armed_def)

lemma demo_good: "bench_good (demo_bench st r t)" "bench_fine (demo_bench st None False)"
  by (simp_all add: bench_good_def bench_fine_def demo_bench_def demo_blocks_def SD_BLOCK_LEN_def)

lemma demo_chain: "chain_bytes demo_blocks (sr_extents demo_ref) = header_encode demo_header @ demo_image @ zeros 416"
  by (simp add: chain_bytes_def ext_range_def demo_blocks_def upt_rec)

lemma padded_32: "padded_len 32 = 32" "pad_len 32 = 32"
  by (simp_all add: padded_len_def pad_len_def div_ceil_def RRAM_LINE_LEN_def)

lemma demo_stage_valid: "stage_valid demo_blocks app_slot demo_ref"
  by (simp add: stage_valid_def Let_def demo_chain [simplified] HEADER_LEN_def header_roundtrip slice_def padded_32
      app_slot_def fmt_consts)

definition demo_io :: "bench boot_io_st install_io" where
  "demo_io = boot_io bench_hw True BOOT_STATE_BASE"

definition demo_stream :: "nat \<Rightarrow> extent_stream" where
  "demo_stream pos = \<lparr>es_extents = sr_extents demo_ref, es_idx = 0, es_blocks_done = 1,
     es_scratch = demo_blocks 0, es_pos = pos, es_len = 512\<rparr>"

lemma demo_next: "next_block (stream_new (sr_extents demo_ref)) = (Some (0, 1), stream_new (sr_extents demo_ref))"
  by (subst next_block.simps) (simp add: stream_new_def checked_add_def Let_def)

lemma demo_read:
  assumes "bn_blocks (bio_hw s) = demo_blocks"
  shows "io_read_blocks demo_io 0 512 s = (if bn_reads (bio_hw s) = Some 0 then (Inl IoError, s)
    else (Inr (demo_blocks 0),
      s\<lparr>bio_hw := (bio_hw s)\<lparr>bn_reads := map_option (\<lambda>k. k - 1) (bn_reads (bio_hw s))\<rparr>\<rparr>))"
  using assms
  by (simp add: demo_io_def boot_io_def bio_read_blocks_def lift_hw_def bench_hw_def bench_read_def
      SD_BLOCK_LEN_def)

lemma demo_fill_header:
  assumes "bn_blocks (bio_hw s) = demo_blocks"
  shows "fill demo_io (stream_new (sr_extents demo_ref)) 64 s =
    (if bn_reads (bio_hw s) = Some 0 then (Inl StreamIo, s)
     else (Inr (header_encode demo_header, demo_stream 64),
       s\<lparr>bio_hw := (bio_hw s)\<lparr>bn_reads := map_option (\<lambda>k. k - 1) (bn_reads (bio_hw s))\<rparr>\<rparr>))"
proof -
  let ?st = "stream_new (sr_extents demo_ref)"
  have st: "\<not> es_pos ?st < es_len ?st" by (simp add: stream_new_def)
  have slice: "slice 0 64 (demo_blocks 0) = header_encode demo_header"
    by (simp add: slice_def demo_blocks_def)
  have fill64: "fill_loop demo_io (demo_stream 0) 64 [] s' = (Inr (header_encode demo_header, demo_stream 64), s')" for s'
    by (simp add: fill_loop.simps demo_stream_def slice)
  have "?st\<lparr>es_blocks_done := 1, es_scratch := demo_blocks 0, es_pos := 0, es_len := 512\<rparr> = demo_stream 0"
    by (simp add: stream_new_def demo_stream_def)
  moreover have "es_blocks_done ?st + 1 = 1" by (simp add: stream_new_def)
  ultimately show ?thesis
    unfolding fill_def fill_loop.simps [of demo_io ?st 64]
    using st demo_next demo_read [OF assms] fill64 by (simp add: SD_BLOCK_LEN_def)
qed

lemma demo_fill_image: "fill demo_io (demo_stream 64) 32 s = (Inr (demo_image, demo_stream 96), s)"
proof -
  have "slice 64 32 (demo_blocks 0) = demo_image" by (simp add: slice_def demo_blocks_def)
  then show ?thesis by (simp add: fill_def fill_loop.simps demo_stream_def)
qed

lemma demo_progress: "bio_hw (io_progress demo_io ph d t s) = bio_hw s"
  by (simp add: demo_io_def boot_io_def bio_progress_def bench_hw_def Let_def)

lemma demo_verify:
  assumes "bn_blocks (bio_hw s) = demo_blocks" and "bn_reads (bio_hw s) = Some (Suc k)"
  obtains s1 where "verify demo_io demo_ref app_slot 4096 s = (Inr (), s1)"
    "bio_hw s1 = (bio_hw s)\<lparr>bn_reads := Some k\<rparr>"
proof -
  have loop: "\<exists>s1. verify_loop demo_io 4096 32 (demo_stream 64) crc_new 0 s' =
      (Inr (crc_update crc_new demo_image), s1) \<and> bio_hw s1 = bio_hw s'" for s'
    by (simp add: verify_loop.simps demo_fill_image demo_progress)
  let ?s = "io_progress demo_io Verify 0 32 (s\<lparr>bio_hw := (bio_hw s)\<lparr>bn_reads := Some k\<rparr>\<rparr>)"
  obtain s1 where s1: "verify_loop demo_io 4096 32 (demo_stream 64) crc_new 0 ?s =
      (Inr (crc_update crc_new demo_image), s1)" "bio_hw s1 = bio_hw ?s"
    using loop by blast
  have "verify demo_io demo_ref app_slot 4096 s = (Inr (), s1)"
    using s1(1) demo_fill_header [OF assms(1)] assms(2)
    by (simp add: verify_def Let_def padded_32 app_slot_def fmt_consts header_roundtrip finalize_new_update)
  then show thesis using that s1(2) by (simp add: demo_progress)
qed

lemma demo_flash_torn:
  assumes "bn_blocks (bio_hw s) = demo_blocks" and "bn_reads (bio_hw s) = Some (Suc k)" and "bn_torn (bio_hw s)"
  obtains s1 where "flash_pass demo_io demo_ref app_slot 4096 s = (Inl PassFlash, s1)"
    "bio_hw s1 = (bio_hw s)\<lparr>bn_reads := Some k, bn_torn := False,
       bn_mem := store_bytes (bn_mem (bio_hw s)) (unat APP_SLOT_BASE) (take 16 demo_image)\<rparr>"
proof -
  let ?s = "io_progress demo_io Flash 0 32 (s\<lparr>bio_hw := (bio_hw s)\<lparr>bn_reads := Some k\<rparr>\<rparr>)"
  have hs: "bio_hw ?s = (bio_hw s)\<lparr>bn_reads := Some k\<rparr>" by (simp add: demo_progress)
  define s1 where "s1 = ?s\<lparr>bio_hw := (bio_hw ?s)\<lparr>bn_torn := False,
      bn_mem := store_bytes (bn_mem (bio_hw s)) (unat APP_SLOT_BASE) (take 16 demo_image)\<rparr>\<rparr>"
  have wr: "io_write_lines demo_io APP_SLOT_BASE demo_image ?s = (Inl IoError, s1)"
    using hs assms(3)
    by (simp add: demo_io_def boot_io_def bio_write_lines_def lift_hw_def bench_hw_def bench_write_def
        s1_def RRAM_LINE_LEN_def)
  have "flash_loop demo_io app_slot 4096 32 (demo_stream 64) 0 ?s = (Inl PassFlash, s1)"
    using wr padded_32
    by (simp add: flash_loop.simps demo_fill_image pad_len_def app_slot_def)
  then have "flash_pass demo_io demo_ref app_slot 4096 s = (Inl PassFlash, s1)"
    using demo_fill_header [OF assms(1)] assms(2) by (simp add: flash_pass_def HEADER_LEN_def Let_def)
  then show thesis using that hs by (simp add: s1_def)
qed

lemma demo_run:
  obtains s2 where "run demo_armed app_slot demo_io 4096 (boot_io_new (demo_bench demo_armed (Some 2) True))
      = (OSdError False, s2)"
    "bio_hw s2 = (demo_bench demo_armed (Some 0) False)\<lparr>bn_mem :=
       store_bytes (demo_mem demo_armed) (unat APP_SLOT_BASE) (take 16 demo_image)\<rparr>"
proof -
  let ?s = "boot_io_new (demo_bench demo_armed (Some 2) True)"
  have s: "bn_blocks (bio_hw ?s) = demo_blocks" "bn_reads (bio_hw ?s) = Some (Suc 1)"
    by (simp_all add: boot_io_new_def demo_bench_def)
  obtain s1 where v: "verify demo_io demo_ref app_slot 4096 ?s = (Inr (), s1)"
    and h1: "bio_hw s1 = (bio_hw ?s)\<lparr>bn_reads := Some 1\<rparr>"
    using demo_verify [OF s] by blast
  obtain s2 where f: "flash_pass demo_io demo_ref app_slot 4096 s1 = (Inl PassFlash, s2)"
    and h2: "bio_hw s2 = (bio_hw s1)\<lparr>bn_reads := Some 0, bn_torn := False,
       bn_mem := store_bytes (bn_mem (bio_hw s1)) (unat APP_SLOT_BASE) (take 16 demo_image)\<rparr>"
    using demo_flash_torn [of s1 0] h1 s by (auto simp: boot_io_new_def demo_bench_def)
  have "fill demo_io (stream_new (sr_extents demo_ref)) 64 s2 = (Inl StreamIo, s2)"
    using demo_fill_header [of s2] h2 h1 s by simp
  then have f2: "flash_pass demo_io demo_ref app_slot 4096 s2 = (Inl PassSd, s2)"
    by (simp add: flash_pass_def HEADER_LEN_def Let_def)
  have "flash_verified demo_io demo_ref app_slot 4096 s1 = (Inl PassSd, s2)"
    using f f2 by (simp add: flash_verified_def flash_attempt_def FLASH_RETRIES_def numeral_eq_Suc)
  then have "run demo_armed app_slot demo_io 4096 ?s = (OSdError False, s2)"
    using v by (simp add: run_def demo_armed_def install_pipeline_def Let_def SD_BLOCK_LEN_def)
  then show thesis using that h1 h2 by (simp add: boot_io_new_def demo_bench_def)
qed

lemma demo_midflash:
  "run_once bench_hw demo_armed True (demo_bench demo_armed (Some 2) True) =
    (OSdError False, (demo_bench demo_armed (Some 0) False)\<lparr>bn_mem :=
       store_bytes (demo_mem demo_armed) (unat APP_SLOT_BASE) (take 16 demo_image)\<rparr>)"
  by (rule demo_run) (simp add: run_once_def demo_io_def INSTALL_BUF_LEN_def)

lemma page_bytes_fit: "wf_state st \<Longrightarrow> length (as_bytes (state_encode st)) \<le> 304"
  using length_as_bytes blob_size_bounds(2) by simp

lemma bench_span: "mem_span bench_hw h a n = map (bn_mem h) [a..<a + n]"
  by (simp add: mem_span_def bench_hw_def)

lemma bench_span_prefix:
  assumes "bn_mem h = store_bytes m a d" and "length d \<le> n"
  shows "mem_span bench_hw h a n = d @ map m [a + length d..<a + n]"
  unfolding bench_span assms(1) by (rule store_prefix [OF assms(2)])

lemma bench_span_outside:
  assumes "bn_mem h = store_bytes m b d" and "a + n \<le> b \<or> b + length d \<le> a"
  shows "mem_span bench_hw h a n = map m [a..<a + n]"
  unfolding bench_span assms(1) by (rule store_outside [OF assms(2)])

lemma stored_page:
  assumes "wf_state st" and "bn_mem h = store_bytes m (unat BOOT_STATE_BASE) (as_bytes (state_encode st))"
  shows "state_decode (boot_state_page bench_hw h) = st"
proof -
  have len: "length (as_bytes (state_encode st)) \<le> PAGE_LEN"
    using page_bytes_fit [OF assms(1)] by (simp add: PAGE_LEN_def)
  show ?thesis
    unfolding boot_state_page_def bench_span_prefix [OF assms(2) len] by (rule state_decode_eq [OF assms(1)])
qed

lemma demo_blob_stage: "encode_stage_header demo_blob = Some (the (encode_stage_header demo_blob))"
  "length (the (encode_stage_header demo_blob)) = 16" "length demo_blob = 32"
proof -
  show len: "length demo_blob = 32" by (simp add: demo_blob_def)
  then have "demo_blob \<noteq> []" by auto
  then show "encode_stage_header demo_blob = Some (the (encode_stage_header demo_blob))"
    by (simp add: encode_stage_header_def len fmt_consts Let_def)
  then show "length (the (encode_stage_header demo_blob)) = 16" by (rule length_stage_header)
qed

lemma demo_state:
  assumes "wf_state st"
  shows "state_decode (boot_state_page bench_hw (demo_bench st r t)) = st"
proof -
  define m where "m = store_bytes (\<lambda>k. 0xFF) (unat BOOT_STATE_BASE) (as_bytes (state_encode st))"
  have le: "unat SEMMC_STAGE_BASE + length (the (encode_stage_header demo_blob) @ demo_blob) \<le> unat BOOT_STATE_BASE"
    by (simp add: demo_blob_stage(2,3) layout_bounds)
  have "bn_mem (demo_bench st r t) = store_bytes m (unat SEMMC_STAGE_BASE) (the (encode_stage_header demo_blob) @ demo_blob)"
    by (simp add: demo_bench_def demo_mem_def m_def)
  note bench_span_outside [OF this disjI2 [OF le], of PAGE_LEN]
  then have "boot_state_page bench_hw (demo_bench st r t) = map m [unat BOOT_STATE_BASE..<unat BOOT_STATE_BASE + PAGE_LEN]"
    by (simp add: boot_state_page_def)
  also have "\<dots> = boot_state_page bench_hw ((demo_bench st r t)\<lparr>bn_mem := m\<rparr>)"
    by (simp add: boot_state_page_def bench_span)
  finally show ?thesis using stored_page [OF assms, of "(demo_bench st r t)\<lparr>bn_mem := m\<rparr>"] by (simp add: m_def)
qed

lemma demo_geometry: "sp_geometry demo_blob SEMMC_RAM_CARVE \<noteq> None"
proof -
  have at: "u32_at demo_blob 0 = 0x0012A005" "u32_at demo_blob 4 = 0xE33C" "u32_at demo_blob 12 = 0x00010002"
    "u32_at demo_blob 24 = 1"
    by (simp_all add: u32_at_def demo_blob_def slice_appends)
  show ?thesis
    by (simp add: sp_geometry_def at Let_def demo_blob_stage(3) SP_ID_SEMMC_def SEMMC_RAM_CARVE_def)
qed

lemma demo_carve:
  "validate_stage (mem_span bench_hw (demo_bench st r t) (unat SEMMC_STAGE_BASE) STAGE_LEN) = Some demo_blob"
proof -
  let ?hb = "the (encode_stage_header demo_blob) @ demo_blob"
  have len: "length ?hb \<le> STAGE_LEN" by (simp add: demo_blob_stage(2,3) STAGE_LEN_def)
  have "bn_mem (demo_bench st r t) = store_bytes
      (store_bytes (\<lambda>k. 0xFF) (unat BOOT_STATE_BASE) (as_bytes (state_encode st))) (unat SEMMC_STAGE_BASE) ?hb"
    by (simp add: demo_bench_def demo_mem_def)
  from bench_span_prefix [OF this len] show ?thesis
    using validate_stage_encoded [OF demo_blob_stage(1)] by simp
qed

lemma demo_staged: "staged_blob bench_hw (demo_bench st r t) \<noteq> None"
  using demo_geometry by (auto simp: staged_blob_def demo_carve)

lemma slot_head: "n \<le> 2023424 \<Longrightarrow> take n (app_slot_bytes hw h) = mem_span hw h (unat APP_SLOT_BASE) n"
  using mem_span_slice [of 0 n "unat (slot_len app_slot)" hw h "unat APP_SLOT_BASE"]
  by (simp add: app_slot_bytes_def slice_def layout_bounds(2))

lemma demo_blank:
  assumes "unat APP_SLOT_BASE \<le> a" and "a + n \<le> unat APP_SLOT_BASE + 32"
  shows "map (demo_mem st) [a..<a + n] = replicate n 0xFF"
  using assms
  by (intro nth_equalityI) (simp_all add: demo_mem_def store_bytes_def layout_bounds)

lemma bench_dead_laps:
  "bn_reads h = Some 0 \<Longrightarrow> rounds + n = ARM_ABANDON_ROUNDS \<Longrightarrow> 0 < n \<Longrightarrow>
   boot_loop n bench_hw st True True backoff rounds h = Some (abandon bench_hw st h)"
proof (induction n arbitrary: backoff rounds)
  case (Suc n)
  then show ?case by (cases n) (auto simp: bench_hw_def back_off_def Let_def)
qed simp

lemma h'_slot:
  assumes "h' = h1\<lparr>bn_mem := store_bytes (bn_mem h1) (unat BOOT_STATE_BASE) d\<rparr>"
    and "h1 = b\<lparr>bn_mem := store_bytes (demo_mem st) (unat APP_SLOT_BASE) (take 16 demo_image)\<rparr>"
  shows "mem_span bench_hw h' (unat APP_SLOT_BASE) 32 = take 16 demo_image @ replicate 16 0xFF"
proof -
  have "mem_span bench_hw h' (unat APP_SLOT_BASE) 32 = mem_span bench_hw h1 (unat APP_SLOT_BASE) 32"
    using bench_span_outside [of h' "bn_mem h1" "unat BOOT_STATE_BASE" d "unat APP_SLOT_BASE" 32]
    by (simp add: assms(1) bench_span [of h1] layout_bounds)
  also have "\<dots> = take 16 demo_image @ map (demo_mem st) [unat APP_SLOT_BASE + 16..<(unat APP_SLOT_BASE + 16) + 16]"
    using bench_span_prefix [of h1 "demo_mem st" "unat APP_SLOT_BASE" "take 16 demo_image" 32]
    by (simp add: assms(2) add.commute)
  finally show ?thesis using demo_blank [of "unat APP_SLOT_BASE + 16" 16 st] by simp
qed

text \<open>The bench without faults: an unconfirmed trial that rolls back to the image on the card.\<close>

definition demo_trial :: boot_state where "demo_trial = Trial 1 demo_header (Some demo_ref)"

lemma demo_trial_wf: "wf_state demo_trial" "decide demo_trial = Rollback demo_ref demo_header 1"
  "target demo_trial = Some (demo_ref,
     Idle (Some demo_header) (Some \<lparr>lo_kind = OutcomeRolledBack, lo_generation = 1\<rparr>))"
  by (simp_all add: demo_trial_def wf_staged_def fmt_consts)

lemma fine_ok: "dv_ok (boot_view bench_hw bench_fine bn_blocks) (boot_io_new (demo_bench st None False))"
  "dv_card (boot_view bench_hw bench_fine bn_blocks) (boot_io_new (demo_bench st None False)) = demo_blocks"
  by (simp_all add: boot_view_def boot_io_new_def demo_good(2)) (simp add: demo_bench_def)

lemma demo_installs:
  assumes "wf_state st" and "target st = Some (demo_ref, succ)"
  shows "\<exists>s'. run st app_slot demo_io 4096 (boot_io_new (demo_bench st None False)) = (OInstalled, s')"
  using fine_dev.run_total [OF fine_ok(1) assms demo_armed_wf(3), of st 4096] demo_stage_valid
  by (auto simp: demo_io_def fine_ok(2) SD_BLOCK_LEN_def)

lemma demo_rollback: "\<exists>h'. boot 1 bench_hw (demo_bench demo_trial None False) = Some (JumpToApp, h')"
proof -
  let ?b = "demo_bench demo_trial None False"
  obtain s' where "run demo_trial app_slot demo_io 4096 (boot_io_new ?b) = (OInstalled, s')"
    using demo_installs [OF demo_trial_wf(1,3)] by blast
  then have "run_once bench_hw demo_trial True ?b = (OInstalled, bio_hw s')"
    by (simp add: run_once_def demo_io_def INSTALL_BUF_LEN_def)
  moreover have "hw_try_init bench_hw ?b = (True, ?b)" by (simp add: bench_hw_def demo_bench_def)
  ultimately have "boot_loop 1 bench_hw demo_trial False True BACKOFF_MIN_MS 0 ?b = Some (OInstalled, bio_hw s')"
    by (simp only: One_nat_def boot_loop.simps(2)) simp
  then show ?thesis
    using demo_staged [of demo_trial None False]
    by (auto simp: boot_def demo_state [OF demo_trial_wf(1)] demo_trial_wf(2) needs_card_def is_install_def
        bench_quiet Let_def)
qed

text \<open>The bench with a card that never comes up.\<close>

definition dead_hw :: "bench boot_hw" where
  "dead_hw = bench_hw\<lparr>hw_try_init := \<lambda>h. (False, h)\<rparr>"

interpretation dead: boot_hardware dead_hw bench_good bn_blocks
proof (unfold_locales, goal_cases)
  case (11 h n a r h')
  then show ?case
    by (auto simp: dead_hw_def bench_hw_def bench_read_def same_hw_def bench_good_def split: if_splits)
next
  case (13 h a data rw h')
  then show ?case
    using store_span [of "bn_mem h" "unat a" data]
    by (auto simp: dead_hw_def bench_hw_def bench_write_def bench_good_def mem_span_def store_bytes_def
        split: if_splits)
qed (auto simp: dead_hw_def bench_hw_def same_hw_def bench_good_def mem_span_def)

lemma dead_state: "state_decode (boot_state_page dead_hw (demo_bench demo_armed None False)) = Armed 1 demo_ref None"
proof -
  have "boot_state_page dead_hw h = boot_state_page bench_hw h" for h
    by (simp add: boot_state_page_def mem_span_def dead_hw_def)
  then show ?thesis using demo_state [OF demo_armed_wf(1)] by (simp add: demo_armed_def)
qed

subsection \<open>Properties\<close>

text \<open>Instances of the engine's properties on the bench.\<close>

theorem engine_run_safe_witness:
  "\<exists>s'. run demo_armed app_slot demo_io 4096 (boot_io_new (demo_bench demo_armed (Some 2) True)) = (OSdError False, s')
     \<and> boot_state_page bench_hw (bio_hw s') = boot_state_page bench_hw (demo_bench demo_armed (Some 2) True)"
proof (rule demo_run)
  let ?s = "boot_io_new (demo_bench demo_armed (Some 2) True)"
  fix s2 assume r: "run demo_armed app_slot demo_io 4096 ?s = (OSdError False, s2)"
  have "install_device demo_io app_slot (boot_view bench_hw bench_good bn_blocks)"
    using bench.boot_io_honest [of True] by (simp add: honest_device_def demo_io_def)
  moreover have "dv_ok (boot_view bench_hw bench_good bn_blocks) ?s"
    by (simp add: boot_view_def boot_io_new_def demo_good(1))
  ultimately have "dv_page (boot_view bench_hw bench_good bn_blocks) s2 = dv_page (boot_view bench_hw bench_good bn_blocks) ?s"
    using engine_run_safe [OF _ _ demo_armed_wf(1) r] by blast
  then show ?thesis using r by (auto simp: boot_view_def boot_io_new_def)
qed

theorem engine_installs_the_image_witness:
  "\<exists>s'. run demo_armed app_slot demo_io 4096 (boot_io_new (demo_bench demo_armed None False)) = (OInstalled, s')
     \<and> take 32 (app_slot_bytes bench_hw (bio_hw s')) = demo_image"
proof -
  let ?s = "boot_io_new (demo_bench demo_armed None False)" and ?v = "boot_view bench_hw bench_fine bn_blocks"
  obtain s' where r: "run demo_armed app_slot demo_io 4096 ?s = (OInstalled, s')"
    using demo_installs [OF demo_armed_wf(1,2)] by blast
  have "honest_device demo_io app_slot ?v" using fine.boot_io_honest [of True] by (simp add: demo_io_def)
  then have "dv_slot ?v s' = staged_image demo_blocks demo_ref @ replicate (pad_len 32 - 32) PAD_BYTE @ drop (pad_len 32) (dv_slot ?v ?s)"
    using engine_installs_the_image [OF _ fine_ok(1) demo_armed_wf(1,2,3) r] by (simp add: fine_ok(2))
  moreover have "staged_image demo_blocks demo_ref = demo_image"
    by (simp add: staged_image_def demo_chain [simplified] HEADER_LEN_def slice_def)
  ultimately show ?thesis using r by (auto simp: boot_view_def app_slot_bytes_def)
qed

theorem engine_installs_when_healthy_witness:
  "\<exists>s'. run demo_trial app_slot demo_io 4096 (boot_io_new (demo_bench demo_trial None False)) = (OInstalled, s')
     \<and> state_decode (boot_state_page bench_hw (bio_hw s')) =
         Idle (Some demo_header) (Some \<lparr>lo_kind = OutcomeRolledBack, lo_generation = 1\<rparr>)"
proof -
  have "faultless_device demo_io app_slot (boot_view bench_hw bench_fine bn_blocks)"
    unfolding demo_io_def by (rule fine_dev.faultless_device_axioms)
  from engine_installs_when_healthy [OF this fine_ok(1) demo_trial_wf(1,3) demo_armed_wf(3), of demo_trial 4096]
  show ?thesis using demo_stage_valid by (simp add: fine_ok(2) SD_BLOCK_LEN_def) (auto simp: boot_view_def)
qed

text \<open>
  C30: the bootloader's device adapter keeps the engine's contract: over RRAM and card drivers with
  their documented behaviour, \<open>BootIo\<close> with or without a card is an honest install device for the
  app slot and the state page of the memory map.
\<close>

theorem boot_io_contract:
  assumes "boot_hardware hw good blocks"
  shows "honest_device (boot_io hw sd BOOT_STATE_BASE) app_slot (boot_view hw good blocks)"
  by (rule boot_hardware.boot_io_honest [OF assms])

theorem boot_io_contract_witness:
  "honest_device (boot_io bench_hw True BOOT_STATE_BASE) app_slot (boot_view bench_hw bench_good bn_blocks)"
  by (rule boot_io_contract [OF bench.boot_hardware_axioms])



text \<open>
  C25: an armed device whose card never comes up is not stranded: after ten laps of the retry loop
  the arm is abandoned and the boot jumps, with the slot untouched; and when the RRAM takes the page
  write, the page holds the idle state that names the outgoing image and records the abandoned arm.
\<close>

theorem boot_abandons_dead_card:
  assumes "boot_hardware hw good blocks" and "good h"
    and "state_decode (boot_state_page hw h) = Armed g u r"
    and "\<forall>h. fst (hw_try_init hw h) = False" and "ARM_ABANDON_ROUNDS \<le> laps"
  shows "\<exists>h'. boot laps hw h = Some (JumpToApp, h') \<and> app_slot_bytes hw h' = app_slot_bytes hw h
    \<and> ((\<forall>a d h. fst (hw_rram_write hw a d h) = Inr ()) \<longrightarrow> state_decode (boot_state_page hw h') =
         Idle (map_option sr_header r) (Some \<lparr>lo_kind = OutcomeArmAbandoned, lo_generation = g\<rparr>))"
  using assms boot_hardware.boot_dead_card [OF assms(1)] by blast

theorem boot_abandons_dead_card_witness:
  "\<exists>h'. boot 10 dead_hw (demo_bench demo_armed None False) = Some (JumpToApp, h')"
  using boot_abandons_dead_card [OF dead.boot_hardware_axioms demo_good(1) dead_state, of 10]
  by (auto simp: dead_hw_def ARM_ABANDON_ROUNDS_def)

text \<open>
  C24: the bound of C15 is needed, and the code does not have it. When the card dies after the flash
  pass of an update has begun, the next laps fail at card bring-up, which the loop counts as failures
  before the erase; after ten of them the arm is abandoned and the boot jumps into a slot that holds
  half of the new image. The bench run below starts armed with a valid stage and ends idle, jumping,
  with the first line of the slot overwritten and the second one blank.
\<close>

theorem boot_abandons_half_written_slot:
  "\<exists>h'. boot 11 bench_hw (demo_bench demo_armed (Some 2) True) = Some (JumpToApp, h')
     \<and> state_decode (boot_state_page bench_hw (demo_bench demo_armed (Some 2) True)) = demo_armed
     \<and> stage_valid (bn_blocks (demo_bench demo_armed (Some 2) True)) app_slot demo_ref
     \<and> state_decode (boot_state_page bench_hw h') =
         Idle None (Some \<lparr>lo_kind = OutcomeArmAbandoned, lo_generation = 1\<rparr>)
     \<and> take 32 (app_slot_bytes bench_hw (demo_bench demo_armed (Some 2) True)) = replicate 32 0xFF
     \<and> take 32 (app_slot_bytes bench_hw h') = take 16 demo_image @ replicate 16 0xFF"
proof -
  let ?b = "demo_bench demo_armed (Some 2) True"
  define h1 where "h1 = (demo_bench demo_armed (Some 0) False)\<lparr>bn_mem :=
       store_bytes (demo_mem demo_armed) (unat APP_SLOT_BASE) (take 16 demo_image)\<rparr>"
  define idle where "idle = Idle None (Some \<lparr>lo_kind = OutcomeArmAbandoned, lo_generation = 1\<rparr>)"
  define h' where "h' = h1\<lparr>bn_mem := store_bytes (bn_mem h1) (unat BOOT_STATE_BASE) (as_bytes (state_encode idle))\<rparr>"
  have ab: "abandon bench_hw demo_armed h1 = (OArmAbandoned, h')"
    by (simp add: abandon_def demo_armed_def boot_io_new_def boot_io_def bio_write_state_def lift_hw_def
        bench_hw_def bench_write_def h'_def h1_def demo_bench_def idle_def Let_def)
  have "boot_loop 10 bench_hw demo_armed True True (next_backoff BACKOFF_MIN_MS) 0 h1 = Some (OArmAbandoned, h')"
    using bench_dead_laps [of h1 0 10] ab by (simp add: h1_def demo_bench_def ARM_ABANDON_ROUNDS_def)
  moreover have "back_off bench_hw b h = h" for b h by (simp add: back_off_def bench_hw_def)
  moreover have "hw_try_init bench_hw ?b = (True, ?b)" by (simp add: bench_hw_def demo_bench_def)
  ultimately have "boot_loop (Suc 10) bench_hw demo_armed True True BACKOFF_MIN_MS 0 ?b = Some (OArmAbandoned, h')"
    unfolding boot_loop.simps(2) using demo_midflash h1_def by (simp add: Let_def)
  then have "boot 11 bench_hw ?b = Some (JumpToApp, h')"
    using demo_staged [of demo_armed "Some 2" True]
    by (auto simp: boot_def demo_state [OF demo_armed_wf(1)] demo_decide needs_card_def is_install_def
        bench_quiet Let_def)
  moreover have "state_decode (boot_state_page bench_hw h') = idle"
    by (rule stored_page [of _ _ "bn_mem h1"]) (simp_all add: idle_def h'_def)
  moreover have "take 32 (app_slot_bytes bench_hw ?b) = replicate 32 0xFF"
    using demo_blank [of "unat APP_SLOT_BASE" 32 demo_armed] by (simp add: slot_head bench_span demo_bench_def)
  moreover have "take 32 (app_slot_bytes bench_hw h') = take 16 demo_image @ replicate 16 0xFF"
    by (simp add: slot_head h'_slot [OF h'_def h1_def])
  ultimately show ?thesis
    using demo_state [OF demo_armed_wf(1)] demo_stage_valid by (auto simp: idle_def demo_bench_def)
qed

end
