(* ===== verification/Dfu_Armer.thy ===== *)
theory Dfu_Armer
  imports Dfu_Engine
begin

text \<open>
  The application's side of an update: the streaming signature verifier of
  \<open>firmware/obc-dfu/src/sig.rs\<close> and the scan, arm and confirm of \<open>armer.rs\<close>.

  Ed25519 comes from the \<open>ed25519-compact\<close> crate. Its incremental interface is a record of
  operations on a verifier state, and the locale \<open>ed25519_incremental\<close> states what the crate
  documents: verifying after absorbing some chunks checks the signature over their concatenation.
  The board's access to the staged object is a record too; \<open>stable_stage\<close> says that a successful
  read returns the bytes of the object at that offset.
\<close>

subsection \<open>The verifier: sig.rs\<close>

datatype ed_error = WeakPublicKey | InvalidPublicKey | OtherEdError

record 'v ed25519 =
  ed_verify_incremental :: "bytes \<Rightarrow> bytes \<Rightarrow> ed_error + 'v"
  ed_absorb :: "'v \<Rightarrow> bytes \<Rightarrow> 'v"
  ed_verify :: "'v \<Rightarrow> bool"

datatype sig_error = BadSigLen | Malformed | BadKey | SigMismatch

definition verifier_new :: "'v ed25519 \<Rightarrow> bytes \<Rightarrow> image_header \<Rightarrow> bytes \<Rightarrow> sig_error + 'v" where
  "verifier_new ed key header signature =
     (if length signature \<noteq> SIG_LEN then Inl BadSigLen
      else
        bindE (map_errE (\<lambda>e. case e of WeakPublicKey \<Rightarrow> BadKey | InvalidPublicKey \<Rightarrow> BadKey | _ \<Rightarrow> Malformed)
                 (ed_verify_incremental ed key signature))
          (\<lambda>state. Inr (ed_absorb ed state (signing_prefix header))))"

definition verifier_absorb :: "'v ed25519 \<Rightarrow> 'v \<Rightarrow> bytes \<Rightarrow> 'v" where
  "verifier_absorb ed state chunk = ed_absorb ed state chunk"

definition verifier_finish :: "'v ed25519 \<Rightarrow> 'v \<Rightarrow> sig_error + unit" where
  "verifier_finish ed state = (if ed_verify ed state then Inr () else Inl SigMismatch)"

definition verify_image :: "'v ed25519 \<Rightarrow> bytes \<Rightarrow> image_header \<Rightarrow> bytes \<Rightarrow> bytes \<Rightarrow> sig_error + unit" where
  "verify_image ed key header img signature =
     bindE (verifier_new ed key header signature) (\<lambda>v. verifier_finish ed (verifier_absorb ed v img))"

subsection \<open>The scan: armer.rs\<close>

datatype scan_error = ScanMissing | ScanTruncated | ScanBadHeader | ScanBadCrc | ScanUnsigned
  | ScanBadSignature | ScanOversize | ScanIo

record 's stage_io =
  stage_len :: "'s \<Rightarrow> u32 option \<times> 's"
  read_stage :: "u32 \<Rightarrow> nat \<Rightarrow> 's \<Rightarrow> (io_error + bytes) \<times> 's"
  stage_extents :: "'s \<Rightarrow> (io_error + extent list \<times> nat) \<times> 's"

text \<open>
  The streaming loop: every chunk feeds the CRC and the verifier. \<open>stage_extents\<close> above returns the
  eight-entry table and the count it reports.
\<close>

function scan_loop :: "'v ed25519 \<Rightarrow> 's stage_io \<Rightarrow> nat \<Rightarrow> nat \<Rightarrow> crc32_hasher \<Rightarrow> 'v \<Rightarrow> nat \<Rightarrow> 's
    \<Rightarrow> (scan_error + crc32_hasher \<times> 'v) \<times> 's" where
  "scan_loop ed io chunk_len len crc ver done s =
     (if len \<le> done \<or> chunk_len = 0 then (Inr (crc, ver), s)
      else
        let n = min chunk_len (len - done) in
        case read_stage io (of_nat (HEADER_LEN + done)) n s of
          (Inl _, s1) \<Rightarrow> (Inl ScanIo, s1)
        | (Inr bs, s1) \<Rightarrow>
            scan_loop ed io chunk_len len (crc_update crc bs) (verifier_absorb ed ver bs) (done + n) s1)"
  by pat_completeness auto
termination
  by (relation "measure (\<lambda>(ed, io, chunk_len, len, crc, ver, done, s). len - done)") auto

declare scan_loop.simps [simp del]

text \<open>The tail of the scan, after the body streamed through: CRC, signature, extents.\<close>

definition scan_finish :: "'v ed25519 \<Rightarrow> 's stage_io \<Rightarrow> image_header \<Rightarrow> crc32_hasher \<Rightarrow> 'v \<Rightarrow> 's
    \<Rightarrow> (scan_error + staged_ref) \<times> 's" where
  "scan_finish ed io header crc ver s =
     (if finalize crc \<noteq> image_crc32 header then (Inl ScanBadCrc, s)
      else if verifier_finish ed ver \<noteq> Inr () then (Inl ScanBadSignature, s)
      else
        case stage_extents io s of
          (Inl _, s1) \<Rightarrow> (Inl ScanIo, s1)
        | (Inr (extents, count), s1) \<Rightarrow>
            (ok_or (Option.bind (get_range extents 0 count)
               (\<lambda>es. staged_new header (image_len header) (image_crc32 header) es)) ScanIo, s1))"

text \<open>The streaming pass, behind the header and size gates: trailer, verifier, body.\<close>

definition scan_body :: "'v ed25519 \<Rightarrow> 's stage_io \<Rightarrow> nat \<Rightarrow> bytes \<Rightarrow> image_header \<Rightarrow> 's
    \<Rightarrow> (scan_error + staged_ref) \<times> 's" where
  "scan_body ed io chunk_len key header s =
     (case read_stage io (of_nat (sig_offset header)) SIG_LEN s of
        (Inl _, s1) \<Rightarrow> (Inl ScanIo, s1)
      | (Inr signature, s1) \<Rightarrow>
          case verifier_new ed key header signature of
            Inl _ \<Rightarrow> (Inl ScanBadSignature, s1)
          | Inr ver \<Rightarrow>
              case scan_loop ed io chunk_len (unat (image_len header)) crc_new ver 0 s1 of
                (Inl e, s2) \<Rightarrow> (Inl e, s2)
              | (Inr (crc, ver), s2) \<Rightarrow> scan_finish ed io header crc ver s2)"

definition scan :: "'v ed25519 \<Rightarrow> 's stage_io \<Rightarrow> nat \<Rightarrow> bytes \<Rightarrow> 's \<Rightarrow> (scan_error + staged_ref) \<times> 's" where
  "scan ed io chunk_len key s =
     (case stage_len io s of
        (None, s1) \<Rightarrow> (Inl ScanMissing, s1)
      | (Some file_len, s1) \<Rightarrow>
          if unat file_len < HEADER_LEN then (Inl ScanTruncated, s1)
          else
            case read_stage io 0 HEADER_LEN s1 of
              (Inl _, s2) \<Rightarrow> (Inl ScanIo, s2)
            | (Inr hdr, s2) \<Rightarrow>
                case header_decode hdr of
                  None \<Rightarrow> (Inl ScanBadHeader, s2)
                | Some header \<Rightarrow>
                    if image_len header = 0 \<or> image_len header > MAX_IMAGE_LEN then (Inl ScanOversize, s2)
                    else if sig_scheme header \<noteq> SIG_SCHEME_ED25519 \<or> unat (sig_len header) \<noteq> SIG_LEN
                    then (Inl ScanUnsigned, s2)
                    else if unat file_len < container_len header then (Inl ScanTruncated, s2)
                    else scan_body ed io chunk_len key header s2)"

subsection \<open>Arm and confirm\<close>

datatype rollback_kind = Snapshot | FirstInstall | RunningMismatch

record arm_ticket =
  ticket_generation :: u32
  ticket_rollback :: rollback_kind

datatype arm_error = BlobStage | StateWrite

record 's arm_io =
  stage_boot_blob :: "'s \<Rightarrow> (io_error + unit) \<times> 's"
  arm_write_state :: "boot_state \<Rightarrow> 's \<Rightarrow> (io_error + unit) \<times> 's"

definition arm :: "'s arm_io \<Rightarrow> boot_state \<Rightarrow> staged_ref \<Rightarrow> staged_ref option \<Rightarrow> 's
    \<Rightarrow> (arm_error + arm_ticket) \<times> 's" where
  "arm io current update rollback s =
     (let installed = (case current of Idle i _ \<Rightarrow> i | _ \<Rightarrow> None);
          kind = (case (installed, rollback) of
                    (None, _) \<Rightarrow> FirstInstall
                  | (Some _, Some _) \<Rightarrow> Snapshot
                  | (Some _, None) \<Rightarrow> RunningMismatch);
          rollback = (case installed of None \<Rightarrow> None | Some _ \<Rightarrow> rollback) in
      case stage_boot_blob io s of
        (Inl _, s1) \<Rightarrow> (Inl BlobStage, s1)
      | (Inr _, s1) \<Rightarrow>
          let g = generation current + 1 in
          case arm_write_state io (Armed g update rollback) s1 of
            (Inl _, s2) \<Rightarrow> (Inl StateWrite, s2)
          | (Inr _, s2) \<Rightarrow> (Inr \<lparr>ticket_generation = g, ticket_rollback = kind\<rparr>, s2))"

fun confirm_trial :: "boot_state \<Rightarrow> (boot_state \<times> image_header) option" where
  "confirm_trial (Trial g installed r) =
     Some (Idle (Some installed) (Some \<lparr>lo_kind = OutcomeInstalled, lo_generation = g\<rparr>), installed)"
| "confirm_trial (Idle _ _) = None"
| "confirm_trial (Armed _ _ _) = None"

subsection \<open>What the scan relies on\<close>

locale ed25519_incremental =
  fixes ed :: "'v ed25519" and sig_ok :: "bytes \<Rightarrow> bytes \<Rightarrow> bytes \<Rightarrow> bool"
  assumes incremental: "ed_verify_incremental ed key sig = Inr v0 \<Longrightarrow>
    ed_verify ed (fold (\<lambda>c v. ed_absorb ed v c) chunks v0) = sig_ok key sig (concat chunks)"

locale stable_stage =
  fixes io :: "'s stage_io" and stage :: "'s \<Rightarrow> bytes" and good :: "'s \<Rightarrow> bool"
  assumes len_law: "good s \<Longrightarrow> stage_len io s = (r, s') \<Longrightarrow>
      good s' \<and> stage s' = stage s \<and> (\<forall>n. r = Some n \<longrightarrow> unat n = length (stage s))"
    and read_law: "good s \<Longrightarrow> unat off + n \<le> length (stage s) \<Longrightarrow> read_stage io off n s = (rb, s') \<Longrightarrow>
      good s' \<and> stage s' = stage s \<and> (\<forall>bs. rb = Inr bs \<longrightarrow> bs = slice (unat off) n (stage s))"
    and extents_law: "good s \<Longrightarrow> stage_extents io s = (re, s') \<Longrightarrow> good s' \<and> stage s' = stage s"

text \<open>The stream's bytes went through the CRC and the verifier, in some chunks.\<close>

definition absorbed :: "'v ed25519 \<Rightarrow> bytes \<Rightarrow> crc32_hasher \<Rightarrow> 'v \<Rightarrow> crc32_hasher \<times> 'v \<Rightarrow> bool" where
  "absorbed ed data crc ver r \<longleftrightarrow> (\<exists>cs. concat cs = data \<and> fst r = crc_update crc data
     \<and> snd r = fold (\<lambda>c v. ed_absorb ed v c) cs ver)"

lemma absorbed_Nil: "absorbed ed [] crc ver (crc, ver)"
  unfolding absorbed_def by (rule exI [of _ "[]"]) simp

lemma absorbed_append:
  assumes "absorbed ed data (crc_update crc bs) (verifier_absorb ed ver bs) r"
  shows "absorbed ed (bs @ data) crc ver r"
proof -
  obtain cs where "concat cs = data" "fst r = crc_update (crc_update crc bs) data"
    "snd r = fold (\<lambda>c v. ed_absorb ed v c) cs (verifier_absorb ed ver bs)"
    using assms by (auto simp: absorbed_def)
  then show ?thesis
    unfolding absorbed_def by (intro exI [of _ "bs # cs"]) (simp add: crc_update_append verifier_absorb_def)
qed

text \<open>A container this device installs: header, size, scheme, length, CRC and signature.\<close>

definition container_ok :: "(bytes \<Rightarrow> bytes \<Rightarrow> bytes \<Rightarrow> bool) \<Rightarrow> bytes \<Rightarrow> bytes \<Rightarrow> image_header \<Rightarrow> bool" where
  "container_ok sig_ok key file h \<longleftrightarrow>
     HEADER_LEN \<le> length file \<and> header_decode (take HEADER_LEN file) = Some h
     \<and> image_len h \<noteq> 0 \<and> image_len h \<le> MAX_IMAGE_LEN
     \<and> sig_scheme h = SIG_SCHEME_ED25519 \<and> unat (sig_len h) = SIG_LEN
     \<and> container_len h \<le> length file
     \<and> crc32 (slice HEADER_LEN (unat (image_len h)) file) = image_crc32 h
     \<and> sig_ok key (slice (sig_offset h) SIG_LEN file)
         (signing_prefix h @ slice HEADER_LEN (unat (image_len h)) file)"

lemma staged_new_wf:
  "staged_new h l c es = Some ref \<Longrightarrow> wf_header h \<Longrightarrow> wf_staged ref \<and> sr_header ref = h"
  by (auto simp: staged_new_def wf_staged_def split: if_splits)

lemma header_offsets:
  assumes "image_len h \<le> MAX_IMAGE_LEN"
  shows "HEADER_LEN + unat (image_len h) < 2 ^ 32" "unat (of_nat (sig_offset h) :: u32) = sig_offset h"
proof -
  have "unat (image_len h) \<le> 2023424" using assms max_image_len by (simp add: word_le_nat_alt)
  then show lt: "HEADER_LEN + unat (image_len h) < 2 ^ 32" by (simp add: HEADER_LEN_def)
  then show "unat (of_nat (sig_offset h) :: u32) = sig_offset h"
    unfolding sig_offset_def by (intro word_unat_of_nat) simp
qed

locale signed_stage = ed25519_incremental + stable_stage
begin

lemma scan_loop_spec:
  assumes "good s" and "HEADER_LEN + len \<le> length (stage s)" and "HEADER_LEN + len < 2 ^ 32"
    and "done \<le> len" and "0 < chunk_len" and "scan_loop ed io chunk_len len crc ver done s = (r, s')"
  shows "good s' \<and> stage s' = stage s \<and> (\<forall>x. r = Inr x \<longrightarrow>
    absorbed ed (slice (HEADER_LEN + done) (len - done) (stage s)) crc ver x)"
  using assms
proof (induction "len - done" arbitrary: crc ver "done" s rule: less_induct)
  case less
  note step = less.prems(6) [unfolded scan_loop.simps [of ed io chunk_len len crc ver "done" s]]
  show ?case
  proof (cases "len \<le> done")
    case True
    then show ?thesis using step less.prems by (auto simp: absorbed_Nil)
  next
    case False
    define n where "n = min chunk_len (len - done)"
    have n: "0 < n" "done + n \<le> len" using False less.prems(5) by (auto simp: n_def)
    have off: "unat (of_nat (HEADER_LEN + done) :: u32) = HEADER_LEN + done"
      using False less.prems(3) by (intro word_unat_of_nat) simp
    obtain x s1 where rd: "read_stage io (of_nat (HEADER_LEN + done)) n s = (x, s1)"
      by (cases "read_stage io (of_nat (HEADER_LEN + done)) n s")
    have rl: "good s1 \<and> stage s1 = stage s \<and> (\<forall>bs. x = Inr bs \<longrightarrow> bs = slice (HEADER_LEN + done) n (stage s))"
      using read_law [OF less.prems(1) _ rd] off less.prems(2) n by simp
    note step = step [unfolded Let_def n_def [symmetric] rd prod.case]
    show ?thesis
    proof (cases x)
      case (Inl e)
      then show ?thesis using step False less.prems(5) rl by auto
    next
      case (Inr bs)
      have "scan_loop ed io chunk_len len (crc_update crc bs) (verifier_absorb ed ver bs) (done + n) s1 = (r, s')"
        using step False less.prems(5) Inr by simp
      note ih = less.hyps [OF _ _ _ less.prems(3) n(2) less.prems(5) this]
      have sl: "slice (HEADER_LEN + done) (len - done) (stage s) =
          bs @ slice (HEADER_LEN + (done + n)) (len - (done + n)) (stage s)"
        using rl Inr n slice_append_slice [of "HEADER_LEN + done" n "stage s" "len - (done + n)"]
        by (simp add: add.assoc)
      show ?thesis
        unfolding sl using ih rl n less.prems(2) False by (auto intro: absorbed_append)
    qed
  qed
qed

lemma finish_absorbed:
  assumes "verifier_new ed key h sig = Inr ver" and "absorbed ed data crc ver (crc', ver')"
  shows "verifier_finish ed ver' = Inr () \<longleftrightarrow> sig_ok key sig (signing_prefix h @ data)"
proof -
  obtain v0 where v0: "ed_verify_incremental ed key sig = Inr v0" "ver = ed_absorb ed v0 (signing_prefix h)"
    using assms(1) by (auto simp: verifier_new_def bindE_eq_Inr split: if_splits)
  obtain cs where cs: "concat cs = data" "ver' = fold (\<lambda>c v. ed_absorb ed v c) cs ver"
    using assms(2) by (auto simp: absorbed_def)
  show ?thesis
    using incremental [OF v0(1), of "signing_prefix h # cs"] v0(2) cs by (simp add: verifier_finish_def)
qed

lemma scan_body_sound:
  assumes "good s" and "0 < chunk_len" and "image_len h \<le> MAX_IMAGE_LEN" and "unat (sig_len h) = SIG_LEN"
    and "container_len h \<le> length (stage s)" and "scan_body ed io chunk_len key h s = (Inr ref, s')"
  shows "stage s' = stage s \<and> sr_header ref = h \<and> staged_new h (image_len h) (image_crc32 h) (sr_extents ref) = Some ref
    \<and> crc32 (slice HEADER_LEN (unat (image_len h)) (stage s)) = image_crc32 h
    \<and> sig_ok key (slice (sig_offset h) SIG_LEN (stage s))
        (signing_prefix h @ slice HEADER_LEN (unat (image_len h)) (stage s))"
proof -
  note off = header_offsets [OF assms(3)]
  let ?img = "slice HEADER_LEN (unat (image_len h)) (stage s)"
  obtain sg s1 ver where r: "read_stage io (of_nat (sig_offset h)) SIG_LEN s = (Inr sg, s1)"
    and v: "verifier_new ed key h sg = Inr ver"
    using assms(6) by (auto simp: scan_body_def split: sum.splits prod.splits)
  have rl: "good s1 \<and> stage s1 = stage s \<and> sg = slice (sig_offset h) SIG_LEN (stage s)"
    using read_law [OF assms(1) _ r] off(2) assms(4,5) by (simp add: container_len_def sig_offset_def)
  obtain crc ver' s2 where sl: "scan_loop ed io chunk_len (unat (image_len h)) crc_new ver 0 s1 = (Inr (crc, ver'), s2)"
    and fin: "scan_finish ed io h crc ver' s2 = (Inr ref, s')"
    using assms(6) r v by (auto simp: scan_body_def split: sum.splits prod.splits)
  have ab: "good s2 \<and> stage s2 = stage s \<and> absorbed ed ?img crc_new ver (crc, ver')"
    using scan_loop_spec [OF _ _ off(1) _ assms(2) sl] rl assms(5) by (simp add: container_len_def)
  have "finalize crc = crc32 ?img" using ab by (auto simp: absorbed_def finalize_new_update)
  moreover have "finalize crc = image_crc32 h" "verifier_finish ed ver' = Inr ()"
    using fin by (auto simp: scan_finish_def split: if_splits)
  moreover obtain es n s3 where "stage_extents io s2 = (Inr (es, n), s')"
    and "staged_new h (image_len h) (image_crc32 h) (slice 0 n es) = Some ref"
    using fin by (auto simp: scan_finish_def ok_or_eq_Inr bind_eq_Some_conv get_range_def
        split: if_splits sum.splits prod.splits)
  ultimately show ?thesis
    using ab rl finish_absorbed [OF v] extents_law [of s2]
    by (auto simp: staged_new_def split: if_splits)
qed

lemma scan_sound:
  assumes "good s" and "0 < chunk_len" and "scan ed io chunk_len key s = (Inr ref, s')"
  shows "stage s' = stage s \<and> container_ok sig_ok key (stage s) (sr_header ref) \<and> wf_staged ref"
proof -
  obtain file_len s1 where l: "stage_len io s = (Some file_len, s1)" and f: "\<not> unat file_len < HEADER_LEN"
    using assms(3) by (auto simp: scan_def split: option.splits prod.splits if_splits)
  note ll = len_law [OF assms(1) l]
  obtain hdr s2 where r1: "read_stage io 0 HEADER_LEN s1 = (Inr hdr, s2)"
    using assms(3) l f by (auto simp: scan_def split: sum.splits prod.splits)
  have rr: "good s2 \<and> stage s2 = stage s \<and> hdr = take HEADER_LEN (stage s)"
    using read_law [OF _ _ r1] ll f by (simp add: slice_def)
  obtain h where h: "header_decode hdr = Some h"
    using assms(3) l f r1 by (auto simp: scan_def split: option.splits)
  have g: "image_len h \<noteq> 0" "image_len h \<le> MAX_IMAGE_LEN" "sig_scheme h = SIG_SCHEME_ED25519"
    "unat (sig_len h) = SIG_LEN" "container_len h \<le> length (stage s2)"
    and b: "scan_body ed io chunk_len key h s2 = (Inr ref, s')"
    using assms(3) l f r1 h ll rr by (auto simp: scan_def split: if_splits)
  note sb = scan_body_sound [OF conjunct1 [OF rr] assms(2) g(2,4,5) b]
  have "wf_header h" using h rr f ll by (intro header_decode_wf [of hdr]) (auto simp: HEADER_LEN_def)
  then show ?thesis
    using sb g rr h f ll staged_new_wf [of h "image_len h" "image_crc32 h" "sr_extents ref" ref]
    by (auto simp: container_ok_def)
qed

end

text \<open>A stage whose reads succeed and whose extents resolve.\<close>

locale readable_stage = signed_stage +
  assumes len_ok: "good s \<Longrightarrow> \<exists>n s'. stage_len io s = (Some n, s')"
    and read_ok: "good s \<Longrightarrow> unat off + n \<le> length (stage s) \<Longrightarrow> \<exists>bs s'. read_stage io off n s = (Inr bs, s')"
    and extents_resolve: "good s \<Longrightarrow> \<exists>es n s'. stage_extents io s = (Inr (es, n), s') \<and> n \<le> length es \<and> n \<le> MAX_EXTENTS"
begin

lemma scan_loop_total:
  assumes "good s" and "HEADER_LEN + len \<le> length (stage s)" and "HEADER_LEN + len < 2 ^ 32"
  shows "\<exists>x s'. scan_loop ed io chunk_len len crc ver done s = (Inr x, s')"
  using assms(1,2)
proof (induction "len - done" arbitrary: crc ver "done" s rule: less_induct)
  case less
  show ?case
  proof (cases "len \<le> done \<or> chunk_len = 0")
    case False
    define n where "n = min chunk_len (len - done)"
    have off: "unat (of_nat (HEADER_LEN + done) :: u32) = HEADER_LEN + done"
      using False assms(3) by (intro word_unat_of_nat) simp
    have fits: "unat (of_nat (HEADER_LEN + done) :: u32) + n \<le> length (stage s)"
      unfolding off using less.prems(2) False by (auto simp: n_def)
    obtain bs s1 where rd: "read_stage io (of_nat (HEADER_LEN + done)) n s = (Inr bs, s1)"
      using read_ok [OF less.prems(1) fits] by blast
    have "good s1" "stage s1 = stage s" using read_law [OF less.prems(1) fits rd] by simp_all
    moreover have "len - (done + n) < len - done" using False by (auto simp: n_def)
    ultimately show ?thesis
      using less.hyps [of "done + n" s1 "crc_update crc bs" "verifier_absorb ed ver bs"] less.prems(2) False rd
      by (subst scan_loop.simps) (simp add: Let_def n_def [symmetric] del: of_nat_add)
  qed (auto simp: scan_loop.simps)
qed

lemma scan_body_complete:
  assumes "good s" and "0 < chunk_len" and ok: "container_ok sig_ok key (stage s) h"
    and v: "ed_verify_incremental ed key (slice (sig_offset h) SIG_LEN (stage s)) = Inr v0"
  shows "\<exists>ref s'. scan_body ed io chunk_len key h s = (Inr ref, s') \<and> sr_header ref = h"
proof -
  let ?sig = "slice (sig_offset h) SIG_LEN (stage s)" and ?img = "slice HEADER_LEN (unat (image_len h)) (stage s)"
  have mx: "image_len h \<le> MAX_IMAGE_LEN" and len: "sig_offset h + SIG_LEN \<le> length (stage s)"
    and crc: "crc32 ?img = image_crc32 h" and sg: "sig_ok key ?sig (signing_prefix h @ ?img)"
    using ok by (simp_all add: container_ok_def container_len_def sig_offset_def)
  note off = header_offsets [OF mx]
  have fits: "unat (of_nat (sig_offset h) :: u32) + SIG_LEN \<le> length (stage s)" using off(2) len by simp
  obtain bs s1 where r: "read_stage io (of_nat (sig_offset h)) SIG_LEN s = (Inr bs, s1)"
    using read_ok [OF assms(1) fits] by blast
  have s1: "good s1" "stage s1 = stage s" and bs: "bs = ?sig"
    using read_law [OF assms(1) fits r] off(2) by simp_all
  obtain ver where ver: "verifier_new ed key h ?sig = Inr ver"
    using v len by (simp add: verifier_new_def)
  have img: "HEADER_LEN + unat (image_len h) \<le> length (stage s1)" using len s1(2) by (simp add: sig_offset_def)
  obtain crc' ver' s2 where sl: "scan_loop ed io chunk_len (unat (image_len h)) crc_new ver 0 s1 = (Inr (crc', ver'), s2)"
    using scan_loop_total [OF s1(1) img off(1), of chunk_len crc_new ver 0] by force
  have ab: "good s2" "absorbed ed ?img crc_new ver (crc', ver')"
    using scan_loop_spec [OF s1(1) img off(1) _ assms(2) sl] s1(2) by simp_all
  obtain es n s3 where ex: "stage_extents io s2 = (Inr (es, n), s3)" "n \<le> length es" "n \<le> MAX_EXTENTS"
    using extents_resolve [OF ab(1)] by blast
  have "finalize crc' = image_crc32 h" using ab(2) crc by (auto simp: absorbed_def finalize_new_update)
  moreover have "verifier_finish ed ver' = Inr ()" using finish_absorbed [OF ver ab(2)] sg by simp
  ultimately have "\<exists>ref s'. scan_finish ed io h crc' ver' s2 = (Inr ref, s') \<and> sr_header ref = h"
    using ex by (simp add: scan_finish_def staged_new_def min_def)
  then show ?thesis using r ver sl bs by (simp add: scan_body_def)
qed

lemma scan_complete:
  assumes "good s" and "0 < chunk_len" and ok: "container_ok sig_ok key (stage s) h"
    and v: "ed_verify_incremental ed key (slice (sig_offset h) SIG_LEN (stage s)) = Inr v0"
  shows "\<exists>ref s'. scan ed io chunk_len key s = (Inr ref, s') \<and> sr_header ref = h"
proof -
  obtain n s1 where l: "stage_len io s = (Some n, s1)" using len_ok [OF assms(1)] by blast
  have s1: "good s1" "stage s1 = stage s" "unat n = length (stage s)" using len_law [OF assms(1) l] by simp_all
  have fits: "unat (0 :: u32) + HEADER_LEN \<le> length (stage s1)" using ok s1(2) by (simp add: container_ok_def)
  obtain bs s2 where r: "read_stage io 0 HEADER_LEN s1 = (Inr bs, s2)"
    using read_ok [OF s1(1) fits] by blast
  have s2: "good s2" "stage s2 = stage s" and bs: "bs = take HEADER_LEN (stage s)"
    using read_law [OF s1(1) fits r] s1(2) by (simp_all add: slice_def)
  obtain ref s' where "scan_body ed io chunk_len key h s2 = (Inr ref, s')" "sr_header ref = h"
    using scan_body_complete [OF s2(1) assms(2), of key h v0] ok v s2(2) by auto
  then show ?thesis
    using l r ok s1(3) bs by (auto simp: scan_def container_ok_def)
qed

end

subsection \<open>The simulator's stage\<close>

text \<open>
  \<open>SliceStage\<close> of \<open>sim/desktop/src/dfu.rs\<close>: a package in memory. Its extent table is one run from
  block zero. The Ed25519 crate is represented by any check of whole messages, absorbed chunk by
  chunk.
\<close>

definition slice_stage :: "bytes stage_io" where
  "slice_stage =
     \<lparr>stage_len = (\<lambda>b. (Some (of_nat (length b)), b)),
      read_stage = (\<lambda>off n b. (ok_or (get_range b (unat off) n) IoError, b)),
      stage_extents = (\<lambda>b. (Inr (\<lparr>start_block = 0, ext_blocks = of_nat (div_ceil (length b) 512)\<rparr>
        # replicate 7 \<lparr>start_block = 0, ext_blocks = 0\<rparr>, 1), b))\<rparr>"

definition whole_ed25519 :: "(bytes \<Rightarrow> bytes \<Rightarrow> bytes \<Rightarrow> bool) \<Rightarrow> (bytes \<times> bytes \<times> bytes) ed25519" where
  "whole_ed25519 sig_ok =
     \<lparr>ed_verify_incremental = (\<lambda>key sig. Inr (key, sig, [])),
      ed_absorb = (\<lambda>(key, sig, m) c. (key, sig, m @ c)),
      ed_verify = (\<lambda>(key, sig, m). sig_ok key sig m)\<rparr>"

lemma fold_whole: "fold (\<lambda>c v. ed_absorb (whole_ed25519 f) v c) cs (k, sg, m) = (k, sg, m @ concat cs)"
  by (induction cs arbitrary: m) (simp_all add: whole_ed25519_def)

lemma whole_incremental: "ed25519_incremental (whole_ed25519 sig_ok) sig_ok"
proof
  fix key sig v0 chunks
  assume "ed_verify_incremental (whole_ed25519 sig_ok) key sig = Inr v0"
  then have "v0 = (key, sig, [])" by (simp add: whole_ed25519_def)
  then show "ed_verify (whole_ed25519 sig_ok) (fold (\<lambda>c v. ed_absorb (whole_ed25519 sig_ok) v c) chunks v0)
      = sig_ok key sig (concat chunks)"
    using fold_whole [of sig_ok chunks key sig "[]"] by (simp add: whole_ed25519_def)
qed

interpretation sim: readable_stage "whole_ed25519 sig_ok" sig_ok slice_stage "\<lambda>b. b" "\<lambda>b. length b < 2 ^ 32"
  for sig_ok
proof (intro readable_stage.intro signed_stage.intro whole_incremental)
  show "stable_stage slice_stage (\<lambda>b. b) (\<lambda>b. length b < 2 ^ 32)"
    by unfold_locales (auto simp: slice_stage_def ok_or_eq_Inr word_unat_of_nat dest: get_range_Some)
  show "readable_stage_axioms slice_stage (\<lambda>b. b) (\<lambda>b. length b < 2 ^ 32)"
    by unfold_locales (auto simp: slice_stage_def MAX_EXTENTS_def)
qed

text \<open>A small signed package, with the signature check that accepts an all-zero signature.\<close>

definition pack_header :: image_header where "pack_header = signed_header (image_header_new [1, 2, 3] [])"

definition pack_file :: bytes where "pack_file = header_encode pack_header @ [1, 2, 3] @ zeros 64"

definition zero_sig :: "bytes \<Rightarrow> bytes \<Rightarrow> bytes \<Rightarrow> bool" where
  "zero_sig key sig m \<longleftrightarrow> sig = zeros 64"

lemma pack_simps:
  "wf_header pack_header" "image_len pack_header = 3" "sig_scheme pack_header = SIG_SCHEME_ED25519"
  "sig_len pack_header = 64" "image_crc32 pack_header = crc32 [1, 2, 3]"
  using image_header_new_wf [of "[1, 2, 3]" "[]"]
  by (simp_all add: pack_header_def signed_header_def wf_header_def image_header_new_def Let_def SIG_LEN_def)

lemma pack_ok: "container_ok zero_sig key pack_file pack_header"
  by (simp add: container_ok_def pack_file_def pack_simps HEADER_LEN_def header_roundtrip container_len_def
      sig_offset_def zero_sig_def SIG_LEN_def slice_def max_image_len word_le_nat_alt)

lemma pack_scan: "\<exists>ref s'. scan (whole_ed25519 zero_sig) slice_stage 2 key pack_file = (Inr ref, s') \<and> sr_header ref = pack_header"
  by (rule sim.scan_complete [OF _ _ pack_ok])
    (simp_all add: pack_file_def pack_simps whole_ed25519_def)

subsection \<open>Properties\<close>

text \<open>
  C4: only what the key holder signed can be armed. When the scan of a staged object succeeds, with
  any chunk size, the object starts with a valid header, its image has the recorded length and CRC,
  and the signature in its trailer verifies over the signed prefix and exactly those image bytes; the
  reference it hands to the arm is well formed and carries that header.
\<close>

theorem scan_only_signed:
  assumes "signed_stage ed sig_ok io stage good" and "good s" and "0 < chunk_len"
    and "scan ed io chunk_len key s = (Inr ref, s')"
  shows "container_ok sig_ok key (stage s) (sr_header ref) \<and> wf_staged ref \<and> stage s' = stage s"
  using signed_stage.scan_sound [OF assms] by blast

theorem scan_only_signed_witness:
  "\<exists>ref s'. scan (whole_ed25519 zero_sig) slice_stage 2 [] pack_file = (Inr ref, s')
     \<and> container_ok zero_sig [] pack_file (sr_header ref) \<and> wf_staged ref"
proof -
  obtain ref s' where r: "scan (whole_ed25519 zero_sig) slice_stage 2 [] pack_file = (Inr ref, s')"
    using pack_scan by blast
  show ?thesis
    using r scan_only_signed [OF sim.signed_stage_axioms _ _ r] by (auto simp: pack_file_def pack_simps)
qed

text \<open>
  C26: the scan accepts every such object: over a readable stage whose extents resolve, a container
  with a valid header, length, CRC and signature scans to a reference for that header, whatever the
  chunk size; so the streaming pass agrees with checking the whole object at once.
\<close>

theorem scan_accepts_signed:
  assumes "readable_stage ed sig_ok io stage good" and "good s" and "0 < chunk_len"
    and "container_ok sig_ok key (stage s) h"
    and "ed_verify_incremental ed key (slice (sig_offset h) SIG_LEN (stage s)) = Inr v0"
  shows "\<exists>ref s'. scan ed io chunk_len key s = (Inr ref, s') \<and> sr_header ref = h"
  by (rule readable_stage.scan_complete [OF assms])

theorem scan_accepts_signed_witness:
  "\<exists>ref s'. scan (whole_ed25519 zero_sig) slice_stage 7 [] pack_file = (Inr ref, s') \<and> sr_header ref = pack_header"
  by (rule scan_accepts_signed [OF sim.readable_stage_axioms _ _ pack_ok])
    (simp_all add: pack_file_def pack_simps whole_ed25519_def)

end
