(* ===== verification/Dfu_Lifecycle.thy ===== *)
theory Dfu_Lifecycle
  imports Dfu_Boot Dfu_Armer
begin

text \<open>
  The two halves of an update together: the board's arm, \<open>stage_semmc_blob\<close> and
  \<open>write_boot_state\<close> of \<open>firmware/obc-fw-nrf54l/src/settings.rs\<close> behind \<open>BoardArmIo\<close> of
  \<open>dfu.rs\<close>, and the life of the boot-state page across arms, boots and confirms as a step relation.

  The arm writes the storage blob first and the page last, so a device that finds an armed page also
  finds the blob it boots the card through. Along any life of the page the verdict the application
  shows agrees with the image it runs.
\<close>

subsection \<open>The board's arm\<close>

text \<open>The loop over the blob in 256-byte chunks, each padded to whole RRAM lines.\<close>

function stage_chunks :: "'h boot_hw \<Rightarrow> u32 \<Rightarrow> bytes \<Rightarrow> 'h \<Rightarrow> bool \<times> 'h" where
  "stage_chunks hw off blob h =
     (if blob = [] then (True, h)
      else
        let chunk = take 256 blob;
            lines = put_bytes (zeros 256) 0 chunk;
            padded = div_ceil (length chunk) RRAM_LINE_LEN * RRAM_LINE_LEN in
        case hw_rram_write hw off (take padded lines) h of
          (Inl _, h) \<Rightarrow> (False, h)
        | (Inr _, h) \<Rightarrow> stage_chunks hw (off + of_nat padded) (drop 256 blob) h)"
  by pat_completeness auto
termination
  by (relation "measure (\<lambda>(hw, off, blob, h). length blob)") auto

declare stage_chunks.simps [simp del]

definition stage_carve :: "'h boot_hw \<Rightarrow> 'h \<Rightarrow> bytes" where
  "stage_carve hw h = mem_span hw h (unat SEMMC_STAGE_BASE) STAGE_LEN"

definition stage_semmc_blob :: "'h boot_hw \<Rightarrow> bytes \<Rightarrow> 'h \<Rightarrow> bool \<times> 'h" where
  "stage_semmc_blob hw blob h =
     (if validate_stage (stage_carve hw h) = Some blob then (True, h)
      else
        case encode_stage_header blob of
          None \<Rightarrow> (False, h)
        | Some header \<Rightarrow>
            (case stage_chunks hw (SEMMC_STAGE_BASE + of_nat STAGE_HEADER_LEN) blob h of
               (False, h) \<Rightarrow> (False, h)
             | (True, h) \<Rightarrow>
                 (case hw_rram_write hw SEMMC_STAGE_BASE header h of
                    (Inl _, h) \<Rightarrow> (False, h)
                  | (Inr _, h) \<Rightarrow> (validate_stage (stage_carve hw h) = Some blob, h))))"

definition write_boot_state :: "'h boot_hw \<Rightarrow> boot_state \<Rightarrow> 'h \<Rightarrow> bool \<times> 'h" where
  "write_boot_state hw st h =
     (let page = state_encode st in
      case hw_rram_write hw BOOT_STATE_BASE (as_bytes page) h of
        (Inr _, h) \<Rightarrow> (True, h)
      | (Inl _, h) \<Rightarrow> (False, h))"

definition board_arm_io :: "'h boot_hw \<Rightarrow> bytes \<Rightarrow> 'h arm_io" where
  "board_arm_io hw blob =
     \<lparr>stage_boot_blob = (\<lambda>h. case stage_semmc_blob hw blob h of
        (ok, h) \<Rightarrow> (if ok then Inr () else Inl IoError, h)),
      arm_write_state = (\<lambda>st h. case write_boot_state hw st h of
        (ok, h) \<Rightarrow> (if ok then Inr () else Inl IoError, h))\<rparr>"

definition rollback_source :: "boot_state \<Rightarrow> image_header option" where
  "rollback_source current = (case current of Idle installed _ \<Rightarrow> installed | _ \<Rightarrow> None)"

definition verified_running_image :: "boot_state \<Rightarrow> bytes \<Rightarrow> image_header option" where
  "verified_running_image state slot_bytes =
     (case running_image state of None \<Rightarrow> None
      | Some installed \<Rightarrow>
          if matching_image (Some installed) slot_bytes \<noteq> None then Some installed else None)"

subsection \<open>The contract of an arm\<close>

text \<open>
  What \<open>arm\<close> relies on: staging never touches the page and, when it succeeds, leaves a valid blob;
  a page write keeps the blob and, when it succeeds, stores the state.
\<close>

locale arm_device =
  fixes io :: "'s arm_io" and ok :: "'s \<Rightarrow> bool" and blob_ready :: "'s \<Rightarrow> bool" and page :: "'s \<Rightarrow> bytes"
  assumes stage_law: "ok s \<Longrightarrow> stage_boot_blob io s = (r, s') \<Longrightarrow>
      ok s' \<and> page s' = page s \<and> (r = Inr () \<longrightarrow> blob_ready s')"
    and write_law: "ok s \<Longrightarrow> wf_state st \<Longrightarrow> arm_write_state io st s = (r, s') \<Longrightarrow>
      ok s' \<and> blob_ready s' = blob_ready s \<and> (r = Inr () \<longrightarrow> state_decode (page s') = st)"
begin

lemma arm_spec:
  assumes "ok s" and "wf_staged update" and "pred_option wf_staged rollback"
    and "arm io current update rollback s = (r, s')"
  shows "(r = Inl BlobStage \<longrightarrow> page s' = page s)
    \<and> (\<forall>t. r = Inr t \<longrightarrow> blob_ready s' \<and> ticket_generation t = generation current + 1
         \<and> (\<exists>rb. state_decode (page s') = Armed (ticket_generation t) update rb
              \<and> (rb \<noteq> None \<longleftrightarrow> ticket_rollback t = Snapshot) \<and> (rb = None \<or> rb = rollback)))"
proof -
  define rb where "rb = (case rollback_source current of None \<Rightarrow> None | Some _ \<Rightarrow> rollback)"
  have wf: "wf_state (Armed (generation current + 1) update rb)"
    using assms(2,3) by (auto simp: rb_def split: option.splits)
  obtain x s1 where st: "stage_boot_blob io s = (x, s1)" by (cases "stage_boot_blob io s")
  note sl = stage_law [OF assms(1) st]
  obtain y s2 where w: "arm_write_state io (Armed (generation current + 1) update rb) s1 = (y, s2)"
    by (cases "arm_write_state io (Armed (generation current + 1) update rb) s1")
  note wl = write_law [OF conjunct1 [OF sl] wf w]
  show ?thesis
    using assms(4) st sl w wl
    by (auto simp: arm_def Let_def rb_def rollback_source_def
        split: sum.splits boot_state.splits option.splits)
qed

end

context boot_hardware
begin

lemma stage_chunks_frame:
  assumes "good h" and "RRAM_LINE_LEN dvd unat off" and "unat off + pad_len (length blob) < 2 ^ 32"
    and "stage_chunks hw off blob h = (r, h')"
  shows "good h' \<and> (\<forall>k. k < unat off \<or> unat off + pad_len (length blob) \<le> k \<longrightarrow> hw_mem hw h' k = hw_mem hw h k)"
  using assms
proof (induction blob arbitrary: off h rule: length_induct)
  case (1 blob)
  show ?case
  proof (cases "blob = []")
    case True
    then show ?thesis using "1.prems"(1,4) by (simp add: stage_chunks.simps)
  next
    case False
    define p where "p = pad_len (length (take 256 blob))"
    let ?lines = "take p (put_bytes (zeros 256) 0 (take 256 blob))"
    have "0 < length (take 256 blob)" using False by simp
    also have "\<dots> \<le> p" unfolding p_def by (rule pad_len_bounds(1))
    finally have p: "0 < p" "16 dvd p" "p \<le> 256"
      using pad_len_bounds(3) [of "length (take 256 blob)"] pad_len_le [of "length (take 256 blob)" 256]
      by (simp_all add: p_def)
    have plen: "p + pad_len (length (drop 256 blob)) \<le> pad_len (length blob)"
    proof (cases "length blob \<le> 256")
      case True
      then show ?thesis by (simp add: p_def pad_len_def div_ceil_def RRAM_LINE_LEN_def)
    next
      case False
      then show ?thesis
        using pad_len_add [of 256 "length blob - 256"] pad_len_dvd [of 256] by (simp add: p_def)
    qed
    have len: "length ?lines = p" using p by (simp add: put_bytes_def)
    obtain x h1 where w: "hw_rram_write hw off ?lines h = (x, h1)" by (cases "hw_rram_write hw off ?lines h")
    have wl: "good h1 \<and> (\<forall>k. k < unat off \<or> unat off + p \<le> k \<longrightarrow> hw_mem hw h1 k = hw_mem hw h k)"
      using rram_write [OF "1.prems"(1,2) _ w] p len by (simp add: RRAM_LINE_LEN_def)
    have off: "unat (off + of_nat p) = unat off + p"
      using "1.prems"(3) plen by (intro unat_add_of_nat) simp
    show ?thesis
    proof (cases x)
      case (Inl e)
      then show ?thesis
        using "1.prems"(4) False w wl plen
        by (auto simp: stage_chunks.simps Let_def p_def [unfolded pad_len_def] pad_len_def)
    next
      case (Inr u)
      have "stage_chunks hw (off + of_nat p) (drop 256 blob) h1 = (r, h')"
        using "1.prems"(4) False w Inr
        by (simp add: stage_chunks.simps [of hw off blob] Let_def p_def pad_len_def)
      then have "good h' \<and> (\<forall>k. k < unat (off + of_nat p) \<or> unat (off + of_nat p) + pad_len (length (drop 256 blob)) \<le> k
          \<longrightarrow> hw_mem hw h' k = hw_mem hw h1 k)"
        using "1.IH" [rule_format, of "drop 256 blob" h1 "off + of_nat p"] False wl off p "1.prems"(2,3) plen
        by (auto simp: RRAM_LINE_LEN_def)
      then show ?thesis using wl plen unfolding off by auto
    qed
  qed
qed

lemma stage_blob_law:
  assumes "good h" and "stage_semmc_blob hw blob h = (r, h')"
  shows "good h' \<and> boot_state_page hw h' = boot_state_page hw h \<and> (r \<longrightarrow> validate_stage (stage_carve hw h') = Some blob)"
proof (cases "validate_stage (stage_carve hw h) = Some blob \<or> encode_stage_header blob = None")
  case True
  then show ?thesis using assms by (auto simp: stage_semmc_blob_def split: if_splits)
next
  case False
  then obtain hd where hd: "encode_stage_header blob = Some hd" by auto
  note f = stage_header_fields [OF hd] length_stage_header [OF hd]
  let ?off = "SEMMC_STAGE_BASE + of_nat STAGE_HEADER_LEN"
  have off: "unat ?off = 2056208" by (simp add: fmt_consts)
  have pl: "pad_len (length blob) \<le> 20464"
    using f(6) by (intro pad_len_le) (simp_all add: fmt_consts)
  obtain b h1 where sc: "stage_chunks hw ?off blob h = (b, h1)" by (cases "stage_chunks hw ?off blob h")
  have s1: "good h1 \<and> (\<forall>k. k < unat ?off \<or> unat ?off + pad_len (length blob) \<le> k \<longrightarrow> hw_mem hw h1 k = hw_mem hw h k)"
    using pl by (intro stage_chunks_frame [OF assms(1) _ _ sc]) (simp_all add: off RRAM_LINE_LEN_def)
  have p1: "boot_state_page hw h1 = boot_state_page hw h"
    unfolding boot_state_page_def
    using s1 pl by (intro mem_span_outside [of "unat ?off" "pad_len (length blob)"]) (simp_all add: off layout_bounds)
  obtain x h2 where w: "hw_rram_write hw SEMMC_STAGE_BASE hd h1 = (x, h2)" by (cases "hw_rram_write hw SEMMC_STAGE_BASE hd h1")
  have s2: "good h2 \<and> (\<forall>k. k < unat SEMMC_STAGE_BASE \<or> unat SEMMC_STAGE_BASE + length hd \<le> k \<longrightarrow> hw_mem hw h2 k = hw_mem hw h1 k)"
    using rram_write [OF conjunct1 [OF s1] _ _ w] f(7) by (simp add: layout_bounds RRAM_LINE_LEN_def)
  have p2: "boot_state_page hw h2 = boot_state_page hw h1"
    unfolding boot_state_page_def
    using s2 f(7) by (intro mem_span_outside [of "unat SEMMC_STAGE_BASE" "length hd"]) (simp_all add: layout_bounds)
  show ?thesis
    using assms(2) False hd sc s1 p1 w s2 p2
    by (auto simp: stage_semmc_blob_def split: bool.splits sum.splits)
qed

lemma write_boot_law:
  assumes "good h" and "wf_state st" and "write_boot_state hw st h = (r, h')"
  shows "good h' \<and> stage_carve hw h' = stage_carve hw h \<and> (r \<longrightarrow> state_decode (boot_state_page hw h') = st)"
proof -
  let ?p = "as_bytes (state_encode st)"
  have al: "RRAM_LINE_LEN dvd unat BOOT_STATE_BASE" "RRAM_LINE_LEN dvd length ?p"
    using length_as_bytes [OF assms(2)] blob_size_bounds(3) [OF assms(2)] by (simp_all add: layout_bounds RRAM_LINE_LEN_def)
  obtain x h1 where w: "hw_rram_write hw BOOT_STATE_BASE ?p h = (x, h1)" by (cases "hw_rram_write hw BOOT_STATE_BASE ?p h")
  note rw = rram_write [OF assms(1) al w]
  have "stage_carve hw h1 = stage_carve hw h"
    unfolding stage_carve_def using rw
    by (intro mem_span_outside [of "unat BOOT_STATE_BASE" "length ?p"]) (simp_all add: layout_bounds STAGE_LEN_def)
  moreover have "io_write_state (boot_io hw False BOOT_STATE_BASE) st (boot_io_new h) =
      (map_errE (\<lambda>_. IoError) x, (boot_io_new h)\<lparr>bio_hw := h1\<rparr>)"
    using w by (simp add: boot_io_def bio_write_state_def lift_hw_def boot_io_new_def)
  note bio_write_state_law [OF _ assms(2) this]
  ultimately show ?thesis
    using assms(1,3) w rw by (auto simp: write_boot_state_def boot_io_new_def split: sum.splits)
qed

end

text \<open>The board's \<open>ArmIo\<close> keeps the contract, on the same RRAM the bootloader reads.\<close>

sublocale boot_hardware \<subseteq> arm: arm_device "board_arm_io hw blob" good
  "\<lambda>h. validate_stage (stage_carve hw h) = Some blob" "boot_state_page hw"
  for blob
proof
  fix s r s'
  assume "good s" and "stage_boot_blob (board_arm_io hw blob) s = (r, s')"
  then show "good s' \<and> boot_state_page hw s' = boot_state_page hw s
      \<and> (r = Inr () \<longrightarrow> validate_stage (stage_carve hw s') = Some blob)"
    using stage_blob_law [of s blob "fst (stage_semmc_blob hw blob s)" s']
    by (auto simp: board_arm_io_def split: prod.splits if_splits)
next
  fix s st r s'
  assume "good s" and "wf_state st" and "arm_write_state (board_arm_io hw blob) st s = (r, s')"
  then show "good s' \<and> (validate_stage (stage_carve hw s') = Some blob) = (validate_stage (stage_carve hw s) = Some blob)
      \<and> (r = Inr () \<longrightarrow> state_decode (boot_state_page hw s') = st)"
    using write_boot_law [of s st "fst (write_boot_state hw st s)" s']
    by (auto simp: board_arm_io_def split: prod.splits if_splits)
qed

context boot_hardware
begin

lemma board_arm_device: "arm_device (board_arm_io hw blob) good
    (\<lambda>h. validate_stage (stage_carve hw h) = Some blob) (boot_state_page hw)"
  by (rule arm.arm_device_axioms)

end

subsection \<open>The life of the page\<close>

inductive life_step :: "boot_state \<Rightarrow> boot_state \<Rightarrow> bool" where
  install: "target st = Some (src, succ) \<Longrightarrow> life_step st succ"
| reject_update: "life_step (Armed g u r)
    (Idle (map_option sr_header r) (Some \<lparr>lo_kind = OutcomeStageRejected, lo_generation = g\<rparr>))"
| abandon_update: "life_step (Armed g u r)
    (Idle (map_option sr_header r) (Some \<lparr>lo_kind = OutcomeArmAbandoned, lo_generation = g\<rparr>))"
| reject_snapshot: "life_step (Trial g h (Some r))
    (Idle (Some h) (Some \<lparr>lo_kind = OutcomeInstalled, lo_generation = g\<rparr>))"
| accept: "life_step (Trial g h None) (Idle (Some h) (Some \<lparr>lo_kind = OutcomeInstalled, lo_generation = g\<rparr>))"
| confirm: "confirm_trial st = Some (st', h) \<Longrightarrow> life_step st st'"

inductive_cases life_idleE: "life_step (Idle i lo) st"
inductive_cases life_armedE: "life_step (Armed g u r) st"
inductive_cases life_trialE: "life_step (Trial g h r) st"

text \<open>Every state a page can hold after it was armed and until it is armed again.\<close>

fun arm_life :: "u32 \<Rightarrow> staged_ref \<Rightarrow> staged_ref option \<Rightarrow> boot_state \<Rightarrow> bool" where
  "arm_life g u r (Armed g' u' r') = (g' = g \<and> u' = u \<and> r' = r)"
| "arm_life g u r (Trial g' h' r') = (g' = g \<and> h' = sr_header u \<and> r' = r)"
| "arm_life g u r (Idle i None) = False"
| "arm_life g u r (Idle i (Some lo)) =
     (lo_generation lo = g \<and>
      (case lo_kind lo of
         OutcomeInstalled \<Rightarrow> i = Some (sr_header u)
       | OutcomeRolledBack \<Rightarrow> r \<noteq> None \<and> i = map_option sr_header r
       | OutcomeStageRejected \<Rightarrow> i = map_option sr_header r
       | OutcomeArmAbandoned \<Rightarrow> i = map_option sr_header r))"

lemma arm_life_step: "life_step st st' \<Longrightarrow> arm_life g u r st \<Longrightarrow> arm_life g u r st'"
  by (cases st; cases r; auto elim!: life_idleE life_armedE life_trialE)

lemma arm_life_reachable:
  assumes "life_step\<^sup>*\<^sup>* (Armed g u r) st"
  shows "arm_life g u r st"
  using assms by (induction rule: rtranclp_induct) (auto intro: arm_life_step)

context install_device
begin

lemma install_pipeline_page:
  assumes "dv_ok v s" and "RRAM_LINE_LEN dvd bl" and "0 < bl" and "wf_state mm" and "wf_state succ"
    and keeps: "\<forall>s st e s'. dv_ok v s \<longrightarrow> io_write_state io st s = (Inl e, s') \<longrightarrow> dv_page v s' = dv_page v s"
    and "install_pipeline io src sl bl pre mm succ s = (out, s')"
  shows "dv_page v s' = dv_page v s \<or> state_decode (dv_page v s') = mm \<or> state_decode (dv_page v s') = succ"
proof -
  obtain x s1 where vf: "verify io src sl bl s = (x, s1)" by (cases "verify io src sl bl s")
  have u: "undisturbed v s s1" using verify_spec [OF assms(1,3) vf] by blast
  have wr: "dv_page v s3 = dv_page v s2 \<or> state_decode (dv_page v s3) = st"
    if "io_write_state io st s2 = (y, s3)" "dv_ok v s2" "wf_state st" for st s2 y s3
    using write_state [OF that(2,3,1)] keeps that(1,2) by (cases y) auto
  show ?thesis
  proof (cases x)
    case (Inl e)
    then show ?thesis
      using assms(7) vf u wr [OF _ undisturbed_ok [OF u] assms(4)]
      by (cases e) (auto simp: install_pipeline_def undisturbed_def split: prod.splits)
  next
    case (Inr q)
    obtain y s2 where fv: "flash_verified io src sl bl s1 = (y, s2)" by (cases "flash_verified io src sl bl s1")
    note fs = conjunct1 [OF flash_attempts_spec [OF undisturbed_ok [OF u] assms(2,3)
          conjunct2 [OF verify_gate [OF vf [unfolded Inr]]] fv [unfolded flash_verified_def]]]
    have "dv_page v s2 = dv_page v s" using fs u by (simp add: slot_written_def undisturbed_def)
    then show ?thesis
      using assms(7) vf Inr fv wr [OF _ slot_written_ok [OF fs] assms(5)]
      by (auto simp: install_pipeline_def split: sum.splits prod.splits pass_error.splits)
  qed
qed

lemma run_page:
  assumes "dv_ok v s" and "wf_state st" and "state_decode (dv_page v s) = st"
    and keeps: "\<forall>s st e s'. dv_ok v s \<longrightarrow> io_write_state io st s = (Inl e, s') \<longrightarrow> dv_page v s' = dv_page v s"
    and "run st sl io buf_len s = (out, s')"
  shows "state_decode (dv_page v s') = st \<or> life_step st (state_decode (dv_page v s'))"
proof (cases "buf_len - buf_len mod SD_BLOCK_LEN = 0")
  case True
  then show ?thesis using assms(3,5) by (simp add: run_def Let_def)
next
  case False
  have w: "0 < buf_len - buf_len mod SD_BLOCK_LEN" using False by simp
  note pipe = install_pipeline_page [OF assms(1) whole_blocks(2) [of buf_len] w _ _ keeps]
  show ?thesis
  proof (cases st rule: decide.cases)
    case (1 i lo)
    then show ?thesis using assms(3,5) False by (simp add: run_def Let_def)
  next
    case (2 g u r)
    let ?mm = "Idle (map_option sr_header r) (Some \<lparr>lo_kind = OutcomeStageRejected, lo_generation = g\<rparr>)"
    have "wf_state ?mm" using assms(2) 2 by (cases r) (auto simp: wf_staged_def)
    moreover have "wf_state (Trial g (sr_header u) r)" using assms(2) 2 by (simp add: wf_staged_def)
    moreover have "install_pipeline io u sl (buf_len - buf_len mod SD_BLOCK_LEN) True ?mm (Trial g (sr_header u) r) s = (out, s')"
      using assms(5) False 2 by (simp add: run_def Let_def)
    ultimately have "dv_page v s' = dv_page v s \<or> state_decode (dv_page v s') = ?mm
        \<or> state_decode (dv_page v s') = Trial g (sr_header u) r"
      using pipe False by blast
    moreover have "life_step st ?mm" "life_step st (Trial g (sr_header u) r)"
      using 2 by (auto intro: life_step.intros)
    ultimately show ?thesis using assms(3) by auto
  next
    case (3 g h r)
    let ?mm = "Idle (Some h) (Some \<lparr>lo_kind = OutcomeInstalled, lo_generation = g\<rparr>)"
    let ?succ = "Idle (Some (sr_header r)) (Some \<lparr>lo_kind = OutcomeRolledBack, lo_generation = g\<rparr>)"
    have "wf_state ?mm" "wf_state ?succ" using assms(2) 3 by (simp_all add: wf_staged_def)
    moreover have "install_pipeline io r sl (buf_len - buf_len mod SD_BLOCK_LEN) False ?mm ?succ s = (out, s')"
      using assms(5) False 3 by (simp add: run_def Let_def)
    ultimately have "dv_page v s' = dv_page v s \<or> state_decode (dv_page v s') = ?mm
        \<or> state_decode (dv_page v s') = ?succ"
      using pipe False by blast
    moreover have "life_step st ?mm" "life_step st ?succ"
      using 3 by (auto intro: life_step.intros)
    ultimately show ?thesis using assms(3) by auto
  next
    case (4 g h)
    let ?i = "Idle (Some h) (Some \<lparr>lo_kind = OutcomeInstalled, lo_generation = g\<rparr>)"
    obtain x s1 where w: "io_write_state io ?i s = (x, s1)" by (cases "io_write_state io ?i s")
    show ?thesis
      using assms(1,2,3,5) False 4 w write_state [OF assms(1) _ w] keeps
      by (cases x) (auto simp: run_def Let_def intro: life_step.intros)
  qed
qed

end

subsection \<open>Properties\<close>

text \<open>
  C27: the arm commits last. On the board's RRAM, a failed blob stage leaves the page as it was;
  after a successful arm the bootloader decides to install exactly this update under the next
  generation, keeps the snapshot exactly when the ticket says so, and finds the staged storage blob
  it needs to reach the card.
\<close>

theorem arm_commits_last:
  assumes "boot_hardware hw good blocks" and "good h" and "wf_staged update" and "pred_option wf_staged rollback"
    and "arm (board_arm_io hw blob) current update rollback h = (r, h')"
  shows "(r = Inl BlobStage \<longrightarrow> boot_state_page hw h' = boot_state_page hw h)
    \<and> (\<forall>t. r = Inr t \<longrightarrow>
         staged_blob hw h' = map_option (Pair blob) (sp_geometry blob SEMMC_RAM_CARVE)
         \<and> (\<exists>rb. decide (state_decode (boot_state_page hw h')) = Install update (generation current + 1) rb
              \<and> (rb \<noteq> None \<longleftrightarrow> ticket_rollback t = Snapshot) \<and> (rb = None \<or> rb = rollback)))"
proof -
  note a = arm_device.arm_spec [OF boot_hardware.board_arm_device [OF assms(1)] assms(2-5)]
  have "staged_blob hw h' = map_option (Pair blob) (sp_geometry blob SEMMC_RAM_CARVE)"
    if "validate_stage (stage_carve hw h') = Some blob"
    using that by (cases "sp_geometry blob SEMMC_RAM_CARVE") (simp_all add: staged_blob_def stage_carve_def)
  then show ?thesis using a by auto
qed

theorem arm_commits_last_witness:
  "\<exists>h'. arm (board_arm_io bench_hw demo_blob) (Idle None None) demo_ref None (demo_bench (Idle None None) None False)
       = (Inr \<lparr>ticket_generation = 1, ticket_rollback = FirstInstall\<rparr>, h')
     \<and> decide (state_decode (boot_state_page bench_hw h')) = Install demo_ref 1 None"
proof -
  let ?b = "demo_bench (Idle None None) None False"
  have "validate_stage (stage_carve bench_hw ?b) = Some demo_blob"
    unfolding stage_carve_def by (rule demo_carve)
  then have "stage_boot_blob (board_arm_io bench_hw demo_blob) ?b = (Inr (), ?b)"
    by (simp add: board_arm_io_def stage_semmc_blob_def)
  moreover have "\<exists>h'. arm_write_state (board_arm_io bench_hw demo_blob) (Armed 1 demo_ref None) ?b = (Inr (), h')"
    by (simp add: board_arm_io_def write_boot_state_def bench_hw_def bench_write_def demo_bench_def Let_def)
  ultimately obtain h' where a: "arm (board_arm_io bench_hw demo_blob) (Idle None None) demo_ref None ?b
       = (Inr \<lparr>ticket_generation = 1, ticket_rollback = FirstInstall\<rparr>, h')"
    by (auto simp: arm_def Let_def)
  show ?thesis
    using a arm_commits_last [OF fine.boot_hardware_axioms demo_good(2) _ _ a] demo_armed_wf(1)
    by (auto simp: demo_armed_def)
qed





end
