(* ===== verification/Flat_Seam.thy ===== *)
theory Flat_Seam
  imports Bytes
begin

text \<open>
  The vocabulary of the flat object store, from \<open>firmware/obc-storage/src/flat/seam.rs\<close> and
  \<open>error.rs\<close>: identities, object kinds, entry flags, display names, entry metadata, allocations,
  mutations, and the two error types. The newtypes \<open>ObjectId\<close> and \<open>Revision\<close> are 64-bit words
  and \<open>EntryFlags\<close> is a 16-bit word; a \<open>StoreId\<close> is its 16 bytes.
\<close>

type_synonym store_id = bytes
type_synonym object_id = u64
type_synonym revision = u64
type_synonym entry_flags = u16

subsection \<open>Refusals\<close>

datatype store_error =
    NotFound
  | RevisionConflict (current: revision)
  | NoSpace (required: nat)
  | TooFragmented
  | CatalogFull
  | Invalid
  | Media
  | ReadOnly
  | Busy

datatype flat_record = Superblock | CatalogHeader | Entry | Gate | Slot

datatype reason =
    Length | Magic | Version | Stride | Reserved | Crc | Position | StoreId | Count | Zero
  | UnknownEnum | Order | Revisions | Ranges | Geometry

datatype decode_error = DecodeError (record_of: flat_record) (reason_of: reason)

subsection \<open>Object kinds and entry flags\<close>

datatype object_kind =
    Route | Trip | Ride | MapShard | MapSetManifest | UpdatePackage | RollbackReserve | Metadata

text \<open>\<open>kind as u16\<close>: the discriminants of the \<open>repr(u16)\<close> enum.\<close>

fun kind_value :: "object_kind \<Rightarrow> u16" where
  "kind_value Route = 1"
| "kind_value Trip = 2"
| "kind_value Ride = 3"
| "kind_value MapShard = 5"
| "kind_value MapSetManifest = 6"
| "kind_value UpdatePackage = 7"
| "kind_value RollbackReserve = 8"
| "kind_value Metadata = 9"

definition kind_decode :: "u16 \<Rightarrow> decode_error + object_kind" where
  "kind_decode v =
     (if v = 1 then Inr Route
      else if v = 2 then Inr Trip
      else if v = 3 then Inr Ride
      else if v = 5 then Inr MapShard
      else if v = 6 then Inr MapSetManifest
      else if v = 7 then Inr UpdatePackage
      else if v = 8 then Inr RollbackReserve
      else if v = 9 then Inr Metadata
      else Inl (DecodeError Entry UnknownEnum))"

definition FLAGS_NONE :: entry_flags where "FLAGS_NONE = 0"
definition RECORDING :: entry_flags where "RECORDING = 1"
definition RETAINED :: entry_flags where "RETAINED = 2"
definition RESERVED :: entry_flags where "RESERVED = 4"
definition ASSISTANT_ACCEPTED :: entry_flags where "ASSISTANT_ACCEPTED = 8"
definition FLAGS_DEFINED :: u16 where "FLAGS_DEFINED = 0b1111"

definition is_route_head :: "entry_flags \<Rightarrow> bool" where
  "is_route_head f \<longleftrightarrow> f = FLAGS_NONE \<or> f = ASSISTANT_ACCEPTED"

definition flags_decode :: "u16 \<Rightarrow> decode_error + entry_flags" where
  "flags_decode v =
     (if v AND NOT FLAGS_DEFINED \<noteq> 0 then Inl (DecodeError Entry UnknownEnum) else Inr v)"

definition has_flag :: "entry_flags \<Rightarrow> entry_flags \<Rightarrow> bool" where
  "has_flag f g \<longleftrightarrow> f AND g = g"

definition holds_slack :: "entry_flags \<Rightarrow> bool" where
  "holds_slack f \<longleftrightarrow> has_flag f RECORDING \<or> has_flag f RESERVED"

subsection \<open>Display names\<close>

definition NAME_CAPACITY :: nat where "NAME_CAPACITY = 48"

record display_name =
  name_bytes :: bytes
  name_len :: u8

definition name_default :: display_name where
  "name_default = \<lparr>name_bytes = zeros NAME_CAPACITY, name_len = 0\<rparr>"

definition name_new :: "bytes \<Rightarrow> display_name option" where
  "name_new txt =
     (if length txt > NAME_CAPACITY then None
      else Some \<lparr>name_bytes = put_bytes (name_bytes name_default) 0 txt,
                 name_len = of_nat (length txt)\<rparr>)"

definition name_as_bytes :: "display_name \<Rightarrow> bytes" where
  "name_as_bytes n = take (unat (name_len n)) (name_bytes n)"

text \<open>\<open>field\<close> is the 48-byte field of the entry; every caller passes exactly that many bytes.\<close>

definition name_decode :: "u8 \<Rightarrow> bytes \<Rightarrow> decode_error + display_name" where
  "name_decode len field =
     (if unat len > NAME_CAPACITY then Inl (DecodeError Entry Count)
      else if \<not> is_zero field (unat len) (NAME_CAPACITY - unat len)
        then Inl (DecodeError Entry Reserved)
      else Inr \<lparr>name_bytes = take NAME_CAPACITY field, name_len = len\<rparr>)"

text \<open>What every constructor of a name establishes: a 48-byte array whose pad is zero.\<close>

definition wf_name :: "display_name \<Rightarrow> bool" where
  "wf_name n \<longleftrightarrow> length (name_bytes n) = NAME_CAPACITY \<and> unat (name_len n) \<le> NAME_CAPACITY
     \<and> is_zero (name_bytes n) (unat (name_len n)) (NAME_CAPACITY - unat (name_len n))"

subsection \<open>Entry metadata, allocations and mutations\<close>

record entry_meta =
  added_at_utc :: u32
  obj :: object_id
  rev :: revision
  kind :: object_kind
  flags :: entry_flags
  payload_len :: u64
  payload_crc :: u32
  name :: display_name

definition meta_key :: "entry_meta \<Rightarrow> object_id \<times> revision" where
  "meta_key m = (obj m, rev m)"

record allocation =
  al_slot :: nat
  al_nonce :: u32
  al_reserved :: nat
  al_written :: nat

datatype put_source = Fresh allocation | Amend

datatype mutation = Put entry_meta put_source | Remove object_id revision

fun mutation_key :: "mutation \<Rightarrow> object_id \<times> revision" where
  "mutation_key (Put m _) = meta_key m"
| "mutation_key (Remove i r) = (i, r)"

definition RIDE_RESUME_LEN :: nat where "RIDE_RESUME_LEN = 96"

text \<open>
  \<open>Store::find_entry\<close> over the items \<open>entries\<close> yields: a failed read ends the search with its
  error instead of being taken for an absent object.
\<close>

fun find_entry :: "(entry_meta \<Rightarrow> bool) \<Rightarrow> (store_error + entry_meta) list
    \<Rightarrow> store_error + entry_meta option" where
  "find_entry p [] = Inr None"
| "find_entry p (Inl e # es) = Inl e"
| "find_entry p (Inr m # es) = (if p m then Inr (Some m) else find_entry p es)"

subsection \<open>Lemmas\<close>

lemmas flag_defs = FLAGS_NONE_def RECORDING_def RETAINED_def RESERVED_def
  ASSISTANT_ACCEPTED_def FLAGS_DEFINED_def

lemma kind_decode_value [simp]: "kind_decode (kind_value k) = Inr k"
  by (cases k) (simp_all add: kind_decode_def)

lemma kind_decode_Inr: "kind_decode v = Inr k \<longleftrightarrow> v = kind_value k"
  by (cases k) (auto simp: kind_decode_def split: if_splits)

lemma has_flag_bit:
  "has_flag f RECORDING \<longleftrightarrow> bit f 0" "has_flag f RETAINED \<longleftrightarrow> bit f 1"
  "has_flag f RESERVED \<longleftrightarrow> bit f 2" "has_flag f ASSISTANT_ACCEPTED \<longleftrightarrow> bit f 3"
proof -
  have "f AND push_bit n 1 = push_bit n 1 \<longleftrightarrow> bit f n" if "n < 16" for n
    using that
    by (auto intro!: bit_word_eqI simp: bit_simps dest!: arg_cong [where f = "\<lambda>w. bit w n"])
  from this [of 0] this [of 1] this [of 2] this [of 3]
  show "has_flag f RECORDING \<longleftrightarrow> bit f 0" "has_flag f RETAINED \<longleftrightarrow> bit f 1"
    "has_flag f RESERVED \<longleftrightarrow> bit f 2" "has_flag f ASSISTANT_ACCEPTED \<longleftrightarrow> bit f 3"
    by (simp_all add: has_flag_def flag_defs push_bit_eq_mult)
qed

lemma flags_decode_Inr: "flags_decode v = Inr f \<longleftrightarrow> v = f \<and> f AND NOT FLAGS_DEFINED = 0"
  by (auto simp: flags_decode_def)

lemma wf_name_default [simp]: "wf_name name_default"
  by (simp add: wf_name_def name_default_def NAME_CAPACITY_def codec_simps)

lemma name_new_wf:
  assumes "name_new txt = Some n"
  shows "wf_name n \<and> name_as_bytes n = txt"
proof -
  have len: "length txt \<le> 48"
    and n: "n = \<lparr>name_bytes = put_bytes (zeros 48) 0 txt, name_len = of_nat (length txt)\<rparr>"
    using assms by (auto simp: name_new_def NAME_CAPACITY_def name_default_def split: if_splits)
  have u: "unat (of_nat (length txt) :: u8) = length txt"
    using len by (simp add: word_unat_of_nat)
  have "is_zero (put_bytes (zeros 48) 0 txt) (length txt) (48 - length txt)"
    using len by (simp add: codec_simps)
  then show ?thesis
    using len by (simp add: n u wf_name_def name_as_bytes_def NAME_CAPACITY_def put_bytes_def)
qed

lemma name_decode_Inr:
  assumes "length field = NAME_CAPACITY"
  shows "name_decode l field = Inr n \<longleftrightarrow> wf_name n \<and> name_bytes n = field \<and> name_len n = l"
  using assms by (auto simp: name_decode_def wf_name_def)

lemma find_entry_first:
  "find_entry p es = Inr (Some m) \<longleftrightarrow>
   (\<exists>pre post. es = map Inr pre @ Inr m # post \<and> p m \<and> (\<forall>x\<in>set pre. \<not> p x))"
proof (induction p es rule: find_entry.induct)
  case (3 p x es)
  show ?case
  proof (cases "p x")
    case True
    then show ?thesis
      by (auto simp: Cons_eq_append_conv map_eq_Cons_conv intro: exI [of _ "[]"])
  next
    case False
    then have "find_entry p (Inr x # es) = Inr (Some m) \<longleftrightarrow>
        (\<exists>pre post. es = map Inr pre @ Inr m # post \<and> p m \<and> (\<forall>x\<in>set pre. \<not> p x))"
      using 3 by simp
    also have "\<dots> \<longleftrightarrow> (\<exists>pre post. Inr x # es = map Inr pre @ Inr m # post \<and> p m \<and> (\<forall>x\<in>set pre. \<not> p x))"
    proof (intro iffI; elim exE conjE)
      fix pre post
      assume "es = map Inr pre @ Inr m # post" "p m" "\<forall>x\<in>set pre. \<not> p x"
      then show "\<exists>pre post. Inr x # es = map Inr pre @ Inr m # post \<and> p m \<and> (\<forall>x\<in>set pre. \<not> p x)"
        using False by (intro exI [of _ "x # pre"] exI [of _ post]) auto
    next
      fix pre post
      assume "Inr x # es = map Inr pre @ Inr m # post" "p m" "\<forall>x\<in>set pre. \<not> p x"
      then show "\<exists>pre post. es = map Inr pre @ Inr m # post \<and> p m \<and> (\<forall>x\<in>set pre. \<not> p x)"
        using False by (cases pre) auto
    qed
    finally show ?thesis .
  qed
qed (auto simp: Cons_eq_append_conv map_eq_Cons_conv)

end
