(* ===== verification/Flat_Layout.thy ===== *)
theory Flat_Layout
  imports Flat_Seam
begin

text \<open>
  Card geometry, the region map and the address arithmetic of the read path, from
  \<open>firmware/obc-storage/src/flat/layout.rs\<close>.

  A \<open>Ranges\<close> of the source is an array of eight \<open>(u16, u16)\<close> pairs and a live count. The pairs
  past the count are zero from \<open>Default\<close> on and no operation writes them, so the model is the
  list of live pairs; \<open>wf_ranges\<close> carries the capacity. \<open>expand\<close> reads a range list as the
  extents it names in payload order, and the lemmas describe every operation through it.
\<close>

subsection \<open>The region map\<close>

definition BLOCK :: nat where "BLOCK = 512"
definition PROGRAM_PAGE :: nat where "PROGRAM_PAGE = 16384"
definition SUPERBLOCK :: "nat list" where "SUPERBLOCK = [0, 32]"
definition CATALOG :: "nat list" where "CATALOG = [64, 576]"
definition CATALOG_GATE_BLOCK :: nat where "CATALOG_GATE_BLOCK = 480"
definition ENTRY_BLOCKS :: nat where "ENTRY_BLOCKS = 480"
definition ENTRY_STRIDE :: nat where "ENTRY_STRIDE = 128"
definition ENTRIES_PER_BLOCK :: nat where "ENTRIES_PER_BLOCK = BLOCK div ENTRY_STRIDE"
definition ENTRY_CAPACITY :: nat where
  "ENTRY_CAPACITY = (ENTRY_BLOCKS - 1) * ENTRIES_PER_BLOCK"
definition JOURNAL :: nat where "JOURNAL = 1088"
definition SLOT_BLOCKS :: nat where "SLOT_BLOCKS = 32"
definition SLOTS :: nat where "SLOTS = 16"
definition EXTENT_AREA :: nat where "EXTENT_AREA = 4096"
definition MAX_EXTENTS :: nat where "MAX_EXTENTS = 65536"
definition MAX_RANGES :: nat where "MAX_RANGES = 8"
definition MIN_EXTENT_LOG2 :: nat where "MIN_EXTENT_LOG2 = 20"
definition MAX_EXTENT_LOG2 :: nat where "MAX_EXTENT_LOG2 = 31"

definition catalog_gate :: "nat \<Rightarrow> nat" where
  "catalog_gate copy = CATALOG ! copy + CATALOG_GATE_BLOCK"

definition slot_block :: "nat \<Rightarrow> nat" where
  "slot_block slot = JOURNAL + SLOT_BLOCKS * slot"

definition slot_header_block :: "nat \<Rightarrow> nat" where
  "slot_header_block slot = JOURNAL + SLOT_BLOCKS * SLOTS + SLOT_BLOCKS * slot"

definition body_len :: "nat \<Rightarrow> nat" where
  "body_len entries = BLOCK + entries * ENTRY_STRIDE"

subsection \<open>Geometry\<close>

record geometry =
  log2 :: u8

definition DEFAULT_GEOMETRY :: geometry where
  "DEFAULT_GEOMETRY = \<lparr>log2 = of_nat MIN_EXTENT_LOG2\<rparr>"

text \<open>The \<open>while\<close> of \<open>Geometry::for_card\<close>.\<close>

function for_card_loop :: "nat \<Rightarrow> nat \<Rightarrow> geometry option" where
  "for_card_loop want l =
     (if 2 ^ l < want
      then if MAX_EXTENT_LOG2 < l + 1 then None else for_card_loop want (l + 1)
      else Some \<lparr>log2 = of_nat l\<rparr>)"
  by auto
termination
  by (relation "measure (\<lambda>(_, l). MAX_EXTENT_LOG2 - l)") auto

definition for_card :: "nat \<Rightarrow> geometry option" where
  "for_card total_blocks =
     for_card_loop (div_ceil (saturating_mul 64 total_blocks BLOCK) MAX_EXTENTS) MIN_EXTENT_LOG2"

definition from_log2 :: "u8 \<Rightarrow> geometry option" where
  "from_log2 l =
     (if unat l < MIN_EXTENT_LOG2 \<or> unat l > MAX_EXTENT_LOG2 then None else Some \<lparr>log2 = l\<rparr>)"

definition extent_size :: "geometry \<Rightarrow> nat" where
  "extent_size g = 2 ^ unat (log2 g)"

definition extent_blocks :: "geometry \<Rightarrow> nat" where
  "extent_blocks g = 2 ^ (unat (log2 g) - 9)"

definition extent_count :: "geometry \<Rightarrow> nat \<Rightarrow> nat" where
  "extent_count g total_blocks = (total_blocks - EXTENT_AREA) div extent_blocks g"

definition extents_for :: "geometry \<Rightarrow> nat \<Rightarrow> nat" where
  "extents_for g n = div_ceil n (extent_size g)"

subsection \<open>Ranges\<close>

type_synonym ranges = "(u16 \<times> u16) list"

text \<open>The addition to the last count is a \<open>u16\<close> addition and wraps.\<close>

definition ranges_push :: "ranges \<Rightarrow> u16 \<Rightarrow> u16 \<Rightarrow> ranges option" where
  "ranges_push rs f e =
     (if e = 0 then None
      else if rs \<noteq> [] \<and> unat (fst (last rs)) + unat (snd (last rs)) = unat f
        then Some (butlast rs @ [(fst (last rs), snd (last rs) + e)])
      else if length rs = MAX_RANGES then None
      else Some (rs @ [(f, e)]))"

definition ranges_extents :: "ranges \<Rightarrow> nat" where
  "ranges_extents rs = sum_list (map (\<lambda>(_, c). unat c) rs)"

definition ranges_names :: "ranges \<Rightarrow> u16 \<Rightarrow> bool" where
  "ranges_names rs e = list_ex (\<lambda>(f, c). f \<le> e \<and> e - f < c) rs"

text \<open>\<open>let _ = kept.push(..)\<close>: a refused push changes nothing.\<close>

definition push_ignored :: "ranges \<Rightarrow> u16 \<Rightarrow> u16 \<Rightarrow> ranges" where
  "push_ignored rs f e = (case ranges_push rs f e of None \<Rightarrow> rs | Some rs' \<Rightarrow> rs')"

fun trim_loop :: "ranges \<Rightarrow> nat \<Rightarrow> ranges \<Rightarrow> ranges \<Rightarrow> ranges \<times> ranges" where
  "trim_loop [] remaining kept freed = (kept, freed)"
| "trim_loop ((f, c) # rs) remaining kept freed =
     (let keep = of_nat (min remaining (unat c)) :: u16;
          kept' = (if 0 < keep then push_ignored kept f keep else kept);
          remaining' = (if 0 < keep then remaining - unat keep else remaining);
          freed' = (if keep < c then push_ignored freed (f + keep) (c - keep) else freed)
      in trim_loop rs remaining' kept' freed')"

text \<open>\<open>Ranges::trim_to\<close>: the new value of the receiver, and the ranges it gave up.\<close>

definition trim_to :: "ranges \<Rightarrow> nat \<Rightarrow> ranges \<times> ranges" where
  "trim_to rs extents = trim_loop rs extents [] []"

record located =
  loc_block :: nat
  loc_offset :: nat
  contiguous :: nat

fun locate_loop :: "geometry \<Rightarrow> ranges \<Rightarrow> nat \<Rightarrow> nat \<Rightarrow> located option" where
  "locate_loop g [] start off = None"
| "locate_loop g ((f, c) # rs) start off =
     (let span = unat c * extent_size g in
      if off < start + span
      then let inner = off - start in
        Some \<lparr>loc_block = EXTENT_AREA + extent_blocks g * unat f + inner div BLOCK,
              loc_offset = inner mod BLOCK, contiguous = span - inner\<rparr>
      else locate_loop g rs (start + span) off)"

definition locate :: "ranges \<Rightarrow> geometry \<Rightarrow> nat \<Rightarrow> located option" where
  "locate rs g off = locate_loop g rs 0 off"

definition whole_blocks :: "located \<Rightarrow> nat \<Rightarrow> nat" where
  "whole_blocks l input_len = min (input_len div BLOCK) (contiguous l div BLOCK)"

text \<open>The loop of \<open>Ranges::decode\<close> over the indices of the field, \<open>out\<close> the ranges so far.\<close>

fun ranges_decode_loop :: "bytes \<Rightarrow> nat \<Rightarrow> nat \<Rightarrow> nat list \<Rightarrow> ranges \<Rightarrow> decode_error + ranges" where
  "ranges_decode_loop field range_count extents [] out = Inr out"
| "ranges_decode_loop field range_count extents (i # is) out =
     (let f = u16_at field (i * 4); c = u16_at field (i * 4 + 2) in
      if range_count \<le> i
      then if f \<noteq> 0 \<or> c \<noteq> 0 then Inl (DecodeError Entry Reserved)
        else ranges_decode_loop field range_count extents is out
      else if c = 0 \<or> unat f + unat c > extents then Inl (DecodeError Entry Ranges)
      else ranges_decode_loop field range_count extents is (out @ [(f, c)]))"

definition ranges_decode :: "bytes \<Rightarrow> u8 \<Rightarrow> nat \<Rightarrow> decode_error + ranges" where
  "ranges_decode field range_count extents =
     (if range_count = 0 \<or> unat range_count > MAX_RANGES then Inl (DecodeError Entry Count)
      else ranges_decode_loop field (unat range_count) extents [0..<MAX_RANGES] [])"

fun ranges_put :: "nat \<Rightarrow> ranges \<Rightarrow> bytes \<Rightarrow> bytes" where
  "ranges_put i [] out = out"
| "ranges_put i ((f, c) # rs) out =
     ranges_put (Suc i) rs (put_u16 (put_u16 out (i * 4) f) (i * 4 + 2) c)"

definition ranges_encode :: "ranges \<Rightarrow> bytes" where
  "ranges_encode rs = ranges_put 0 rs (zeros 32)"

subsection \<open>What a range list stands for\<close>

definition span_of :: "u16 \<times> u16 \<Rightarrow> nat list" where
  "span_of p = [unat (fst p)..<unat (fst p) + unat (snd p)]"

text \<open>The extents of an object in payload order.\<close>

definition expand :: "ranges \<Rightarrow> nat list" where
  "expand rs = concat (map span_of rs)"

text \<open>
  The card block and the byte in it where payload byte \<open>k\<close> of an object lives: extent
  \<open>k div extent_size\<close> of the expansion, and the place inside that extent.
\<close>

definition home :: "ranges \<Rightarrow> geometry \<Rightarrow> nat \<Rightarrow> nat \<times> nat" where
  "home rs g k = (EXTENT_AREA + extent_blocks g * (expand rs ! (k div extent_size g))
     + (k mod extent_size g) div BLOCK, k mod BLOCK)"

definition wf_range :: "u16 \<times> u16 \<Rightarrow> bool" where
  "wf_range p \<longleftrightarrow> 0 < unat (snd p) \<and> unat (fst p) + unat (snd p) \<le> MAX_EXTENTS"

definition wf_ranges :: "ranges \<Rightarrow> bool" where
  "wf_ranges rs \<longleftrightarrow> length rs \<le> MAX_RANGES \<and> list_all wf_range rs"

text \<open>The range list is inside a card of \<open>extents\<close> extents.\<close>

definition in_card :: "nat \<Rightarrow> ranges \<Rightarrow> bool" where
  "in_card extents rs \<longleftrightarrow> list_all (\<lambda>(f, c). c \<noteq> 0 \<and> unat f + unat c \<le> extents) rs"

definition wf_geometry :: "geometry \<Rightarrow> bool" where
  "wf_geometry g \<longleftrightarrow> 20 \<le> unat (log2 g) \<and> unat (log2 g) \<le> 31"

lemmas layout_consts [fmt_consts] =
  BLOCK_def PROGRAM_PAGE_def ENTRY_BLOCKS_def ENTRY_STRIDE_def ENTRIES_PER_BLOCK_def
  ENTRY_CAPACITY_def JOURNAL_def SLOT_BLOCKS_def SLOTS_def EXTENT_AREA_def MAX_EXTENTS_def
  MAX_RANGES_def MIN_EXTENT_LOG2_def MAX_EXTENT_LOG2_def CATALOG_GATE_BLOCK_def

subsection \<open>Geometry lemmas\<close>

declare for_card_loop.simps [simp del]

lemma extent_size_pos [simp]: "0 < extent_size g"
  by (simp add: extent_size_def)

lemma extent_blocks_pos [simp]: "0 < extent_blocks g"
  by (simp add: extent_blocks_def)

lemma extent_size_blocks: "wf_geometry g \<Longrightarrow> extent_size g = extent_blocks g * BLOCK"
proof -
  assume "wf_geometry g"
  then have "unat (log2 g) = unat (log2 g) - 9 + 9" by (simp add: wf_geometry_def)
  then have "(2::nat) ^ unat (log2 g) = 2 ^ (unat (log2 g) - 9) * 2 ^ 9"
    by (metis power_add)
  then show ?thesis by (simp add: extent_size_def extent_blocks_def BLOCK_def)
qed

lemma from_log2_wf: "from_log2 l = Some g \<longleftrightarrow> log2 g = l \<and> wf_geometry g"
  by (cases g) (auto simp: from_log2_def wf_geometry_def fmt_consts)

text \<open>The loop finds the least admissible exponent that is large enough.\<close>

lemma for_card_loop_spec:
  assumes "l \<le> 31"
  shows "for_card_loop want l =
    (if want \<le> 2 ^ 31 then Some \<lparr>log2 = of_nat (LEAST k. l \<le> k \<and> want \<le> 2 ^ k)\<rparr> else None)"
  using assms
proof (induction "31 - l" arbitrary: l)
  case 0
  then have l: "l = 31" by simp
  have "(LEAST k. 31 \<le> k \<and> want \<le> 2 ^ k) = 31" if "want \<le> 2 ^ 31"
    by (rule Least_equality) (use that in auto)
  then show ?case by (simp add: l for_card_loop.simps [of want 31] fmt_consts)
next
  case (Suc n)
  show ?case
  proof (cases "2 ^ l < want")
    case True
    then have eq: "(LEAST k. l \<le> k \<and> want \<le> 2 ^ k) = (LEAST k. l + 1 \<le> k \<and> want \<le> 2 ^ k)"
      by (intro arg_cong [where f = Least] ext) (auto simp: le_less not_less [symmetric] Suc_le_eq)
    have "\<not> 30 < l" using Suc(2) by linarith
    then have "for_card_loop want l = for_card_loop want (l + 1)"
      using True by (simp add: for_card_loop.simps [of want l] fmt_consts)
    also have "\<dots> = (if want \<le> 2 ^ 31
        then Some \<lparr>log2 = of_nat (LEAST k. l + 1 \<le> k \<and> want \<le> 2 ^ k)\<rparr> else None)"
      by (rule Suc(1)) (use Suc(2) in auto)
    finally show ?thesis by (simp only: eq)
  next
    case False
    then have "want \<le> 2 ^ l" by simp
    moreover have "(2::nat) ^ l \<le> 2 ^ 31" using Suc(3) by (rule power_increasing) simp
    ultimately have "want \<le> 2 ^ 31" by (rule order_trans)
    moreover have "(LEAST k. l \<le> k \<and> want \<le> 2 ^ k) = l"
      by (rule Least_equality) (use \<open>want \<le> 2 ^ l\<close> in auto)
    ultimately show ?thesis using False by (simp add: for_card_loop.simps [of want l])
  qed
qed

lemma for_card_Some:
  assumes "for_card n = Some g" and "n < 2 ^ 64"
  shows "n \<le> 2 ^ 38" and "wf_geometry g" and "n * BLOCK \<le> MAX_EXTENTS * extent_size g"
    and "extent_size g \<noteq> 2 ^ 20 \<Longrightarrow> MAX_EXTENTS * (extent_size g div 2) < n * BLOCK"
proof -
  define want where "want = div_ceil (saturating_mul 64 n BLOCK) MAX_EXTENTS"
  define k where "k = (LEAST k. 20 \<le> k \<and> want \<le> 2 ^ k)"
  have loop: "for_card_loop want 20 = Some g"
    using assms(1) by (simp add: for_card_def want_def fmt_consts)
  then have w: "want \<le> 2 ^ 31" and g: "g = \<lparr>log2 = of_nat k\<rparr>"
    by (simp_all add: for_card_loop_spec k_def split: if_splits)
  have bound: "saturating_mul 64 n 512 \<le> t * 65536 \<longleftrightarrow> want \<le> t" for t
    by (simp add: want_def div_ceil_le_iff fmt_consts)
  have "saturating_mul 64 n 512 \<le> 2 ^ 31 * 65536" using w by (simp only: bound)
  then show n: "n \<le> 2 ^ 38" by (simp add: saturating_mul_def min_def split: if_splits)
  then have sat: "saturating_mul 64 n 512 = n * 512" by (simp add: saturating_mul_def)
  have k: "20 \<le> k \<and> want \<le> 2 ^ k" unfolding k_def by (rule LeastI [of _ 31]) (use w in simp)
  have k31: "k \<le> 31" unfolding k_def by (rule Least_le) (use w in simp)
  have u: "unat (of_nat k :: u8) = k" using k31 by (simp add: word_unat_of_nat)
  show "wf_geometry g" using k k31 by (simp add: g wf_geometry_def u)
  show "n * BLOCK \<le> MAX_EXTENTS * extent_size g"
    using bound [of "2 ^ k"] k by (simp add: g extent_size_def u sat fmt_consts mult.commute)
  assume "extent_size g \<noteq> 2 ^ 20"
  then have "k \<noteq> 20" by (auto simp: g extent_size_def u)
  then obtain j where j: "k = Suc j" "20 \<le> j" using k by (cases k) auto
  have "\<not> want \<le> 2 ^ j"
    using not_less_Least [of j "\<lambda>k. 20 \<le> k \<and> want \<le> 2 ^ k"] j by (simp flip: k_def)
  then have "2 ^ j * 65536 < n * 512" using bound [of "2 ^ j"] by (simp add: sat)
  moreover have "extent_size g div 2 = 2 ^ j" by (simp add: g extent_size_def u) (simp add: j)
  ultimately show "MAX_EXTENTS * (extent_size g div 2) < n * BLOCK"
    by (simp add: fmt_consts)
qed

lemma for_card_None:
  assumes "n < 2 ^ 64"
  shows "for_card n = None \<longleftrightarrow> 2 ^ 38 < n"
proof -
  have "for_card n = None \<longleftrightarrow> \<not> div_ceil (saturating_mul 64 n 512) 65536 \<le> 2 ^ 31"
    by (simp add: for_card_def for_card_loop_spec fmt_consts)
  also have "\<dots> \<longleftrightarrow> 2 ^ 38 < n"
    by (auto simp: div_ceil_le_iff saturating_mul_def)
  finally show ?thesis .
qed

lemma extent_count_bound:
  assumes "wf_geometry g" and "n * BLOCK \<le> MAX_EXTENTS * extent_size g"
  shows "extent_count g n < MAX_EXTENTS"
proof -
  have "n * BLOCK \<le> MAX_EXTENTS * extent_blocks g * BLOCK"
    using assms by (simp add: extent_size_blocks mult.assoc)
  then have "n \<le> MAX_EXTENTS * extent_blocks g" by (simp add: BLOCK_def)
  moreover have "0 < MAX_EXTENTS * extent_blocks g" by (simp add: MAX_EXTENTS_def)
  ultimately have "n - EXTENT_AREA < MAX_EXTENTS * extent_blocks g"
    unfolding EXTENT_AREA_def by linarith
  then show ?thesis by (simp add: extent_count_def div_less_iff_less_mult)
qed

lemma extent_count_fits: "e < extent_count g n \<Longrightarrow> EXTENT_AREA + extent_blocks g * Suc e \<le> n"
proof -
  assume e: "e < extent_count g n"
  then have "extent_blocks g * Suc e \<le> extent_blocks g * extent_count g n"
    by (intro mult_le_mono2) simp
  also have "\<dots> \<le> n - EXTENT_AREA" by (simp add: extent_count_def mult.commute)
  finally have le: "extent_blocks g * Suc e \<le> n - EXTENT_AREA" .
  moreover have "0 < extent_blocks g * Suc e" by simp
  ultimately have "0 < n - EXTENT_AREA" by linarith
  then show ?thesis using le by linarith
qed

subsection \<open>Extents of a range list\<close>

lemma expand_simps [simp]:
  "expand [] = []" "expand (p # rs) = span_of p @ expand rs"
  "expand (rs @ rs') = expand rs @ expand rs'"
  by (simp_all add: expand_def)

lemma length_span_of [simp]: "length (span_of p) = unat (snd p)"
  by (simp add: span_of_def)

lemma length_expand: "length (expand rs) = ranges_extents rs"
  by (induction rs) (auto simp: ranges_extents_def)

lemma ranges_extents_simps [simp]:
  "ranges_extents [] = 0" "ranges_extents (p # rs) = unat (snd p) + ranges_extents rs"
  "ranges_extents (rs @ rs') = ranges_extents rs + ranges_extents rs'"
  by (simp_all add: ranges_extents_def split: prod.splits)

lemma names_expand:
  assumes "list_all wf_range rs"
  shows "ranges_names rs e \<longleftrightarrow> unat e \<in> set (expand rs)"
proof -
  have "f \<le> e \<and> e - f < c \<longleftrightarrow> unat e \<in> set (span_of (f, c))" for f c :: u16
    by (auto simp: span_of_def word_le_nat_alt word_less_nat_alt unat_sub)
  then show ?thesis by (induction rs) (auto simp: ranges_names_def)
qed

lemma expand_bound:
  "list_all wf_range rs \<Longrightarrow> e \<in> set (expand rs) \<Longrightarrow> e < MAX_EXTENTS"
  by (induction rs) (auto simp: span_of_def wf_range_def)

lemma span_of_merge:
  assumes "unat (fst p) + unat (snd p) = unat f" and "unat (snd p) + unat e < 2 ^ 16"
  shows "span_of (fst p, snd p + e) = span_of p @ span_of (f, e)"
proof -
  have "unat (snd p + e) = unat (snd p) + unat e"
    using assms(2) by (simp add: unat_add_no_wrap)
  then have "unat (fst p) + unat (snd p + e) = unat f + unat e" using assms(1) by simp
  moreover have "[unat (fst p)..<unat f + unat e] = [unat (fst p)..<unat f] @ [unat f..<unat f + unat e]"
    by (rule upt_add_eq_append) (use assms(1) in linarith)
  ultimately show ?thesis using assms(1) by (simp add: span_of_def)
qed

text \<open>A successful push appends the extents of the new range, coalesced or not.\<close>

lemma push_expand:
  assumes "ranges_push rs f e = Some rs'" and "ranges_extents rs + unat e < MAX_EXTENTS"
  shows "expand rs' = expand rs @ span_of (f, e)"
proof (cases "rs \<noteq> [] \<and> unat (fst (last rs)) + unat (snd (last rs)) = unat f")
  case True
  define ys p where "ys = butlast rs" and "p = last rs"
  have rs: "rs = ys @ [p]" using True by (simp add: ys_def p_def)
  have rs': "rs' = ys @ [(fst p, snd p + e)]"
    using True assms(1) by (auto simp: ranges_push_def ys_def p_def split: if_splits)
  have "unat (snd p) + unat e < 2 ^ 16" using assms(2) by (simp add: rs fmt_consts)
  then show ?thesis using True by (simp add: rs rs' span_of_merge)
next
  case False
  then have "rs' = rs @ [(f, e)]"
    using assms(1) by (auto simp: ranges_push_def split: if_splits)
  then show ?thesis by simp
qed

lemma push_wf:
  assumes "ranges_push rs f e = Some rs'" and "ranges_extents rs + unat e < MAX_EXTENTS"
    and "wf_ranges rs" and "unat f + unat e \<le> MAX_EXTENTS"
  shows "wf_ranges rs'"
proof (cases "rs \<noteq> [] \<and> unat (fst (last rs)) + unat (snd (last rs)) = unat f")
  case True
  define ys p where "ys = butlast rs" and "p = last rs"
  have rs: "rs = ys @ [p]" using True by (simp add: ys_def p_def)
  have rs': "rs' = ys @ [(fst p, snd p + e)]"
    using True assms(1) by (auto simp: ranges_push_def ys_def p_def split: if_splits)
  have "unat (snd p + e) = unat (snd p) + unat e"
    using assms(2) by (simp add: rs fmt_consts unat_add_no_wrap)
  then show ?thesis
    using True assms(3,4) by (auto simp: rs rs' wf_ranges_def wf_range_def)
next
  case False
  then have "rs' = rs @ [(f, e)] \<and> e \<noteq> 0 \<and> length rs \<noteq> MAX_RANGES"
    using assms(1) by (auto simp: ranges_push_def split: if_splits)
  then show ?thesis
    using assms(3,4) by (auto simp: wf_ranges_def wf_range_def unat_gt_0)
qed

lemma push_length: "ranges_push rs f e = Some rs' \<Longrightarrow> length rs' \<le> Suc (length rs)"
  by (auto simp: ranges_push_def split: if_splits)

lemma push_room: "e \<noteq> 0 \<Longrightarrow> length rs < MAX_RANGES \<Longrightarrow> \<exists>rs'. ranges_push rs f e = Some rs'"
  by (auto simp: ranges_push_def)

lemma push_ignored_room:
  assumes "e \<noteq> 0" and "length rs < MAX_RANGES" and "ranges_extents rs + unat e < MAX_EXTENTS"
    and "wf_ranges rs" and "unat f + unat e \<le> MAX_EXTENTS"
  shows "expand (push_ignored rs f e) = expand rs @ span_of (f, e)"
    and "wf_ranges (push_ignored rs f e)" and "length (push_ignored rs f e) \<le> Suc (length rs)"
proof -
  obtain rs' where rs': "ranges_push rs f e = Some rs'"
    using push_room [OF assms(1,2)] by blast
  show "expand (push_ignored rs f e) = expand rs @ span_of (f, e)"
    using push_expand [OF rs' assms(3)] by (simp add: push_ignored_def rs')
  show "wf_ranges (push_ignored rs f e)"
    using push_wf [OF rs' assms(3-5)] by (simp add: push_ignored_def rs')
  show "length (push_ignored rs f e) \<le> Suc (length rs)"
    using push_length [OF rs'] by (simp add: push_ignored_def rs')
qed

text \<open>The two halves a trim cuts one range into.\<close>

lemma span_of_split:
  assumes "wf_range (f, c)" and "k \<le> unat c" and "keep = of_nat k"
  shows "unat keep = k" and "span_of (f, keep) = take k (span_of (f, c))"
    and "k < unat c \<Longrightarrow> span_of (f + keep, c - keep) = drop k (span_of (f, c))"
    and "k < unat c \<Longrightarrow> wf_range (f + keep, c - keep)"
proof -
  have c: "unat c < 65536" using unsigned_less [of c] by simp
  then show keep: "unat keep = k" using assms(2,3) by (simp add: word_unat_of_nat)
  show "span_of (f, keep) = take k (span_of (f, c))"
    using assms(2) by (simp add: span_of_def keep take_upt)
  assume less: "k < unat c"
  have "unat f + k < 2 ^ 16" using assms(1) less by (simp add: wf_range_def fmt_consts)
  then have f: "unat (f + keep) = unat f + k" using keep by (simp add: unat_add_no_wrap)
  have "keep \<le> c" using less keep by (simp add: word_le_nat_alt)
  then have d: "unat (c - keep) = unat c - k" using keep by (simp add: unat_sub)
  show "span_of (f + keep, c - keep) = drop k (span_of (f, c))"
    using less by (simp add: span_of_def f d drop_upt)
  show "wf_range (f + keep, c - keep)"
    using assms(1) less by (simp add: wf_range_def f d)
qed

subsection \<open>Trimming\<close>

lemma trim_loop_spec:
  assumes "trim_loop rs r kept freed = (kept', freed')"
    and "list_all wf_range rs" and "wf_ranges kept" and "wf_ranges freed"
    and "length kept + length rs \<le> MAX_RANGES" and "length freed + length rs \<le> MAX_RANGES"
    and "ranges_extents kept + ranges_extents rs < MAX_EXTENTS"
    and "ranges_extents freed + ranges_extents rs < MAX_EXTENTS"
  shows "expand kept' = expand kept @ take r (expand rs) \<and> wf_ranges kept'
    \<and> expand freed' = expand freed @ drop r (expand rs) \<and> wf_ranges freed'"
  using assms
proof (induction rs arbitrary: r kept freed)
  case Nil
  then show ?case by simp
next
  case (Cons p rs)
  obtain f c where p: "p = (f, c)" by (cases p)
  have wfp: "wf_range (f, c)" using Cons.prems(2) by (simp add: p)
  define k where "k = min r (unat c)"
  define keep where "keep = (of_nat k :: u16)"
  define kept1 where "kept1 = (if 0 < keep then push_ignored kept f keep else kept)"
  define freed1 where "freed1 = (if keep < c then push_ignored freed (f + keep) (c - keep) else freed)"
  have k: "k \<le> unat c" by (simp add: k_def)
  note cut = span_of_split [OF wfp k keep_def]
  have pos: "0 < keep \<longleftrightarrow> 0 < k" and less: "keep < c \<longleftrightarrow> k < unat c"
    using cut(1) by (simp_all add: word_less_nat_alt)
  have "(if 0 < keep then r - unat keep else r) = r - k" using pos cut(1) by auto
  then have rec: "trim_loop rs (r - k) kept1 freed1 = (kept', freed')"
    using Cons.prems(1) by (simp add: p Let_def k_def [symmetric] keep_def [symmetric]
        kept1_def freed1_def)
  have kept1: "expand kept1 = expand kept @ take k (span_of (f, c)) \<and> wf_ranges kept1
      \<and> length kept1 \<le> Suc (length kept)"
  proof (cases "0 < k")
    case True
    have kk: "kept1 = push_ignored kept f keep" and nz: "keep \<noteq> 0"
      using True pos by (auto simp: kept1_def)
    have room: "length kept < MAX_RANGES" using Cons.prems(5) by simp
    have ext: "ranges_extents kept + unat keep < MAX_EXTENTS"
      using Cons.prems(7) k cut(1) by (simp add: p)
    have fits: "unat f + unat keep \<le> MAX_EXTENTS"
      using wfp k cut(1) by (simp add: wf_range_def)
    note pushed = push_ignored_room [OF nz room ext Cons.prems(3) fits]
    show ?thesis using pushed cut(2) by (simp add: kk)
  qed (use pos Cons.prems(3) in \<open>simp add: kept1_def\<close>)
  have freed1: "expand freed1 = expand freed @ drop k (span_of (f, c)) \<and> wf_ranges freed1
      \<and> length freed1 \<le> Suc (length freed)"
  proof (cases "k < unat c")
    case True
    note tail = cut(3) [OF True] cut(4) [OF True]
    have ff: "freed1 = push_ignored freed (f + keep) (c - keep)" and nz: "c - keep \<noteq> 0"
      using True less by (auto simp: freed1_def)
    have "unat (c - keep) = length (drop k (span_of (f, c)))"
      using arg_cong [OF tail(1), of length] by simp
    then have u: "unat (c - keep) \<le> unat c" by simp
    have room: "length freed < MAX_RANGES" using Cons.prems(6) by simp
    have ext: "ranges_extents freed + unat (c - keep) < MAX_EXTENTS"
      using Cons.prems(8) u by (simp add: p)
    have fits: "unat (f + keep) + unat (c - keep) \<le> MAX_EXTENTS"
      using tail(2) by (simp add: wf_range_def)
    note pushed = push_ignored_room [OF nz room ext Cons.prems(4) fits]
    show ?thesis using pushed tail(1) by (simp add: ff)
  qed (use less k Cons.prems(4) in \<open>simp add: freed1_def\<close>)
  have "ranges_extents kept1 \<le> ranges_extents kept + unat c"
    and "ranges_extents freed1 \<le> ranges_extents freed + unat c"
    using kept1 freed1 k by (simp_all flip: length_expand)
  then have "expand kept' = expand kept1 @ take (r - k) (expand rs) \<and> wf_ranges kept'
      \<and> expand freed' = expand freed1 @ drop (r - k) (expand rs) \<and> wf_ranges freed'"
    using Cons.prems kept1 freed1 by (intro Cons.IH [OF rec]) (auto simp: p)
  moreover have "take k (span_of (f, c)) @ take (r - k) (expand rs) = take r (span_of (f, c) @ expand rs)"
    and "drop k (span_of (f, c)) @ drop (r - k) (expand rs) = drop r (span_of (f, c) @ expand rs)"
    by (auto simp: k_def min_def)
  ultimately show ?case using kept1 freed1 by (simp add: p)
qed

lemma trim_to_spec:
  assumes "wf_ranges rs" and "ranges_extents rs < MAX_EXTENTS" and "trim_to rs n = (kept, freed)"
  shows "expand kept = take n (expand rs) \<and> expand freed = drop n (expand rs)
    \<and> wf_ranges kept \<and> wf_ranges freed"
  using trim_loop_spec [of rs n "[]" "[]" kept freed] assms
  by (simp add: trim_to_def wf_ranges_def)

subsection \<open>Locating a payload byte\<close>

lemma div_mod_blocks:
  assumes "sz = eb * (b :: nat)" and "0 < b"
  shows "eb * (k div sz) + (k mod sz) div b = k div b"
proof -
  have "k = b * (eb * (k div sz)) + k mod sz"
    using assms(1) by (metis mult.assoc mult.commute mult_div_mod_eq)
  then have "k div b = (b * (eb * (k div sz)) + k mod sz) div b" by simp
  also have "\<dots> = eb * (k div sz) + (k mod sz) div b"
    using assms(2) by simp
  finally show ?thesis by simp
qed

lemma home_Cons:
  assumes "wf_geometry g"
  shows "k < unat (snd p) * extent_size g \<Longrightarrow>
      home (p # rs) g k = (EXTENT_AREA + extent_blocks g * unat (fst p) + k div BLOCK, k mod BLOCK)"
    and "home (p # rs) g (unat (snd p) * extent_size g + k) = home rs g k"
proof -
  assume "k < unat (snd p) * extent_size g"
  then have "k div extent_size g < unat (snd p)" by (simp add: div_less_iff_less_mult)
  then have "expand (p # rs) ! (k div extent_size g) = unat (fst p) + k div extent_size g"
    by (simp add: nth_append) (simp add: span_of_def)
  moreover have "extent_blocks g * (k div extent_size g) + (k mod extent_size g) div BLOCK = k div BLOCK"
    by (rule div_mod_blocks) (use assms in \<open>simp_all add: extent_size_blocks BLOCK_def\<close>)
  ultimately show "home (p # rs) g k
      = (EXTENT_AREA + extent_blocks g * unat (fst p) + k div BLOCK, k mod BLOCK)"
    by (simp add: home_def algebra_simps)
next
  have "BLOCK dvd unat (snd p) * extent_size g" using assms by (simp add: extent_size_blocks)
  then have "(unat (snd p) * extent_size g + k) mod BLOCK = k mod BLOCK"
    by (metis add.commute mod_add_self2 dvd_def mod_mult_self2)
  then show "home (p # rs) g (unat (snd p) * extent_size g + k) = home rs g k"
    by (simp add: home_def nth_append)
qed

lemma locate_loop_spec:
  assumes "wf_geometry g"
  shows "case locate_loop g rs start (start + k) of
      None \<Rightarrow> ranges_extents rs * extent_size g \<le> k
    | Some l \<Rightarrow> k + contiguous l \<le> ranges_extents rs * extent_size g \<and> 0 < contiguous l
        \<and> loc_offset l < BLOCK
        \<and> (\<forall>j < contiguous l. home rs g (k + j)
             = (loc_block l + (loc_offset l + j) div BLOCK, (loc_offset l + j) mod BLOCK))"
proof (induction rs arbitrary: start k)
  case Nil
  then show ?case by simp
next
  case (Cons p rs)
  obtain f c where p: "p = (f, c)" by (cases p)
  show ?case
  proof (cases "k < unat c * extent_size g")
    case True
    have "home (p # rs) g (k + j) = (EXTENT_AREA + extent_blocks g * unat f + k div BLOCK
        + (k mod BLOCK + j) div BLOCK, (k mod BLOCK + j) mod BLOCK)"
      if "j < unat c * extent_size g - k" for j
    proof -
      have "k + j = BLOCK * (k div BLOCK) + (k mod BLOCK + j)" by simp
      then have "(k + j) div BLOCK = (BLOCK * (k div BLOCK) + (k mod BLOCK + j)) div BLOCK"
        by (rule arg_cong)
      also have "\<dots> = k div BLOCK + (k mod BLOCK + j) div BLOCK"
        by (rule div_mult_self4) (simp add: BLOCK_def)
      finally have "(k + j) div BLOCK = k div BLOCK + (k mod BLOCK + j) div BLOCK" .
      then show ?thesis
        using home_Cons(1) [OF assms, of "k + j" p rs] that by (simp add: p mod_add_left_eq)
    qed
    moreover have "locate_loop g (p # rs) start (start + k)
        = Some \<lparr>loc_block = EXTENT_AREA + extent_blocks g * unat f + k div BLOCK,
                loc_offset = k mod BLOCK, contiguous = unat c * extent_size g - k\<rparr>"
      using True by (simp add: p)
    moreover have "k + (unat c * extent_size g - k) \<le> ranges_extents (p # rs) * extent_size g"
      using True by (simp add: p algebra_simps)
    moreover have "k mod BLOCK < BLOCK" by (simp add: BLOCK_def)
    ultimately show ?thesis using True by simp
  next
    case False
    define m where "m = k - unat c * extent_size g"
    have k: "k = unat c * extent_size g + m" using False by (simp add: m_def)
    have "home (p # rs) g (k + j) = home rs g (m + j)" for j
      using home_Cons(2) [OF assms, of p rs "m + j"] by (simp add: p k add.assoc)
    moreover have "locate_loop g (p # rs) start (start + k)
        = locate_loop g rs (start + unat c * extent_size g) (start + unat c * extent_size g + m)"
      by (simp add: p k add.assoc Let_def)
    moreover have "ranges_extents (p # rs) * extent_size g
        = unat c * extent_size g + ranges_extents rs * extent_size g"
      by (simp add: p algebra_simps)
    ultimately show ?thesis
      using Cons.IH [where start = "start + unat c * extent_size g" and k = m]
      by (simp add: k split: option.splits)
  qed
qed

lemma locate_None:
  assumes "wf_geometry g"
  shows "locate rs g off = None \<longleftrightarrow> ranges_extents rs * extent_size g \<le> off"
  using locate_loop_spec [OF assms, where rs = rs and start = 0 and k = off] by (auto simp: locate_def split: option.splits)

lemma locate_Some:
  assumes "wf_geometry g" and "locate rs g off = Some l"
  shows "off + contiguous l \<le> ranges_extents rs * extent_size g \<and> 0 < contiguous l
    \<and> loc_offset l < BLOCK
    \<and> (\<forall>j < contiguous l. home rs g (off + j)
         = (loc_block l + (loc_offset l + j) div BLOCK, (loc_offset l + j) mod BLOCK))"
  using locate_loop_spec [OF assms(1), where rs = rs and start = 0 and k = off] assms(2) by (simp add: locate_def)

text \<open>Distinct payload bytes of objects with disjoint extents never share a card byte.\<close>

lemma home_inj:
  assumes "wf_geometry g" and "distinct (expand rs @ expand rs')"
    and "k < ranges_extents rs * extent_size g" and "k' < ranges_extents rs' * extent_size g"
  shows "home rs g k \<noteq> home rs' g k'"
proof
  assume eq: "home rs g k = home rs' g k'"
  define x x' where "x = expand rs ! (k div extent_size g)" and "x' = expand rs' ! (k' div extent_size g)"
  define y y' where "y = (k mod extent_size g) div BLOCK" and "y' = (k' mod extent_size g) div BLOCK"
  have "y < extent_blocks g" and "y' < extent_blocks g"
    using assms(1) by (simp_all add: y_def y'_def extent_size_blocks BLOCK_def less_mult_imp_div_less)
  moreover have "extent_blocks g * x + y = extent_blocks g * x' + y'"
    using eq by (simp add: home_def x_def x'_def y_def y'_def)
  ultimately have "x = x'"
    by (metis add.commute div_mult_self2 div_less add_cancel_right_left less_not_refl2 extent_blocks_pos)
  moreover have "x \<in> set (expand rs)" and "x' \<in> set (expand rs')"
    using assms(3,4) by (simp_all add: x_def x'_def length_expand div_less_iff_less_mult)
  ultimately show False using assms(2) by auto
qed

subsection \<open>The range field\<close>

lemma ranges_put_eq:
  "length pre = i * 4 \<Longrightarrow> length post = 4 * length rs \<Longrightarrow>
   ranges_put i rs (pre @ post @ rest) = pre @ concat (map (\<lambda>(f, c). le16 f @ le16 c) rs) @ rest"
proof (induction rs arbitrary: i pre post)
  case (Cons p rs)
  obtain f c where p: "p = (f, c)" by (cases p)
  define post' where "post' = drop 4 post"
  have "post = take 4 post @ post'" and "length post' = 4 * length rs"
    using Cons.prems(2) by (simp_all add: post'_def)
  moreover have "length (take 4 post) = 4" using Cons.prems(2) by simp
  ultimately have "put_u16 (put_u16 (pre @ post @ rest) (i * 4) f) (i * 4 + 2) c
      = (pre @ le16 f @ le16 c) @ post' @ rest"
    using Cons.prems(1) by (simp add: put_u16_def put_bytes_def post'_def)
  then show ?case
    using Cons.IH [of "pre @ le16 f @ le16 c" "Suc i" post'] Cons.prems(1) \<open>length post' = _\<close>
    by (simp add: p)
qed simp

lemma ranges_encode_eq:
  assumes "length rs \<le> MAX_RANGES"
  shows "ranges_encode rs = concat (map (\<lambda>(f, c). le16 f @ le16 c) rs) @ zeros (32 - 4 * length rs)"
proof -
  have "zeros 32 = [] @ zeros (4 * length rs) @ zeros (32 - 4 * length rs)"
    using assms by (simp add: zeros_append MAX_RANGES_def)
  then show ?thesis
    using ranges_put_eq [of "[]" 0 "zeros (4 * length rs)" rs "zeros (32 - 4 * length rs)"]
    by (simp add: ranges_encode_def)
qed

lemma length_pairs: "length (concat (map (\<lambda>(f, c). le16 f @ le16 c) rs)) = 4 * length rs"
  by (induction rs) auto

lemma length_ranges_encode [simp]: "length rs \<le> MAX_RANGES \<Longrightarrow> length (ranges_encode rs) = 32"
  by (simp add: ranges_encode_eq length_pairs MAX_RANGES_def)

lemma ranges_encode_nth:
  assumes "length rs \<le> MAX_RANGES" and "i < MAX_RANGES"
  shows "u16_at (ranges_encode rs) (i * 4) = (if i < length rs then fst (rs ! i) else 0)"
    and "u16_at (ranges_encode rs) (i * 4 + 2) = (if i < length rs then snd (rs ! i) else 0)"
proof -
  let ?pairs = "\<lambda>rs. concat (map (\<lambda>(f, c). le16 f @ le16 c) rs)"
  have 0: "of_le (zeros 2) = (0 :: u16)" by (simp add: zeros_def numeral_2_eq_2)
  have "u16_at (ranges_encode rs) (i * 4) = (if i < length rs then fst (rs ! i) else 0)
      \<and> u16_at (ranges_encode rs) (i * 4 + 2) = (if i < length rs then snd (rs ! i) else 0)"
  proof (cases "i < length rs")
    case True
    obtain f c where fc: "rs ! i = (f, c)" by (cases "rs ! i")
    have "rs = take i rs @ (f, c) # drop (Suc i) rs"
      using id_take_nth_drop [OF True] by (simp only: fc)
    then have "?pairs rs = ?pairs (take i rs) @ (le16 f @ le16 c) @ ?pairs (drop (Suc i) rs)"
      by (metis (no_types, lifting) concat.simps(2) concat_append list.simps(9) map_append case_prod_conv)
    moreover have "length (?pairs (take i rs)) = i * 4" using True by (simp add: length_pairs)
    ultimately have "slice (i * 4) 2 (ranges_encode rs) = le16 f"
      and "slice (i * 4 + 2) 2 (ranges_encode rs) = le16 c"
      using assms(1) by (simp_all add: ranges_encode_eq slice_def)
    then show ?thesis using True fc by (simp add: u16_at_def)
  next
    case False
    have "slice (i * 4) 2 (ranges_encode rs) = zeros 2"
      and "slice (i * 4 + 2) 2 (ranges_encode rs) = zeros 2"
      using assms False by (simp_all add: ranges_encode_eq slice_def length_pairs MAX_RANGES_def)
    then show ?thesis using False by (simp add: u16_at_def 0)
  qed
  then show "u16_at (ranges_encode rs) (i * 4) = (if i < length rs then fst (rs ! i) else 0)"
    and "u16_at (ranges_encode rs) (i * 4 + 2) = (if i < length rs then snd (rs ! i) else 0)"
    by simp_all
qed

lemma fields_eq:
  assumes "length xs = 32" and "length ys = 32"
    and "\<And>i. i < 8 \<Longrightarrow> u16_at xs (i * 4) = u16_at ys (i * 4) \<and> u16_at xs (i * 4 + 2) = u16_at ys (i * 4 + 2)"
  shows "xs = ys"
proof (rule nth_equalityI)
  fix n assume "n < length xs"
  then have n: "n < 32" using assms(1) by simp
  define i m where "i = n div 4" and "m = 2 * (n mod 4 div 2)"
  have i: "i < 8" using n by (simp add: i_def)
  have "n mod 4 < 4" by simp
  then have m: "m = 0 \<or> m = 2" and "n mod 4 = m + n mod 4 mod 2"
    by (auto simp: m_def)
  then have eq: "n = (i * 4 + m) + n mod 4 mod 2"
    using div_mult_mod_eq [of n 4] unfolding i_def by linarith
  have "u16_at xs (i * 4 + m) = u16_at ys (i * 4 + m)"
    using assms(3) [OF i] m by auto
  moreover have "i * 4 + m + 2 \<le> 32" using i m by auto
  ultimately have sl: "slice (i * 4 + m) 2 xs = slice (i * 4 + m) 2 ys"
    using assms(1,2) by (simp add: u16_at_def of_le_inj)
  have r: "n mod 4 mod 2 < 2" by simp
  have "xs ! n = slice (i * 4 + m) 2 xs ! (n mod 4 mod 2)"
    using nth_slice [OF r, of "i * 4 + m" xs] n assms(1) by (simp flip: eq)
  also have "\<dots> = ys ! n"
    using nth_slice [OF r, of "i * 4 + m" ys] n assms(2) sl by (simp flip: eq)
  finally show "xs ! n = ys ! n" .
qed (use assms in simp)

lemma filter_less_upt: "n \<le> m \<Longrightarrow> filter (\<lambda>i. i < n) [0..<m] = [0..<n]"
  by (induction m) (auto simp: le_Suc_eq)

lemma ranges_decode_loop_iff:
  "ranges_decode_loop field rc ec is out = Inr rs \<longleftrightarrow>
     (\<forall>i\<in>set is. if rc \<le> i then u16_at field (i * 4) = 0 \<and> u16_at field (i * 4 + 2) = 0
        else u16_at field (i * 4 + 2) \<noteq> 0
          \<and> unat (u16_at field (i * 4)) + unat (u16_at field (i * 4 + 2)) \<le> ec)
     \<and> rs = out @ map (\<lambda>i. (u16_at field (i * 4), u16_at field (i * 4 + 2))) (filter (\<lambda>i. i < rc) is)"
  by (induction "is" arbitrary: out) (auto simp: Let_def)

text \<open>
  The decoder accepts exactly the encodings of the range lists of the named length inside the
  card, and gives back the list.
\<close>

lemma ranges_decode_iff:
  assumes "length field = 32"
  shows "ranges_decode field rc ec = Inr rs \<longleftrightarrow>
    rs \<noteq> [] \<and> length rs \<le> MAX_RANGES \<and> in_card ec rs \<and> unat rc = length rs \<and> field = ranges_encode rs"
proof
  let ?pair = "\<lambda>i. (u16_at field (i * 4), u16_at field (i * 4 + 2))"
  assume dec: "ranges_decode field rc ec = Inr rs"
  then have rc: "0 < unat rc" "unat rc \<le> 8"
    by (auto simp: ranges_decode_def MAX_RANGES_def unat_gt_0 split: if_splits)
  have "filter (\<lambda>i. i < unat rc) [0..<8] = [0..<unat rc]"
    using rc(2) by (simp add: filter_less_upt)
  then have rs: "rs = map ?pair [0..<unat rc]"
    and all: "\<forall>i<8. if unat rc \<le> i then ?pair i = (0, 0)
        else snd (?pair i) \<noteq> 0 \<and> unat (fst (?pair i)) + unat (snd (?pair i)) \<le> ec"
    using dec by (auto simp: ranges_decode_def ranges_decode_loop_iff MAX_RANGES_def split: if_splits)
  have len: "length rs = unat rc" by (simp add: rs)
  have "snd (?pair i) \<noteq> 0 \<and> unat (fst (?pair i)) + unat (snd (?pair i)) \<le> ec" if "i < unat rc" for i
    using all [rule_format, of i] that rc by (auto split: if_splits)
  then have card: "in_card ec rs" by (auto simp: in_card_def rs list_all_iff)
  have "field = ranges_encode rs"
  proof (rule fields_eq)
    show "length (ranges_encode rs) = 32" using rc len by (simp add: MAX_RANGES_def)
    fix i :: nat assume i: "i < 8"
    then show "u16_at field (i * 4) = u16_at (ranges_encode rs) (i * 4)
        \<and> u16_at field (i * 4 + 2) = u16_at (ranges_encode rs) (i * 4 + 2)"
      using ranges_encode_nth [of rs i] rc len all [rule_format, OF i]
      by (auto simp: MAX_RANGES_def rs split: if_splits)
  qed (use assms in simp)
  then show "rs \<noteq> [] \<and> length rs \<le> MAX_RANGES \<and> in_card ec rs \<and> unat rc = length rs \<and> field = ranges_encode rs"
    using rc len card by (auto simp: MAX_RANGES_def)
next
  assume *: "rs \<noteq> [] \<and> length rs \<le> MAX_RANGES \<and> in_card ec rs \<and> unat rc = length rs \<and> field = ranges_encode rs"
  then have rc: "rc \<noteq> 0" "unat rc \<le> MAX_RANGES" by (auto simp: unat_eq_0)
  have "map (\<lambda>i. (u16_at field (i * 4), u16_at field (i * 4 + 2))) (filter (\<lambda>i. i < length rs) [0..<MAX_RANGES]) = rs"
  proof -
    have "filter (\<lambda>i. i < length rs) [0..<MAX_RANGES] = [0..<length rs]"
      using * by (simp add: filter_less_upt)
    then show ?thesis
      using * by (intro nth_equalityI) (auto simp: ranges_encode_nth simp del: add_2_eq_Suc')
  qed
  moreover have "\<forall>i\<in>set [0..<MAX_RANGES]. if length rs \<le> i then u16_at field (i * 4) = 0 \<and> u16_at field (i * 4 + 2) = 0
        else u16_at field (i * 4 + 2) \<noteq> 0
          \<and> unat (u16_at field (i * 4)) + unat (u16_at field (i * 4 + 2)) \<le> ec"
    using * by (auto simp: ranges_encode_nth in_card_def list_all_length split_beta simp del: add_2_eq_Suc')
  ultimately show "ranges_decode field rc ec = Inr rs"
    using * rc by (auto simp: ranges_decode_def ranges_decode_loop_iff)
qed

lemma in_card_wf: "in_card ec rs \<Longrightarrow> ec \<le> MAX_EXTENTS \<Longrightarrow> list_all wf_range rs"
  by (auto simp: in_card_def wf_range_def list_all_iff unat_gt_0)

lemma in_card_expand: "in_card ec rs \<Longrightarrow> e \<in> set (expand rs) \<Longrightarrow> e < ec"
  by (induction rs) (auto simp: in_card_def span_of_def)

subsection \<open>Properties\<close>



text \<open>
  C37: the read path's address arithmetic. An offset is located exactly when it is inside the
  object's extents; the block and byte returned are where that payload byte lives, and so are
  the following ones for the whole contiguous run, which never leaves the object; payload bytes
  of objects with disjoint extents never share a card byte.
\<close>

theorem locate_maps_payload:
  assumes "wf_geometry g"
  shows "(locate rs g off = None \<longleftrightarrow> ranges_extents rs * extent_size g \<le> off)
    \<and> (\<forall>l. locate rs g off = Some l \<longrightarrow>
         off + contiguous l \<le> ranges_extents rs * extent_size g \<and> 0 < contiguous l
       \<and> loc_offset l < BLOCK
       \<and> (\<forall>j < contiguous l. home rs g (off + j)
            = (loc_block l + (loc_offset l + j) div BLOCK, (loc_offset l + j) mod BLOCK)))
    \<and> (\<forall>rs' k'. distinct (expand rs @ expand rs') \<and> off < ranges_extents rs * extent_size g
         \<and> k' < ranges_extents rs' * extent_size g \<longrightarrow> home rs g off \<noteq> home rs' g k')"
  using locate_None [OF assms] locate_Some [OF assms] home_inj [OF assms] by blast

theorem locate_maps_payload_witness:
  "locate [(3, 2), (9, 1)] \<lparr>log2 = 20\<rparr> 3145728 = None
   \<and> locate [(3, 2), (9, 1)] \<lparr>log2 = 20\<rparr> 2097672
       = Some \<lparr>loc_block = 22529, loc_offset = 8, contiguous = 1048056\<rparr>"
  using locate_maps_payload [of "\<lparr>log2 = 20\<rparr>" "[(3, 2), (9, 1)]" 3145728]
  by (simp add: wf_geometry_def extent_size_def extent_blocks_def locate_def fmt_consts)

text \<open>
  Trimming an object to its payload splits its extents: the kept ranges are the first
  \<open>n\<close> extents in payload order, the freed ranges are the rest, and both are well-formed range
  lists of at most eight ranges.
\<close>

theorem trim_partitions_extents:
  assumes "wf_ranges rs" and "ranges_extents rs < MAX_EXTENTS"
  shows "case trim_to rs n of (kept, freed) \<Rightarrow>
    expand kept = take n (expand rs) \<and> expand freed = drop n (expand rs)
    \<and> wf_ranges kept \<and> wf_ranges freed"
  using trim_to_spec [OF assms] by (cases "trim_to rs n") simp

theorem trim_partitions_extents_witness:
  "trim_to [(0, 4), (7, 3)] 5 = ([(0, 4), (7, 1)], [(8, 2)])
   \<and> (case trim_to [(0, 4), (7, 3)] 5 of (kept, freed) \<Rightarrow>
        expand kept = take 5 (expand [(0, 4), (7, 3)]))"
proof -
  have "wf_ranges [(0, 4), (7, 3)]" by (simp add: wf_ranges_def wf_range_def fmt_consts)
  moreover have "ranges_extents [(0, 4), (7, 3)] < MAX_EXTENTS" by (simp add: fmt_consts)
  moreover have "trim_to [(0, 4), (7, 3)] 5 = ([(0, 4), (7, 1)], [(8, 2)])"
    by (simp add: trim_to_def Let_def push_ignored_def ranges_push_def fmt_consts)
  ultimately show ?thesis
    using trim_partitions_extents [of "[(0, 4), (7, 3)]" 5] by simp
qed

end
