(* ===== verification/Flat_Bitmap.thy ===== *)
theory Flat_Bitmap
  imports Flat_Layout
begin

text \<open>
  The resident free-extent bitmap, from \<open>firmware/obc-storage/src/flat/bitmap.rs\<close>: 1024 words of
  64 bits, one bit per extent. The map is refined to the set of extents in use, and the
  first-fit walk to its reference: the first free extents in ascending order, grouped into
  runs. The interface the store relies on is the locale \<open>extent_allocator\<close>.
\<close>

definition WORDS :: nat where "WORDS = MAX_EXTENTS div 64"

record free_map =
  words :: "u64 list"
  fm_extents :: nat

definition BLANK :: free_map where
  "BLANK = \<lparr>words = replicate WORDS (- 1), fm_extents = 0\<rparr>"

definition fm_reset :: "nat \<Rightarrow> free_map" where
  "fm_reset extents =
     (let ws = fold (\<lambda>i ws. ws[i := - 1]) [div_ceil extents 64..<WORDS] (replicate WORDS 0);
          ws = (if extents mod 64 \<noteq> 0
                then ws[extents div 64 := push_bit (extents mod 64) (- 1)] else ws)
      in \<lparr>words = ws, fm_extents = extents\<rparr>)"

definition is_used :: "free_map \<Rightarrow> nat \<Rightarrow> bool" where
  "is_used fm e \<longleftrightarrow> words fm ! (e div 64) AND push_bit (e mod 64) 1 \<noteq> 0"

definition use_one :: "free_map \<Rightarrow> nat \<Rightarrow> free_map" where
  "use_one fm e =
     fm\<lparr>words := (words fm)[e div 64 := words fm ! (e div 64) OR push_bit (e mod 64) 1]\<rparr>"

definition release_one :: "free_map \<Rightarrow> nat \<Rightarrow> free_map" where
  "release_one fm e =
     fm\<lparr>words := (words fm)[e div 64 := words fm ! (e div 64) AND NOT (push_bit (e mod 64) 1)]\<rparr>"

text \<open>The inner loop of \<open>claim\<close>, over the extents of one range; the error is the taken extent.\<close>

fun claim_span :: "free_map \<Rightarrow> nat list \<Rightarrow> free_map \<times> (nat + unit)" where
  "claim_span fm [] = (fm, Inr ())"
| "claim_span fm (e # es) =
     (if is_used fm e then (fm, Inl e) else claim_span (use_one fm e) es)"

fun fm_claim :: "free_map \<Rightarrow> ranges \<Rightarrow> free_map \<times> (nat + unit)" where
  "fm_claim fm [] = (fm, Inr ())"
| "fm_claim fm ((f, c) # rs) =
     (case claim_span fm [unat f..<unat f + unat c] of
        (fm', Inl e) \<Rightarrow> (fm', Inl e)
      | (fm', Inr _) \<Rightarrow> fm_claim fm' rs)"

fun fm_release :: "free_map \<Rightarrow> ranges \<Rightarrow> free_map" where
  "fm_release fm [] = fm"
| "fm_release fm ((f, c) # rs) =
     fm_release (fold (\<lambda>e fm. release_one fm e) [unat f..<unat f + unat c] fm) rs"

definition count_ones :: "u64 \<Rightarrow> nat" where
  "count_ones w = length (filter (bit w) [0..<64])"

definition fm_free :: "free_map \<Rightarrow> nat" where
  "fm_free fm = MAX_EXTENTS - sum_list (map count_ones (words fm))"

text \<open>The inner loop of \<open>first_fit\<close>: where the free run that begins at \<open>start\<close> stops.\<close>

function run_end :: "free_map \<Rightarrow> nat \<Rightarrow> nat \<Rightarrow> nat \<Rightarrow> nat" where
  "run_end fm start remaining e =
     (if e < fm_extents fm \<and> \<not> is_used fm e \<and> e - start < remaining
      then run_end fm start remaining (e + 1) else e)"
  by auto
termination
  by (relation "measure (\<lambda>(fm, _, _, e). fm_extents fm - e)") auto

declare run_end.simps [simp del]

lemma run_end_ge: "e \<le> run_end fm start remaining e"
proof (induction fm start remaining e rule: run_end.induct)
  case (1 fm start remaining e)
  then show ?case
    by (cases "e < fm_extents fm \<and> \<not> is_used fm e \<and> e - start < remaining")
      (auto simp: run_end.simps [of fm start remaining e])
qed

lemma run_end_progress:
  "0 < remaining \<Longrightarrow> e < fm_extents fm \<Longrightarrow> \<not> is_used fm e \<Longrightarrow> e < run_end fm e remaining e"
  using run_end_ge [of "e + 1" fm e remaining] by (simp add: run_end.simps [of fm e remaining e])

function first_fit_loop :: "free_map \<Rightarrow> nat \<Rightarrow> nat \<Rightarrow> ranges \<Rightarrow> ranges option" where
  "first_fit_loop fm remaining e out =
     (if 0 < remaining \<and> e < fm_extents fm
      then if is_used fm e then first_fit_loop fm remaining (e + 1) out
        else (let stop = run_end fm e remaining e in
              case ranges_push out (of_nat e) (of_nat (stop - e)) of
                None \<Rightarrow> None
              | Some out' \<Rightarrow> first_fit_loop fm (remaining - (stop - e)) stop out')
      else if remaining = 0 then Some out else None)"
  by auto
termination
proof (relation "measure (\<lambda>(fm, _, e, _). fm_extents fm - e)")
  fix fm remaining e out stop out'
  assume "0 < remaining \<and> e < fm_extents fm" "\<not> is_used fm e" "stop = run_end fm e remaining e"
  then show "((fm, remaining - (stop - e), stop, out'), fm, remaining, e, out)
      \<in> measure (\<lambda>(fm, _, e, _). fm_extents fm - e)"
    using run_end_progress [of remaining e fm] by auto
qed auto

declare first_fit_loop.simps [simp del]

definition first_fit :: "free_map \<Rightarrow> nat \<Rightarrow> ranges option" where
  "first_fit fm extents = first_fit_loop fm extents 0 []"

subsection \<open>The map as a set of extents\<close>

definition used :: "free_map \<Rightarrow> nat set" where
  "used fm = {e. e < MAX_EXTENTS \<and> is_used fm e}"

text \<open>Every address above the card's count is in use.\<close>

definition wf_map :: "free_map \<Rightarrow> bool" where
  "wf_map fm \<longleftrightarrow> length (words fm) = WORDS \<and> fm_extents fm \<le> MAX_EXTENTS
     \<and> {fm_extents fm..<MAX_EXTENTS} \<subseteq> used fm"

text \<open>The reference of the walk: the free extents in ascending order, grouped into runs.\<close>

definition free_list :: "free_map \<Rightarrow> nat list" where
  "free_list fm = filter (\<lambda>e. \<not> is_used fm e) [0..<fm_extents fm]"

definition add_run :: "(nat \<times> nat) list \<Rightarrow> nat \<Rightarrow> (nat \<times> nat) list" where
  "add_run rs x =
     (if rs \<noteq> [] \<and> fst (last rs) + snd (last rs) = x
      then butlast rs @ [(fst (last rs), snd (last rs) + 1)] else rs @ [(x, 1)])"

definition runs :: "nat list \<Rightarrow> (nat \<times> nat) list" where
  "runs xs = foldl add_run [] xs"

definition as_ranges :: "(nat \<times> nat) list \<Rightarrow> ranges" where
  "as_ranges rs = map (\<lambda>(f, c). (of_nat f, of_nat c)) rs"

definition fit_spec :: "free_map \<Rightarrow> nat \<Rightarrow> ranges option" where
  "fit_spec fm n =
     (let xs = take n (free_list fm) in
      if length xs < n \<or> MAX_RANGES < length (runs xs) then None else Some (as_ranges (runs xs)))"

subsection \<open>One extent\<close>

lemma WORDS_eq: "WORDS = 1024"
  by (simp add: WORDS_def fmt_consts)

lemma is_used_bit: "is_used fm e \<longleftrightarrow> bit (words fm ! (e div 64)) (e mod 64)"
  by (simp add: is_used_def bit_iff_and_push_bit_not_eq_0)

lemma extent_index:
  assumes "e div 64 = e' div 64" and "e mod 64 = e' mod 64"
  shows "e = (e' :: nat)"
  using assms by (metis div_mult_mod_eq)

lemma word_index: "e < MAX_EXTENTS \<Longrightarrow> length (words fm) = WORDS \<Longrightarrow> e div 64 < length (words fm)"
  by (simp add: WORDS_eq fmt_consts)

lemma is_used_use_one:
  assumes "length (words fm) = WORDS" and "e < MAX_EXTENTS"
  shows "is_used (use_one fm e) e' \<longleftrightarrow> e' = e \<or> is_used fm e'"
proof (cases "e' div 64 = e div 64")
  case True
  then have "is_used (use_one fm e) e' \<longleftrightarrow> is_used fm e' \<or> e' mod 64 = e mod 64"
    using word_index [OF assms(2,1)] by (auto simp: is_used_bit use_one_def bit_simps)
  then show ?thesis using True extent_index [of e' e] by auto
next
  case False
  then show ?thesis by (auto simp: is_used_bit use_one_def)
qed

lemma is_used_release_one:
  assumes "length (words fm) = WORDS" and "e < MAX_EXTENTS"
  shows "is_used (release_one fm e) e' \<longleftrightarrow> e' \<noteq> e \<and> is_used fm e'"
proof (cases "e' div 64 = e div 64")
  case True
  then have "is_used (release_one fm e) e' \<longleftrightarrow> is_used fm e' \<and> e' mod 64 \<noteq> e mod 64"
    using word_index [OF assms(2,1)] by (auto simp: is_used_bit release_one_def bit_simps)
  then show ?thesis using True extent_index [of e' e] by auto
next
  case False
  then show ?thesis by (auto simp: is_used_bit release_one_def)
qed

lemma one_frame [simp]:
  "fm_extents (use_one fm e) = fm_extents fm" "length (words (use_one fm e)) = length (words fm)"
  "fm_extents (release_one fm e) = fm_extents fm"
  "length (words (release_one fm e)) = length (words fm)"
  by (simp_all add: use_one_def release_one_def)

lemma used_use_one:
  "wf_map fm \<Longrightarrow> e < MAX_EXTENTS \<Longrightarrow> used (use_one fm e) = insert e (used fm)"
  by (auto simp: used_def is_used_use_one wf_map_def)

lemma wf_use_one: "wf_map fm \<Longrightarrow> e < MAX_EXTENTS \<Longrightarrow> wf_map (use_one fm e)"
  using used_use_one [of fm e] by (auto simp: wf_map_def)

lemma used_release_one:
  "wf_map fm \<Longrightarrow> e < MAX_EXTENTS \<Longrightarrow> used (release_one fm e) = used fm - {e}"
  by (auto simp: used_def is_used_release_one wf_map_def)

lemma wf_release_one: "wf_map fm \<Longrightarrow> e < fm_extents fm \<Longrightarrow> wf_map (release_one fm e)"
  using used_release_one [of fm e] by (auto simp: wf_map_def)

subsection \<open>Reset and blank\<close>

lemma length_fold_fill [simp]: "length (fold (\<lambda>i ws. ws[i := v]) xs ws) = length ws"
  by (induction xs arbitrary: ws) auto

lemma fold_fill:
  "length ws = m \<Longrightarrow> i < m \<Longrightarrow>
   fold (\<lambda>i ws. ws[i := v]) [a..<n] ws ! i = (if a \<le> i \<and> i < n then v else ws ! i)"
  by (induction n arbitrary: ws) (auto simp: nth_list_update less_Suc_eq)

lemma fm_reset_used:
  assumes "n \<le> MAX_EXTENTS" and "e < MAX_EXTENTS"
  shows "is_used (fm_reset n) e \<longleftrightarrow> n \<le> e"
proof -
  have e: "e div 64 < 1024" using assms(2) by (simp add: fmt_consts)
  have m: "e mod 64 < 64" "n mod 64 < 64" by simp_all
  have ce: "div_ceil n 64 \<le> e div 64 \<longleftrightarrow> n \<le> 64 * (e div 64)"
    by (simp add: div_ceil_le_iff mult.commute)
  have eq: "e = 64 * (e div 64) + e mod 64" "n = 64 * (n div 64) + n mod 64" by simp_all
  have w: "words (fm_reset n) ! (e div 64) =
      (if n mod 64 \<noteq> 0 \<and> e div 64 = n div 64 then push_bit (n mod 64) (- 1)
       else if n \<le> 64 * (e div 64) then - 1 else 0)"
    using e by (simp add: fm_reset_def Let_def WORDS_eq nth_list_update fold_fill [where m = 1024] ce)
  show ?thesis
  proof (cases "n mod 64 \<noteq> 0 \<and> e div 64 = n div 64")
    case True
    then have "words (fm_reset n) ! (e div 64) = push_bit (n mod 64) (- 1)" using w by simp
    then have "is_used (fm_reset n) e \<longleftrightarrow> n mod 64 \<le> e mod 64"
      using m unfolding is_used_bit by (simp add: bit_simps not_less)
    then show ?thesis using True eq m by linarith
  next
    case False
    have "n \<le> 64 * (e div 64) \<longleftrightarrow> n \<le> e"
      using False eq m by (cases "e div 64" "n div 64" rule: linorder_cases) (simp_all, linarith+)
    then show ?thesis using False m by (auto simp: is_used_bit w)
  qed
qed

lemma fm_reset_wf:
  assumes "n \<le> MAX_EXTENTS"
  shows "wf_map (fm_reset n)" and "used (fm_reset n) = {n..<MAX_EXTENTS}"
    and "fm_extents (fm_reset n) = n"
proof -
  show u: "used (fm_reset n) = {n..<MAX_EXTENTS}"
    using fm_reset_used [OF assms] by (auto simp: used_def)
  show x: "fm_extents (fm_reset n) = n" by (simp add: fm_reset_def Let_def)
  have "length (words (fm_reset n)) = WORDS" by (simp add: fm_reset_def Let_def)
  then show "wf_map (fm_reset n)" using u x assms by (simp add: wf_map_def)
qed

lemma blank_wf: "wf_map BLANK" "used BLANK = {0..<MAX_EXTENTS}"
proof -
  show u: "used BLANK = {0..<MAX_EXTENTS}"
    by (auto simp: used_def is_used_bit BLANK_def WORDS_eq fmt_consts)
  show "wf_map BLANK" using u by (simp add: wf_map_def) (simp add: BLANK_def)
qed

subsection \<open>Claiming and releasing\<close>

lemma claim_span_spec:
  assumes "wf_map fm" and "\<forall>e\<in>set es. e < MAX_EXTENTS" and "claim_span fm es = (fm', r)"
  shows "wf_map fm' \<and> fm_extents fm' = fm_extents fm \<and> used fm \<subseteq> used fm'
    \<and> used fm' \<subseteq> used fm \<union> set es
    \<and> (r = Inr () \<longleftrightarrow> distinct es \<and> set es \<inter> used fm = {})
    \<and> (r = Inr () \<longrightarrow> used fm' = used fm \<union> set es)"
  using assms
proof (induction fm es arbitrary: r rule: claim_span.induct)
  case (1 fm)
  then show ?case by auto
next
  case (2 fm e es)
  show ?case
  proof (cases "is_used fm e")
    case True
    then show ?thesis using 2 by (auto simp: used_def)
  next
    case False
    have e: "e < MAX_EXTENTS" "e \<notin> used fm" using 2(3) False by (auto simp: used_def)
    note u = used_use_one [OF 2(2) e(1)]
    show ?thesis
      using 2(1) [OF False wf_use_one [OF 2(2) e(1)], of r] 2(3,4) False e
      by (auto simp: u)
  qed
qed

lemma fm_claim_spec:
  assumes "wf_map fm" and "list_all wf_range rs" and "fm_claim fm rs = (fm', r)"
  shows "wf_map fm' \<and> fm_extents fm' = fm_extents fm \<and> used fm \<subseteq> used fm'
    \<and> used fm' \<subseteq> used fm \<union> set (expand rs)
    \<and> (r = Inr () \<longleftrightarrow> distinct (expand rs) \<and> set (expand rs) \<inter> used fm = {})
    \<and> (r = Inr () \<longrightarrow> used fm' = used fm \<union> set (expand rs))"
  using assms
proof (induction fm rs arbitrary: r rule: fm_claim.induct)
  case (1 fm)
  then show ?case by auto
next
  case (2 fm f c rs)
  obtain fm1 r1 where c1: "claim_span fm [unat f..<unat f + unat c] = (fm1, r1)" by fastforce
  have sp: "span_of (f, c) = [unat f..<unat f + unat c]" by (simp add: span_of_def)
  have bound: "\<forall>e\<in>set [unat f..<unat f + unat c]. e < MAX_EXTENTS"
    using 2(3) by (auto simp: wf_range_def)
  note s = claim_span_spec [OF 2(2) bound c1]
  show ?case
  proof (cases r1)
    case (Inl e)
    then have "fm' = fm1 \<and> r = Inl e" using 2(4) c1 by simp
    then show ?thesis using s Inl by (auto simp: sp)
  next
    case (Inr u)
    then have r1: "r1 = Inr ()" by simp
    then have rec: "fm_claim fm1 rs = (fm', r)" using 2(4) c1 by simp
    have wf1: "wf_map fm1" and u1: "used fm1 = used fm \<union> set (span_of (f, c))"
      and d1: "set (span_of (f, c)) \<inter> used fm = {}" and ds: "distinct (span_of (f, c))"
      using s r1 by (simp_all add: sp)
    have wfr: "list_all wf_range rs" using 2(3) by simp
    have ih: "wf_map fm' \<and> fm_extents fm' = fm_extents fm1 \<and> used fm1 \<subseteq> used fm'
      \<and> used fm' \<subseteq> used fm1 \<union> set (expand rs)
      \<and> (r = Inr () \<longleftrightarrow> distinct (expand rs) \<and> set (expand rs) \<inter> used fm1 = {})
      \<and> (r = Inr () \<longrightarrow> used fm' = used fm1 \<union> set (expand rs))"
      by (rule 2(1) [OF c1 [symmetric] _ wf1 wfr rec]) (use r1 in auto)
    moreover have "set (expand rs) \<inter> used fm1 = {} \<longleftrightarrow>
        set (expand rs) \<inter> used fm = {} \<and> set (span_of (f, c)) \<inter> set (expand rs) = {}"
      using u1 by blast
    moreover have "fm_extents fm1 = fm_extents fm" using s by simp
    ultimately show ?thesis using u1 d1 ds by auto
  qed
qed

lemma release_span_spec:
  assumes "wf_map fm" and "\<forall>e\<in>set es. e < fm_extents fm"
  shows "wf_map (fold (\<lambda>e fm. release_one fm e) es fm)
    \<and> used (fold (\<lambda>e fm. release_one fm e) es fm) = used fm - set es
    \<and> fm_extents (fold (\<lambda>e fm. release_one fm e) es fm) = fm_extents fm"
  using assms
proof (induction es arbitrary: fm)
  case (Cons e es)
  have e: "e < fm_extents fm" "e < MAX_EXTENTS"
    using Cons.prems by (auto simp: wf_map_def)
  show ?case
    using Cons.IH [OF wf_release_one [OF Cons.prems(1) e(1)]] Cons.prems
    by (auto simp: used_release_one [OF Cons.prems(1) e(2)])
qed simp

lemma fm_release_spec:
  assumes "wf_map fm" and "\<forall>e\<in>set (expand rs). e < fm_extents fm"
  shows "wf_map (fm_release fm rs) \<and> used (fm_release fm rs) = used fm - set (expand rs)
    \<and> fm_extents (fm_release fm rs) = fm_extents fm"
  using assms
proof (induction fm rs rule: fm_release.induct)
  case (2 fm f c rs)
  have "wf_map fm" and "\<forall>e\<in>set [unat f..<unat f + unat c]. e < fm_extents fm"
    using 2(2,3) by (auto simp: span_of_def)
  from release_span_spec [OF this] 2 show ?case by (auto simp: span_of_def)
qed simp

subsection \<open>The number of free extents\<close>

lemma count_ones_card: "count_ones w = card {i. i < 64 \<and> bit w i}"
proof -
  have "distinct (filter (bit w) [0..<64])" by simp
  moreover have "set (filter (bit w) [0..<64]) = {i. i < 64 \<and> bit w i}" by auto
  ultimately show ?thesis by (metis count_ones_def distinct_card)
qed

lemma sum_count_ones:
  "sum_list (map count_ones ws) = card {e. e < 64 * length ws \<and> bit (ws ! (e div 64)) (e mod 64)}"
proof (induction ws rule: rev_induct)
  case (snoc w ws)
  let ?A = "{e. e < 64 * length ws \<and> bit (ws ! (e div 64)) (e mod 64)}"
  let ?B = "(\<lambda>i. 64 * length ws + i) ` {i. i < 64 \<and> bit w i}"
  have "{e. e < 64 * length (ws @ [w]) \<and> bit ((ws @ [w]) ! (e div 64)) (e mod 64)} = ?A \<union> ?B"
  proof (intro set_eqI iffI)
    fix e assume e: "e \<in> {e. e < 64 * length (ws @ [w]) \<and> bit ((ws @ [w]) ! (e div 64)) (e mod 64)}"
    show "e \<in> ?A \<union> ?B"
    proof (cases "e < 64 * length ws")
      case True
      then have "e div 64 < length ws" by (simp add: div_less_iff_less_mult mult.commute)
      then show ?thesis using True e by (simp add: nth_append)
    next
      case False
      define i where "i = e - 64 * length ws"
      have i: "e = 64 * length ws + i" "i < 64" using False e unfolding i_def by auto
      then have "e div 64 = length ws" "e mod 64 = i" by simp_all
      then show ?thesis using e i by (auto simp: nth_append)
    qed
  next
    fix e assume "e \<in> ?A \<union> ?B"
    then show "e \<in> {e. e < 64 * length (ws @ [w]) \<and> bit ((ws @ [w]) ! (e div 64)) (e mod 64)}"
      by (auto simp: nth_append div_less_iff_less_mult mult.commute)
  qed
  moreover have "card (?A \<union> ?B) = card ?A + card ?B"
    by (rule card_Un_disjoint) auto
  moreover have "card ?B = count_ones w"
    by (simp add: card_image count_ones_card)
  ultimately show ?case using snoc by simp
qed simp

lemma fm_free_card:
  assumes "wf_map fm"
  shows "fm_free fm = card ({0..<fm_extents fm} - used fm)"
proof -
  have len: "64 * length (words fm) = MAX_EXTENTS"
    using assms by (simp add: wf_map_def WORDS_eq fmt_consts)
  have "sum_list (map count_ones (words fm)) = card (used fm)"
    by (simp add: sum_count_ones len used_def is_used_bit)
  moreover have sub: "used fm \<subseteq> {0..<MAX_EXTENTS}" by (auto simp: used_def)
  moreover have "{0..<fm_extents fm} - used fm = {0..<MAX_EXTENTS} - used fm"
    using assms by (force simp: wf_map_def subset_iff not_less)
  ultimately show ?thesis
    by (simp add: fm_free_def card_Diff_subset finite_subset [OF sub])
qed

subsection \<open>First fit\<close>

lemma run_end_spec:
  fixes fm start r e
  defines "stop \<equiv> run_end fm start r e"
  assumes "start \<le> e" and "e \<le> fm_extents fm" and "e - start \<le> r"
    and "\<forall>x\<in>{start..<e}. \<not> is_used fm x"
  shows "e \<le> stop \<and> stop \<le> fm_extents fm \<and> stop - start \<le> r \<and> (\<forall>x\<in>{start..<stop}. \<not> is_used fm x)
    \<and> (stop = fm_extents fm \<or> is_used fm stop \<or> stop - start = r)"
  using assms(2-5) unfolding stop_def
proof (induction fm start r e rule: run_end.induct)
  case (1 fm start r e)
  show ?case
  proof (cases "e < fm_extents fm \<and> \<not> is_used fm e \<and> e - start < r")
    case True
    have "run_end fm start r e = run_end fm start r (e + 1)"
      using True by (simp add: run_end.simps [of fm start r e])
    moreover have "\<forall>x\<in>{start..<e + 1}. \<not> is_used fm x" using True 1(5) by (auto simp: less_Suc_eq)
    ultimately show ?thesis using 1(1) [OF True] 1(2) True by (auto simp: Suc_diff_le)
  next
    case False
    then have "run_end fm start r e = e" by (auto simp: run_end.simps [of fm start r e])
    then show ?thesis using False 1 by auto
  qed
qed

lemma upt_filter_split:
  assumes "e \<le> stop" and "stop \<le> n" and "\<forall>x\<in>{e..<stop}. P x"
  shows "filter P [e..<n] = [e..<stop] @ filter P [stop..<n]"
proof -
  have "[e..<n] = [e..<stop] @ [stop..<n]"
    using assms(1,2) by (metis le_Suc_ex upt_add_eq_append)
  then show ?thesis using assms(3) by simp
qed

lemma foldl_add_run_span:
  assumes "0 < c"
  shows "foldl add_run R [x..<x + c] =
     (if R \<noteq> [] \<and> fst (last R) + snd (last R) = x
      then butlast R @ [(fst (last R), snd (last R) + c)] else R @ [(x, c)])"
  using assms
proof (induction c)
  case (Suc c)
  show ?case
  proof (cases "c = 0")
    case True
    then show ?thesis by (simp add: add_run_def)
  next
    case False
    have "foldl add_run R [x..<x + Suc c] = add_run (foldl add_run R [x..<x + c]) (x + c)"
      by simp
    also have "\<dots> = (if R \<noteq> [] \<and> fst (last R) + snd (last R) = x
        then butlast R @ [(fst (last R), snd (last R) + Suc c)] else R @ [(x, Suc c)])"
      unfolding Suc.IH [OF neq0_conv [THEN iffD1, OF False]] by (auto simp: add_run_def)
    finally show ?thesis .
  qed
qed simp

lemma length_add_runs: "length R \<le> length (foldl add_run R xs)"
proof (induction xs arbitrary: R)
  case (Cons x xs)
  have "length R \<le> length (add_run R x)" by (auto simp: add_run_def)
  then show ?case using Cons.IH [of "add_run R x"] by simp
qed simp

text \<open>Every run is inside \<open>[0, e)\<close> and together the runs hold \<open>m\<close> extents.\<close>

definition runs_within :: "(nat \<times> nat) list \<Rightarrow> nat \<Rightarrow> nat \<Rightarrow> bool" where
  "runs_within R e m \<longleftrightarrow> (\<forall>(f, c)\<in>set R. 0 < c \<and> f + c \<le> e) \<and> sum_list (map snd R) = m"

lemma runs_within_span:
  assumes "runs_within R e m" and "e \<le> x" and "0 < c"
  shows "runs_within (foldl add_run R [x..<x + c]) (x + c) (m + c)"
proof (cases "R \<noteq> [] \<and> fst (last R) + snd (last R) = x")
  case True
  define ys p where "ys = butlast R" and "p = last R"
  have R: "R = ys @ [p]" using True by (simp add: ys_def p_def)
  show ?thesis
    using True assms by (auto simp: foldl_add_run_span [OF assms(3)] runs_within_def R)
next
  case False
  then show ?thesis
    using assms by (auto simp: foldl_add_run_span [OF assms(3)] runs_within_def)
qed

lemma push_runs:
  assumes "runs_within R e m" and "e \<le> x" and "x + c \<le> MAX_EXTENTS" and "m + c < MAX_EXTENTS"
    and "length R \<le> MAX_RANGES" and "0 < c"
  shows "ranges_push (as_ranges R) (of_nat x) (of_nat (c)) =
    (let R' = foldl add_run R [x..<x + c] in
     if MAX_RANGES < length R' then None else Some (as_ranges R'))"
proof -
  have c: "unat (of_nat (c) :: u16) = c" and x: "unat (of_nat x :: u16) = x"
    using assms(3,4,6) by (simp_all add: word_unat_of_nat fmt_consts)
  have nz: "(of_nat (c) :: u16) \<noteq> 0" using c assms(6) by (metis unat_0 less_irrefl)
  show ?thesis
  proof (cases "R = []")
    case True
    then show ?thesis
      using nz by (simp add: ranges_push_def as_ranges_def foldl_add_run_span [OF assms(6)] fmt_consts)
  next
    case False
    define ys f d where "ys = butlast R" and "f = fst (last R)" and "d = snd (last R)"
    have R: "R = ys @ [(f, d)]" using False by (simp add: ys_def f_def d_def)
    have fd: "f + d \<le> e" "d \<le> m" "0 < d" using assms(1) by (auto simp: R runs_within_def)
    have u: "unat (of_nat f :: u16) = f" "unat (of_nat d :: u16) = d"
      using fd assms(2-4) by (simp_all add: word_unat_of_nat fmt_consts)
    have "as_ranges R = as_ranges ys @ [(of_nat f, of_nat d)]" by (simp add: as_ranges_def R)
    then have "ranges_push (as_ranges R) (of_nat x) (of_nat (c)) =
        (if f + d = x then Some (as_ranges ys @ [(of_nat f, of_nat d + of_nat (c))])
         else if length R = MAX_RANGES then None else Some (as_ranges R @ [(of_nat x, of_nat (c))]))"
      using nz by (simp add: ranges_push_def u x R) (simp add: as_ranges_def)
    then show ?thesis
      using assms(5) by (auto simp: foldl_add_run_span [OF assms(6)] R as_ranges_def)
  qed
qed

lemma first_fit_loop_spec:
  assumes "wf_map fm" and "runs_within (runs taken) e (length taken)" and "length (runs taken) \<le> MAX_RANGES"
    and "length taken + r < MAX_EXTENTS" and "out = as_ranges (runs taken)"
  shows "first_fit_loop fm r e out =
    (let xs = take r (filter (\<lambda>e. \<not> is_used fm e) [e..<fm_extents fm]) in
     if length xs < r \<or> MAX_RANGES < length (runs (taken @ xs)) then None
     else Some (as_ranges (runs (taken @ xs))))"
  using assms
proof (induction fm r e out arbitrary: taken rule: first_fit_loop.induct)
  case (1 fm r e out)
  note unfold = first_fit_loop.simps [of fm r e out]
  let ?free = "\<lambda>e. \<not> is_used fm e" and ?n = "fm_extents fm"
  consider (stop) "\<not> (0 < r \<and> e < ?n)" | (used) "0 < r" "e < ?n" "is_used fm e"
    | (run) "0 < r" "e < ?n" "\<not> is_used fm e" by blast
  then show ?case
  proof cases
    case stop
    then have "first_fit_loop fm r e out = (if r = 0 then Some out else None)"
      by (subst unfold, subst if_not_P [OF stop]) (rule refl)
    then show ?thesis using stop 1(5,7) by auto
  next
    case used
    have within: "runs_within (runs taken) (e + 1) (length taken)"
      using 1(4) by (auto simp: runs_within_def)
    have "filter ?free [e..<?n] = filter ?free [e + 1..<?n]"
      using used by (simp add: upt_rec [of e])
    moreover have "first_fit_loop fm r e out = first_fit_loop fm r (e + 1) out"
      using used by (simp add: unfold)
    ultimately show ?thesis
      using 1(1) [OF _ used(3) 1(3) within 1(5,6,7)] used by simp
  next
    case run
    define stop where "stop = run_end fm e r e"
    have st: "stop \<le> ?n" "stop - e \<le> r" "\<forall>x\<in>{e..<stop}. \<not> is_used fm x"
      using run_end_spec [of e e fm r] run by (simp_all add: stop_def)
    have prog: "e < stop" using run run_end_progress by (simp add: stop_def)
    obtain c where c: "stop = e + c" "0 < c" using less_imp_add_positive [OF prog] by metis
    define R' where "R' = runs (taken @ [e..<stop])"
    have R': "R' = foldl add_run (runs taken) [e..<e + c]" by (simp add: R'_def runs_def c)
    have n: "?n \<le> MAX_EXTENTS" using 1(3) by (simp add: wf_map_def)
    have push: "ranges_push out (of_nat e) (of_nat (stop - e)) =
        (if MAX_RANGES < length R' then None else Some (as_ranges R'))"
      using push_runs [OF 1(4) order_refl, of c] st n 1(5,6,7) c by (simp add: R' Let_def)
    have split: "take r (filter ?free [e..<?n]) = [e..<stop] @ take (r - (stop - e)) (filter ?free [stop..<?n])"
      using upt_filter_split [of e stop ?n ?free] prog st by simp
    show ?thesis
    proof (cases "MAX_RANGES < length R'")
      case True
      have "length R' \<le> length (runs (taken @ take r (filter ?free [e..<?n])))"
        unfolding split R'_def using length_add_runs by (simp add: runs_def)
      then show ?thesis using True run push by (simp add: unfold stop_def [symmetric] Let_def)
    next
      case False
      have within: "runs_within (runs (taken @ [e..<stop])) stop (length (taken @ [e..<stop]))"
        using runs_within_span [OF 1(4) order_refl, of c] c by (simp add: runs_def)
      have "first_fit_loop fm r e out = first_fit_loop fm (r - (stop - e)) stop (as_ranges R')"
        using False run push by (simp add: unfold stop_def [symmetric] Let_def)
      also have "\<dots> = (let xs = take (r - (stop - e)) (filter ?free [stop..<?n]) in
         if length xs < r - (stop - e) \<or> MAX_RANGES < length (runs ((taken @ [e..<stop]) @ xs)) then None
         else Some (as_ranges (runs ((taken @ [e..<stop]) @ xs))))"
      proof (rule 1(2))
        show "ranges_push out (word_of_nat e) (word_of_nat (stop - e)) = Some (as_ranges R')"
          using False push by simp
      qed (use run 1(3,6) within False prog st in \<open>simp_all add: stop_def R'_def\<close>)
      also have "\<dots> = (let xs = take r (filter ?free [e..<?n]) in
         if length xs < r \<or> MAX_RANGES < length (runs (taken @ xs)) then None
         else Some (as_ranges (runs (taken @ xs))))"
        using st(2) prog by (auto simp: split Let_def)
      finally show ?thesis .
    qed
  qed
qed

lemma first_fit_eq:
  assumes "wf_map fm" and "n < MAX_EXTENTS"
  shows "first_fit fm n = fit_spec fm n"
  using first_fit_loop_spec [OF assms(1), of "[]" 0 n "[]"] assms(2)
  by (simp add: first_fit_def fit_spec_def free_list_def Let_def)
    (simp add: runs_def runs_within_def as_ranges_def)

subsection \<open>What the runs stand for\<close>

lemma expand_add_runs:
  "concat (map (\<lambda>(f, c). [f..<f + c]) (foldl add_run R xs)) =
   concat (map (\<lambda>(f, c). [f..<f + c]) R) @ xs"
proof (induction xs arbitrary: R)
  case (Cons x xs)
  have "concat (map (\<lambda>(f, c). [f..<f + c]) (add_run R x)) = concat (map (\<lambda>(f, c). [f..<f + c]) R) @ [x]"
  proof (cases "R \<noteq> [] \<and> fst (last R) + snd (last R) = x")
    case True
    define ys f d where "ys = butlast R" and "f = fst (last R)" and "d = snd (last R)"
    have R: "R = ys @ [(f, d)]" using True by (simp add: ys_def f_def d_def)
    show ?thesis using True by (auto simp: add_run_def R)
  next
    case False
    then have "add_run R x = R @ [(x, 1)]" unfolding add_run_def by (rule if_not_P)
    then show ?thesis by simp
  qed
  then show ?case using Cons.IH [of "add_run R x"] by simp
qed simp

lemma runs_nonempty:
  "\<forall>(f, c)\<in>set R. 0 < c \<Longrightarrow> \<forall>(f, c)\<in>set (foldl add_run R xs). 0 < c"
proof (induction xs arbitrary: R)
  case (Cons x xs)
  have "\<forall>(f, c)\<in>set (add_run R x). 0 < c"
    using Cons.prems by (auto simp: add_run_def dest: in_set_butlastD)
  then show ?case using Cons.IH by simp
qed simp

lemma member_le_concat_length: "ys \<in> set yss \<Longrightarrow> length ys \<le> length (concat yss)"
  by (induction yss) auto

lemma as_ranges_runs:
  assumes "\<forall>x\<in>set xs. x < MAX_EXTENTS" and "length xs < MAX_EXTENTS"
  shows "expand (as_ranges (runs xs)) = xs" and "list_all wf_range (as_ranges (runs xs))"
proof -
  let ?spans = "map (\<lambda>(f, c). [f..<f + c]) (runs xs)"
  have cat: "concat ?spans = xs" using expand_add_runs [of "[]" xs] by (simp add: runs_def)
  have pos: "\<forall>(f, c)\<in>set (runs xs). 0 < c" using runs_nonempty [of "[]" xs] by (simp add: runs_def)
  have in_bounds: "f < 65536 \<and> c < 65536 \<and> 0 < c \<and> f + c \<le> 65536" if "(f, c) \<in> set (runs xs)" for f c
  proof -
    have c: "0 < c" using pos that by auto
    have mem: "[f..<f + c] \<in> set ?spans" using that by force
    then have "length [f..<f + c] \<le> length xs" using member_le_concat_length [OF mem] cat by simp
    moreover have "set [f..<f + c] \<subseteq> set xs" using mem cat by (metis concat_eq_appendD UN_I set_concat subsetI)
    ultimately have "c < 65536" and "\<forall>y\<in>{f..<f + c}. y < 65536" using assms by (auto simp: fmt_consts)
    moreover from this(2) c have "f < 65536" and "f + c - 1 < 65536" by auto
    ultimately show ?thesis using c by (intro conjI) (assumption, assumption, assumption, linarith)
  qed
  then have u: "\<forall>(f, c)\<in>set (runs xs). unat (of_nat f :: u16) = f \<and> unat (of_nat c :: u16) = c"
    by (auto simp: word_unat_of_nat)
  have "map (span_of \<circ> (\<lambda>(f, c). (of_nat f, of_nat c))) (runs xs) = ?spans"
    using u by (intro map_cong) (auto simp: span_of_def)
  then show "expand (as_ranges (runs xs)) = xs"
    using cat by (simp only: expand_def as_ranges_def map_map)
  show "list_all wf_range (as_ranges (runs xs))"
    using u in_bounds by (fastforce simp: list_all_iff as_ranges_def wf_range_def fmt_consts)
qed

lemma fit_spec_Some:
  assumes "wf_map fm" and "n < MAX_EXTENTS" and "fit_spec fm n = Some rs"
  shows "wf_ranges rs" and "expand rs = take n (free_list fm)" and "length (expand rs) = n"
proof -
  define xs where "xs = take n (free_list fm)"
  have rs: "rs = as_ranges (runs xs)" "\<not> length xs < n" "length (runs xs) \<le> MAX_RANGES"
    using assms(3) by (auto simp: fit_spec_def Let_def xs_def split: if_splits)
  have "set xs \<subseteq> {0..<fm_extents fm}"
    by (auto simp: xs_def free_list_def dest: in_set_takeD)
  then have b: "\<forall>x\<in>set xs. x < MAX_EXTENTS" using assms(1) by (force simp: wf_map_def)
  have len: "length xs = n" using rs(2) by (simp add: xs_def)
  have l: "length xs < MAX_EXTENTS" using len assms(2) by simp
  note runs = as_ranges_runs [OF b l]
  show "expand rs = take n (free_list fm)" using runs(1) by (simp add: rs xs_def)
  show "wf_ranges rs" using runs(2) rs by (simp add: wf_ranges_def as_ranges_def)
  show "length (expand rs) = n" using runs(1) len by (simp add: rs)
qed

subsection \<open>The allocator the store relies on\<close>

locale extent_allocator =
  fixes invar :: "'m \<Rightarrow> bool"
    and taken :: "'m \<Rightarrow> nat set"
    and limit :: "'m \<Rightarrow> nat"
    and claim :: "'m \<Rightarrow> ranges \<Rightarrow> 'm \<times> (nat + unit)"
    and release :: "'m \<Rightarrow> ranges \<Rightarrow> 'm"
    and fit :: "'m \<Rightarrow> nat \<Rightarrow> ranges option"
  assumes claim_law: "invar m \<Longrightarrow> list_all wf_range rs \<Longrightarrow> claim m rs = (m', r) \<Longrightarrow>
      invar m' \<and> limit m' = limit m
      \<and> (r = Inr () \<longleftrightarrow> distinct (expand rs) \<and> set (expand rs) \<inter> taken m = {})
      \<and> (r = Inr () \<longrightarrow> taken m' = taken m \<union> set (expand rs))"
    and release_law: "invar m \<Longrightarrow> set (expand rs) \<subseteq> {0..<limit m} \<Longrightarrow>
      invar (release m rs) \<and> limit (release m rs) = limit m
      \<and> taken (release m rs) = taken m - set (expand rs)"
    and fit_law: "invar m \<Longrightarrow> n < MAX_EXTENTS \<Longrightarrow> fit m n = Some rs \<Longrightarrow>
      wf_ranges rs \<and> distinct (expand rs) \<and> length (expand rs) = n
      \<and> set (expand rs) \<subseteq> {0..<limit m} - taken m"
begin

text \<open>What the allocator proposes can be claimed, and releasing it gives the old map back.\<close>

lemma fit_claim_release:
  assumes "invar m" and "n < MAX_EXTENTS" and "fit m n = Some rs"
  shows "\<exists>m'. claim m rs = (m', Inr ()) \<and> invar m' \<and> limit m' = limit m
    \<and> taken m' = taken m \<union> set (expand rs) \<and> taken (release m' rs) = taken m"
proof -
  have f: "wf_ranges rs \<and> distinct (expand rs) \<and> length (expand rs) = n
      \<and> set (expand rs) \<subseteq> {0..<limit m} - taken m"
    using fit_law [OF assms] .
  obtain m' r where c: "claim m rs = (m', r)" by fastforce
  have "list_all wf_range rs" using f by (simp add: wf_ranges_def)
  from claim_law [OF assms(1) this c] f
  have "r = Inr ()" "invar m'" "limit m' = limit m" "taken m' = taken m \<union> set (expand rs)" by auto
  moreover from this f have "taken (release m' rs) = taken m"
    using release_law [of m' rs] by auto
  ultimately show ?thesis using c by auto
qed

text \<open>Two allocations that were claimed one after the other never overlap.\<close>

lemma successive_fits_disjoint:
  assumes "invar m" and "n < MAX_EXTENTS" and "fit m n = Some rs" and "claim m rs = (m', Inr ())"
    and "n' < MAX_EXTENTS" and "fit m' n' = Some rs'"
  shows "distinct (expand rs @ expand rs')"
proof -
  have f: "wf_ranges rs \<and> distinct (expand rs)" using fit_law [OF assms(1-3)] by blast
  then have w: "list_all wf_range rs" by (simp add: wf_ranges_def)
  have m': "invar m'" "taken m' = taken m \<union> set (expand rs)"
    using claim_law [OF assms(1) w assms(4)] by auto
  show ?thesis using fit_law [OF m'(1) assms(5,6)] m'(2) f by auto
qed

end

interpretation fm: extent_allocator wf_map used fm_extents fm_claim fm_release first_fit
proof unfold_locales
  fix m m' :: free_map and rs r
  assume "wf_map m" and "list_all wf_range rs" and "fm_claim m rs = (m', r)"
  from fm_claim_spec [OF this]
  show "wf_map m' \<and> fm_extents m' = fm_extents m
      \<and> (r = Inr () \<longleftrightarrow> distinct (expand rs) \<and> set (expand rs) \<inter> used m = {})
      \<and> (r = Inr () \<longrightarrow> used m' = used m \<union> set (expand rs))"
    by blast
next
  fix m :: free_map and rs :: ranges
  assume "wf_map m" and "set (expand rs) \<subseteq> {0..<fm_extents m}"
  then have "wf_map m" and "\<forall>e\<in>set (expand rs). e < fm_extents m" by auto
  from fm_release_spec [OF this]
  show "wf_map (fm_release m rs) \<and> fm_extents (fm_release m rs) = fm_extents m
      \<and> used (fm_release m rs) = used m - set (expand rs)"
    by blast
next
  fix m :: free_map and n :: nat and rs :: ranges
  assume m: "wf_map m" "n < MAX_EXTENTS" and "first_fit m n = Some rs"
  then have fit: "fit_spec m n = Some rs" by (simp add: first_fit_eq)
  note s = fit_spec_Some [OF m fit]
  have "distinct (free_list m)" by (simp add: free_list_def)
  moreover have "set (free_list m) \<subseteq> {0..<fm_extents m} - used m"
    by (auto simp: free_list_def used_def)
  ultimately show "wf_ranges rs \<and> distinct (expand rs) \<and> length (expand rs) = n
      \<and> set (expand rs) \<subseteq> {0..<fm_extents m} - used m"
    using s by (auto dest: in_set_takeD)
qed

subsection \<open>Properties\<close>

text \<open>
  C34: the first-fit walk over the bitmap equals its reference. It returns the first \<open>n\<close> free
  extents in ascending order, grouped into runs, and refuses exactly when the card has fewer
  than \<open>n\<close> free extents or when those extents form more than eight runs. The walk terminates on
  every map. The bound excludes the one request whose count a 16-bit field cannot hold.
\<close>

theorem first_fit_is_reference:
  assumes "wf_map fm" and "n < MAX_EXTENTS"
  shows "first_fit fm n = fit_spec fm n
    \<and> (\<forall>rs. first_fit fm n = Some rs \<longrightarrow> wf_ranges rs \<and> expand rs = take n (free_list fm)
         \<and> length (expand rs) = n)"
  using first_fit_eq [OF assms] fit_spec_Some [OF assms] by auto

theorem first_fit_is_reference_witness:
  "first_fit (fm_reset 30718) 3 = fit_spec (fm_reset 30718) 3"
  using first_fit_is_reference [of "fm_reset 30718" 3] fm_reset_wf(1) [of 30718]
  by (simp add: fmt_consts)

text \<open>
  C35: the bitmap refines a set of extents. A reset card has exactly its own extents free; a
  claim succeeds exactly when the ranges are disjoint and free, and then adds them; a release
  removes them; the free count is the number of the card's extents not in the set; and every
  operation keeps the invariant that no address above the card's count is ever free.
\<close>

theorem free_map_refines_set:
  assumes "wf_map fm" and "in_card (fm_extents fm) rs"
  shows "(case fm_claim fm rs of (fm', r) \<Rightarrow>
       wf_map fm' \<and> fm_extents fm' = fm_extents fm
     \<and> (r = Inr () \<longleftrightarrow> distinct (expand rs) \<and> set (expand rs) \<inter> used fm = {})
     \<and> (r = Inr () \<longrightarrow> used fm' = used fm \<union> set (expand rs)))
    \<and> wf_map (fm_release fm rs) \<and> used (fm_release fm rs) = used fm - set (expand rs)
    \<and> fm_free fm = card ({0..<fm_extents fm} - used fm)
    \<and> (\<forall>n \<le> MAX_EXTENTS. wf_map (fm_reset n) \<and> used (fm_reset n) = {n..<MAX_EXTENTS})"
proof (intro conjI)
  have wfr: "list_all wf_range rs"
    using in_card_wf [OF assms(2)] assms(1) by (simp add: wf_map_def)
  show "case fm_claim fm rs of (fm', r) \<Rightarrow>
       wf_map fm' \<and> fm_extents fm' = fm_extents fm
     \<and> (r = Inr () \<longleftrightarrow> distinct (expand rs) \<and> set (expand rs) \<inter> used fm = {})
     \<and> (r = Inr () \<longrightarrow> used fm' = used fm \<union> set (expand rs))"
    using fm_claim_spec [OF assms(1) wfr] by (cases "fm_claim fm rs") blast
  have "\<forall>e\<in>set (expand rs). e < fm_extents fm" using in_card_expand [OF assms(2)] by blast
  from fm_release_spec [OF assms(1) this]
  show "wf_map (fm_release fm rs)" and "used (fm_release fm rs) = used fm - set (expand rs)"
    by blast+
  show "fm_free fm = card ({0..<fm_extents fm} - used fm)" by (rule fm_free_card [OF assms(1)])
  show "\<forall>n \<le> MAX_EXTENTS. wf_map (fm_reset n) \<and> used (fm_reset n) = {n..<MAX_EXTENTS}"
    using fm_reset_wf(1,2) by blast
qed

theorem free_map_refines_set_witness:
  "snd (fm_claim (fm_reset 64) [(0, 2), (4, 1)]) = Inr () \<and> fm_free (fm_reset 64) = 64"
proof -
  have wf: "wf_map (fm_reset 64)" and u: "used (fm_reset 64) = {64..<MAX_EXTENTS}"
    and x: "fm_extents (fm_reset 64) = 64"
    using fm_reset_wf [of 64] by (simp_all add: fmt_consts)
  have "in_card (fm_extents (fm_reset 64)) [(0, 2), (4, 1)]" by (simp add: x in_card_def)
  note set = free_map_refines_set [OF wf this]
  obtain fm' r where c: "fm_claim (fm_reset 64) [(0, 2), (4, 1)] = (fm', r)" by fastforce
  have "r = Inr () \<longleftrightarrow> distinct (expand [(0, 2), (4, 1)])
      \<and> set (expand [(0, 2), (4, 1)]) \<inter> used (fm_reset 64) = {}"
    using set [THEN conjunct1, unfolded c prod.case] by blast
  then have "r = Inr ()" by (auto simp: u span_of_def)
  then have "snd (fm_claim (fm_reset 64) [(0, 2), (4, 1)]) = Inr ()" by (simp only: c snd_conv)
  moreover have "fm_free (fm_reset 64) = card ({0..<64} - {64..<MAX_EXTENTS})"
    using set [THEN conjunct2, THEN conjunct2, THEN conjunct2, THEN conjunct1] by (simp only: u x)
  moreover have "{0..<64::nat} - {64..<MAX_EXTENTS} = {0..<64}" by auto
  ultimately show ?thesis by simp
qed

text \<open>
  Space is handed out exclusively. What first fit proposes can always be claimed, lies in
  the card, and two allocations claimed one after the other share no extent; releasing an
  allocation gives back exactly the map before it.
\<close>

theorem allocations_are_exclusive:
  assumes "wf_map fm" and "n < MAX_EXTENTS" and "first_fit fm n = Some rs"
  shows "\<exists>fm'. fm_claim fm rs = (fm', Inr ()) \<and> wf_map fm'
    \<and> used fm' = used fm \<union> set (expand rs) \<and> used (fm_release fm' rs) = used fm
    \<and> (\<forall>n' rs'. n' < MAX_EXTENTS \<and> first_fit fm' n' = Some rs' \<longrightarrow> distinct (expand rs @ expand rs'))"
  using fm.fit_claim_release [OF assms] fm.successive_fits_disjoint [OF assms] by blast

theorem allocations_are_exclusive_witness:
  "first_fit (fm_reset 64) 3 = Some [(0, 3)] \<and> (\<exists>fm'. fm_claim (fm_reset 64) [(0, 3)] = (fm', Inr ()))"
proof -
  have wf: "wf_map (fm_reset 64)" and u: "used (fm_reset 64) = {64..<MAX_EXTENTS}"
    and x: "fm_extents (fm_reset 64) = 64"
    using fm_reset_wf [of 64] by (simp_all add: fmt_consts)
  have "\<not> is_used (fm_reset 64) e" if "e < 64" for e
    using that fm_reset_used [of 64 e] by (simp add: fmt_consts)
  then have "free_list (fm_reset 64) = [0..<64]" by (simp add: free_list_def x)
  then have "take 3 (free_list (fm_reset 64)) = [0, 1, 2]" by (simp add: upt_rec)
  then have fit: "first_fit (fm_reset 64) 3 = Some [(0, 3)]"
    using first_fit_eq [OF wf, of 3]
    by (simp add: fit_spec_def runs_def add_run_def as_ranges_def fmt_consts)
  show ?thesis using allocations_are_exclusive [OF wf _ fit] fit by (auto simp: fmt_consts)
qed

end
