(* ===== verification/Flat_Device.thy ===== *)
theory Flat_Device
  imports Flat_Layout
begin

text \<open>
  The block device under the store, from \<open>firmware/obc-storage/src/flat/device.rs\<close>, the store's
  three device wrappers (\<open>store.rs\<close>), and the faulting card of \<open>flat/sim.rs\<close>.

  A device is a record of operations on an abstract state. The contract the store relies on is
  the locale \<open>block_device\<close>: what a read returns, which blocks a write may change, what a
  barrier makes durable, and, block by block, which contents a power cut at this moment may
  leave. A write that fails may tear the program pages it touched and no other block. The
  contract is interpreted on the model of \<open>SparseDisk\<close>, the repository's own faulting card.
\<close>

subsection \<open>Effects with errors\<close>

text \<open>An operation on a state that returns a value or a refusal; \<open>?\<close> is \<open>bindS\<close>.\<close>

type_synonym ('s, 'a) io = "'s \<Rightarrow> (store_error + 'a) \<times> 's"

definition retS :: "'a \<Rightarrow> ('s, 'a) io" where
  "retS x s = (Inr x, s)"

definition failS :: "store_error \<Rightarrow> ('s, 'a) io" where
  "failS e s = (Inl e, s)"

definition bindS :: "('s, 'a) io \<Rightarrow> ('a \<Rightarrow> ('s, 'b) io) \<Rightarrow> ('s, 'b) io" where
  "bindS m f s = (case m s of (Inl e, s') \<Rightarrow> (Inl e, s') | (Inr x, s') \<Rightarrow> f x s')"

definition liftE :: "store_error + 'a \<Rightarrow> ('s, 'a) io" where
  "liftE r s = (r, s)"

subsection \<open>The device\<close>

record 'd bdev =
  bd_block_count :: "'d \<Rightarrow> nat option \<times> 'd"
  bd_read :: "nat \<Rightarrow> nat \<Rightarrow> 'd \<Rightarrow> bytes option \<times> 'd"
  bd_write :: "nat \<Rightarrow> bytes \<Rightarrow> 'd \<Rightarrow> bool \<times> 'd"
  bd_sync :: "'d \<Rightarrow> bool \<times> 'd"

text \<open>\<open>read_blocks\<close> takes the number of blocks of the buffer it fills and returns the buffer.\<close>

definition read_blocks :: "'d bdev \<Rightarrow> nat \<Rightarrow> nat \<Rightarrow> ('d, bytes) io" where
  "read_blocks D lba n d = (case bd_read D lba n d of
     (None, d') \<Rightarrow> (Inl Media, d') | (Some bs, d') \<Rightarrow> (Inr bs, d'))"

definition write_blocks :: "'d bdev \<Rightarrow> nat \<Rightarrow> bytes \<Rightarrow> ('d, unit) io" where
  "write_blocks D lba bs d = (case bd_write D lba bs d of
     (False, d') \<Rightarrow> (Inl Media, d') | (True, d') \<Rightarrow> (Inr (), d'))"

definition sync_dev :: "'d bdev \<Rightarrow> ('d, unit) io" where
  "sync_dev D d = (case bd_sync D d of
     (False, d') \<Rightarrow> (Inl Media, d') | (True, d') \<Rightarrow> (Inr (), d'))"

subsection \<open>The faulting card: sim.rs\<close>

definition PAGE_BLOCKS :: nat where "PAGE_BLOCKS = PROGRAM_PAGE div BLOCK"

text \<open>
  The disk's \<open>ledger\<close> and \<open>write_log\<close> are left out: they record the operations for the test matrix
  and no operation reads them.
\<close>

datatype cut_when = Before | During | Inside nat bool bool | After

record fault_plan =
  fp_op :: nat
  fp_when :: cut_when

record sparse_disk =
  sd_durable :: "nat \<Rightarrow> bytes option"
  sd_pending :: "(nat \<times> bytes) list"
  sd_total :: nat
  sd_plan :: "fault_plan option"
  sd_ops :: nat
  sd_powered :: bool
  sd_rng :: u64

definition sd_blank :: "nat \<Rightarrow> u64 \<Rightarrow> sparse_disk" where
  "sd_blank blocks seed =
     \<lparr>sd_durable = Map.empty, sd_pending = [], sd_total = blocks, sd_plan = None, sd_ops = 0,
      sd_powered = True, sd_rng = seed OR 1\<rparr>"

definition sd_set_plan :: "fault_plan \<Rightarrow> sparse_disk \<Rightarrow> sparse_disk" where
  "sd_set_plan p d = d\<lparr>sd_plan := Some p\<rparr>"

definition sd_reboot :: "sparse_disk \<Rightarrow> sparse_disk" where
  "sd_reboot d = d\<lparr>sd_pending := [], sd_plan := None, sd_powered := True\<rparr>"

definition sd_block :: "sparse_disk \<Rightarrow> nat \<Rightarrow> bytes" where
  "sd_block d lba = (case sd_durable d lba of None \<Rightarrow> zeros BLOCK | Some bs \<Rightarrow> bs)"

text \<open>\<open>install\<close>: content on the card without a counted operation.\<close>

definition sd_install :: "nat \<Rightarrow> bytes \<Rightarrow> sparse_disk \<Rightarrow> sparse_disk" where
  "sd_install lba bs d =
     fold (\<lambda>i d. d\<lparr>sd_durable := (sd_durable d)(lba + i \<mapsto> put_bytes (zeros BLOCK) 0 (slice (i * BLOCK) BLOCK bs))\<rparr>)
       [0..<div_ceil (length bs) BLOCK] d"

text \<open>The generator: one word and the next state.\<close>

definition rng_next :: "u64 \<Rightarrow> u64 \<times> u64" where
  "rng_next x =
     (let x = x XOR drop_bit 12 x; x = x XOR push_bit 25 x; x = x XOR drop_bit 27 x
      in (x * 0x2545F4914F6CDD1D, x))"

fun rng_bytes :: "nat \<Rightarrow> u64 \<Rightarrow> bytes \<times> u64" where
  "rng_bytes 0 s = ([], s)"
| "rng_bytes (Suc n) s =
     (let (w, s1) = rng_next s; (bs, s2) = rng_bytes n s1 in (ucast w # bs, s2))"

definition sd_power_off :: "sparse_disk \<Rightarrow> sparse_disk" where
  "sd_power_off d = d\<lparr>sd_powered := False, sd_pending := []\<rparr>"

definition sd_insert :: "sparse_disk \<Rightarrow> nat \<Rightarrow> bytes \<Rightarrow> sparse_disk" where
  "sd_insert d lba bs = d\<lparr>sd_durable := (sd_durable d)(lba \<mapsto> bs)\<rparr>"

definition tear_block :: "nat \<Rightarrow> sparse_disk \<Rightarrow> sparse_disk" where
  "tear_block b d = (let (bs, s) = rng_bytes BLOCK (sd_rng d) in (sd_insert d b bs)\<lparr>sd_rng := s\<rparr>)"

definition sd_tear :: "nat \<Rightarrow> nat \<Rightarrow> sparse_disk \<Rightarrow> sparse_disk" where
  "sd_tear lba blocks d =
     (let first = lba div PAGE_BLOCKS * PAGE_BLOCKS;
          stop = (lba + blocks - 1) div PAGE_BLOCKS * PAGE_BLOCKS + PAGE_BLOCKS
      in fold tear_block [first..<stop] d)"

definition cut_is :: "sparse_disk \<Rightarrow> cut_when \<Rightarrow> bool" where
  "cut_is d w \<longleftrightarrow> (case sd_plan d of None \<Rightarrow> False | Some p \<Rightarrow> fp_op p = sd_ops d \<and> fp_when p = w)"

definition cut_inside :: "sparse_disk \<Rightarrow> (nat \<times> bool \<times> bool) option" where
  "cut_inside d = (case sd_plan d of None \<Rightarrow> None
     | Some p \<Rightarrow> if fp_op p = sd_ops d
         then (case fp_when p of Inside blocks tear durable \<Rightarrow> Some (blocks, tear, durable) | _ \<Rightarrow> None)
         else None)"

text \<open>\<open>begin\<close>: counts the operation; \<open>None\<close> is the refusal of a card without power.\<close>

definition sd_begin :: "sparse_disk \<Rightarrow> sparse_disk option" where
  "sd_begin d = (if sd_powered d then Some (d\<lparr>sd_ops := sd_ops d + 1\<rparr>) else None)"

text \<open>What a read sees: the newest pending write of the block, else the durable image.\<close>

definition sd_view :: "sparse_disk \<Rightarrow> nat \<Rightarrow> bytes" where
  "sd_view d b = (case find (\<lambda>(at, _). at = b) (List.rev (sd_pending d)) of
     Some (_, bs) \<Rightarrow> bs | None \<Rightarrow> sd_block d b)"

definition sd_read :: "nat \<Rightarrow> nat \<Rightarrow> sparse_disk \<Rightarrow> bytes option \<times> sparse_disk" where
  "sd_read lba n d = (case sd_begin d of
     None \<Rightarrow> (None, d)
   | Some d1 \<Rightarrow>
       if lba + n > sd_total d1 then (None, d1)
       else if cut_is d1 Before \<or> cut_is d1 During then (None, sd_power_off d1)
       else (Some (concat (map (sd_view d1) [lba..<lba + n])),
             if cut_is d1 After then sd_power_off d1 else d1))"

definition chunk :: "bytes \<Rightarrow> nat \<Rightarrow> bytes" where
  "chunk bs i = slice (i * BLOCK) BLOCK bs"

definition sd_write :: "nat \<Rightarrow> bytes \<Rightarrow> sparse_disk \<Rightarrow> bool \<times> sparse_disk" where
  "sd_write lba bs d =
     (let n = length bs div BLOCK in
      case sd_begin d of
        None \<Rightarrow> (False, d)
      | Some d1 \<Rightarrow>
          if length bs mod BLOCK \<noteq> 0 \<or> n = 0 \<or> lba + n > sd_total d1 then (False, d1)
          else if cut_is d1 Before then (False, sd_power_off d1)
          else (case (case cut_inside d1 of None \<Rightarrow> None
                      | Some (taken, tear, durable) \<Rightarrow>
                          if taken < n then Some (taken, tear, durable) else None) of
             Some (taken, tear, durable) \<Rightarrow>
               (let d2 = (if durable then fold (\<lambda>i d. sd_insert d (lba + i) (chunk bs i)) [0..<taken] d1
                          else d1);
                    d3 = (if tear then sd_tear (lba + taken) 1 d2 else d2)
                in (False, sd_power_off d3))
           | None \<Rightarrow>
               (let d2 = d1\<lparr>sd_pending := sd_pending d1 @ map (\<lambda>i. (lba + i, chunk bs i)) [0..<n]\<rparr>
                in if cut_is d1 During then (False, sd_power_off (sd_tear lba n d2))
                   else if cut_is d1 After then (True, sd_power_off d2)
                   else (True, d2))))"

text \<open>The subset of the pending writes a cut barrier commits, and the first block it dropped.\<close>

fun sd_commit_some :: "(nat \<times> bytes) list \<Rightarrow> nat option \<Rightarrow> sparse_disk \<Rightarrow> nat option \<times> sparse_disk" where
  "sd_commit_some [] torn d = (torn, d)"
| "sd_commit_some ((lba, bs) # ps) torn d =
     (let (w, s) = rng_next (sd_rng d); d = d\<lparr>sd_rng := s\<rparr> in
      if w AND 1 = 0 then sd_commit_some ps torn (sd_insert d lba bs)
      else sd_commit_some ps (if torn = None then Some lba else torn) d)"

definition sd_sync :: "sparse_disk \<Rightarrow> bool \<times> sparse_disk" where
  "sd_sync d = (case sd_begin d of
     None \<Rightarrow> (False, d)
   | Some d1 \<Rightarrow>
       if cut_is d1 Before then (False, sd_power_off d1)
       else if cut_is d1 During
       then (let (torn, d2) = sd_commit_some (sd_pending d1) None (d1\<lparr>sd_pending := []\<rparr>);
                 d3 = (case torn of None \<Rightarrow> d2 | Some lba \<Rightarrow> sd_tear lba 1 d2)
             in (False, sd_power_off d3))
       else (let d2 = fold (\<lambda>(lba, bs) d. sd_insert d lba bs) (sd_pending d1) (d1\<lparr>sd_pending := []\<rparr>)
             in (True, if cut_is d1 After then sd_power_off d2 else d2)))"

definition sparse_dev :: "sparse_disk bdev" where
  "sparse_dev = \<lparr>bd_block_count = (\<lambda>d. (Some (sd_total d), d)), bd_read = sd_read,
     bd_write = sd_write, bd_sync = sd_sync\<rparr>"

subsection \<open>A card that refuses one operation\<close>

datatype media_op = Read | Write | Sync

record 'd fault_once =
  fo_inner :: 'd
  fo_armed :: "(media_op \<times> nat) option"
  fo_fired :: bool

definition fo_new :: "'d \<Rightarrow> 'd fault_once" where
  "fo_new inner = \<lparr>fo_inner = inner, fo_armed = None, fo_fired = False\<rparr>"

definition fault_after :: "media_op \<Rightarrow> nat \<Rightarrow> 'd fault_once \<Rightarrow> 'd fault_once" where
  "fault_after op skip d = d\<lparr>fo_armed := Some (op, skip), fo_fired := False\<rparr>"

text \<open>\<open>gate\<close>: whether this operation is let through.\<close>

definition fo_gate :: "media_op \<Rightarrow> 'd fault_once \<Rightarrow> bool \<times> 'd fault_once" where
  "fo_gate op d = (case fo_armed d of
     Some (armed, skip) \<Rightarrow>
       if armed = op
       then if skip = 0 then (False, d\<lparr>fo_armed := None, fo_fired := True\<rparr>)
         else (True, d\<lparr>fo_armed := Some (armed, skip - 1)\<rparr>)
       else (True, d)
   | None \<Rightarrow> (True, d))"

definition fault_dev :: "'d bdev \<Rightarrow> 'd fault_once bdev" where
  "fault_dev D =
     \<lparr>bd_block_count = (\<lambda>d. let (r, i) = bd_block_count D (fo_inner d) in (r, d\<lparr>fo_inner := i\<rparr>)),
      bd_read = (\<lambda>lba n d. case fo_gate Read d of (ok, d1) \<Rightarrow>
        if ok then let (r, i) = bd_read D lba n (fo_inner d1) in (r, d1\<lparr>fo_inner := i\<rparr>) else (None, d1)),
      bd_write = (\<lambda>lba bs d. case fo_gate Write d of (ok, d1) \<Rightarrow>
        if ok then let (r, i) = bd_write D lba bs (fo_inner d1) in (r, d1\<lparr>fo_inner := i\<rparr>) else (False, d1)),
      bd_sync = (\<lambda>d. case fo_gate Sync d of (ok, d1) \<Rightarrow>
        if ok then let (r, i) = bd_sync D (fo_inner d1) in (r, d1\<lparr>fo_inner := i\<rparr>) else (False, d1))\<rparr>"

subsection \<open>Lemmas on effects\<close>

lemma bindS_ret [simp]: "bindS (retS x) f = f x"
  by (rule ext) (simp add: bindS_def retS_def)

lemma bindS_fail [simp]: "bindS (failS e) f = failS e"
  by (rule ext) (simp add: bindS_def failS_def)

lemma retS_app [simp]: "retS x s = (Inr x, s)" and failS_app [simp]: "failS e s = (Inl e, s)"
  and liftE_app [simp]: "liftE r s = (r, s)"
  by (simp_all add: retS_def failS_def liftE_def)

lemma bindS_Inr:
  "bindS m f s = (Inr y, s'') \<longleftrightarrow> (\<exists>x s'. m s = (Inr x, s') \<and> f x s' = (Inr y, s''))"
  by (auto simp: bindS_def split: prod.splits sum.splits)

lemma bindS_cases:
  assumes "bindS m f s = (r, s'')"
  obtains (fails) e where "m s = (Inl e, s'')" and "r = Inl e"
    | (steps) x s' where "m s = (Inr x, s')" and "f x s' = (r, s'')"
  using assms by (auto simp: bindS_def split: prod.splits sum.splits)

subsection \<open>The contract of a block device\<close>

text \<open>The blocks of the program pages a write of \<open>n\<close> blocks at \<open>lba\<close> touches.\<close>

definition touched :: "nat \<Rightarrow> nat \<Rightarrow> nat \<Rightarrow> bool" where
  "touched lba n b \<longleftrightarrow> 0 < n \<and> lba div PAGE_BLOCKS \<le> b div PAGE_BLOCKS
     \<and> b div PAGE_BLOCKS \<le> (lba + n - 1) div PAGE_BLOCKS"

text \<open>The contents after a completed write.\<close>

definition patch :: "(nat \<Rightarrow> bytes) \<Rightarrow> nat \<Rightarrow> bytes \<Rightarrow> nat \<Rightarrow> bytes" where
  "patch m lba bs b =
     (if lba \<le> b \<and> b < lba + length bs div BLOCK then chunk bs (b - lba) else m b)"

lemma touched_self: "lba \<le> b \<Longrightarrow> b < lba + n \<Longrightarrow> touched lba n b"
  by (auto simp: touched_def intro!: div_le_mono)

locale block_device =
  fixes D :: "'d bdev"
    and good :: "'d \<Rightarrow> bool"
    and alive :: "'d \<Rightarrow> bool"
    and media :: "'d \<Rightarrow> nat \<Rightarrow> bytes"
    and cands :: "'d \<Rightarrow> nat \<Rightarrow> bytes set"
    and torn :: "bytes \<Rightarrow> bool"
  assumes media_len: "good d \<Longrightarrow> length (media d b) = BLOCK"
    and media_cand: "good d \<Longrightarrow> media d b \<in> cands d b"
    and count_law: "good d \<Longrightarrow> bd_block_count D d = (c, d') \<Longrightarrow>
      good d' \<and> (\<forall>b. cands d' b \<subseteq> cands d b) \<and> (alive d' \<longrightarrow> alive d \<and> media d' = media d)"
    and read_law: "good d \<Longrightarrow> bd_read D lba n d = (v, d') \<Longrightarrow>
      good d' \<and> (\<forall>b. cands d' b \<subseteq> cands d b) \<and> (alive d' \<longrightarrow> alive d \<and> media d' = media d)
      \<and> (\<forall>bs. v = Some bs \<longrightarrow> alive d \<and> bs = concat (map (media d) [lba..<lba + n]))"
    and write_law: "good d \<Longrightarrow> length bs = n * BLOCK \<Longrightarrow> bd_write D lba bs d = (r, d') \<Longrightarrow>
      good d' \<and> (r \<longrightarrow> alive d)
      \<and> (\<forall>b. cands d' b \<subseteq> cands d b \<union> (if lba \<le> b \<and> b < lba + n then {chunk bs (b - lba)} else {})
            \<union> (if touched lba n b then Collect torn else {}))
      \<and> (alive d' \<longrightarrow> alive d \<and> (\<forall>b. touched lba n b \<or> media d' b = media d b)
            \<and> (r \<longrightarrow> media d' = patch (media d) lba bs))"
    and sync_law: "good d \<Longrightarrow> bd_sync D d = (r, d') \<Longrightarrow>
      good d' \<and> (alive d' \<longrightarrow> alive d \<and> media d' = media d)
      \<and> (if r then alive d \<and> (\<forall>b. cands d' b \<subseteq> {media d b}) else \<forall>b. cands d' b \<subseteq> cands d b)"
begin

text \<open>
  What a sequence of card commands may have done: outside the pages of \<open>W\<close> it changed no block and
  left no new content a power cut could expose.
\<close>

definition confined :: "(nat \<Rightarrow> bool) \<Rightarrow> 'd \<Rightarrow> 'd \<Rightarrow> bool" where
  "confined W d d' \<longleftrightarrow> good d' \<and> (alive d' \<longrightarrow> alive d)
     \<and> (\<forall>b. W b \<or> cands d' b \<subseteq> cands d b \<and> (alive d' \<longrightarrow> media d' b = media d b))"

lemma confined_refl: "good d \<Longrightarrow> confined W d d"
  by (simp add: confined_def)

lemma confined_trans: "confined W d d1 \<Longrightarrow> confined W d1 d2 \<Longrightarrow> confined W d d2"
  unfolding confined_def by (metis (no_types, lifting) order_trans)

lemma confined_mono: "confined V d d' \<Longrightarrow> (\<And>b. V b \<Longrightarrow> W b) \<Longrightarrow> confined W d d'"
  unfolding confined_def by blast

lemma confined_good: "confined W d d' \<Longrightarrow> good d'"
  by (simp add: confined_def)

lemma confined_alive: "confined W d d' \<Longrightarrow> alive d' \<Longrightarrow> alive d"
  by (simp add: confined_def)

lemma confined_at:
  assumes "confined W d d'" and "\<not> W b"
  shows "cands d' b \<subseteq> cands d b" and "alive d' \<Longrightarrow> media d' b = media d b"
  using assms by (auto simp: confined_def)

lemma read_blocks_cases:
  assumes "good d" and "read_blocks D lba n d = (r, d')"
  shows "good d' \<and> (\<forall>b. cands d' b \<subseteq> cands d b) \<and> (alive d' \<longrightarrow> alive d \<and> media d' = media d)
    \<and> (r = Inl Media \<or> r = Inr (concat (map (media d) [lba..<lba + n])) \<and> alive d)"
proof -
  obtain o' d1 where rd: "bd_read D lba n d = (o', d1)" by fastforce
  show ?thesis
    using read_law [OF assms(1) rd] assms(2) by (cases o') (auto simp: read_blocks_def rd)
qed

lemma write_blocks_cases:
  assumes "good d" and "length bs = n * BLOCK" and "write_blocks D lba bs d = (r, d')"
  shows "good d' \<and> (r = Inl Media \<or> r = Inr () \<and> alive d)
    \<and> (\<forall>b. cands d' b \<subseteq> cands d b \<union> (if lba \<le> b \<and> b < lba + n then {chunk bs (b - lba)} else {})
          \<union> (if touched lba n b then Collect torn else {}))
    \<and> (alive d' \<longrightarrow> alive d \<and> (\<forall>b. touched lba n b \<or> media d' b = media d b)
          \<and> (r = Inr () \<longrightarrow> media d' = patch (media d) lba bs))"
proof -
  obtain ok d1 where wr: "bd_write D lba bs d = (ok, d1)" by fastforce
  show ?thesis
    using write_law [OF assms(1,2) wr] assms(3) by (cases ok) (auto simp: write_blocks_def wr)
qed

lemma sync_dev_cases:
  assumes "good d" and "sync_dev D d = (r, d')"
  shows "good d' \<and> (alive d' \<longrightarrow> alive d \<and> media d' = media d)
    \<and> (r = Inr () \<and> alive d \<and> (\<forall>b. cands d' b \<subseteq> {media d b})
       \<or> r = Inl Media \<and> (\<forall>b. cands d' b \<subseteq> cands d b))"
proof -
  obtain ok d1 where sy: "bd_sync D d = (ok, d1)" by fastforce
  show ?thesis
    using sync_law [OF assms(1) sy] assms(2) by (cases ok) (auto simp: sync_dev_def sy)
qed

lemma read_confined:
  assumes "good d" and "read_blocks D lba n d = (r, d')"
  shows "confined W d d'"
  using read_blocks_cases [OF assms] by (simp add: confined_def)

lemma write_confined:
  assumes "good d" and "length bs = n * BLOCK" and "write_blocks D lba bs d = (r, d')"
  shows "confined (touched lba n) d d'"
  unfolding confined_def
proof (intro conjI allI)
  note w = write_blocks_cases [OF assms]
  show "good d'" and "alive d' \<longrightarrow> alive d" using w by blast+
  fix b
  show "touched lba n b \<or> cands d' b \<subseteq> cands d b \<and> (alive d' \<longrightarrow> media d' b = media d b)"
  proof (cases "touched lba n b")
    case False
    then have "\<not> (lba \<le> b \<and> b < lba + n)" using touched_self by blast
    then have "cands d' b \<subseteq> cands d b"
      using w [THEN conjunct2, THEN conjunct2, THEN conjunct1, rule_format, of b] False by auto
    then show ?thesis using w False by blast
  qed simp
qed

lemma sync_confined:
  assumes "good d" and "sync_dev D d = (r, d')"
  shows "confined W d d'"
proof -
  note s = sync_dev_cases [OF assms]
  have "cands d' b \<subseteq> cands d b" for b
    using s media_cand [OF assms(1), of b] by (elim conjE disjE) auto
  then show ?thesis using s by (auto simp: confined_def)
qed

end

subsection \<open>SparseDisk keeps the contract\<close>

definition sd_good :: "sparse_disk \<Rightarrow> bool" where
  "sd_good d \<longleftrightarrow> (\<forall>b bs. sd_durable d b = Some bs \<longrightarrow> length bs = BLOCK)
     \<and> (\<forall>(b, bs)\<in>set (sd_pending d). length bs = BLOCK)"

definition sd_torn :: "bytes \<Rightarrow> bool" where
  "sd_torn x \<longleftrightarrow> (\<exists>s. x = fst (rng_bytes BLOCK s))"

definition sd_cands :: "sparse_disk \<Rightarrow> nat \<Rightarrow> bytes set" where
  "sd_cands d b = {sd_block d b} \<union> {x. (b, x) \<in> set (sd_pending d)}
     \<union> (if \<exists>(a, x)\<in>set (sd_pending d). a div PAGE_BLOCKS = b div PAGE_BLOCKS then Collect sd_torn else {})"

lemma length_rng_bytes [simp]: "length (fst (rng_bytes n s)) = n"
proof (induction n arbitrary: s)
  case (Suc n)
  then show ?case by (simp add: Let_def split: prod.splits) (metis fst_conv)
qed simp

lemma PAGE_BLOCKS_eq: "PAGE_BLOCKS = 32"
  by (simp add: PAGE_BLOCKS_def fmt_consts)

lemma sd_insert_simps [simp]:
  "sd_block (sd_insert d a bs) b = (if b = a then bs else sd_block d b)"
  "sd_pending (sd_insert d a bs) = sd_pending d" "sd_powered (sd_insert d a bs) = sd_powered d"
  "sd_plan (sd_insert d a bs) = sd_plan d" "sd_ops (sd_insert d a bs) = sd_ops d"
  by (auto simp: sd_insert_def sd_block_def)

lemma good_insert: "sd_good d \<Longrightarrow> length bs = BLOCK \<Longrightarrow> sd_good (sd_insert d a bs)"
  by (auto simp: sd_good_def sd_insert_def split: if_splits)

lemma tear_block_props:
  "sd_good d \<Longrightarrow> sd_good (tear_block a d)"
  "sd_pending (tear_block a d) = sd_pending d" "sd_powered (tear_block a d) = sd_powered d"
  "b \<noteq> a \<Longrightarrow> sd_block (tear_block a d) b = sd_block d b" "sd_torn (sd_block (tear_block a d) a)"
proof -
  obtain bs s where r: "rng_bytes BLOCK (sd_rng d) = (bs, s)" by fastforce
  have len: "length bs = BLOCK" using length_rng_bytes [of BLOCK "sd_rng d"] by (simp add: r)
  have t: "tear_block a d = (sd_insert d a bs)\<lparr>sd_rng := s\<rparr>" by (simp add: tear_block_def r)
  have b: "sd_block (tear_block a d) b = sd_block (sd_insert d a bs) b" for b
    by (simp add: t sd_block_def)
  show "sd_good d \<Longrightarrow> sd_good (tear_block a d)"
    using len good_insert [of d bs a] by (auto simp: t sd_good_def)
  show "sd_pending (tear_block a d) = sd_pending d" and "sd_powered (tear_block a d) = sd_powered d"
    by (simp_all add: t)
  show "b \<noteq> a \<Longrightarrow> sd_block (tear_block a d) b = sd_block d b" by (simp add: b)
  show "sd_torn (sd_block (tear_block a d) a)"
    by (simp add: b sd_torn_def) (metis r fst_conv)
qed

lemma fold_tear:
  "sd_good d \<Longrightarrow> sd_good (fold tear_block xs d) \<and> sd_pending (fold tear_block xs d) = sd_pending d
   \<and> sd_powered (fold tear_block xs d) = sd_powered d
   \<and> (\<forall>b. sd_block (fold tear_block xs d) b = sd_block d b \<or> b \<in> set xs \<and> sd_torn (sd_block (fold tear_block xs d) b))"
proof (induction xs arbitrary: d)
  case (Cons x xs)
  have step: "sd_good (tear_block x d)" using tear_block_props(1) Cons.prems .
  note t = tear_block_props [where a = x and d = d]
  note ih = Cons.IH [OF step]
  have "sd_block (fold tear_block xs (tear_block x d)) b = sd_block d b
      \<or> b \<in> set (x # xs) \<and> sd_torn (sd_block (fold tear_block xs (tear_block x d)) b)" for b
  proof (cases "b = x")
    case True
    then show ?thesis using ih [THEN conjunct2, THEN conjunct2, THEN conjunct2, THEN spec, of b] t(5) by auto
  next
    case False
    then show ?thesis using ih [THEN conjunct2, THEN conjunct2, THEN conjunct2, THEN spec, of b] t(4) [of b] by auto
  qed
  then show ?case using ih t(2,3) by simp
qed simp

lemma sd_tear_props:
  assumes "sd_good d" and "0 < n"
  shows "sd_good (sd_tear lba n d) \<and> sd_pending (sd_tear lba n d) = sd_pending d
    \<and> (\<forall>b. sd_block (sd_tear lba n d) b = sd_block d b \<or> touched lba n b \<and> sd_torn (sd_block (sd_tear lba n d) b))"
proof -
  define lo hi where "lo = lba div PAGE_BLOCKS" and "hi = (lba + n - 1) div PAGE_BLOCKS"
  have "b \<in> set [lo * PAGE_BLOCKS..<hi * PAGE_BLOCKS + PAGE_BLOCKS] \<Longrightarrow> touched lba n b" for b
  proof -
    assume "b \<in> set [lo * PAGE_BLOCKS..<hi * PAGE_BLOCKS + PAGE_BLOCKS]"
    then have "lo * 32 \<le> b" and "b < Suc hi * 32" by (simp_all add: PAGE_BLOCKS_eq)
    then have "lo \<le> b div 32" and "b div 32 < Suc hi"
      by (simp_all add: less_eq_div_iff_mult_less_eq div_less_iff_less_mult)
    then show ?thesis using assms(2) by (simp add: touched_def lo_def hi_def PAGE_BLOCKS_eq)
  qed
  then show ?thesis
    using fold_tear [OF assms(1), of "[lo * PAGE_BLOCKS..<hi * PAGE_BLOCKS + PAGE_BLOCKS]"]
    unfolding sd_tear_def Let_def lo_def hi_def by blast
qed

lemma sd_tear_at:
  assumes "sd_good d" and "0 < n"
  obtains (same) "sd_block (sd_tear lba n d) b = sd_block d b"
    | (torn) "touched lba n b" and "sd_torn (sd_block (sd_tear lba n d) b)"
  using sd_tear_props [OF assms, of lba] by auto

lemma power_off_props:
  "sd_good d \<Longrightarrow> sd_good (sd_power_off d)" "sd_cands (sd_power_off d) b = {sd_block d b}"
  "\<not> sd_powered (sd_power_off d)"
  by (auto simp: sd_good_def sd_power_off_def sd_cands_def sd_block_def)

lemma count_op_props:
  "sd_good (d\<lparr>sd_ops := n\<rparr>) = sd_good d" "sd_cands (d\<lparr>sd_ops := n\<rparr>) b = sd_cands d b"
  "sd_view (d\<lparr>sd_ops := n\<rparr>) = sd_view d" "sd_block (d\<lparr>sd_ops := n\<rparr>) = sd_block d"
proof -
  show blk: "sd_block (d\<lparr>sd_ops := n\<rparr>) = sd_block d" by (simp add: sd_block_def fun_eq_iff)
  show "sd_view (d\<lparr>sd_ops := n\<rparr>) = sd_view d" 
    by (rule ext) (simp add: sd_view_def blk split: option.splits)
  show "sd_good (d\<lparr>sd_ops := n\<rparr>) = sd_good d" by (simp add: sd_good_def)
  show "sd_cands (d\<lparr>sd_ops := n\<rparr>) b = sd_cands d b" by (simp add: sd_cands_def blk)
qed

lemma block_in_cands: "sd_block d b \<in> sd_cands d b"
  by (simp add: sd_cands_def)

lemma sd_read_law:
  assumes "sd_good d" and "sd_read lba n d = (v, d')"
  shows "sd_good d' \<and> (\<forall>b. sd_cands d' b \<subseteq> sd_cands d b) \<and> (sd_powered d' \<longrightarrow> sd_powered d \<and> sd_view d' = sd_view d)
    \<and> (\<forall>bs. v = Some bs \<longrightarrow> sd_powered d \<and> bs = concat (map (sd_view d) [lba..<lba + n]))"
  using assms block_in_cands [of d]
  by (auto simp: sd_read_def sd_begin_def count_op_props power_off_props split: if_splits)

lemma view_append:
  "sd_view (d\<lparr>sd_pending := sd_pending d @ ps\<rparr>) b =
   (case find (\<lambda>(at, _). at = b) (List.rev ps) of Some (_, bs) \<Rightarrow> bs | None \<Rightarrow> sd_view d b)"
proof -
  have "find P (xs @ ys) = (case find P xs of None \<Rightarrow> find P ys | Some x \<Rightarrow> Some x)" for P :: "nat \<times> bytes \<Rightarrow> bool" and xs ys
    by (induction xs) auto
  then show ?thesis by (auto simp: sd_view_def sd_block_def split: option.splits)
qed

lemma find_chunks:
  "find (\<lambda>(at, _). at = b) (List.rev (map (\<lambda>i. (lba + i, f i)) [0..<n])) =
   (if lba \<le> b \<and> b < lba + n then Some (b, f (b - lba)) else None)"
  by (induction n) auto

lemma view_patch:
  assumes "n = length bs div BLOCK"
  shows "sd_view (d\<lparr>sd_pending := sd_pending d @ map (\<lambda>i. (lba + i, chunk bs i)) [0..<n]\<rparr>)
    = patch (sd_view d) lba bs"
  by (rule ext) (simp add: view_append find_chunks patch_def assms split: if_splits)

lemma length_chunk: "length bs = n * BLOCK \<Longrightarrow> i < n \<Longrightarrow> length (chunk bs i) = BLOCK"
proof -
  assume "length bs = n * BLOCK" and "i < n"
  then have "i * BLOCK + BLOCK \<le> length bs" by (metis Suc_leI add.commute mult_Suc mult_le_mono1)
  then show ?thesis by (simp add: chunk_def)
qed

text \<open>The volatile part of a write: new pending blocks.\<close>

lemma pending_props:
  assumes "sd_good d" and "length bs = n * BLOCK" and "0 < n"
    and "d2 = d\<lparr>sd_pending := sd_pending d @ map (\<lambda>i. (lba + i, chunk bs i)) [0..<n]\<rparr>"
  shows "sd_good d2 \<and> sd_block d2 = sd_block d
    \<and> sd_cands d2 b \<subseteq> sd_cands d b \<union> (if lba \<le> b \<and> b < lba + n then {chunk bs (b - lba)} else {})
        \<union> (if touched lba n b then Collect sd_torn else {})"
proof (intro conjI)
  show "sd_good d2" using assms length_chunk [OF assms(2)] by (auto simp: sd_good_def)
  show blk: "sd_block d2 = sd_block d" by (simp add: assms(4) sd_block_def fun_eq_iff)
  have page: "touched lba n b" if "i < n" "(lba + i) div PAGE_BLOCKS = b div PAGE_BLOCKS" for i
    using that touched_self [of lba "lba + i" n] by (simp add: touched_def)
  have mem: "(a, x) \<in> set (sd_pending d2) \<longleftrightarrow> (a, x) \<in> set (sd_pending d) \<or> (\<exists>i<n. a = lba + i \<and> x = chunk bs i)" for a x
    by (auto simp: assms(4))
  show "sd_cands d2 b \<subseteq> sd_cands d b \<union> (if lba \<le> b \<and> b < lba + n then {chunk bs (b - lba)} else {})
        \<union> (if touched lba n b then Collect sd_torn else {})"
  proof
    fix x assume "x \<in> sd_cands d2 b"
    then consider "x = sd_block d b" | "(b, x) \<in> set (sd_pending d2)"
      | a y where "(a, y) \<in> set (sd_pending d2)" "a div PAGE_BLOCKS = b div PAGE_BLOCKS" "sd_torn x"
      by (auto simp: sd_cands_def blk split: if_splits)
    then show "x \<in> sd_cands d b \<union> (if lba \<le> b \<and> b < lba + n then {chunk bs (b - lba)} else {})
        \<union> (if touched lba n b then Collect sd_torn else {})"
    proof cases
      case 3
      then show ?thesis using page by (fastforce simp: mem sd_cands_def)
    qed (auto simp: mem sd_cands_def)
  qed
qed

lemma fold_insert_props:
  assumes "sd_good d" and "\<And>i. i < k \<Longrightarrow> length (f i) = BLOCK"
    and "d2 = fold (\<lambda>i d. sd_insert d (lba + i) (f i)) [0..<k] d"
  shows "sd_good d2 \<and> sd_pending d2 = sd_pending d
    \<and> sd_block d2 b = (if lba \<le> b \<and> b < lba + k then f (b - lba) else sd_block d b)"
  using assms
proof (induction k arbitrary: d2)
  case (Suc k)
  define d1 where "d1 = fold (\<lambda>i d. sd_insert d (lba + i) (f i)) [0..<k] d"
  have ih: "sd_good d1 \<and> sd_pending d1 = sd_pending d
    \<and> sd_block d1 b = (if lba \<le> b \<and> b < lba + k then f (b - lba) else sd_block d b)"
    by (rule Suc.IH) (use Suc.prems in \<open>simp_all add: d1_def\<close>)
  have "d2 = sd_insert d1 (lba + k) (f k)" using Suc.prems(3) by (simp add: d1_def)
  then show ?case using ih Suc.prems(2) [of k] good_insert [of d1 "f k" "lba + k"] by auto
qed auto

text \<open>Losing power keeps the durable image, which is one of the candidates.\<close>

lemma off_after:
  assumes "sd_good d2" and "\<And>b. sd_block d2 b \<in> C b"
  shows "sd_good (sd_power_off d2) \<and> (\<forall>b. sd_cands (sd_power_off d2) b \<subseteq> C b) \<and> \<not> sd_powered (sd_power_off d2)"
  using assms power_off_props by auto

lemma sd_write_law:
  assumes good: "sd_good d" and len: "length bs = n * BLOCK" and wr: "sd_write lba bs d = (ok, d')"
  shows "sd_good d' \<and> (ok \<longrightarrow> sd_powered d)
    \<and> (\<forall>b. sd_cands d' b \<subseteq> sd_cands d b \<union> (if lba \<le> b \<and> b < lba + n then {chunk bs (b - lba)} else {})
          \<union> (if touched lba n b then Collect sd_torn else {}))
    \<and> (sd_powered d' \<longrightarrow> sd_powered d \<and> (\<forall>b. touched lba n b \<or> sd_view d' b = sd_view d b)
          \<and> (ok \<longrightarrow> sd_view d' = patch (sd_view d) lba bs))"
proof -
  let ?C = "\<lambda>b. sd_cands d b \<union> (if lba \<le> b \<and> b < lba + n then {chunk bs (b - lba)} else {})
      \<union> (if touched lba n b then Collect sd_torn else {})"
  have n: "length bs div BLOCK = n" "length bs mod BLOCK = 0" using len by (simp_all add: BLOCK_def)
  define d1 where "d1 = d\<lparr>sd_ops := sd_ops d + 1\<rparr>"
  have good1: "sd_good d1" using good by (simp add: d1_def count_op_props)
  have same: "sd_cands d1 b = sd_cands d b" "sd_view d1 = sd_view d" "sd_block d1 = sd_block d" for b
    by (simp_all add: d1_def count_op_props)
  define d2 where "d2 = d1\<lparr>sd_pending := sd_pending d1 @ map (\<lambda>i. (lba + i, chunk bs i)) [0..<n]\<rparr>"
  consider (dead) "\<not> sd_powered d" "(ok, d') = (False, d)"
    | (refused) "sd_powered d" "(ok, d') = (False, d1)"
    | (before) "(ok, d') = (False, sd_power_off d1)"
    | (inside) taken tear durable where "0 < n" "taken < n"
        "(ok, d') = (False, sd_power_off
           (let d2 = (if durable then fold (\<lambda>i d. sd_insert d (lba + i) (chunk bs i)) [0..<taken] d1 else d1)
            in if tear then sd_tear (lba + taken) 1 d2 else d2))"
    | (during) "0 < n" "(ok, d') = (False, sd_power_off (sd_tear lba n d2))"
    | (after) "0 < n" "sd_powered d" "(ok, d') = (True, sd_power_off d2)"
    | (fine) "0 < n" "sd_powered d" "(ok, d') = (True, d2)"
  proof -
    let ?X = "case cut_inside d1 of None \<Rightarrow> None
      | Some (taken, tear, durable) \<Rightarrow> if taken < n then Some (taken, tear, durable) else None"
    note wr' = wr [unfolded sd_write_def Let_def sd_begin_def n]
    show ?thesis
    proof (cases "sd_powered d")
      case False
      then show ?thesis using wr' that(1) by simp
    next
      case True
      note wr1 = wr' [unfolded if_P [OF True] option.case, folded d1_def]
      show ?thesis
      proof (cases "n = 0 \<or> lba + n > sd_total d1")
        case True
        then show ?thesis using wr1 that(2) \<open>sd_powered d\<close> by simp
      next
        case ok: False
        then have pos: "0 < n" by simp
        show ?thesis
        proof (cases "cut_is d1 Before")
          case True
          then show ?thesis using wr1 ok that(3) by simp
        next
          case False
          note wr2 = wr1 [unfolded if_not_P [OF False]]
          show ?thesis
          proof (cases ?X)
            case None
            then show ?thesis using wr2 ok pos that(5-7) \<open>sd_powered d\<close>
              by (simp add: d2_def split: if_splits)
          next
            case (Some x)
            obtain taken tear durable where x: "x = (taken, tear, durable)" by (cases x) auto
            then have "taken < n" using Some by (auto split: option.splits if_splits)
            then show ?thesis using wr2 ok pos Some x that(4) [of taken durable tear]
              by (simp add: Let_def)
          qed
        qed
      qed
    qed
  qed
  then show ?thesis
  proof cases
    case dead
    then show ?thesis using good by auto
  next
    case refused
    then show ?thesis using good1 same by (auto simp: d1_def)
  next
    case before
    have "\<And>b. sd_block d1 b \<in> ?C b" using block_in_cands [of d] by (simp add: same)
    from off_after [OF good1 this] show ?thesis using before by auto
  next
    case inside
    define e where "e = (if durable then fold (\<lambda>i d. sd_insert d (lba + i) (chunk bs i)) [0..<taken] d1 else d1)"
    have cl: "length (chunk bs i) = BLOCK" if "i < taken" for i
      using length_chunk [OF len] that inside(2) by simp
    have e: "sd_good e \<and> (sd_block e b = sd_block d b \<or> lba \<le> b \<and> b < lba + taken \<and> sd_block e b = chunk bs (b - lba))" for b
      using good1 same fold_insert_props [where lba = lba and b = b, OF good1 cl refl] by (auto simp: e_def)
    define x where "x = (if tear then sd_tear (lba + taken) 1 e else e)"
    have tt: "touched (lba + taken) 1 b \<Longrightarrow> touched lba n b" for b
      using inside(1,2) touched_self [of lba "lba + taken" n] by (auto simp: touched_def)
    have xe: "sd_good x \<and> (sd_block x b = sd_block e b \<or> touched lba n b \<and> sd_torn (sd_block x b))" for b
      using sd_tear_props [of e 1 "lba + taken"] e tt unfolding x_def by auto
    have x: "sd_good x" "sd_block x b \<in> ?C b" for b
      using xe [of b] e [of b] block_in_cands [of d b] inside(2) by auto
    have d': "ok = False" "d' = sd_power_off x" using inside(3) by (auto simp: x_def e_def Let_def)
    show ?thesis using off_after [OF x] by (simp add: d')
  next
    case during
    have p: "sd_good d2" "sd_block d2 = sd_block d1" "sd_block d2 b \<in> ?C b" for b
      using pending_props [OF good1 len during(1) d2_def] block_in_cands [of d] by (auto simp: same)
    have "sd_good (sd_tear lba n d2)" using sd_tear_props [OF p(1) during(1)] by blast
    moreover have "sd_block (sd_tear lba n d2) b \<in> ?C b" for b
      using p(3) [of b] by (cases rule: sd_tear_at [OF p(1) during(1), of lba b]) auto
    ultimately show ?thesis using off_after [of "sd_tear lba n d2" ?C] during(2) by auto
  next
    case after
    have p: "sd_good d2" "sd_block d2 b \<in> ?C b" for b
      using pending_props [OF good1 len after(1) d2_def] block_in_cands [of d] by (auto simp: same)
    then show ?thesis using off_after [of d2 ?C] after by auto
  next
    case fine
    have p: "sd_good d2" "sd_cands d2 b \<subseteq> ?C b" for b
      using pending_props [OF good1 len fine(1) d2_def, of b] by (auto simp: same)
    have v: "sd_view d2 = patch (sd_view d) lba bs" using view_patch [of n bs d1 lba] n by (simp add: d2_def same)
    have "touched lba n b \<or> sd_view d2 b = sd_view d b" for b
      using touched_self [of lba b n] n by (auto simp: v patch_def)
    then show ?thesis using p v fine by auto
  qed
qed

text \<open>A completed barrier commits the pending writes in order; a cut one commits some of them.\<close>

lemma commit_props:
  assumes "sd_good d" and "\<forall>(b, bs)\<in>set ps. length bs = BLOCK"
    and "d2 = fold (\<lambda>(lba, bs) d. sd_insert d lba bs) ps d"
  shows "sd_good d2 \<and> sd_pending d2 = sd_pending d \<and> sd_powered d2 = sd_powered d
    \<and> sd_block d2 b = (case find (\<lambda>(at, _). at = b) (List.rev ps) of Some (_, bs) \<Rightarrow> bs | None \<Rightarrow> sd_block d b)"
  using assms
proof (induction ps arbitrary: d2 rule: rev_induct)
  case (snoc p ps)
  obtain a x where p: "p = (a, x)" by fastforce
  define d1 where "d1 = fold (\<lambda>(lba, bs) d. sd_insert d lba bs) ps d"
  have ih: "sd_good d1 \<and> sd_pending d1 = sd_pending d \<and> sd_powered d1 = sd_powered d
    \<and> sd_block d1 b = (case find (\<lambda>(at, _). at = b) (List.rev ps) of Some (_, bs) \<Rightarrow> bs | None \<Rightarrow> sd_block d b)"
    by (rule snoc.IH) (use snoc.prems in \<open>simp_all add: d1_def\<close>)
  have "d2 = sd_insert d1 a x" using snoc.prems(3) by (simp add: d1_def p)
  then show ?case using ih snoc.prems(2) good_insert [of d1 x a] by (auto simp: p)
qed simp

lemma commit_some_props:
  assumes "sd_good d" and "\<forall>(b, bs)\<in>set ps. length bs = BLOCK" and "sd_commit_some ps t d = (t', d2)"
  shows "sd_good d2 \<and> (sd_block d2 b = sd_block d b \<or> (b, sd_block d2 b) \<in> set ps)
    \<and> (t' = t \<or> (\<exists>a x. t' = Some a \<and> (a, x) \<in> set ps))"
  using assms
proof (induction ps t d rule: sd_commit_some.induct)
  case (2 lba bs ps torn d)
  obtain w s where r: "rng_next (sd_rng d) = (w, s)" by fastforce
  define d1 where "d1 = d\<lparr>sd_rng := s\<rparr>"
  have g1: "sd_good d1" and blk: "sd_block d1 = sd_block d"
    using 2(3) by (simp_all add: d1_def sd_good_def sd_block_def fun_eq_iff)
  show ?case
  proof (cases "w AND 1 = 0")
    case True
    have "sd_good (sd_insert d1 lba bs)" using g1 2(4) good_insert by simp
    then show ?thesis
      using 2(1) [OF r [symmetric] refl d1_def True] 2(4,5) True r blk
      by (auto simp: d1_def [symmetric] split: if_splits)
  next
    case False
    show ?thesis
      using 2(2) [OF r [symmetric] refl d1_def False g1] 2(4,5) False r blk
      by (auto simp: d1_def [symmetric] split: if_splits)
  qed
qed simp

lemma sd_sync_law:
  assumes good: "sd_good d" and sy: "sd_sync d = (ok, d')"
  shows "sd_good d' \<and> (sd_powered d' \<longrightarrow> sd_powered d \<and> sd_view d' = sd_view d)
    \<and> (if ok then sd_powered d \<and> (\<forall>b. sd_cands d' b \<subseteq> {sd_view d b}) else \<forall>b. sd_cands d' b \<subseteq> sd_cands d b)"
proof (cases "sd_powered d")
  case False
  then show ?thesis using sy good by (simp add: sd_sync_def sd_begin_def)
next
  case pw: True
  define d1 where "d1 = d\<lparr>sd_ops := sd_ops d + 1\<rparr>"
  have good1: "sd_good d1" using good by (simp add: d1_def count_op_props)
  have same: "sd_cands d1 b = sd_cands d b" "sd_view d1 = sd_view d" "sd_block d1 = sd_block d" for b
    by (simp_all add: d1_def count_op_props)
  define d0 where "d0 = d1\<lparr>sd_pending := []\<rparr>"
  have g0: "sd_good d0" "sd_block d0 = sd_block d" using good1 same
    by (auto simp: d0_def sd_good_def sd_block_def fun_eq_iff)
  have lens: "\<forall>(b, bs)\<in>set (sd_pending d1). length bs = BLOCK" using good1 by (simp add: sd_good_def)
  note sy' = sy [unfolded sd_sync_def sd_begin_def if_P [OF pw] option.case, folded d1_def, folded d0_def]
  consider (before) "cut_is d1 Before" | (during) "\<not> cut_is d1 Before" "cut_is d1 During"
    | (whole) "\<not> cut_is d1 Before" "\<not> cut_is d1 During" by blast
  then show ?thesis
  proof cases
    case before
    then show ?thesis using sy' power_off_props good1 block_in_cands [of d] same by auto
  next
    case during
    obtain t d2 where c: "sd_commit_some (sd_pending d1) None d0 = (t, d2)" by fastforce
    note cs = commit_some_props [OF g0(1) lens c]
    define d3 where "d3 = (case t of None \<Rightarrow> d2 | Some lba \<Rightarrow> sd_tear lba 1 d2)"
    have d': "ok = False" "d' = sd_power_off d3" using sy' during c by (auto simp: d3_def Let_def)
    have two: "sd_block d2 b \<in> sd_cands d1 b" for b
      using cs [of b] g0(2) same(3) by (auto simp: sd_cands_def)
    have "sd_good d3 \<and> sd_block d3 b \<in> sd_cands d1 b" for b
    proof (cases t)
      case None
      then show ?thesis using cs two by (simp add: d3_def)
    next
      case (Some a)
      then obtain x where ax: "(a, x) \<in> set (sd_pending d1)" using cs by auto
      have g2: "sd_good d2" using cs by blast
      have "touched a 1 b \<Longrightarrow> Collect sd_torn \<subseteq> sd_cands d1 b"
        using ax by (auto simp: touched_def sd_cands_def)
      moreover have "sd_block (sd_tear a 1 d2) b = sd_block d2 b
          \<or> touched a 1 b \<and> sd_torn (sd_block (sd_tear a 1 d2) b)"
        using sd_tear_props [OF g2, of 1 a] by simp
      ultimately have "sd_block (sd_tear a 1 d2) b \<in> sd_cands d1 b" using two [of b] by auto
      then show ?thesis using sd_tear_props [OF g2, of 1 a] by (simp add: d3_def Some)
    qed
    then show ?thesis using off_after [of d3 "sd_cands d1"] by (auto simp: d' same)
  next
    case whole
    define d2 where "d2 = fold (\<lambda>(lba, bs) d. sd_insert d lba bs) (sd_pending d1) d0"
    note c = commit_props [OF g0(1) lens d2_def]
    have g2: "sd_good d2" "sd_pending d2 = []" using c by (simp_all add: d0_def)
    have v: "sd_block d2 b = sd_view d b" for b
      using c [of b] g0(2) same(2,3) by (simp add: sd_view_def d1_def split: option.splits)
    have "sd_view d2 = sd_view d" and "sd_cands d2 b = {sd_view d b}" for b
      using g2(2) v by (auto simp: sd_view_def [of d2] sd_cands_def fun_eq_iff)
    then show ?thesis using sy' whole g2 v power_off_props pw
      by (auto simp: Let_def d2_def [symmetric] split: if_splits)
  qed
qed

lemma length_sd_view:
  assumes "sd_good d"
  shows "length (sd_view d b) = BLOCK"
proof (cases "find (\<lambda>(at, _). at = b) (List.rev (sd_pending d))")
  case None
  then show ?thesis using assms
    by (auto simp: sd_view_def sd_good_def sd_block_def BLOCK_def split: option.splits)
next
  case (Some p)
  then have "p \<in> set (sd_pending d)"
    unfolding find_Some_iff by (metis nth_mem set_rev)
  then show ?thesis using assms Some by (auto simp: sd_view_def sd_good_def split: prod.splits)
qed

lemma sd_view_cand: "sd_view d b \<in> sd_cands d b"
proof (cases "find (\<lambda>(at, _). at = b) (List.rev (sd_pending d))")
  case None
  then show ?thesis using block_in_cands [of d b] by (simp add: sd_view_def)
next
  case (Some p)
  then have "p \<in> set (sd_pending d)" and "fst p = b"
    unfolding find_Some_iff by (metis nth_mem set_rev, auto)
  then show ?thesis using Some by (auto simp: sd_view_def sd_cands_def split: prod.splits)
qed

lemma sparse_dev_ops:
  "bd_read sparse_dev = sd_read" "bd_write sparse_dev = sd_write" "bd_sync sparse_dev = sd_sync"
  by (simp_all add: sparse_dev_def)

interpretation sparse: block_device sparse_dev sd_good sd_powered sd_view sd_cands sd_torn
proof
  show "length (sd_view d b) = BLOCK" if "sd_good d" for d b using that by (rule length_sd_view)
  show "sd_view d b \<in> sd_cands d b" for d b by (rule sd_view_cand)
  show "sd_good d' \<and> (\<forall>b. sd_cands d' b \<subseteq> sd_cands d b) \<and> (sd_powered d' \<longrightarrow> sd_powered d \<and> sd_view d' = sd_view d)"
    if "sd_good d" "bd_block_count sparse_dev d = (c, d')" for d c d'
    using that by (auto simp: sparse_dev_def)
qed (unfold sparse_dev_ops, (erule (1) sd_read_law sd_sync_law | erule (2) sd_write_law)+)

end
