(* ===== verification/Flat_Superblock.thy ===== *)
theory Flat_Superblock
  imports Crc32 Flat_Layout
begin

text \<open>
  The superblock, from \<open>firmware/obc-storage/src/flat/superblock.rs\<close>, and the frame it shares with
  the catalog gate: a 512-byte block whose CRC-32 over bytes 0 to 503 stands at offset 504 and
  whose last four bytes are zero.
\<close>

definition FORMAT_VERSION :: u16 where "FORMAT_VERSION = 1"

definition SB_MAGIC :: bytes where "SB_MAGIC = [0x46, 0x53, 0x53, 0x42]"
definition CRC_OFFSET :: nat where "CRC_OFFSET = 504"
definition EXTENT_LOG2_OFFSET :: nat where "EXTENT_LOG2_OFFSET = 32"

record superblock =
  sb_store :: store_id
  total_blocks :: u64
  sb_geometry :: geometry

definition sb_for_card :: "store_id \<Rightarrow> u64 \<Rightarrow> superblock option" where
  "sb_for_card store blocks =
     map_option (\<lambda>g. \<lparr>sb_store = store, total_blocks = blocks, sb_geometry = g\<rparr>)
       (for_card (unat blocks))"

text \<open>\<open>Superblock::extent_count\<close>, with its narrowing to \<open>u32\<close>.\<close>

definition sb_extent_count :: "superblock \<Rightarrow> nat" where
  "sb_extent_count sb = extent_count (sb_geometry sb) (unat (total_blocks sb)) mod 2 ^ 32"

text \<open>The block before its checksum is written.\<close>

definition sb_body :: "superblock \<Rightarrow> bytes" where
  "sb_body sb =
     (let out = zeros BLOCK;
          out = put_bytes out 0 SB_MAGIC;
          out = put_u16 out 4 FORMAT_VERSION;
          out = put_bytes out 8 (sb_store sb);
          out = put_u64 out 24 (total_blocks sb)
      in put_u8 out EXTENT_LOG2_OFFSET (log2 (sb_geometry sb)))"

definition sb_encode :: "superblock \<Rightarrow> bytes" where
  "sb_encode sb =
     (let out = sb_body sb; crc = crc32 (take CRC_OFFSET out)
      in put_u32 out CRC_OFFSET crc)"

definition sb_decode :: "bytes \<Rightarrow> decode_error + superblock" where
  "sb_decode bs =
     (let err = DecodeError Superblock in
      if length bs < BLOCK then Inl (err Length)
      else if slice 0 4 bs \<noteq> SB_MAGIC then Inl (err Magic)
      else if u16_at bs 4 \<noteq> FORMAT_VERSION then Inl (err Version)
      else if u32_at bs CRC_OFFSET \<noteq> crc32 (take CRC_OFFSET bs) then Inl (err Crc)
      else if \<not> is_zero bs 6 2 \<or> \<not> is_zero bs 33 471 \<or> \<not> is_zero bs 508 4 then Inl (err Reserved)
      else bindE (ok_or (from_log2 (bs ! EXTENT_LOG2_OFFSET)) (err Geometry)) (\<lambda>g.
        let blocks = u64_at bs 24 in
        if extent_count g (unat blocks) > MAX_EXTENTS then Inl (err Count)
        else Inr \<lparr>sb_store = bytes16_at bs 8, total_blocks = blocks, sb_geometry = g\<rparr>))"

text \<open>What \<open>for_card\<close> establishes of a superblock and \<open>decode\<close> requires of one.\<close>

definition wf_superblock :: "superblock \<Rightarrow> bool" where
  "wf_superblock sb \<longleftrightarrow> length (sb_store sb) = 16 \<and> wf_geometry (sb_geometry sb)
     \<and> extent_count (sb_geometry sb) (unat (total_blocks sb)) \<le> MAX_EXTENTS"

subsection \<open>Checksummed blocks\<close>

definition framed :: "bytes \<Rightarrow> bool" where
  "framed bs \<longleftrightarrow> length bs = 512 \<and> of_le (slice 504 4 bs) = crc32 (take 504 bs)
     \<and> slice 508 4 bs = zeros 4"

lemma framed_tail:
  assumes "framed bs"
  shows "drop 508 bs = zeros 4"
proof -
  have "length (drop 508 bs) = 4" using assms by (simp add: framed_def)
  then have "drop 508 bs = slice 508 4 bs" by (simp add: slice_def)
  then show ?thesis using assms by (simp add: framed_def)
qed

text \<open>Damage inside four consecutive bytes, wherever they lie, breaks the frame.\<close>

lemma framed_damage:
  assumes "framed (pre @ mid @ post)" and "length mid = length mid'" and "length mid \<le> 4"
    and "mid \<noteq> mid'"
  shows "\<not> framed (pre @ mid' @ post)"
proof
  let ?b = "pre @ mid @ post" and ?b' = "pre @ mid' @ post"
  assume f': "framed ?b'"
  define k where "k = 508 - length pre"
  have tails: "drop 508 ?b = drop 508 ?b'"
    using framed_tail [OF assms(1)] framed_tail [OF f'] by (rule trans [OF _ sym])
  have heads: "take 508 ?b = take 508 pre @ take k mid @ take (k - length mid) post"
    "take 508 ?b' = take 508 pre @ take k mid' @ take (k - length mid) post"
    using assms(2) by (simp_all add: k_def)
  have ne: "take k mid \<noteq> take k mid'"
  proof
    assume "take k mid = take k mid'"
    then have "take 508 ?b = take 508 ?b'" using heads by simp
    then have "?b = ?b'" using tails by (metis append_take_drop_id)
    then show False using assms(4) by simp
  qed
  have "of_le (slice 504 4 ?b') \<noteq> crc32 (take 504 ?b')"
  proof (rule crc_frame_damage [OF _ _ ne])
    show "take 504 ?b @ slice 504 4 ?b = take 508 pre @ take k mid @ take (k - length mid) post"
      using heads(1) by (simp only: take_append_slice) simp
    show "take 504 ?b' @ slice 504 4 ?b' = take 508 pre @ take k mid' @ take (k - length mid) post"
      using heads(2) by (simp only: take_append_slice) simp
  qed (use assms(1-3) f' in \<open>auto simp: framed_def\<close>)
  then show False using f' by (simp add: framed_def)
qed

text \<open>Sealing a body makes a frame, and a frame is determined by its first 504 bytes.\<close>

lemma seal_framed:
  assumes "length body = 512" and "slice 508 4 body = zeros 4"
  shows "framed (put_u32 body 504 (crc32 (take 504 body)))"
  using assms by (simp add: framed_def codec_simps)

lemma framed_eq_seal:
  assumes "framed bs" and "length body = 512" and "slice 508 4 body = zeros 4"
    and "take 504 bs = take 504 body"
  shows "bs = put_u32 body 504 (crc32 (take 504 body))"
proof (rule cells_eqI)
  have "slice 504 4 bs = le32 (crc32 (take 504 bs))"
    using assms(1) by (intro slice_at) (simp_all add: framed_def u32_at_def)
  then show "cells 0 [504, 4, 4] bs = cells 0 [504, 4, 4] (put_u32 body 504 (crc32 (take 504 body)))"
    using assms by (simp add: framed_def put_u32_def slice_put_same slice_put_before slice_put_after)
      (simp add: slice_def)
qed (use assms in \<open>simp_all add: framed_def put_u32_def\<close>)

subsection \<open>The superblock codec\<close>

lemma sb_consts [simp]: "length SB_MAGIC = 4"
  by (simp add: SB_MAGIC_def)

lemmas sb_defs = sb_encode_def sb_body_def Let_def CRC_OFFSET_def EXTENT_LOG2_OFFSET_def

lemma length_sb_encode [simp]: "length (sb_store sb) = 16 \<Longrightarrow> length (sb_encode sb) = 512"
  by (simp add: sb_defs fmt_consts codec_simps)

lemma from_log2_id: "wf_geometry g \<Longrightarrow> from_log2 (log2 g) = Some g"
  by (simp add: from_log2_wf)

lemma sb_roundtrip: "wf_superblock sb \<Longrightarrow> sb_decode (sb_encode sb) = Inr sb"
  by (simp add: wf_superblock_def sb_decode_def sb_defs fmt_consts codec_simps from_log2_id)

lemma sb_decode_Inr:
  assumes "sb_decode bs = Inr sb" and "length bs = 512"
  shows "framed bs \<and> wf_superblock sb \<and> bs = sb_encode sb"
proof -
  have dec: "slice 0 4 bs = SB_MAGIC" "u16_at bs 4 = FORMAT_VERSION"
      "u32_at bs 504 = crc32 (take 504 bs)" "slice 6 2 bs = zeros 2" "slice 33 471 bs = zeros 471"
      "slice 508 4 bs = zeros 4" "bs ! 32 = log2 (sb_geometry sb)" "wf_superblock sb"
      "sb_store sb = slice 8 16 bs" "total_blocks sb = u64_at bs 24"
    using assms
    by (auto simp: sb_decode_def Let_def CRC_OFFSET_def EXTENT_LOG2_OFFSET_def is_zero_iff bindE_eq_Inr
        ok_or_eq_Inr from_log2_wf wf_superblock_def bytes16_at_def fmt_consts split: if_splits)
  have len: "length (sb_body sb) = 512"
    using dec(8) by (simp add: sb_defs fmt_consts codec_simps wf_superblock_def)
  have "slice 4 2 bs = le16 FORMAT_VERSION" and "slice 24 8 bs = le64 (total_blocks sb)"
    using dec(2,10) assms(2) by (simp_all add: slice_at)
  then have "cells 0 [4, 2, 2, 16, 8, 1, 471] bs = cells 0 [4, 2, 2, 16, 8, 1, 471] (sb_body sb)"
    using assms(2) dec(1,4,5,7,9) by (simp add: sb_defs fmt_consts codec_simps slice_zeros slice_one)
  then have t: "take 504 bs = take 504 (sb_body sb)" by (rule cells_take_eqI) simp
  have f: "framed bs" using assms(2) dec(3,6) by (simp add: framed_def u32_at_def)
  have "slice 508 4 (sb_body sb) = zeros 4"
    using dec(8) by (simp add: sb_defs fmt_consts codec_simps slice_zeros wf_superblock_def)
  from framed_eq_seal [OF f len this t] have "bs = sb_encode sb"
    by (simp add: sb_encode_def Let_def CRC_OFFSET_def)
  then show ?thesis using f dec(8) by blast
qed

lemma sb_for_card_wf:
  assumes "sb_for_card store n = Some sb" and "length store = 16"
  shows "wf_superblock sb \<and> sb_extent_count sb < MAX_EXTENTS"
proof -
  obtain g where g: "for_card (unat n) = Some g"
    and sb: "sb = \<lparr>sb_store = store, total_blocks = n, sb_geometry = g\<rparr>"
    using assms(1) by (auto simp: sb_for_card_def)
  have n: "unat n < 2 ^ 64" using unsigned_less [of n] by simp
  note fit = for_card_Some [OF g n]
  note c = extent_count_bound [OF fit(2,3)]
  then have "sb_extent_count sb = extent_count g (unat n)"
    by (simp add: sb_extent_count_def sb fmt_consts)
  then show ?thesis using c fit(2) assms(2) by (simp add: wf_superblock_def sb)
qed

subsection \<open>Properties\<close>

text \<open>
  The superblock codec. The superblock initialization writes decodes to itself; a block
  decodes only if it is, byte for byte, the encoding of a well-formed superblock, so its extent
  size is admissible and its extent count fits the 16-bit index; and a decoded block changed
  inside any window of four bytes is refused.
\<close>

theorem superblock_codec:
  "(length store = 16 \<and> sb_for_card store n = Some sb \<longrightarrow> sb_decode (sb_encode sb) = Inr sb)
   \<and> (length bs = 512 \<and> sb_decode bs = Inr sb' \<longrightarrow> bs = sb_encode sb' \<and> wf_superblock sb'
        \<and> sb_extent_count sb' \<le> MAX_EXTENTS)
   \<and> (length (pre @ mid @ post) = 512 \<and> sb_decode (pre @ mid @ post) = Inr sb'' \<and> length mid = length mid'
        \<and> length mid \<le> 4 \<and> mid \<noteq> mid' \<longrightarrow> (\<exists>e. sb_decode (pre @ mid' @ post) = Inl e))"
proof (intro conjI impI; elim conjE)
  assume "length store = 16" and "sb_for_card store n = Some sb"
  then show "sb_decode (sb_encode sb) = Inr sb"
    using sb_for_card_wf [of store n sb] sb_roundtrip [of sb] by blast
next
  assume "length bs = 512" and "sb_decode bs = Inr sb'"
  then have ok: "framed bs \<and> wf_superblock sb' \<and> bs = sb_encode sb'" by (intro sb_decode_Inr)
  then show "bs = sb_encode sb'" and "wf_superblock sb'" by blast+
  from ok show "sb_extent_count sb' \<le> MAX_EXTENTS"
    using mod_less_eq_dividend order_trans unfolding sb_extent_count_def wf_superblock_def by blast
next
  assume len: "length (pre @ mid @ post) = 512" and dec: "sb_decode (pre @ mid @ post) = Inr sb''"
    and mid: "length mid = length mid'" "length mid \<le> 4" "mid \<noteq> mid'"
  have f: "framed (pre @ mid @ post)" using sb_decode_Inr [OF dec len] by blast
  have len': "length (pre @ mid' @ post) = 512" using len mid(1) by simp
  show "\<exists>e. sb_decode (pre @ mid' @ post) = Inl e"
    using framed_damage [OF f mid] sb_decode_Inr [OF _ len']
    by (cases "sb_decode (pre @ mid' @ post)") auto
qed

theorem superblock_codec_witness:
  "\<exists>sb. sb_for_card (replicate 16 0x5A) 62914560 = Some sb \<and> sb_decode (sb_encode sb) = Inr sb"
proof -
  have "for_card 62914560 \<noteq> None" using for_card_None [of 62914560] by simp
  then obtain sb where sb: "sb_for_card (replicate 16 0x5A) 62914560 = Some sb"
    by (auto simp: sb_for_card_def)
  then show ?thesis using superblock_codec [of "replicate 16 0x5A" 62914560 sb] by auto
qed

end
