(* ===== verification/Flat_Catalog.thy ===== *)
theory Flat_Catalog
  imports Flat_Superblock
begin

text \<open>
  The catalog, from \<open>firmware/obc-storage/src/flat/catalog.rs\<close>: the header block, the 128-byte
  entry, the gate sector that certifies a copy, and the structural pass over the entry array;
  and the media-identity probes of \<open>flat/mod.rs\<close> built on them.

  The decoders are shown to accept exactly the encodings of well-formed records, and the
  one-pass structure check to accept exactly the entry arrays that satisfy the declarative
  catalog rules.
\<close>

definition HEADER_MAGIC :: bytes where "HEADER_MAGIC = [0x46, 0x53, 0x43, 0x54]"
definition GATE_MAGIC :: bytes where "GATE_MAGIC = [0x46, 0x53, 0x43, 0x47]"
definition GATE_CRC_OFFSET :: nat where "GATE_CRC_OFFSET = 504"
definition INVALIDATED :: bytes where "INVALIDATED = zeros BLOCK"

subsection \<open>The header block\<close>

record cat_header =
  h_store :: store_id
  h_sequence :: u64
  next_object :: u64
  h_entry_count :: u16

definition cat_header_encode :: "cat_header \<Rightarrow> bytes" where
  "cat_header_encode h =
     (let out = zeros BLOCK;
          out = put_bytes out 0 HEADER_MAGIC;
          out = put_u16 out 4 FORMAT_VERSION;
          out = put_u16 out 6 (of_nat ENTRY_STRIDE);
          out = put_bytes out 8 (h_store h);
          out = put_u64 out 24 (h_sequence h);
          out = put_u64 out 32 (next_object h)
      in put_u16 out 40 (h_entry_count h))"

definition cat_header_decode :: "bytes \<Rightarrow> store_id \<Rightarrow> decode_error + cat_header" where
  "cat_header_decode bs store =
     (let err = DecodeError CatalogHeader; entries = u16_at bs 40 in
      if length bs < BLOCK then Inl (err Length)
      else if slice 0 4 bs \<noteq> HEADER_MAGIC then Inl (err Magic)
      else if u16_at bs 4 \<noteq> FORMAT_VERSION then Inl (err Version)
      else if u16_at bs 6 \<noteq> of_nat ENTRY_STRIDE then Inl (err Stride)
      else if bytes16_at bs 8 \<noteq> store then Inl (err StoreId)
      else if unat entries > ENTRY_CAPACITY then Inl (err Count)
      else if \<not> is_zero bs 42 (BLOCK - 42) then Inl (err Reserved)
      else Inr \<lparr>h_store = store, h_sequence = u64_at bs 24, next_object = u64_at bs 32,
                h_entry_count = entries\<rparr>)"

subsection \<open>One entry\<close>

record entry =
  e_meta :: entry_meta
  e_ranges :: ranges

definition entry_encode :: "entry \<Rightarrow> bytes" where
  "entry_encode e =
     (let m = e_meta e;
          out = zeros ENTRY_STRIDE;
          out = put_u16 out 0 (kind_value (kind m));
          out = put_u16 out 2 (flags m);
          out = put_u8 out 4 (of_nat (length (e_ranges e)));
          out = put_u8 out 5 (name_len (name m));
          out = put_u64 out 8 (obj m);
          out = put_u64 out 16 (rev m);
          out = put_u64 out 24 (payload_len m);
          out = put_u32 out 32 (payload_crc m);
          out = put_u32 out 36 (added_at_utc m);
          out = put_bytes out 40 (ranges_encode (e_ranges e))
      in put_bytes out 72 (name_bytes (name m)))"

definition entry_decode :: "bytes \<Rightarrow> nat \<Rightarrow> decode_error + entry" where
  "entry_decode bs extents =
     (let err = DecodeError Entry; i = u64_at bs 8; r = u64_at bs 16 in
      if length bs < ENTRY_STRIDE then Inl (err Length)
      else if \<not> is_zero bs 6 2 \<or> \<not> is_zero bs 120 8 then Inl (err Reserved)
      else bindE (kind_decode (u16_at bs 0)) (\<lambda>k.
        bindE (flags_decode (u16_at bs 2)) (\<lambda>f.
        if i = 0 \<or> r = 0 then Inl (err Zero)
        else bindE (ranges_decode (slice 40 32 bs) (bs ! 4) extents) (\<lambda>rs.
          bindE (name_decode (bs ! 5) (slice 72 NAME_CAPACITY bs)) (\<lambda>n.
          Inr \<lparr>e_meta = \<lparr>added_at_utc = u32_at bs 36, obj = i, rev = r, kind = k, flags = f,
                 payload_len = u64_at bs 24, payload_crc = u32_at bs 32, name = n\<rparr>,
               e_ranges = rs\<rparr>)))))"

text \<open>\<open>Entry::check\<close>: the rules about one entry in isolation.\<close>

definition entry_check :: "geometry \<Rightarrow> entry \<Rightarrow> decode_error + unit" where
  "entry_check g e =
     (let err = DecodeError Entry; m = e_meta e;
          needed = extents_for g (unat (payload_len m)); owned = ranges_extents (e_ranges e) in
      if has_flag (flags m) ASSISTANT_ACCEPTED \<and> (kind m \<noteq> Route \<or> holds_slack (flags m))
        then Inl (err UnknownEnum)
      else if owned < needed \<or> (owned > needed \<and> \<not> holds_slack (flags m)) then Inl (err Ranges)
      else if has_flag (flags m) RESERVED \<and> payload_len m \<noteq> 0 then Inl (err Ranges)
      else Inr ())"

subsection \<open>The gate sector\<close>

record gate =
  g_copy :: u8
  g_store :: store_id
  g_sequence :: u64
  g_entry_count :: u16
  body_crc :: u32

definition gate_body :: "gate \<Rightarrow> bytes" where
  "gate_body g =
     (let out = zeros BLOCK;
          out = put_bytes out 0 GATE_MAGIC;
          out = put_u16 out 4 FORMAT_VERSION;
          out = put_u16 out 6 (ucast (g_copy g));
          out = put_bytes out 8 (g_store g);
          out = put_u64 out 24 (g_sequence g);
          out = put_u16 out 32 (g_entry_count g)
      in put_u32 out 36 (body_crc g))"

definition gate_encode :: "gate \<Rightarrow> bytes" where
  "gate_encode g =
     (let out = gate_body g; crc = crc32 (take GATE_CRC_OFFSET out)
      in put_u32 out GATE_CRC_OFFSET crc)"

definition gate_decode :: "bytes \<Rightarrow> nat \<Rightarrow> store_id \<Rightarrow> decode_error + gate" where
  "gate_decode bs copy store =
     (let err = DecodeError Gate; entries = u16_at bs 32 in
      if length bs < BLOCK then Inl (err Length)
      else if slice 0 4 bs \<noteq> GATE_MAGIC then Inl (err Magic)
      else if u16_at bs 4 \<noteq> FORMAT_VERSION then Inl (err Version)
      else if u16_at bs 6 \<noteq> of_nat copy then Inl (err Position)
      else if bytes16_at bs 8 \<noteq> store then Inl (err StoreId)
      else if u32_at bs GATE_CRC_OFFSET \<noteq> crc32 (take GATE_CRC_OFFSET bs) then Inl (err Crc)
      else if unat entries > ENTRY_CAPACITY then Inl (err Count)
      else if \<not> is_zero bs 34 2 \<or> \<not> is_zero bs 40 464 \<or> \<not> is_zero bs 508 4 then Inl (err Reserved)
      else Inr \<lparr>g_copy = of_nat copy, g_store = store, g_sequence = u64_at bs 24,
                g_entry_count = entries, body_crc = u32_at bs 36\<rparr>)"

subsection \<open>The structural pass\<close>

record structure_state =
  s_geometry :: geometry
  previous :: "(object_id \<times> revision \<times> object_kind \<times> bool) option"
  revisions :: nat
  recording :: nat
  greatest_id :: u64

definition structure_new :: "geometry \<Rightarrow> structure_state" where
  "structure_new g =
     \<lparr>s_geometry = g, previous = None, revisions = 0, recording = 0, greatest_id = 0\<rparr>"

text \<open>The order of the source's tuples.\<close>

definition key_less :: "object_id \<times> revision \<Rightarrow> object_id \<times> revision \<Rightarrow> bool" where
  "key_less a b \<longleftrightarrow> fst a < fst b \<or> (fst a = fst b \<and> snd a < snd b)"

abbreviation ek :: "entry \<Rightarrow> object_id \<times> revision" where
  "ek e \<equiv> meta_key (e_meta e)"

abbreviation retained :: "entry \<Rightarrow> bool" where
  "retained e \<equiv> has_flag (flags (e_meta e)) RETAINED"

abbreviation is_recording :: "entry \<Rightarrow> bool" where
  "is_recording e \<equiv> has_flag (flags (e_meta e)) RECORDING"

definition accept :: "structure_state \<Rightarrow> entry \<Rightarrow> decode_error + structure_state" where
  "accept s e =
     (let err = DecodeError Entry; m = e_meta e in
      bindE (entry_check (s_geometry s) e) (\<lambda>_.
      let rec = (if is_recording e then recording s + 1 else recording s) in
      if is_recording e \<and> rec > 1 then Inl (err Revisions)
      else bindE
        (case previous s of
           Some (i, r, k, prev_retained) \<Rightarrow>
             if \<not> key_less (i, r) (meta_key m) then Inl (err Order)
             else if obj m = i
             then if revisions s = 2 \<or> \<not> prev_retained \<or> retained e \<or> kind m \<noteq> k
               then Inl (err Revisions) else Inr (revisions s + 1)
             else if prev_retained \<and> revisions s = 1 then Inl (err Revisions) else Inr 1
         | None \<Rightarrow> Inr 1)
        (\<lambda>revs. Inr (s\<lparr>recording := rec, revisions := revs,
           greatest_id := max (greatest_id s) (obj m),
           previous := Some (obj m, rev m, kind m, retained e)\<rparr>))))"

definition structure_finish :: "structure_state \<Rightarrow> cat_header \<Rightarrow> decode_error + unit" where
  "structure_finish s h =
     (if (case previous s of Some (_, _, _, ret) \<Rightarrow> ret \<and> revisions s = 1 | None \<Rightarrow> False)
        then Inl (DecodeError Entry Revisions)
      else if next_object h \<le> greatest_id s then Inl (DecodeError CatalogHeader Order)
      else Inr ())"

text \<open>The pass over a whole array, as mount and commit run it.\<close>

fun accept_all :: "structure_state \<Rightarrow> entry list \<Rightarrow> decode_error + structure_state" where
  "accept_all s [] = Inr s"
| "accept_all s (e # es) = bindE (accept s e) (\<lambda>s'. accept_all s' es)"

definition structure_pass :: "geometry \<Rightarrow> cat_header \<Rightarrow> entry list \<Rightarrow> decode_error + unit" where
  "structure_pass g h es =
     bindE (accept_all (structure_new g) es) (\<lambda>s. structure_finish s h)"

subsection \<open>Media identity: mod.rs\<close>

record media_identity =
  mi_store :: store_id
  mi_total_blocks :: u64
  mi_extent_size :: nat
  mi_extent_count :: nat

record gate_identity =
  gi_copy :: u8
  gi_sequence :: u64
  gi_entry_count :: u16
  gi_body_crc :: u32

record mounted_state =
  ms_store :: store_id
  ms_extent_size :: nat
  ms_extent_count :: nat
  served :: gate_identity
  high_water :: u64

definition decode_media_identity :: "bytes \<Rightarrow> u64 \<Rightarrow> media_identity option" where
  "decode_media_identity bs observed =
     (case sb_decode bs of Inl _ \<Rightarrow> None
      | Inr sb \<Rightarrow>
          if total_blocks sb \<le> observed
          then Some \<lparr>mi_store = sb_store sb, mi_total_blocks = total_blocks sb,
                     mi_extent_size = extent_size (sb_geometry sb),
                     mi_extent_count = sb_extent_count sb\<rparr>
          else None)"

definition decode_catalog_identity :: "bytes \<Rightarrow> nat \<Rightarrow> store_id \<Rightarrow> gate_identity option" where
  "decode_catalog_identity bs copy store =
     (case gate_decode bs copy store of Inl _ \<Rightarrow> None
      | Inr g \<Rightarrow> Some \<lparr>gi_copy = g_copy g, gi_sequence = g_sequence g,
                       gi_entry_count = g_entry_count g, gi_body_crc = body_crc g\<rparr>)"

definition media_identity_matches :: "mounted_state \<Rightarrow> media_identity \<Rightarrow> bool" where
  "media_identity_matches st mi \<longleftrightarrow>
     mi_store mi = ms_store st \<and> mi_extent_size mi = ms_extent_size st
     \<and> mi_extent_count mi = ms_extent_count st"

text \<open>The two gate slots as a pair; \<open>gates.get(copy)\<close> is \<open>None\<close> for a copy other than 0 and 1.\<close>

definition catalog_state_matches ::
  "mounted_state \<Rightarrow> gate_identity option \<times> gate_identity option \<Rightarrow> bool" where
  "catalog_state_matches st gates =
     (if high_water st \<noteq> gi_sequence (served st)
        \<or> (case gates of (Some a, Some b) \<Rightarrow> gi_sequence a = gi_sequence b | _ \<Rightarrow> False)
      then False
      else (if gi_copy (served st) = 0 then fst gates
            else if gi_copy (served st) = 1 then snd gates else None) = Some (served st)
        \<and> (case gates of
             (None, None) \<Rightarrow> None
           | (Some a, None) \<Rightarrow> Some (gi_sequence a)
           | (None, Some b) \<Rightarrow> Some (gi_sequence b)
           | (Some a, Some b) \<Rightarrow> Some (max (gi_sequence a) (gi_sequence b))) = Some (high_water st))"

subsection \<open>Well-formed records\<close>

definition wf_cat_header :: "cat_header \<Rightarrow> bool" where
  "wf_cat_header h \<longleftrightarrow> length (h_store h) = 16 \<and> unat (h_entry_count h) \<le> ENTRY_CAPACITY"

definition wf_gate :: "gate \<Rightarrow> bool" where
  "wf_gate g \<longleftrightarrow> length (g_store g) = 16 \<and> unat (g_entry_count g) \<le> ENTRY_CAPACITY"

definition wf_entry :: "nat \<Rightarrow> entry \<Rightarrow> bool" where
  "wf_entry extents e \<longleftrightarrow> obj (e_meta e) \<noteq> 0 \<and> rev (e_meta e) \<noteq> 0
     \<and> flags (e_meta e) AND NOT FLAGS_DEFINED = 0 \<and> wf_name (name (e_meta e))
     \<and> e_ranges e \<noteq> [] \<and> length (e_ranges e) \<le> MAX_RANGES \<and> in_card extents (e_ranges e)"

text \<open>The entries of one object: a lone head, or a retained revision and its head.\<close>

fun complete_group :: "entry list \<Rightarrow> bool" where
  "complete_group [h] = (\<not> retained h)"
| "complete_group [r, h] =
     (retained r \<and> \<not> retained h \<and> kind (e_meta r) = kind (e_meta h))"
| "complete_group _ = False"

definition group_of :: "entry list \<Rightarrow> entry \<Rightarrow> entry list" where
  "group_of es e = filter (\<lambda>x. obj (e_meta x) = obj (e_meta e)) es"

text \<open>The catalog rules, stated over the whole array.\<close>

definition wf_catalog :: "geometry \<Rightarrow> u64 \<Rightarrow> entry list \<Rightarrow> bool" where
  "wf_catalog g next es \<longleftrightarrow>
     (\<forall>e\<in>set es. entry_check g e = Inr ())
   \<and> length (filter is_recording es) \<le> 1
   \<and> sorted_wrt (\<lambda>a b. key_less (ek a) (ek b)) es
   \<and> (\<forall>e\<in>set es. complete_group (group_of es e))
   \<and> (\<forall>e\<in>set es. obj (e_meta e) < next) \<and> 0 < next"

subsection \<open>The record codecs\<close>

lemma cat_consts [simp]: "length HEADER_MAGIC = 4" "length GATE_MAGIC = 4"
  by (simp_all add: HEADER_MAGIC_def GATE_MAGIC_def)

lemma cat_header_decode_Inr:
  assumes "cat_header_decode bs store = Inr h" and "length bs = 512"
  shows "wf_cat_header h \<and> h_store h = store \<and> bs = cat_header_encode h"
proof -
  have dec: "slice 0 4 bs = HEADER_MAGIC" "slice 4 2 bs = le16 FORMAT_VERSION"
      "slice 6 2 bs = le16 (of_nat ENTRY_STRIDE)" "slice 8 16 bs = h_store h"
      "slice 24 8 bs = le64 (h_sequence h)" "slice 32 8 bs = le64 (next_object h)"
      "slice 40 2 bs = le16 (h_entry_count h)" "slice 42 470 bs = zeros 470"
    and h: "h_store h = store" "unat (h_entry_count h) \<le> ENTRY_CAPACITY"
    using assms
    by (auto simp: cat_header_decode_def Let_def is_zero_iff slice_at bytes16_at_def BLOCK_def
        split: if_splits)
  have len: "length (h_store h) = 16" using arg_cong [OF dec(4), of length] assms(2) by simp
  have "bs = cat_header_encode h"
  proof (rule cells_eqI)
    show "cells 0 [4, 2, 2, 16, 8, 8, 2, 470] bs = cells 0 [4, 2, 2, 16, 8, 8, 2, 470] (cat_header_encode h)"
      using dec len by (simp add: cat_header_encode_def Let_def BLOCK_def codec_simps slice_zeros)
  qed (use assms(2) len in \<open>simp_all add: cat_header_encode_def Let_def BLOCK_def codec_simps\<close>)
  then show ?thesis using h len by (simp add: wf_cat_header_def)
qed

lemma cat_header_roundtrip:
  "wf_cat_header h \<Longrightarrow> cat_header_decode (cat_header_encode h) (h_store h) = Inr h"
  by (simp add: wf_cat_header_def cat_header_decode_def cat_header_encode_def Let_def BLOCK_def codec_simps)

lemma length_gate_body [simp]: "length (g_store g) = 16 \<Longrightarrow> length (gate_body g) = 512"
  by (simp add: gate_body_def Let_def BLOCK_def codec_simps)

lemma gate_encode_framed: "length (g_store g) = 16 \<Longrightarrow> framed (gate_encode g)"
proof -
  assume len: "length (g_store g) = 16"
  then have "slice 508 4 (gate_body g) = zeros 4"
    by (simp add: gate_body_def Let_def BLOCK_def codec_simps slice_zeros)
  with len show ?thesis
    using seal_framed [of "gate_body g"] by (simp add: gate_encode_def Let_def GATE_CRC_OFFSET_def)
qed

lemma gate_decode_Inr:
  assumes "gate_decode bs copy store = Inr g" and "length bs = 512" and "copy < 2"
  shows "framed bs \<and> wf_gate g \<and> g_store g = store \<and> g_copy g = of_nat copy \<and> bs = gate_encode g"
proof -
  have dec: "slice 0 4 bs = GATE_MAGIC" "slice 4 2 bs = le16 FORMAT_VERSION"
      "slice 6 2 bs = le16 (of_nat copy)" "slice 8 16 bs = g_store g"
      "slice 24 8 bs = le64 (g_sequence g)" "slice 32 2 bs = le16 (g_entry_count g)"
      "slice 34 2 bs = zeros 2" "slice 36 4 bs = le32 (body_crc g)" "slice 40 464 bs = zeros 464"
    and f: "u32_at bs 504 = crc32 (take 504 bs)" "slice 508 4 bs = zeros 4"
    and g: "g_store g = store" "g_copy g = of_nat copy" "unat (g_entry_count g) \<le> ENTRY_CAPACITY"
    using assms(1,2)
    by (auto simp: gate_decode_def Let_def is_zero_iff slice_at bytes16_at_def BLOCK_def
        GATE_CRC_OFFSET_def split: if_splits)
  have len: "length (g_store g) = 16" using arg_cong [OF dec(4), of length] assms(2) by simp
  have cp: "(ucast (g_copy g) :: u16) = of_nat copy"
  proof -
    have "copy = 0 \<or> copy = 1" using assms(3) by auto
    then show ?thesis using g(2) by auto
  qed
  have "cells 0 [4, 2, 2, 16, 8, 2, 2, 4, 464] bs = cells 0 [4, 2, 2, 16, 8, 2, 2, 4, 464] (gate_body g)"
    using dec len cp by (simp add: gate_body_def Let_def BLOCK_def codec_simps slice_zeros)
  then have t: "take 504 bs = take 504 (gate_body g)" by (rule cells_take_eqI) simp
  have fr: "framed bs" using f assms(2) by (simp add: framed_def u32_at_def)
  have "slice 508 4 (gate_body g) = zeros 4"
    using len by (simp add: gate_body_def Let_def BLOCK_def codec_simps slice_zeros)
  from framed_eq_seal [OF fr length_gate_body [OF len] this t] have "bs = gate_encode g"
    by (simp add: gate_encode_def Let_def GATE_CRC_OFFSET_def)
  then show ?thesis using fr g len by (simp add: wf_gate_def)
qed

lemma gate_roundtrip:
  assumes "wf_gate g" and "unat (g_copy g) = copy"
  shows "gate_decode (gate_encode g) copy (g_store g) = Inr g"
proof -
  have "(ucast (g_copy g) :: u16) = of_nat copy" and "of_nat copy = g_copy g"
    using assms(2) by auto
  then show ?thesis
    using assms(1) by (simp add: wf_gate_def gate_decode_def gate_encode_def gate_body_def Let_def
        BLOCK_def GATE_CRC_OFFSET_def codec_simps)
qed

lemma invalidated_gate: "gate_decode INVALIDATED copy store = Inl (DecodeError Gate Magic)"
proof -
  have "zeros 4 \<noteq> GATE_MAGIC" by (auto simp: GATE_MAGIC_def zeros_def dest: arg_cong [where f = hd])
  then show ?thesis by (simp add: gate_decode_def INVALIDATED_def Let_def BLOCK_def slice_zeros)
qed

lemma length_entry_encode [simp]:
  "length (e_ranges e) \<le> MAX_RANGES \<Longrightarrow> wf_name (name (e_meta e)) \<Longrightarrow> length (entry_encode e) = 128"
  by (simp add: entry_encode_def Let_def ENTRY_STRIDE_def wf_name_def NAME_CAPACITY_def codec_simps)

lemma range_count_byte:
  "length rs \<le> MAX_RANGES \<Longrightarrow> unat (of_nat (length rs) :: u8) = length rs"
  by (simp add: word_unat_of_nat MAX_RANGES_def)

lemma entry_roundtrip:
  assumes "wf_entry ec e"
  shows "entry_decode (entry_encode e) ec = Inr e"
proof -
  define m where "m = e_meta e"
  have wf: "obj m \<noteq> 0" "rev m \<noteq> 0" "flags m AND NOT FLAGS_DEFINED = 0" "wf_name (name m)"
    "e_ranges e \<noteq> []" "length (e_ranges e) \<le> MAX_RANGES" "in_card ec (e_ranges e)"
    using assms by (simp_all add: wf_entry_def m_def)
  have n: "length (name_bytes (name m)) = 48" using wf(4) by (simp add: wf_name_def NAME_CAPACITY_def)
  have r: "length (ranges_encode (e_ranges e)) = 32" using wf(6) by simp
  have rd: "ranges_decode (ranges_encode (e_ranges e)) (of_nat (length (e_ranges e))) ec = Inr (e_ranges e)"
    using ranges_decode_iff [OF r] wf(5-7) by (simp add: range_count_byte)
  have nd: "name_decode (name_len (name m)) (name_bytes (name m)) = Inr (name m)"
    using name_decode_Inr [of "name_bytes (name m)"] wf(4) n by (simp add: NAME_CAPACITY_def)
  have fd: "flags_decode (flags m) = Inr (flags m)" using wf(3) by (simp add: flags_decode_Inr)
  have e: "e = \<lparr>e_meta = m, e_ranges = e_ranges e\<rparr>" by (simp add: m_def)
  show ?thesis
    using wf(1,2) n r by (subst (2) e) (simp add: entry_decode_def entry_encode_def Let_def m_def [symmetric]
        ENTRY_STRIDE_def NAME_CAPACITY_def codec_simps rd nd fd)
qed

lemma entry_decode_Inr:
  assumes "entry_decode bs ec = Inr e" and "length bs = 128"
  shows "wf_entry ec e \<and> bs = entry_encode e"
proof -
  define m where "m = e_meta e"
  have dec: "slice 0 2 bs = le16 (kind_value (kind m))" "slice 2 2 bs = le16 (flags m)"
      "slice 6 2 bs = zeros 2" "slice 120 8 bs = zeros 8" "slice 8 8 bs = le64 (obj m)"
      "slice 16 8 bs = le64 (rev m)" "slice 24 8 bs = le64 (payload_len m)"
      "slice 32 4 bs = le32 (payload_crc m)" "slice 36 4 bs = le32 (added_at_utc m)"
    and rd: "ranges_decode (slice 40 32 bs) (bs ! 4) ec = Inr (e_ranges e)"
    and nd: "name_decode (bs ! 5) (slice 72 48 bs) = Inr (name m)"
    and wf: "obj m \<noteq> 0" "rev m \<noteq> 0" "flags m AND NOT FLAGS_DEFINED = 0"
    using assms
    by (auto simp: entry_decode_def Let_def is_zero_iff slice_at ENTRY_STRIDE_def NAME_CAPACITY_def
        bindE_eq_Inr kind_decode_Inr flags_decode_Inr m_def split: if_splits)
  have r: "e_ranges e \<noteq> []" "length (e_ranges e) \<le> MAX_RANGES" "in_card ec (e_ranges e)"
      "unat (bs ! 4) = length (e_ranges e)" "slice 40 32 bs = ranges_encode (e_ranges e)"
    using rd assms(2) by (simp_all add: ranges_decode_iff)
  have n: "wf_name (name m)" "name_bytes (name m) = slice 72 48 bs" "name_len (name m) = bs ! 5"
    using nd assms(2) by (simp_all add: name_decode_Inr NAME_CAPACITY_def)
  have b4: "bs ! 4 = of_nat (length (e_ranges e))"
    by (simp flip: r(4))
  have n48: "length (name_bytes (name m)) = 48" using n(1) by (simp add: wf_name_def NAME_CAPACITY_def)
  have "bs = entry_encode e"
  proof (rule cells_eqI)
    show "cells 0 [2, 2, 1, 1, 2, 8, 8, 8, 4, 4, 32, 48, 8] bs
        = cells 0 [2, 2, 1, 1, 2, 8, 8, 8, 4, 4, 32, 48, 8] (entry_encode e)"
      using dec r n(2,3) n48 b4 assms(2)
      by (simp add: entry_encode_def Let_def m_def [symmetric] ENTRY_STRIDE_def codec_simps slice_zeros
          slice_one del: One_nat_def add_2_eq_Suc add_2_eq_Suc')
  qed (use assms(2) r(2) n(1) in \<open>simp_all add: m_def\<close>)
  then show ?thesis using wf r n(1) by (simp add: wf_entry_def m_def)
qed

subsection \<open>The structural pass and the catalog rules\<close>

text \<open>
  The rules a prefix of a well-formed array satisfies: the same, except that the last object's
  head may still be to come.
\<close>

fun open_group :: "entry list \<Rightarrow> bool" where
  "open_group [h] = True"
| "open_group [r, h] = complete_group [r, h]"
| "open_group _ = False"

definition prefix_ok :: "geometry \<Rightarrow> entry list \<Rightarrow> bool" where
  "prefix_ok g es \<longleftrightarrow>
     (\<forall>e\<in>set es. entry_check g e = Inr ())
   \<and> length (filter is_recording es) \<le> 1
   \<and> sorted_wrt (\<lambda>a b. key_less (ek a) (ek b)) es
   \<and> (\<forall>e\<in>set es. if obj (e_meta e) = obj (e_meta (last es)) then open_group (group_of es e)
        else complete_group (group_of es e))"

text \<open>The state of the pass after it has accepted \<open>es\<close>.\<close>

definition state_after :: "geometry \<Rightarrow> entry list \<Rightarrow> structure_state" where
  "state_after g es =
     \<lparr>s_geometry = g,
      previous = (if es = [] then None else
        Some (obj (e_meta (last es)), rev (e_meta (last es)), kind (e_meta (last es)), retained (last es))),
      revisions = (if es = [] then 0 else length (group_of es (last es))),
      recording = length (filter is_recording es),
      greatest_id = fold (\<lambda>e. max (obj (e_meta e))) es 0\<rparr>"

lemma key_less_trans: "key_less a b \<Longrightarrow> key_less b c \<Longrightarrow> key_less a c"
  by (auto simp: key_less_def)

lemma key_less_fst: "key_less a b \<Longrightarrow> fst a \<le> fst b"
  by (auto simp: key_less_def)

lemma sorted_keys_snoc:
  "es \<noteq> [] \<Longrightarrow> sorted_wrt (\<lambda>a b. key_less (ek a) (ek b)) (es @ [e]) \<longleftrightarrow>
     sorted_wrt (\<lambda>a b. key_less (ek a) (ek b)) es \<and> key_less (ek (last es)) (ek e)"
proof (induction es)
  case (Cons x xs)
  then show ?case
    by (cases "xs = []") (auto dest: key_less_trans last_in_set)
qed simp

lemma sorted_keys_le_last:
  assumes "sorted_wrt (\<lambda>a b. key_less (ek a) (ek b)) es" and "x \<in> set es"
  shows "obj (e_meta x) \<le> obj (e_meta (last es))"
proof -
  obtain ys l where es: "es = ys @ [l]" using assms(2) by (metis empty_iff list.set(1) rev_exhaust)
  show ?thesis
    using assms by (auto simp: es sorted_wrt_append meta_key_def dest!: key_less_fst)
qed

lemma group_of_last: "es \<noteq> [] \<Longrightarrow> group_of es (last es) \<noteq> [] \<and> last (group_of es (last es)) = last es"
  by (cases es rule: rev_cases) (simp_all add: group_of_def)

lemma group_of_cong: "obj (e_meta x) = obj (e_meta y) \<Longrightarrow> group_of es x = group_of es y"
  by (simp add: group_of_def)

lemma open_group_cases:
  "open_group grp \<Longrightarrow> (\<exists>h. grp = [h]) \<or> (\<exists>r h. grp = [r, h] \<and> complete_group [r, h])"
  by (cases grp rule: open_group.cases) auto

lemma complete_open: "complete_group grp \<Longrightarrow> open_group grp"
  by (cases grp rule: open_group.cases) auto

text \<open>Adding an entry to the object of the last one, or starting the next object.\<close>

lemma prefix_ok_same:
  assumes "es \<noteq> []" and "prefix_ok g es" and "obj (e_meta e) = obj (e_meta (last es))"
    and "key_less (ek (last es)) (ek e)"
  shows "(\<forall>x\<in>set (es @ [e]). if obj (e_meta x) = obj (e_meta e) then open_group (group_of (es @ [e]) x)
        else complete_group (group_of (es @ [e]) x)) \<longleftrightarrow>
    \<not> (length (group_of es (last es)) = 2 \<or> \<not> retained (last es) \<or> retained e
       \<or> kind (e_meta e) \<noteq> kind (e_meta (last es)))"
proof -
  define grp where "grp = group_of es (last es)"
  have e: "group_of (es @ [e]) x = group_of es x @ (if obj (e_meta x) = obj (e_meta e) then [e] else [])" for x
    by (auto simp: group_of_def)
  have grp: "group_of es x = grp" if "obj (e_meta x) = obj (e_meta e)" for x
    using that assms(3) by (simp add: grp_def group_of_def)
  have og: "open_group grp" using assms(1,2) by (simp add: prefix_ok_def grp_def)
  have lastg: "last grp = last es" using group_of_last [OF assms(1)] by (simp add: grp_def)
  have others: "complete_group (group_of es x)"
    if "x \<in> set es" "obj (e_meta x) \<noteq> obj (e_meta e)" for x
    using assms(2,3) that by (auto simp: prefix_ok_def split: if_splits)
  have "(\<forall>x\<in>set (es @ [e]). if obj (e_meta x) = obj (e_meta e) then open_group (group_of (es @ [e]) x)
        else complete_group (group_of (es @ [e]) x)) \<longleftrightarrow> open_group (grp @ [e])"
    using others grp by (auto simp: e split: if_splits)
  also have "\<dots> \<longleftrightarrow> \<not> (length grp = 2 \<or> \<not> retained (last es) \<or> retained e
       \<or> kind (e_meta e) \<noteq> kind (e_meta (last es)))"
    using open_group_cases [OF og] lastg by auto
  finally show ?thesis by (simp add: grp_def)
qed

lemma prefix_ok_next:
  assumes "es \<noteq> []" and "prefix_ok g es" and "obj (e_meta e) \<noteq> obj (e_meta (last es))"
    and "key_less (ek (last es)) (ek e)"
  shows "(\<forall>x\<in>set (es @ [e]). if obj (e_meta x) = obj (e_meta e) then open_group (group_of (es @ [e]) x)
        else complete_group (group_of (es @ [e]) x)) \<longleftrightarrow>
    \<not> (retained (last es) \<and> length (group_of es (last es)) = 1)"
proof -
  define grp where "grp = group_of es (last es)"
  have less: "obj (e_meta (last es)) < obj (e_meta e)"
    using assms(3,4) by (auto simp: key_less_def meta_key_def)
  have sorted: "sorted_wrt (\<lambda>a b. key_less (ek a) (ek b)) es" using assms(2) by (simp add: prefix_ok_def)
  have ne: "obj (e_meta x) \<noteq> obj (e_meta e)" if "x \<in> set es" for x
    using sorted_keys_le_last [OF sorted that] less by auto
  have e: "group_of (es @ [e]) e = [e]" using ne by (auto simp: group_of_def filter_empty_conv)
  have old: "group_of (es @ [e]) x = group_of es x" if "x \<in> set es" for x
    using ne [OF that] by (simp add: group_of_def)
  have og: "open_group grp" using assms(1,2) by (simp add: prefix_ok_def grp_def)
  have lastg: "last grp = last es" using group_of_last [OF assms(1)] by (simp add: grp_def)
  have "complete_group (group_of es x)" if "x \<in> set es" "obj (e_meta x) \<noteq> obj (e_meta (last es))" for x
    using assms(2) that by (auto simp: prefix_ok_def split: if_splits)
  then have "(\<forall>x\<in>set es. complete_group (group_of es x)) \<longleftrightarrow> complete_group grp"
    using group_of_cong [of _ "last es" es] assms(1) last_in_set [OF assms(1)]
    by (metis grp_def)
  then have "(\<forall>x\<in>set (es @ [e]). if obj (e_meta x) = obj (e_meta e) then open_group (group_of (es @ [e]) x)
        else complete_group (group_of (es @ [e]) x)) \<longleftrightarrow> complete_group grp"
    using ne old e by auto
  also have "\<dots> \<longleftrightarrow> \<not> (retained (last es) \<and> length grp = 1)"
    using open_group_cases [OF og] lastg by auto
  finally show ?thesis by (simp add: grp_def)
qed

lemma accept_first:
  "accept (state_after g []) e =
     bindE (entry_check g e) (\<lambda>_. Inr (state_after g [e]))"
  by (simp add: accept_def state_after_def Let_def group_of_def)

lemma accept_step:
  assumes "es \<noteq> []" and "prefix_ok g es"
  shows "accept (state_after g es) e = Inr s \<longleftrightarrow> prefix_ok g (es @ [e]) \<and> s = state_after g (es @ [e])"
proof -
  let ?l = "last es"
  define ok where "ok \<longleftrightarrow> (\<forall>x\<in>set (es @ [e]). if obj (e_meta x) = obj (e_meta e)
      then open_group (group_of (es @ [e]) x) else complete_group (group_of (es @ [e]) x))"
  define revs where "revs = (if obj (e_meta e) = obj (e_meta ?l) then length (group_of es ?l) + 1 else 1)"
  have pre: "prefix_ok g (es @ [e]) \<longleftrightarrow> entry_check g e = Inr () \<and> length (filter is_recording (es @ [e])) \<le> 1
      \<and> key_less (ek ?l) (ek e) \<and> ok"
    using assms by (auto simp: prefix_ok_def ok_def sorted_keys_snoc)
  have cnt: "length (filter is_recording (es @ [e])) =
      (if is_recording e then length (filter is_recording es) + 1 else length (filter is_recording es))"
    and one: "length (filter is_recording es) \<le> 1"
    using assms(2) by (simp_all add: prefix_ok_def)
  have grp: "length (group_of (es @ [e]) e) = revs" if "key_less (ek ?l) (ek e)"
  proof (cases "obj (e_meta e) = obj (e_meta ?l)")
    case True
    then show ?thesis by (simp add: group_of_def revs_def)
  next
    case False
    then have less: "obj (e_meta ?l) < obj (e_meta e)"
      using that by (auto simp: key_less_def meta_key_def)
    have "\<forall>x\<in>set es. obj (e_meta x) \<noteq> obj (e_meta e)"
      using sorted_keys_le_last [of es] assms(2) less by (fastforce simp: prefix_ok_def)
    then show ?thesis using False by (simp add: group_of_def revs_def)
  qed
  have st: "state_after g (es @ [e]) = (state_after g es)\<lparr>
      recording := length (filter is_recording (es @ [e])), revisions := revs,
      greatest_id := max (greatest_id (state_after g es)) (obj (e_meta e)),
      previous := Some (obj (e_meta e), rev (e_meta e), kind (e_meta e), retained e)\<rparr>"
    if "key_less (ek ?l) (ek e)"
    using grp [OF that] by (simp add: state_after_def max.commute)
  have acc: "accept (state_after g es) e =
      bindE (entry_check g e) (\<lambda>_.
        if \<not> length (filter is_recording (es @ [e])) \<le> 1 then Inl (DecodeError Entry Revisions)
        else if \<not> key_less (ek ?l) (ek e) then Inl (DecodeError Entry Order)
        else if ok then Inr (state_after g (es @ [e])) else Inl (DecodeError Entry Revisions))"
  proof (cases "key_less (ek ?l) (ek e)")
    case True
    show ?thesis
    proof (cases "obj (e_meta e) = obj (e_meta ?l)")
      case same: True
      note iff = prefix_ok_same [OF assms same True, folded ok_def]
      show ?thesis
        using assms(1) True same one unfolding iff st [OF True]
        by (auto simp: accept_def state_after_def Let_def meta_key_def revs_def cnt simp del: filter_append)
    next
      case new: False
      note iff = prefix_ok_next [OF assms new True, folded ok_def]
      show ?thesis
        using assms(1) True new one unfolding iff st [OF True]
        by (auto simp: accept_def state_after_def Let_def meta_key_def revs_def cnt simp del: filter_append)
    qed
  next
    case False
    then show ?thesis
      using assms(1) one
      by (auto simp: accept_def state_after_def Let_def meta_key_def cnt simp del: filter_append)
  qed
  show ?thesis
    unfolding acc pre by (cases "entry_check g e") auto
qed

lemma accept_all_snoc:
  "accept_all s (es @ [e]) = bindE (accept_all s es) (\<lambda>s'. accept s' e)"
proof (induction es arbitrary: s)
  case Nil
  show ?case by (cases "accept s e") auto
next
  case (Cons x es)
  then show ?case by (cases "accept s x") auto
qed

lemma prefix_ok_single: "prefix_ok g [e] \<longleftrightarrow> entry_check g e = Inr ()"
  by (auto simp: prefix_ok_def group_of_def)

lemma prefix_ok_butlast: "es \<noteq> [] \<Longrightarrow> prefix_ok g (es @ [e]) \<Longrightarrow> prefix_ok g es"
proof -
  assume ne: "es \<noteq> []" and ok: "prefix_ok g (es @ [e])"
  let ?l = "last es"
  have sorted: "sorted_wrt (\<lambda>a b. key_less (ek a) (ek b)) es" "key_less (ek ?l) (ek e)"
    using ok ne by (simp_all add: prefix_ok_def sorted_keys_snoc)
  have "if obj (e_meta x) = obj (e_meta ?l) then open_group (group_of es x) else complete_group (group_of es x)"
    if x: "x \<in> set es" for x
  proof -
    have grp: "group_of (es @ [e]) x = group_of es x @ (if obj (e_meta x) = obj (e_meta e) then [e] else [])"
      by (simp add: group_of_def)
    have cond: "if obj (e_meta x) = obj (e_meta e) then open_group (group_of (es @ [e]) x)
        else complete_group (group_of (es @ [e]) x)"
      using ok x by (simp add: prefix_ok_def)
    show ?thesis
    proof (cases "obj (e_meta x) = obj (e_meta e)")
      case True
      have "obj (e_meta ?l) = obj (e_meta e)"
        using sorted_keys_le_last [OF sorted(1) x] key_less_fst [OF sorted(2)] True
        by (simp add: meta_key_def)
      moreover have "group_of es x \<noteq> []" using x by (auto simp: group_of_def filter_empty_conv)
      ultimately show ?thesis
        using cond True open_group_cases [of "group_of es x @ [e]"] by (auto simp: grp append_eq_Cons_conv)
    next
      case False
      then have "complete_group (group_of es x)" using cond by (simp add: grp)
      then show ?thesis using complete_open by auto
    qed
  qed
  then show ?thesis using ok sorted by (auto simp: prefix_ok_def split: if_splits)
qed

lemma accept_all_iff:
  "accept_all (structure_new g) es = Inr s \<longleftrightarrow> prefix_ok g es \<and> s = state_after g es"
proof (induction es arbitrary: s rule: rev_induct)
  case Nil
  show ?case by (auto simp: prefix_ok_def state_after_def structure_new_def)
next
  case (snoc e es)
  show ?case
  proof (cases "es = []")
    case True
    have "structure_new g = state_after g []" by (simp add: structure_new_def state_after_def)
    then show ?thesis
      using True accept_first [of g e] prefix_ok_single [of g e]
      by (cases "entry_check g e") auto
  next
    case False
    have "accept_all (structure_new g) (es @ [e]) = Inr s \<longleftrightarrow>
        prefix_ok g es \<and> accept (state_after g es) e = Inr s"
      using snoc by (auto simp: accept_all_snoc bindE_eq_Inr)
    then show ?thesis
      using accept_step [OF False] prefix_ok_butlast [OF False] by blast
  qed
qed

lemma greatest_id_less:
  "fold (\<lambda>e. max (obj (e_meta e))) es a < n \<longleftrightarrow> a < n \<and> (\<forall>e\<in>set es. obj (e_meta e) < n)"
  by (induction es arbitrary: a) auto

lemma wf_catalog_iff_pass:
  "structure_pass g h es = Inr () \<longleftrightarrow> wf_catalog g (next_object h) es"
proof -
  have fin: "structure_finish (state_after g es) h = Inr () \<longleftrightarrow>
      \<not> (es \<noteq> [] \<and> retained (last es) \<and> length (group_of es (last es)) = 1)
      \<and> 0 < next_object h \<and> (\<forall>e\<in>set es. obj (e_meta e) < next_object h)"
    by (auto simp: structure_finish_def state_after_def greatest_id_less [symmetric] not_le)
  have "(\<forall>e\<in>set es. complete_group (group_of es e)) \<longleftrightarrow>
      (\<forall>e\<in>set es. if obj (e_meta e) = obj (e_meta (last es)) then open_group (group_of es e)
        else complete_group (group_of es e))
      \<and> \<not> (es \<noteq> [] \<and> retained (last es) \<and> length (group_of es (last es)) = 1)" (is "?L \<longleftrightarrow> ?R1 \<and> ?R2")
  proof (cases "es = []")
    case False
    have l: "group_of es e = group_of es (last es)" if "obj (e_meta e) = obj (e_meta (last es))" for e
      using that by (rule group_of_cong)
    have last_ok: "complete_group (group_of es (last es)) \<longleftrightarrow> open_group (group_of es (last es)) \<and> ?R2"
      using False group_of_last [OF False] open_group_cases [of "group_of es (last es)"] complete_open
      by (cases "group_of es (last es)" rule: open_group.cases) auto
    show ?thesis
    proof
      assume L: ?L
      then show "?R1 \<and> ?R2" using last_ok last_in_set [OF False] complete_open by auto
    next
      assume R: "?R1 \<and> ?R2"
      show ?L
      proof
        fix e assume e: "e \<in> set es"
        show "complete_group (group_of es e)"
        proof (cases "obj (e_meta e) = obj (e_meta (last es))")
          case True
          then show ?thesis using R e last_ok l [OF True] by auto
        next
          case neq: False
          then show ?thesis using R e by auto
        qed
      qed
    qed
  qed simp
  then have "wf_catalog g (next_object h) es \<longleftrightarrow> prefix_ok g es \<and> structure_finish (state_after g es) h = Inr ()"
    unfolding wf_catalog_def prefix_ok_def fin by blast
  then show ?thesis by (auto simp: structure_pass_def bindE_eq_Inr accept_all_iff)
qed

subsection \<open>Properties\<close>

text \<open>
  C36: the one-pass structure check decides the catalog rules. It accepts an entry array, with
  its header, exactly when every entry passes its own check, at most one entry is a recording,
  the keys ascend strictly, every object has a lone head or one retained revision followed by a
  head of the same kind, and the id cursor is above every id.
\<close>

theorem structure_pass_decides_rules:
  "structure_pass g h es = Inr () \<longleftrightarrow> wf_catalog g (next_object h) es"
  by (rule wf_catalog_iff_pass)

text \<open>
  The entry codec. A 128-byte record decodes to an entry exactly when it is the encoding of
  that entry and the entry is well-formed on the card: nonzero identity, defined flags, a name
  with a zero pad, and one to eight nonempty ranges inside the card's extents.
\<close>

theorem entry_codec:
  assumes "length bs = 128"
  shows "entry_decode bs ec = Inr e \<longleftrightarrow> wf_entry ec e \<and> bs = entry_encode e"
  using entry_decode_Inr [OF _ assms] entry_roundtrip by blast

definition sample_entry :: entry where
  "sample_entry = \<lparr>e_meta = \<lparr>added_at_utc = 0, obj = 7, rev = 1, kind = Trip, flags = 0,
     payload_len = 9, payload_crc = 3, name = name_default\<rparr>, e_ranges = [(4, 1)]\<rparr>"

theorem entry_codec_witness:
  "entry_decode (entry_encode sample_entry) 64 = Inr sample_entry"
proof -
  have wf: "wf_entry 64 sample_entry"
    by (simp add: wf_entry_def sample_entry_def in_card_def MAX_RANGES_def)
  then have "length (entry_encode sample_entry) = 128" by (simp add: wf_entry_def)
  from entry_codec [OF this, of 64 sample_entry] wf show ?thesis by simp
qed

text \<open>
  C39: a gate certifies only what was written as one. A block decodes as the gate of a copy
  exactly when it is the encoding of a well-formed gate for that copy and store; changing a
  decoded gate inside any window of four bytes makes it undecodable; and the all-zero block that
  invalidates a copy never decodes.
\<close>

theorem gate_certifies:
  assumes "copy < 2" and "length bs = 512"
  shows "(gate_decode bs copy store = Inr g \<longleftrightarrow>
      wf_gate g \<and> g_store g = store \<and> unat (g_copy g) = copy \<and> bs = gate_encode g)
    \<and> (\<forall>pre mid post mid'. bs = pre @ mid @ post \<and> gate_decode bs copy store = Inr g
         \<and> length mid = length mid' \<and> length mid \<le> 4 \<and> mid \<noteq> mid'
         \<longrightarrow> (\<exists>e. gate_decode (pre @ mid' @ post) copy store = Inl e))
    \<and> gate_decode INVALIDATED copy store = Inl (DecodeError Gate Magic)"
proof (intro conjI allI impI; (elim conjE)?)
  have cp: "unat (of_nat copy :: u8) = copy" using assms(1) by (simp add: word_unat_of_nat)
  show "gate_decode bs copy store = Inr g \<longleftrightarrow>
      wf_gate g \<and> g_store g = store \<and> unat (g_copy g) = copy \<and> bs = gate_encode g"
  proof
    assume "gate_decode bs copy store = Inr g"
    from gate_decode_Inr [OF this assms(2,1)] cp
    show "wf_gate g \<and> g_store g = store \<and> unat (g_copy g) = copy \<and> bs = gate_encode g" by simp
  next
    assume g: "wf_gate g \<and> g_store g = store \<and> unat (g_copy g) = copy \<and> bs = gate_encode g"
    from g gate_roundtrip [of g copy] show "gate_decode bs copy store = Inr g" by simp
  qed
  show "gate_decode INVALIDATED copy store = Inl (DecodeError Gate Magic)" by (rule invalidated_gate)
  fix pre mid post mid' :: bytes
  assume bs: "bs = pre @ mid @ post" and dec: "gate_decode bs copy store = Inr g"
    and mid: "length mid = length mid'" "length mid \<le> 4" "mid \<noteq> mid'"
  have f: "framed (pre @ mid @ post)"
    using gate_decode_Inr [OF dec assms(2,1), THEN conjunct1] by (simp only: bs)
  have len': "length (pre @ mid' @ post) = 512" using assms(2) bs mid(1) by simp
  show "\<exists>e. gate_decode (pre @ mid' @ post) copy store = Inl e"
    using framed_damage [OF f mid] gate_decode_Inr [OF _ len' assms(1)]
    by (cases "gate_decode (pre @ mid' @ post) copy store") auto
qed

theorem gate_certifies_witness:
  "gate_decode (gate_encode \<lparr>g_copy = 1, g_store = zeros 16, g_sequence = 4, g_entry_count = 2,
       body_crc = 9\<rparr>) 1 (zeros 16)
   = Inr \<lparr>g_copy = 1, g_store = zeros 16, g_sequence = 4, g_entry_count = 2, body_crc = 9\<rparr>"
proof -
  let ?g = "\<lparr>g_copy = 1, g_store = zeros 16, g_sequence = 4, g_entry_count = 2, body_crc = 9\<rparr> :: gate"
  have wf: "wf_gate ?g" by (simp add: wf_gate_def fmt_consts)
  then have "framed (gate_encode ?g)" by (intro gate_encode_framed) (simp add: wf_gate_def)
  then have "length (gate_encode ?g) = 512" by (simp add: framed_def)
  with wf show ?thesis using gate_certifies [of 1 "gate_encode ?g" "zeros 16" ?g] by simp
qed

text \<open>
  A card that comes back is resumed only on the catalog it left with. When the probe of a
  reinserted card matches the retained mount, the gate in the served copy's slot is the served
  gate and any gate in the other slot is of a strictly older commit.
\<close>

theorem reinsert_resumes_served:
  assumes "catalog_state_matches st gates"
  shows "gi_copy (served st) = 0 \<and> fst gates = Some (served st)
      \<and> (\<forall>g. snd gates = Some g \<longrightarrow> gi_sequence g < gi_sequence (served st))
    \<or> gi_copy (served st) = 1 \<and> snd gates = Some (served st)
      \<and> (\<forall>g. fst gates = Some g \<longrightarrow> gi_sequence g < gi_sequence (served st))"
proof -
  obtain a b where gates: "gates = (a, b)" by (cases gates)
  from assms show ?thesis
    unfolding catalog_state_matches_def gates
    by (cases a; cases b) (auto split: if_splits simp: max_def order.strict_iff_order)
qed

definition sample_gate :: gate_identity where
  "sample_gate = \<lparr>gi_copy = 1, gi_sequence = 5, gi_entry_count = 0, gi_body_crc = 1\<rparr>"

theorem reinsert_resumes_served_witness:
  "catalog_state_matches \<lparr>ms_store = zeros 16, ms_extent_size = 0, ms_extent_count = 0,
     served = sample_gate, high_water = 5\<rparr> (None, Some sample_gate)
   \<and> snd (None :: gate_identity option, Some sample_gate) = Some sample_gate"
proof -
  let ?st = "\<lparr>ms_store = zeros 16, ms_extent_size = 0, ms_extent_count = 0,
     served = sample_gate, high_water = 5\<rparr>"
  have m: "catalog_state_matches ?st (None, Some sample_gate)"
    by (simp add: catalog_state_matches_def sample_gate_def)
  from reinsert_resumes_served [OF m] m show ?thesis by simp
qed

end
