(* ===== verification/Flat_Journal.thy ===== *)
theory Flat_Journal
  imports Flat_Catalog
begin

text \<open>
  The ride journal's slot record, from \<open>firmware/obc-storage/src/flat/journal.rs\<close>: a 512-byte
  header block and a tail of one program page, tied together by one CRC-32 over the header (with
  the CRC field zero) and the whole tail.
\<close>

definition SLOT_MAGIC :: bytes where "SLOT_MAGIC = [0x46, 0x53, 0x52, 0x4A]"
definition TAIL_CAPACITY :: nat where "TAIL_CAPACITY = PROGRAM_PAGE"
definition SLOT_CRC_OFFSET :: nat where "SLOT_CRC_OFFSET = 504"
definition RESUME_OFFSET :: nat where "RESUME_OFFSET = 96"
definition FLAGS_OFFSET :: nat where "FLAGS_OFFSET = RESUME_OFFSET + RIDE_RESUME_LEN"
definition PROOF_SEQUENCE_OFFSET :: nat where "PROOF_SEQUENCE_OFFSET = 200"
definition FLAG_PROOF :: u16 where "FLAG_PROOF = 1"

record jslot =
  sl_slot :: u16
  sl_id :: object_id
  sl_revision :: revision
  sl_sequence :: u64
  sl_flushed :: u64
  sl_tail_len :: u32
  sl_payload_crc :: u32
  sl_resume :: bytes
  sl_proof :: bool
  sl_proof_sequence :: u64
  sl_ranges :: ranges
  sl_crc :: u32

definition encode_with :: "jslot \<Rightarrow> u32 \<Rightarrow> store_id \<Rightarrow> bytes" where
  "encode_with s slot_crc store =
     (let out = zeros BLOCK;
          out = put_bytes out 0 SLOT_MAGIC;
          out = put_u16 out 4 FORMAT_VERSION;
          out = put_u16 out 6 (sl_slot s);
          out = put_bytes out 8 store;
          out = put_u64 out 24 (sl_id s);
          out = put_u64 out 32 (sl_revision s);
          out = put_u64 out 40 (sl_sequence s);
          out = put_u64 out 48 (sl_flushed s);
          out = put_u32 out 56 (sl_tail_len s);
          out = put_u32 out 60 (sl_payload_crc s);
          out = put_bytes out 64 (ranges_encode (sl_ranges s));
          out = put_bytes out RESUME_OFFSET (sl_resume s);
          out = put_u16 out FLAGS_OFFSET (if sl_proof s then FLAG_PROOF else 0);
          out = put_u64 out PROOF_SEQUENCE_OFFSET (sl_proof_sequence s)
      in put_u32 out SLOT_CRC_OFFSET slot_crc)"

definition header_bytes :: "jslot \<Rightarrow> store_id \<Rightarrow> bytes" where
  "header_bytes s store = encode_with s (sl_crc s) store"

text \<open>The \<open>while\<close> loop of \<open>live_ranges\<close>, from \<open>count\<close>.\<close>

function live_ranges_from :: "nat \<Rightarrow> bytes \<Rightarrow> nat" where
  "live_ranges_from count field =
     (if count < MAX_RANGES \<and> u16_at field (count * 4 + 2) \<noteq> 0
      then live_ranges_from (count + 1) field else count)"
  by pat_completeness auto
termination by (relation "measure (\<lambda>(count, _). MAX_RANGES - count)") auto

definition live_ranges :: "bytes \<Rightarrow> u8" where
  "live_ranges field = of_nat (live_ranges_from 0 field)"

definition slot_decode :: "bytes \<Rightarrow> nat \<Rightarrow> store_id \<Rightarrow> nat \<Rightarrow> decode_error + jslot" where
  "slot_decode bs slot store extents =
     (let err = DecodeError Slot in
      if length bs < BLOCK then Inl (err Length)
      else if slice 0 4 bs \<noteq> SLOT_MAGIC then Inl (err Magic)
      else if u16_at bs 4 \<noteq> FORMAT_VERSION then Inl (err Version)
      else if u16_at bs 6 \<noteq> of_nat slot \<or> slot \<ge> SLOTS then Inl (err Position)
      else if bytes16_at bs 8 \<noteq> store then Inl (err StoreId)
      else let i = u64_at bs 24; r = u64_at bs 32; sequence = u64_at bs 40 in
      if i = 0 \<or> r = 0 \<or> sequence = 0 then Inl (err Zero)
      else if unat sequence mod SLOTS \<noteq> slot then Inl (err Position)
      else let flushed = u64_at bs 48 in
      if unat flushed mod PROGRAM_PAGE \<noteq> 0 then Inl (err Count)
      else let tail_len = u32_at bs 56 in
      if unat tail_len > TAIL_CAPACITY then Inl (err Count)
      else let flags = u16_at bs FLAGS_OFFSET in
      if flags AND NOT FLAG_PROOF \<noteq> 0
         \<or> \<not> is_zero bs (FLAGS_OFFSET + 2) (PROOF_SEQUENCE_OFFSET - FLAGS_OFFSET - 2)
         \<or> \<not> is_zero bs (PROOF_SEQUENCE_OFFSET + 8) (SLOT_CRC_OFFSET - PROOF_SEQUENCE_OFFSET - 8)
         \<or> \<not> is_zero bs 508 4 then Inl (err Reserved)
      else let proof = (flags AND FLAG_PROOF \<noteq> 0); proof_sequence = u64_at bs PROOF_SEQUENCE_OFFSET in
      if (if proof then unat tail_len \<noteq> TAIL_CAPACITY \<or> proof_sequence \<noteq> 0
          else proof_sequence \<noteq> 0 \<and> checked_add 64 (unat proof_sequence) 1 \<noteq> Some (unat sequence))
      then Inl (err Count)
      else bindE (map_errE (\<lambda>e. err (reason_of e))
             (ranges_decode (slice 64 32 bs) (live_ranges (slice 64 32 bs)) extents)) (\<lambda>rs.
        Inr \<lparr>sl_slot = of_nat slot, sl_id = i, sl_revision = r, sl_sequence = sequence,
             sl_flushed = flushed, sl_tail_len = tail_len, sl_payload_crc = u32_at bs 60,
             sl_resume = slice RESUME_OFFSET RIDE_RESUME_LEN bs, sl_proof = proof,
             sl_proof_sequence = proof_sequence, sl_ranges = rs, sl_crc = u32_at bs SLOT_CRC_OFFSET\<rparr>))"

definition describes :: "jslot \<Rightarrow> entry \<Rightarrow> bool" where
  "describes s e \<longleftrightarrow> sl_id s = obj (e_meta e) \<and> sl_revision s = rev (e_meta e) \<and> sl_ranges s = e_ranges e"

definition header_digest :: "bytes \<Rightarrow> crc32_hasher" where
  "header_digest h =
     (let d = crc_update crc_new (take SLOT_CRC_OFFSET h);
          d = crc_update d [0, 0, 0, 0]
      in crc_update d (slice (SLOT_CRC_OFFSET + 4) (BLOCK - (SLOT_CRC_OFFSET + 4)) h))"

subsection \<open>What the decoder admits\<close>

definition wf_slot :: "nat \<Rightarrow> jslot \<Rightarrow> bool" where
  "wf_slot extents s \<longleftrightarrow> unat (sl_slot s) < SLOTS \<and> unat (sl_sequence s) mod SLOTS = unat (sl_slot s)
     \<and> sl_id s \<noteq> 0 \<and> sl_revision s \<noteq> 0 \<and> sl_sequence s \<noteq> 0
     \<and> PROGRAM_PAGE dvd unat (sl_flushed s) \<and> unat (sl_tail_len s) \<le> TAIL_CAPACITY
     \<and> length (sl_resume s) = RIDE_RESUME_LEN
     \<and> (if sl_proof s then unat (sl_tail_len s) = TAIL_CAPACITY \<and> sl_proof_sequence s = 0
        else sl_proof_sequence s = 0 \<or> unat (sl_sequence s) = unat (sl_proof_sequence s) + 1)
     \<and> sl_ranges s \<noteq> [] \<and> length (sl_ranges s) \<le> MAX_RANGES \<and> in_card extents (sl_ranges s)"

text \<open>A slot record as it lies on the card, header and tail: its header decodes and its CRC holds.\<close>

definition slot_holds :: "bytes \<Rightarrow> nat \<Rightarrow> store_id \<Rightarrow> nat \<Rightarrow> jslot \<Rightarrow> bool" where
  "slot_holds rec slot store extents s \<longleftrightarrow> length rec = BLOCK + TAIL_CAPACITY
     \<and> slot_decode (take BLOCK rec) slot store extents = Inr s
     \<and> finalize (crc_update (header_digest (take BLOCK rec)) (drop BLOCK rec)) = sl_crc s"

lemmas slot_consts = TAIL_CAPACITY_def SLOT_CRC_OFFSET_def RESUME_OFFSET_def FLAGS_OFFSET_def
  PROOF_SEQUENCE_OFFSET_def RIDE_RESUME_LEN_def BLOCK_def PROGRAM_PAGE_def SLOTS_def

declare live_ranges_from.simps [simp del]

lemma live_ranges_encode:
  assumes "length rs \<le> MAX_RANGES" and "in_card ec rs" and "k \<le> length rs"
  shows "live_ranges_from k (ranges_encode rs) = length rs"
  using assms(3)
proof (induction "length rs - k" arbitrary: k)
  case 0
  then have "k = length rs" by simp
  moreover have "\<not> (length rs < MAX_RANGES \<and> u16_at (ranges_encode rs) (length rs * 4 + 2) \<noteq> 0)"
    using ranges_encode_nth(2) [of rs "length rs"] assms(1) by (cases "length rs < MAX_RANGES") simp_all
  ultimately show ?case using live_ranges_from.simps [of k "ranges_encode rs"] by (metis (full_types))
next
  case (Suc n)
  then have k: "k < length rs" by simp
  then have "u16_at (ranges_encode rs) (k * 4 + 2) \<noteq> 0" and "k < MAX_RANGES"
    using ranges_encode_nth(2) [of rs k] assms by (auto simp: in_card_def list_all_length split_beta)
  then have "live_ranges_from k (ranges_encode rs) = live_ranges_from (k + 1) (ranges_encode rs)"
    by (subst live_ranges_from.simps) simp
  then show ?case using Suc(1) [of "k + 1"] Suc(2) k by simp
qed

lemma slot_ranges_iff:
  assumes "length field = 32"
  shows "ranges_decode field (live_ranges field) ec = Inr rs \<longleftrightarrow>
    rs \<noteq> [] \<and> length rs \<le> MAX_RANGES \<and> in_card ec rs \<and> field = ranges_encode rs"
  using ranges_decode_iff [OF assms] live_ranges_encode [of rs ec 0] range_count_byte [of rs]
  by (auto simp: live_ranges_def)

lemma flags_proof: "(f :: u16) AND NOT FLAG_PROOF = 0 \<longleftrightarrow> f = (if f AND FLAG_PROOF \<noteq> 0 then FLAG_PROOF else 0)"
proof -
  have split: "f = (f AND NOT 1) OR (f AND 1)" by (rule bit_word_eqI) (auto simp: bit_simps)
  have one: "f AND 1 = 0 \<or> f AND 1 = 1" by (simp add: and_one_eq mod2_eq_if)
  show ?thesis
  proof
    assume "f AND NOT FLAG_PROOF = 0"
    then have "f = f AND 1" using split by (simp add: FLAG_PROOF_def)
    then show "f = (if f AND FLAG_PROOF \<noteq> 0 then FLAG_PROOF else 0)" using one by (auto simp: FLAG_PROOF_def)
  next
    assume "f = (if f AND FLAG_PROOF \<noteq> 0 then FLAG_PROOF else 0)"
    then have "f = 1 \<or> f = 0" by (auto simp: FLAG_PROOF_def split: if_splits)
    then show "f AND NOT FLAG_PROOF = 0" by (auto simp: FLAG_PROOF_def)
  qed
qed

lemma slot_magic [simp]: "length SLOT_MAGIC = 4"
  by (simp add: SLOT_MAGIC_def)

text \<open>The header block, field by field.\<close>

definition slot_fields :: "jslot \<Rightarrow> u32 \<Rightarrow> store_id \<Rightarrow> bytes list" where
  "slot_fields s c store =
     [SLOT_MAGIC, le16 FORMAT_VERSION, le16 (sl_slot s), store, le64 (sl_id s), le64 (sl_revision s),
      le64 (sl_sequence s), le64 (sl_flushed s), le32 (sl_tail_len s), le32 (sl_payload_crc s),
      ranges_encode (sl_ranges s), sl_resume s, le16 (if sl_proof s then FLAG_PROOF else 0), zeros 6,
      le64 (sl_proof_sequence s), zeros 296, le32 c, zeros 4]"

abbreviation slot_widths :: "nat list" where
  "slot_widths \<equiv> [4, 2, 2, 16, 8, 8, 8, 8, 4, 4, 32, 96, 2, 6, 8, 296, 4, 4]"

lemma encode_with_fields:
  assumes "length store = 16" and "length (sl_resume s) = 96" and "length (sl_ranges s) \<le> MAX_RANGES"
  shows "encode_with s c store = concat (slot_fields s c store)"
    and "map length (slot_fields s c store) = slot_widths"
proof -
  let ?puts = "[(0, SLOT_MAGIC), (4, le16 FORMAT_VERSION), (6, le16 (sl_slot s)), (8, store),
    (24, le64 (sl_id s)), (32, le64 (sl_revision s)), (40, le64 (sl_sequence s)), (48, le64 (sl_flushed s)),
    (56, le32 (sl_tail_len s)), (60, le32 (sl_payload_crc s)), (64, ranges_encode (sl_ranges s)),
    (96, sl_resume s), (192, le16 (if sl_proof s then FLAG_PROOF else 0)),
    (200, le64 (sl_proof_sequence s)), (504, le32 c)]"
  have len: "length (ranges_encode (sl_ranges s)) = 32" using assms(3) by simp
  have "encode_with s c store = fold (\<lambda>(off, bs) out. put_bytes out off bs) ?puts ([] @ zeros (512 - length ([] :: bytes)))"
    by (simp add: encode_with_def Let_def slot_consts put_defs)
  also have "\<dots> = filled 0 512 ?puts"
    by (subst fold_put_filled) (use assms(1,2) len in simp_all)
  also have "\<dots> = concat (slot_fields s c store)"
    using assms(1,2) len by (simp add: slot_fields_def zeros_def [of 0])
  finally show "encode_with s c store = concat (slot_fields s c store)" .
  show "map length (slot_fields s c store) = slot_widths" using assms by (simp add: slot_fields_def)
qed

lemma encode_with_cells:
  assumes "length store = 16" and "length (sl_resume s) = 96" and "length (sl_ranges s) \<le> MAX_RANGES"
  shows "cells 0 slot_widths (encode_with s c store) = slot_fields s c store"
    and "length (encode_with s c store) = 512"
proof -
  note e = encode_with_fields [OF assms]
  show "cells 0 slot_widths (encode_with s c store) = slot_fields s c store"
    using cells_concat [OF e(2), where pre = "[]" and rest = "[]"] e(1) by simp
  have "length (concat (slot_fields s c store)) = sum_list slot_widths"
    unfolding length_concat e(2) ..
  then show "length (encode_with s c store) = 512" by (simp add: e(1))
qed

lemma if_Inl: "(if c then Inl e else r) = Inr x \<Longrightarrow> \<not> c \<and> r = Inr x"
  by (simp split: if_splits)

lemma slot_decode_Inr:
  assumes "slot_decode bs slot store ec = Inr s" and "length bs = 512"
  shows "wf_slot ec s \<and> unat (sl_slot s) = slot \<and> length store = 16 \<and> bs = header_bytes s store"
proof -
  note d = assms(1) [unfolded slot_decode_def Let_def slot_consts bytes16_at_def]
  note g1 = if_Inl [OF d]
  note g2 = if_Inl [OF conjunct2 [OF g1]]
  note g3 = if_Inl [OF conjunct2 [OF g2]]
  note g4 = if_Inl [OF conjunct2 [OF g3]]
  note g5 = if_Inl [OF conjunct2 [OF g4]]
  note g6 = if_Inl [OF conjunct2 [OF g5]]
  note g7 = if_Inl [OF conjunct2 [OF g6]]
  note g8 = if_Inl [OF conjunct2 [OF g7]]
  note g9 = if_Inl [OF conjunct2 [OF g8]]
  note g10 = if_Inl [OF conjunct2 [OF g9]]
  note g11 = if_Inl [OF conjunct2 [OF g10]]
  note g = g2 [THEN conjunct1] g3 [THEN conjunct1] g4 [THEN conjunct1] g5 [THEN conjunct1] g6 [THEN conjunct1]
    g7 [THEN conjunct1] g8 [THEN conjunct1] g9 [THEN conjunct1] g10 [THEN conjunct1] g11 [THEN conjunct1]
  obtain rs where rd0: "ranges_decode (slice 64 32 bs) (live_ranges (slice 64 32 bs)) ec = Inr rs"
    and s: "s = \<lparr>sl_slot = of_nat slot, sl_id = u64_at bs 24, sl_revision = u64_at bs 32,
      sl_sequence = u64_at bs 40, sl_flushed = u64_at bs 48, sl_tail_len = u32_at bs 56,
      sl_payload_crc = u32_at bs 60, sl_resume = slice 96 96 bs, sl_proof = (u16_at bs 192 AND FLAG_PROOF \<noteq> 0),
      sl_proof_sequence = u64_at bs 200, sl_ranges = rs, sl_crc = u32_at bs 504\<rparr>"
    using g11 [THEN conjunct2] by (auto simp: bindE_eq_Inr)
  have dec: "slice 0 4 bs = SLOT_MAGIC" "slice 4 2 bs = le16 FORMAT_VERSION" "slice 6 2 bs = le16 (sl_slot s)"
      "slice 8 16 bs = store" "slice 24 8 bs = le64 (sl_id s)" "slice 32 8 bs = le64 (sl_revision s)"
      "slice 40 8 bs = le64 (sl_sequence s)" "slice 48 8 bs = le64 (sl_flushed s)"
      "slice 56 4 bs = le32 (sl_tail_len s)" "slice 60 4 bs = le32 (sl_payload_crc s)"
      "slice 96 96 bs = sl_resume s" "slice 194 6 bs = zeros 6" "slice 200 8 bs = le64 (sl_proof_sequence s)"
      "slice 208 296 bs = zeros 296" "slice 504 4 bs = le32 (sl_crc s)" "slice 508 4 bs = zeros 4"
    using g assms(2) by (simp_all add: s slice_at is_zero_iff)
  have fl: "u16_at bs 192 AND NOT FLAG_PROOF = 0" "sl_proof s \<longleftrightarrow> u16_at bs 192 AND FLAG_PROOF \<noteq> 0"
    and rd: "ranges_decode (slice 64 32 bs) (live_ranges (slice 64 32 bs)) ec = Inr (sl_ranges s)"
    and wf: "slot < 16" "sl_slot s = of_nat slot" "unat (sl_sequence s) mod 16 = slot"
      "sl_id s \<noteq> 0" "sl_revision s \<noteq> 0" "sl_sequence s \<noteq> 0"
      "unat (sl_flushed s) mod 16384 = 0" "unat (sl_tail_len s) \<le> 16384"
      "if sl_proof s then unat (sl_tail_len s) = 16384 \<and> sl_proof_sequence s = 0
       else sl_proof_sequence s = 0 \<or> checked_add 64 (unat (sl_proof_sequence s)) 1 = Some (unat (sl_sequence s))"
    using g rd0 by (simp_all add: s split: if_splits)
  have r: "sl_ranges s \<noteq> []" "length (sl_ranges s) \<le> MAX_RANGES" "in_card ec (sl_ranges s)"
      "slice 64 32 bs = ranges_encode (sl_ranges s)"
    using rd assms(2) by (simp_all add: slot_ranges_iff)
  have f: "slice 192 2 bs = le16 (if sl_proof s then FLAG_PROOF else 0)"
    using fl assms(2) by (intro slice_at) (simp_all add: flags_proof)
  have len: "length store = 16" "length (sl_resume s) = 96"
    using arg_cong [OF dec(4), of length] arg_cong [OF dec(11), of length] assms(2) by simp_all
  have u: "unat (sl_slot s) = slot" using wf(1,2) by (simp add: word_unat_of_nat)
  have "bs = header_bytes s store"
  proof (rule cells_eqI)
    have "cells 0 slot_widths bs = slot_fields s (sl_crc s) store"
      using dec r f by (simp add: slot_fields_def del: add_2_eq_Suc add_2_eq_Suc')
    then show "cells 0 slot_widths bs = cells 0 slot_widths (header_bytes s store)"
      by (simp only: header_bytes_def encode_with_cells(1) [OF len r(2)])
  qed (use assms(2) in \<open>simp_all add: header_bytes_def encode_with_cells(2) [OF len r(2)]\<close>)
  moreover have "wf_slot ec s"
    using wf u r len by (auto simp: wf_slot_def slot_consts checked_add_Some split: if_splits)
  ultimately show ?thesis using u len by blast
qed

lemma slot_roundtrip:
  assumes "wf_slot ec s" and "length store = 16"
  shows "slot_decode (header_bytes s store) (unat (sl_slot s)) store ec = Inr s"
proof -
  have wf: "unat (sl_slot s) < 16" "unat (sl_sequence s) mod 16 = unat (sl_slot s)"
      "sl_id s \<noteq> 0" "sl_revision s \<noteq> 0" "sl_sequence s \<noteq> 0"
      "16384 dvd unat (sl_flushed s)" "unat (sl_tail_len s) \<le> 16384" "length (sl_resume s) = 96"
      "if sl_proof s then unat (sl_tail_len s) = 16384 \<and> sl_proof_sequence s = 0
        else sl_proof_sequence s = 0 \<or> unat (sl_sequence s) = unat (sl_proof_sequence s) + 1"
      "sl_ranges s \<noteq> []" "length (sl_ranges s) \<le> MAX_RANGES" "in_card ec (sl_ranges s)"
    using assms(1) unfolding wf_slot_def slot_consts by blast+
  have r: "length (ranges_encode (sl_ranges s)) = 32" using wf(11) by simp
  have rd: "ranges_decode (ranges_encode (sl_ranges s)) (live_ranges (ranges_encode (sl_ranges s))) ec = Inr (sl_ranges s)"
    using slot_ranges_iff [OF r] wf(10-12) by simp
  have ps: "\<not> sl_proof s \<longrightarrow> sl_proof_sequence s = 0 \<or> checked_add 64 (unat (sl_proof_sequence s)) 1 = Some (unat (sl_sequence s))"
  proof -
    have "unat (sl_sequence s) < 2 ^ 64" using unsigned_less [of "sl_sequence s"] by simp
    then show ?thesis using wf(9) by (auto simp: checked_add_Some)
  qed
  have fl: "(if sl_proof s then FLAG_PROOF else 0) AND NOT FLAG_PROOF = 0"
    "((if sl_proof s then FLAG_PROOF else 0) AND FLAG_PROOF = 0) = (\<not> sl_proof s)"
    by (simp_all add: FLAG_PROOF_def)
  define h where "h = header_bytes s store"
  have len: "length h = 512"
    using encode_with_cells(2) [OF assms(2) wf(8,11)] by (simp add: h_def header_bytes_def)
  have "cells 0 slot_widths h = slot_fields s (sl_crc s) store"
    using encode_with_cells(1) [OF assms(2) wf(8,11)] by (simp add: h_def header_bytes_def)
  then have fs: "slice 0 4 h = SLOT_MAGIC" "slice 4 2 h = le16 FORMAT_VERSION" "slice 6 2 h = le16 (sl_slot s)"
      "slice 8 16 h = store" "slice 24 8 h = le64 (sl_id s)" "slice 32 8 h = le64 (sl_revision s)"
      "slice 40 8 h = le64 (sl_sequence s)" "slice 48 8 h = le64 (sl_flushed s)"
      "slice 56 4 h = le32 (sl_tail_len s)" "slice 60 4 h = le32 (sl_payload_crc s)"
      "slice 64 32 h = ranges_encode (sl_ranges s)" "slice 96 96 h = sl_resume s"
      "slice 192 2 h = le16 (if sl_proof s then FLAG_PROOF else 0)"
      "slice 194 6 h = zeros 6" "slice 200 8 h = le64 (sl_proof_sequence s)"
      "slice 208 296 h = zeros 296" "slice 504 4 h = le32 (sl_crc s)" "slice 508 4 h = zeros 4"
    by (simp_all add: slot_fields_def del: add_2_eq_Suc add_2_eq_Suc')
  have s: "s = \<lparr>sl_slot = of_nat (unat (sl_slot s)), sl_id = sl_id s, sl_revision = sl_revision s,
      sl_sequence = sl_sequence s, sl_flushed = sl_flushed s, sl_tail_len = sl_tail_len s,
      sl_payload_crc = sl_payload_crc s, sl_resume = sl_resume s, sl_proof = sl_proof s,
      sl_proof_sequence = sl_proof_sequence s, sl_ranges = sl_ranges s, sl_crc = sl_crc s\<rparr>"
    by simp
  show ?thesis
    unfolding h_def [symmetric] slot_decode_def Let_def
    using wf(1-9) ps
    by (simp add: slot_consts at_defs is_zero_iff len fs rd fl mod_eq_0_iff_dvd)
qed

subsection \<open>The slot CRC\<close>

definition covered :: "bytes \<Rightarrow> bytes" where
  "covered rec = take 504 rec @ zeros 4 @ drop 508 rec"

lemma slot_digest:
  assumes "length rec = 16896"
  shows "finalize (crc_update (header_digest (take 512 rec)) (drop 512 rec)) = crc32 (covered rec)"
proof -
  have "drop 508 rec = slice 508 4 (take 512 rec) @ drop 512 rec"
  proof -
    have "drop 512 rec = drop 4 (drop 508 rec)" by simp
    moreover have "slice 508 4 (take 512 rec) = take 4 (drop 508 rec)"
      using slice_take [of 508 4 512 rec] by (simp add: slice_def)
    ultimately show ?thesis by (simp only: append_take_drop_id)
  qed
  moreover have "[0, 0, 0, 0] = zeros 4" by (simp add: zeros_def numeral_eq_Suc)
  ultimately show ?thesis
    by (simp add: covered_def header_digest_def Let_def slot_consts finalize_new_update [symmetric] crc_update_append)
qed

lemma slot_holds_iff:
  "slot_holds rec slot store ec s \<longleftrightarrow> length rec = 16896
     \<and> slot_decode (take 512 rec) slot store ec = Inr s \<and> of_le (slice 504 4 rec) = crc32 (covered rec)"
proof -
  have "sl_crc s = of_le (slice 504 4 rec)" if "slot_decode (take 512 rec) slot store ec = Inr s"
    using that by (auto simp: slot_decode_def Let_def bindE_eq_Inr slot_consts u32_at_def slice_take split: if_splits)
  then show ?thesis
    by (auto simp: slot_holds_def slot_consts slot_digest)
qed

lemma slot_damage:
  assumes "slot_holds (pre @ mid @ post) slot store ec s"
    and mid: "length mid = length mid'" "length mid \<le> 4" "mid \<noteq> mid'"
    and place: "length pre + length mid \<le> 504 \<or> 504 \<le> length pre \<and> length pre + length mid \<le> 508
      \<or> 508 \<le> length pre"
  shows "\<not> slot_holds (pre @ mid' @ post) slot store ec s'"
proof
  let ?r = "pre @ mid @ post" and ?r' = "pre @ mid' @ post"
  assume "slot_holds ?r' slot store ec s'"
  then have crc: "of_le (slice 504 4 ?r) = crc32 (covered ?r)" "of_le (slice 504 4 ?r') = crc32 (covered ?r')"
    and len: "length ?r = 16896"
    using assms(1) by (simp_all add: slot_holds_iff)
  from place consider (before) "length pre + length mid \<le> 504"
    | (inside) "504 \<le> length pre" "length pre + length mid \<le> 508" | (behind) "508 \<le> length pre" by blast
  then show False
  proof cases
    case before
    define k where "k = length pre + length mid"
    define x where "x = take (504 - k) post @ zeros 4 @ drop (508 - k) post"
    have "covered ?r = pre @ mid @ x" "covered ?r' = pre @ mid' @ x" "slice 504 4 ?r = slice 504 4 ?r'"
      using before mid(1) by (simp_all add: covered_def x_def k_def slice_def)
    then show False using crc burst_differs [OF mid, of pre x] by simp
  next
    case inside
    then have "covered ?r = covered ?r'" using mid(1) by (simp add: covered_def)
    then have "slice 504 4 ?r = slice 504 4 ?r'"
      using crc of_le_inj [of "slice 504 4 ?r" "slice 504 4 ?r'", where 'a = 32] len mid(1) by simp
    moreover have "take 504 ?r = take 504 ?r'" "drop 508 ?r = drop 508 ?r'" using inside mid(1) by simp_all
    moreover have "r = take 504 r @ slice 504 4 r @ drop 508 r" for r :: bytes
      using take_append_slice [of 504 r 4] append_take_drop_id [of 508 r] by (simp flip: append_assoc)
    ultimately have "?r = ?r'" by metis
    then show False using mid(3) by simp
  next
    case behind
    define x where "x = take 504 pre @ zeros 4 @ drop 508 pre"
    have "covered ?r = x @ mid @ post" "covered ?r' = x @ mid' @ post" "slice 504 4 ?r = slice 504 4 ?r'"
      using behind by (simp_all add: covered_def x_def slice_def)
    then show False using crc burst_differs [OF mid, of x post] by simp
  qed
qed

subsection \<open>Properties\<close>

text \<open>
  The journal's slot record. A well-formed checkpoint header decodes to itself; a block decodes
  as the header of a slot only if re-encoding the decoded slot reproduces it byte for byte, which is
  what lets the store verify sixteen slots without keeping their headers; and a slot whose CRC over
  header and tail holds stops holding when bytes inside a window of four are changed in its header,
  its tail or its CRC field.
\<close>

theorem slot_record:
  "(wf_slot ec s \<and> length store = 16 \<longrightarrow>
      slot_decode (header_bytes s store) (unat (sl_slot s)) store ec = Inr s)
   \<and> (length bs = 512 \<and> slot_decode bs slot store ec = Inr s' \<longrightarrow>
        header_bytes s' store = bs \<and> wf_slot ec s' \<and> unat (sl_slot s') = slot)
   \<and> (slot_holds (pre @ mid @ post) slot store ec s \<and> length mid = length mid' \<and> length mid \<le> 4 \<and> mid \<noteq> mid'
        \<and> (length pre + length mid \<le> 504 \<or> 504 \<le> length pre \<and> length pre + length mid \<le> 508
            \<or> 508 \<le> length pre)
      \<longrightarrow> \<not> slot_holds (pre @ mid' @ post) slot store ec s')"
  using slot_roundtrip [of ec s store] slot_decode_Inr [of bs slot store ec s']
    slot_damage [of pre mid post slot store ec s mid' s'] by blast

definition sample_slot :: jslot where
  "sample_slot = \<lparr>sl_slot = 9, sl_id = 2, sl_revision = 1, sl_sequence = 41, sl_flushed = 245760,
     sl_tail_len = 3712, sl_payload_crc = 0x5E1B03C7, sl_resume = replicate 96 0xA5, sl_proof = False,
     sl_proof_sequence = 0, sl_ranges = [(13, 32)], sl_crc = 7\<rparr>"

theorem slot_record_witness:
  "slot_decode (header_bytes sample_slot (replicate 16 0x5A)) 9 (replicate 16 0x5A) 30718 = Inr sample_slot"
proof -
  have "wf_slot 30718 sample_slot"
    by (simp add: wf_slot_def sample_slot_def slot_consts in_card_def MAX_RANGES_def)
  then show ?thesis
    using slot_record [of 30718 sample_slot "replicate 16 0x5A"] by (simp add: sample_slot_def)
qed

end
