(* ===== verification/Flat_Stream.thy ===== *)
theory Flat_Stream
  imports Flat_Device Flat_Journal
begin

text \<open>
  The streaming parts of \<open>firmware/obc-storage/src/flat/store.rs\<close>: the cursor over a catalog copy's
  entry array, the writer of a catalog body, the append into a reservation and the read of an
  object's extents. Each works through a bounded window; the lemmas say what the window hides: the
  cursor returns the entries of the array, the writer puts the whole body on the card, and what
  was appended is what is read.
\<close>

definition STREAM_WINDOW :: nat where "STREAM_WINDOW = 8 * BLOCK"
definition MOUNT_STREAM_BLOCKS :: nat where "MOUNT_STREAM_BLOCKS = 4"

subsection \<open>The entry cursor\<close>

text \<open>A cursor and the window buffer its caller lends it.\<close>

record cursor =
  cu_base :: nat
  cu_extents :: nat
  cu_live :: nat
  cu_cached :: "(nat \<times> nat) option"
  cu_buf :: bytes

definition cursor_new :: "nat \<Rightarrow> nat \<Rightarrow> u16 \<Rightarrow> nat \<Rightarrow> cursor" where
  "cursor_new copy extents entries window =
     \<lparr>cu_base = CATALOG ! copy + 1, cu_extents = extents,
      cu_live = div_ceil (unat entries) ENTRIES_PER_BLOCK, cu_cached = None, cu_buf = zeros window\<rparr>"

definition cursor_fill :: "'d bdev \<Rightarrow> cursor \<Rightarrow> nat \<Rightarrow> ('d, nat \<times> cursor) io" where
  "cursor_fill D cu block =
     (let count = max 1 (min (length (cu_buf cu) div BLOCK) (cu_live cu - block)) in
      bindS (read_blocks D (cu_base cu + block) count) (\<lambda>bs.
        retS (block, cu\<lparr>cu_cached := Some (block, count), cu_buf := put_bytes (cu_buf cu) 0 bs\<rparr>)))"

text \<open>
  \<open>EntryCursor::get\<close>. A failed read ends every caller's walk, so the cursor is returned on success
  only.
\<close>

definition cursor_get :: "'d bdev \<Rightarrow> cursor \<Rightarrow> nat \<Rightarrow> ('d, entry \<times> cursor) io" where
  "cursor_get D cu index =
     (let block = index div ENTRIES_PER_BLOCK in
      bindS (case cu_cached cu of
          Some (first, count) \<Rightarrow>
            if first \<le> block \<and> block - first < count \<and> count \<le> length (cu_buf cu) div BLOCK
            then retS (first, cu) else cursor_fill D cu block
        | None \<Rightarrow> cursor_fill D cu block)
      (\<lambda>(first, cu).
        let at = (block - first) * BLOCK + index mod ENTRIES_PER_BLOCK * ENTRY_STRIDE in
        bindS (liftE (map_errE (\<lambda>_. Invalid) (entry_decode (slice at ENTRY_STRIDE (cu_buf cu)) (cu_extents cu))))
          (\<lambda>e. retS (e, cu))))"

subsection \<open>The body writer\<close>

text \<open>The stage holds the filled prefix of the window; the rest of the window is never written.\<close>

record body_writer =
  bw_block :: nat
  bw_stage :: bytes
  bw_window :: nat
  bw_digest :: crc32_hasher

definition bw_new :: "nat \<Rightarrow> nat \<Rightarrow> body_writer" where
  "bw_new block window = \<lparr>bw_block = block, bw_stage = [], bw_window = window, bw_digest = crc_new\<rparr>"

definition bw_flush :: "'d bdev \<Rightarrow> body_writer \<Rightarrow> ('d, body_writer) io" where
  "bw_flush D w =
     (let blocks = div_ceil (length (bw_stage w)) BLOCK in
      bindS (write_blocks D (bw_block w) (bw_stage w @ zeros (blocks * BLOCK - length (bw_stage w)))) (\<lambda>_.
        retS (w\<lparr>bw_block := bw_block w + blocks, bw_stage := []\<rparr>)))"

definition bw_full :: "'d bdev \<Rightarrow> body_writer \<Rightarrow> ('d, body_writer) io" where
  "bw_full D w = (if length (bw_stage w) = bw_window w then bw_flush D w else retS w)"

definition bw_push_header :: "'d bdev \<Rightarrow> bytes \<Rightarrow> body_writer \<Rightarrow> ('d, body_writer) io" where
  "bw_push_header D header w =
     bw_full D (w\<lparr>bw_digest := crc_update (bw_digest w) header, bw_stage := bw_stage w @ header\<rparr>)"

definition bw_push :: "'d bdev \<Rightarrow> entry \<Rightarrow> body_writer \<Rightarrow> ('d, body_writer) io" where
  "bw_push D e w =
     (let bs = entry_encode e in
      bw_full D (w\<lparr>bw_digest := crc_update (bw_digest w) bs, bw_stage := bw_stage w @ bs\<rparr>))"

definition bw_finish :: "'d bdev \<Rightarrow> body_writer \<Rightarrow> ('d, u32) io" where
  "bw_finish D w =
     bindS (if 0 < length (bw_stage w) then bw_flush D w else retS w) (\<lambda>w. retS (finalize (bw_digest w)))"

subsection \<open>Appending to a reservation\<close>

record reservation =
  rv_nonce :: u32
  rv_ranges :: ranges
  rv_reserved :: nat
  rv_written :: nat
  rv_staging :: bytes

text \<open>The append works on the device and the row it mutates; a failure leaves both as they are then.\<close>

definition on_dev :: "('d, 'a) io \<Rightarrow> ('d \<times> 'r, 'a) io" where
  "on_dev m s = (case m (fst s) of (r, d) \<Rightarrow> (r, d, snd s))"

definition set_row :: "('r \<Rightarrow> 'r) \<Rightarrow> ('d \<times> 'r, unit) io" where
  "set_row f s = (Inr (), fst s, f (snd s))"

text \<open>
  The loop of \<open>fill\<close>, one contiguous run or one partial block per pass. A pass over whole blocks
  advances by at least one block because a located run from a block boundary is never shorter than
  a block (\<open>Flat_Payload.fill_loop_spec\<close>), so as many passes as the input has bytes are enough; running out
  of them is \<open>None\<close>.
\<close>

fun fill_loop :: "nat \<Rightarrow> 'd bdev \<Rightarrow> geometry \<Rightarrow> bytes \<Rightarrow> ('d \<times> reservation, unit option) io" where
  "fill_loop fuel D g [] s = (Inr (Some ()), s)"
| "fill_loop 0 D g (v # vs) s = (Inr None, s)"
| "fill_loop (Suc fuel) D g (v # vs) s =
     (let input = v # vs; row = snd s; staged = rv_written row mod BLOCK in
      case locate (rv_ranges row) g (rv_written row - staged) of
        None \<Rightarrow> (Inl Invalid, s)
      | Some l \<Rightarrow>
          if staged = 0 \<and> length input \<ge> BLOCK
          then let n = whole_blocks l (length input) * BLOCK in
            bindS (on_dev (write_blocks D (loc_block l) (take n input))) (\<lambda>_.
            bindS (set_row (\<lambda>row. row\<lparr>rv_written := rv_written row + n\<rparr>)) (\<lambda>_.
              fill_loop fuel D g (drop n input))) s
          else let n = min (BLOCK - staged) (length input) in
            bindS (set_row (\<lambda>row. row\<lparr>rv_staging := put_bytes (rv_staging row) staged (take n input),
                rv_written := rv_written row + n\<rparr>)) (\<lambda>_.
            bindS (\<lambda>s. if rv_written (snd s) mod BLOCK = 0
                then on_dev (write_blocks D (loc_block l) (rv_staging (snd s))) s else (Inr (), s)) (\<lambda>_.
              fill_loop fuel D g (drop n input))) s)"

definition fill :: "'d bdev \<Rightarrow> geometry \<Rightarrow> bytes \<Rightarrow> ('d \<times> reservation, unit) io" where
  "fill D g input = bindS (fill_loop (length input) D g input)
     (\<lambda>r. case r of Some _ \<Rightarrow> retS () | None \<Rightarrow> failS Media)"

subsection \<open>Reading an object\<close>

lemma locate_loop_progress:
  "start \<le> off \<Longrightarrow> locate_loop g rs start off = Some l \<Longrightarrow> 0 < contiguous l \<and> loc_offset l < BLOCK"
  by (induction g rs start off rule: locate_loop.induct)
    (auto simp: Let_def BLOCK_def split: if_splits)

lemma locate_progress:
  assumes "locate rs g off = Some l"
  shows "0 < contiguous l" and "loc_offset l < BLOCK"
  using locate_loop_progress [of 0 off g rs l] assms by (simp_all add: locate_def)

text \<open>
  The loop of \<open>read_ranges\<close>: \<open>at\<close> bytes of the buffer are filled, and they are \<open>got\<close>.
\<close>

function read_loop :: "'d bdev \<Rightarrow> geometry \<Rightarrow> ranges \<Rightarrow> nat \<Rightarrow> nat \<Rightarrow> nat \<Rightarrow> bytes \<Rightarrow> ('d, bytes) io" where
  "read_loop D g rs off want at got =
     (if at < want
      then case locate rs g (off + at) of
          None \<Rightarrow> failS Invalid
        | Some l \<Rightarrow>
            let run = min (want - at) (contiguous l) in
            if loc_offset l = 0 \<and> run \<ge> BLOCK
            then bindS (read_blocks D (loc_block l) (run div BLOCK)) (\<lambda>bs.
              read_loop D g rs off want (at + run div BLOCK * BLOCK) (got @ bs))
            else let n = min (BLOCK - loc_offset l) run in
              bindS (read_blocks D (loc_block l) 1) (\<lambda>bs.
              read_loop D g rs off want (at + n) (got @ slice (loc_offset l) n bs))
      else retS got)"
  by pat_completeness auto
termination
proof (relation "measure (\<lambda>(D, g, rs, off, want, at, got). want - at)", goal_cases)
  case (2 D g rs off want at got l run)
  then have "0 < run div BLOCK" using div_greater_zero_iff [of run BLOCK] by (auto simp: BLOCK_def)
  then have "0 < run div BLOCK * BLOCK" by (simp add: BLOCK_def)
  then have "want - (at + run div BLOCK * BLOCK) < want - at" using 2(1) by linarith
  then show ?case by (simp only: in_measure prod.case)
next
  case (3 D g rs off want at got l run n)
  then have "0 < n" using locate_progress [of rs g "off + at" l] by simp
  then show ?case using 3(1) by simp
qed simp

definition read_ranges :: "'d bdev \<Rightarrow> geometry \<Rightarrow> ranges \<Rightarrow> nat \<Rightarrow> nat \<Rightarrow> nat \<Rightarrow> ('d, bytes) io" where
  "read_ranges D g rs len off buf_len =
     (if off \<ge> len then retS []
      else read_loop D g rs off (min buf_len (len - off)) 0 [])"

subsection \<open>The cursor returns the entries of the array\<close>

text \<open>The record of entry \<open>i\<close> of the array that starts at block \<open>base\<close>.\<close>

definition entry_at :: "(nat \<Rightarrow> bytes) \<Rightarrow> nat \<Rightarrow> nat \<Rightarrow> bytes" where
  "entry_at m base i = slice (i mod ENTRIES_PER_BLOCK * ENTRY_STRIDE) ENTRY_STRIDE (m (base + i div ENTRIES_PER_BLOCK))"

text \<open>The cached window holds the card's contents \<open>m\<close>.\<close>

definition cu_ok :: "(nat \<Rightarrow> bytes) \<Rightarrow> cursor \<Rightarrow> bool" where
  "cu_ok m cu \<longleftrightarrow> BLOCK \<le> length (cu_buf cu)
     \<and> (\<forall>first count. cu_cached cu = Some (first, count) \<longrightarrow> count \<le> length (cu_buf cu) div BLOCK
          \<and> take (count * BLOCK) (cu_buf cu) = concat (map m [cu_base cu + first..<cu_base cu + first + count]))"

lemma slice_blocks:
  assumes "\<And>b. length (m b) = BLOCK" and "k < n" and "off + w \<le> BLOCK"
  shows "slice (k * BLOCK + off) w (concat (map m [b..<b + n])) = slice off w (m (b + k))"
  using assms(2)
proof (induction n arbitrary: k b)
  case (Suc n)
  have "[b..<b + Suc n] = b # [Suc b..<Suc b + n]" by (simp add: upt_conv_Cons)
  then have cat: "concat (map m [b..<b + Suc n]) = m b @ concat (map m [Suc b..<Suc b + n])" by simp
  show ?case
  proof (cases k)
    case 0
    then show ?thesis using assms(1) [of b] assms(3) by (simp only: cat) (simp add: slice_append_left)
  next
    case (Suc j)
    have "Suc j * BLOCK + off = BLOCK + (j * BLOCK + off)" by simp
    then have "slice (k * BLOCK + off) w (concat (map m [b..<b + Suc n]))
        = slice (j * BLOCK + off) w (concat (map m [Suc b..<Suc b + n]))"
      using assms(1) [of b] by (simp only: cat Suc slice_append_right) simp
    also have "\<dots> = slice off w (m (Suc b + j))" using Suc Suc.prems by (intro Suc.IH) simp
    finally show ?thesis by (simp add: Suc)
  qed
qed simp

lemma length_blocks:
  "(\<And>b. length (m b) = BLOCK) \<Longrightarrow> length (concat (map m [b..<b + n])) = n * BLOCK"
  by (induction n) auto

lemma cu_ok_new [simp]: "BLOCK \<le> window \<Longrightarrow> cu_ok m (cursor_new copy ec n window)"
  by (simp add: cu_ok_def cursor_new_def)

context block_device
begin

text \<open>Reading a whole window, when the card's array is \<open>m\<close>.\<close>

lemma cursor_fill_spec:
  assumes good: "good d" and ok: "cu_ok m cu" and len: "\<And>b. length (m b) = BLOCK"
    and same: "alive d \<Longrightarrow> \<forall>b. cu_base cu \<le> b \<and> b < cu_base cu + cu_live cu \<longrightarrow> media d b = m b"
    and block: "block < cu_live cu" and run: "cursor_fill D cu block d = (r, d')"
  shows "confined W d d' \<and> (r = Inl Media \<or> (\<exists>count cu'. r = Inr (block, cu') \<and> cu_ok m cu' \<and> 0 < count
    \<and> cu' = cu\<lparr>cu_cached := Some (block, count), cu_buf := cu_buf cu'\<rparr>))"
proof -
  define count where "count = max 1 (min (length (cu_buf cu) div BLOCK) (cu_live cu - block))"
  have big: "1 \<le> length (cu_buf cu) div BLOCK"
    using ok by (simp add: cu_ok_def BLOCK_def Suc_le_eq div_greater_zero_iff)
  then have count: "0 < count" "count \<le> length (cu_buf cu) div BLOCK" "block + count \<le> cu_live cu"
    using block by (auto simp: count_def)
  obtain r1 d1 where rd: "read_blocks D (cu_base cu + block) count d = (r1, d1)" by fastforce
  note cases = read_blocks_cases [OF good rd]
  note run' = run [unfolded cursor_fill_def Let_def, folded count_def]
  have d': "d' = d1" using run' by (auto simp: bindS_def rd split: sum.splits)
  show ?thesis
  proof (cases r1)
    case (Inl e)
    then show ?thesis using cases run' read_confined [OF good rd] by (auto simp: bindS_def rd)
  next
    case (Inr bs)
    then have bs: "bs = concat (map (media d) [cu_base cu + block..<cu_base cu + block + count])" and "alive d"
      using cases by auto
    have eq: "map (media d) [cu_base cu + block..<cu_base cu + block + count]
        = map m [cu_base cu + block..<cu_base cu + block + count]"
      using same [OF \<open>alive d\<close>] count(3) by auto
    have lbs: "length bs = count * BLOCK" using length_blocks [of "media d"] media_len [OF good] by (simp add: bs)
    have fit: "count * BLOCK \<le> length (cu_buf cu)"
      using count(2) by (simp add: less_eq_div_iff_mult_less_eq BLOCK_def)
    define cu' where "cu' = cu\<lparr>cu_cached := Some (block, count), cu_buf := put_bytes (cu_buf cu) 0 bs\<rparr>"
    have r: "r = Inr (block, cu')"
      using run' by (simp add: bindS_def rd Inr cu'_def)
    have "take (count * BLOCK) (cu_buf cu') = concat (map m [cu_base cu + block..<cu_base cu + block + count])"
      using lbs bs eq by (simp add: cu'_def put_bytes_def)
    then have "cu_ok m cu'" using ok count fit lbs by (auto simp: cu_ok_def cu'_def)
    then show ?thesis using r count(1) d' read_confined [OF good rd] by (auto simp: cu'_def)
  qed
qed

lemma cursor_get_spec:
  assumes good: "good d" and ok: "cu_ok m cu" and len: "\<And>b. length (m b) = BLOCK"
    and same: "alive d \<Longrightarrow> \<forall>b. cu_base cu \<le> b \<and> b < cu_base cu + cu_live cu \<longrightarrow> media d b = m b"
    and i: "i div ENTRIES_PER_BLOCK < cu_live cu" and run: "cursor_get D cu i d = (r, d')"
  shows "confined W d d' \<and> (r = Inl Media
    \<or> r = Inl Invalid \<and> (\<exists>x. entry_decode (entry_at m (cu_base cu) i) (cu_extents cu) = Inl x)
    \<or> (\<exists>e cu'. r = Inr (e, cu') \<and> entry_decode (entry_at m (cu_base cu) i) (cu_extents cu) = Inr e \<and> cu_ok m cu'
        \<and> cu_base cu' = cu_base cu \<and> cu_extents cu' = cu_extents cu \<and> cu_live cu' = cu_live cu))"
proof -
  define block where "block = i div ENTRIES_PER_BLOCK"
  define off where "off = i mod ENTRIES_PER_BLOCK * ENTRY_STRIDE"
  have off: "off + ENTRY_STRIDE \<le> BLOCK"
    using mod_less_divisor [of 4 i] by (simp add: off_def fmt_consts del: mod_less_divisor)
  define look where "look = (case cu_cached cu of
      Some (first, count) \<Rightarrow>
        if first \<le> block \<and> block - first < count \<and> count \<le> length (cu_buf cu) div BLOCK
        then retS (first, cu) else cursor_fill D cu block
    | None \<Rightarrow> cursor_fill D cu block)"
  obtain r1 d1 where lk: "look d = (r1, d1)" by fastforce
  have look: "confined W d d1 \<and> (r1 = Inl Media \<or> (\<exists>first cu' count. r1 = Inr (first, cu') \<and> cu_ok m cu'
      \<and> cu_cached cu' = Some (first, count) \<and> first \<le> block \<and> block - first < count
      \<and> cu_base cu' = cu_base cu \<and> cu_extents cu' = cu_extents cu \<and> cu_live cu' = cu_live cu))"
  proof (cases "look = cursor_fill D cu block")
    case True
    have "confined W d d1 \<and> (r1 = Inl Media \<or> (\<exists>count cu'. r1 = Inr (block, cu') \<and> cu_ok m cu' \<and> 0 < count
        \<and> cu' = cu\<lparr>cu_cached := Some (block, count), cu_buf := cu_buf cu'\<rparr>))"
      by (rule cursor_fill_spec [OF good ok len same]) (use i lk True in \<open>simp_all add: block_def\<close>)
    then show ?thesis by (elim conjE disjE exE) (simp, (metis (no_types) cursor.select_convs cursor.surjective cursor.update_convs diff_self_eq_0 order_refl))
  next
    case False
    then obtain first count where c: "cu_cached cu = Some (first, count)" "first \<le> block" "block - first < count"
        "look = retS (first, cu)"
      by (auto simp: look_def split: option.splits if_splits)
    then show ?thesis using lk ok confined_refl [OF good] by auto
  qed
  have get: "cursor_get D cu i d = bindS look (\<lambda>(first, cu).
      bindS (liftE (map_errE (\<lambda>_. Invalid) (entry_decode (slice ((block - first) * BLOCK + off) ENTRY_STRIDE (cu_buf cu)) (cu_extents cu))))
        (\<lambda>e. retS (e, cu))) d"
    by (simp only: cursor_get_def Let_def look_def block_def off_def)
  from look consider "r1 = Inl Media" | first cu' count where "r1 = Inr (first, cu')" "cu_ok m cu'"
      "cu_cached cu' = Some (first, count)" "first \<le> block" "block - first < count"
      "cu_base cu' = cu_base cu" "cu_extents cu' = cu_extents cu" "cu_live cu' = cu_live cu"
    by blast
  then show ?thesis
  proof cases
    case 1
    then show ?thesis using run look by (simp add: get bindS_def lk)
  next
    case 2
    have w: "count \<le> length (cu_buf cu') div BLOCK"
        "take (count * BLOCK) (cu_buf cu') = concat (map m [cu_base cu' + first..<cu_base cu' + first + count])"
      using 2(2,3) by (auto simp: cu_ok_def)
    have "(block - first) * BLOCK + off + ENTRY_STRIDE \<le> (block - first + 1) * BLOCK" using off by simp
    also have "\<dots> \<le> count * BLOCK" using 2(5) by (intro mult_le_mono) simp_all
    finally have "slice ((block - first) * BLOCK + off) ENTRY_STRIDE (cu_buf cu')
        = slice ((block - first) * BLOCK + off) ENTRY_STRIDE (take (count * BLOCK) (cu_buf cu'))"
      by (simp add: slice_take)
    also have "\<dots> = slice off ENTRY_STRIDE (m (cu_base cu' + first + (block - first)))"
      unfolding w(2) by (rule slice_blocks [OF len 2(5) off])
    also have "\<dots> = entry_at m (cu_base cu) i" using 2(4,6) by (simp add: entry_at_def off_def block_def)
    finally have sl: "slice ((block - first) * BLOCK + off) ENTRY_STRIDE (cu_buf cu') = entry_at m (cu_base cu) i" .
    show ?thesis
    proof (cases "entry_decode (entry_at m (cu_base cu) i) (cu_extents cu)")
      case (Inl x)
      then show ?thesis using run look 2 by (simp add: get bindS_def lk sl)
    next
      case (Inr e)
      then show ?thesis using run look 2 by (auto simp: get bindS_def lk sl)
    qed
  qed
qed

end

subsection \<open>The body writer puts the whole body on the card\<close>

definition padded :: "bytes \<Rightarrow> bytes" where
  "padded bs = bs @ zeros (div_ceil (length bs) BLOCK * BLOCK - length bs)"

text \<open>The blocks from \<open>c\<close> on hold the whole blocks of \<open>bs\<close>.\<close>

definition holds_at :: "(nat \<Rightarrow> bytes) \<Rightarrow> nat \<Rightarrow> bytes \<Rightarrow> bool" where
  "holds_at m c bs \<longleftrightarrow> (\<forall>i < length bs div BLOCK. m (c + i) = chunk bs i)"

definition body_region :: "nat \<Rightarrow> nat \<Rightarrow> bool" where
  "body_region c b \<longleftrightarrow> c \<le> b \<and> b < c + ENTRY_BLOCKS"

lemma length_padded: "length (padded bs) = div_ceil (length bs) BLOCK * BLOCK"
  using le_div_ceil_mult [of BLOCK "length bs"] by (simp add: padded_def BLOCK_def)

lemma chunk_append_left: "(i + 1) * BLOCK \<le> length xs \<Longrightarrow> chunk (xs @ ys) i = chunk xs i"
  by (simp add: chunk_def slice_append_left add.commute)

lemma chunk_append_right: "length xs = k * BLOCK \<Longrightarrow> chunk (xs @ ys) (k + i) = chunk ys i"
proof -
  assume "length xs = k * BLOCK"
  then have "(k + i) * BLOCK = length xs + i * BLOCK" by (simp add: algebra_simps)
  then show ?thesis by (simp add: chunk_def slice_append_right)
qed

lemma div_ceil_add: "0 < b \<Longrightarrow> div_ceil (k * b + a) b = k + div_ceil a b"
proof -
  assume b: "0 < b"
  then have "k * b + a + b - 1 = a + b - 1 + k * b" by simp
  then have "div_ceil (k * b + a) b = (a + b - 1 + k * b) div b" by (simp only: div_ceil_def)
  also have "\<dots> = k + (a + b - 1) div b" using b by (simp only: div_mult_self1 less_numeral_extra(3) neq0_conv)
  finally show ?thesis by (simp add: div_ceil_def)
qed

lemma padded_append: "length xs = k * BLOCK \<Longrightarrow> padded (xs @ ys) = xs @ padded ys"
  using div_ceil_add [of BLOCK k "length ys"] by (simp add: padded_def BLOCK_def algebra_simps)

lemma padded_whole: "length xs = k * BLOCK \<Longrightarrow> padded xs = xs"
  using padded_append [of xs k "[]"] by (simp add: padded_def zeros_def BLOCK_def)

text \<open>A write right behind what is already there.\<close>

lemma holds_at_append:
  assumes "holds_at m c xs" and "length xs = k * BLOCK" and "length ys = n * BLOCK"
  shows "holds_at (patch m (c + k) ys) c (xs @ ys)"
  unfolding holds_at_def
proof (intro allI impI)
  fix i assume i: "i < length (xs @ ys) div BLOCK"
  have n: "length ys div BLOCK = n" "length xs div BLOCK = k" "length (xs @ ys) div BLOCK = k + n"
    by (simp_all only: assms(2,3) length_append add_mult_distrib [symmetric]) (simp_all add: BLOCK_def)
  show "patch m (c + k) ys (c + i) = chunk (xs @ ys) i"
  proof (cases "i < k")
    case True
    then have "(i + 1) * BLOCK \<le> length xs" unfolding assms(2) by (intro mult_le_mono) simp_all
    then show ?thesis using True assms(1) n(2) by (simp add: patch_def holds_at_def chunk_append_left)
  next
    case False
    then obtain j where j: "i = k + j" using le_Suc_ex by (metis not_le)
    then show ?thesis using i n chunk_append_right [OF assms(2), of ys j] by (simp add: patch_def)
  qed
qed

lemma touched_region:
  assumes "touched lba n b" and "c mod PAGE_BLOCKS = 0" and "c \<le> lba" and "lba + n \<le> c + ENTRY_BLOCKS"
  shows "body_region c b"
proof -
  obtain q where c: "c = 32 * q" using assms(2) by (auto simp: PAGE_BLOCKS_eq)
  have t: "0 < n" "lba div 32 \<le> b div 32" "b div 32 \<le> (lba + n - 1) div 32"
    using assms(1) by (simp_all add: touched_def PAGE_BLOCKS_eq)
  have "q \<le> lba div 32" using assms(3) by (simp add: c less_eq_div_iff_mult_less_eq)
  then have "q \<le> b div 32" using t(2) by simp
  then have lo: "32 * q \<le> b" by (simp add: less_eq_div_iff_mult_less_eq)
  have "lba + n - 1 < (q + 15) * 32" using assms(4) t(1) by (simp add: c ENTRY_BLOCKS_def)
  then have "(lba + n - 1) div 32 < q + 15" by (simp add: div_less_iff_less_mult)
  then have "b div 32 < q + 15" using t(3) by simp
  then have "b < (q + 15) * 32" by (simp add: div_less_iff_less_mult)
  then show ?thesis using lo by (simp add: body_region_def c ENTRY_BLOCKS_def)
qed

context block_device
begin

definition bw_inv :: "nat \<Rightarrow> bytes \<Rightarrow> body_writer \<Rightarrow> 'd \<Rightarrow> bool" where
  "bw_inv c p w d \<longleftrightarrow> c \<le> bw_block w \<and> bw_window w = STREAM_WINDOW \<and> bw_digest w = crc_update crc_new p
     \<and> length (bw_stage w) < STREAM_WINDOW \<and> ENTRY_STRIDE dvd length (bw_stage w)
     \<and> (\<exists>fl. p = fl @ bw_stage w \<and> length fl = (bw_block w - c) * BLOCK \<and> (alive d \<longrightarrow> holds_at (media d) c fl))"

lemma bw_inv_new: "bw_inv c [] (bw_new c STREAM_WINDOW) d"
  by (simp add: bw_inv_def bw_new_def holds_at_def STREAM_WINDOW_def fmt_consts)

lemma bw_inv_stable:
  assumes "bw_inv c p w d" and "confined (\<lambda>_. False) d d'"
  shows "bw_inv c p w d'"
proof -
  have "alive d' \<Longrightarrow> alive d \<and> media d' = media d" using assms(2) by (auto simp: confined_def fun_eq_iff)
  then show ?thesis using assms(1) by (auto simp: bw_inv_def)
qed

text \<open>Flushing a stage: its padded bytes follow what is on the card.\<close>

lemma bw_flush_spec:
  assumes good: "good d" and c: "c mod PAGE_BLOCKS = 0" "c \<le> bw_block w" and pos: "0 < length (bw_stage w)"
    and fl: "length fl = (bw_block w - c) * BLOCK" "alive d \<longrightarrow> holds_at (media d) c fl"
    and fit: "length (fl @ bw_stage w) \<le> ENTRY_BLOCKS * BLOCK" and run: "bw_flush D w d = (r, d')"
  shows "confined (body_region c) d d' \<and> (r = Inl Media \<or>
    r = Inr (w\<lparr>bw_block := bw_block w + div_ceil (length (bw_stage w)) BLOCK, bw_stage := []\<rparr>)
    \<and> (alive d' \<longrightarrow> holds_at (media d') c (fl @ padded (bw_stage w))))"
proof -
  define n where "n = div_ceil (length (bw_stage w)) BLOCK"
  have len: "length (padded (bw_stage w)) = n * BLOCK" by (simp add: length_padded n_def)
  obtain r1 d1 where wr: "write_blocks D (bw_block w) (padded (bw_stage w)) d = (r1, d1)" by fastforce
  note wc = write_blocks_cases [OF good len wr]
  have rr: "(r, d') = (case r1 of Inl e \<Rightarrow> Inl e | Inr _ \<Rightarrow> Inr (w\<lparr>bw_block := bw_block w + n, bw_stage := []\<rparr>), d1)"
    using run by (cases r1) (simp_all add: bw_flush_def Let_def bindS_def n_def padded_def [symmetric] wr)
  have "n \<le> ENTRY_BLOCKS - (bw_block w - c)"
    unfolding n_def using fit fl(1) by (subst div_ceil_le_iff) (simp_all add: BLOCK_def diff_mult_distrib)
  moreover have "bw_block w - c \<le> ENTRY_BLOCKS" using fit fl(1) by (simp add: BLOCK_def)
  ultimately have "bw_block w + n \<le> c + ENTRY_BLOCKS" using c(2) by linarith
  then have conf: "confined (body_region c) d d1"
    using confined_mono [OF write_confined [OF good len wr]] touched_region [OF _ c] by blast
  show ?thesis
  proof (cases r1)
    case (Inl e)
    then show ?thesis using rr conf wc by auto
  next
    case (Inr u)
    have "holds_at (media d1) c (fl @ padded (bw_stage w))" if "alive d1"
    proof -
      have "media d1 = patch (media d) (bw_block w) (padded (bw_stage w))" "alive d" using wc that Inr by auto
      then show ?thesis
        using holds_at_append [of "media d" c fl "bw_block w - c" "padded (bw_stage w)" n] fl len c(2) by simp
    qed
    then show ?thesis using rr conf Inr by (simp add: n_def)
  qed
qed

lemma bw_full_spec:
  assumes good: "good d" and inv: "bw_inv c p w d" and c: "c mod PAGE_BLOCKS = 0"
    and bs: "length (bw_stage w) + length bs \<le> STREAM_WINDOW" "ENTRY_STRIDE dvd length bs"
    and fit: "length (p @ bs) \<le> ENTRY_BLOCKS * BLOCK"
    and run: "bw_full D (w\<lparr>bw_digest := crc_update (bw_digest w) bs, bw_stage := bw_stage w @ bs\<rparr>) d = (r, d')"
  shows "confined (body_region c) d d' \<and> (r = Inl Media \<or> (\<exists>w'. r = Inr w' \<and> bw_inv c (p @ bs) w' d'))"
proof -
  define v where "v = w\<lparr>bw_digest := crc_update (bw_digest w) bs, bw_stage := bw_stage w @ bs\<rparr>"
  obtain fl where fl: "p = fl @ bw_stage w" "length fl = (bw_block w - c) * BLOCK" "alive d \<longrightarrow> holds_at (media d) c fl"
    and w: "c \<le> bw_block w" "bw_window w = STREAM_WINDOW" "bw_digest w = crc_update crc_new p"
      "ENTRY_STRIDE dvd length (bw_stage w)"
    using inv by (auto simp: bw_inv_def)
  have digest: "bw_digest v = crc_update crc_new (p @ bs)" by (simp add: v_def w(3) crc_update_append)
  show ?thesis
  proof (cases "length (bw_stage v) = STREAM_WINDOW")
    case False
    then have "r = Inr v" "d' = d" using run w(2) by (simp_all add: bw_full_def v_def)
    then show ?thesis
      using False bs fl w digest confined_refl [OF good] by (auto simp: bw_inv_def v_def)
  next
    case True
    then have flush: "bw_flush D v d = (r, d')" using run w(2) by (simp add: bw_full_def v_def)
    have blocks: "div_ceil (length (bw_stage v)) BLOCK = 8" unfolding True STREAM_WINDOW_def by (rule div_ceil_dvd) (simp add: BLOCK_def)
    then have pad: "padded (bw_stage v) = bw_stage v"
      unfolding padded_def by (simp add: True STREAM_WINDOW_def zeros_def)
    have "confined (body_region c) d d' \<and> (r = Inl Media \<or>
        r = Inr (v\<lparr>bw_block := bw_block v + div_ceil (length (bw_stage v)) BLOCK, bw_stage := []\<rparr>)
        \<and> (alive d' \<longrightarrow> holds_at (media d') c (fl @ padded (bw_stage v))))"
      by (rule bw_flush_spec [OF good c _ _ _ fl(3) _ flush])
        (use fl fit w True in \<open>auto simp: v_def STREAM_WINDOW_def BLOCK_def\<close>)
    then show ?thesis
      unfolding blocks pad
      using w fl True digest
      by (auto simp: bw_inv_def v_def STREAM_WINDOW_def fmt_consts algebra_simps)
  qed
qed

lemma bw_finish_spec:
  assumes good: "good d" and inv: "bw_inv c p w d" and c: "c mod PAGE_BLOCKS = 0"
    and fit: "length p \<le> ENTRY_BLOCKS * BLOCK" and run: "bw_finish D w d = (r, d')"
  shows "confined (body_region c) d d' \<and> (r = Inl Media \<or>
    r = Inr (crc32 p) \<and> (alive d' \<longrightarrow> holds_at (media d') c (padded p)))"
proof -
  obtain fl where fl: "p = fl @ bw_stage w" "length fl = (bw_block w - c) * BLOCK" "alive d \<longrightarrow> holds_at (media d) c fl"
    and w: "c \<le> bw_block w" "bw_digest w = crc_update crc_new p"
    using inv by (auto simp: bw_inv_def)
  have pad: "padded p = fl @ padded (bw_stage w)" using padded_append [OF fl(2)] fl(1) by simp
  have crc: "finalize (bw_digest w) = crc32 p" by (simp add: w(2) finalize_new_update)
  show ?thesis
  proof (cases "bw_stage w = []")
    case True
    then show ?thesis
      using run crc fl pad confined_refl [OF good] by (auto simp: bw_finish_def padded_def zeros_def)
  next
    case False
    obtain r1 d1 where f: "bw_flush D w d = (r1, d1)" by fastforce
    have spec: "confined (body_region c) d d1 \<and> (r1 = Inl Media \<or>
        r1 = Inr (w\<lparr>bw_block := bw_block w + div_ceil (length (bw_stage w)) BLOCK, bw_stage := []\<rparr>)
        \<and> (alive d1 \<longrightarrow> holds_at (media d1) c (fl @ padded (bw_stage w))))"
      by (rule bw_flush_spec [OF good c w(1) _ fl(2,3) _ f]) (use False fit fl in auto)
    then show ?thesis using run False crc pad by (auto simp: bw_finish_def bindS_def f)
  qed
qed

end

end
