(* ===== verification/Flat_Store.thy ===== *)
theory Flat_Store
  imports Flat_Bitmap Flat_Stream
begin

text \<open>
  The flat object store, from \<open>firmware/obc-storage/src/flat/store.rs\<close>: the resident state, the
  reservation and open-object tables, the catalog lookup and the merge of a batch, over an
  arbitrary block device. The ride journal is in \<open>Flat_Ride\<close>, mount and commit in \<open>Flat_Commit\<close>.

  Every operation is a function of the whole store state, the device included; an operation that
  fails returns the error and the state it left behind.
\<close>

definition MAX_BATCH :: nat where "MAX_BATCH = 4"
definition MAX_RESERVATIONS :: nat where "MAX_RESERVATIONS = 2"
definition MAX_OPEN_OBJECTS :: nat where "MAX_OPEN_OBJECTS = 5"

subsection \<open>The resident state\<close>

datatype mode =
    ReadWrite | RevisionSpaceExhausted | SequenceSpaceExhausted | CatalogUnreadable
  | RemountRequired | Unformatted | CardTooSmall

definition writable :: "mode \<Rightarrow> bool" where
  "writable m \<longleftrightarrow> m = ReadWrite"

definition readable :: "mode \<Rightarrow> bool" where
  "readable m \<longleftrightarrow> m = ReadWrite \<or> m = RevisionSpaceExhausted \<or> m = SequenceSpaceExhausted"

record handle =
  hd_slot :: nat
  hd_id :: object_id
  hd_revision :: revision

record block_run =
  start_block :: nat
  run_blocks :: nat

record ride_recovery =
  rr_id :: object_id
  rr_revision :: revision
  rr_sequence :: u64
  rr_flushed :: u64
  rr_tail_len :: u32
  rr_payload_crc :: u32
  rr_resume :: bytes
  rr_slot :: u16

definition recovery_payload_len :: "ride_recovery \<Rightarrow> u64" where
  "recovery_payload_len r = rr_flushed r + ucast (rr_tail_len r)"

record hold =
  ho_id :: object_id
  ho_revision :: revision
  ho_ranges :: ranges
  ho_payload_len :: u64
  ho_readers :: u16

text \<open>A sealed allocation names the store it came from by that store's address.\<close>

record sealed_allocation =
  se_allocation :: allocation
  se_ranges :: ranges
  se_mount :: nat

record ride_state =
  rs_id :: object_id
  rs_revision :: revision
  rs_ranges :: ranges
  rs_flushed :: u64
  rs_next_sequence :: u64
  rs_tail_len :: u32
  rs_payload_crc :: u32
  rs_resume :: bytes
  rs_pending_proof :: u64
  rs_pending_append_len :: u32
  rs_pending_append_crc :: u32

record served_state =
  sv_mode :: mode
  sv_copy :: nat
  sv_sequence :: u64
  sv_high_water :: u64
  sv_next_object :: u64
  sv_entry_count :: u16
  sv_body_crc :: u32

record 'd fstore =
  fs_dev :: 'd
  fs_addr :: nat
  fs_store :: store_id
  fs_geometry :: geometry
  fs_extents :: nat
  fs_served :: served_state
  fs_free :: free_map
  fs_holds :: "hold option list"
  fs_reservations :: "reservation option list"
  fs_nonce :: u32
  fs_ride :: "ride_state option"
  fs_recovered :: "ride_recovery option"
  fs_route_added_at :: u32

text \<open>\<open>blank\<close>: the struct literal before a block has been read.\<close>

definition blank :: "nat \<Rightarrow> 'd \<Rightarrow> 'd fstore" where
  "blank addr dev =
     \<lparr>fs_dev = dev, fs_addr = addr, fs_store = zeros 16, fs_geometry = DEFAULT_GEOMETRY, fs_extents = 0,
      fs_served = \<lparr>sv_mode = Unformatted, sv_copy = 0, sv_sequence = 0, sv_high_water = 0,
        sv_next_object = 0, sv_entry_count = 0, sv_body_crc = 0\<rparr>,
      fs_free = BLANK, fs_holds = replicate MAX_OPEN_OBJECTS None,
      fs_reservations = replicate MAX_RESERVATIONS None, fs_nonce = 0, fs_ride = None,
      fs_recovered = None, fs_route_added_at = 0\<rparr>"

abbreviation fs_mode :: "'d fstore \<Rightarrow> mode" where
  "fs_mode s \<equiv> sv_mode (fs_served s)"

text \<open>A card command of the store's device; a guard; a read of the state; an update of it.\<close>

definition devS :: "('d, 'a) io \<Rightarrow> ('d fstore, 'a) io" where
  "devS m s = (case m (fs_dev s) of (r, d) \<Rightarrow> (r, s\<lparr>fs_dev := d\<rparr>))"

definition guardS :: "bool \<Rightarrow> store_error \<Rightarrow> ('s, unit) io" where
  "guardS c e = (if c then retS () else failS e)"

definition getS :: "('s \<Rightarrow> ('s, 'a) io) \<Rightarrow> ('s, 'a) io" where
  "getS f s = f s s"

definition modS :: "('s \<Rightarrow> 's) \<Rightarrow> ('s, unit) io" where
  "modS f s = (Inr (), f s)"

subsection \<open>Reservations\<close>

definition row_of :: "reservation option list \<Rightarrow> allocation \<Rightarrow> reservation option" where
  "row_of rows a =
     (if al_slot a < length rows
      then case rows ! al_slot a of
          None \<Rightarrow> None
        | Some row \<Rightarrow>
            if rv_nonce row = al_nonce a \<and> rv_written row = al_written a \<and> rv_reserved row = al_reserved a
            then Some row else None
      else None)"

text \<open>\<open>iter().position(Option::is_none)\<close>.\<close>

fun free_slot :: "'a option list \<Rightarrow> nat option" where
  "free_slot [] = None"
| "free_slot (None # rows) = Some 0"
| "free_slot (Some x # rows) = map_option Suc (free_slot rows)"

definition allocate :: "nat \<Rightarrow> ('d fstore, allocation) io" where
  "allocate n s =
     (if \<not> writable (fs_mode s) then (Inl ReadOnly, s)
      else if n = 0 then (Inl Invalid, s)
      else let extents = extents_for (fs_geometry s) n in
      if fm_free (fs_free s) < extents then (Inl (NoSpace n), s)
      else case first_fit (fs_free s) extents of
        None \<Rightarrow> (Inl TooFragmented, s)
      | Some rs \<Rightarrow> (case free_slot (fs_reservations s) of
          None \<Rightarrow> (Inl Busy, s)
        | Some slot \<Rightarrow> (case fm_claim (fs_free s) rs of
            (fm, Inl _) \<Rightarrow> (Inl Invalid, s\<lparr>fs_free := fm\<rparr>)
          | (fm, Inr _) \<Rightarrow>
              let nonce = fs_nonce s + 1;
                  row = \<lparr>rv_nonce = nonce, rv_ranges = rs, rv_reserved = n, rv_written = 0,
                         rv_staging = zeros BLOCK\<rparr>
              in (Inr \<lparr>al_slot = slot, al_nonce = nonce, al_reserved = n, al_written = 0\<rparr>,
                  s\<lparr>fs_free := fm, fs_nonce := nonce,
                    fs_reservations := (fs_reservations s)[slot := Some row]\<rparr>))))"

text \<open>\<open>write\<close> returns the caller's token with its cursor advanced.\<close>

definition store_write :: "'d bdev \<Rightarrow> allocation \<Rightarrow> bytes \<Rightarrow> ('d fstore, allocation) io" where
  "store_write D a bs s =
     (if \<not> writable (fs_mode s) then (Inl ReadOnly, s)
      else case row_of (fs_reservations s) a of
        None \<Rightarrow> (Inl Invalid, s)
      | Some row \<Rightarrow>
          if al_written a + length bs > al_reserved a then (Inl Invalid, s)
          else case fill D (fs_geometry s) bs (fs_dev s, row) of
            (r, d, row') \<Rightarrow>
              let keep = (\<lambda>row. s\<lparr>fs_dev := d, fs_reservations := (fs_reservations s)[al_slot a := Some row]\<rparr>) in
              (case r of
                 Inl e \<Rightarrow> (Inl e, keep (row'\<lparr>rv_written := rv_written row\<rparr>))
               | Inr _ \<Rightarrow> (Inr (a\<lparr>al_written := rv_written row'\<rparr>), keep row')))"

text \<open>The loop of \<open>patch_allocation\<close>: \<open>at\<close> the payload offset of the bytes still to place.\<close>

function patch_loop :: "'d bdev \<Rightarrow> geometry \<Rightarrow> nat \<Rightarrow> bytes \<Rightarrow> ('d \<times> reservation, unit) io" where
  "patch_loop D g at bs s =
     (if bs = [] then (Inr (), s)
      else let row = snd s; partial = rv_written row mod BLOCK; staged_at = rv_written row - partial;
               within = at mod BLOCK; block_at = at - within; n = min (BLOCK - within) (length bs) in
      if partial \<noteq> 0 \<and> block_at = staged_at
      then patch_loop D g (at + n) (drop n bs)
        (fst s, row\<lparr>rv_staging := put_bytes (rv_staging row) within (take n bs)\<rparr>)
      else case locate (rv_ranges row) g block_at of
        None \<Rightarrow> (Inl Invalid, s)
      | Some l \<Rightarrow> (case read_blocks D (loc_block l) 1 (fst s) of
          (Inl e, d) \<Rightarrow> (Inl e, d, row)
        | (Inr old, d) \<Rightarrow> (case write_blocks D (loc_block l) (put_bytes old within (take n bs)) d of
            (Inl e, d') \<Rightarrow> (Inl e, d', row)
          | (Inr _, d') \<Rightarrow> patch_loop D g (at + n) (drop n bs) (d', row))))"
  by pat_completeness auto
termination
proof (relation "measure (\<lambda>(D, g, at, bs, s). length bs)", goal_cases)
  case 1
  show ?case by simp
qed (auto simp: BLOCK_def)

definition patch_allocation :: "'d bdev \<Rightarrow> allocation \<Rightarrow> nat \<Rightarrow> bytes \<Rightarrow> ('d fstore, unit) io" where
  "patch_allocation D a off bs s =
     (if \<not> writable (fs_mode s) then (Inl ReadOnly, s)
      else case checked_add 64 off (length bs) of
        None \<Rightarrow> (Inl Invalid, s)
      | Some stop \<Rightarrow>
          if stop > al_written a then (Inl Invalid, s)
          else case row_of (fs_reservations s) a of
            None \<Rightarrow> (Inl Invalid, s)
          | Some row \<Rightarrow> (case patch_loop D (fs_geometry s) off bs (fs_dev s, row) of
              (r, d, row') \<Rightarrow>
                (r, s\<lparr>fs_dev := d, fs_reservations := (fs_reservations s)[al_slot a := Some row']\<rparr>)))"

text \<open>The final partial block of a row, padded and written; shared by \<open>seal\<close> and \<open>commit\<close>.\<close>

definition flush_partial :: "'d bdev \<Rightarrow> geometry \<Rightarrow> ('d \<times> reservation, unit) io" where
  "flush_partial D g s =
     (let row = snd s; partial = rv_written row mod BLOCK in
      if partial = 0 then (Inr (), s)
      else case locate (rv_ranges row) g (rv_written row - partial) of
        None \<Rightarrow> (Inl Invalid, s)
      | Some l \<Rightarrow>
          let row' = row\<lparr>rv_staging := put_bytes (rv_staging row) partial (zeros (BLOCK - partial))\<rparr> in
          (case write_blocks D (loc_block l) (rv_staging row') (fst s) of (r, d) \<Rightarrow> (r, d, row')))"

definition seal :: "'d bdev \<Rightarrow> allocation \<Rightarrow> ('d fstore, sealed_allocation) io" where
  "seal D a s =
     (if \<not> writable (fs_mode s) then (Inl ReadOnly, s)
      else case row_of (fs_reservations s) a of
        None \<Rightarrow> (Inl Invalid, s)
      | Some row \<Rightarrow> (case flush_partial D (fs_geometry s) (fs_dev s, row) of
          (Inl e, d, row') \<Rightarrow>
            (Inl e, s\<lparr>fs_dev := d, fs_reservations := (fs_reservations s)[al_slot a := Some row']\<rparr>)
        | (Inr _, d, row') \<Rightarrow>
            let nonce = fs_nonce s + 1 in
            (Inr \<lparr>se_allocation = a\<lparr>al_nonce := nonce\<rparr>, se_ranges = rv_ranges row', se_mount = fs_addr s\<rparr>,
             s\<lparr>fs_dev := d, fs_nonce := nonce,
               fs_reservations := (fs_reservations s)[al_slot a := Some (row'\<lparr>rv_nonce := nonce\<rparr>)]\<rparr>)))"

definition cancel :: "allocation \<Rightarrow> 'd fstore \<Rightarrow> 'd fstore" where
  "cancel a s =
     (if fs_mode s = RemountRequired then s
      else case row_of (fs_reservations s) a of
        None \<Rightarrow> s
      | Some row \<Rightarrow> s\<lparr>fs_reservations := (fs_reservations s)[al_slot a := None],
                     fs_free := fm_release (fs_free s) (rv_ranges row)\<rparr>)"

text \<open>\<open>release_sealed\<close> hands the capability back when it names another store.\<close>

definition release_sealed :: "sealed_allocation \<Rightarrow> 'd fstore \<Rightarrow> (sealed_allocation + unit) \<times> 'd fstore" where
  "release_sealed se s =
     (if se_mount se \<noteq> fs_addr s then (Inl se, s) else (Inr (), cancel (se_allocation se) s))"

definition read_sealed :: "'d bdev \<Rightarrow> sealed_allocation \<Rightarrow> nat \<Rightarrow> nat \<Rightarrow> ('d fstore, bytes) io" where
  "read_sealed D se off buf_len s =
     (if se_mount se \<noteq> fs_addr s then (Inl Invalid, s)
      else devS (read_ranges D (fs_geometry s) (se_ranges se) (al_written (se_allocation se)) off buf_len) s)"

text \<open>The loop of \<open>allocation_crc\<close>, over the flushed part.\<close>

function crc_loop :: "'d bdev \<Rightarrow> geometry \<Rightarrow> ranges \<Rightarrow> nat \<Rightarrow> nat \<Rightarrow> crc32_hasher \<Rightarrow> ('d, crc32_hasher) io" where
  "crc_loop D g rs flushed at h =
     (if at < flushed
      then case locate rs g at of
          None \<Rightarrow> failS Invalid
        | Some l \<Rightarrow>
            let n = min (min (flushed - at) (contiguous l)) STREAM_WINDOW in
            bindS (read_blocks D (loc_block l) (n div BLOCK)) (\<lambda>bs.
              crc_loop D g rs flushed (at + n) (crc_update h bs))
      else retS h)"
  by pat_completeness auto
termination
proof (relation "measure (\<lambda>(D, g, rs, flushed, at, h). flushed - at)", goal_cases)
  case (2 D g rs flushed at h l n)
  then have "0 < n" using locate_progress [of rs g at l] by (simp add: STREAM_WINDOW_def BLOCK_def)
  then show ?case using 2(1) by simp
qed simp

definition allocation_crc :: "'d bdev \<Rightarrow> allocation \<Rightarrow> ('d fstore, u32) io" where
  "allocation_crc D a s =
     (case row_of (fs_reservations s) a of
        None \<Rightarrow> (Inl Invalid, s)
      | Some row \<Rightarrow>
          let partial = rv_written row mod BLOCK in
          bindS (devS (crc_loop D (fs_geometry s) (rv_ranges row) (rv_written row - partial) 0 crc_new))
            (\<lambda>h. retS (finalize (crc_update h (take partial (rv_staging row))))) s)"

subsection \<open>Catalog lookup\<close>

text \<open>The binary search of \<open>find\<close>: the first index whose object is not below \<open>i\<close>.\<close>

function find_low :: "'d bdev \<Rightarrow> object_id \<Rightarrow> cursor \<Rightarrow> nat \<Rightarrow> nat \<Rightarrow> ('d, nat \<times> cursor) io" where
  "find_low D i cu low high =
     (if low < high
      then let mid = low + (high - low) div 2 in
        bindS (cursor_get D cu mid) (\<lambda>(e, cu).
          if obj (e_meta e) < i then find_low D i cu (mid + 1) high else find_low D i cu low mid)
      else retS (low, cu))"
  by pat_completeness auto
termination by (relation "measure (\<lambda>(D, i, cu, low, high). high - low)") auto

text \<open>The entries of the object from there on, at most two.\<close>

fun find_scan :: "'d bdev \<Rightarrow> object_id \<Rightarrow> cursor \<Rightarrow> nat list \<Rightarrow> entry option \<times> entry option
    \<Rightarrow> ('d, entry option \<times> entry option) io" where
  "find_scan D i cu [] found = retS found"
| "find_scan D i cu (k # ks) found =
     bindS (cursor_get D cu k) (\<lambda>(e, cu).
       if obj (e_meta e) \<noteq> i then retS found
       else find_scan D i cu ks (if retained e then (Some e, snd found) else (fst found, Some e)))"

definition store_find :: "'d bdev \<Rightarrow> object_id \<Rightarrow> ('d fstore, entry option \<times> entry option) io" where
  "store_find D i = getS (\<lambda>s.
     let sv = fs_served s; n = unat (sv_entry_count sv) in
     devS (bindS (find_low D i (cursor_new (sv_copy sv) (fs_extents s) (sv_entry_count sv) BLOCK) 0 n) (\<lambda>(low, cu).
       find_scan D i cu [low..<min n (min (low + 2) 65535)] (None, None))))"

text \<open>\<open>[retained, head].into_iter().flatten().find(..)\<close>.\<close>

definition pick :: "revision \<Rightarrow> entry option \<times> entry option \<Rightarrow> entry option" where
  "pick r found = find (\<lambda>e. rev (e_meta e) = r)
     ((case fst found of None \<Rightarrow> [] | Some e \<Rightarrow> [e]) @ (case snd found of None \<Rightarrow> [] | Some e \<Rightarrow> [e]))"

definition current_revision :: "'d bdev \<Rightarrow> object_id \<Rightarrow> ('d fstore, revision option) io" where
  "current_revision D i = getS (\<lambda>s.
     bindS (guardS (readable (fs_mode s)) ReadOnly) (\<lambda>_.
     bindS (store_find D i) (\<lambda>found.
       retS (case snd found of
           Some e \<Rightarrow> if flags (e_meta e) = FLAGS_NONE \<or> kind (e_meta e) = Route \<and> is_route_head (flags (e_meta e))
             then Some (rev (e_meta e)) else None
         | None \<Rightarrow> None))))"

definition block_runs :: "'d bdev \<Rightarrow> object_id \<Rightarrow> revision \<Rightarrow> ('d fstore, block_run list) io" where
  "block_runs D i r = getS (\<lambda>s.
     bindS (guardS (readable (fs_mode s)) ReadOnly) (\<lambda>_.
     bindS (store_find D i) (\<lambda>found.
     bindS (liftE (ok_or (pick r found) NotFound)) (\<lambda>e.
       let n = extent_blocks (fs_geometry s) in
       retS (map (\<lambda>(f, c). \<lparr>start_block = EXTENT_AREA + n * unat f, run_blocks = n * unat c\<rparr>) (e_ranges e))))))"

subsection \<open>Open objects\<close>

definition holds_key :: "object_id \<times> revision \<Rightarrow> hold option \<Rightarrow> bool" where
  "holds_key key h = (case h of None \<Rightarrow> False | Some h \<Rightarrow> (ho_id h, ho_revision h) = key)"

fun position :: "('a \<Rightarrow> bool) \<Rightarrow> 'a list \<Rightarrow> nat option" where
  "position p [] = None"
| "position p (x # xs) = (if p x then Some 0 else map_option Suc (position p xs))"

definition take_hold :: "entry \<Rightarrow> ('d fstore, handle) io" where
  "take_hold e s =
     (let m = e_meta e; key = meta_key m;
          hdl = (\<lambda>slot. \<lparr>hd_slot = slot, hd_id = obj m, hd_revision = rev m\<rparr>) in
      case position (holds_key key) (fs_holds s) of
        Some slot \<Rightarrow>
          (case fs_holds s ! slot of
             Some h \<Rightarrow> (Inr (hdl slot), s\<lparr>fs_holds := (fs_holds s)[slot :=
                Some (h\<lparr>ho_readers := ho_readers h + 1, ho_payload_len := max (ho_payload_len h) (payload_len m)\<rparr>)]\<rparr>)
           | None \<Rightarrow> (Inl Busy, s))
      | None \<Rightarrow>
          (case free_slot (fs_holds s) of
             None \<Rightarrow> (Inl Busy, s)
           | Some slot \<Rightarrow> (Inr (hdl slot), s\<lparr>fs_holds := (fs_holds s)[slot :=
                Some \<lparr>ho_id = obj m, ho_revision = rev m, ho_ranges = e_ranges e,
                      ho_payload_len = payload_len m, ho_readers = 1\<rparr>]\<rparr>)))"

definition object_open :: "'d bdev \<Rightarrow> object_id \<Rightarrow> revision option \<Rightarrow> ('d fstore, handle) io" where
  "object_open D i r = getS (\<lambda>s.
     bindS (guardS (readable (fs_mode s)) ReadOnly) (\<lambda>_.
     bindS (store_find D i) (\<lambda>found.
     bindS (liftE (ok_or (case r of None \<Rightarrow> snd found | Some r \<Rightarrow> pick r found) NotFound)) (\<lambda>e.
     bindS (guardS (\<not> has_flag (flags (e_meta e)) RESERVED) Invalid) (\<lambda>_. take_hold e)))))"

text \<open>The row a handle names, if it is still its own; a handle's slot is always a row of the table.\<close>

definition hold_of :: "'d fstore \<Rightarrow> handle \<Rightarrow> hold option" where
  "hold_of s h =
     (if hd_slot h < length (fs_holds s) \<and> holds_key (hd_id h, hd_revision h) (fs_holds s ! hd_slot h)
      then fs_holds s ! hd_slot h else None)"

definition object_read :: "'d bdev \<Rightarrow> handle \<Rightarrow> nat \<Rightarrow> nat \<Rightarrow> ('d fstore, bytes) io" where
  "object_read D h off buf_len = getS (\<lambda>s.
     bindS (liftE (ok_or (hold_of s h) Invalid)) (\<lambda>ho.
       devS (read_ranges D (fs_geometry s) (ho_ranges ho) (unat (ho_payload_len ho)) off buf_len)))"

definition handle_len :: "'d fstore \<Rightarrow> handle \<Rightarrow> u64 option" where
  "handle_len s h = map_option ho_payload_len (hold_of s h)"

definition has_open_capacity :: "'d fstore \<Rightarrow> bool" where
  "has_open_capacity s \<longleftrightarrow> list_ex (\<lambda>h. h = None) (fs_holds s)"

text \<open>Gives back the extents of a closed row that the catalog entry does not name.\<close>

definition release_unnamed :: "ranges \<Rightarrow> entry option \<Rightarrow> free_map \<Rightarrow> free_map" where
  "release_unnamed rs live fm =
     fold (\<lambda>e fm. if (case live of None \<Rightarrow> False | Some x \<Rightarrow> ranges_names (e_ranges x) (of_nat e)) then fm
                  else release_one fm e) (concat (map (\<lambda>(f, c). [unat f..<unat f + unat c]) rs)) fm"

definition object_close :: "'d bdev \<Rightarrow> handle \<Rightarrow> 'd fstore \<Rightarrow> 'd fstore" where
  "object_close D h s =
     (case hold_of s h of
        None \<Rightarrow> s
      | Some ho \<Rightarrow>
          if ho_readers ho > 1
          then s\<lparr>fs_holds := (fs_holds s)[hd_slot h := Some (ho\<lparr>ho_readers := ho_readers ho - 1\<rparr>)]\<rparr>
          else let s1 = s\<lparr>fs_holds := (fs_holds s)[hd_slot h := None]\<rparr> in
          if fs_mode s1 = RemountRequired then s1
          else (case store_find D (ho_id ho) s1 of
                  (Inl _, s2) \<Rightarrow> s2
                | (Inr found, s2) \<Rightarrow>
                    s2\<lparr>fs_free := release_unnamed (ho_ranges ho) (pick (ho_revision ho) found) (fs_free s2)\<rparr>))"

subsection \<open>Listing\<close>

record entries_iter =
  it_cursor :: cursor
  it_index :: nat
  it_count :: nat
  it_sequence :: u64
  it_finished :: bool

definition entries :: "'d fstore \<Rightarrow> entries_iter" where
  "entries s =
     (let sv = fs_served s in
      \<lparr>it_cursor = cursor_new (sv_copy sv) (fs_extents s) (sv_entry_count sv) BLOCK, it_index = 0,
       it_count = unat (sv_entry_count sv), it_sequence = sv_sequence sv, it_finished = False\<rparr>)"

text \<open>\<open>Entries::next\<close>: the item, the iterator after it and the store after the card command.\<close>

definition entries_next :: "'d bdev \<Rightarrow> entries_iter \<Rightarrow> 'd fstore
    \<Rightarrow> (store_error + entry_meta) option \<times> entries_iter \<times> 'd fstore" where
  "entries_next D it s =
     (if it_finished it then (None, it, s)
      else if \<not> readable (fs_mode s) \<or> sv_sequence (fs_served s) \<noteq> it_sequence it
      then (Some (Inl Media), it\<lparr>it_finished := True\<rparr>, s)
      else if it_index it \<ge> it_count it then (None, it\<lparr>it_finished := True\<rparr>, s)
      else case devS (cursor_get D (it_cursor it) (it_index it)) s of
          (Inr (e, cu), s') \<Rightarrow> (Some (Inr (e_meta e)), it\<lparr>it_index := it_index it + 1, it_cursor := cu\<rparr>, s')
        | (Inl _, s') \<Rightarrow> (Some (Inl Media), it\<lparr>it_finished := True\<rparr>, s'))"

subsection \<open>Resolving a mutation\<close>

record resolved =
  r_key :: "object_id \<times> revision"
  r_entry :: "entry option"
  r_creates :: bool
  r_freed :: ranges
  r_reservation :: "nat option"

text \<open>The entry cut back to the extents its payload needs, and the ranges it gives up.\<close>

definition trimmed :: "geometry \<Rightarrow> entry \<Rightarrow> entry \<times> ranges" where
  "trimmed g e =
     (if holds_slack (flags (e_meta e)) then (e, [])
      else case trim_to (e_ranges e) (extents_for g (unat (payload_len (e_meta e))) mod 2 ^ 32) of
        (kept, freed) \<Rightarrow> (e\<lparr>e_ranges := kept\<rparr>, freed))"

definition resolve_amend :: "geometry \<Rightarrow> entry_meta \<Rightarrow> entry option \<Rightarrow> store_error + resolved" where
  "resolve_amend g m existing =
     bindE (ok_or existing NotFound) (\<lambda>old.
     if kind m \<noteq> kind (e_meta old)
        \<or> has_flag (flags m) ASSISTANT_ACCEPTED
          \<and> (payload_len m \<noteq> payload_len (e_meta old) \<or> payload_crc m \<noteq> payload_crc (e_meta old))
     then Inl Invalid
     else case trimmed g \<lparr>e_meta = m\<lparr>added_at_utc := added_at_utc (e_meta old)\<rparr>, e_ranges = e_ranges old\<rparr> of
       (e, freed) \<Rightarrow>
         if e_ranges e = [] then Inl Invalid
         else Inr \<lparr>r_key = meta_key m, r_entry = Some e, r_creates = False, r_freed = freed,
                   r_reservation = None\<rparr>)"

definition resolve_fresh :: "'d fstore \<Rightarrow> entry_meta \<Rightarrow> allocation \<Rightarrow> entry option \<times> entry option
    \<Rightarrow> store_error + resolved" where
  "resolve_fresh s m a found =
     (if has_flag (flags m) ASSISTANT_ACCEPTED then Inl Invalid
      else if fst found = None \<and> snd found = None \<and> obj m < sv_next_object (fs_served s) then Inl Invalid
      else if rev m \<noteq> (case snd found of None \<Rightarrow> 1 | Some h \<Rightarrow> rev (e_meta h) + 1)
      then Inl (RevisionConflict (case snd found of None \<Rightarrow> 0 | Some h \<Rightarrow> rev (e_meta h)))
      else if (case snd found of None \<Rightarrow> False | Some h \<Rightarrow> kind (e_meta h) \<noteq> kind m) then Inl Invalid
      else bindE (ok_or (row_of (fs_reservations s) a) Invalid) (\<lambda>row.
      if \<not> holds_slack (flags m) \<and> unat (payload_len m) \<noteq> rv_written row then Inl Invalid
      else let m' = (if kind m = Route \<and> \<not> has_flag (flags m) RETAINED \<and> added_at_utc m = 0
                     then m\<lparr>added_at_utc := fs_route_added_at s\<rparr> else m) in
        case trimmed (fs_geometry s) \<lparr>e_meta = m', e_ranges = rv_ranges row\<rparr> of
        (e, freed) \<Rightarrow>
          if e_ranges e = [] then Inl Invalid
          else Inr \<lparr>r_key = meta_key m, r_entry = Some e, r_creates = True, r_freed = freed,
                    r_reservation = Some (al_slot a)\<rparr>))"

fun resolve :: "'d bdev \<Rightarrow> mutation \<Rightarrow> ('d fstore, resolved) io" where
  "resolve D (Remove i r) =
     bindS (store_find D i) (\<lambda>found.
     bindS (liftE (ok_or (pick r found) NotFound)) (\<lambda>old.
       retS \<lparr>r_key = (i, r), r_entry = None, r_creates = False, r_freed = e_ranges old, r_reservation = None\<rparr>))"
| "resolve D (Put m src) =
     (if obj m = 0 \<or> rev m = 0 then failS Invalid
      else if rev m = - 1 \<or> obj m = - 1 then failS ReadOnly
      else bindS (store_find D (obj m)) (\<lambda>found.
        case src of
          Amend \<Rightarrow> getS (\<lambda>s. liftE (resolve_amend (fs_geometry s) m (pick (rev m) found)))
        | Fresh a \<Rightarrow> getS (\<lambda>s. liftE (resolve_fresh s m a found))))"

definition release :: "resolved list \<Rightarrow> 'd fstore \<Rightarrow> 'd fstore" where
  "release plan s =
     s\<lparr>fs_free := fold (\<lambda>r fm. if list_ex (holds_key (r_key r)) (fs_holds s) then fm
                                else fm_release fm (r_freed r)) plan (fs_free s)\<rparr>"

subsection \<open>Merging a batch\<close>

text \<open>The batch in key order. The keys of a batch are distinct, so the order is the only one.\<close>

definition key_nat :: "object_id \<times> revision \<Rightarrow> nat" where
  "key_nat k = unat (fst k) * 2 ^ 64 + unat (snd k)"

definition batch_order :: "resolved list \<Rightarrow> resolved list" where
  "batch_order plan = sort_key (\<lambda>r. key_nat (r_key r)) plan"

text \<open>
  The \<open>emit\<close> closure of a pass, with the state \<open>'x\<close> it captures: the structure check of the first
  pass, the body writer of the second. \<open>written\<close> counts the entries emitted.
\<close>

type_synonym ('d, 'x) emit = "entry \<Rightarrow> 'x \<Rightarrow> ('d, 'x) io"

definition emit_opt :: "('d, 'x) emit \<Rightarrow> entry option \<Rightarrow> 'x \<times> nat \<Rightarrow> ('d, 'x \<times> nat) io" where
  "emit_opt emit oe xw = (case oe of
     None \<Rightarrow> retS xw
   | Some e \<Rightarrow> bindS (emit e (fst xw)) (\<lambda>x. retS (x, snd xw + 1)))"

text \<open>The batch entries whose keys come before \<open>key\<close>.\<close>

fun merge_before :: "('d, 'x) emit \<Rightarrow> object_id \<times> revision \<Rightarrow> resolved list \<Rightarrow> 'x \<times> nat
    \<Rightarrow> ('d, resolved list \<times> 'x \<times> nat) io" where
  "merge_before emit key [] xw = retS ([], xw)"
| "merge_before emit key (r # rs) xw =
     (if key_less (r_key r) key
      then bindS (emit_opt emit (r_entry r) xw) (\<lambda>xw. merge_before emit key rs xw)
      else retS (r # rs, xw))"

fun merge_rest :: "('d, 'x) emit \<Rightarrow> resolved list \<Rightarrow> 'x \<times> nat \<Rightarrow> ('d, 'x \<times> nat) io" where
  "merge_rest emit [] xw = retS xw"
| "merge_rest emit (r # rs) xw = bindS (emit_opt emit (r_entry r) xw) (\<lambda>xw. merge_rest emit rs xw)"

text \<open>One entry of the array: the batch entries before it, then its replacement or itself.\<close>

definition merge_entry :: "('d, 'x) emit \<Rightarrow> entry \<Rightarrow> resolved list \<Rightarrow> 'x \<times> nat \<Rightarrow> ('d, resolved list \<times> 'x \<times> nat) io" where
  "merge_entry emit e rs xw =
     bindS (merge_before emit (ek e) rs xw) (\<lambda>(rs, xw).
       case rs of
         r # rest \<Rightarrow>
           if r_key r = ek e then bindS (emit_opt emit (r_entry r) xw) (\<lambda>xw. retS (rest, xw))
           else bindS (emit_opt emit (Some e) xw) (\<lambda>xw. retS (rs, xw))
       | [] \<Rightarrow> bindS (emit_opt emit (Some e) xw) (\<lambda>xw. retS (rs, xw)))"

fun merge_loop :: "'d bdev \<Rightarrow> ('d, 'x) emit \<Rightarrow> nat list \<Rightarrow> cursor \<Rightarrow> resolved list \<Rightarrow> 'x \<times> nat
    \<Rightarrow> ('d, cursor \<times> 'x \<times> nat) io" where
  "merge_loop D emit [] cu rs xw = bindS (merge_rest emit rs xw) (\<lambda>xw. retS (cu, xw))"
| "merge_loop D emit (i # is) cu rs xw =
     bindS (cursor_get D cu i) (\<lambda>(e, cu).
     bindS (merge_entry emit e rs xw) (\<lambda>(rs, xw). merge_loop D emit is cu rs xw))"

definition store_merge :: "'d bdev \<Rightarrow> ('d, 'x) emit \<Rightarrow> nat \<Rightarrow> cursor \<Rightarrow> resolved list \<Rightarrow> 'x
    \<Rightarrow> ('d, cursor \<times> 'x \<times> nat) io" where
  "store_merge D emit entry_count cu plan x =
     merge_loop D emit [0..<entry_count] cu (batch_order plan) (x, 0)"

end
