(* ===== verification/Flat_Ride.thy ===== *)
theory Flat_Ride
  imports Flat_Store
begin

text \<open>
  The ride journal of \<open>firmware/obc-storage/src/flat/store.rs\<close>: checkpoints and page rollovers,
  recovery of a recording ride at mount, the flush of its tail when a commit finalises it, and the
  resident ride state after a commit.
\<close>

definition CHUNK :: nat where "CHUNK = 8"

subsection \<open>Slots on the card\<close>

text \<open>\<open>slot_intact\<close>: the slot CRC over the header and the tail, read in chunks of eight blocks.\<close>

fun intact_loop :: "'d bdev \<Rightarrow> nat \<Rightarrow> nat list \<Rightarrow> crc32_hasher \<Rightarrow> ('d, crc32_hasher) io" where
  "intact_loop D base [] h = retS h"
| "intact_loop D base (at # ats) h =
     bindS (read_blocks D (base + at) CHUNK) (\<lambda>bs. intact_loop D base ats (crc_update h bs))"

definition slot_intact :: "'d bdev \<Rightarrow> store_id \<Rightarrow> jslot \<Rightarrow> 'd \<Rightarrow> bool \<times> 'd" where
  "slot_intact D store slot d =
     (case intact_loop D (slot_block (unat (sl_slot slot))) [0, 8, 16, 24] (header_digest (header_bytes slot store)) d of
        (Inl _, d') \<Rightarrow> (False, d')
      | (Inr h, d') \<Rightarrow> (finalize h = sl_crc slot, d'))"

text \<open>The two passes of \<open>repair_rollover\<close>: compare the proof with the payload page, then copy it.\<close>

fun repair_compare :: "'d bdev \<Rightarrow> nat \<Rightarrow> nat \<Rightarrow> nat list \<Rightarrow> bool \<Rightarrow> ('d, bool) io" where
  "repair_compare D from to [] differs = retS differs"
| "repair_compare D from to (b # bs) differs =
     bindS (read_blocks D (from + b) 1) (\<lambda>x.
     bindS (read_blocks D (to + b) 1) (\<lambda>y. repair_compare D from to bs (differs \<or> x \<noteq> y)))"

fun repair_copy :: "'d bdev \<Rightarrow> nat \<Rightarrow> nat \<Rightarrow> nat list \<Rightarrow> ('d, unit) io" where
  "repair_copy D from to [] = retS ()"
| "repair_copy D from to (b # bs) =
     bindS (read_blocks D (from + b) 1) (\<lambda>x.
     bindS (write_blocks D (to + b) x) (\<lambda>_. repair_copy D from to bs))"

definition repair_rollover :: "'d bdev \<Rightarrow> geometry \<Rightarrow> ranges \<Rightarrow> jslot \<Rightarrow> ('d, unit) io" where
  "repair_rollover D g rs proof =
     (case locate rs g (unat (sl_flushed proof)) of
        None \<Rightarrow> failS Invalid
      | Some l \<Rightarrow>
          if loc_offset l = 0 \<and> contiguous l \<ge> PROGRAM_PAGE
          then let from = slot_block (unat (sl_slot proof)) in
            bindS (repair_compare D from (loc_block l) [0..<SLOT_BLOCKS] False) (\<lambda>differs.
            if \<not> differs then sync_dev D
            else bindS (repair_copy D from (loc_block l) [0..<SLOT_BLOCKS]) (\<lambda>_. sync_dev D))
          else failS Invalid)"

subsection \<open>Recovery\<close>

text \<open>The candidate headers: decoded, and describing the recording entry. An unreadable one is none.\<close>

fun candidates :: "'d bdev \<Rightarrow> store_id \<Rightarrow> nat \<Rightarrow> entry \<Rightarrow> nat list \<Rightarrow> 'd \<Rightarrow> jslot option list \<times> 'd" where
  "candidates D store extents e [] d = ([], d)"
| "candidates D store extents e (i # is) d =
     (case read_blocks D (slot_header_block i) 1 d of
        (Inl _, d1) \<Rightarrow> (case candidates D store extents e is d1 of (cs, d2) \<Rightarrow> (None # cs, d2))
      | (Inr bs, d1) \<Rightarrow>
          let c = (case slot_decode bs i store extents of
                     Inr s \<Rightarrow> if describes s e then Some s else None | Inl _ \<Rightarrow> None)
          in (case candidates D store extents e is d1 of (cs, d2) \<Rightarrow> (c # cs, d2)))"

text \<open>\<open>max_by_key\<close> over the logical candidates: the last index with the greatest sequence.\<close>

definition logical_slots :: "jslot option list \<Rightarrow> (nat \<times> u64) list" where
  "logical_slots cs = concat (map (\<lambda>i. case cs ! i of
     Some s \<Rightarrow> if sl_proof s then [] else [(i, sl_sequence s)] | None \<Rightarrow> []) [0..<length cs])"

definition newest :: "jslot option list \<Rightarrow> nat option" where
  "newest cs = map_option fst (fold (\<lambda>(i, q) best. case best of
     None \<Rightarrow> Some (i, q) | Some (j, p) \<Rightarrow> if p \<le> q then Some (i, q) else Some (j, p)) (logical_slots cs) None)"

definition ride_start :: "entry \<Rightarrow> ride_state" where
  "ride_start e =
     \<lparr>rs_id = obj (e_meta e), rs_revision = rev (e_meta e), rs_ranges = e_ranges e, rs_flushed = 0,
      rs_next_sequence = 1, rs_tail_len = 0, rs_payload_crc = 0, rs_resume = zeros RIDE_RESUME_LEN,
      rs_pending_proof = 0, rs_pending_append_len = 0, rs_pending_append_crc = 0\<rparr>"

definition recovery_start :: "entry \<Rightarrow> ride_recovery" where
  "recovery_start e =
     \<lparr>rr_id = obj (e_meta e), rr_revision = rev (e_meta e), rr_sequence = 0, rr_flushed = 0,
      rr_tail_len = 0, rr_payload_crc = 0, rr_resume = zeros RIDE_RESUME_LEN, rr_slot = - 1\<rparr>"

definition recovery_of :: "jslot \<Rightarrow> ride_recovery" where
  "recovery_of s =
     \<lparr>rr_id = sl_id s, rr_revision = sl_revision s, rr_sequence = sl_sequence s, rr_flushed = sl_flushed s,
      rr_tail_len = sl_tail_len s, rr_payload_crc = sl_payload_crc s, rr_resume = sl_resume s,
      rr_slot = sl_slot s\<rparr>"

definition ride_at :: "entry \<Rightarrow> jslot \<Rightarrow> ride_state" where
  "ride_at e s = (ride_start e)\<lparr>rs_flushed := sl_flushed s, rs_next_sequence := sl_sequence s + 1,
     rs_tail_len := sl_tail_len s, rs_payload_crc := sl_payload_crc s, rs_resume := sl_resume s\<rparr>"

text \<open>The proof slot a rollover's logical slot names.\<close>

definition proof_of :: "jslot option list \<Rightarrow> jslot \<Rightarrow> jslot option" where
  "proof_of cs s = find (\<lambda>p. sl_proof p \<and> sl_sequence p = sl_proof_sequence s) (List.map_filter (\<lambda>x. x) cs)"

definition live_count :: "jslot option list \<Rightarrow> nat" where
  "live_count cs = length (filter (\<lambda>c. c \<noteq> None) cs)"

text \<open>What the search ends with: a slot, no slot, or a rollover that could not be repaired.\<close>

datatype recovery = Recovered jslot | NoCheckpoint | Unrepaired

lemma fold_newest:
  "(case fold (\<lambda>(i, q) best. case best of
      None \<Rightarrow> Some (i, q) | Some (j, p) \<Rightarrow> if p \<le> q then Some (i, q) else Some (j, p)) xs (init :: (nat \<times> u64) option) of
      None \<Rightarrow> xs = [] \<and> init = None
    | Some b \<Rightarrow> (b \<in> set xs \<or> init = Some b) \<and> (\<forall>i q. (i, q) \<in> set xs \<or> init = Some (i, q) \<longrightarrow> q \<le> snd b))"
proof (induction xs arbitrary: init)
  case Nil
  then show ?case by (cases init) auto
next
  case (Cons x xs)
  obtain i q where x: "x = (i, q)" by fastforce
  let ?init = "case init of None \<Rightarrow> Some (i, q) | Some (j, p) \<Rightarrow> if p \<le> q then Some (i, q) else Some (j, p)"
  show ?case
  proof (cases init)
    case None
    then show ?thesis using Cons.IH [of ?init] by (auto simp: x split: option.splits)
  next
    case (Some ab)
    obtain a b where ab: "ab = (a, b)" by fastforce
    show ?thesis
    proof (cases "b \<le> q")
      case True
      then show ?thesis using Cons.IH [of ?init]
        by (auto simp: x Some ab split: option.splits intro: order_trans [OF True])
    next
      case False
      then have "q \<le> b" by simp
      then show ?thesis using False Cons.IH [of ?init]
        by (auto simp: x Some ab split: option.splits intro: order_trans [OF \<open>q \<le> b\<close>])
    qed
  qed
qed

lemma logical_slots_iff:
  "(i, q) \<in> set (logical_slots cs) \<longleftrightarrow> (\<exists>s. i < length cs \<and> cs ! i = Some s \<and> \<not> sl_proof s \<and> sl_sequence s = q)"
proof -
  have "set (case cs ! j of Some s \<Rightarrow> if sl_proof s then [] else [(j, sl_sequence s)] | None \<Rightarrow> [])
      = {p. \<exists>s. cs ! j = Some s \<and> \<not> sl_proof s \<and> p = (j, sl_sequence s)}" for j
    by (cases "cs ! j") auto
  then show ?thesis by (auto simp: logical_slots_def)
qed

lemma newest_Some:
  assumes "newest cs = Some i"
  obtains s where "i < length cs" and "cs ! i = Some s" and "\<not> sl_proof s"
    and "\<And>j t. j < length cs \<Longrightarrow> cs ! j = Some t \<Longrightarrow> \<not> sl_proof t \<Longrightarrow> sl_sequence t \<le> sl_sequence s"
proof -
  obtain q where b: "fold (\<lambda>(i, q) best. case best of
      None \<Rightarrow> Some (i, q) | Some (j, p) \<Rightarrow> if p \<le> q then Some (i, q) else Some (j, p)) (logical_slots cs) None = Some (i, q)"
    using assms by (auto simp: newest_def)
  note f = fold_newest [of "logical_slots cs" None, unfolded b, simplified]
  from f obtain s where "i < length cs" "cs ! i = Some s" "\<not> sl_proof s" "sl_sequence s = q"
    by (auto simp: logical_slots_iff)
  moreover have "sl_sequence t \<le> q" if "j < length cs" "cs ! j = Some t" "\<not> sl_proof t" for j t
    using f [THEN conjunct2, rule_format, of j "sl_sequence t"] that by (simp add: logical_slots_iff)
  ultimately show ?thesis using that by blast
qed

lemma newest_None: "newest cs = None \<longleftrightarrow> (\<forall>i<length cs. \<forall>s. cs ! i = Some s \<longrightarrow> sl_proof s)"
proof -
  have "newest cs = None \<longleftrightarrow> logical_slots cs = []"
    using fold_newest [of "logical_slots cs" None] by (auto simp: newest_def split: option.splits)
  also have "\<dots> \<longleftrightarrow> (\<forall>i<length cs. \<forall>s. cs ! i = Some s \<longrightarrow> sl_proof s)"
    using logical_slots_iff [of _ _ cs] by (metis list.set_intros(1) list.set(1) empty_iff list.exhaust surj_pair)
  finally show ?thesis .
qed

lemma live_count_take:
  assumes "newest cs = Some i"
  shows "live_count (cs[i := None]) < live_count cs"
proof -
  obtain s where i: "i < length cs" "cs ! i = Some s" using assms by (rule newest_Some)
  have "cs = take i cs @ Some s # drop (Suc i) cs" using id_take_nth_drop [OF i(1)] i(2) by simp
  then have "live_count cs = live_count (take i cs @ Some s # drop (Suc i) cs)" by (rule arg_cong)
  then have "live_count cs = live_count (take i cs) + Suc (live_count (drop (Suc i) cs))"
    by (simp add: live_count_def)
  moreover have "live_count (cs[i := None]) = live_count (take i cs) + live_count (drop (Suc i) cs)"
    using i(1) by (simp add: live_count_def upd_conv_take_nth_drop)
  ultimately show ?thesis by simp
qed

function recover_loop :: "'d bdev \<Rightarrow> store_id \<Rightarrow> geometry \<Rightarrow> entry \<Rightarrow> jslot option list \<Rightarrow> 'd \<Rightarrow> recovery \<times> 'd" where
  "recover_loop D store g e cs d =
     (case newest cs of
        None \<Rightarrow> (NoCheckpoint, d)
      | Some i \<Rightarrow>
          let slot = the (cs ! i); cs' = cs[i := None] in
          (case slot_intact D store slot d of
             (False, d1) \<Rightarrow> recover_loop D store g e cs' d1
           | (True, d1) \<Rightarrow>
               if checked_add 64 (unat (sl_sequence slot)) 1 = None then recover_loop D store g e cs' d1
               else if sl_proof_sequence slot = 0 then (Recovered slot, d1)
               else case proof_of cs' slot of
                   None \<Rightarrow> recover_loop D store g e cs' d1
                 | Some proof \<Rightarrow>
                     if checked_add 64 (unat (sl_flushed proof)) PROGRAM_PAGE \<noteq> Some (unat (sl_flushed slot))
                     then recover_loop D store g e cs' d1
                     else (case slot_intact D store proof d1 of
                         (False, d2) \<Rightarrow> recover_loop D store g e cs' d2
                       | (True, d2) \<Rightarrow> (case repair_rollover D g (e_ranges e) proof d2 of
                           (Inl _, d3) \<Rightarrow> (Unrepaired, d3)
                         | (Inr _, d3) \<Rightarrow> (Recovered slot, d3)))))"
  by pat_completeness auto
termination
  by (relation "measure (\<lambda>(D, store, g, e, cs, d). live_count cs)") (auto dest: live_count_take)

definition recover_ride :: "'d bdev \<Rightarrow> entry \<Rightarrow> 'd fstore \<Rightarrow> 'd fstore" where
  "recover_ride D e s =
     (case candidates D (fs_store s) (fs_extents s) e [0..<SLOTS] (fs_dev s) of
        (cs, d1) \<Rightarrow> (case recover_loop D (fs_store s) (fs_geometry s) e cs d1 of
            (Unrepaired, d2) \<Rightarrow> s\<lparr>fs_dev := d2, fs_served := (fs_served s)\<lparr>sv_mode := CatalogUnreadable\<rparr>,
                                 fs_ride := None, fs_recovered := None\<rparr>
          | (Recovered slot, d2) \<Rightarrow>
              s\<lparr>fs_dev := d2, fs_recovered := Some (recovery_of slot), fs_ride := Some (ride_at e slot)\<rparr>
          | (NoCheckpoint, d2) \<Rightarrow>
              s\<lparr>fs_dev := d2, fs_ride := Some (ride_start e),
                fs_recovered := (if fs_recovered s = None then Some (recovery_start e) else fs_recovered s)\<rparr>))"

subsection \<open>Reading back the recovered ride\<close>

text \<open>The first loop of \<open>read_recovered\<close>, in the payload extents, a block at a time.\<close>

function recovered_pages :: "'d bdev \<Rightarrow> geometry \<Rightarrow> ranges \<Rightarrow> nat \<Rightarrow> nat \<Rightarrow> nat \<Rightarrow> nat \<Rightarrow> bytes \<Rightarrow> ('d, nat \<times> bytes) io" where
  "recovered_pages D g rs flushed off want at got =
     (if at < want \<and> off + at < flushed
      then case locate rs g (off + at) of
          None \<Rightarrow> failS Invalid
        | Some l \<Rightarrow>
            let n = min (min (want - at) (flushed - (off + at))) (BLOCK - loc_offset l) in
            bindS (read_blocks D (loc_block l) 1) (\<lambda>bs.
              recovered_pages D g rs flushed off want (at + n) (got @ slice (loc_offset l) n bs))
      else retS (at, got))"
  by pat_completeness auto
termination
proof (relation "measure (\<lambda>(D, g, rs, flushed, off, want, at, got). want - at)", goal_cases)
  case (2 D g rs flushed off want at got l n)
  then have "0 < n" using locate_progress [of rs g "off + at" l] by simp
  then have "want - (at + n) < want - at" using 2(1) by linarith
  then show ?case by (simp only: in_measure prod.case)
qed simp

text \<open>The second loop, in the tail of the selected slot.\<close>

function recovered_tail :: "'d bdev \<Rightarrow> nat \<Rightarrow> nat \<Rightarrow> nat \<Rightarrow> nat \<Rightarrow> nat \<Rightarrow> bytes \<Rightarrow> ('d, bytes) io" where
  "recovered_tail D slot flushed off want at got =
     (if at < want
      then let tail_at = off + at - flushed; within = tail_at mod BLOCK;
               n = min (want - at) (BLOCK - within) in
        bindS (read_blocks D (slot_block slot + tail_at div BLOCK) 1) (\<lambda>bs.
          recovered_tail D slot flushed off want (at + n) (got @ slice within n bs))
      else retS got)"
  by pat_completeness auto
termination
  by (relation "measure (\<lambda>(D, slot, flushed, off, want, at, got). want - at)")
    (auto simp: BLOCK_def)

definition read_recovered :: "'d bdev \<Rightarrow> nat \<Rightarrow> nat \<Rightarrow> ('d fstore, bytes) io" where
  "read_recovered D off buf_len = getS (\<lambda>s.
     bindS (liftE (ok_or (fs_recovered s) NotFound)) (\<lambda>rr.
     case fs_ride s of
       None \<Rightarrow> failS Invalid
     | Some ride \<Rightarrow>
         if (rs_id ride, rs_revision ride) \<noteq> (rr_id rr, rr_revision rr) then failS Invalid
         else let len = unat (recovery_payload_len rr) in
         if off \<ge> len then retS []
         else let want = min buf_len (len - off) in
           devS (bindS (recovered_pages D (fs_geometry s) (rs_ranges ride) (unat (rr_flushed rr)) off want 0 [])
             (\<lambda>(at, got). recovered_tail D (unat (rr_slot rr)) (unat (rr_flushed rr)) off want at got))))"

subsection \<open>Checkpoints\<close>

record ride_checkpoint =
  ck_id :: object_id
  ck_revision :: revision
  ck_append :: bytes
  ck_payload_crc :: u32
  ck_resume :: bytes

record slot_write =
  sw_sequence :: u64
  sw_flushed :: u64
  sw_source :: "jslot option"
  sw_append :: bytes
  sw_payload_crc :: u32
  sw_proof :: bool
  sw_proof_sequence :: u64
  sw_resume :: bytes

definition current_ride_slot :: "'d bdev \<Rightarrow> ride_state \<Rightarrow> ('d fstore, jslot option) io" where
  "current_ride_slot D ride =
     (if rs_next_sequence ride = 1
      then if rs_flushed ride = 0 \<and> rs_tail_len ride = 0 \<and> rs_payload_crc ride = 0 then retS None
        else failS Invalid
      else let index = unat (rs_next_sequence ride - 1) mod SLOTS in
        getS (\<lambda>s. bindS (devS (read_blocks D (slot_header_block index) 1)) (\<lambda>bs.
        bindS (liftE (map_errE (\<lambda>_. Invalid) (slot_decode bs index (fs_store s) (fs_extents s)))) (\<lambda>slot.
        if sl_proof slot
           \<or> checked_add 64 (unat (sl_sequence slot)) 1 \<noteq> Some (unat (rs_next_sequence ride))
           \<or> (sl_id slot, sl_revision slot, sl_ranges slot) \<noteq> (rs_id ride, rs_revision ride, rs_ranges ride)
           \<or> sl_flushed slot \<noteq> rs_flushed ride \<or> sl_tail_len slot \<noteq> rs_tail_len ride
           \<or> sl_payload_crc slot \<noteq> rs_payload_crc ride \<or> sl_resume slot \<noteq> rs_resume ride
        then failS Invalid else retS (Some slot)))))"

text \<open>
  One chunk of the new tail: the source's bytes up to its tail, zeros after them, the appended
  bytes over the zeros.
\<close>

definition tail_chunk :: "nat \<Rightarrow> bytes \<Rightarrow> nat \<Rightarrow> bytes \<Rightarrow> bytes" where
  "tail_chunk source_len app start block =
     (let width = CHUNK * BLOCK; tail_len = source_len + length app;
          block = (if source_len < start + width
            then put_bytes block (source_len - start) (zeros (width - (source_len - start))) else block);
          append_start = max source_len start; append_end = min tail_len (start + width)
      in if append_start < append_end
         then put_bytes block (append_start - start) (slice (append_start - source_len) (append_end - append_start) app)
         else block)"

fun slot_chunks :: "'d bdev \<Rightarrow> jslot option \<Rightarrow> nat \<Rightarrow> bytes \<Rightarrow> nat \<Rightarrow> nat list \<Rightarrow> crc32_hasher \<Rightarrow> crc32_hasher
    \<Rightarrow> ('d, crc32_hasher \<times> crc32_hasher) io" where
  "slot_chunks D source source_len app base [] target_digest source_digest =
     retS (target_digest, source_digest)"
| "slot_chunks D source source_len app base (i # is) target_digest source_digest =
     bindS (case source of
         None \<Rightarrow> retS (zeros (CHUNK * BLOCK))
       | Some src \<Rightarrow> read_blocks D (slot_block (unat (sl_slot src)) + i * CHUNK) CHUNK) (\<lambda>read.
     let block = tail_chunk source_len app (i * (CHUNK * BLOCK)) read in
     bindS (write_blocks D (base + i * CHUNK) block) (\<lambda>_.
       slot_chunks D source source_len app base is (crc_update target_digest block)
         (if source = None then source_digest else crc_update source_digest read)))"

definition write_ride_slot :: "'d bdev \<Rightarrow> ride_state \<Rightarrow> slot_write \<Rightarrow> ('d fstore, jslot) io" where
  "write_ride_slot D ride w = getS (\<lambda>s.
     let store = fs_store s; source_len = (case sw_source w of None \<Rightarrow> 0 | Some src \<Rightarrow> unat (sl_tail_len src));
         tail_len = source_len + length (sw_append w) in
     if tail_len > TAIL_CAPACITY then failS Invalid
     else
       let index = unat (sw_sequence w) mod SLOTS;
           slot = \<lparr>sl_slot = of_nat index, sl_id = rs_id ride, sl_revision = rs_revision ride,
             sl_sequence = sw_sequence w, sl_flushed = sw_flushed w, sl_tail_len = of_nat tail_len,
             sl_payload_crc = sw_payload_crc w, sl_resume = sw_resume w, sl_proof = sw_proof w,
             sl_proof_sequence = sw_proof_sequence w, sl_ranges = rs_ranges ride, sl_crc = 0\<rparr>;
           source_digest = (case sw_source w of None \<Rightarrow> crc_new
             | Some src \<Rightarrow> header_digest (header_bytes src store)) in
       devS (bindS (slot_chunks D (sw_source w) source_len (sw_append w) (slot_block index)
               [0..<SLOT_BLOCKS div CHUNK] (header_digest (header_bytes slot store)) source_digest)
         (\<lambda>(target, source).
         if (case sw_source w of None \<Rightarrow> False | Some src \<Rightarrow> finalize source \<noteq> sl_crc src) then failS Invalid
         else bindS (sync_dev D) (\<lambda>_.
           let slot = slot\<lparr>sl_crc := finalize target\<rparr> in
           bindS (write_blocks D (slot_header_block index) (header_bytes slot store)) (\<lambda>_.
           bindS (sync_dev D) (\<lambda>_. retS slot))))))"

definition settled :: "ride_state \<Rightarrow> ride_state" where
  "settled ride = ride\<lparr>rs_pending_proof := 0, rs_pending_append_len := 0, rs_pending_append_crc := 0\<rparr>"

text \<open>\<open>slot_intact\<close> as a guard of a store operation.\<close>

definition intactS :: "'d bdev \<Rightarrow> jslot \<Rightarrow> ('d fstore, bool) io" where
  "intactS D slot s = (case slot_intact D (fs_store s) slot (fs_dev s) of (ok, d) \<Rightarrow> (Inr ok, s\<lparr>fs_dev := d\<rparr>))"

definition finish_pending_rollover :: "'d bdev \<Rightarrow> ride_state \<Rightarrow> ride_checkpoint \<Rightarrow> ('d fstore, unit) io" where
  "finish_pending_rollover D ride ck =
     (if ck_payload_crc ck \<noteq> rs_payload_crc ride \<or> ck_resume ck \<noteq> rs_resume ride
         \<or> length (ck_append ck) \<noteq> unat (rs_pending_append_len ride)
         \<or> finalize (crc_update crc_new (ck_append ck)) \<noteq> rs_pending_append_crc ride
      then failS Invalid
      else let index = unat (rs_pending_proof ride) mod SLOTS in
        getS (\<lambda>s. bindS (devS (read_blocks D (slot_header_block index) 1)) (\<lambda>bs.
        bindS (liftE (map_errE (\<lambda>_. Invalid) (slot_decode bs index (fs_store s) (fs_extents s)))) (\<lambda>proof.
        if \<not> sl_proof proof \<or> sl_sequence proof \<noteq> rs_pending_proof ride
           \<or> sl_flushed proof + of_nat PROGRAM_PAGE \<noteq> rs_flushed ride
           \<or> sl_id proof \<noteq> rs_id ride \<or> sl_revision proof \<noteq> rs_revision ride \<or> sl_ranges proof \<noteq> rs_ranges ride
        then failS Invalid
        else bindS (intactS D proof) (\<lambda>ok.
          if \<not> ok then failS Invalid
          else bindS (devS (repair_rollover D (fs_geometry s) (rs_ranges ride) proof)) (\<lambda>_.
            modS (\<lambda>s. s\<lparr>fs_ride := Some (settled ride)\<rparr>)))))))"

text \<open>The rollover branch of \<open>journal\<close>.\<close>

definition journal_rollover :: "'d bdev \<Rightarrow> ride_state \<Rightarrow> ride_checkpoint \<Rightarrow> jslot option \<Rightarrow> ('d fstore, unit) io" where
  "journal_rollover D ride ck source = getS (\<lambda>s.
     let proof_sequence = rs_next_sequence ride in
     bindS (liftE (ok_or (checked_add 64 (unat proof_sequence) 1) ReadOnly)) (\<lambda>logical.
     bindS (liftE (ok_or (checked_add 64 logical 1) ReadOnly)) (\<lambda>following.
     let into_page = PROGRAM_PAGE - unat (rs_tail_len ride);
         page_crc = finalize (crc_update (from_checksum (rs_payload_crc ride)) (take into_page (ck_append ck))) in
     bindS (write_ride_slot D ride \<lparr>sw_sequence = proof_sequence, sw_flushed = rs_flushed ride,
         sw_source = source, sw_append = take into_page (ck_append ck), sw_payload_crc = page_crc,
         sw_proof = True, sw_proof_sequence = 0, sw_resume = zeros RIDE_RESUME_LEN\<rparr>) (\<lambda>proof.
     let remainder = drop into_page (ck_append ck); advanced = rs_flushed ride + of_nat PROGRAM_PAGE in
     bindS (write_ride_slot D ride \<lparr>sw_sequence = of_nat logical, sw_flushed = advanced, sw_source = None,
         sw_append = remainder, sw_payload_crc = ck_payload_crc ck, sw_proof = False,
         sw_proof_sequence = proof_sequence, sw_resume = ck_resume ck\<rparr>) (\<lambda>_.
     let ride = ride\<lparr>rs_flushed := advanced, rs_next_sequence := of_nat following,
           rs_tail_len := of_nat (length remainder), rs_payload_crc := ck_payload_crc ck,
           rs_resume := ck_resume ck, rs_pending_proof := proof_sequence,
           rs_pending_append_len := of_nat (length (ck_append ck)),
           rs_pending_append_crc := finalize (crc_update crc_new (ck_append ck))\<rparr> in
     bindS (modS (\<lambda>s. s\<lparr>fs_ride := Some ride\<rparr>)) (\<lambda>_.
     bindS (devS (repair_rollover D (fs_geometry s) (rs_ranges ride) proof)) (\<lambda>_.
       modS (\<lambda>s. s\<lparr>fs_ride := Some (settled ride)\<rparr>))))))))"

definition journal :: "'d bdev \<Rightarrow> ride_checkpoint \<Rightarrow> ('d fstore, unit) io" where
  "journal D ck = getS (\<lambda>s.
     if \<not> writable (fs_mode s) then failS ReadOnly
     else case fs_ride s of
       None \<Rightarrow> failS Invalid
     | Some ride \<Rightarrow>
         if (ck_id ck, ck_revision ck) \<noteq> (rs_id ride, rs_revision ride) then failS Invalid
         else if rs_pending_proof ride \<noteq> 0 then finish_pending_rollover D ride ck
         else if length (ck_append ck) > PROGRAM_PAGE then failS Invalid
         else if finalize (crc_update (from_checksum (rs_payload_crc ride)) (ck_append ck)) \<noteq> ck_payload_crc ck
         then failS Invalid
         else bindS (current_ride_slot D ride) (\<lambda>source.
           let combined = unat (rs_tail_len ride) + length (ck_append ck) in
           if combined \<ge> PROGRAM_PAGE then journal_rollover D ride ck source
           else bindS (liftE (ok_or (checked_add 64 (unat (rs_next_sequence ride)) 1) ReadOnly)) (\<lambda>following.
             bindS (write_ride_slot D ride \<lparr>sw_sequence = rs_next_sequence ride, sw_flushed = rs_flushed ride,
                 sw_source = source, sw_append = ck_append ck, sw_payload_crc = ck_payload_crc ck,
                 sw_proof = False, sw_proof_sequence = 0, sw_resume = ck_resume ck\<rparr>) (\<lambda>_.
               modS (\<lambda>s. s\<lparr>fs_ride := Some (settled (ride\<lparr>rs_next_sequence := of_nat following,
                 rs_tail_len := of_nat combined, rs_payload_crc := ck_payload_crc ck, rs_resume := ck_resume ck\<rparr>))\<rparr>)))))"

subsection \<open>The ride in a commit\<close>

definition finalising :: "'d fstore \<Rightarrow> resolved list \<Rightarrow> (ride_state \<times> entry) option" where
  "finalising s plan =
     (case fs_ride s of
        None \<Rightarrow> None
      | Some ride \<Rightarrow>
          (case find (\<lambda>e. ek e = (rs_id ride, rs_revision ride)) (List.map_filter r_entry plan) of
             None \<Rightarrow> None
           | Some e \<Rightarrow> if is_recording e then None else Some (ride, e)))"

text \<open>The copy of the tail, a block at a time; a block already there is not written again.\<close>

fun tail_copy :: "'d bdev \<Rightarrow> geometry \<Rightarrow> ranges \<Rightarrow> nat \<Rightarrow> nat \<Rightarrow> nat list \<Rightarrow> bool \<Rightarrow> ('d, bool) io" where
  "tail_copy D g rs base flushed [] wrote = retS wrote"
| "tail_copy D g rs base flushed (k # ks) wrote =
     bindS (read_blocks D (base + k) 1) (\<lambda>block.
     case locate rs g (flushed + k * BLOCK) of
       None \<Rightarrow> failS Invalid
     | Some l \<Rightarrow>
         bindS (read_blocks D (loc_block l) 1) (\<lambda>target.
         if target \<noteq> block
         then bindS (write_blocks D (loc_block l) block) (\<lambda>_. tail_copy D g rs base flushed ks True)
         else tail_copy D g rs base flushed ks wrote))"

definition flush_ride_tail :: "'d bdev \<Rightarrow> resolved list \<Rightarrow> ('d fstore, bool) io" where
  "flush_ride_tail D plan = getS (\<lambda>s.
     case finalising s plan of
       None \<Rightarrow> retS False
     | Some (ride, e) \<Rightarrow>
         let len = payload_len (e_meta e) in
         if len = rs_flushed ride
         then if payload_crc (e_meta e) \<noteq> rs_payload_crc ride \<or> rs_tail_len ride \<noteq> 0 then failS Invalid
           else retS False
         else if len < rs_flushed ride \<or> rs_next_sequence ride = 1 then failS Invalid
         else let tail_len = unat (len - rs_flushed ride) in
         if tail_len > TAIL_CAPACITY then failS Invalid
         else let index = unat (rs_next_sequence ride - 1) mod SLOTS in
           bindS (devS (read_blocks D (slot_header_block index) 1)) (\<lambda>bs.
           bindS (liftE (map_errE (\<lambda>_. Invalid) (slot_decode bs index (fs_store s) (fs_extents s)))) (\<lambda>slot.
           if (sl_id slot, sl_revision slot, sl_ranges slot) \<noteq> (rs_id ride, rs_revision ride, rs_ranges ride)
              \<or> sl_proof slot
              \<or> checked_add 64 (unat (sl_sequence slot)) 1 \<noteq> Some (unat (rs_next_sequence ride))
              \<or> sl_flushed slot \<noteq> rs_flushed ride \<or> unat (sl_tail_len slot) \<noteq> tail_len
              \<or> sl_payload_crc slot \<noteq> rs_payload_crc ride \<or> sl_payload_crc slot \<noteq> payload_crc (e_meta e)
           then failS Invalid
           else bindS (intactS D slot) (\<lambda>ok.
             if \<not> ok then failS Invalid
             else devS (tail_copy D (fs_geometry s) (rs_ranges ride) (slot_block index)
               (unat (rs_flushed ride)) [0..<div_ceil tail_len BLOCK] False)))))"

fun invalidate_slots :: "'d bdev \<Rightarrow> nat list \<Rightarrow> ('d, unit) io" where
  "invalidate_slots D [] = sync_dev D"
| "invalidate_slots D (i # is) =
     bindS (write_blocks D (slot_header_block i) INVALIDATED) (\<lambda>_. invalidate_slots D is)"

definition settle_ride :: "'d bdev \<Rightarrow> resolved list \<Rightarrow> 'd fstore \<Rightarrow> 'd fstore" where
  "settle_ride D plan s =
     (case find is_recording (List.map_filter r_entry plan) of
        Some e \<Rightarrow>
          let same = (case fs_ride s of
              Some ride \<Rightarrow> if (rs_id ride, rs_revision ride) = ek e then Some ride else None
            | None \<Rightarrow> None)
          in s\<lparr>fs_ride := Some (case same of
               None \<Rightarrow> ride_start e | Some ride \<Rightarrow> ride\<lparr>rs_ranges := e_ranges e\<rparr>)\<rparr>
      | None \<Rightarrow>
          (case fs_ride s of
             None \<Rightarrow> s
           | Some ride \<Rightarrow>
               if \<not> list_ex (\<lambda>r. r_key r = (rs_id ride, rs_revision ride)) plan then s
               else let s1 = s\<lparr>fs_ride := None, fs_recovered := None\<rparr> in
                 snd (devS (invalidate_slots D [0..<SLOTS]) s1)))"

end
