(* ===== verification/Flat_Lookup.thy ===== *)
theory Flat_Lookup
  imports Flat_Store
begin

text \<open>
  What the two walks over the entry array compute. The binary search of \<open>FlatStore::find\<close> returns
  the retained and the head entry of the object, and the merge walk of \<open>FlatStore::merge\<close> hands its
  closure exactly the entries of the array with the batch applied, in key order. Both hold over
  every block device that keeps the contract, whatever it refuses.
\<close>

text \<open>The entries the array of a copy holds when the card's contents are \<open>m\<close>.\<close>

definition array_holds :: "(nat \<Rightarrow> bytes) \<Rightarrow> nat \<Rightarrow> nat \<Rightarrow> entry list \<Rightarrow> bool" where
  "array_holds m base extents es \<longleftrightarrow> (\<forall>i<length es. entry_decode (entry_at m base i) extents = Inr (es ! i))"

text \<open>A cursor over that array.\<close>

definition cu_over :: "(nat \<Rightarrow> bytes) \<Rightarrow> nat \<Rightarrow> nat \<Rightarrow> nat \<Rightarrow> cursor \<Rightarrow> bool" where
  "cu_over m base extents n cu \<longleftrightarrow> cu_ok m cu \<and> cu_base cu = base \<and> cu_extents cu = extents
     \<and> cu_live cu = div_ceil n ENTRIES_PER_BLOCK"

text \<open>The blocks the array occupies.\<close>

definition array_region :: "nat \<Rightarrow> nat \<Rightarrow> nat \<Rightarrow> bool" where
  "array_region base n b \<longleftrightarrow> base \<le> b \<and> b < base + div_ceil n ENTRIES_PER_BLOCK"

lemma live_index: "i < n \<Longrightarrow> i div ENTRIES_PER_BLOCK < div_ceil n ENTRIES_PER_BLOCK"
proof -
  assume "i < n"
  then have "\<not> div_ceil n 4 \<le> i div 4" using div_mult_mod_eq [of i 4] by (simp add: div_ceil_le_iff)
  then show ?thesis by (simp add: fmt_consts)
qed

context block_device
begin

lemma array_get:
  assumes "good d" and "cu_over m base ec (length es) cu" and "\<And>b. length (m b) = BLOCK"
    and "alive d \<Longrightarrow> \<forall>b. array_region base (length es) b \<longrightarrow> media d b = m b"
    and "array_holds m base ec es" and "i < length es" and "cursor_get D cu i d = (r, d')"
  shows "confined W d d' \<and> (r = Inl Media \<or> (\<exists>cu'. r = Inr (es ! i, cu') \<and> cu_over m base ec (length es) cu'))"
proof -
  have cu: "cu_ok m cu" "cu_base cu = base" "cu_extents cu = ec" "cu_live cu = div_ceil (length es) ENTRIES_PER_BLOCK"
    using assms(2) by (simp_all add: cu_over_def)
  have "confined W d d' \<and> (r = Inl Media
    \<or> r = Inl Invalid \<and> (\<exists>x. entry_decode (entry_at m (cu_base cu) i) (cu_extents cu) = Inl x)
    \<or> (\<exists>e cu'. r = Inr (e, cu') \<and> entry_decode (entry_at m (cu_base cu) i) (cu_extents cu) = Inr e \<and> cu_ok m cu'
        \<and> cu_base cu' = cu_base cu \<and> cu_extents cu' = cu_extents cu \<and> cu_live cu' = cu_live cu))"
    by (rule cursor_get_spec [OF assms(1) cu(1) assms(3) _ _ assms(7)])
      (use assms(4) cu live_index [OF assms(6)] in \<open>simp_all add: array_region_def\<close>)
  moreover have "entry_decode (entry_at m base i) ec = Inr (es ! i)"
    using assms(5,6) by (simp add: array_holds_def)
  ultimately show ?thesis by (auto simp: cu cu_over_def)
qed

end

subsection \<open>The batch applied to an array\<close>

primrec opt_list :: "'a option \<Rightarrow> 'a list" where
  "opt_list None = []"
| "opt_list (Some x) = [x]"

abbreviation batch_entries :: "resolved list \<Rightarrow> entry list" where
  "batch_entries rs \<equiv> concat (map (\<lambda>r. opt_list (r_entry r)) rs)"

text \<open>What one entry of the array becomes, and the rest of the batch after it.\<close>

definition step_out :: "entry \<Rightarrow> resolved list \<Rightarrow> entry list" where
  "step_out e rs = batch_entries (takeWhile (\<lambda>r. key_less (r_key r) (ek e)) rs)
     @ (case dropWhile (\<lambda>r. key_less (r_key r) (ek e)) rs of
          [] \<Rightarrow> [e] | r # rest \<Rightarrow> if r_key r = ek e then opt_list (r_entry r) else [e])"

definition step_rest :: "entry \<Rightarrow> resolved list \<Rightarrow> resolved list" where
  "step_rest e rs = (case dropWhile (\<lambda>r. key_less (r_key r) (ek e)) rs of
     [] \<Rightarrow> [] | r # rest \<Rightarrow> if r_key r = ek e then rest else r # rest)"

fun apply_batch :: "entry list \<Rightarrow> resolved list \<Rightarrow> entry list" where
  "apply_batch [] rs = batch_entries rs"
| "apply_batch (e # es) rs = step_out e rs @ apply_batch es (step_rest e rs)"

text \<open>
  A pass is described by a predicate on what it has emitted, the closure's state and the device:
  each emission of the next entry of \<open>final\<close> extends it and stays inside \<open>W\<close>, and reads keep it.
\<close>

locale emitter = block_device D good alive media cands torn
  for D :: "'d bdev" and good alive and media :: "'d \<Rightarrow> nat \<Rightarrow> bytes" and cands torn +
  fixes emit :: "('d, 'x) emit" and Inv :: "entry list \<Rightarrow> 'x \<Rightarrow> 'd \<Rightarrow> bool" and W :: "nat \<Rightarrow> bool"
    and final :: "entry list"
  assumes emit_step: "final = out @ e # rest \<Longrightarrow> good d \<Longrightarrow> Inv out x d \<Longrightarrow> emit e x d = (r, d') \<Longrightarrow>
      confined W d d' \<and> (\<forall>x'. r = Inr x' \<longrightarrow> Inv (out @ [e]) x' d')"
    and Inv_stable: "Inv out y c \<Longrightarrow> confined (\<lambda>_. False) c c' \<Longrightarrow> Inv out y c'"
begin

lemma emit_opt_spec:
  assumes "final = out @ opt_list oe @ rest" and "good d" and "Inv out (fst xw) d"
    and "emit_opt emit oe xw d = (r, d')"
  shows "confined W d d' \<and> (\<forall>xw'. r = Inr xw' \<longrightarrow>
    Inv (out @ opt_list oe) (fst xw') d'
    \<and> snd xw' = snd xw + length (opt_list oe))"
proof (cases oe)
  case None
  then show ?thesis using assms confined_refl by (auto simp: emit_opt_def)
next
  case (Some e)
  obtain r1 d1 where em: "emit e (fst xw) d = (r1, d1)" by fastforce
  have "final = out @ e # rest" using assms(1) Some by simp
  from emit_step [OF this assms(2,3) em] show ?thesis
    using assms(4) Some em by (cases r1) (auto simp: emit_opt_def bindS_def)
qed

lemma merge_before_spec:
  "final = out @ batch_entries (takeWhile (\<lambda>r. key_less (r_key r) key) rs) @ rest \<Longrightarrow> good d \<Longrightarrow> Inv out (fst xw) d \<Longrightarrow>
   merge_before emit key rs xw d = (r, d') \<Longrightarrow>
   confined W d d' \<and> (\<forall>rs' xw'. r = Inr (rs', xw') \<longrightarrow> rs' = dropWhile (\<lambda>r. key_less (r_key r) key) rs
     \<and> Inv (out @ batch_entries (takeWhile (\<lambda>r. key_less (r_key r) key) rs)) (fst xw') d'
     \<and> snd xw' = snd xw + length (batch_entries (takeWhile (\<lambda>r. key_less (r_key r) key) rs)))"
proof (induction rs arbitrary: out xw d)
  case Nil
  then show ?case using confined_refl by auto
next
  case (Cons a rs)
  show ?case
  proof (cases "key_less (r_key a) key")
    case False
    then show ?thesis using Cons.prems confined_refl by auto
  next
    case True
    let ?a = "opt_list (r_entry a)"
    obtain r1 d1 where em: "emit_opt emit (r_entry a) xw d = (r1, d1)" by fastforce
    have fin: "final = out @ ?a @ batch_entries (takeWhile (\<lambda>r. key_less (r_key r) key) rs) @ rest"
      using Cons.prems(1) True by simp
    note step = emit_opt_spec [OF fin Cons.prems(2,3) em]
    show ?thesis
    proof (cases r1)
      case (Inl e)
      then show ?thesis using Cons.prems(4) True step by (auto simp: bindS_def em)
    next
      case (Inr xw1)
      have rest: "merge_before emit key rs xw1 d1 = (r, d')" using Cons.prems(4) True Inr by (simp add: bindS_def em)
      have "good d1" using step confined_good by blast
      have "confined W d1 d' \<and> (\<forall>rs' xw'. r = Inr (rs', xw') \<longrightarrow> rs' = dropWhile (\<lambda>r. key_less (r_key r) key) rs
         \<and> Inv ((out @ ?a) @ batch_entries (takeWhile (\<lambda>r. key_less (r_key r) key) rs)) (fst xw') d'
         \<and> snd xw' = snd xw1 + length (batch_entries (takeWhile (\<lambda>r. key_less (r_key r) key) rs)))"
        by (rule Cons.IH [OF _ \<open>good d1\<close> _ rest]) (use fin step Inr in auto)
      then show ?thesis using step Inr True confined_trans by auto
    qed
  qed
qed

lemma merge_rest_spec:
  "final = out @ batch_entries rs \<Longrightarrow> good d \<Longrightarrow> Inv out (fst xw) d \<Longrightarrow> merge_rest emit rs xw d = (r, d') \<Longrightarrow>
   confined W d d' \<and> (\<forall>xw'. r = Inr xw' \<longrightarrow> Inv final (fst xw') d' \<and> snd xw' = snd xw + length (batch_entries rs))"
proof (induction rs arbitrary: out xw d)
  case Nil
  then show ?case using confined_refl by auto
next
  case (Cons a rs)
  let ?a = "opt_list (r_entry a)"
  obtain r1 d1 where em: "emit_opt emit (r_entry a) xw d = (r1, d1)" by fastforce
  have fin: "final = out @ ?a @ batch_entries rs" using Cons.prems(1) by simp
  note step = emit_opt_spec [OF fin Cons.prems(2,3) em]
  show ?case
  proof (cases r1)
    case (Inl e)
    then show ?thesis using Cons.prems(4) step by (auto simp: bindS_def em)
  next
    case (Inr xw1)
    have rest: "merge_rest emit rs xw1 d1 = (r, d')" using Cons.prems(4) Inr by (simp add: bindS_def em)
    have "good d1" using step confined_good by blast
    have "confined W d1 d' \<and> (\<forall>xw'. r = Inr xw' \<longrightarrow> Inv final (fst xw') d' \<and> snd xw' = snd xw1 + length (batch_entries rs))"
      by (rule Cons.IH [of "out @ ?a", OF _ \<open>good d1\<close> _ rest]) (use fin step Inr in auto)
    then show ?thesis using step Inr confined_trans by auto
  qed
qed

lemma merge_entry_spec:
  assumes fin: "final = out @ step_out e rs @ rest" and good: "good d" and inv: "Inv out (fst xw) d"
    and run: "merge_entry emit e rs xw d = (r, d')"
  shows "confined W d d' \<and> (\<forall>rs' xw'. r = Inr (rs', xw') \<longrightarrow> rs' = step_rest e rs
    \<and> Inv (out @ step_out e rs) (fst xw') d' \<and> snd xw' = snd xw + length (step_out e rs))"
proof -
  let ?pre = "takeWhile (\<lambda>r. key_less (r_key r) (ek e)) rs" and ?post = "dropWhile (\<lambda>r. key_less (r_key r) (ek e)) rs"
  define oe where "oe = (case ?post of [] \<Rightarrow> Some e | r # rest \<Rightarrow> if r_key r = ek e then r_entry r else Some e)"
  have out: "step_out e rs = batch_entries ?pre @ opt_list oe"
    by (cases ?post) (simp_all add: step_out_def oe_def del: dropWhile_eq_Nil_conv)
  obtain r1 d1 where mb: "merge_before emit (ek e) rs xw d = (r1, d1)" by fastforce
  have fin1: "final = out @ batch_entries ?pre @ opt_list oe @ rest" using fin by (simp add: out)
  note b = merge_before_spec [OF fin1 good inv mb]
  show ?thesis
  proof (cases r1)
    case (Inl x)
    then show ?thesis using run b by (auto simp: merge_entry_def bindS_def mb)
  next
    case (Inr rx)
    then obtain rs1 xw1 where rx: "r1 = Inr (rs1, xw1)" by (cases rx) simp
    note b1 = b [THEN conjunct2, rule_format, OF rx]
    have fin2: "final = (out @ batch_entries ?pre) @ opt_list oe @ rest" using fin1 by simp
    have good1: "good d1" using b confined_good by blast
    obtain r2 d2 where em: "emit_opt emit oe xw1 d1 = (r2, d2)" by fastforce
    have res: "(r, d') = (case r2 of Inl x \<Rightarrow> Inl x | Inr xw2 \<Rightarrow> Inr (step_rest e rs, xw2), d2)"
      using run em b1 rx
      by (cases r2; cases ?post) (auto simp: merge_entry_def bindS_def mb oe_def step_rest_def split: if_splits
          simp del: dropWhile_eq_Nil_conv)
    have inv1: "Inv (out @ batch_entries ?pre) (fst xw1) d1" using b1 by blast
    note s = emit_opt_spec [OF fin2 good1 inv1 em]
    show ?thesis
      using res s b b1 confined_trans [of W d d1 d2] by (cases r2) (auto simp: out)
  qed
qed

lemma merge_loop_spec:
  assumes len: "\<And>b. length (m b) = BLOCK" and arr: "array_holds m base ec es"
    and clear: "\<And>b. array_region base (length es) b \<Longrightarrow> \<not> W b"
  shows "k \<le> length es \<Longrightarrow> final = out @ apply_batch (drop k es) rs \<Longrightarrow> good d \<Longrightarrow>
    cu_over m base ec (length es) cu \<Longrightarrow>
    (alive d \<Longrightarrow> \<forall>b. array_region base (length es) b \<longrightarrow> media d b = m b) \<Longrightarrow> Inv out (fst xw) d \<Longrightarrow>
    merge_loop D emit [k..<length es] cu rs xw d = (r, d') \<Longrightarrow>
    confined W d d' \<and> (\<forall>cu' xw'. r = Inr (cu', xw') \<longrightarrow> cu_over m base ec (length es) cu' \<and> Inv final (fst xw') d'
      \<and> snd xw' = snd xw + length (apply_batch (drop k es) rs))"
proof (induction "length es - k" arbitrary: k out rs d cu xw)
  case 0
  then have k: "[k..<length es] = []" "drop k es = []" by simp_all
  obtain r1 d1 where mr: "merge_rest emit rs xw d = (r1, d1)" by fastforce
  have fin: "final = out @ batch_entries rs" using 0(3) k by simp
  note step = merge_rest_spec [OF fin 0(4) 0(7) mr]
  show ?case using step 0(5,8) k by (cases r1) (auto simp: bindS_def mr)
next
  case (Suc n)
  have k: "k < length es" using Suc(2) by simp
  define e where "e = es ! k"
  have ks: "[k..<length es] = k # [Suc k..<length es]" using k by (simp add: upt_conv_Cons)
  have ap: "apply_batch (drop k es) rs = step_out e rs @ apply_batch (drop (Suc k) es) (step_rest e rs)"
    unfolding e_def Cons_nth_drop_Suc [OF k, symmetric] by simp
  obtain r1 d1 where get: "cursor_get D cu k d = (r1, d1)" by fastforce
  have c1: "confined (\<lambda>_. False) d d1"
    and r1: "r1 = Inl Media \<or> (\<exists>cu'. r1 = Inr (e, cu') \<and> cu_over m base ec (length es) cu')"
    using array_get [OF Suc(5,6) len Suc(7) arr k get] by (simp_all add: e_def)
  have cW1: "confined W d d1" using confined_mono [OF c1] by blast
  show ?case
  proof (cases r1)
    case (Inl x)
    then show ?thesis using Suc(9) cW1 by (auto simp: ks bindS_def get)
  next
    case (Inr ecu)
    then obtain cu1 where cu1: "r1 = Inr (e, cu1)" "cu_over m base ec (length es) cu1" using r1 by auto
    have good1: "good d1" and inv1: "Inv out (fst xw) d1" using confined_good [OF c1] Inv_stable [OF Suc(8) c1] .
    obtain r2 d2 where me: "merge_entry emit e rs xw d1 = (r2, d2)" by fastforce
    have fin1: "final = out @ step_out e rs @ apply_batch (drop (Suc k) es) (step_rest e rs)"
      using Suc(4) by (simp add: ap)
    note b = merge_entry_spec [OF fin1 good1 inv1 me]
    have cW2: "confined W d d2" using confined_trans [OF cW1] b by blast
    show ?thesis
    proof (cases r2)
      case (Inl x)
      then show ?thesis using Suc(9) cW2 cu1(1) by (auto simp: ks bindS_def get me)
    next
      case (Inr rx)
      then obtain rs2 xw2 where rx: "r2 = Inr (rs2, xw2)" by (cases rx) simp
      note b2 = b [THEN conjunct2, rule_format, OF rx]
      have same2: "alive d2 \<Longrightarrow> \<forall>b. array_region base (length es) b \<longrightarrow> media d2 b = m b"
        using Suc(7) confined_alive [OF cW2] confined_at(2) [OF cW2] clear by metis
      have run: "merge_loop D emit [Suc k..<length es] cu1 (step_rest e rs) xw2 d2 = (r, d')"
        using Suc(9) b2 by (simp add: ks bindS_def get me rx cu1(1))
      have "confined W d2 d' \<and> (\<forall>cu' xw'. r = Inr (cu', xw') \<longrightarrow> cu_over m base ec (length es) cu'
          \<and> Inv final (fst xw') d' \<and> snd xw' = snd xw2 + length (apply_batch (drop (Suc k) es) (step_rest e rs)))"
        by (rule Suc(1) [OF _ _ _ confined_good [OF cW2] cu1(2) same2 _ run]) (use Suc(2) k fin1 b2 in auto)
      then show ?thesis using confined_trans [OF cW2] b2 by (auto simp: ap)
    qed
  qed
qed

end

subsection \<open>What the applied batch holds\<close>

abbreviation sorted_entries :: "entry list \<Rightarrow> bool" where
  "sorted_entries \<equiv> sorted_wrt (\<lambda>a b. key_less (ek a) (ek b))"

abbreviation sorted_batch :: "resolved list \<Rightarrow> bool" where
  "sorted_batch \<equiv> sorted_wrt (\<lambda>a b. key_less (r_key a) (r_key b))"

definition keyed_batch :: "resolved list \<Rightarrow> bool" where
  "keyed_batch rs \<longleftrightarrow> (\<forall>r\<in>set rs. \<forall>x. r_entry r = Some x \<longrightarrow> ek x = r_key r)"

lemma key_less_irrefl [simp]: "\<not> key_less a a"
  by (simp add: key_less_def)

lemma key_less_linear: "\<not> key_less a b \<Longrightarrow> a \<noteq> b \<Longrightarrow> key_less b a"
  by (cases a; cases b) (auto simp: key_less_def)

lemma key_less_asym: "key_less a b \<Longrightarrow> \<not> key_less b a"
  using key_less_trans key_less_irrefl by blast

lemma set_opt_list [simp]: "set (opt_list x) = set_option x"
  by (cases x) simp_all

text \<open>The step of \<open>e\<close> cuts the batch at the key of \<open>e\<close>.\<close>

lemma batch_split:
  assumes "sorted_batch rs"
  obtains pre mid post where "rs = pre @ mid @ post" and "\<forall>r\<in>set pre. key_less (r_key r) (ek e)"
    and "\<forall>r\<in>set mid. r_key r = ek e" and "\<forall>r\<in>set post. key_less (ek e) (r_key r)"
    and "step_out e rs = batch_entries pre @ (if mid = [] then [e] else batch_entries mid)"
    and "step_rest e rs = post"
proof -
  define pre post where "pre = takeWhile (\<lambda>r. key_less (r_key r) (ek e)) rs"
    and "post = dropWhile (\<lambda>r. key_less (r_key r) (ek e)) rs"
  have rs: "rs = pre @ post" by (simp add: pre_def post_def)
  have pre: "\<forall>r\<in>set pre. key_less (r_key r) (ek e)" unfolding pre_def by (auto dest: set_takeWhileD)
  have step: "step_out e rs = batch_entries pre @ (case post of [] \<Rightarrow> [e]
      | r # rest \<Rightarrow> if r_key r = ek e then opt_list (r_entry r) else [e])"
    "step_rest e rs = (case post of [] \<Rightarrow> [] | r # rest \<Rightarrow> if r_key r = ek e then rest else r # rest)"
    by (simp_all add: step_out_def step_rest_def pre_def post_def)
  show thesis
  proof (cases post)
    case Nil
    show thesis by (rule that [of pre "[]" "[]"]) (use rs pre step Nil in simp_all)
  next
    case (Cons p rest)
    have "post \<noteq> []" using Cons by simp
    then have "\<not> key_less (r_key (hd post)) (ek e)" unfolding post_def by (rule hd_dropWhile)
    then have p: "\<not> key_less (r_key p) (ek e)" using Cons by simp
    have later: "\<forall>r\<in>set rest. key_less (r_key p) (r_key r)" using assms rs Cons by (simp add: sorted_wrt_append)
    show thesis
    proof (cases "r_key p = ek e")
      case True
      show thesis by (rule that [of pre "[p]" rest]) (use rs pre step Cons True later in simp_all)
    next
      case False
      have "key_less (ek e) (r_key p)" using key_less_linear [OF p False] .
      then have "\<forall>r\<in>set post. key_less (ek e) (r_key r)" using later key_less_trans Cons by auto
      then show thesis by - (rule that [of pre "[]" post], use rs pre step Cons False in simp_all)
    qed
  qed
qed

lemma set_batch_entries: "set (batch_entries rs) = {x. \<exists>r\<in>set rs. r_entry r = Some x}"
  by auto

lemma set_apply_batch:
  assumes "sorted_entries es" and "sorted_batch rs"
  shows "set (apply_batch es rs) = {e \<in> set es. ek e \<notin> r_key ` set rs} \<union> {x. \<exists>r\<in>set rs. r_entry r = Some x}"
  using assms
proof (induction es arbitrary: rs)
  case Nil
  then show ?case by (simp add: set_batch_entries del: set_concat)
next
  case (Cons e es)
  obtain pre mid post where sp: "rs = pre @ mid @ post" "\<forall>r\<in>set pre. key_less (r_key r) (ek e)"
    "\<forall>r\<in>set mid. r_key r = ek e" "\<forall>r\<in>set post. key_less (ek e) (r_key r)"
    "step_out e rs = batch_entries pre @ (if mid = [] then [e] else batch_entries mid)" "step_rest e rs = post"
    using batch_split [OF Cons.prems(2)] by metis
  have es: "\<forall>x\<in>set es. key_less (ek e) (ek x)" and sorted: "sorted_entries es" using Cons.prems(1) by simp_all
  have post: "sorted_batch post" using Cons.prems(2) sp(1) by (simp add: sorted_wrt_append)
  have past: "ek x \<notin> r_key ` set pre \<union> r_key ` set mid" if "x \<in> set es" for x
  proof
    assume "ek x \<in> r_key ` set pre \<union> r_key ` set mid"
    then obtain r where "r \<in> set pre \<or> r \<in> set mid" and x: "ek x = r_key r" by auto
    then have "\<not> key_less (ek e) (r_key r)" using sp(2,3) by (metis key_less_asym key_less_irrefl)
    then show False using bspec [OF es that] by (simp only: x)
  qed
  have e: "ek e \<in> r_key ` set rs \<longleftrightarrow> mid \<noteq> []"
  proof
    assume "ek e \<in> r_key ` set rs"
    then obtain r where "r \<in> set pre \<or> r \<in> set mid \<or> r \<in> set post" and x: "ek e = r_key r" unfolding sp(1) by auto
    then have "r \<in> set mid" using sp(2,4) by (metis key_less_irrefl)
    then show "mid \<noteq> []" by auto
  next
    assume "mid \<noteq> []"
    then have "hd mid \<in> set rs" "r_key (hd mid) = ek e" using sp(3) by (simp_all add: sp(1))
    then show "ek e \<in> r_key ` set rs" by (metis imageI)
  qed
  have "{x \<in> set es. ek x \<notin> r_key ` set post} = {x \<in> set es. ek x \<notin> r_key ` set rs}"
    using past sp(1) by auto
  then have IH: "set (apply_batch es post) = {x \<in> set es. ek x \<notin> r_key ` set rs} \<union> {x. \<exists>r\<in>set post. r_entry r = Some x}"
    using Cons.IH [OF sorted post] by simp
  have out: "set (step_out e rs) = (if mid = [] then {e} else {}) \<union> {x. \<exists>r\<in>set pre \<union> set mid. r_entry r = Some x}"
    unfolding sp(5) by (auto simp: set_batch_entries simp del: set_concat)
  have "set (apply_batch (e # es) rs) = set (step_out e rs) \<union> set (apply_batch es post)" by (simp add: sp(6))
  also have "\<dots> = {x \<in> set (e # es). ek x \<notin> r_key ` set rs} \<union> {x. \<exists>r\<in>set rs. r_entry r = Some x}"
    unfolding IH out using e by (auto simp: sp(1))
  finally show ?case .
qed

lemma apply_batch_key:
  assumes "keyed_batch rs" and "x \<in> set (apply_batch es rs)" and "sorted_entries es" and "sorted_batch rs"
  shows "ek x \<in> ek ` set es \<union> r_key ` set rs"
  using assms(1,2) unfolding set_apply_batch [OF assms(3,4)] keyed_batch_def by force

lemma sorted_batch_entries: "sorted_batch rs \<Longrightarrow> keyed_batch rs \<Longrightarrow> sorted_entries (batch_entries rs)"
proof (induction rs)
  case (Cons r rs)
  have keyed: "keyed_batch rs" using Cons.prems(2) by (simp add: keyed_batch_def)
  have later: "\<forall>x\<in>set (batch_entries rs). key_less (r_key r) (ek x)"
    using Cons.prems(1) keyed by (auto simp: set_batch_entries keyed_batch_def simp del: set_concat)
  have "sorted_entries (batch_entries rs)" using Cons.IH Cons.prems(1) keyed by simp
  then show ?case using later Cons.prems(2) by (cases "r_entry r") (simp_all add: keyed_batch_def)
qed simp

lemma sorted_apply_batch:
  assumes "sorted_entries es" and "sorted_batch rs" and "keyed_batch rs"
  shows "sorted_entries (apply_batch es rs)"
  using assms
proof (induction es arbitrary: rs)
  case Nil
  then show ?case by (simp add: sorted_batch_entries)
next
  case (Cons e es)
  obtain pre mid post where sp: "rs = pre @ mid @ post" "\<forall>r\<in>set pre. key_less (r_key r) (ek e)"
    "\<forall>r\<in>set mid. r_key r = ek e" "\<forall>r\<in>set post. key_less (ek e) (r_key r)"
    "step_out e rs = batch_entries pre @ (if mid = [] then [e] else batch_entries mid)" "step_rest e rs = post"
    using batch_split [OF Cons.prems(2)] by metis
  have sorted: "sorted_batch (pre @ mid)" "sorted_batch post" "sorted_batch pre"
    using Cons.prems(2) by (simp_all add: sp(1) sorted_wrt_append)
  have keyed: "keyed_batch (pre @ mid)" "keyed_batch post" "keyed_batch pre"
    using Cons.prems(3) by (auto simp: sp(1) keyed_batch_def)
  have pre: "key_less (ek x) (ek e)" if "x \<in> set (batch_entries pre)" for x
    using that sp(2) keyed(3) unfolding set_batch_entries keyed_batch_def by force
  have mid: "ek x = ek e" if "x \<in> set (batch_entries mid)" for x
    using that sp(3) keyed(1) by (auto simp: keyed_batch_def set_batch_entries simp del: set_concat) (metis UnCI)
  have low: "ek x = ek e \<or> key_less (ek x) (ek e)" if "x \<in> set (step_out e rs)" for x
    using that pre [of x] mid [of x] unfolding sp(5) by (auto simp del: set_concat split: if_splits)
  have high: "key_less (ek e) (ek x)" if "x \<in> set (apply_batch es post)" for x
    using apply_batch_key [OF keyed(2) that _ sorted(2)] Cons.prems(1) sp(4) by fastforce
  have "sorted_entries (step_out e rs)"
  proof (cases mid)
    case Nil
    then show ?thesis using sorted_batch_entries [OF sorted(3) keyed(3)] pre
      by (simp add: sp(5) sorted_wrt_append del: set_concat)
  next
    case (Cons r rest)
    then have "step_out e rs = batch_entries (pre @ mid)" by (simp add: sp(5))
    then show ?thesis using sorted_batch_entries [OF sorted(1) keyed(1)] by simp
  qed
  moreover have "sorted_entries (apply_batch es post)"
    using Cons.IH [OF _ sorted(2) keyed(2)] Cons.prems(1) by simp
  moreover have "key_less (ek x) (ek y)" if "x \<in> set (step_out e rs)" "y \<in> set (apply_batch es post)" for x y
    using low [OF that(1)] high [OF that(2)] key_less_trans by metis
  ultimately show ?case by (simp add: sp(6) sorted_wrt_append)
qed

text \<open>The batch in key order: distinct keys are strictly ascending.\<close>

lemma key_nat_less: "key_nat a < key_nat b \<longleftrightarrow> key_less a b"
proof -
  have "unat (snd a) < 2 ^ 64" "unat (snd b) < 2 ^ 64" using unsigned_less [of "snd a"] unsigned_less [of "snd b"] by simp_all
  moreover have "x * n + i < y * n + j \<longleftrightarrow> x < y \<or> x = y \<and> i < j" if "i < n" "j < n" for x y n i j :: nat
  proof (cases x y rule: linorder_cases)
    case less
    then have "Suc x * n \<le> y * n" by (intro mult_le_mono1) simp
    then show ?thesis using less that(1) by simp
  next
    case greater
    then have "Suc y * n \<le> x * n" by (intro mult_le_mono1) simp
    then show ?thesis using greater that(2) by simp
  qed simp
  ultimately show ?thesis by (auto simp: key_nat_def key_less_def word_less_nat_alt word_unat_eq_iff)
qed

lemma batch_order_sorted:
  assumes "distinct (map r_key plan)"
  shows "sorted_batch (batch_order plan)"
proof -
  have inj: "a = b" if "key_nat a = key_nat b" for a b
    using that by (metis key_less_linear key_nat_less less_irrefl)
  have "distinct (map (\<lambda>r. key_nat (r_key r)) (batch_order plan))"
    using assms by (auto simp: batch_order_def distinct_map inj_on_def dest!: inj)
  then have "sorted_wrt (<) (map (\<lambda>r. key_nat (r_key r)) (batch_order plan))"
    by (simp add: batch_order_def strict_sorted_iff)
  then show ?thesis by (simp add: sorted_wrt_map key_nat_less)
qed

lemma set_batch_order [simp]: "set (batch_order plan) = set plan"
  by (simp add: batch_order_def)

lemma keyed_batch_order [simp]: "keyed_batch (batch_order plan) = keyed_batch plan"
  by (simp add: keyed_batch_def)

subsection \<open>What the search finds\<close>

text \<open>The retained revision and the head of an object, read off the whole array.\<close>

definition lookup :: "entry list \<Rightarrow> object_id \<Rightarrow> entry option \<times> entry option" where
  "lookup es i = (let grp = filter (\<lambda>e. obj (e_meta e) = i) es in (find retained grp, find (\<lambda>e. \<not> retained e) grp))"

definition note_entry :: "entry \<Rightarrow> entry option \<times> entry option \<Rightarrow> entry option \<times> entry option" where
  "note_entry e found = (if retained e then (Some e, snd found) else (fst found, Some e))"

abbreviation below :: "object_id \<Rightarrow> entry list \<Rightarrow> nat" where
  "below i es \<equiv> length (takeWhile (\<lambda>e. obj (e_meta e) < i) es)"

lemma sorted_obj:
  assumes "sorted_entries es" and "j \<le> k" and "k < length es"
  shows "obj (e_meta (es ! j)) \<le> obj (e_meta (es ! k))"
proof (cases "j = k")
  case False
  then have "key_less (ek (es ! j)) (ek (es ! k))" using sorted_wrt_nth_less [OF assms(1), of j k] assms(2,3) by simp
  then show ?thesis by (auto simp: key_less_def meta_key_def)
qed simp

lemma below_unique:
  assumes "k \<le> length es" and "\<forall>j<k. obj (e_meta (es ! j)) < i" and "k < length es \<Longrightarrow> \<not> obj (e_meta (es ! k)) < i"
  shows "below i es = k"
proof -
  have "takeWhile (\<lambda>e. obj (e_meta e) < i) es = take k es"
    by (rule takeWhile_eq_take_P_nth) (use assms in auto)
  then show ?thesis using assms(1) by simp
qed

text \<open>The entries of an object are contiguous and start where the search ends.\<close>

lemma group_is_run:
  assumes "sorted_entries es"
  shows "filter (\<lambda>e. obj (e_meta e) = i) es = takeWhile (\<lambda>e. obj (e_meta e) = i) (drop (below i es) es)"
  using assms
proof (induction es)
  case (Cons e es)
  have later: "\<forall>x\<in>set es. obj (e_meta e) \<le> obj (e_meta x)"
    using Cons.prems by (auto simp: key_less_def meta_key_def)
  have IH: "filter (\<lambda>e. obj (e_meta e) = i) es = takeWhile (\<lambda>e. obj (e_meta e) = i) (drop (below i es) es)"
    using Cons by simp
  consider "obj (e_meta e) < i" | "obj (e_meta e) = i" | "i < obj (e_meta e)" by (metis linorder_cases)
  then show ?case
  proof cases
    case 1
    then show ?thesis using IH by auto
  next
    case 2
    then have "takeWhile (\<lambda>x. obj (e_meta x) < i) es = []" using later by (cases es) auto
    then show ?thesis using IH 2 by simp
  next
    case 3
    then have "filter (\<lambda>x. obj (e_meta x) = i) es = []" using later by (auto simp: filter_empty_conv)
    then show ?thesis using 3 by auto
  qed
qed simp

lemma takeWhile_take_all: "length (takeWhile P xs) \<le> n \<Longrightarrow> takeWhile P (take n xs) = takeWhile P xs"
proof (induction xs arbitrary: n)
  case (Cons x xs)
  then show ?case by (cases n) auto
qed simp

text \<open>The scan looks at two entries; a catalog that follows the rules has no object with more.\<close>

lemma scan_is_lookup:
  assumes "wf_catalog g n es"
  shows "fold note_entry (takeWhile (\<lambda>e. obj (e_meta e) = i) (take 2 (drop (below i es) es))) (None, None) = lookup es i"
proof -
  let ?grp = "filter (\<lambda>e. obj (e_meta e) = i) es"
  have sorted: "sorted_entries es" using assms by (simp add: wf_catalog_def)
  have "?grp = [] \<or> complete_group ?grp"
  proof (cases ?grp)
    case (Cons a rest)
    then have "a \<in> set ?grp" by (simp only: list.set_intros(1))
    then have "a \<in> set es" "obj (e_meta a) = i" by simp_all
    then show ?thesis using assms by (auto simp: wf_catalog_def group_of_def)
  qed simp
  then have grp: "?grp = [] \<or> (\<exists>h. ?grp = [h] \<and> \<not> retained h) \<or> (\<exists>r h. ?grp = [r, h] \<and> retained r \<and> \<not> retained h)"
    by (cases ?grp rule: complete_group.cases) auto
  then have "length ?grp \<le> 2" by auto
  then have "takeWhile (\<lambda>e. obj (e_meta e) = i) (take 2 (drop (below i es) es)) = ?grp"
    unfolding group_is_run [OF sorted] by (rule takeWhile_take_all)
  then show ?thesis using grp by (auto simp: lookup_def note_entry_def)
qed

text \<open>The served copy's array, on a card with contents \<open>m\<close>, is \<open>es\<close>, and \<open>es\<close> follows the rules.\<close>

definition catalog_held :: "(nat \<Rightarrow> bytes) \<Rightarrow> 'd fstore \<Rightarrow> entry list \<Rightarrow> bool" where
  "catalog_held m s es \<longleftrightarrow> sv_copy (fs_served s) < 2 \<and> unat (sv_entry_count (fs_served s)) = length es
     \<and> length es \<le> ENTRY_CAPACITY
     \<and> array_holds m (CATALOG ! sv_copy (fs_served s) + 1) (fs_extents s) es
     \<and> wf_catalog (fs_geometry s) (sv_next_object (fs_served s)) es"

context block_device
begin

text \<open>The card still holds the array of \<open>m\<close>.\<close>

definition array_on :: "(nat \<Rightarrow> bytes) \<Rightarrow> nat \<Rightarrow> nat \<Rightarrow> 'd \<Rightarrow> bool" where
  "array_on m base n d \<longleftrightarrow> good d \<and> (\<forall>b. length (m b) = BLOCK) \<and> (alive d \<longrightarrow> (\<forall>b. array_region base n b \<longrightarrow> media d b = m b))"

lemma array_on_confined:
  assumes "array_on m base n d" and "confined W d d'" and "\<And>b. array_region base n b \<Longrightarrow> \<not> W b"
  shows "array_on m base n d'"
proof -
  have "media d' b = m b" if "alive d'" "array_region base n b" for b
    using confined_at(2) [OF assms(2) assms(3) [OF that(2)] that(1)] confined_alive [OF assms(2) that(1)] assms(1) that(2)
    by (simp add: array_on_def)
  then show ?thesis using assms(1) confined_good [OF assms(2)] by (simp add: array_on_def)
qed

lemma array_on_get:
  assumes "array_on m base (length es) d" and "cu_over m base ec (length es) cu"
    and "array_holds m base ec es" and "i < length es" and "cursor_get D cu i d = (r, d')"
  shows "confined (\<lambda>_. False) d d' \<and> array_on m base (length es) d'
    \<and> (r = Inl Media \<or> (\<exists>cu'. r = Inr (es ! i, cu') \<and> cu_over m base ec (length es) cu'))"
proof -
  have "confined (\<lambda>_. False) d d' \<and> (r = Inl Media \<or> (\<exists>cu'. r = Inr (es ! i, cu') \<and> cu_over m base ec (length es) cu'))"
    by (rule array_get [OF _ assms(2) _ _ assms(3-5)]) (use assms(1) in \<open>simp_all add: array_on_def\<close>)
  then show ?thesis using array_on_confined [OF assms(1)] by blast
qed

lemma find_low_spec:
  assumes arr: "array_holds m base ec es" and sorted: "sorted_entries es"
  shows "low \<le> high \<Longrightarrow> high \<le> length es \<Longrightarrow> \<forall>j<low. obj (e_meta (es ! j)) < i \<Longrightarrow>
    (high < length es \<Longrightarrow> \<not> obj (e_meta (es ! high)) < i) \<Longrightarrow>
    array_on m base (length es) d \<Longrightarrow> cu_over m base ec (length es) cu \<Longrightarrow> find_low D i cu low high d = (r, d') \<Longrightarrow>
    confined (\<lambda>_. False) d d' \<and> array_on m base (length es) d'
    \<and> (r = Inl Media \<or> (\<exists>cu'. r = Inr (below i es, cu') \<and> cu_over m base ec (length es) cu'))"
proof (induction "high - low" arbitrary: low high cu d rule: less_induct)
  case less
  show ?case
  proof (cases "low < high")
    case False
    then have "low = high" using less.prems(1) by simp
    then have "below i es = low" using below_unique [of low es i] less.prems by simp
    then show ?thesis using False less.prems(5-7) confined_refl by (auto simp: array_on_def)
  next
    case True
    define mid where "mid = low + (high - low) div 2"
    have mid: "low \<le> mid" "mid < high" using True by (simp_all add: mid_def)
    have mid_es: "mid < length es" using mid less.prems(2) by simp
    obtain r1 d1 where get: "cursor_get D cu mid d = (r1, d1)" by fastforce
    note g = array_on_get [OF less.prems(5,6) arr mid_es get]
    show ?thesis
    proof (cases r1)
      case (Inl x)
      then show ?thesis using g less.prems(7) True by (auto simp: Let_def mid_def [symmetric] bindS_def get)
    next
      case (Inr ecu)
      then obtain cu1 where cu1: "r1 = Inr (es ! mid, cu1)" "cu_over m base ec (length es) cu1" using g by auto
      have on1: "array_on m base (length es) d1" and c1: "confined (\<lambda>_. False) d d1" using g by simp_all
      have "confined (\<lambda>_. False) d1 d' \<and> array_on m base (length es) d'
          \<and> (r = Inl Media \<or> (\<exists>cu'. r = Inr (below i es, cu') \<and> cu_over m base ec (length es) cu'))"
      proof (cases "obj (e_meta (es ! mid)) < i")
        case True
        then have low: "\<forall>j<mid + 1. obj (e_meta (es ! j)) < i"
          using sorted_obj [OF sorted _ mid_es] by (metis Suc_eq_plus1 less_Suc_eq_le order_le_less_trans)
        have run: "find_low D i cu1 (mid + 1) high d1 = (r, d')"
          using less.prems(7) \<open>low < high\<close> True cu1(1) by (simp add: Let_def mid_def [symmetric] bindS_def get)
        show ?thesis
          by (rule less.hyps [OF _ _ less.prems(2) low less.prems(4) on1 cu1(2) run]) (use mid in auto)
      next
        case False
        have run: "find_low D i cu1 low mid d1 = (r, d')"
          using less.prems(7) \<open>low < high\<close> False cu1(1) by (simp add: Let_def mid_def [symmetric] bindS_def get)
        show ?thesis
          by (rule less.hyps [OF _ mid(1) _ less.prems(3) _ on1 cu1(2) run]) (use mid mid_es False in auto)
      qed
      then show ?thesis using confined_trans [OF c1] by blast
    qed
  qed
qed

lemma find_scan_spec:
  assumes arr: "array_holds m base ec es"
  shows "k \<le> stop \<Longrightarrow> stop \<le> length es \<Longrightarrow> array_on m base (length es) d \<Longrightarrow> cu_over m base ec (length es) cu \<Longrightarrow>
    find_scan D i cu [k..<stop] found d = (r, d') \<Longrightarrow>
    confined (\<lambda>_. False) d d' \<and> (r = Inl Media
      \<or> r = Inr (fold note_entry (takeWhile (\<lambda>e. obj (e_meta e) = i) (take (stop - k) (drop k es))) found))"
proof (induction "stop - k" arbitrary: k cu d found)
  case 0
  then show ?case using confined_refl by (auto simp: array_on_def)
next
  case (Suc n)
  have k: "k < length es" "[k..<stop] = k # [Suc k..<stop]" using Suc.hyps(2) Suc.prems(2) by (simp_all add: upt_conv_Cons)
  have take: "take (stop - k) (drop k es) = es ! k # take (stop - Suc k) (drop (Suc k) es)"
    using Suc.hyps(2) k(1) by (simp add: Cons_nth_drop_Suc [symmetric] take_Cons' flip: Suc_diff_Suc)
  obtain r1 d1 where get: "cursor_get D cu k d = (r1, d1)" by fastforce
  note g = array_on_get [OF Suc.prems(3,4) arr k(1) get]
  show ?case
  proof (cases r1)
    case (Inl x)
    then show ?thesis using g Suc.prems(5) by (auto simp: k(2) bindS_def get)
  next
    case (Inr ecu)
    then obtain cu1 where cu1: "r1 = Inr (es ! k, cu1)" "cu_over m base ec (length es) cu1" using g by auto
    show ?thesis
    proof (cases "obj (e_meta (es ! k)) = i")
      case False
      then show ?thesis using g Suc.prems(5) cu1(1) by (auto simp: k(2) bindS_def get take)
    next
      case True
      have run: "find_scan D i cu1 [Suc k..<stop] (note_entry (es ! k) found) d1 = (r, d')"
        using Suc.prems(5) True cu1(1) by (simp add: k(2) bindS_def get note_entry_def)
      have "confined (\<lambda>_. False) d1 d' \<and> (r = Inl Media
        \<or> r = Inr (fold note_entry (takeWhile (\<lambda>e. obj (e_meta e) = i) (take (stop - Suc k) (drop (Suc k) es)))
            (note_entry (es ! k) found)))"
        by (rule Suc.hyps(1) [OF _ _ _ _ cu1(2) run]) (use Suc.hyps(2) Suc.prems(2) g in auto)
      then show ?thesis using g True confined_trans by (auto simp: take)
    qed
  qed
qed

lemma store_find_spec:
  assumes on: "array_on m (CATALOG ! sv_copy (fs_served s) + 1) (length es) (fs_dev s)"
    and cat: "catalog_held m s es" and run: "store_find D i s = (r, s')"
  shows "confined (\<lambda>_. False) (fs_dev s) (fs_dev s') \<and> s' = s\<lparr>fs_dev := fs_dev s'\<rparr>
    \<and> (r = Inl Media \<or> r = Inr (lookup es i))"
proof -
  define sv n base ec where "sv = fs_served s" and "n = length es" and "base = CATALOG ! sv_copy (fs_served s) + 1"
    and "ec = fs_extents s"
  have n: "unat (sv_entry_count sv) = length es" and arr: "array_holds m base ec es"
    and wf: "wf_catalog (fs_geometry s) (sv_next_object sv) es"
    using cat by (simp_all add: catalog_held_def sv_def base_def ec_def)
  have sorted: "sorted_entries es" using wf by (simp add: wf_catalog_def)
  define cu where "cu = cursor_new (sv_copy sv) ec (sv_entry_count sv) BLOCK"
  have cu: "cu_over m base ec (length es) cu"
    by (simp add: cu_def cu_over_def cu_ok_new, simp add: cursor_new_def n [unfolded sv_def] base_def sv_def)
  obtain r1 d1 where fl: "find_low D i cu 0 (length es) (fs_dev s) = (r1, d1)" by fastforce
  have low: "confined (\<lambda>_. False) (fs_dev s) d1 \<and> array_on m base (length es) d1
      \<and> (r1 = Inl Media \<or> (\<exists>cu'. r1 = Inr (below i es, cu') \<and> cu_over m base ec (length es) cu'))"
    by (rule find_low_spec [OF arr sorted _ _ _ _ on [folded base_def] cu fl]) auto
  have small: "length es < 65536" using unsigned_less [of "sv_entry_count sv", where 'a = nat] n by simp
  have def: "store_find D i s = devS (bindS (find_low D i cu 0 (length es)) (\<lambda>(low, cu).
      find_scan D i cu [low..<min (length es) (min (low + 2) 65535)] (None, None))) s"
    by (simp only: store_find_def getS_def Let_def cu_def ec_def sv_def [symmetric] n)
  show ?thesis
  proof (cases r1)
    case (Inl x)
    then show ?thesis using run low by (auto simp: def devS_def bindS_def fl simp del: find_low.simps)
  next
    case (Inr lc)
    then obtain cu1 where cu1: "r1 = Inr (below i es, cu1)" "cu_over m base ec (length es) cu1" using low by auto
    have k: "below i es \<le> length es" by (rule length_takeWhile_le)
    have stop: "min (length es) (min (below i es + 2) 65535) = min (length es) (below i es + 2)" using small by linarith
    obtain r2 d2 where fs: "find_scan D i cu1 [below i es..<min (length es) (below i es + 2)] (None, None) d1 = (r2, d2)"
      by fastforce
    have "confined (\<lambda>_. False) d1 d2 \<and> (r2 = Inl Media
        \<or> r2 = Inr (fold note_entry (takeWhile (\<lambda>e. obj (e_meta e) = i)
              (take (min (length es) (below i es + 2) - below i es) (drop (below i es) es))) (None, None)))"
      by (rule find_scan_spec [OF arr _ _ _ cu1(2) fs]) (use k low in auto)
    moreover have "take (min (length es) (below i es + 2) - below i es) (drop (below i es) es) = take 2 (drop (below i es) es)"
      by (cases "below i es + 2 \<le> length es") (simp_all add: min_def)
    moreover have "store_find D i s = (r2, s\<lparr>fs_dev := d2\<rparr>)"
      unfolding def devS_def bindS_def fl cu1(1) by (simp only: prod.case sum.case stop fs)
    ultimately show ?thesis
      using run low confined_trans scan_is_lookup [OF wf, of i] by auto
  qed
qed

end

end
