(* ===== verification/Flat_Commit.thy ===== *)
theory Flat_Commit
  imports Flat_Ride Flat_Lookup
begin

text \<open>
  Mount, initialization and the catalog commit of \<open>firmware/obc-storage/src/flat/store.rs\<close>.

  Mount probes both catalog copies and serves the newest one that is whole; a commit builds the next
  catalog in the copy that is not served and certifies it with its gate, written last. What a power
  cut can leave of it is the subject of \<open>Flat_Publish\<close>.
\<close>

subsection \<open>Initialization\<close>

fun write_each :: "'d bdev \<Rightarrow> nat list \<Rightarrow> bytes \<Rightarrow> ('d, unit) io" where
  "write_each D [] bs = retS ()"
| "write_each D (b # rest) bs = bindS (write_blocks D b bs) (\<lambda>_. write_each D rest bs)"

definition block_count :: "'d bdev \<Rightarrow> ('d, nat) io" where
  "block_count D d = (case bd_block_count D d of (None, d') \<Rightarrow> (Inl Media, d') | (Some n, d') \<Rightarrow> (Inr n, d'))"

definition write_empty_store :: "'d bdev \<Rightarrow> store_id \<Rightarrow> ('d, unit) io" where
  "write_empty_store D store =
     bindS (block_count D) (\<lambda>n.
     bindS (liftE (ok_or (sb_for_card store (of_nat n)) Invalid)) (\<lambda>sb.
     bindS (write_each D SUPERBLOCK INVALIDATED) (\<lambda>_.
     bindS (sync_dev D) (\<lambda>_.
     bindS (write_blocks D (catalog_gate 1) INVALIDATED) (\<lambda>_.
     bindS (sync_dev D) (\<lambda>_.
     bindS (write_each D (map slot_header_block [0..<SLOTS]) INVALIDATED) (\<lambda>_.
     bindS (sync_dev D) (\<lambda>_.
     let body = cat_header_encode \<lparr>h_store = store, h_sequence = 1, next_object = 1, h_entry_count = 0\<rparr> in
     bindS (write_blocks D (CATALOG ! 0) body) (\<lambda>_.
     bindS (sync_dev D) (\<lambda>_.
     let gate = \<lparr>g_copy = 0, g_store = store, g_sequence = 1, g_entry_count = 0, body_crc = crc32 body\<rparr> in
     bindS (write_blocks D (catalog_gate 0) (gate_encode gate)) (\<lambda>_.
     bindS (sync_dev D) (\<lambda>_.
     bindS (write_each D SUPERBLOCK (sb_encode sb)) (\<lambda>_. sync_dev D)))))))))))))"

definition format_media :: "'d bdev \<Rightarrow> store_id \<Rightarrow> ('d fstore, unit) io" where
  "format_media D store s =
     (if fs_mode s = RemountRequired then (Inl ReadOnly, s) else devS (write_empty_store D store) s)"

definition sync_media :: "'d bdev \<Rightarrow> ('d fstore, unit) io" where
  "sync_media D = devS (sync_dev D)"

definition require_remount :: "'d fstore \<Rightarrow> 'd fstore" where
  "require_remount s = s\<lparr>fs_served := (fs_served s)\<lparr>sv_mode := RemountRequired\<rparr>\<rparr>"

definition set_route_added_at :: "u32 option \<Rightarrow> 'd fstore \<Rightarrow> 'd fstore" where
  "set_route_added_at utc s = s\<lparr>fs_route_added_at := (case utc of None \<Rightarrow> 0 | Some t \<Rightarrow> t)\<rparr>"

definition mounted_media_state :: "'d fstore \<Rightarrow> mounted_state" where
  "mounted_media_state s =
     (let sv = fs_served s in
      \<lparr>ms_store = fs_store s, ms_extent_size = extent_size (fs_geometry s), ms_extent_count = fs_extents s,
       served = \<lparr>gi_copy = of_nat (sv_copy sv), gi_sequence = sv_sequence sv, gi_entry_count = sv_entry_count sv,
                 gi_body_crc = sv_body_crc sv\<rparr>,
       high_water = sv_high_water sv\<rparr>)"

definition has_commit_capacity :: "'d fstore \<Rightarrow> nat \<Rightarrow> bool" where
  "has_commit_capacity s n \<longleftrightarrow>
     writable (fs_mode s) \<and> checked_add 64 (unat (sv_high_water (fs_served s))) n \<noteq> None"

definition next_object_id :: "'d fstore \<Rightarrow> object_id" where
  "next_object_id s = sv_next_object (fs_served s)"

subsection \<open>Mount\<close>

record loaded =
  ld_next_object :: u64
  ld_recording :: "entry option"
  ld_exhausted :: bool

definition claimS :: "ranges \<Rightarrow> (free_map, unit) io" where
  "claimS rs fm = (case fm_claim fm rs of (fm', Inl _) \<Rightarrow> (Inl Invalid, fm') | (fm', Inr _) \<Rightarrow> (Inr (), fm'))"

text \<open>The entries of one window: decoded, checked against the structure rules, and claimed.\<close>

fun load_window :: "nat \<Rightarrow> bytes \<Rightarrow> nat list \<Rightarrow> structure_state \<times> loaded
    \<Rightarrow> (free_map, structure_state \<times> loaded) io" where
  "load_window extents window [] x = retS x"
| "load_window extents window (i # is) x =
     bindS (liftE (map_errE (\<lambda>_. Invalid) (entry_decode (slice (i * ENTRY_STRIDE) ENTRY_STRIDE window) extents))) (\<lambda>e.
     bindS (liftE (map_errE (\<lambda>_. Invalid) (accept (fst x) e))) (\<lambda>st.
     bindS (claimS (e_ranges e)) (\<lambda>_.
       load_window extents window is (st, (snd x)\<lparr>
         ld_recording := (if is_recording e then Some e else ld_recording (snd x)),
         ld_exhausted := (ld_exhausted (snd x) \<or> rev (e_meta e) = - 1)\<rparr>))))"

definition on_map :: "(free_map, 'a) io \<Rightarrow> ('d \<times> free_map, 'a) io" where
  "on_map m s = (case m (snd s) of (r, fm) \<Rightarrow> (r, fst s, fm))"

function load_loop :: "'d bdev \<Rightarrow> nat \<Rightarrow> nat \<Rightarrow> nat \<Rightarrow> nat \<Rightarrow> crc32_hasher \<Rightarrow> structure_state \<times> loaded
    \<Rightarrow> ('d \<times> free_map, crc32_hasher \<times> structure_state \<times> loaded) io" where
  "load_loop D extents copy entry_count at digest x =
     (if at < entry_count
      then let remaining = entry_count - at;
               blocks = min (div_ceil remaining ENTRIES_PER_BLOCK) MOUNT_STREAM_BLOCKS;
               count = min remaining (blocks * ENTRIES_PER_BLOCK) in
        bindS (on_dev (read_blocks D (CATALOG ! copy + 1 + at div ENTRIES_PER_BLOCK) blocks)) (\<lambda>window.
        bindS (on_map (load_window extents window [0..<count] x)) (\<lambda>x.
          load_loop D extents copy entry_count (at + count)
            (crc_update digest (take (count * ENTRY_STRIDE) window)) x))
      else retS (digest, x))"
  by pat_completeness auto
termination
proof (relation "measure (\<lambda>(D, extents, copy, entry_count, at, digest, x). entry_count - at)", goal_cases)
  case (2 D extents copy entry_count at digest x remaining blocks count)
  then have "0 < remaining" by simp
  then have "0 < div_ceil remaining ENTRIES_PER_BLOCK"
    using le_div_ceil_mult [of ENTRIES_PER_BLOCK remaining] by (cases "div_ceil remaining ENTRIES_PER_BLOCK") (auto simp: fmt_consts)
  then have "0 < count" using 2 \<open>0 < remaining\<close> by (simp add: MOUNT_STREAM_BLOCKS_def fmt_consts)
  then have "entry_count - (at + count) < entry_count - at" using 2(1) by linarith
  then show ?case by (simp only: in_measure prod.case)
qed simp

definition load :: "'d bdev \<Rightarrow> nat \<Rightarrow> gate \<Rightarrow> ('d fstore, loaded) io" where
  "load D copy gate s =
     (let store = fs_store s; extents = fs_extents s; run =
        bindS (on_dev (read_blocks D (CATALOG ! copy) 1)) (\<lambda>hb.
        bindS (liftE (map_errE (\<lambda>_. Invalid) (cat_header_decode hb store))) (\<lambda>h.
        if h_entry_count h \<noteq> g_entry_count gate \<or> h_sequence h \<noteq> g_sequence gate then failS Invalid
        else bindS (load_loop D extents copy (unat (h_entry_count h)) 0 (crc_update crc_new hb)
            (structure_new (fs_geometry s),
             \<lparr>ld_next_object = next_object h, ld_recording = None, ld_exhausted = False\<rparr>)) (\<lambda>(digest, st, ld).
        bindS (liftE (map_errE (\<lambda>_. Invalid) (structure_finish st h))) (\<lambda>_.
        if finalize digest \<noteq> body_crc gate then failS Invalid else retS ld))))
      in case run (fs_dev s, fm_reset extents) of (r, d, fm) \<Rightarrow> (r, s\<lparr>fs_dev := d, fs_free := fm\<rparr>))"

text \<open>The first superblock copy that reads and decodes.\<close>

fun find_superblock :: "'d bdev \<Rightarrow> nat list \<Rightarrow> 'd \<Rightarrow> superblock option \<times> 'd" where
  "find_superblock D [] d = (None, d)"
| "find_superblock D (b # rest) d =
     (case read_blocks D b 1 d of
        (Inr bs, d') \<Rightarrow> (case sb_decode bs of Inr sb \<Rightarrow> (Some sb, d') | Inl _ \<Rightarrow> find_superblock D rest d')
      | (Inl _, d') \<Rightarrow> find_superblock D rest d')"

definition read_gate :: "'d bdev \<Rightarrow> store_id \<Rightarrow> nat \<Rightarrow> 'd \<Rightarrow> gate option \<times> 'd" where
  "read_gate D store copy d =
     (case read_blocks D (catalog_gate copy) 1 d of
        (Inr bs, d') \<Rightarrow> (okR (gate_decode bs copy store), d')
      | (Inl _, d') \<Rightarrow> (None, d'))"

text \<open>The candidate copies in the order mount tries them; \<open>None\<close> when the two sequences are equal.\<close>

definition mount_order :: "gate option \<Rightarrow> gate option \<Rightarrow> nat list option" where
  "mount_order a b = (case (a, b) of
     (Some a, Some b) \<Rightarrow>
       if g_sequence a = g_sequence b then None
       else if g_sequence b > g_sequence a then Some [1, 0] else Some [0, 1]
   | _ \<Rightarrow> Some [0, 1])"

definition gates_high_water :: "gate option \<Rightarrow> gate option \<Rightarrow> u64" where
  "gates_high_water a b = (case (a, b) of
     (None, None) \<Rightarrow> 0 | (Some a, None) \<Rightarrow> g_sequence a | (None, Some b) \<Rightarrow> g_sequence b
   | (Some a, Some b) \<Rightarrow> max (g_sequence a) (g_sequence b))"

text \<open>The copies in order until one loads; \<open>sv\<close> is the record being built.\<close>

fun try_copies :: "'d bdev \<Rightarrow> gate option \<times> gate option \<Rightarrow> served_state \<Rightarrow> nat list \<Rightarrow> 'd fstore \<Rightarrow> 'd fstore" where
  "try_copies D gates sv [] s = s\<lparr>fs_served := sv, fs_free := fm_reset 0\<rparr>"
| "try_copies D gates sv (copy # rest) s =
     (case (if copy = 0 then fst gates else snd gates) of
        None \<Rightarrow> try_copies D gates sv rest s
      | Some gate \<Rightarrow>
          (case load D copy gate s of
             (Inl _, s') \<Rightarrow> try_copies D gates sv rest s'
           | (Inr ld, s') \<Rightarrow>
               let sv' = sv\<lparr>sv_copy := copy, sv_sequence := g_sequence gate, sv_next_object := ld_next_object ld,
                     sv_entry_count := g_entry_count gate, sv_body_crc := body_crc gate,
                     sv_mode := (if ld_exhausted ld then RevisionSpaceExhausted
                       else if sv_high_water sv = - 1 then SequenceSpaceExhausted else ReadWrite)\<rparr>;
                   s'' = s'\<lparr>fs_served := sv'\<rparr>
               in (case ld_recording ld of None \<Rightarrow> s'' | Some e \<Rightarrow> recover_ride D e s'')))"

definition bring_up :: "'d bdev \<Rightarrow> 'd fstore \<Rightarrow> 'd fstore" where
  "bring_up D s =
     (case find_superblock D SUPERBLOCK (fs_dev s) of
        (None, d) \<Rightarrow> s\<lparr>fs_dev := d\<rparr>
      | (Some sb, d) \<Rightarrow>
          let s1 = s\<lparr>fs_dev := d, fs_store := sb_store sb, fs_geometry := sb_geometry sb,
                fs_extents := sb_extent_count sb\<rparr> in
          (case block_count D d of
             (Inl _, d1) \<Rightarrow> s1\<lparr>fs_dev := d1, fs_served := (fs_served s1)\<lparr>sv_mode := CatalogUnreadable\<rparr>\<rparr>
           | (Inr n, d1) \<Rightarrow>
               if n < unat (total_blocks sb)
               then s1\<lparr>fs_dev := d1, fs_served := (fs_served s1)\<lparr>sv_mode := CardTooSmall\<rparr>\<rparr>
               else (case read_gate D (sb_store sb) 0 d1 of (a, d2) \<Rightarrow>
                     (case read_gate D (sb_store sb) 1 d2 of (b, d3) \<Rightarrow>
                       let s2 = s1\<lparr>fs_dev := d3\<rparr>;
                           sv = (fs_served s1)\<lparr>sv_mode := CatalogUnreadable, sv_high_water := gates_high_water a b\<rparr> in
                       (case mount_order a b of
                          None \<Rightarrow> s2\<lparr>fs_served := sv\<rparr>
                        | Some order \<Rightarrow> try_copies D (a, b) sv order s2)))))"

definition mount :: "'d bdev \<Rightarrow> nat \<Rightarrow> 'd \<Rightarrow> 'd fstore" where
  "mount D addr dev = bring_up D (blank addr dev)"

definition initialize :: "'d bdev \<Rightarrow> nat \<Rightarrow> store_id \<Rightarrow> 'd \<Rightarrow> (store_error + 'd fstore) \<times> 'd" where
  "initialize D addr store dev =
     (case write_empty_store D store dev of
        (Inl e, d) \<Rightarrow> (Inl e, d)
      | (Inr _, d) \<Rightarrow>
          let s = mount D addr d in
          if writable (fs_mode s) then (Inr s, fs_dev s) else (Inl Media, fs_dev s))"

subsection \<open>Commit\<close>

text \<open>The batch resolved against the catalog, with the new entry count and the greatest id in it.\<close>

fun resolve_all :: "'d bdev \<Rightarrow> mutation list \<Rightarrow> mutation list \<Rightarrow> resolved list \<Rightarrow> int \<Rightarrow> u64
    \<Rightarrow> ('d fstore, resolved list \<times> int \<times> u64) io" where
  "resolve_all D seen [] plan count greatest = retS (plan, count, greatest)"
| "resolve_all D seen (m # ms) plan count greatest =
     (if list_ex (\<lambda>e. mutation_key e = mutation_key m) seen then failS Invalid
      else bindS (resolve D m) (\<lambda>r.
        if r_reservation r \<noteq> None \<and> list_ex (\<lambda>p. r_reservation p = r_reservation r) plan then failS Invalid
        else resolve_all D (seen @ [m]) ms (plan @ [r])
          (count + (if r_creates r then 1 else 0) - (if r_entry r = None then 1 else 0))
          (max greatest (fst (r_key r)))))"

definition accept_emit :: "('d, structure_state) emit" where
  "accept_emit e st = liftE (map_errE (\<lambda>_. Invalid) (accept st e))"

text \<open>Everything a commit checks before its first write.\<close>

definition commit_check :: "'d bdev \<Rightarrow> mutation list \<Rightarrow> ('d fstore, resolved list \<times> cat_header \<times> cursor) io" where
  "commit_check D ms = getS (\<lambda>s.
     let sv = fs_served s; n = unat (sv_entry_count sv) in
     if \<not> writable (sv_mode sv) then failS ReadOnly
     else if ms = [] \<or> length ms > MAX_BATCH then failS Invalid
     else bindS (resolve_all D [] ms [] (int n) 0) (\<lambda>(plan, count, greatest).
     if count < 0 \<or> nat count > ENTRY_CAPACITY then failS CatalogFull
     else bindS (liftE (ok_or (checked_add 64 (unat (sv_high_water sv)) 1) ReadOnly)) (\<lambda>sequence.
     let header = \<lparr>h_store = fs_store s, h_sequence = of_nat sequence,
           next_object = max (sv_next_object sv) (greatest + 1), h_entry_count = of_int count\<rparr> in
     bindS (devS (store_merge D accept_emit n (cursor_new (sv_copy sv) (fs_extents s) (sv_entry_count sv) STREAM_WINDOW)
         plan (structure_new (fs_geometry s)))) (\<lambda>(cu, st, written).
     bindS (liftE (map_errE (\<lambda>_. Invalid) (structure_finish st header))) (\<lambda>_.
     if written \<noteq> unat (h_entry_count header) then failS Invalid
     else if (case fs_ride s of None \<Rightarrow> False
         | Some ride \<Rightarrow> rs_pending_proof ride \<noteq> 0
             \<and> list_ex (\<lambda>r. r_key r = (rs_id ride, rs_revision ride) \<and> r_entry r \<noteq> None) plan)
     then failS Invalid
     else retS (plan, header, cu))))))"

text \<open>The staging blocks of the batch's reservations; the answer is whether there were any.\<close>

fun flush_staged :: "'d bdev \<Rightarrow> resolved list \<Rightarrow> bool \<Rightarrow> ('d fstore, bool) io" where
  "flush_staged D [] staged s = (Inr staged, s)"
| "flush_staged D (r # rs) staged s =
     (case r_reservation r of
        None \<Rightarrow> flush_staged D rs staged s
      | Some slot \<Rightarrow>
          (case fs_reservations s ! slot of
             None \<Rightarrow> (Inl Invalid, s)
           | Some row \<Rightarrow>
               (case flush_partial D (fs_geometry s) (fs_dev s, row) of
                  (res, d, row') \<Rightarrow>
                    let s' = s\<lparr>fs_dev := d, fs_reservations := (fs_reservations s)[slot := Some row']\<rparr> in
                    (case res of Inl e \<Rightarrow> (Inl e, s') | Inr _ \<Rightarrow> flush_staged D rs True s'))))"

text \<open>The payload made durable before the catalog is touched.\<close>

definition commit_payload :: "'d bdev \<Rightarrow> resolved list \<Rightarrow> ('d fstore, unit) io" where
  "commit_payload D plan =
     bindS (flush_staged D plan False) (\<lambda>staged.
     bindS (flush_ride_tail D plan) (\<lambda>wrote.
       if staged \<or> wrote then devS (sync_dev D) else retS ()))"

text \<open>The target copy: its gate invalidated, its body written, both durable.\<close>

definition commit_body :: "'d bdev \<Rightarrow> nat \<Rightarrow> cat_header \<Rightarrow> nat \<Rightarrow> cursor \<Rightarrow> resolved list \<Rightarrow> ('d, u32) io" where
  "commit_body D target header n cu plan =
     bindS (write_blocks D (catalog_gate target) INVALIDATED) (\<lambda>_.
     bindS (sync_dev D) (\<lambda>_.
     bindS (bw_push_header D (cat_header_encode header) (bw_new (CATALOG ! target) STREAM_WINDOW)) (\<lambda>w.
     bindS (store_merge D (bw_push D) n cu plan w) (\<lambda>(cu, w, written).
     bindS (bw_finish D w) (\<lambda>crc.
     bindS (sync_dev D) (\<lambda>_. retS crc))))))"

definition commit_gate :: "'d bdev \<Rightarrow> gate \<Rightarrow> ('d, unit) io" where
  "commit_gate D gate =
     bindS (write_blocks D (catalog_gate (unat (g_copy gate))) (gate_encode gate)) (\<lambda>_. sync_dev D)"

text \<open>The resident state once the gate is durable.\<close>

definition commit_settle :: "'d bdev \<Rightarrow> resolved list \<Rightarrow> cat_header \<Rightarrow> nat \<Rightarrow> u32 \<Rightarrow> 'd fstore \<Rightarrow> 'd fstore" where
  "commit_settle D plan header target crc s =
     (let sv = fs_served s;
          s1 = s\<lparr>fs_served := \<lparr>sv_mode = (if h_sequence header = - 1 then SequenceSpaceExhausted else sv_mode sv),
             sv_copy = target, sv_sequence = h_sequence header, sv_high_water = h_sequence header,
             sv_next_object = next_object header, sv_entry_count = h_entry_count header, sv_body_crc = crc\<rparr>\<rparr>;
          s2 = release plan s1;
          s3 = s2\<lparr>fs_reservations := fold (\<lambda>r rows. case r_reservation r of
             None \<Rightarrow> rows | Some slot \<Rightarrow> rows[slot := None]) plan (fs_reservations s2)\<rparr>
      in settle_ride D plan s3)"

definition commit :: "'d bdev \<Rightarrow> mutation list \<Rightarrow> ('d fstore, u64) io" where
  "commit D ms = getS (\<lambda>s0.
     let sv = fs_served s0; n = unat (sv_entry_count sv); target = 1 - sv_copy sv in
     bindS (commit_check D ms) (\<lambda>(plan, header, cu).
     bindS (commit_payload D plan) (\<lambda>_.
     bindS (devS (commit_body D target header n cu plan)) (\<lambda>crc.
     let gate = \<lparr>g_copy = of_nat target, g_store = fs_store s0, g_sequence = h_sequence header,
           g_entry_count = h_entry_count header, body_crc = crc\<rparr> in
     (\<lambda>s. case devS (commit_gate D gate) s of
        (Inl e, s') \<Rightarrow> (Inl e, require_remount s')
      | (Inr _, s') \<Rightarrow> (Inr (h_sequence header), commit_settle D plan header target crc s'))))))"

end
