(* ===== verification/Flat_Effects.thy ===== *)
theory Flat_Effects
  imports Flat_Ride
begin

text \<open>
  What each store operation may do to the card. The rules of \<open>stays\<close> follow the structure of the
  operations, so that one can read off the blocks an operation writes; the result is that only
  initialization and a commit ever write a superblock or a catalog copy.
\<close>

text \<open>The blocks of the objects' extents, and those of the ride journal.\<close>

definition extent_region :: "nat \<Rightarrow> bool" where
  "extent_region b \<longleftrightarrow> EXTENT_AREA \<le> b"

definition journal_region :: "nat \<Rightarrow> bool" where
  "journal_region b \<longleftrightarrow> JOURNAL \<le> b \<and> b < JOURNAL + 2 * SLOT_BLOCKS * SLOTS"

abbreviation data_region :: "nat \<Rightarrow> bool" where
  "data_region b \<equiv> extent_region b \<or> journal_region b"

lemma touched_above:
  assumes "touched lba n b" and "32 * q \<le> lba"
  shows "32 * q \<le> b"
proof -
  have "q \<le> lba div 32" using assms(2) by (simp add: less_eq_div_iff_mult_less_eq)
  also have "\<dots> \<le> b div 32" using assms(1) by (simp add: touched_def PAGE_BLOCKS_eq)
  finally show ?thesis by (simp add: less_eq_div_iff_mult_less_eq)
qed

lemma touched_below:
  assumes "touched lba n b" and "lba + n \<le> 32 * q"
  shows "b < 32 * q"
proof -
  have t: "0 < n" "b div 32 \<le> (lba + n - 1) div 32" using assms(1) by (simp_all add: touched_def PAGE_BLOCKS_eq)
  then have "(lba + n - 1) div 32 < q" using assms(2) by (simp add: div_less_iff_less_mult)
  then have "b div 32 < q" using t(2) by simp
  then show ?thesis by (simp add: div_less_iff_less_mult)
qed

lemma locate_loop_extent: "locate_loop g rs start off = Some l \<Longrightarrow> EXTENT_AREA \<le> loc_block l"
  by (induction g rs start off rule: locate_loop.induct) (auto simp: Let_def split: if_splits)

lemma locate_extent: "locate rs g off = Some l \<Longrightarrow> touched (loc_block l) n b \<Longrightarrow> extent_region b"
  using locate_loop_extent [of g rs 0 off l] touched_above [of "loc_block l" n b 128]
  by (simp add: locate_def extent_region_def EXTENT_AREA_def)

lemma slot_header_journal:
  assumes "i < SLOTS" and "touched (slot_header_block i) 1 b"
  shows "journal_region b"
  using touched_above [OF assms(2), of "50 + i"] touched_below [OF assms(2), of "51 + i"] assms(1)
  by (simp add: slot_header_block_def journal_region_def fmt_consts)

lemma slot_block_journal:
  assumes "i < SLOTS" and "touched (slot_block i + k) n b" and "k + n \<le> SLOT_BLOCKS"
  shows "journal_region b"
  using touched_above [OF assms(2), of "34 + i"] touched_below [OF assms(2), of "35 + i"] assms(1,3)
  by (simp add: slot_block_def journal_region_def fmt_consts)

text \<open>Operations that change nothing of the resident state but the device.\<close>

definition dev_only_op :: "('d fstore, 'a) io \<Rightarrow> bool" where
  "dev_only_op m \<longleftrightarrow> (\<forall>s. snd (m s) = s\<lparr>fs_dev := fs_dev (snd (m s))\<rparr>)"

lemma dev_only_opD: "dev_only_op m \<Longrightarrow> m s = (r, s') \<Longrightarrow> s' = s\<lparr>fs_dev := fs_dev s'\<rparr>"
  by (metis dev_only_op_def snd_conv)

lemma dev_only_ret: "dev_only_op (retS x)" and dev_only_fail: "dev_only_op (failS e)" and dev_only_lift: "dev_only_op (liftE r)"
  and dev_only_dev: "dev_only_op (devS m)" and dev_only_intact: "dev_only_op (intactS D slot)"
  by (simp_all add: dev_only_op_def devS_def intactS_def split: prod.splits)

lemma dev_only_get: "(\<And>s. dev_only_op (f s)) \<Longrightarrow> dev_only_op (getS f)"
  by (simp add: dev_only_op_def getS_def)

lemma dev_only_bind:
  assumes "dev_only_op m" and "\<And>x. dev_only_op (f x)"
  shows "dev_only_op (bindS m f)"
  unfolding dev_only_op_def
proof
  fix s
  obtain r s1 where m: "m s = (r, s1)" by (rule prod.exhaust)
  have s1: "s1 = s\<lparr>fs_dev := fs_dev s1\<rparr>" using dev_only_opD [OF assms(1) m] .
  show "snd (bindS m f s) = s\<lparr>fs_dev := fs_dev (snd (bindS m f s))\<rparr>"
  proof (cases r)
    case (Inl e)
    then show ?thesis using s1 by (simp add: bindS_def m)
  next
    case (Inr x)
    obtain r2 s2 where f: "f x s1 = (r2, s2)" by (rule prod.exhaust)
    have "s2 = s1\<lparr>fs_dev := fs_dev s2\<rparr>" using dev_only_opD [OF assms(2) f] .
    also have "\<dots> = s\<lparr>fs_dev := fs_dev s2\<rparr>" by (subst s1) simp
    finally have "s2 = s\<lparr>fs_dev := fs_dev s2\<rparr>" .
    then show ?thesis using Inr by (simp add: bindS_def m f)
  qed
qed

lemma dev_only_flush_ride_tail: "dev_only_op (flush_ride_tail D plan)"
  unfolding flush_ride_tail_def Let_def
  by (auto intro!: dev_only_get dev_only_bind dev_only_ret dev_only_fail dev_only_lift dev_only_dev dev_only_intact
      split: option.split)

context block_device
begin

subsection \<open>Rules\<close>

text \<open>
  \<open>m\<close>, an operation on a state whose device is \<open>p s\<close>, changes only blocks of \<open>W\<close>, and what it
  returns satisfies \<open>Q\<close>.
\<close>

definition stays :: "('s \<Rightarrow> 'd) \<Rightarrow> (nat \<Rightarrow> bool) \<Rightarrow> ('s, 'a) io \<Rightarrow> ('a \<Rightarrow> bool) \<Rightarrow> bool" where
  "stays p W m Q \<longleftrightarrow> (\<forall>s r s'. good (p s) \<longrightarrow> m s = (r, s') \<longrightarrow> confined W (p s) (p s') \<and> (\<forall>x. r = Inr x \<longrightarrow> Q x))"

lemma staysD: "stays p W m Q \<Longrightarrow> good (p s) \<Longrightarrow> m s = (r, s') \<Longrightarrow> confined W (p s) (p s')"
  by (simp add: stays_def)

lemma staysI:
  "(\<And>s r s'. good (p s) \<Longrightarrow> m s = (r, s') \<Longrightarrow> confined W (p s) (p s') \<and> (\<forall>x. r = Inr x \<longrightarrow> Q x)) \<Longrightarrow> stays p W m Q"
  by (simp add: stays_def)

lemma stays_ret: "Q x \<Longrightarrow> stays p W (retS x) Q"
  by (auto simp: stays_def confined_refl)

lemma stays_fail: "stays p W (failS e) Q"
  by (auto simp: stays_def confined_refl)

lemma stays_lift: "(\<And>x. r = Inr x \<Longrightarrow> Q x) \<Longrightarrow> stays p W (liftE r) Q"
  by (auto simp: stays_def confined_refl)

lemma stays_bind:
  assumes m: "stays p W m R" and f: "\<And>x. R x \<Longrightarrow> stays p W (f x) Q"
  shows "stays p W (bindS m f) Q"
proof (rule staysI)
  fix s r s'
  assume good: "good (p s)" and run: "bindS m f s = (r, s')"
  from run show "confined W (p s) (p s') \<and> (\<forall>x. r = Inr x \<longrightarrow> Q x)"
  proof (cases rule: bindS_cases)
    case (fails e)
    then show ?thesis using m good by (auto simp: stays_def)
  next
    case (steps x s1)
    then have c: "confined W (p s) (p s1)" and "R x" using m good by (auto simp: stays_def)
    then have "confined W (p s1) (p s') \<and> (\<forall>x. r = Inr x \<longrightarrow> Q x)"
      using f steps(2) confined_good [OF c] by (auto simp: stays_def)
    then show ?thesis using confined_trans [OF c] by blast
  qed
qed

lemma stays_then: "stays p W m (\<lambda>_. True) \<Longrightarrow> (\<And>x. stays p W (f x) Q) \<Longrightarrow> stays p W (bindS m f) Q"
  by (rule stays_bind)

lemma stays_lift_then: "(\<And>x. stays p W (f x) Q) \<Longrightarrow> stays p W (bindS (liftE r) f) Q"
  by (rule stays_then [OF stays_lift]) simp_all

lemma stays_get: "(\<And>s. stays p W (f s) Q) \<Longrightarrow> stays p W (getS f) Q"
  by (auto simp: stays_def getS_def)

lemma stays_mod: "(\<And>s. fs_dev (f s) = fs_dev s) \<Longrightarrow> stays fs_dev W (modS f) (\<lambda>_. True)"
  by (auto simp: stays_def modS_def confined_refl)

lemma stays_dev: "stays (\<lambda>d. d) W m Q \<Longrightarrow> stays fs_dev W (devS m) Q"
  by (fastforce simp: stays_def devS_def split: prod.splits)

lemma stays_on_dev: "stays (\<lambda>d. d) W m Q \<Longrightarrow> stays fst W (on_dev m) Q"
  by (fastforce simp: stays_def on_dev_def split: prod.splits)

lemma stays_read: "stays (\<lambda>d. d) W (read_blocks D lba n) (\<lambda>bs. length bs = n * BLOCK)"
proof (rule staysI)
  fix d r d' assume g: "good d" and r: "read_blocks D lba n d = (r, d')"
  then show "confined W d d' \<and> (\<forall>x. r = Inr x \<longrightarrow> length x = n * BLOCK)"
    using read_confined [OF g r] read_blocks_cases [OF g r] length_blocks [of "media d" lba n] media_len [OF g] by auto
qed

lemma stays_write:
  assumes "length bs = n * BLOCK" and "\<And>b. touched lba n b \<Longrightarrow> W b"
  shows "stays (\<lambda>d. d) W (write_blocks D lba bs) (\<lambda>_. True)"
  using confined_mono [OF write_confined [OF _ assms(1)] assms(2)] by (auto simp: stays_def)

lemma stays_sync: "stays (\<lambda>d. d) W (sync_dev D) (\<lambda>_. True)"
  using sync_confined by (auto simp: stays_def)

lemma stays_weaken: "stays p W m Q \<Longrightarrow> (\<And>b. W b \<Longrightarrow> V b) \<Longrightarrow> (\<And>x. Q x \<Longrightarrow> R x) \<Longrightarrow> stays p V m R"
  using confined_mono by (fastforce simp: stays_def)

subsection \<open>The ride in a commit\<close>

lemma stays_intact_loop: "stays (\<lambda>d. d) W (intact_loop D base ats h) (\<lambda>_. True)"
  by (induction ats arbitrary: h) (auto intro: stays_ret stays_bind [OF stays_read])

lemma stays_intact: "stays fs_dev W (intactS D slot) (\<lambda>_. True)"
proof (rule staysI)
  fix s r s' assume good: "good (fs_dev s)" and run: "intactS D slot s = (r, s')"
  obtain r1 d1 where lp: "intact_loop D (slot_block (unat (sl_slot slot))) [0, 8, 16, 24]
      (header_digest (header_bytes slot (fs_store s))) (fs_dev s) = (r1, d1)" by (rule prod.exhaust)
  have "confined W (fs_dev s) d1" using staysD [OF stays_intact_loop good lp] .
  then show "confined W (fs_dev s) (fs_dev s') \<and> (\<forall>x. r = Inr x \<longrightarrow> True)"
    using run lp by (cases r1) (auto simp: intactS_def slot_intact_def simp del: intact_loop.simps)
qed

lemma stays_tail_copy: "stays (\<lambda>d. d) extent_region (tail_copy D g rs base flushed ks wrote) (\<lambda>_. True)"
proof (induction ks arbitrary: wrote)
  case (Cons k ks)
  have "stays (\<lambda>d. d) extent_region (write_blocks D (loc_block l) block) (\<lambda>_. True)"
    if "locate rs g (flushed + k * BLOCK) = Some l" "length block = 1 * BLOCK" for l block
    by (rule stays_write [OF that(2)]) (rule locate_extent [OF that(1)])
  then show ?case
    by (auto intro!: stays_bind [OF stays_read] stays_fail stays_then [OF _ Cons.IH] Cons.IH split: option.split)
qed (simp add: stays_ret)

lemma stays_flush_ride_tail: "stays fs_dev extent_region (flush_ride_tail D plan) (\<lambda>_. True)"
  unfolding flush_ride_tail_def Let_def
  by (auto intro!: stays_get stays_ret stays_fail stays_bind [OF stays_dev [OF stays_read]] stays_lift_then
      stays_bind [OF stays_intact] stays_dev stays_tail_copy split: option.split)

lemma stays_invalidate_slots: "set is \<subseteq> {0..<SLOTS} \<Longrightarrow> stays (\<lambda>d. d) journal_region (invalidate_slots D is) (\<lambda>_. True)"
proof (induction "is")
  case (Cons i js)
  have "stays (\<lambda>d. d) journal_region (write_blocks D (slot_header_block i) INVALIDATED) (\<lambda>_. True)"
    by (rule stays_write [of _ 1]) (use Cons.prems slot_header_journal [of i] in \<open>auto simp: INVALIDATED_def\<close>)
  then show ?case using Cons by (auto intro: stays_bind)
qed (simp add: stays_sync)

lemma settle_ride_confined:
  assumes "good (fs_dev s)"
  shows "confined journal_region (fs_dev s) (fs_dev (settle_ride D plan s))"
    and "fs_served (settle_ride D plan s) = fs_served s"
proof -
  let ?s1 = "s\<lparr>fs_ride := None, fs_recovered := None\<rparr>"
  obtain r d where iv: "invalidate_slots D [0..<SLOTS] (fs_dev s) = (r, d)" by (rule prod.exhaust)
  have "confined journal_region (fs_dev s) d"
    by (rule staysD [OF stays_invalidate_slots assms iv]) auto
  then show "confined journal_region (fs_dev s) (fs_dev (settle_ride D plan s))" "fs_served (settle_ride D plan s) = fs_served s"
    using confined_refl [OF assms] by (auto simp: settle_ride_def Let_def devS_def iv split: option.split)
qed

end

end
