(* ===== verification/Flat_Payload.thy ===== *)
theory Flat_Payload
  imports Flat_Effects
begin

text \<open>
  The payload of an object, block by block. An append puts the whole blocks of what was written at
  the object's blocks and keeps the rest in the staging buffer, a seal writes the padded rest, and
  a read returns the bytes that were written, whatever the extents and the sizes of the pieces.
\<close>

subsection \<open>The blocks of an object\<close>

definition object_block :: "ranges \<Rightarrow> geometry \<Rightarrow> nat \<Rightarrow> nat" where
  "object_block rs g j = EXTENT_AREA + extent_blocks g * (expand rs ! (j div extent_blocks g)) + j mod extent_blocks g"

abbreviation object_blocks :: "ranges \<Rightarrow> geometry \<Rightarrow> nat" where
  "object_blocks rs g \<equiv> ranges_extents rs * extent_blocks g"

lemma home_block:
  assumes "wf_geometry g"
  shows "home rs g k = (object_block rs g (k div BLOCK), k mod BLOCK)"
proof -
  have sz: "extent_size g = BLOCK * extent_blocks g" using extent_size_blocks [OF assms] by simp
  have "k div extent_size g = k div BLOCK div extent_blocks g" by (simp add: sz div_mult2_eq)
  moreover have "(k mod extent_size g) div BLOCK = k div BLOCK mod extent_blocks g"
    unfolding sz mod_mult2_eq by (simp add: BLOCK_def)
  ultimately show ?thesis by (simp add: home_def object_block_def)
qed

lemma object_block_inj:
  assumes "distinct (expand rs)" and "i < object_blocks rs g" and "j < object_blocks rs g"
    and "object_block rs g i = object_block rs g j"
  shows "i = j"
proof -
  let ?e = "extent_blocks g"
  define x y where "x = expand rs ! (i div ?e)" and "y = expand rs ! (j div ?e)"
  have eq: "?e * x + i mod ?e = ?e * y + j mod ?e" using assms(4) by (simp add: object_block_def x_def y_def)
  have "x = (?e * x + i mod ?e) div ?e" by simp
  also have "\<dots> = y" unfolding eq by simp
  finally have xy: "x = y" .
  then have m: "i mod ?e = j mod ?e" using eq by simp
  have "i div ?e < length (expand rs)" "j div ?e < length (expand rs)"
    using assms(2,3) by (simp_all add: length_expand div_less_iff_less_mult)
  then have "i div ?e = j div ?e" using xy assms(1) by (simp add: x_def y_def nth_eq_iff_index_eq)
  then show ?thesis using m by (metis div_mult_mod_eq)
qed

text \<open>What \<open>locate\<close> says of a payload offset.\<close>

lemma locate_at:
  assumes wf: "wf_geometry g" and l: "locate rs g off = Some l"
  shows "loc_offset l = off mod BLOCK"
    and "j < contiguous l \<Longrightarrow> object_block rs g ((off + j) div BLOCK) = loc_block l + (loc_offset l + j) div BLOCK"
    and "off + contiguous l \<le> object_blocks rs g * BLOCK" and "0 < contiguous l"
proof -
  note s = locate_Some [OF wf l]
  have "home rs g (off + 0) = (loc_block l + (loc_offset l + 0) div BLOCK, (loc_offset l + 0) mod BLOCK)" using s by blast
  then show "loc_offset l = off mod BLOCK" using s by (simp add: home_block [OF wf])
  show "object_block rs g ((off + j) div BLOCK) = loc_block l + (loc_offset l + j) div BLOCK" if "j < contiguous l"
    using s [THEN conjunct2, THEN conjunct2, THEN conjunct2, rule_format, OF that] by (simp add: home_block [OF wf])
  show "off + contiguous l \<le> object_blocks rs g * BLOCK" "0 < contiguous l"
    using s by (simp_all add: extent_size_blocks [OF wf] mult.assoc)
qed

lemma locate_loop_dvd:
  "wf_geometry g \<Longrightarrow> BLOCK dvd start \<Longrightarrow> BLOCK dvd off \<Longrightarrow> locate_loop g rs start off = Some l \<Longrightarrow> BLOCK dvd contiguous l"
proof (induction g rs start off rule: locate_loop.induct)
  case (2 g f c rs start off)
  have span: "BLOCK dvd unat c * extent_size g" using 2(2) by (simp add: extent_size_blocks)
  show ?case
  proof (cases "off < start + unat c * extent_size g")
    case True
    then show ?thesis using 2(3-5) span by (auto simp: Let_def intro: dvd_diff_nat)
  next
    case False
    then show ?thesis using 2(1) [OF refl] 2(2-5) span by (simp add: Let_def)
  qed
qed simp

text \<open>At a block boundary a located run is a whole number of the object's blocks, at least one.\<close>

lemma locate_blocks:
  assumes wf: "wf_geometry g" and l: "locate rs g (j * BLOCK) = Some l"
  obtains c where "0 < c" and "contiguous l = c * BLOCK" and "j + c \<le> object_blocks rs g"
    and "\<And>i. i < c \<Longrightarrow> object_block rs g (j + i) = loc_block l + i" and "loc_offset l = 0"
proof -
  have "BLOCK dvd contiguous l" using locate_loop_dvd [OF wf _ _ l [unfolded locate_def]] by simp
  then obtain c where c: "contiguous l = c * BLOCK" by (metis dvd_def mult.commute)
  have off: "loc_offset l = 0" using locate_at(1) [OF wf l] by simp
  have pos: "0 < c" using locate_at(4) [OF wf l] c by simp
  have "(j + c) * BLOCK \<le> object_blocks rs g * BLOCK" using locate_at(3) [OF wf l] by (simp only: c add_mult_distrib)
  then have le: "j + c \<le> object_blocks rs g" by (simp only: mult_le_cancel2) (simp add: BLOCK_def)
  have "object_block rs g (j + i) = loc_block l + i" if "i < c" for i
  proof -
    have "i * BLOCK < contiguous l" using that by (simp add: c BLOCK_def)
    moreover have "(j * BLOCK + i * BLOCK) div BLOCK = j + i" by (simp add: BLOCK_def)
    ultimately show ?thesis using locate_at(2) [OF wf l, of "i * BLOCK"] off by (simp add: BLOCK_def)
  qed
  then show thesis using that pos c le off by blast
qed

lemma locate_within:
  assumes "wf_geometry g" and "off < object_blocks rs g * BLOCK"
  obtains l where "locate rs g off = Some l"
  using locate_None [OF assms(1), of rs off] assms(2)
  by (cases "locate rs g off") (simp_all add: extent_size_blocks [OF assms(1)] mult.assoc)

subsection \<open>Payload on the card\<close>

text \<open>The whole blocks of \<open>p\<close> are at the object's blocks.\<close>

definition payload_on :: "(nat \<Rightarrow> bytes) \<Rightarrow> ranges \<Rightarrow> geometry \<Rightarrow> bytes \<Rightarrow> bool" where
  "payload_on m rs g p \<longleftrightarrow> (\<forall>j < length p div BLOCK. m (object_block rs g j) = chunk p j)"

text \<open>A write of whole blocks right behind them.\<close>

lemma payload_on_append:
  assumes "payload_on m rs g p" and "distinct (expand rs)" and "length p = j * BLOCK" and "length bs = n * BLOCK"
    and "j + n \<le> object_blocks rs g" and "\<And>i. i < n \<Longrightarrow> object_block rs g (j + i) = b + i"
  shows "payload_on (patch m b bs) rs g (p @ bs)"
  unfolding payload_on_def
proof (intro allI impI)
  fix i assume i: "i < length (p @ bs) div BLOCK"
  have n: "length bs div BLOCK = n" "length p div BLOCK = j" "length (p @ bs) div BLOCK = j + n"
    by (simp_all only: assms(3,4) length_append add_mult_distrib [symmetric]) (simp_all add: BLOCK_def)
  show "patch m b bs (object_block rs g i) = chunk (p @ bs) i"
  proof (cases "i < j")
    case True
    have "\<not> (b \<le> object_block rs g i \<and> object_block rs g i < b + n)"
    proof
      assume "b \<le> object_block rs g i \<and> object_block rs g i < b + n"
      then obtain k where k: "object_block rs g i = b + k" "k < n" by (metis le_Suc_ex nat_add_left_cancel_less)
      then have "object_block rs g i = object_block rs g (j + k)" using assms(6) by simp
      then have "i = j + k" by (rule object_block_inj [OF assms(2), rotated 2]) (use True k assms(5) in auto)
      then show False using True by simp
    qed
    moreover have "(i + 1) * BLOCK \<le> length p" unfolding assms(3) using True by (intro mult_le_mono) simp_all
    ultimately show ?thesis using True assms(1) n by (auto simp: patch_def payload_on_def chunk_append_left)
  next
    case False
    then obtain k where k: "i = j + k" using le_Suc_ex by (metis not_le)
    then have "k < n" using i n by simp
    then show ?thesis using assms(6) n chunk_append_right [OF assms(3), of bs k] k by (simp add: patch_def)
  qed
qed

lemma payload_on_take:
  assumes "payload_on m rs g p"
  shows "payload_on m rs g (take (length p div BLOCK * BLOCK) p)"
  unfolding payload_on_def
proof (intro allI impI)
  fix i assume i: "i < length (take (length p div BLOCK * BLOCK) p) div BLOCK"
  have "length p div BLOCK * BLOCK \<le> length p" by (rule div_times_less_eq_dividend)
  then have i: "i < length p div BLOCK" using i by (simp add: BLOCK_def)
  then have "(i + 1) * BLOCK \<le> length p div BLOCK * BLOCK" by (intro mult_le_mono1) simp
  then have "chunk (take (length p div BLOCK * BLOCK) p) i = chunk p i"
    by (simp add: chunk_def slice_take add.commute)
  then show "m (object_block rs g i) = chunk (take (length p div BLOCK * BLOCK) p) i"
    using assms i by (simp add: payload_on_def)
qed

lemma payload_on_more:
  assumes "payload_on m rs g p" and "length (p @ q) div BLOCK = length p div BLOCK"
  shows "payload_on m rs g (p @ q)"
  unfolding payload_on_def assms(2)
proof (intro allI impI)
  fix i assume i: "i < length p div BLOCK"
  then have "(i + 1) * BLOCK \<le> length p div BLOCK * BLOCK" by (intro mult_le_mono1) simp
  also have "\<dots> \<le> length p" by (rule div_times_less_eq_dividend)
  finally show "m (object_block rs g i) = chunk (p @ q) i"
    using assms(1) i by (simp only: payload_on_def chunk_append_left)
qed

text \<open>The staging buffer of a row is one block.\<close>

abbreviation row_ok :: "reservation \<Rightarrow> bool" where
  "row_ok row \<equiv> length (rv_staging row) = BLOCK"

text \<open>A row of the reservation table that has taken in \<open>p\<close>.\<close>

definition row_holds :: "reservation \<Rightarrow> bytes \<Rightarrow> bool" where
  "row_holds row p \<longleftrightarrow> rv_written row = length p \<and> length (rv_staging row) = BLOCK
     \<and> take (length p mod BLOCK) (rv_staging row) = drop (length p div BLOCK * BLOCK) p"

lemma row_holds_stage:
  assumes "row_holds row p" and "n = min (BLOCK - length p mod BLOCK) (length input)" and "0 < n"
    and "row1 = row\<lparr>rv_staging := put_bytes (rv_staging row) (length p mod BLOCK) (take n input),
           rv_written := rv_written row + n\<rparr>"
  shows "length p mod BLOCK + n < BLOCK \<Longrightarrow> row_holds row1 (p @ take n input) \<and> length (p @ take n input) div BLOCK = length p div BLOCK"
    and "length p mod BLOCK + n = BLOCK \<Longrightarrow> row_holds row1 (p @ take n input)
      \<and> p @ take n input = take (length p div BLOCK * BLOCK) p @ rv_staging row1"
proof -
  define k where "k = length p mod BLOCK"
  have k: "k < BLOCK" "k \<le> length p" by (simp_all add: k_def BLOCK_def)
  have n: "k + n \<le> BLOCK" "n \<le> length input" using assms(2) k by (auto simp: k_def)
  have st: "length (rv_staging row) = BLOCK" "take k (rv_staging row) = drop (length p div BLOCK * BLOCK) p" "rv_written row = length p"
    using assms(1) by (simp_all add: row_holds_def k_def)
  have st1: "rv_staging row1 = take k (rv_staging row) @ take n input @ drop (k + n) (rv_staging row)"
    using n by (simp add: assms(4) put_bytes_def k_def)
  have len1: "length (rv_staging row1) = BLOCK" using st(1) n k by (simp add: st1)
  have w1: "rv_written row1 = length (p @ take n input)" using st(3) n by (simp add: assms(4))
  have pre: "take (k + n) (rv_staging row1) = drop (length p div BLOCK * BLOCK) p @ take n input"
    unfolding st(2) [symmetric] st1 using st(1) n k by (simp add: take_append del: take_take) 
  have split: "length p = length p div BLOCK * BLOCK + k" by (simp add: k_def)
  have tot: "length (p @ take n input) = length p div BLOCK * BLOCK + (k + n)" using split n by simp
  { assume "length p mod BLOCK + n < BLOCK"
    then have less: "k + n < BLOCK" by (simp add: k_def)
    have dm: "length (p @ take n input) div BLOCK = length p div BLOCK" "length (p @ take n input) mod BLOCK = k + n"
      unfolding tot using less by (simp_all add: BLOCK_def)
    show "row_holds row1 (p @ take n input) \<and> length (p @ take n input) div BLOCK = length p div BLOCK"
      using w1 len1 pre split unfolding row_holds_def dm by simp }
  { assume "length p mod BLOCK + n = BLOCK"
    then have full: "k + n = BLOCK" by (simp add: k_def)
    have "length (p @ take n input) = (length p div BLOCK + 1) * BLOCK" unfolding tot full by simp
    then have dm: "length (p @ take n input) div BLOCK = length p div BLOCK + 1" "length (p @ take n input) mod BLOCK = 0"
      by (simp_all only: mod_mult_self2_is_0) (simp add: BLOCK_def)
    have "rv_staging row1 = drop (length p div BLOCK * BLOCK) p @ take n input" using pre len1 full by simp
    then show "row_holds row1 (p @ take n input) \<and> p @ take n input = take (length p div BLOCK * BLOCK) p @ rv_staging row1"
      using w1 len1 \<open>length (p @ take n input) = (length p div BLOCK + 1) * BLOCK\<close>
      unfolding row_holds_def dm by simp }
qed

subsection \<open>Appending\<close>

context block_device
begin

text \<open>The state of an append: what the row has taken in, and what of it is on the card.\<close>

definition appended :: "geometry \<Rightarrow> bytes \<Rightarrow> 'd \<times> reservation \<Rightarrow> bool" where
  "appended g p s \<longleftrightarrow> good (fst s) \<and> row_holds (snd s) p \<and> (alive (fst s) \<longrightarrow> payload_on (media (fst s)) (rv_ranges (snd s)) g p)"

lemma extent_write:
  assumes "good d" and "locate rs g off = Some l" and "length bs = n * BLOCK"
    and "write_blocks D (loc_block l) bs d = (r, d')"
  shows "confined extent_region d d' \<and> (r = Inl Media \<or> r = Inr () \<and> (alive d' \<longrightarrow> alive d \<and> media d' = patch (media d) (loc_block l) bs))"
proof -
  have "confined extent_region d d'"
    by (rule confined_mono [OF write_confined [OF assms(1,3,4)]]) (rule locate_extent [OF assms(2)])
  then show ?thesis using write_blocks_cases [OF assms(1,3,4)] by blast
qed

lemma fill_loop_spec:
  assumes wf: "wf_geometry g"
  shows "appended g p s \<Longrightarrow> distinct (expand (rv_ranges (snd s))) \<Longrightarrow> length input \<le> fuel \<Longrightarrow>
    length p + length input \<le> object_blocks (rv_ranges (snd s)) g * BLOCK \<Longrightarrow> fill_loop fuel D g input s = (r, s') \<Longrightarrow>
    confined extent_region (fst s) (fst s') \<and> row_ok (snd s') \<and> snd s' = (snd s)\<lparr>rv_staging := rv_staging (snd s'), rv_written := rv_written (snd s')\<rparr>
    \<and> (r = Inl Media \<or> r = Inr (Some ()) \<and> appended g (p @ input) s')"
proof (induction fuel arbitrary: input s p)
  case 0
  then show ?case by (auto simp: confined_refl appended_def row_holds_def)
next
  case (Suc fuel)
  obtain d row where s: "s = (d, row)" by (cases s)
  have row: "row_holds row p" and good: "good d" and on: "alive d \<longrightarrow> payload_on (media d) (rv_ranges row) g p"
    using Suc.prems(1) by (simp_all add: s appended_def)
  have dis: "distinct (expand (rv_ranges row))" using Suc.prems(2) by (simp add: s)
  have written: "rv_written row = length p" and row_ok: "row_ok row" using row by (simp_all add: row_holds_def)
  define j k where "j = length p div BLOCK" and "k = length p mod BLOCK"
  have jk: "length p = j * BLOCK + k" "k < BLOCK" by (simp_all add: j_def k_def BLOCK_def)
  show ?case
  proof (cases input)
    case Nil
    then show ?thesis using Suc.prems by (auto simp: confined_refl appended_def row_holds_def)
  next
    case (Cons v vs)
    have pos: "0 < length input" by (simp add: Cons)
    have cap: "j * BLOCK < object_blocks (rv_ranges row) g * BLOCK"
      using Suc.prems(4) [unfolded s snd_conv] pos jk(1) by linarith
    obtain l where l: "locate (rv_ranges row) g (j * BLOCK) = Some l" by (rule locate_within [OF wf cap])
    obtain c where c: "0 < c" "contiguous l = c * BLOCK" "j + c \<le> object_blocks (rv_ranges row) g"
      "\<And>i. i < c \<Longrightarrow> object_block (rv_ranges row) g (j + i) = loc_block l + i"
      by (rule locate_blocks [OF wf l]) blast
    note run = Suc.prems(5) [unfolded Cons fill_loop.simps Let_def s snd_conv, folded Cons, unfolded written, folded k_def]
    have l': "locate (rv_ranges row) g (length p - k) = Some l" using l jk by simp
    show ?thesis
    proof (cases "k = 0 \<and> BLOCK \<le> length input")
      case True
      define w n where "w = whole_blocks l (length input)" and "n = w * BLOCK"
      have w: "0 < w" "w \<le> c" "n \<le> length input"
        using True c(1,2) by (auto simp: w_def n_def whole_blocks_def BLOCK_def min_le_iff_disj)
      have n: "0 < n" using w(1) by (simp add: n_def BLOCK_def)
      have len: "length (take n input) = w * BLOCK" using w(3) by (simp add: n_def)
      obtain r1 d1 where wr: "write_blocks D (loc_block l) (take n input) d = (r1, d1)" by fastforce
      note ew = extent_write [OF good l len wr]
      define row1 where "row1 = row\<lparr>rv_written := length p + n\<rparr>"
      note run' = run [unfolded l' option.case if_P [OF True], folded w_def n_def]
      show ?thesis
      proof (cases r1)
        case (Inl e)
        then show ?thesis using run' ew row_ok by (auto simp: bindS_def on_dev_def wr s)
      next
        case (Inr u)
        have next': "fill_loop fuel D g (drop n input) (d1, row1) = (r, s')"
          using run' written by (simp add: bindS_def on_dev_def set_row_def wr Inr row1_def)
        have p1: "length p = j * BLOCK" using jk True by simp
        have ap1: "appended g (p @ take n input) (d1, row1)"
        proof -
          have "row_holds row1 (p @ take n input)"
            using row_ok w(3) p1 len by (simp add: row_holds_def row1_def n_def BLOCK_def)
          moreover have "payload_on (media d1) (rv_ranges row) g (p @ take n input)" if "alive d1"
            using payload_on_append [of "media d" "rv_ranges row" g p j "take n input" w "loc_block l"] ew Inr on dis p1 len w c that
            by auto
          ultimately show ?thesis using confined_good ew by (auto simp: appended_def row1_def)
        qed
        have "confined extent_region (fst (d1, row1)) (fst s') \<and> row_ok (snd s')
            \<and> snd s' = (snd (d1, row1))\<lparr>rv_staging := rv_staging (snd s'), rv_written := rv_written (snd s')\<rparr>
            \<and> (r = Inl Media \<or> r = Inr (Some ()) \<and> appended g ((p @ take n input) @ drop n input) s')"
          by (rule Suc.IH [OF ap1 _ _ _ next']) (use dis Suc.prems(3,4) n w(3) in \<open>simp_all add: row1_def s\<close>)
        then show ?thesis using ew confined_trans by (auto simp: s row1_def)
      qed
    next
      case False
      define n where "n = min (BLOCK - k) (length input)"
      have n: "0 < n" "n \<le> length input" "k + n \<le> BLOCK" using pos jk by (auto simp: n_def)
      define row1 where "row1 = row\<lparr>rv_staging := put_bytes (rv_staging row) k (take n input), rv_written := length p + n\<rparr>"
      have row1: "row_ok row1" using row_ok n jk by (simp add: row1_def)
      have wr1: "rv_written row1 = length p + n" "rv_ranges row1 = rv_ranges row" by (simp_all add: row1_def)
      have eq1: "row1 = row\<lparr>rv_staging := put_bytes (rv_staging row) (length p mod BLOCK) (take n input),
          rv_written := rv_written row + n\<rparr>"
        by (simp add: row1_def k_def written)
      note stage = row_holds_stage [OF row n_def [unfolded k_def] n(1) eq1, folded k_def]
      have dvd: "(length p + n) mod BLOCK = 0 \<longleftrightarrow> k + n = BLOCK"
      proof -
        have "(length p + n) mod BLOCK = (k + n) mod BLOCK" by (simp add: k_def mod_add_left_eq)
        then show ?thesis using n by (cases "k + n = BLOCK") (auto simp: BLOCK_def)
      qed
      define r1d1 where "r1d1 = (if k + n = BLOCK then write_blocks D (loc_block l) (rv_staging row1) d else (Inr (), d))"
      obtain r1 d1 where wr: "r1d1 = (r1, d1)" by fastforce
      have run': "(case r1 of Inl e \<Rightarrow> (Inl e, d1, row1) | Inr _ \<Rightarrow> fill_loop fuel D g (drop n input) (d1, row1)) = (r, s')"
        using run [unfolded l' option.case if_not_P [OF False], folded n_def] wr dvd written
        by (cases "k + n = BLOCK") (auto simp: bindS_def set_row_def on_dev_def r1d1_def row1_def split: prod.splits sum.splits)
      have ew: "confined extent_region d d1 \<and> (r1 = Inl Media \<or> r1 = Inr () \<and> appended g (p @ take n input) (d1, row1))"
      proof (cases "k + n = BLOCK")
        case True
        have len: "length (rv_staging row1) = 1 * BLOCK" using row1 by simp
        have w: "write_blocks D (loc_block l) (rv_staging row1) d = (r1, d1)" using wr True by (simp add: r1d1_def)
        note e = extent_write [OF good l len w]
        have p1: "row_holds row1 (p @ take n input)" "p @ take n input = take (j * BLOCK) p @ rv_staging row1"
          using stage(2) [OF True, folded j_def] by blast+
        have "payload_on (media d) (rv_ranges row) g (take (j * BLOCK) p)" if "alive d"
          using on that payload_on_take by (simp add: j_def)
        then have "payload_on (media d1) (rv_ranges row) g (p @ take n input)" if "alive d1" "r1 = Inr ()"
          unfolding p1(2) using that e c jk c(4) [of 0]
            payload_on_append [of "media d" "rv_ranges row" g "take (j * BLOCK) p" j "rv_staging row1" 1 "loc_block l", OF _ dis _ len]
          by auto
        then show ?thesis using e p1 confined_good by (auto simp: appended_def wr1)
      next
        case less: False
        then have "k + n < BLOCK" using n by simp
        then have st: "row_holds row1 (p @ take n input)" "length (p @ take n input) div BLOCK = j"
          using stage(1) by (simp_all add: j_def)
        have "payload_on m (rv_ranges row) g (p @ take n input)" if "payload_on m (rv_ranges row) g p" for m
          using payload_on_more [OF that] st(2) by (simp only: j_def)
        then show ?thesis using less wr st good on confined_refl by (auto simp: r1d1_def appended_def wr1)
      qed
      show ?thesis
      proof (cases r1)
        case (Inl e)
        then show ?thesis using run' ew row1 by (auto simp: s row1_def)
      next
        case (Inr u)
        then have next': "fill_loop fuel D g (drop n input) (d1, row1) = (r, s')" using run' by simp
        have ap1: "appended g (p @ take n input) (d1, row1)" using ew Inr by simp
        have "confined extent_region (fst (d1, row1)) (fst s') \<and> row_ok (snd s')
            \<and> snd s' = (snd (d1, row1))\<lparr>rv_staging := rv_staging (snd s'), rv_written := rv_written (snd s')\<rparr>
            \<and> (r = Inl Media \<or> r = Inr (Some ()) \<and> appended g ((p @ take n input) @ drop n input) s')"
          by (rule Suc.IH [OF ap1 _ _ _ next']) (use dis Suc.prems(3,4) n in \<open>simp_all add: wr1 s\<close>)
        then show ?thesis using ew confined_trans by (auto simp: s row1_def)
      qed
    qed
  qed
qed

lemma fill_spec:
  assumes "wf_geometry g" and "appended g p (d, row)" and "distinct (expand (rv_ranges row))"
    and "length p + length input \<le> object_blocks (rv_ranges row) g * BLOCK" and "fill D g input (d, row) = (r, d', row')"
  shows "confined extent_region d d' \<and> row_ok row' \<and> row' = row\<lparr>rv_staging := rv_staging row', rv_written := rv_written row'\<rparr>
    \<and> (r = Inl Media \<or> r = Inr () \<and> appended g (p @ input) (d', row'))"
proof -
  obtain r1 s1 where lp: "fill_loop (length input) D g input (d, row) = (r1, s1)" by (rule prod.exhaust)
  show ?thesis using fill_loop_spec [OF assms(1,2) _ order_refl _ lp] assms(3-5)
    by (cases r1; cases s1) (auto simp: fill_def bindS_def lp)
qed

lemma flush_partial_spec:
  assumes wf: "wf_geometry g" and ap: "appended g p (d, row)" and dis: "distinct (expand (rv_ranges row))"
    and cap: "length p \<le> object_blocks (rv_ranges row) g * BLOCK" and run: "flush_partial D g (d, row) = (r, d', row')"
  shows "confined extent_region d d' \<and> row_holds row' p \<and> row' = row\<lparr>rv_staging := rv_staging row'\<rparr>
    \<and> (r = Inl Media \<or> r = Inr () \<and> (alive d' \<longrightarrow> payload_on (media d') (rv_ranges row) g (padded p)))"
proof -
  have row: "row_holds row p" and good: "good d" and on: "alive d \<longrightarrow> payload_on (media d) (rv_ranges row) g p"
    using ap by (simp_all add: appended_def)
  have written: "rv_written row = length p" and row_ok: "row_ok row" using row by (simp_all add: row_holds_def)
  define j k where "j = length p div BLOCK" and "k = length p mod BLOCK"
  have jk: "length p = j * BLOCK + k" "k < BLOCK" by (simp_all add: j_def k_def BLOCK_def)
  have st: "take k (rv_staging row) = drop (j * BLOCK) p" using row by (simp add: row_holds_def j_def k_def)
  show ?thesis
  proof (cases "k = 0")
    case True
    have "padded p = p" using padded_whole [of p j] jk(1) True by simp
    then show ?thesis
      using run True row good on confined_refl by (auto simp: flush_partial_def written k_def [symmetric])
  next
    case False
    have "j * BLOCK < object_blocks (rv_ranges row) g * BLOCK" using cap jk False by linarith
    then obtain l where l: "locate (rv_ranges row) g (j * BLOCK) = Some l" by (rule locate_within [OF wf])
    obtain c where c: "0 < c" "j + c \<le> object_blocks (rv_ranges row) g"
      "\<And>i. i < c \<Longrightarrow> object_block (rv_ranges row) g (j + i) = loc_block l + i"
      by (rule locate_blocks [OF wf l]) blast
    define row1 where "row1 = row\<lparr>rv_staging := put_bytes (rv_staging row) k (zeros (BLOCK - k))\<rparr>"
    have st1: "rv_staging row1 = drop (j * BLOCK) p @ zeros (BLOCK - k)"
      using row_ok jk st by (simp add: row1_def put_bytes_def)
    have len: "length (rv_staging row1) = 1 * BLOCK" using jk by (simp add: st1)
    have row1: "row_holds row1 p" using row len jk by (simp add: row_holds_def row1_def j_def [symmetric] k_def [symmetric] st1 [unfolded row1_def, simplified])
    have pad: "padded p = take (j * BLOCK) p @ rv_staging row1"
    proof -
      have "div_ceil (length p) BLOCK = j + div_ceil k BLOCK" using div_ceil_add [of BLOCK j k] jk(1) by (simp add: BLOCK_def)
      moreover have "div_ceil k BLOCK = 1" using False jk(2) by (simp add: div_ceil_def BLOCK_def)
      ultimately show ?thesis using jk by (simp add: padded_def st1)
    qed
    obtain r1 d1 where wr: "write_blocks D (loc_block l) (rv_staging row1) d = (r1, d1)" by fastforce
    note e = extent_write [OF good l len wr]
    have res: "r = r1" "d' = d1" "row' = row1"
      using run False l jk wr by (auto simp: flush_partial_def Let_def written k_def [symmetric] row1_def split: prod.splits)
    have "payload_on (media d) (rv_ranges row) g (take (j * BLOCK) p)" if "alive d"
      using on that payload_on_take by (simp add: j_def)
    then have "payload_on (media d1) (rv_ranges row) g (padded p)" if "alive d1" "r1 = Inr ()"
      unfolding pad using that e c jk c(3) [of 0]
        payload_on_append [of "media d" "rv_ranges row" g "take (j * BLOCK) p" j "rv_staging row1" 1 "loc_block l", OF _ dis _ len]
      by auto
    then show ?thesis using e res row1 by (auto simp: row1_def)
  qed
qed

end

subsection \<open>Reading back\<close>

lemma concat_chunks:
  "(j + n) * BLOCK \<le> length q \<Longrightarrow> concat (map (chunk q) [j..<j + n]) = slice (j * BLOCK) (n * BLOCK) q"
proof (induction n)
  case (Suc n)
  have le: "(j + n) * BLOCK \<le> length q" using Suc.prems by (rule order_trans [rotated]) (simp add: BLOCK_def)
  have "slice (j * BLOCK) (Suc n * BLOCK) q = slice (j * BLOCK) (n * BLOCK) q @ slice ((j + n) * BLOCK) BLOCK q"
    using slice_append_slice [of "j * BLOCK" "n * BLOCK" q BLOCK] Suc.prems by (simp add: algebra_simps)
  then show ?case using Suc.IH [OF le] by (simp add: chunk_def)
qed simp

context block_device
begin

lemma read_loop_spec:
  assumes wf: "wf_geometry g" and q: "BLOCK dvd length q" "length q \<le> object_blocks rs g * BLOCK"
  shows "good d \<Longrightarrow> (alive d \<longrightarrow> payload_on (media d) rs g q) \<Longrightarrow> off + want \<le> length q \<Longrightarrow> at \<le> want \<Longrightarrow>
    read_loop D g rs off want at (slice off at q) d = (r, d') \<Longrightarrow>
    confined (\<lambda>_. False) d d' \<and> (r = Inl Media \<or> r = Inr (slice off want q))"
proof (induction "want - at" arbitrary: at d rule: less_induct)
  case less
  show ?case
  proof (cases "at < want")
    case False
    then show ?thesis using less.prems confined_refl by simp
  next
    case True
    define o' where "o' = off + at"
    have o': "o' < length q" using True less.prems(3) by (simp add: o'_def)
    then obtain l where l: "locate rs g o' = Some l" using locate_within [OF wf, of o' rs] q(2) by auto
    define run where "run = min (want - at) (contiguous l)"
    define whole where "whole \<longleftrightarrow> loc_offset l = 0 \<and> BLOCK \<le> run"
    define nb n where "nb = (if whole then run div BLOCK else 1)"
      and "n = (if whole then run div BLOCK * BLOCK else min (BLOCK - loc_offset l) run)"
    note at = locate_at [OF wf l]
    have off: "loc_offset l < BLOCK" by (simp add: at(1) BLOCK_def)
    have pos: "0 < n" "0 < nb"
      using off True at(4) by (auto simp: n_def nb_def run_def whole_def BLOCK_def div_greater_zero_iff)
    have le: "n \<le> run" by (simp add: n_def)
    then have le': "n \<le> want - at" by (simp add: run_def)
    have sum: "o' + n \<le> length q" using le' True less.prems(3) unfolding o'_def by linarith
    have fits: "loc_offset l + n \<le> nb * BLOCK" using off by (auto simp: n_def nb_def whole_def)
    obtain r1 d1 where rd: "read_blocks D (loc_block l) nb d = (r1, d1)" by fastforce
    note rc = read_blocks_cases [OF less.prems(1) rd]
    have unf: "read_loop D g rs off want at got = bindS (read_blocks D (loc_block l) nb)
        (\<lambda>bs. read_loop D g rs off want (at + n) (got @ (if whole then bs else slice (loc_offset l) n bs)))" for got
      by (subst read_loop.simps) (simp add: True l o'_def [symmetric] Let_def run_def [symmetric] whole_def [symmetric]
          nb_def n_def del: read_loop.simps)
    note run' = less.prems(5) [unfolded unf bindS_def rd]
    show ?thesis
    proof (cases r1)
      case (Inl e)
      then show ?thesis using run' rc read_confined [OF less.prems(1) rd] by (auto simp del: read_loop.simps)
    next
      case (Inr bs)
      define jb where "jb = o' div BLOCK"
      have ob: "o' = jb * BLOCK + loc_offset l" by (simp add: jb_def at(1))
      have alive: "alive d" and bs: "bs = concat (map (media d) [loc_block l..<loc_block l + nb])" using rc Inr by auto
      have fin: "(jb + nb) * BLOCK \<le> length q"
      proof (cases whole)
        case True
        then have "(jb + nb) * BLOCK = o' + n" using ob by (simp add: nb_def n_def whole_def add_mult_distrib)
        then show ?thesis using sum by simp
      next
        case False
        obtain t where t: "length q = BLOCK * t" using q(1) by (auto simp: dvd_def)
        have "jb * BLOCK < BLOCK * t" using o' ob t by linarith
        then have "Suc jb * BLOCK \<le> t * BLOCK" by (intro mult_le_mono1) (simp add: mult.commute)
        then show ?thesis using False t by (simp add: nb_def mult.commute)
      qed
      have same: "media d (loc_block l + i) = chunk q (jb + i)" if "i < nb" for i
      proof -
        have "object_block rs g (jb + i) = loc_block l + i"
        proof (cases whole)
          case True
          then have "i * BLOCK < run" using that by (simp add: nb_def BLOCK_def) 
          then have "i * BLOCK < contiguous l" by (simp add: run_def)
          moreover have "(o' + i * BLOCK) div BLOCK = jb + i" by (simp add: jb_def BLOCK_def)
          ultimately show ?thesis using at(2) [of "i * BLOCK"] True by (simp add: whole_def BLOCK_def add.commute)
        next
          case False
          then show ?thesis using at(2) [of 0] at(4) off that by (simp add: nb_def jb_def)
        qed
        moreover have "jb + i < length q div BLOCK"
        proof -
          have "jb + nb \<le> length q div BLOCK" using fin by (simp add: less_eq_div_iff_mult_less_eq BLOCK_def)
          then show ?thesis using that by simp
        qed
        ultimately show ?thesis using less.prems(2) alive by (metis payload_on_def)
      qed
      have "map (media d) [loc_block l..<loc_block l + nb] = map (chunk q) [jb..<jb + nb]"
        by (rule nth_equalityI) (simp_all add: same)
      then have bs_q: "bs = slice (jb * BLOCK) (nb * BLOCK) q" using concat_chunks [OF fin] by (simp only: bs)
      then have piece: "slice (loc_offset l) n bs = slice o' n q" using slice_slice [OF fits] by (simp add: ob)
      have all: "bs = slice (loc_offset l) n bs" if whole
        using that slice_slice [of 0 n n "jb * BLOCK" q] by (simp add: bs_q whole_def n_def nb_def)
      have got: "slice off at q @ slice (loc_offset l) n bs = slice off (at + n) q"
        using slice_append_slice [of off at q n] sum by (simp add: piece o'_def)
      have rest: "read_loop D g rs off want (at + n) (slice off (at + n) q) d1 = (r, d')"
        using run' all Inr by (cases whole) (simp_all add: got [symmetric] del: read_loop.simps)
      have c1: "confined (\<lambda>_. False) d d1" by (rule read_confined [OF less.prems(1) rd])
      have "confined (\<lambda>_. False) d1 d' \<and> (r = Inl Media \<or> r = Inr (slice off want q))"
        by (rule less.hyps [OF _ _ _ less.prems(3) _ rest]) (use True pos le' rc less.prems(2) in auto)
      then show ?thesis using confined_trans [OF c1] by blast
    qed
  qed
qed

lemma read_ranges_spec:
  assumes wf: "wf_geometry g" and "good d" and "alive d \<longrightarrow> payload_on (media d) rs g (padded p)"
    and cap: "length p \<le> object_blocks rs g * BLOCK" and run: "read_ranges D g rs (length p) off n d = (r, d')"
  shows "confined (\<lambda>_. False) d d' \<and> (r = Inl Media \<or> r = Inr (slice off n p))"
proof (cases "length p \<le> off")
  case True
  then show ?thesis using run confined_refl [OF assms(2)] by (simp add: read_ranges_def slice_def)
next
  case False
  define want where "want = min n (length p - off)"
  have q: "BLOCK dvd length (padded p)" "length (padded p) \<le> object_blocks rs g * BLOCK" "length p \<le> length (padded p)"
    using cap le_div_ceil_mult [of BLOCK "length p"] div_ceil_le_iff [of BLOCK "length p" "object_blocks rs g"]
    by (simp_all add: length_padded) (simp_all add: padded_def BLOCK_def)
  have "read_loop D g rs off want 0 (slice off 0 (padded p)) d = (r, d')"
    using run False by (simp add: read_ranges_def want_def)
  then have "confined (\<lambda>_. False) d d' \<and> (r = Inl Media \<or> r = Inr (slice off want (padded p)))"
    by (rule read_loop_spec [OF wf q(1,2) assms(2,3), rotated 2]) (use False q(3) in \<open>simp_all add: want_def\<close>)
  moreover have "slice off want (padded p) = slice off n p"
    using False by (simp add: want_def padded_def slice_def min_def)
  ultimately show ?thesis by simp
qed

end

subsection \<open>From allocation to reading back\<close>

text \<open>A client's writes, in order, with the token each returns.\<close>

primrec write_all :: "'d bdev \<Rightarrow> allocation \<Rightarrow> bytes list \<Rightarrow> ('d fstore, allocation) io" where
  "write_all D a [] = retS a"
| "write_all D a (c # cs) = bindS (store_write D a c) (\<lambda>a. write_all D a cs)"

lemma free_slot_length: "free_slot rows = Some i \<Longrightarrow> i < length rows"
  by (induction rows arbitrary: i rule: free_slot.induct) auto

lemma row_of_update:
  assumes "slot < length rows" and "al_slot a = slot" and "rv_nonce row = al_nonce a"
    and "rv_written row = al_written a" and "rv_reserved row = al_reserved a"
  shows "row_of (rows[slot := Some row]) a = Some row"
  using assms by (simp add: row_of_def)

lemma row_of_Some:
  assumes "row_of rows a = Some row"
  shows "al_slot a < length rows" and "rv_nonce row = al_nonce a" and "rv_written row = al_written a"
    and "rv_reserved row = al_reserved a"
  using assms by (auto simp: row_of_def split: if_splits option.splits)

context block_device
begin

text \<open>The token \<open>a\<close> names a row that has taken in \<open>p\<close> and has room for all it reserved.\<close>

definition reserves :: "'d fstore \<Rightarrow> allocation \<Rightarrow> bytes \<Rightarrow> bool" where
  "reserves s a p \<longleftrightarrow> wf_geometry (fs_geometry s) \<and> writable (fs_mode s) \<and> al_written a = length p
     \<and> (\<exists>row. row_of (fs_reservations s) a = Some row \<and> appended (fs_geometry s) p (fs_dev s, row)
          \<and> distinct (expand (rv_ranges row)) \<and> al_reserved a \<le> object_blocks (rv_ranges row) (fs_geometry s) * BLOCK)"

lemma allocate_reserves:
  assumes wf: "wf_geometry (fs_geometry s)" and good: "good (fs_dev s)" and map: "wf_map (fs_free s)"
    and n: "extents_for (fs_geometry s) n < MAX_EXTENTS" and run: "allocate n s = (Inr a, s')"
  shows "reserves s' a [] \<and> al_reserved a = n"
proof -
  define g where "g = fs_geometry s"
  obtain rs slot fm where rs: "first_fit (fs_free s) (extents_for g n) = Some rs"
    and slot: "free_slot (fs_reservations s) = Some slot" and w: "writable (fs_mode s)"
    and s': "a = \<lparr>al_slot = slot, al_nonce = fs_nonce s + 1, al_reserved = n, al_written = 0\<rparr>"
      "s' = s\<lparr>fs_free := fm, fs_nonce := fs_nonce s + 1, fs_reservations := (fs_reservations s)[slot :=
        Some \<lparr>rv_nonce = fs_nonce s + 1, rv_ranges = rs, rv_reserved = n, rv_written = 0, rv_staging = zeros BLOCK\<rparr>]\<rparr>"
    using run by (auto simp: allocate_def Let_def g_def split: if_splits option.splits prod.splits sum.splits)
  have fit: "expand rs = take (extents_for g n) (free_list (fs_free s))" "length (expand rs) = extents_for g n"
    using first_fit_eq [OF map n] fit_spec_Some [OF map n] rs by (simp_all add: g_def)
  have "n \<le> extents_for g n * extent_size g" unfolding extents_for_def by (rule le_div_ceil_mult) simp
  then have cap: "n \<le> object_blocks rs g * BLOCK"
    using fit(2) wf by (simp add: length_expand extent_size_blocks g_def mult.assoc)
  have dis: "distinct (expand rs)" unfolding fit(1) by (simp add: free_list_def)
  have "row_holds \<lparr>rv_nonce = fs_nonce s + 1, rv_ranges = rs, rv_reserved = n, rv_written = 0, rv_staging = zeros BLOCK\<rparr> []"
    by (simp add: row_holds_def)
  then show ?thesis
    using wf good w cap dis free_slot_length [OF slot]
    by (simp add: reserves_def s' row_of_update appended_def payload_on_def g_def)
qed

lemma store_write_reserves:
  assumes res: "reserves s a p" and run: "store_write D a bs s = (r, s')" and fit: "length p + length bs \<le> al_reserved a"
  shows "r = Inl Media \<or> (\<exists>a'. r = Inr a' \<and> reserves s' a' (p @ bs) \<and> al_reserved a' = al_reserved a)"
proof -
  let ?g = "fs_geometry s"
  obtain row where row: "row_of (fs_reservations s) a = Some row" "appended ?g p (fs_dev s, row)"
      "distinct (expand (rv_ranges row))" "al_reserved a \<le> object_blocks (rv_ranges row) ?g * BLOCK"
    and s: "wf_geometry ?g" "writable (fs_mode s)" "al_written a = length p"
    using res by (auto simp: reserves_def)
  obtain r1 d1 row1 where fl: "fill D ?g bs (fs_dev s, row) = (r1, d1, row1)" using prod_cases3 by blast
  have sp: "row1 = row\<lparr>rv_staging := rv_staging row1, rv_written := rv_written row1\<rparr>
      \<and> (r1 = Inl Media \<or> r1 = Inr () \<and> appended ?g (p @ bs) (d1, row1))"
    using fill_spec [OF s(1) row(2,3) _ fl] row(4) fit by simp
  have same: "rv_nonce row1 = rv_nonce row" "rv_reserved row1 = rv_reserved row" "rv_ranges row1 = rv_ranges row"
    by (subst sp [THEN conjunct1], simp)+
  note names = row_of_Some [OF row(1)]
  show ?thesis
  proof (cases r1)
    case (Inl e)
    then show ?thesis using run s row(1) fit sp by (auto simp: store_write_def Let_def fl)
  next
    case (Inr u)
    then have ap: "appended ?g (p @ bs) (d1, row1)" using sp by simp
    have out: "r = Inr (a\<lparr>al_written := rv_written row1\<rparr>)"
      "s' = s\<lparr>fs_dev := d1, fs_reservations := (fs_reservations s)[al_slot a := Some row1]\<rparr>"
      using run s row(1) fit Inr by (auto simp: store_write_def Let_def fl)
    have "row_of ((fs_reservations s)[al_slot a := Some row1]) (a\<lparr>al_written := rv_written row1\<rparr>) = Some row1"
      by (rule row_of_update) (use names same in simp_all)
    moreover have "rv_written row1 = length (p @ bs)" using ap by (simp add: appended_def row_holds_def)
    ultimately show ?thesis using ap row(3,4) s same by (simp add: reserves_def out)
  qed
qed

lemma write_all_reserves:
  "reserves s a p \<Longrightarrow> write_all D a cs s = (r, s') \<Longrightarrow> length p + length (concat cs) \<le> al_reserved a \<Longrightarrow>
   r = Inl Media \<or> (\<exists>a'. r = Inr a' \<and> reserves s' a' (p @ concat cs) \<and> al_reserved a' = al_reserved a)"
proof (induction cs arbitrary: a s p)
  case (Cons c cs)
  obtain r1 s1 where w: "store_write D a c s = (r1, s1)" by (rule prod.exhaust)
  have "r1 = Inl Media \<or> (\<exists>a'. r1 = Inr a' \<and> reserves s1 a' (p @ c) \<and> al_reserved a' = al_reserved a)"
    by (rule store_write_reserves [OF Cons.prems(1) w]) (use Cons.prems(3) in simp)
  then show ?case
  proof (elim disjE exE conjE)
    assume "r1 = Inl Media"
    then show ?thesis using Cons.prems(2) by (simp add: bindS_def w)
  next
    fix a' assume a': "r1 = Inr a'" "reserves s1 a' (p @ c)" "al_reserved a' = al_reserved a"
    then show ?thesis using Cons.IH [OF a'(2)] Cons.prems(2,3) by (simp add: bindS_def w)
  qed
qed auto

lemma seal_then_read:
  assumes res: "reserves s a p" and le: "length p \<le> al_reserved a"
    and run: "bindS (seal D a) (\<lambda>se. read_sealed D se off n) s = (r, s')"
  shows "r = Inl Media \<or> r = Inr (slice off n p)"
proof -
  let ?g = "fs_geometry s"
  obtain row where row: "row_of (fs_reservations s) a = Some row" "appended ?g p (fs_dev s, row)"
      "distinct (expand (rv_ranges row))" "al_reserved a \<le> object_blocks (rv_ranges row) ?g * BLOCK"
    and s: "wf_geometry ?g" "writable (fs_mode s)" "al_written a = length p"
    using res by (auto simp: reserves_def)
  obtain r1 d1 row1 where fl: "flush_partial D ?g (fs_dev s, row) = (r1, d1, row1)" using prod_cases3 by blast
  have cap: "length p \<le> object_blocks (rv_ranges row) ?g * BLOCK" using le row(4) by simp
  note f = flush_partial_spec [OF s(1) row(2,3) cap fl]
  have rng: "rv_ranges row1 = rv_ranges row" by (subst f [THEN conjunct2, THEN conjunct2, THEN conjunct1], simp)
  show ?thesis
  proof (cases r1)
    case (Inl e)
    then show ?thesis using run f s row(1) by (auto simp: seal_def bindS_def fl)
  next
    case (Inr u)
    obtain r2 d2 where rd: "read_ranges D ?g (rv_ranges row) (length p) off n d1 = (r2, d2)" by (rule prod.exhaust)
    have "r = r2" using run s row(1) Inr rng rd
      by (simp add: seal_def bindS_def fl Let_def read_sealed_def devS_def)
    moreover have "r2 = Inl Media \<or> r2 = Inr (slice off n p)"
      using read_ranges_spec [OF s(1) _ _ cap rd] f Inr confined_good by blast
    ultimately show ?thesis by simp
  qed
qed

end

subsection \<open>Properties\<close>

text \<open>
  C3: what a client writes is what it reads. A client allocates room for \<open>n\<close> bytes, appends any
  sequence of pieces that fits, seals the allocation and reads from any offset: it gets exactly
  that part of the concatenated pieces, however the extents are scattered and the pieces are cut.
  The only other outcomes are a refusal of the allocation and an error of the card; the sizes of
  the card's blocks and of the staging buffer never show.
\<close>

theorem payload_roundtrip:
  assumes "block_device D good alive media cands torn" and "good (fs_dev s)" and "wf_geometry (fs_geometry s)"
    and "wf_map (fs_free s)" and "extents_for (fs_geometry s) n < MAX_EXTENTS" and "length (concat pieces) \<le> n"
  shows "fst (bindS (allocate n) (\<lambda>a. bindS (write_all D a pieces) (\<lambda>a. bindS (seal D a)
      (\<lambda>se. read_sealed D se off len))) s)
    \<in> {Inr (slice off len (concat pieces)), Inl Media} \<union> {Inl e |e s'. allocate n s = (Inl e, s')}"
proof -
  obtain r1 s1 where al: "allocate n s = (r1, s1)" by (rule prod.exhaust)
  show ?thesis
  proof (cases r1)
    case (Inl e)
    then show ?thesis using al by (auto simp: bindS_def)
  next
    case (Inr a)
    have res: "block_device.reserves good alive media s1 a [] \<and> al_reserved a = n"
      using block_device.allocate_reserves [OF assms(1,3,2,4,5)] al Inr by blast
    obtain r2 s2 where wr: "write_all D a pieces s1 = (r2, s2)" by (rule prod.exhaust)
    have w: "r2 = Inl Media \<or> (\<exists>a'. r2 = Inr a' \<and> block_device.reserves good alive media s2 a' (concat pieces)
        \<and> length (concat pieces) \<le> al_reserved a')"
      using block_device.write_all_reserves [OF assms(1) _ wr, of "[]"] res assms(6) by auto
    then show ?thesis
    proof (elim disjE exE conjE)
      assume "r2 = Inl Media"
      then show ?thesis using al Inr wr by (simp add: bindS_def)
    next
      fix a' assume a': "r2 = Inr a'" "block_device.reserves good alive media s2 a' (concat pieces)"
        "length (concat pieces) \<le> al_reserved a'"
      obtain r3 s3 where rd: "bindS (seal D a') (\<lambda>se. read_sealed D se off len) s2 = (r3, s3)" by (rule prod.exhaust)
      have "r3 = Inl Media \<or> r3 = Inr (slice off len (concat pieces))"
        by (rule block_device.seal_then_read [OF assms(1) a'(2,3) rd])
      moreover have "bindS (allocate n) (\<lambda>a. bindS (write_all D a pieces) (\<lambda>a. bindS (seal D a)
          (\<lambda>se. read_sealed D se off len))) s = (r3, s3)"
        using rd by (simp only: bindS_Inr bindS_def [of "allocate n"] bindS_def [of "write_all D a pieces"] al Inr wr a'(1) prod.case sum.case)
      ultimately show ?thesis by auto
    qed
  qed
qed

text \<open>A formatted card of 64 free extents in the simulator.\<close>

definition sample_store :: "sparse_disk fstore" where
  "sample_store = (blank 0 (sd_blank 135168 7))\<lparr>fs_geometry := \<lparr>log2 = 20\<rparr>, fs_extents := 64, fs_free := fm_reset 64,
     fs_served := \<lparr>sv_mode = ReadWrite, sv_copy = 0, sv_sequence = 1, sv_high_water = 1, sv_next_object = 1,
       sv_entry_count = 0, sv_body_crc = 0\<rparr>\<rparr>"

lemma sample_allocates: "\<exists>a s'. allocate 600 sample_store = (Inr a, s')"
proof -
  have wf: "wf_map (fm_reset 64)" and u: "used (fm_reset 64) = {64..<MAX_EXTENTS}" and x: "fm_extents (fm_reset 64) = 64"
    using fm_reset_wf [of 64] by (simp_all add: fmt_consts)
  have free: "fm_free (fm_reset 64) = 64" by (simp add: fm_free_card [OF wf] u x Diff_triv fmt_consts)
  have unused: "\<not> is_used (fm_reset 64) e" if "e < 64" for e
    using that fm_reset_used [of 64 e] by (simp add: fmt_consts)
  then have "free_list (fm_reset 64) = [0..<64]" by (simp add: free_list_def x)
  then have "take 1 (free_list (fm_reset 64)) = [0]" by (simp add: upt_rec)
  then have fit: "first_fit (fm_reset 64) 1 = Some [(0, 1)]"
    using first_fit_eq [OF wf, of 1] by (simp add: fit_spec_def runs_def add_run_def as_ranges_def fmt_consts)
  obtain fm where claim: "fm_claim (fm_reset 64) [(0, 1)] = (fm, Inr ())"
    using fm.fit_claim_release [OF wf _ fit] by (auto simp: fmt_consts)
  have one: "extents_for \<lparr>log2 = 20\<rparr> 600 = 1" by (simp add: extents_for_def extent_size_def div_ceil_def)
  show ?thesis
    by (simp add: allocate_def sample_store_def blank_def writable_def Let_def one free fit [unfolded One_nat_def] claim unused MAX_RESERVATIONS_def numeral_2_eq_2)
qed

theorem payload_roundtrip_witness:
  "fst (bindS (allocate 600) (\<lambda>a. bindS (write_all sparse_dev a [[1, 2], [3], [4, 5]]) (\<lambda>a. bindS (seal sparse_dev a)
      (\<lambda>se. read_sealed sparse_dev se 1 3))) sample_store) \<in> {Inr [2, 3, 4], Inl Media}"
proof -
  have "sd_good (fs_dev sample_store)" "wf_geometry (fs_geometry sample_store)" "wf_map (fs_free sample_store)"
    "extents_for (fs_geometry sample_store) 600 < MAX_EXTENTS"
    using fm_reset_wf(1) [of 64]
    by (simp_all add: sample_store_def blank_def sd_good_def sd_blank_def wf_geometry_def extents_for_def extent_size_def div_ceil_def fmt_consts)
  then show ?thesis
    using payload_roundtrip [OF sparse.block_device_axioms, of sample_store 600 "[[1, 2], [3], [4, 5]]" 1 3] sample_allocates
    by (auto simp: slice_def)
qed

text \<open>
  An append ends. On any device whatsoever, honest or not, and with any ranges, the loop of
  \<open>fill\<close> is done after at most as many passes as the input has bytes: every pass takes at least one
  byte, because a run located from a block boundary is never shorter than a block. The bound that
  \<open>fill\<close> passes to the loop is therefore never what stops it.
\<close>

theorem fill_terminates:
  assumes "wf_geometry g" and "length input \<le> fuel"
  shows "fst (fill_loop fuel D g input s) \<noteq> Inr None"
  using assms(2)
proof (induction fuel arbitrary: input s)
  case (Suc fuel)
  show ?case
  proof (cases input)
    case (Cons v vs)
    define staged where "staged = rv_written (snd s) mod BLOCK"
    show ?thesis
    proof (cases "locate (rv_ranges (snd s)) g (rv_written (snd s) - staged)")
      case None
      then show ?thesis by (simp add: Cons Let_def staged_def)
    next
      case (Some l)
      let ?w = "whole_blocks l (length input) * BLOCK" and ?n = "min (BLOCK - staged) (length input)"
      have "rv_written (snd s) - staged = rv_written (snd s) div BLOCK * BLOCK"
        by (simp add: staged_def minus_mod_eq_div_mult)
      then obtain c where "0 < c" "contiguous l = c * BLOCK"
        using locate_blocks [OF assms(1)] Some by metis
      then have w: "0 < ?w" if "BLOCK \<le> length input"
        using that by (simp add: whole_blocks_def BLOCK_def div_greater_zero_iff)
      have n: "0 < ?n" using mod_less_divisor [of BLOCK] by (simp add: Cons staged_def BLOCK_def)
      have left: "length (drop k input) \<le> fuel" if "0 < k" for k using Suc.prems that by (simp add: Cons)
      have rest: "fst (bindS m (\<lambda>_. bindS m' (\<lambda>_. fill_loop fuel D g (drop k input))) s) \<noteq> Inr None"
        if "0 < k" for k :: nat and m m' :: "('a \<times> reservation, unit) io"
        using Suc.IH [OF left [OF that]] by (auto simp: bindS_def split: prod.splits sum.splits)
      show ?thesis
        using rest [OF w] rest [OF n] Some by (simp add: Cons Let_def staged_def [symmetric] del: fill_loop.simps add: fill_loop.simps(3))
    qed
  qed simp
qed simp

theorem fill_terminates_witness:
  "fst (fill_loop 3 sparse_dev \<lparr>log2 = 20\<rparr> [1, 2, 3] (sd_blank 135168 7,
     \<lparr>rv_nonce = 0, rv_ranges = [(0, 1)], rv_reserved = 600, rv_written = 0, rv_staging = zeros BLOCK\<rparr>)) \<noteq> Inr None"
  by (rule fill_terminates) (simp_all add: wf_geometry_def)

end
