(* ===== verification/Flat_Publish.thy ===== *)
theory Flat_Publish
  imports Flat_Commit Flat_Payload
begin

text \<open>
  What a commit publishes, and what a power cut during it can leave. The batch is resolved against
  the served array, the merged array is checked and then written into the copy that is not served,
  and only its gate, written last, certifies it. The lemmas follow the phases of
  \<open>Store::commit\<close>; the properties put them together for every device that keeps the contract.
\<close>

subsection \<open>Well-formed requests\<close>

definition ranges_ok :: "nat \<Rightarrow> ranges \<Rightarrow> bool" where
  "ranges_ok ec rs \<longleftrightarrow> rs \<noteq> [] \<and> length rs \<le> MAX_RANGES \<and> in_card ec rs \<and> ranges_extents rs < MAX_EXTENTS"

text \<open>What the types of the source guarantee of a mutation: defined flags and a padded name.\<close>

fun mutation_ok :: "mutation \<Rightarrow> bool" where
  "mutation_ok (Put m _) = (flags m AND NOT FLAGS_DEFINED = 0 \<and> wf_name (name m))"
| "mutation_ok (Remove _ _) = True"

text \<open>What mount and the reservation table establish of the resident state.\<close>

definition store_ok :: "'d fstore \<Rightarrow> bool" where
  "store_ok s \<longleftrightarrow> wf_geometry (fs_geometry s) \<and> length (fs_store s) = 16 \<and> fs_extents s \<le> MAX_EXTENTS
     \<and> (\<forall>row. Some row \<in> set (fs_reservations s) \<longrightarrow> length (rv_staging row) = BLOCK \<and> ranges_ok (fs_extents s) (rv_ranges row))"

lemma wf_entry_ranges:
  "wf_entry ec e \<longleftrightarrow> obj (e_meta e) \<noteq> 0 \<and> rev (e_meta e) \<noteq> 0 \<and> flags (e_meta e) AND NOT FLAGS_DEFINED = 0
     \<and> wf_name (name (e_meta e)) \<and> e_ranges e \<noteq> [] \<and> length (e_ranges e) \<le> MAX_RANGES \<and> in_card ec (e_ranges e)"
  by (simp add: wf_entry_def)

lemma in_card_of_expand:
  assumes "list_all wf_range rs" and "\<forall>e\<in>set (expand rs). e < ec"
  shows "in_card ec rs"
  unfolding in_card_def list_all_iff
proof clarify
  fix f c assume mem: "(f, c) \<in> set rs"
  then have wf: "0 < unat c" using assms(1) by (auto simp: list_all_iff wf_range_def)
  then have "unat f + unat c - 1 \<in> set (span_of (f, c))" by (auto simp: span_of_def)
  then have "unat f + unat c - 1 \<in> set (expand rs)" using mem by (auto simp: expand_def)
  then show "c \<noteq> 0 \<and> unat f + unat c \<le> ec" using assms(2) wf by fastforce
qed

lemma trimmed_ok:
  assumes "ranges_ok ec (e_ranges e)" and "ec \<le> MAX_EXTENTS" and "trimmed g e = (e', freed)" and "e_ranges e' \<noteq> []"
  shows "e_meta e' = e_meta e" and "length (e_ranges e') \<le> MAX_RANGES" and "in_card ec (e_ranges e')"
    and "\<exists>n. expand (e_ranges e') = take n (expand (e_ranges e))"
proof -
  have r: "length (e_ranges e) \<le> MAX_RANGES" "in_card ec (e_ranges e)" "ranges_extents (e_ranges e) < MAX_EXTENTS"
    using assms(1) by (simp_all add: ranges_ok_def)
  have wf: "wf_ranges (e_ranges e)" using r in_card_wf [OF r(2) assms(2)] by (simp add: wf_ranges_def)
  show "e_meta e' = e_meta e" using assms(3) by (auto simp: trimmed_def split: if_splits prod.splits)
  have "length (e_ranges e') \<le> MAX_RANGES \<and> in_card ec (e_ranges e') \<and> (\<exists>n. expand (e_ranges e') = take n (expand (e_ranges e)))"
  proof (cases "holds_slack (flags (e_meta e))")
    case True
    then show ?thesis using assms(3) r by (auto simp: trimmed_def intro: exI [of _ "length (expand (e_ranges e))"])
  next
    case False
    obtain kept where tr: "trim_to (e_ranges e) (extents_for g (unat (payload_len (e_meta e))) mod 2 ^ 32) = (kept, freed)"
      and e': "e_ranges e' = kept"
      using assms(3) False by (auto simp: trimmed_def split: prod.splits)
    note t = trim_to_spec [OF wf r(3) tr]
    have "in_card ec kept"
      by (rule in_card_of_expand) (use t in_card_expand [OF r(2)] in \<open>auto simp: wf_ranges_def dest: in_set_takeD\<close>)
    then show ?thesis using t e' by (auto simp: wf_ranges_def)
  qed
  then show "length (e_ranges e') \<le> MAX_RANGES" "in_card ec (e_ranges e')"
      "\<exists>n. expand (e_ranges e') = take n (expand (e_ranges e))" by simp_all
qed

text \<open>
  What a resolved mutation promises. The entry of a \<open>Put\<close> carries the metadata of the request, but
  for the time a route was added, which the store keeps or supplies.
\<close>

definition same_meta :: "entry \<Rightarrow> entry_meta \<Rightarrow> bool" where
  "same_meta e m \<longleftrightarrow> (e_meta e)\<lparr>added_at_utc := added_at_utc m\<rparr> = m"

definition resolved_ok :: "'d fstore \<Rightarrow> mutation \<Rightarrow> resolved \<Rightarrow> bool" where
  "resolved_ok s mu x \<longleftrightarrow> r_key x = mutation_key mu
     \<and> (case mu of Remove _ _ \<Rightarrow> r_entry x = None | Put m _ \<Rightarrow> \<exists>e. r_entry x = Some e \<and> same_meta e m)
     \<and> (\<forall>e. r_entry x = Some e \<longrightarrow> ek e = r_key x \<and> wf_entry (fs_extents s) e)
     \<and> (\<forall>slot. r_reservation x = Some slot \<longrightarrow> slot < length (fs_reservations s))"

text \<open>
  Where the extents of a resolved entry come from: an amended entry keeps a part of those it had,
  a fresh one takes a part of its reservation.
\<close>

definition drawn :: "'d fstore \<Rightarrow> entry list \<Rightarrow> resolved \<Rightarrow> bool" where
  "drawn s es x \<longleftrightarrow> (\<forall>e. r_entry x = Some e \<longrightarrow> (case r_reservation x of
      None \<Rightarrow> \<exists>old\<in>set es. ek old = r_key x \<and> (\<exists>n. expand (e_ranges e) = take n (expand (e_ranges old)))
    | Some slot \<Rightarrow> slot < length (fs_reservations s) \<and> (\<exists>row n. fs_reservations s ! slot = Some row
        \<and> expand (e_ranges e) = take n (expand (rv_ranges row)))))"

definition drawn_plan :: "'d fstore \<Rightarrow> entry list \<Rightarrow> resolved list \<Rightarrow> bool" where
  "drawn_plan s es plan \<longleftrightarrow> (\<forall>x\<in>set plan. drawn s es x) \<and> distinct (List.map_filter r_reservation plan)"

lemma drawn_plan_Nil [simp]: "drawn_plan s es []"
  by (simp add: drawn_plan_def)

lemma drawn_plan_snoc:
  assumes "drawn_plan s es plan" and "drawn s es x" and "\<not> (r_reservation x \<noteq> None \<and> list_ex (\<lambda>p. r_reservation p = r_reservation x) plan)"
  shows "drawn_plan s es (plan @ [x])"
  using assms by (cases "r_reservation x") (auto simp: drawn_plan_def map_filter_def list_ex_iff)

lemma find_in: "find P xs = Some x \<Longrightarrow> x \<in> set xs \<and> P x"
  by (induction xs) (auto split: if_splits)

lemma pick_lookup:
  assumes "pick r (lookup es i) = Some e"
  shows "e \<in> set es" and "ek e = (i, r)"
proof -
  have "(fst (lookup es i) = Some e \<or> snd (lookup es i) = Some e) \<and> rev (e_meta e) = r"
    using find_in [OF assms [unfolded pick_def]] by (auto split: option.splits)
  then have "e \<in> set (filter (\<lambda>e. obj (e_meta e) = i) es)" and "rev (e_meta e) = r"
    by (auto simp: lookup_def Let_def simp del: set_filter dest: find_in)
  then show "e \<in> set es" "ek e = (i, r)" by (simp_all add: meta_key_def)
qed

lemma resolve_amend_ok:
  assumes st: "store_ok s" and es: "\<forall>e\<in>set es. ranges_ok (fs_extents s) (e_ranges e)" and mu: "mutation_ok (Put m Amend)"
    and nz: "obj m \<noteq> 0" "rev m \<noteq> 0" and r: "resolve_amend (fs_geometry s) m (pick (rev m) (lookup es (obj m))) = Inr x"
  shows "resolved_ok s (Put m Amend) x \<and> drawn s es x"
proof -
  obtain old e freed where old: "pick (rev m) (lookup es (obj m)) = Some old"
    and tr: "trimmed (fs_geometry s) \<lparr>e_meta = m\<lparr>added_at_utc := added_at_utc (e_meta old)\<rparr>, e_ranges = e_ranges old\<rparr> = (e, freed)"
    and ne: "e_ranges e \<noteq> []"
    and x: "x = \<lparr>r_key = meta_key m, r_entry = Some e, r_creates = False, r_freed = freed, r_reservation = None\<rparr>"
    using r by (auto simp: resolve_amend_def bindE_eq_Inr ok_or_eq_Inr split: if_splits prod.splits)
  have ok: "ranges_ok (fs_extents s) (e_ranges old)" using pick_lookup(1) [OF old] es by blast
  have ec: "fs_extents s \<le> MAX_EXTENTS" using st by (simp add: store_ok_def)
  note t = trimmed_ok [OF _ ec tr ne]
  have "e_meta e = m\<lparr>added_at_utc := added_at_utc (e_meta old)\<rparr>" "length (e_ranges e) \<le> MAX_RANGES" "in_card (fs_extents s) (e_ranges e)"
    using t ok by simp_all
  moreover have "\<exists>n. expand (e_ranges e) = take n (expand (e_ranges old))" using t(4) ok by simp
  ultimately show ?thesis using mu nz ne pick_lookup [OF old]
    by (auto simp: resolved_ok_def drawn_def x wf_entry_def meta_key_def same_meta_def)
qed

lemma resolve_fresh_ok:
  assumes st: "store_ok s" and mu: "mutation_ok (Put m (Fresh a))" and nz: "obj m \<noteq> 0" "rev m \<noteq> 0"
    and r: "resolve_fresh s m a found = Inr x"
  shows "resolved_ok s (Put m (Fresh a)) x \<and> drawn s es x"
proof -
  define m' where "m' = (if kind m = Route \<and> \<not> has_flag (flags m) RETAINED \<and> added_at_utc m = 0
      then m\<lparr>added_at_utc := fs_route_added_at s\<rparr> else m)"
  obtain row e freed where row: "row_of (fs_reservations s) a = Some row"
    and tr: "trimmed (fs_geometry s) \<lparr>e_meta = m', e_ranges = rv_ranges row\<rparr> = (e, freed)" and ne: "e_ranges e \<noteq> []"
    and x: "x = \<lparr>r_key = meta_key m, r_entry = Some e, r_creates = True, r_freed = freed, r_reservation = Some (al_slot a)\<rparr>"
    using r [unfolded resolve_fresh_def Let_def, folded m'_def]
    by (auto simp: bindE_eq_Inr ok_or_eq_Inr split: if_splits prod.splits)
  have slot: "al_slot a < length (fs_reservations s)" "fs_reservations s ! al_slot a = Some row"
    using row by (auto simp: row_of_def split: if_splits option.splits)
  then have "Some row \<in> set (fs_reservations s)" by (metis nth_mem)
  then have ok: "ranges_ok (fs_extents s) (rv_ranges row)" using st by (simp add: store_ok_def)
  have ec: "fs_extents s \<le> MAX_EXTENTS" using st by (simp add: store_ok_def)
  note t = trimmed_ok [OF _ ec tr ne]
  have "e_meta e = m'" "length (e_ranges e) \<le> MAX_RANGES" "in_card (fs_extents s) (e_ranges e)" using t ok by simp_all
  moreover have "obj m' = obj m" "rev m' = rev m" "flags m' = flags m" "name m' = name m"
    "m'\<lparr>added_at_utc := added_at_utc m\<rparr> = m"
    by (simp_all add: m'_def)
  moreover have "\<exists>n. expand (e_ranges e) = take n (expand (rv_ranges row))" using t(4) ok by simp
  ultimately show ?thesis using mu nz ne slot by (simp add: resolved_ok_def drawn_def x wf_entry_def meta_key_def same_meta_def)
qed

text \<open>The parts of the resident state a lookup leaves alone.\<close>

lemma dev_only:
  assumes "s' = s\<lparr>fs_dev := d\<rparr>"
  shows "store_ok s' = store_ok s" and "resolved_ok s' = resolved_ok s" and "drawn s' = drawn s" and "catalog_held m s' es = catalog_held m s es"
    and "fs_served s' = fs_served s" and "fs_geometry s' = fs_geometry s" and "fs_extents s' = fs_extents s"
    and "fs_store s' = fs_store s" and "fs_reservations s' = fs_reservations s" and "fs_ride s' = fs_ride s"
    and "fs_dev s' = d"
  unfolding assms by (simp_all add: store_ok_def resolved_ok_def drawn_def catalog_held_def fun_eq_iff split: option.split)

context block_device
begin

lemma resolve_spec:
  assumes on: "array_on m (CATALOG ! sv_copy (fs_served s) + 1) (length es) (fs_dev s)" and cat: "catalog_held m s es"
    and st: "store_ok s" and es: "\<forall>e\<in>set es. ranges_ok (fs_extents s) (e_ranges e)" and mu: "mutation_ok mu"
    and run: "resolve D mu s = (r, s')"
  shows "confined (\<lambda>_. False) (fs_dev s) (fs_dev s') \<and> s' = s\<lparr>fs_dev := fs_dev s'\<rparr> \<and> (\<forall>x. r = Inr x \<longrightarrow> resolved_ok s mu x \<and> drawn s es x)"
proof (cases mu)
  case (Remove i rv)
  obtain r1 s1 where f: "store_find D i s = (r1, s1)" by (rule prod.exhaust)
  note sf = store_find_spec [OF on cat f]
  show ?thesis
    using run sf by (cases r1) (auto simp: Remove bindS_def f resolved_ok_def drawn_def ok_or_eq_Inr split: sum.splits)
next
  case (Put md src)
  have good: "good (fs_dev s)" using on by (simp add: array_on_def)
  obtain r1 s1 where f: "store_find D (obj md) s = (r1, s1)" by (rule prod.exhaust)
  note sf = store_find_spec [OF on cat f]
  note same = dev_only [OF sf [THEN conjunct2, THEN conjunct1]]
  show ?thesis
  proof (cases "obj md = 0 \<or> rev md = 0 \<or> rev md = - 1 \<or> obj md = - 1")
    case True
    then show ?thesis using run confined_refl [OF good] by (auto simp: Put split: if_splits)
  next
    case False
    then have run': "bindS (store_find D (obj md)) (\<lambda>found. case src of
          Amend \<Rightarrow> getS (\<lambda>s. liftE (resolve_amend (fs_geometry s) md (pick (rev md) found)))
        | Fresh a \<Rightarrow> getS (\<lambda>s. liftE (resolve_fresh s md a found))) s = (r, s')"
      using run by (simp add: Put)
    from sf consider "r1 = Inl Media" | "r1 = Inr (lookup es (obj md))" by blast
    then show ?thesis
    proof cases
      case 1
      then show ?thesis using run' sf by (auto simp: bindS_def f)
    next
      case 2
      have nz: "obj md \<noteq> 0" "rev md \<noteq> 0" using False by auto
      have s': "s' = s1" using run' 2 by (auto simp: bindS_def f getS_def split: put_source.splits)
      have "resolved_ok s1 mu x \<and> drawn s1 es x" if "r = Inr x" for x
      proof (cases src)
        case Amend
        show ?thesis unfolding Put Amend
          by (rule resolve_amend_ok [OF _ _ _ nz, of _ es])
            (use run' 2 that Amend st es mu same Put in \<open>simp_all add: bindS_def f getS_def\<close>)
      next
        case (Fresh a)
        show ?thesis unfolding Put Fresh
          by (rule resolve_fresh_ok [OF _ _ nz, where found = "lookup es (obj md)"])
            (use run' 2 that Fresh st mu same Put in \<open>auto simp: bindS_def f getS_def\<close>)
      qed
      then show ?thesis using sf s' same by simp
    qed
  qed
qed

lemma resolve_all_spec:
  assumes cat: "catalog_held m s0 es" and st: "store_ok s0" and es: "\<forall>e\<in>set es. ranges_ok (fs_extents s0) (e_ranges e)"
  shows "s = s0\<lparr>fs_dev := fs_dev s\<rparr> \<Longrightarrow> array_on m (CATALOG ! sv_copy (fs_served s0) + 1) (length es) (fs_dev s) \<Longrightarrow>
    \<forall>mu\<in>set ms. mutation_ok mu \<Longrightarrow> map mutation_key seen = map r_key plan \<Longrightarrow> distinct (map r_key plan) \<Longrightarrow>
    list_all2 (resolved_ok s0) seen plan \<Longrightarrow> drawn_plan s0 es plan \<Longrightarrow> resolve_all D seen ms plan count greatest s = (r, s') \<Longrightarrow>
    confined (\<lambda>_. False) (fs_dev s) (fs_dev s') \<and> s' = s0\<lparr>fs_dev := fs_dev s'\<rparr>
    \<and> (\<forall>plan' count' greatest'. r = Inr (plan', count', greatest') \<longrightarrow> distinct (map r_key plan')
         \<and> map r_key plan' = map mutation_key (seen @ ms) \<and> list_all2 (resolved_ok s0) (seen @ ms) plan' \<and> drawn_plan s0 es plan')"
proof (induction ms arbitrary: seen plan count greatest s)
  case Nil
  then have "good (fs_dev s)" by (simp add: array_on_def)
  then show ?case using Nil confined_refl by auto
next
  case (Cons mu ms)
  note same = dev_only [OF Cons.prems(1)]
  have good: "good (fs_dev s)" using Cons.prems(2) by (simp add: array_on_def)
  show ?case
  proof (cases "list_ex (\<lambda>e. mutation_key e = mutation_key mu) seen")
    case True
    then show ?thesis using Cons.prems(1,8) confined_refl [OF good] by auto
  next
    case False
    then have new: "mutation_key mu \<notin> set (map r_key plan)"
      unfolding Cons.prems(4) [symmetric] by (auto simp: list_ex_iff)
    obtain r1 s1 where rv: "resolve D mu s = (r1, s1)" by (rule prod.exhaust)
    have spec: "confined (\<lambda>_. False) (fs_dev s) (fs_dev s1) \<and> s1 = s\<lparr>fs_dev := fs_dev s1\<rparr> \<and> (\<forall>x. r1 = Inr x \<longrightarrow> resolved_ok s mu x \<and> drawn s es x)"
      by (rule resolve_spec [OF _ _ _ _ _ rv, of m es]) (use Cons.prems(2,3) cat st es same in simp_all)
    have s1: "s1 = s0\<lparr>fs_dev := fs_dev s1\<rparr>"
      by (subst spec [THEN conjunct2, THEN conjunct1], subst Cons.prems(1)) simp
    show ?thesis
    proof (cases r1)
      case (Inl e)
      then show ?thesis using Cons.prems(8) False spec s1 by (auto simp: bindS_def rv)
    next
      case (Inr x)
      have ok: "resolved_ok s0 mu x" "drawn s0 es x" using spec Inr same by simp_all
      then have key: "r_key x = mutation_key mu" by (simp add: resolved_ok_def)
      show ?thesis
      proof (cases "r_reservation x \<noteq> None \<and> list_ex (\<lambda>p. r_reservation p = r_reservation x) plan")
        case True
        then show ?thesis using Cons.prems(8) False spec s1 Inr by (auto simp: bindS_def rv)
      next
        case clash: False
        define count1 where "count1 = count + (if r_creates x then 1 else 0) - (if r_entry x = None then 1 else 0)"
        have next': "resolve_all D (seen @ [mu]) ms (plan @ [x]) count1 (max greatest (fst (r_key x))) s1 = (r, s')"
          using Cons.prems(8) False clash Inr by (simp only: resolve_all.simps if_False bindS_def rv prod.case sum.case count1_def if_not_P)
        have on1: "array_on m (CATALOG ! sv_copy (fs_served s0) + 1) (length es) (fs_dev s1)"
          using array_on_confined [OF Cons.prems(2)] spec by blast
        have IH: "confined (\<lambda>_. False) (fs_dev s1) (fs_dev s') \<and> s' = s0\<lparr>fs_dev := fs_dev s'\<rparr>
          \<and> (\<forall>plan' count' greatest'. r = Inr (plan', count', greatest') \<longrightarrow> distinct (map r_key plan')
             \<and> map r_key plan' = map mutation_key ((seen @ [mu]) @ ms) \<and> list_all2 (resolved_ok s0) ((seen @ [mu]) @ ms) plan' \<and> drawn_plan s0 es plan')"
          by (rule Cons.IH [OF s1 on1 _ _ _ _ drawn_plan_snoc [OF Cons.prems(7) ok(2) clash] next'])
            (use Cons.prems(3-6) ok key new in \<open>auto intro: list_all2_appendI\<close>)
        show ?thesis using spec confined_trans IH [unfolded append_assoc append_Cons append_Nil] by blast
      qed
    qed
  qed
qed

text \<open>The checking pass: its state is the structure check of the entries so far.\<close>

lemma check_emitter:
  "emitter D good alive media cands torn accept_emit (\<lambda>out st d. accept_all (structure_new g) out = Inr st) (\<lambda>_. False) final"
proof unfold_locales
  fix out e rest d x r d'
  assume "accept_all (structure_new g) out = Inr x" "accept_emit e x d = (r, d')" "good d"
  then show "confined (\<lambda>_. False) d d' \<and> (\<forall>x'. r = Inr x' \<longrightarrow> accept_all (structure_new g) (out @ [e]) = Inr x')"
    using confined_refl by (auto simp: accept_emit_def accept_all_snoc)
qed

text \<open>Either pass over the served array, from a fresh cursor or one that was over the array before.\<close>

lemma store_merge_spec:
  assumes em: "emitter D good alive media cands torn emit Inv W final" and on: "array_on m base (length es) d"
    and arr: "array_holds m base ec es" and clear: "\<And>b. array_region base (length es) b \<Longrightarrow> \<not> W b"
    and cu: "cu_over m base ec (length es) cu" and fin: "final = apply_batch es (batch_order plan)" and inv: "Inv [] x d"
    and run: "store_merge D emit (length es) cu plan x d = (r, d')"
  shows "confined W d d' \<and> (\<forall>cu' x' w. r = Inr (cu', x', w) \<longrightarrow>
    cu_over m base ec (length es) cu' \<and> Inv final x' d' \<and> w = length final)"
proof -
  have loop: "merge_loop D emit [0..<length es] cu (batch_order plan) (x, 0) d = (r, d')" using run by (simp only: store_merge_def)
  have "confined W d d' \<and> (\<forall>cu' xw'. r = Inr (cu', xw') \<longrightarrow> cu_over m base ec (length es) cu' \<and> Inv final (fst xw') d'
      \<and> snd xw' = snd (x, 0::nat) + length (apply_batch (drop 0 es) (batch_order plan)))"
    by (rule emitter.merge_loop_spec [OF em _ arr clear _ _ _ cu _ _ loop, of "[]"])
      (use on fin inv in \<open>simp_all add: array_on_def\<close>)
  then show ?thesis by (auto simp: fin)
qed

lemma commit_check_spec:
  assumes on: "array_on m (CATALOG ! sv_copy (fs_served s) + 1) (length es) (fs_dev s)" and cat: "catalog_held m s es"
    and st: "store_ok s" and es: "\<forall>e\<in>set es. ranges_ok (fs_extents s) (e_ranges e)" and mu: "\<forall>mu\<in>set ms. mutation_ok mu"
    and run: "commit_check D ms s = (r, s')"
  shows "confined (\<lambda>_. False) (fs_dev s) (fs_dev s') \<and> s' = s\<lparr>fs_dev := fs_dev s'\<rparr>
    \<and> (\<forall>plan header cu. r = Inr (plan, header, cu) \<longrightarrow>
         map r_key plan = map mutation_key ms \<and> distinct (map r_key plan) \<and> list_all2 (resolved_ok s) ms plan
       \<and> drawn_plan s es plan
       \<and> structure_pass (fs_geometry s) header (apply_batch es (batch_order plan)) = Inr ()
       \<and> length (apply_batch es (batch_order plan)) = unat (h_entry_count header)
       \<and> unat (h_entry_count header) \<le> ENTRY_CAPACITY
       \<and> h_store header = fs_store s \<and> unat (h_sequence header) = unat (sv_high_water (fs_served s)) + 1
       \<and> writable (fs_mode s)
       \<and> cu_over m (CATALOG ! sv_copy (fs_served s) + 1) (fs_extents s) (length es) cu)"
proof -
  define sv base ec where "sv = fs_served s" and "base = CATALOG ! sv_copy (fs_served s) + 1" and "ec = fs_extents s"
  have n: "unat (sv_entry_count sv) = length es" and arr: "array_holds m base ec es"
    using cat by (simp_all add: catalog_held_def sv_def base_def ec_def)
  have good: "good (fs_dev s)" using on by (simp add: array_on_def)
  show ?thesis
  proof (cases "\<not> writable (sv_mode sv) \<or> ms = [] \<or> length ms > MAX_BATCH")
    case True
    then show ?thesis using run confined_refl [OF good] by (auto simp: commit_check_def getS_def Let_def sv_def split: if_splits)
  next
    case False
    obtain r1 s1 where ra: "resolve_all D [] ms [] (int (length es)) 0 s = (r1, s1)" by (rule prod.exhaust)
    have spec1: "confined (\<lambda>_. False) (fs_dev s) (fs_dev s1) \<and> s1 = s\<lparr>fs_dev := fs_dev s1\<rparr>
      \<and> (\<forall>plan' count' greatest'. r1 = Inr (plan', count', greatest') \<longrightarrow> distinct (map r_key plan')
         \<and> map r_key plan' = map mutation_key ([] @ ms) \<and> list_all2 (resolved_ok s) ([] @ ms) plan' \<and> drawn_plan s es plan')"
      by (rule resolve_all_spec [OF cat st es _ on mu _ _ _ _ ra]) simp_all
    have on1: "array_on m base (length es) (fs_dev s1)"
      using array_on_confined [OF on] spec1 by (auto simp: base_def)
    define cont where "cont = (\<lambda>(plan, count, greatest).
       if count < 0 \<or> nat count > ENTRY_CAPACITY then failS CatalogFull
       else bindS (liftE (ok_or (checked_add 64 (unat (sv_high_water sv)) 1) ReadOnly)) (\<lambda>sequence.
       let header = \<lparr>h_store = fs_store s, h_sequence = of_nat sequence,
             next_object = max (sv_next_object sv) (greatest + 1), h_entry_count = of_int count\<rparr> in
       bindS (devS (store_merge D accept_emit (length es) (cursor_new (sv_copy sv) (fs_extents s) (sv_entry_count sv) STREAM_WINDOW)
           plan (structure_new (fs_geometry s)))) (\<lambda>(cu, st, written).
       bindS (liftE (map_errE (\<lambda>_. Invalid) (structure_finish st header))) (\<lambda>_.
       if written \<noteq> unat (h_entry_count header) then failS Invalid
       else if (case fs_ride s of None \<Rightarrow> False
           | Some ride \<Rightarrow> rs_pending_proof ride \<noteq> 0
               \<and> list_ex (\<lambda>r. r_key r = (rs_id ride, rs_revision ride) \<and> r_entry r \<noteq> None) plan)
       then failS Invalid
       else retS (plan, header, cu)))))"
    have run': "bindS (resolve_all D [] ms [] (int (length es)) 0) cont s = (r, s')"
    proof -
      have "commit_check D ms s = (if \<not> writable (sv_mode sv) then failS ReadOnly
          else if ms = [] \<or> length ms > MAX_BATCH then failS Invalid
          else bindS (resolve_all D [] ms [] (int (length es)) 0) cont) s"
        by (simp only: commit_check_def getS_def Let_def sv_def [symmetric] n cont_def)
      then show ?thesis using run False by simp
    qed
    show ?thesis
    proof (cases r1)
      case (Inl e)
      then show ?thesis using run' spec1 by (auto simp: bindS_def ra)
    next
      case (Inr pcg)
      obtain plan count greatest where pcg: "pcg = (plan, count, greatest)" by (cases pcg)
      note plan = spec1 [THEN conjunct2, THEN conjunct2, rule_format, OF Inr [unfolded pcg]]
      have run2: "cont (plan, count, greatest) s1 = (r, s')" using run' Inr pcg by (simp add: bindS_def ra)
      have quiet: ?thesis if "s' = s1" "\<exists>e. r = Inl e" using spec1 that by auto
      show ?thesis
      proof (cases "count < 0 \<or> nat count > ENTRY_CAPACITY \<or> checked_add 64 (unat (sv_high_water sv)) 1 = None")
        case True
        then have "s' = s1 \<and> (\<exists>e. r = Inl e)" using run2 by (auto simp: cont_def bindS_def split: if_splits)
        then show ?thesis using quiet by blast
      next
        case False
        then obtain q where q: "checked_add 64 (unat (sv_high_water sv)) 1 = Some q" by auto
        define header where "header = \<lparr>h_store = fs_store s, h_sequence = of_nat q,
          next_object = max (sv_next_object sv) (greatest + 1), h_entry_count = of_int count\<rparr>"
        define cu where "cu = cursor_new (sv_copy sv) (fs_extents s) (sv_entry_count sv) STREAM_WINDOW"
        have cu: "cu_over m base ec (length es) cu"
          by (simp add: cu_def cu_over_def cu_ok_new STREAM_WINDOW_def, simp add: cursor_new_def n base_def sv_def [symmetric] ec_def)
        obtain r2 d2 where mg: "store_merge D accept_emit (length es) cu plan (structure_new (fs_geometry s)) (fs_dev s1) = (r2, d2)"
          by (rule prod.exhaust)
        let ?fin = "apply_batch es (batch_order plan)"
        have spec2: "confined (\<lambda>_. False) (fs_dev s1) d2 \<and> (\<forall>cu' x' w. r2 = Inr (cu', x', w) \<longrightarrow>
            cu_over m base ec (length es) cu' \<and> accept_all (structure_new (fs_geometry s)) ?fin = Inr x' \<and> w = length ?fin)"
          by (rule store_merge_spec [OF check_emitter on1 arr _ cu refl _ mg]) simp_all
        have c2: "confined (\<lambda>_. False) (fs_dev s) d2" using spec1 spec2 confined_trans by blast
        have s2: "s1\<lparr>fs_dev := d2\<rparr> = s\<lparr>fs_dev := d2\<rparr>" by (subst spec1 [THEN conjunct2, THEN conjunct1]) simp
        define chk where "chk = (\<lambda>(cu :: cursor, st, written).
            bindS (liftE (map_errE (\<lambda>_. Invalid) (structure_finish st header))) (\<lambda>_.
              if written \<noteq> unat (h_entry_count header) then failS Invalid
              else if (case fs_ride s of None \<Rightarrow> False
                  | Some ride \<Rightarrow> rs_pending_proof ride \<noteq> 0
                      \<and> list_ex (\<lambda>r. r_key r = (rs_id ride, rs_revision ride) \<and> r_entry r \<noteq> None) plan)
              then failS Invalid else retS (plan, header, cu)) :: ('d fstore, _) io)"
        have "cont (plan, count, greatest) s1
            = bindS (devS (store_merge D accept_emit (length es) cu plan (structure_new (fs_geometry s)))) chk s1"
        proof -
          have ok: "\<not> (count < 0 \<or> nat count > ENTRY_CAPACITY)" using False by simp
          show ?thesis
            by (simp only: cont_def prod.case if_not_P [OF ok] q ok_or_simps bindS_def [of "liftE _"] liftE_app sum.case Let_def
                header_def chk_def cu_def)
        qed
        then have run3: "(case r2 of Inl e \<Rightarrow> (Inl e, s\<lparr>fs_dev := d2\<rparr>) | Inr x \<Rightarrow> chk x (s\<lparr>fs_dev := d2\<rparr>)) = (r, s')"
          using run2 s2 by (cases r2) (simp_all add: bindS_def devS_def mg)
        have s': "s' = s\<lparr>fs_dev := d2\<rparr>"
          using run3 by (cases r2) (auto simp: chk_def bindS_def split: prod.splits sum.splits if_splits)
        have "(\<exists>e. r = Inl e) \<or> (\<exists>cu' st. r2 = Inr (cu', st, unat (h_entry_count header)) \<and> structure_finish st header = Inr ()
            \<and> r = Inr (plan, header, cu'))"
          using run3 by (cases r2) (auto simp: chk_def bindS_def split: prod.splits sum.splits if_splits)
        then show ?thesis
        proof (elim disjE exE conjE)
          fix e assume "r = Inl e"
          then show ?thesis using c2 s' by simp
        next
          fix cu' st' assume r2: "r2 = Inr (cu', st', unat (h_entry_count header))" and fin: "structure_finish st' header = Inr ()"
            and r: "r = Inr (plan, header, cu')"
          note e = spec2 [THEN conjunct2, rule_format, OF r2]
          have "structure_pass (fs_geometry s) header ?fin = Inr ()" using e fin by (simp add: structure_pass_def)
          moreover have "unat (h_entry_count header) \<le> ENTRY_CAPACITY"
          proof -
            have "(of_int count :: u16) = of_nat (nat count)" and le: "nat count \<le> ENTRY_CAPACITY" using False by simp_all
            moreover have "nat count < 2 ^ 16" using le by (simp add: fmt_consts)
            ultimately have "unat (h_entry_count header) = nat count" by (simp add: header_def word_unat_of_nat)
            then show ?thesis using le by simp
          qed
          moreover have "unat (h_sequence header) = unat (sv_high_water sv) + 1"
          proof -
            have q': "q = unat (sv_high_water sv) + 1" "q < 2 ^ 64" using q by (simp_all only: checked_add_Some)
            then have "unat (of_nat q :: u64) = q" by (intro word_unat_of_nat) simp
            then show ?thesis using q'(1) by (simp only: header_def cat_header.select_convs)
          qed
          moreover have "distinct (map mutation_key ms)" using plan by (metis append_Nil)
          ultimately show ?thesis
            using r c2 s' plan e \<open>\<not> (\<not> writable (sv_mode sv) \<or> ms = [] \<or> length ms > MAX_BATCH)\<close>
            by (simp add: header_def base_def ec_def sv_def)
        qed
      qed
    qed
  qed
qed

end

subsection \<open>The body pass\<close>

definition catalog_body :: "cat_header \<Rightarrow> entry list \<Rightarrow> bytes" where
  "catalog_body h es = cat_header_encode h @ concat (map entry_encode es)"

text \<open>The blocks of a copy: its body, its gate's page, and nothing of the other copy.\<close>

definition copy_region :: "nat \<Rightarrow> nat \<Rightarrow> bool" where
  "copy_region copy b \<longleftrightarrow> CATALOG ! copy \<le> b \<and> b < CATALOG ! copy + 512"

lemma two_copies: "copy < 2 \<Longrightarrow> copy = 0 \<or> copy = (1 :: nat)"
  by auto

lemma body_in_copy: "body_region (CATALOG ! copy) b \<Longrightarrow> copy_region copy b"
  by (simp add: body_region_def copy_region_def fmt_consts)

lemma gate_page:
  assumes "copy < 2" and "touched (catalog_gate copy) 1 b"
  shows "copy_region copy b" and "\<not> body_region (CATALOG ! copy) b"
proof -
  have "CATALOG ! copy = 32 * (2 + 16 * copy)" using two_copies [OF assms(1)] by (auto simp: CATALOG_def)
  then show "copy_region copy b" "\<not> body_region (CATALOG ! copy) b"
    using touched_above [OF assms(2), of "17 + 16 * copy"] touched_below [OF assms(2), of "18 + 16 * copy"]
    by (simp_all add: catalog_gate_def copy_region_def body_region_def fmt_consts)
qed

lemma copies_disjoint:
  assumes "copy < 2" and "copy_region copy b"
  shows "\<not> copy_region (1 - copy) b" and "\<not> extent_region b" and "\<not> journal_region b" and "b \<notin> set SUPERBLOCK"
  using assms two_copies [OF assms(1)]
  by (auto simp: copy_region_def CATALOG_def SUPERBLOCK_def extent_region_def journal_region_def fmt_consts)

lemma array_in_copy:
  assumes "n \<le> ENTRY_CAPACITY" and "array_region (CATALOG ! copy + 1) n b"
  shows "body_region (CATALOG ! copy) b"
proof -
  have "div_ceil n 4 \<le> 479" using assms(1) by (simp add: div_ceil_le_iff fmt_consts)
  then show ?thesis using assms(2) by (simp add: array_region_def body_region_def fmt_consts)
qed

lemma length_catalog_body:
  assumes "length (cat_header_encode h) = 512" and "\<forall>e\<in>set es. length (entry_encode e) = 128"
  shows "length (catalog_body h es) = 512 + 128 * length es"
proof -
  have "length (concat (map entry_encode es)) = 128 * length es" using assms(2) by (induction es) auto
  then show ?thesis using assms(1) by (simp add: catalog_body_def)
qed

text \<open>A whole body fits in the blocks in front of the gate.\<close>

lemma body_blocks:
  assumes "length (cat_header_encode h) = 512" and "\<forall>e\<in>set es. length (entry_encode e) = 128" and "length es \<le> ENTRY_CAPACITY"
  shows "length (padded (catalog_body h es)) div BLOCK \<le> ENTRY_BLOCKS"
  using assms(3) by (simp add: length_padded length_catalog_body [OF assms(1,2)] div_ceil_le_iff fmt_consts)

context block_device
begin

lemma body_emitter:
  assumes c: "c mod PAGE_BLOCKS = 0" and hdr: "length (cat_header_encode h) = 512"
    and ent: "\<forall>e\<in>set final. length (entry_encode e) = 128" and cap: "length final \<le> ENTRY_CAPACITY"
  shows "emitter D good alive media cands torn (bw_push D) (\<lambda>out w d. bw_inv c (catalog_body h out) w d) (body_region c) final"
proof unfold_locales
  fix out e rest d w r d'
  assume fin: "final = out @ e # rest" and good: "good d" and inv: "bw_inv c (catalog_body h out) w d" and run: "bw_push D e w d = (r, d')"
  have e: "length (entry_encode e) = 128" using ent fin by simp
  have "\<forall>e\<in>set (out @ [e]). length (entry_encode e) = 128" using ent fin by simp
  then have len: "length (catalog_body h (out @ [e])) = 512 + 128 * length (out @ [e])" by (rule length_catalog_body [OF hdr])
  have app: "catalog_body h (out @ [e]) = catalog_body h out @ entry_encode e" by (simp add: catalog_body_def)
  have room: "length (bw_stage w) + length (entry_encode e) \<le> STREAM_WINDOW"
  proof -
    obtain k where k: "length (bw_stage w) = 128 * k" "128 * k < 4096"
      using inv by (auto simp: bw_inv_def dvd_def STREAM_WINDOW_def fmt_consts)
    then show ?thesis using e by (simp add: STREAM_WINDOW_def fmt_consts)
  qed
  have "length (catalog_body h (out @ [e])) \<le> ENTRY_BLOCKS * BLOCK"
    using len cap fin by (simp add: fmt_consts)
  then have fit: "length (catalog_body h out @ entry_encode e) \<le> ENTRY_BLOCKS * BLOCK" by (simp only: app)
  have "confined (body_region c) d d' \<and> (r = Inl Media \<or> (\<exists>w'. r = Inr w' \<and> bw_inv c (catalog_body h out @ entry_encode e) w' d'))"
    by (rule bw_full_spec [OF good inv c room _ fit]) (use run e in \<open>simp_all add: bw_push_def Let_def ENTRY_STRIDE_def\<close>)
  then show "confined (body_region c) d d' \<and> (\<forall>x'. r = Inr x' \<longrightarrow> bw_inv c (catalog_body h (out @ [e])) x' d')"
    by (auto simp: app)
next
  show "bw_inv c (catalog_body h out) y d'" if "bw_inv c (catalog_body h out) y d" "confined (\<lambda>_. False) d d'" for out y d d'
    using bw_inv_stable that by blast
qed

lemma gate_write:
  assumes "good d" and "length bs = BLOCK" and "write_blocks D (catalog_gate t) bs d = (r, d')"
  shows "confined (touched (catalog_gate t) 1) d d'
    \<and> cands d' (catalog_gate t) \<subseteq> cands d (catalog_gate t) \<union> {bs} \<union> Collect torn
    \<and> (r = Inl Media \<or> r = Inr () \<and> (alive d' \<longrightarrow> media d' (catalog_gate t) = bs))"
proof -
  have len: "length bs = 1 * BLOCK" using assms(2) by simp
  have ch: "chunk bs 0 = bs" using assms(2) by (simp add: chunk_def slice_all)
  note w = write_blocks_cases [OF assms(1) len assms(3)]
  have "cands d' (catalog_gate t) \<subseteq> cands d (catalog_gate t) \<union> {bs} \<union> Collect torn"
    using w [THEN conjunct2, THEN conjunct2, THEN conjunct1, rule_format, of "catalog_gate t"] ch by (auto split: if_splits)
  moreover have "media d' (catalog_gate t) = bs" if "alive d'" "r = Inr ()"
    using w that ch len by (simp add: patch_def BLOCK_def)
  ultimately show ?thesis using write_confined [OF assms(1) len assms(3)] w by blast
qed

text \<open>
  Writing the target copy. It stops before its body is touched, or with the gate durably
  invalidated, or with the whole body durable behind the invalidated gate.
\<close>

lemma commit_body_spec:
  assumes good: "good d" and t: "t < 2" and es: "length es \<le> ENTRY_CAPACITY"
    and on: "array_on m (CATALOG ! (1 - t) + 1) (length es) d" and arr: "array_holds m (CATALOG ! (1 - t) + 1) ec es"
    and cu: "cu_over m (CATALOG ! (1 - t) + 1) ec (length es) cu" and fin: "final = apply_batch es (batch_order plan)"
    and hdr: "length (cat_header_encode h) = 512" and ent: "\<forall>e\<in>set final. length (entry_encode e) = 128"
    and cap: "length final \<le> ENTRY_CAPACITY" and run: "commit_body D t h (length es) cu plan d = (r, d')"
  shows "confined (copy_region t) d d' \<and>
    ((\<exists>e. r = Inl e) \<and> (\<forall>b. body_region (CATALOG ! t) b \<longrightarrow> cands d' b \<subseteq> cands d b)
        \<and> cands d' (catalog_gate t) \<subseteq> cands d (catalog_gate t) \<union> {INVALIDATED} \<union> Collect torn
     \<or> (\<exists>e. r = Inl e) \<and> cands d' (catalog_gate t) \<subseteq> {INVALIDATED}
     \<or> r = Inr (crc32 (catalog_body h final)) \<and> cands d' (catalog_gate t) \<subseteq> {INVALIDATED}
        \<and> (\<forall>i < length (padded (catalog_body h final)) div BLOCK. cands d' (CATALOG ! t + i) \<subseteq> {chunk (padded (catalog_body h final)) i}))"
proof -
  define c gb body where "c = CATALOG ! t" and "gb = catalog_gate t" and "body = catalog_body h final"
  have c: "c mod PAGE_BLOCKS = 0" using two_copies [OF t] by (auto simp: c_def CATALOG_def PAGE_BLOCKS_eq)
  have gb: "\<not> body_region c gb" by (simp add: gb_def c_def catalog_gate_def body_region_def fmt_consts)
  have page: "copy_region t b" "\<not> body_region c b" if "touched gb 1 b" for b
    using gate_page [OF t] that by (simp_all add: gb_def c_def)
  have inv_len: "length INVALIDATED = BLOCK" by (simp add: INVALIDATED_def)
  obtain r1 d1 where w1: "write_blocks D gb INVALIDATED d = (r1, d1)" by (rule prod.exhaust)
  note g1 = gate_write [OF good inv_len w1 [unfolded gb_def], folded gb_def]
  have c1: "confined (copy_region t) d d1" using confined_mono [OF g1 [THEN conjunct1]] page(1) by blast
  have body1: "cands d1 b \<subseteq> cands d b" if "body_region c b" for b
    using confined_at(1) [OF g1 [THEN conjunct1]] page(2) that by blast
  have phase1: ?thesis if "confined (copy_region t) d d'" "\<exists>e. r = Inl e" "\<forall>b. cands d' b \<subseteq> cands d1 b"
    using that body1 g1 by (simp only: c_def gb_def) blast
  show ?thesis
  proof (cases r1)
    case (Inl e)
    then show ?thesis using run phase1 c1 by (auto simp: commit_body_def bindS_def w1 [unfolded gb_def])
  next
    case (Inr u1)
    have good1: "good d1" using confined_good [OF c1] .
    obtain r2 d2 where s2: "sync_dev D d1 = (r2, d2)" by (rule prod.exhaust)
    note sy2 = sync_dev_cases [OF good1 s2]
    have c2: "confined (copy_region t) d d2" using confined_trans [OF c1 sync_confined [OF good1 s2]] .
    show ?thesis
    proof (cases r2)
      case (Inl e)
      then show ?thesis using run phase1 c2 sy2 Inr by (auto simp: commit_body_def bindS_def w1 [unfolded gb_def] s2)
    next
      case Inr2: (Inr u2)
      have gate2: "cands d2 gb \<subseteq> {INVALIDATED}"
        using sy2 [THEN conjunct2, THEN conjunct2] Inr2 g1 Inr by auto
      have good2: "good d2" using confined_good [OF c2] .
      have phase2: "confined (copy_region t) d x \<and> cands x gb \<subseteq> {INVALIDATED}" if "confined (body_region c) d2 x" for x
      proof -
        have "confined (copy_region t) d2 x" using confined_mono [OF that] body_in_copy by (simp add: c_def)
        then show ?thesis using confined_trans [OF c2] confined_at(1) [OF that gb] gate2 by blast
      qed
      have stop: ?thesis if "confined (body_region c) d2 d'" "\<exists>e. r = Inl e"
        using phase2 [OF that(1)] that(2) by (simp only: gb_def) blast
      define rest where "rest = (\<lambda>w. bindS (store_merge D (bw_push D) (length es) cu plan w) (\<lambda>(cu, w, written).
        bindS (bw_finish D w) (\<lambda>crc. bindS (sync_dev D) (\<lambda>_. retS crc))))"
      have run2: "bindS (bw_push_header D (cat_header_encode h) (bw_new c STREAM_WINDOW)) rest d2 = (r, d')"
        using run Inr Inr2 by (simp add: commit_body_def bindS_def w1 [unfolded gb_def] s2 c_def rest_def)
      obtain r3 d3 where p3: "bw_push_header D (cat_header_encode h) (bw_new c STREAM_WINDOW) d2 = (r3, d3)" by (rule prod.exhaust)
      have b3: "confined (body_region c) d2 d3 \<and> (r3 = Inl Media \<or> (\<exists>w'. r3 = Inr w' \<and> bw_inv c ([] @ cat_header_encode h) w' d3))"
        by (rule bw_full_spec [OF good2 bw_inv_new c _ _ _ p3 [unfolded bw_push_header_def]])
          (use hdr in \<open>simp_all add: bw_new_def STREAM_WINDOW_def fmt_consts\<close>)
      show ?thesis
      proof (cases r3)
        case (Inl e)
        then show ?thesis using run2 stop b3 by (auto simp: bindS_def p3)
      next
        case Inr3: (Inr w3)
        have inv3: "bw_inv c (catalog_body h []) w3 d3" using b3 Inr3 by (simp add: catalog_body_def)
        have c3: "confined (copy_region t) d d3" using phase2 b3 by blast
        have clear: "\<not> copy_region t b" if "array_region (CATALOG ! (1 - t) + 1) (length es) b" for b
          using copies_disjoint(1) [OF _ body_in_copy [OF array_in_copy [OF es that]]] t by auto
        have on3: "array_on m (CATALOG ! (1 - t) + 1) (length es) d3" by (rule array_on_confined [OF on c3 clear])
        have clear': "\<not> body_region c b" if "array_region (CATALOG ! (1 - t) + 1) (length es) b" for b
          using clear [OF that] body_in_copy by (auto simp: c_def)
        obtain r4 d4 where m4: "store_merge D (bw_push D) (length es) cu plan w3 d3 = (r4, d4)" by (rule prod.exhaust)
        have b4: "confined (body_region c) d3 d4 \<and> (\<forall>cu' x' w. r4 = Inr (cu', x', w) \<longrightarrow>
            cu_over m (CATALOG ! (1 - t) + 1) ec (length es) cu' \<and> bw_inv c (catalog_body h final) x' d4 \<and> w = length final)"
          by (rule store_merge_spec [OF body_emitter [OF c hdr ent cap] on3 arr clear' cu fin inv3 m4])
        have c4: "confined (body_region c) d2 d4" using confined_trans b3 b4 by blast
        show ?thesis
        proof (cases r4)
          case (Inl e)
          then show ?thesis using run2 stop c4 Inr3 by (auto simp: bindS_def p3 rest_def m4)
        next
          case Inr4: (Inr x4)
          obtain cu4 w4 n4 where x4: "x4 = (cu4, w4, n4)" by (cases x4)
          have inv4: "bw_inv c body w4 d4" using b4 Inr4 x4 by (simp add: body_def)
          have fit: "length body \<le> ENTRY_BLOCKS * BLOCK"
            using length_catalog_body [OF hdr ent] cap by (simp add: body_def fmt_consts)
          obtain r5 d5 where f5: "bw_finish D w4 d4 = (r5, d5)" by (rule prod.exhaust)
          note b5 = bw_finish_spec [OF confined_good [OF c4] inv4 c fit f5]
          have c5: "confined (body_region c) d2 d5" using confined_trans c4 b5 by blast
          obtain r6 d6 where s6: "sync_dev D d5 = (r6, d6)" by (rule prod.exhaust)
          note sy6 = sync_dev_cases [OF confined_good [OF c5] s6]
          have c6: "confined (body_region c) d2 d6" using confined_trans [OF c5 sync_confined [OF confined_good [OF c5] s6]] .
          have run6: "(r, d') = (case r5 of Inl e \<Rightarrow> (Inl e, d5) | Inr crc \<Rightarrow> (case r6 of Inl e \<Rightarrow> (Inl e, d6) | Inr _ \<Rightarrow> (Inr crc, d6)))"
            using run2 Inr3 Inr4 x4 by (cases r5; cases r6) (auto simp: bindS_def p3 rest_def m4 f5 s6)
          show ?thesis
          proof (cases "\<exists>e. r5 = Inl e \<or> r6 = Inl e")
            case True
            then have "confined (body_region c) d2 d' \<and> (\<exists>e. r = Inl e)" using run6 c5 c6 by (cases r5; cases r6) auto
            then show ?thesis using stop by blast
          next
            case False
            then have ok: "r5 = Inr (crc32 body)" "r6 = Inr ()" using b5 by (cases r5; cases r6; auto)+
            then have rd: "r = Inr (crc32 body)" "d' = d6" using run6 by simp_all
            have "alive d5" and du: "\<forall>b. cands d6 b \<subseteq> {media d5 b}" using sy6 ok by auto
            then have "holds_at (media d5) c (padded body)" using b5 ok by auto
            then have "\<forall>i < length (padded body) div BLOCK. cands d6 (c + i) \<subseteq> {chunk (padded body) i}"
              using du unfolding holds_at_def by metis
            then show ?thesis using rd phase2 [OF c6] by (simp only: body_def c_def gb_def) blast
          qed
        qed
      qed
    qed
  qed
qed

lemma commit_gate_spec:
  assumes good: "good d" and len: "length (gate_encode gate) = BLOCK" and t: "unat (g_copy gate) = t"
    and gate: "cands d (catalog_gate t) \<subseteq> {INVALIDATED}" and run: "commit_gate D gate d = (r, d')"
  shows "confined (touched (catalog_gate t) 1) d d'
    \<and> cands d' (catalog_gate t) \<subseteq> {INVALIDATED, gate_encode gate} \<union> Collect torn
    \<and> (r = Inl Media \<or> r = Inr () \<and> cands d' (catalog_gate t) \<subseteq> {gate_encode gate})"
proof -
  obtain r1 d1 where w: "write_blocks D (catalog_gate t) (gate_encode gate) d = (r1, d1)" by (rule prod.exhaust)
  note g = gate_write [OF good len w]
  have good1: "good d1" using g confined_good by blast
  obtain r2 d2 where sy: "sync_dev D d1 = (r2, d2)" by (rule prod.exhaust)
  note s = sync_dev_cases [OF good1 sy]
  have c2: "confined (touched (catalog_gate t) 1) d d2" using confined_trans [OF g [THEN conjunct1] sync_confined [OF good1 sy]] .
  have gs: "cands d1 (catalog_gate t) \<subseteq> {INVALIDATED, gate_encode gate} \<union> Collect torn" using g gate by blast
  have sub: "cands d2 (catalog_gate t) \<subseteq> cands d1 (catalog_gate t)"
    using confined_at(1) [OF sync_confined [OF good1 sy, of "\<lambda>_. False"]] by blast
  have rr: "(r, d') = (case r1 of Inl e \<Rightarrow> (Inl e, d1) | Inr _ \<Rightarrow> (r2, d2))"
    using run by (cases r1) (auto simp: commit_gate_def bindS_def t w sy)
  show ?thesis
  proof (cases r1)
    case (Inl e)
    then show ?thesis using rr g gs by auto
  next
    case (Inr u)
    then have "r2 = Inr () \<Longrightarrow> cands d2 (catalog_gate t) \<subseteq> {gate_encode gate}" using s g by auto
    then show ?thesis using rr Inr c2 gs sub s by auto
  qed
qed

lemma flush_partial_confined:
  assumes "good d" and "length (rv_staging row) = BLOCK" and "flush_partial D g (d, row) = (r, d', row')"
  shows "confined extent_region d d' \<and> length (rv_staging row') = BLOCK \<and> rv_ranges row' = rv_ranges row"
proof -
  define k where "k = rv_written row mod BLOCK"
  have k: "k < BLOCK" by (simp add: k_def BLOCK_def)
  show ?thesis
  proof (cases "k = 0 \<or> locate (rv_ranges row) g (rv_written row - k) = None")
    case True
    then show ?thesis using assms confined_refl by (auto simp: flush_partial_def Let_def k_def split: if_splits)
  next
    case False
    then obtain l where l: "locate (rv_ranges row) g (rv_written row - k) = Some l" by auto
    define st where "st = put_bytes (rv_staging row) k (zeros (BLOCK - k))"
    have len: "length st = 1 * BLOCK" using assms(2) k by (simp add: st_def)
    obtain r1 d1 where w: "write_blocks D (loc_block l) st d = (r1, d1)" by (rule prod.exhaust)
    have "confined extent_region d d1"
      by (rule confined_mono [OF write_confined [OF assms(1) len w]]) (rule locate_extent [OF l])
    then show ?thesis
      using assms(3) False l w len by (auto simp: flush_partial_def Let_def k_def [symmetric] st_def [symmetric])
  qed
qed

lemma flush_staged_confined:
  "good (fs_dev s) \<Longrightarrow> store_ok s \<Longrightarrow> \<forall>x\<in>set plan. \<exists>mu. resolved_ok s mu x \<Longrightarrow> flush_staged D plan staged s = (r, s') \<Longrightarrow>
   confined extent_region (fs_dev s) (fs_dev s') \<and> s' = s\<lparr>fs_dev := fs_dev s', fs_reservations := fs_reservations s'\<rparr>"
proof (induction plan arbitrary: s staged)
  case Nil
  then show ?case using confined_refl by auto
next
  case (Cons x plan)
  show ?case
  proof (cases "r_reservation x")
    case None
    then show ?thesis using Cons by auto
  next
    case (Some slot)
    have slot: "slot < length (fs_reservations s)" using Cons.prems(3) Some by (auto simp: resolved_ok_def)
    show ?thesis
    proof (cases "fs_reservations s ! slot")
      case None
      then show ?thesis using Cons.prems Some confined_refl by auto
    next
      case row: (Some row)
      then have "Some row \<in> set (fs_reservations s)" using slot by (metis nth_mem)
      then have ok: "length (rv_staging row) = BLOCK" "ranges_ok (fs_extents s) (rv_ranges row)"
        using Cons.prems(2) by (simp_all add: store_ok_def)
      obtain r1 d1 row1 where fp: "flush_partial D (fs_geometry s) (fs_dev s, row) = (r1, d1, row1)" using prod_cases3 by blast
      note f = flush_partial_confined [OF Cons.prems(1) ok(1) fp]
      define s1 where "s1 = s\<lparr>fs_dev := d1, fs_reservations := (fs_reservations s)[slot := Some row1]\<rparr>"
      have s1: "good (fs_dev s1)" "store_ok s1" "\<forall>x\<in>set plan. \<exists>mu. resolved_ok s1 mu x"
        using f confined_good Cons.prems(2,3) ok
        by (auto simp: s1_def store_ok_def resolved_ok_def dest!: set_update_subset_insert [THEN subsetD])
      have run: "(case r1 of Inl e \<Rightarrow> (Inl e, s1) | Inr _ \<Rightarrow> flush_staged D plan True s1) = (r, s')"
        using Cons.prems(4) unfolding s1_def by (simp add: Some row fp Let_def)
      have "confined extent_region (fs_dev s1) (fs_dev s') \<and> s' = s1\<lparr>fs_dev := fs_dev s', fs_reservations := fs_reservations s'\<rparr>"
        using run Cons.IH [OF s1] confined_refl [OF s1(1)] by (cases r1) auto
      moreover have "fs_dev s1 = d1" by (simp add: s1_def)
      ultimately show ?thesis using f confined_trans by (auto simp: s1_def)
    qed
  qed
qed

lemma commit_payload_confined:
  assumes good: "good (fs_dev s)" and st: "store_ok s" and plan: "\<forall>x\<in>set plan. \<exists>mu. resolved_ok s mu x"
    and run: "commit_payload D plan s = (r, s')"
  shows "confined extent_region (fs_dev s) (fs_dev s') \<and> s' = s\<lparr>fs_dev := fs_dev s', fs_reservations := fs_reservations s'\<rparr>"
proof -
  obtain r1 s1 where fl: "flush_staged D plan False s = (r1, s1)" by (rule prod.exhaust)
  note f = flush_staged_confined [OF good st plan fl]
  have good1: "good (fs_dev s1)" using f confined_good by blast
  have "stays fs_dev extent_region (bindS (flush_ride_tail D plan) (\<lambda>wrote.
      if staged \<or> wrote then devS (sync_dev D) else retS ())) (\<lambda>_. True)" for staged
    by (auto intro!: stays_then [OF stays_flush_ride_tail] stays_dev stays_sync stays_ret)
  note tail = staysD [OF this good1]
  have "dev_only_op (bindS (flush_ride_tail D plan) (\<lambda>wrote.
      if staged \<or> wrote then devS (sync_dev D) else retS ()))" for staged
    by (auto intro!: dev_only_bind dev_only_flush_ride_tail dev_only_dev dev_only_ret)
  note only = dev_only_opD [OF this]
  show ?thesis
  proof (cases r1)
    case (Inl e)
    then show ?thesis using run f by (auto simp: commit_payload_def bindS_def [of "flush_staged _ _ _"] fl)
  next
    case (Inr staged)
    have rest: "bindS (flush_ride_tail D plan) (\<lambda>wrote. if staged \<or> wrote then devS (sync_dev D) else retS ()) s1 = (r, s')"
      using run Inr by (simp add: commit_payload_def bindS_def [of "flush_staged _ _ _"] fl)
    have s1: "s1 = s\<lparr>fs_dev := fs_dev s1, fs_reservations := fs_reservations s1\<rparr>" using f by blast
    have s': "s' = s1\<lparr>fs_dev := fs_dev s'\<rparr>" by (rule only [OF rest])
    have rows: "fs_reservations s' = fs_reservations s1" by (subst s') simp
    note s'
    also have "s1\<lparr>fs_dev := fs_dev s'\<rparr> = s\<lparr>fs_dev := fs_dev s', fs_reservations := fs_reservations s1\<rparr>" by (subst s1) simp
    finally have "s' = s\<lparr>fs_dev := fs_dev s', fs_reservations := fs_reservations s'\<rparr>" by (simp only: rows)
    then show ?thesis using f tail [OF rest] confined_trans by blast
  qed
qed

end

subsection \<open>What is published\<close>

text \<open>
  The abstract effect of a batch: entries whose keys it does not name stay, entries it removes or
  replaces go, every \<open>Put\<close> appears with the metadata of the request, and nothing else appears.
\<close>

definition applies :: "mutation list \<Rightarrow> entry list \<Rightarrow> entry list \<Rightarrow> bool" where
  "applies ms es es' \<longleftrightarrow> (\<forall>e\<in>set es. ek e \<notin> mutation_key ` set ms \<longrightarrow> e \<in> set es')
     \<and> (\<forall>m src. Put m src \<in> set ms \<longrightarrow> (\<exists>e\<in>set es'. same_meta e m))
     \<and> (\<forall>e\<in>set es'. e \<in> set es \<and> ek e \<notin> mutation_key ` set ms \<or> (\<exists>m src. Put m src \<in> set ms \<and> same_meta e m))"

lemma applies_batch:
  assumes sorted: "sorted_entries es" and plan: "list_all2 (resolved_ok s) ms plan" and dis: "distinct (map r_key plan)"
  shows "applies ms es (apply_batch es (batch_order plan))"
proof -
  have set: "set (apply_batch es (batch_order plan)) = {e \<in> set es. ek e \<notin> r_key ` set plan} \<union> {x. \<exists>r\<in>set plan. r_entry r = Some x}"
    using set_apply_batch [OF sorted batch_order_sorted [OF dis]] by simp
  have keys: "r_key ` set plan = mutation_key ` set ms"
  proof -
    have "map r_key plan = map mutation_key ms"
      using plan by (induction rule: list_all2_induct) (simp_all add: resolved_ok_def)
    then show ?thesis by (metis image_set)
  qed
  have left: "\<exists>x\<in>set plan. resolved_ok s mu x" if "mu \<in> set ms" for mu
    using plan that by (induction rule: list_all2_induct) auto
  have right: "\<exists>mu\<in>set ms. resolved_ok s mu x" if "x \<in> set plan" for x
    using plan that by (induction rule: list_all2_induct) auto
  have "\<exists>e\<in>set (apply_batch es (batch_order plan)). same_meta e m" if "Put m src \<in> set ms" for m src
    using left [OF that] unfolding set by (auto simp: resolved_ok_def)
  moreover have "\<exists>m src. Put m src \<in> set ms \<and> same_meta e m" if r: "r \<in> set plan" and e: "r_entry r = Some e" for e r
  proof -
    obtain mu where mu: "mu \<in> set ms" "resolved_ok s mu r" using right [OF r] by blast
    show ?thesis
    proof (cases mu)
      case (Put m src)
      then show ?thesis using mu e by (auto simp: resolved_ok_def)
    qed (use mu e in \<open>simp add: resolved_ok_def\<close>)
  qed
  ultimately show ?thesis unfolding applies_def set keys by blast
qed

lemma final_wf:
  assumes "sorted_entries es" and "\<forall>e\<in>set es. wf_entry (fs_extents s) e" and "list_all2 (resolved_ok s) ms plan"
    and "distinct (map r_key plan)" and "e \<in> set (apply_batch es (batch_order plan))"
  shows "wf_entry (fs_extents s) e"
proof -
  have "e \<in> set es \<or> (\<exists>r\<in>set plan. r_entry r = Some e)"
    using assms(5) set_apply_batch [OF assms(1) batch_order_sorted [OF assms(4)]] by auto
  moreover have "\<exists>mu. resolved_ok s mu r" if "r \<in> set plan" for r
    using assms(3) that by (induction rule: list_all2_induct) auto
  ultimately show ?thesis using assms(2) by (auto simp: resolved_ok_def)
qed

text \<open>All extents of the catalog, and all that reservations hold; no extent is in two places.\<close>

definition entry_extents :: "entry list \<Rightarrow> nat list" where
  "entry_extents es = concat (map (\<lambda>e. expand (e_ranges e)) es)"

definition reserved_extents :: "'d fstore \<Rightarrow> nat list" where
  "reserved_extents s = concat (map (\<lambda>row. case row of None \<Rightarrow> [] | Some r \<Rightarrow> expand (rv_ranges r)) (fs_reservations s))"

lemma entry_extents_simps [simp]:
  "entry_extents [] = []" "entry_extents (e # es) = expand (e_ranges e) @ entry_extents es"
  "entry_extents (es @ es') = entry_extents es @ entry_extents es'"
  by (simp_all add: entry_extents_def)

lemma distinct_concatD:
  "distinct (concat (map f xs)) \<Longrightarrow> x \<in> set xs \<Longrightarrow> distinct (f x)"
  "distinct (concat (map f xs)) \<Longrightarrow> i < length xs \<Longrightarrow> j < length xs \<Longrightarrow> i \<noteq> j \<Longrightarrow> set (f (xs ! i)) \<inter> set (f (xs ! j)) = {}"
proof -
  show "distinct (concat (map f xs)) \<Longrightarrow> x \<in> set xs \<Longrightarrow> distinct (f x)"
    by (induction xs) auto
  show "distinct (concat (map f xs)) \<Longrightarrow> i < length xs \<Longrightarrow> j < length xs \<Longrightarrow> i \<noteq> j \<Longrightarrow> set (f (xs ! i)) \<inter> set (f (xs ! j)) = {}"
  proof (induction xs arbitrary: i j)
    case (Cons x xs)
    have out: "set (f x) \<inter> set (f (xs ! k)) = {}" if "k < length xs" for k
      using Cons.prems(1) nth_mem [OF that] by auto
    show ?case using Cons out by (cases i; cases j) (simp_all add: Int_commute)
  qed simp
qed

lemma distinct_concatI:
  assumes "\<And>x. x \<in> set xs \<Longrightarrow> distinct (f x)" and "\<And>x y. x \<in> set xs \<Longrightarrow> y \<in> set xs \<Longrightarrow> x \<noteq> y \<Longrightarrow> set (f x) \<inter> set (f y) = {}"
    and "distinct xs"
  shows "distinct (concat (map f xs))"
  using assms
proof (induction xs)
  case (Cons x xs)
  have "set (f x) \<inter> set (f y) = {}" if "y \<in> set xs" for y using Cons.prems that by (intro Cons.prems(2)) auto
  then show ?case using Cons by auto
qed simp

lemma distinct_reservations:
  assumes "distinct (List.map_filter f xs)" and "x \<in> set xs" and "y \<in> set xs" and "f x = Some k" and "f y = Some k"
  shows "x = y"
  using assms by (induction xs) (auto simp: map_filter_def split: if_splits option.splits intro: rev_image_eqI)

lemma sorted_distinct_keys: "sorted_entries es \<Longrightarrow> distinct (map ek es)"
  by (induction es) (auto simp: key_less_def)

text \<open>The owner of an entry of the next catalog: the old entry of its key, or a reservation.\<close>

definition owned :: "'d fstore \<Rightarrow> entry list \<Rightarrow> resolved list \<Rightarrow> entry \<Rightarrow> entry + nat \<Rightarrow> bool" where
  "owned s es plan e w \<longleftrightarrow> (case w of
     Inl old \<Rightarrow> old \<in> set es \<and> ek old = ek e \<and> (\<exists>n. expand (e_ranges e) = take n (expand (e_ranges old)))
   | Inr slot \<Rightarrow> slot < length (fs_reservations s) \<and> (\<exists>r\<in>set plan. r_entry r = Some e \<and> r_reservation r = Some slot)
       \<and> (\<exists>row n. fs_reservations s ! slot = Some row \<and> expand (e_ranges e) = take n (expand (rv_ranges row))))"

lemma extents_stay_disjoint:
  assumes sorted: "sorted_entries es" and plan: "list_all2 (resolved_ok s) ms plan" "distinct (map r_key plan)"
    and drawn: "drawn_plan s es plan" and dis: "distinct (entry_extents es @ reserved_extents s)"
    and final: "sorted_entries (apply_batch es (batch_order plan))"
  shows "distinct (entry_extents (apply_batch es (batch_order plan)))"
proof -
  let ?new = "apply_batch es (batch_order plan)"
  let ?row = "\<lambda>row. case row of None \<Rightarrow> [] | Some r \<Rightarrow> expand (rv_ranges r)"
  have set: "set ?new = {e \<in> set es. ek e \<notin> r_key ` set plan} \<union> {x. \<exists>r\<in>set plan. r_entry r = Some x}"
    using set_apply_batch [OF sorted batch_order_sorted [OF plan(2)]] by simp
  have keys: "ek e = r_key r" if "r \<in> set plan" "r_entry r = Some e" for r e
  proof -
    have "\<exists>mu. resolved_ok s mu r" using plan(1) that(1) by (induction rule: list_all2_induct) auto
    then show ?thesis using that(2) by (auto simp: resolved_ok_def)
  qed
  have owner: "\<exists>w. owned s es plan e w" if e: "e \<in> set ?new" for e
  proof (cases "e \<in> set es \<and> ek e \<notin> r_key ` set plan")
    case True
    then show ?thesis by (intro exI [of _ "Inl e"]) (auto simp: owned_def intro: exI [of _ "length (expand (e_ranges e))"])
  next
    case False
    then obtain r where r: "r \<in> set plan" "r_entry r = Some e" using e set by auto
    have d: "drawn s es r" using drawn r(1) by (simp add: drawn_plan_def)
    show ?thesis
    proof (cases "r_reservation r")
      case None
      then obtain old where "old \<in> set es" "ek old = r_key r" "\<exists>n. expand (e_ranges e) = take n (expand (e_ranges old))"
        using d r(2) by (auto simp: drawn_def)
      then show ?thesis using keys [OF r] by (intro exI [of _ "Inl old"]) (simp add: owned_def)
    next
      case (Some slot)
      then show ?thesis using d r by (intro exI [of _ "Inr slot"]) (auto simp: owned_def drawn_def)
    qed
  qed
  have dis1: "distinct (entry_extents es)" "distinct (reserved_extents s)" "set (entry_extents es) \<inter> set (reserved_extents s) = {}"
    using dis by simp_all
  have old_in: "set (expand (e_ranges old)) \<subseteq> set (entry_extents es)" if "old \<in> set es" for old
    using that by (auto simp: entry_extents_def)
  have row_in: "set (expand (rv_ranges row)) \<subseteq> set (reserved_extents s)"
    if "slot < length (fs_reservations s)" "fs_reservations s ! slot = Some row" for slot row
    using that nth_mem [OF that(1)] by (fastforce simp: reserved_extents_def)
  have inj: "e1 = e2" if o1: "owned s es plan e1 w" and o2: "owned s es plan e2 w" and new: "e1 \<in> set ?new" "e2 \<in> set ?new" for e1 e2 w
  proof (cases w)
    case (Inl old)
    then have "ek e1 = ek e2" using o1 o2 by (simp add: owned_def)
    then show ?thesis using sorted_distinct_keys [OF final] new by (auto simp: distinct_map dest: inj_onD)
  next
    case (Inr slot)
    then obtain r1 r2 where "r1 \<in> set plan" "r2 \<in> set plan" "r_entry r1 = Some e1" "r_entry r2 = Some e2"
        "r_reservation r1 = Some slot" "r_reservation r2 = Some slot" using o1 o2 by (auto simp: owned_def)
    then show ?thesis using distinct_reservations [of r_reservation plan r1 r2 slot] drawn by (auto simp: drawn_plan_def)
  qed
  have cross: "set (expand (e_ranges old)) \<inter> set (expand (rv_ranges row)) = {}"
    if "old \<in> set es" "slot < length (fs_reservations s)" "fs_reservations s ! slot = Some row" for old slot row
    using old_in [OF that(1)] row_in [OF that(2,3)] dis1(3) by blast
  have apart: "set (expand (e_ranges e1)) \<inter> set (expand (e_ranges e2)) = {}"
    if w: "owned s es plan e1 w1" "owned s es plan e2 w2" "w1 \<noteq> w2" for e1 e2 w1 w2
  proof -
    define area where "area = (\<lambda>w :: entry + nat. case w of Inl old \<Rightarrow> set (expand (e_ranges old))
      | Inr slot \<Rightarrow> set (?row (fs_reservations s ! slot)))"
    have in_area: "set (expand (e_ranges e)) \<subseteq> area w" if "owned s es plan e w" for e w
      using that by (auto simp: owned_def area_def split: sum.splits dest: in_set_takeD)
    have "area w1 \<inter> area w2 = {}"
    proof (cases w1)
      case (Inl o1)
      show ?thesis
      proof (cases w2)
        case o2: (Inl o2)
        then have "o1 \<in> set es" "o2 \<in> set es" "o1 \<noteq> o2" using w Inl by (simp_all add: owned_def)
        then show ?thesis using distinct_concatD(2) [OF dis1(1) [unfolded entry_extents_def]]
          by (auto simp: area_def Inl o2 in_set_conv_nth)
      next
        case (Inr s2)
        then show ?thesis using w Inl cross by (fastforce simp: owned_def area_def)
      qed
    next
      case (Inr s1)
      show ?thesis
      proof (cases w2)
        case (Inl o2)
        then show ?thesis using w Inr cross by (fastforce simp: owned_def area_def)
      next
        case s2: (Inr s2)
        then have "s1 < length (fs_reservations s)" "s2 < length (fs_reservations s)" "s1 \<noteq> s2"
          using w Inr by (simp_all add: owned_def)
        then show ?thesis using distinct_concatD(2) [OF dis1(2) [unfolded reserved_extents_def]]
          by (simp add: area_def Inr s2)
      qed
    qed
    then show ?thesis using in_area w(1,2) by blast
  qed
  show ?thesis unfolding entry_extents_def
  proof (rule distinct_concatI)
    show "distinct ?new" using sorted_distinct_keys [OF final] by (simp add: distinct_map)
    fix e1 assume e1: "e1 \<in> set ?new"
    then obtain w1 where w1: "owned s es plan e1 w1" using owner by blast
    then show "distinct (expand (e_ranges e1))"
    proof (cases w1)
      case (Inl old)
      then show ?thesis using w1 distinct_concatD(1) [OF dis1(1) [unfolded entry_extents_def]] by (auto simp: owned_def)
    next
      case (Inr slot)
      then obtain row n where row: "slot < length (fs_reservations s)" "fs_reservations s ! slot = Some row"
          "expand (e_ranges e1) = take n (expand (rv_ranges row))" using w1 by (auto simp: owned_def)
      then have "Some row \<in> set (fs_reservations s)" by (metis nth_mem)
      then show ?thesis using distinct_concatD(1) [OF dis1(2) [unfolded reserved_extents_def], of "Some row"] row(3) by simp
    qed
    fix e2 assume e2: "e2 \<in> set ?new" and ne: "e1 \<noteq> e2"
    then obtain w2 where w2: "owned s es plan e2 w2" using owner by blast
    have "w1 \<noteq> w2" using inj w1 w2 e1 e2 ne by blast
    then show "set (expand (e_ranges e1)) \<inter> set (expand (e_ranges e2)) = {}" using apart w1 w2 by blast
  qed
qed

lemma array_holds_wf:
  assumes "array_holds m base ec es" and "\<And>b. length (m b) = BLOCK" and "e \<in> set es"
  shows "wf_entry ec e"
proof -
  obtain i where i: "i < length es" "es ! i = e" using assms(3) by (auto simp: in_set_conv_nth)
  have "i mod 4 * 128 + 128 \<le> 512" using mod_less_divisor [of 4 i] by linarith
  then have "length (entry_at m base i) = 128" using assms(2) by (simp add: entry_at_def fmt_consts)
  moreover have "entry_decode (entry_at m base i) ec = Inr e" using assms(1) i by (auto simp: array_holds_def)
  ultimately show ?thesis using entry_decode_Inr by blast
qed

text \<open>A copy that holds the header \<open>h\<close> and the entries \<open>es\<close>, certified by its gate.\<close>

definition copy_gate :: "nat \<Rightarrow> cat_header \<Rightarrow> entry list \<Rightarrow> gate" where
  "copy_gate copy h es = \<lparr>g_copy = of_nat copy, g_store = h_store h, g_sequence = h_sequence h,
     g_entry_count = h_entry_count h, body_crc = crc32 (catalog_body h es)\<rparr>"

definition copy_image :: "(nat \<Rightarrow> bytes) \<Rightarrow> nat \<Rightarrow> cat_header \<Rightarrow> entry list \<Rightarrow> bool" where
  "copy_image img copy h es \<longleftrightarrow> img (catalog_gate copy) = gate_encode (copy_gate copy h es)
     \<and> holds_at img (CATALOG ! copy) (padded (catalog_body h es))"

text \<open>The entry \<open>i\<close> of the body is where the cursor looks for it.\<close>

lemma body_entry:
  assumes hdr: "length (cat_header_encode h) = 512" and ent: "\<forall>e\<in>set es. length (entry_encode e) = 128"
    and hold: "holds_at img c (padded (catalog_body h es))" and i: "i < length es"
  shows "entry_at img (c + 1) i = entry_encode (es ! i)"
proof -
  let ?body = "catalog_body h es"
  have len: "length ?body = 512 + 128 * length es" by (rule length_catalog_body [OF hdr ent])
  have off: "i mod 4 * 128 + 128 \<le> 512" using mod_less_divisor [of 4 i] by linarith
  have at: "(1 + i div 4) * 512 + i mod 4 * 128 = 512 + i * 128"
    using div_mult_mod_eq [of i 4] add_mult_distrib [of 1 "i div 4" 512] by linarith
  have blocks: "length (padded ?body) div 512 = div_ceil (512 + 128 * length es) 512"
    by (simp add: length_padded len BLOCK_def)
  have in_range: "1 + i div 4 < length (padded ?body) div BLOCK"
  proof -
    have "\<not> div_ceil (512 + 128 * length es) 512 \<le> 1 + i div 4"
      using i div_mult_mod_eq [of i 4] by (simp add: div_ceil_le_iff)
    then show ?thesis using blocks by (simp add: BLOCK_def)
  qed
  have "img (c + (1 + i div 4)) = chunk (padded ?body) (1 + i div 4)"
    using hold in_range unfolding holds_at_def by blast
  then have "entry_at img (c + 1) i = slice (i mod 4 * 128) 128 (chunk (padded ?body) (1 + i div 4))"
    by (simp add: entry_at_def fmt_consts)
  also have "\<dots> = slice ((1 + i div 4) * 512 + i mod 4 * 128) 128 (padded ?body)"
    unfolding chunk_def BLOCK_def by (rule slice_slice [OF off])
  also have "\<dots> = slice (512 + i * 128) 128 ?body"
    unfolding at padded_def by (rule slice_append_left) (use i len in simp)
  also have "\<dots> = slice (i * 128) 128 (concat (map entry_encode es))"
    unfolding catalog_body_def using slice_append_right [of "cat_header_encode h" "512 + i * 128" 128] hdr by simp
  also have "\<dots> = entry_encode (es ! i)"
    using ent i
  proof (induction es arbitrary: i)
    case (Cons e es)
    show ?case
    proof (cases i)
      case 0
      then show ?thesis using Cons.prems by (simp add: slice_append_left slice_all)
    next
      case (Suc j)
      have "slice (128 + j * 128) 128 (entry_encode e @ concat (map entry_encode es)) = slice (j * 128) 128 (concat (map entry_encode es))"
        using slice_append_right [of "entry_encode e" "128 + j * 128" 128] Cons.prems(1) by simp
      then show ?thesis using Cons Suc by simp
    qed
  qed simp
  finally show ?thesis .
qed

lemma length_header: "wf_cat_header h \<Longrightarrow> length (cat_header_encode h) = 512"
  by (simp add: wf_cat_header_def cat_header_encode_def Let_def BLOCK_def codec_simps)

lemma copy_image_held:
  assumes hdr: "wf_cat_header h" and ent: "\<forall>e\<in>set es. wf_entry (fs_extents s) e" and copy: "copy < 2"
    and n: "length es = unat (h_entry_count h)" and wf: "wf_catalog (fs_geometry s) (next_object h) es"
    and img: "copy_image img copy h es"
    and sv: "sv_copy (fs_served s) = copy" "sv_entry_count (fs_served s) = h_entry_count h" "sv_next_object (fs_served s) = next_object h"
  shows "catalog_held img s es"
proof -
  note len = length_header [OF hdr]
  have ent': "\<forall>e\<in>set es. length (entry_encode e) = 128" using ent by (auto simp: wf_entry_def)
  have hold: "holds_at img (CATALOG ! copy) (padded (catalog_body h es))" using img by (simp add: copy_image_def)
  have "entry_decode (entry_at img (CATALOG ! copy + 1) i) (fs_extents s) = Inr (es ! i)" if "i < length es" for i
    using body_entry [OF len ent' hold that] entry_roundtrip [of "fs_extents s" "es ! i"] ent that by simp
  then have "array_holds img (CATALOG ! copy + 1) (fs_extents s) es" by (simp add: array_holds_def)
  then show ?thesis using copy n wf hdr by (simp add: catalog_held_def sv wf_cat_header_def)
qed

text \<open>
  The next catalog of a store: the batch applied, under the next sequence. When no extent was in
  two places before, among the entries and the reservations, none is in two entries after.
\<close>

definition next_catalog :: "'d fstore \<Rightarrow> mutation list \<Rightarrow> entry list \<Rightarrow> cat_header \<Rightarrow> entry list \<Rightarrow> bool" where
  "next_catalog s ms es h es' \<longleftrightarrow> applies ms es es' \<and> wf_catalog (fs_geometry s) (next_object h) es'
     \<and> (\<forall>e\<in>set es'. wf_entry (fs_extents s) e) \<and> wf_cat_header h \<and> length es' = unat (h_entry_count h)
     \<and> h_store h = fs_store s \<and> unat (h_sequence h) = unat (sv_high_water (fs_served s)) + 1
     \<and> (distinct (entry_extents es @ reserved_extents s) \<longrightarrow> distinct (entry_extents es'))"

context block_device
begin

lemma commit_settle_effect:
  assumes "good (fs_dev s)"
  shows "confined journal_region (fs_dev s) (fs_dev (commit_settle D plan h t crc s))"
    and "sv_copy (fs_served (commit_settle D plan h t crc s)) = t"
    and "sv_entry_count (fs_served (commit_settle D plan h t crc s)) = h_entry_count h"
    and "sv_next_object (fs_served (commit_settle D plan h t crc s)) = next_object h"
    and "fs_geometry (commit_settle D plan h t crc s) = fs_geometry s"
    and "fs_extents (commit_settle D plan h t crc s) = fs_extents s"
    and "fs_store (commit_settle D plan h t crc s) = fs_store s"
    and "sv_high_water (fs_served (commit_settle D plan h t crc s)) = h_sequence h"
proof -
  have geo: "fs_geometry (settle_ride D plan x) = fs_geometry x \<and> fs_extents (settle_ride D plan x) = fs_extents x
      \<and> fs_store (settle_ride D plan x) = fs_store x" for x
    by (auto simp: settle_ride_def Let_def devS_def split: option.split prod.split)
  define x where "x = (let y = release plan (s\<lparr>fs_served := \<lparr>sv_mode = (if h_sequence h = - 1 then SequenceSpaceExhausted else sv_mode (fs_served s)),
             sv_copy = t, sv_sequence = h_sequence h, sv_high_water = h_sequence h,
             sv_next_object = next_object h, sv_entry_count = h_entry_count h, sv_body_crc = crc\<rparr>\<rparr>) in
     y\<lparr>fs_reservations := fold (\<lambda>r rows. case r_reservation r of
             None \<Rightarrow> rows | Some slot \<Rightarrow> rows[slot := None]) plan (fs_reservations y)\<rparr>)"
  have eq: "commit_settle D plan h t crc s = settle_ride D plan x" by (simp add: commit_settle_def x_def Let_def)
  have x: "fs_dev x = fs_dev s" "sv_copy (fs_served x) = t" "sv_entry_count (fs_served x) = h_entry_count h"
      "sv_next_object (fs_served x) = next_object h" "fs_geometry x = fs_geometry s" "fs_extents x = fs_extents s"
      "fs_store x = fs_store s" "sv_high_water (fs_served x) = h_sequence h"
    by (simp_all add: x_def Let_def release_def)
  show "confined journal_region (fs_dev s) (fs_dev (commit_settle D plan h t crc s))"
    using settle_ride_confined(1) [of x plan] assms x by (simp add: eq)
  show "sv_copy (fs_served (commit_settle D plan h t crc s)) = t"
      "sv_entry_count (fs_served (commit_settle D plan h t crc s)) = h_entry_count h"
      "sv_next_object (fs_served (commit_settle D plan h t crc s)) = next_object h"
      "sv_high_water (fs_served (commit_settle D plan h t crc s)) = h_sequence h"
    using settle_ride_confined(2) [of x plan] assms x by (simp_all add: eq)
  show "fs_geometry (commit_settle D plan h t crc s) = fs_geometry s" "fs_extents (commit_settle D plan h t crc s) = fs_extents s"
      "fs_store (commit_settle D plan h t crc s) = fs_store s"
    using geo [of x] x by (simp_all add: eq)
qed

lemma commit_cases:
  assumes on: "array_on m (CATALOG ! sv_copy (fs_served s) + 1) (length es) (fs_dev s)" and cat: "catalog_held m s es"
    and st: "store_ok s" and es: "\<forall>e\<in>set es. ranges_ok (fs_extents s) (e_ranges e)" and mu: "\<forall>mu\<in>set ms. mutation_ok mu"
    and t: "t = 1 - sv_copy (fs_served s)" and run: "commit D ms s = (r, s')"
  shows "confined (\<lambda>b. copy_region t b \<or> data_region b) (fs_dev s) (fs_dev s') \<and>
    ((\<exists>e. r = Inl e) \<and> (\<forall>b. body_region (CATALOG ! t) b \<longrightarrow> cands (fs_dev s') b \<subseteq> cands (fs_dev s) b)
        \<and> cands (fs_dev s') (catalog_gate t) \<subseteq> cands (fs_dev s) (catalog_gate t) \<union> {INVALIDATED} \<union> Collect torn
     \<or> (\<exists>e. r = Inl e) \<and> cands (fs_dev s') (catalog_gate t) \<subseteq> {INVALIDATED}
     \<or> (\<exists>h es'. next_catalog s ms es h es'
        \<and> (\<forall>i < length (padded (catalog_body h es')) div BLOCK.
             cands (fs_dev s') (CATALOG ! t + i) \<subseteq> {chunk (padded (catalog_body h es')) i})
        \<and> cands (fs_dev s') (catalog_gate t) \<subseteq> {INVALIDATED, gate_encode (copy_gate t h es')} \<union> Collect torn
        \<and> (\<forall>q. r = Inr q \<longrightarrow> q = h_sequence h \<and> cands (fs_dev s') (catalog_gate t) \<subseteq> {gate_encode (copy_gate t h es')}
             \<and> fs_geometry s' = fs_geometry s \<and> fs_extents s' = fs_extents s
             \<and> sv_copy (fs_served s') = t \<and> sv_entry_count (fs_served s') = h_entry_count h
             \<and> sv_next_object (fs_served s') = next_object h
             \<and> fs_store s' = fs_store s \<and> sv_high_water (fs_served s') = h_sequence h)
        \<and> ((\<exists>e. r = Inl e) \<or> (\<exists>q. r = Inr q))))"
proof -
  define c W where "c = sv_copy (fs_served s)" and "W = (\<lambda>b. copy_region t b \<or> data_region b)"
  have c2: "c < 2" and t2: "t < 2" and ct: "1 - t = c" using cat by (auto simp: catalog_held_def c_def t)
  have n: "unat (sv_entry_count (fs_served s)) = length es" "length es \<le> ENTRY_CAPACITY"
    and arr: "array_holds m (CATALOG ! c + 1) (fs_extents s) es" and sorted: "sorted_entries es"
    using cat by (simp_all add: catalog_held_def c_def wf_catalog_def)
  have good: "good (fs_dev s)" and mlen: "\<And>b. length (m b) = BLOCK" using on by (simp_all add: array_on_def)
  obtain r1 s1 where ck: "commit_check D ms s = (r1, s1)" by (rule prod.exhaust)
  note k = commit_check_spec [OF on cat st es mu ck]
  note same1 = dev_only [OF k [THEN conjunct2, THEN conjunct1]]
  have quiet: "cands x b \<subseteq> cands (fs_dev s) b" if "confined V (fs_dev s1) x" "\<not> V b" for V x b
    using confined_at(1) [OF k [THEN conjunct1], of b] confined_at(1) [OF that] by simp
  have conf1: "confined W (fs_dev s) x" if "confined W (fs_dev s1) x" for x
    using confined_trans [OF confined_mono [OF k [THEN conjunct1]] that] by simp
  have early: ?thesis if "confined extent_region (fs_dev s1) (fs_dev s')" "\<exists>e. r = Inl e"
  proof -
    have out: "\<not> extent_region b" if "copy_region t b" for b using copies_disjoint(2) [OF t2 that] .
    have gb: "copy_region t (catalog_gate t)" by (simp add: copy_region_def catalog_gate_def fmt_consts)
    have "confined W (fs_dev s1) (fs_dev s')" using confined_mono [OF that(1)] by (simp add: W_def)
    then show ?thesis
      using conf1 that(2) quiet [OF that(1) out] body_in_copy gb unfolding W_def by blast
  qed
  define rest where "rest = (\<lambda>(plan, header, cu). bindS (commit_payload D plan) (\<lambda>_.
     bindS (devS (commit_body D t header (length es) cu plan)) (\<lambda>crc.
     let gate = \<lparr>g_copy = of_nat t, g_store = fs_store s, g_sequence = h_sequence header,
           g_entry_count = h_entry_count header, body_crc = crc\<rparr> in
     (\<lambda>s. case devS (commit_gate D gate) s of
        (Inl e, s') \<Rightarrow> (Inl e, require_remount s')
      | (Inr _, s') \<Rightarrow> (Inr (h_sequence header), commit_settle D plan header t crc s')))))"
  have run': "bindS (commit_check D ms) rest s = (r, s')"
    using run by (simp only: commit_def getS_def Let_def n(1) t [symmetric] rest_def)
  show ?thesis
  proof (cases r1)
    case (Inl e)
    then have "s' = s1" "r = Inl e" using run' by (simp_all add: bindS_def ck)
    then show ?thesis using early confined_refl [OF confined_good [OF k [THEN conjunct1]]] by blast
  next
    case (Inr pl)
    obtain plan h cu where pl: "pl = (plan, h, cu)" by (cases pl)
    note ok = k [THEN conjunct2, THEN conjunct2, rule_format, OF Inr [unfolded pl]]
    define es' where "es' = apply_batch es (batch_order plan)"
    have plan: "list_all2 (resolved_ok s) ms plan" "distinct (map r_key plan)" using ok by blast+
    have "\<exists>mu. resolved_ok s mu x" if "x \<in> set plan" for x
      using plan(1) that by (induction rule: list_all2_induct) auto
    then have plan1: "\<forall>x\<in>set plan. \<exists>mu. resolved_ok s1 mu x" using same1(2) by metis
    have cu: "cu_over m (CATALOG ! c + 1) (fs_extents s) (length es) cu" using ok by (simp add: c_def)
    have wf': "\<forall>e\<in>set es'. wf_entry (fs_extents s) e"
      using final_wf [OF sorted _ plan] array_holds_wf [OF arr mlen] by (auto simp: es'_def)
    have nextc: "next_catalog s ms es h es'"
      using applies_batch [OF sorted plan] ok wf' st wf_catalog_iff_pass [of "fs_geometry s" h es']
        extents_stay_disjoint [OF sorted plan]
      by (simp add: next_catalog_def es'_def wf_cat_header_def store_ok_def wf_catalog_def)
    have good1: "good (fs_dev s1)" using confined_good [OF k [THEN conjunct1]] .
    obtain r2 s2 where pay: "commit_payload D plan s1 = (r2, s2)" by (rule prod.exhaust)
    note p = commit_payload_confined [OF good1 _ plan1 pay, unfolded same1(1), OF st]
    have run2: "rest (plan, h, cu) s1 = (r, s')" using run' Inr pl by (simp add: bindS_def ck)
    show ?thesis
    proof (cases r2)
      case (Inl e)
      then have "s' = s2" "r = Inl e" using run2 by (simp_all add: rest_def bindS_def pay)
      then show ?thesis using early p by blast
    next
      case Inr2: (Inr u)
      have dev2: "confined W (fs_dev s) (fs_dev s2)" "good (fs_dev s2)"
        using conf1 [OF confined_mono [OF p [THEN conjunct1], of W]] confined_good [OF p [THEN conjunct1]] by (auto simp: W_def)
      have quiet2: "cands (fs_dev s2) b \<subseteq> cands (fs_dev s) b" if "copy_region t b" for b
        using quiet [OF p [THEN conjunct1]] copies_disjoint(2) [OF t2 that] by blast
      have clear: "\<not> W b" if "array_region (CATALOG ! c + 1) (length es) b" for b
      proof -
        have "copy_region c b" using body_in_copy [OF array_in_copy [OF n(2) that]] .
        then show ?thesis using copies_disjoint [OF c2] by (simp add: W_def t c_def)
      qed
      have on2: "array_on m (CATALOG ! (1 - t) + 1) (length es) (fs_dev s2)"
        unfolding ct by (rule array_on_confined [OF on [folded c_def] dev2(1) clear])
      have hdr: "length (cat_header_encode h) = 512"
        using nextc length_header by (simp add: next_catalog_def)
      have ent: "\<forall>e\<in>set es'. length (entry_encode e) = 128" using wf' by (auto simp: wf_entry_def)
      have cap: "length es' \<le> ENTRY_CAPACITY" using nextc by (simp add: next_catalog_def wf_cat_header_def)
      obtain r3 d3 where bd: "commit_body D t h (length es) cu plan (fs_dev s2) = (r3, d3)" by (rule prod.exhaust)
      note b = commit_body_spec [OF dev2(2) t2 n(2) on2 _ _ es'_def hdr ent cap bd, unfolded ct, OF arr cu]
      have conf3: "confined W (fs_dev s) d3"
        using confined_trans [OF dev2(1) confined_mono [OF b [THEN conjunct1]]] by (simp add: W_def)
      show ?thesis
      proof (cases r3)
        case (Inl e)
        then have out: "fs_dev s' = d3" "r = Inl e" using run2 Inr2 by (auto simp: rest_def bindS_def pay devS_def bd)
        have gb: "copy_region t (catalog_gate t)" by (simp add: copy_region_def catalog_gate_def fmt_consts)
        have "(\<forall>b. body_region (CATALOG ! t) b \<longrightarrow> cands d3 b \<subseteq> cands (fs_dev s) b)
            \<and> cands d3 (catalog_gate t) \<subseteq> cands (fs_dev s) (catalog_gate t) \<union> {INVALIDATED} \<union> Collect torn
          \<or> cands d3 (catalog_gate t) \<subseteq> {INVALIDATED}"
        proof (cases "cands d3 (catalog_gate t) \<subseteq> {INVALIDATED}")
          case False
          then have "\<forall>b. body_region (CATALOG ! t) b \<longrightarrow> cands d3 b \<subseteq> cands (fs_dev s2) b"
              "cands d3 (catalog_gate t) \<subseteq> cands (fs_dev s2) (catalog_gate t) \<union> {INVALIDATED} \<union> Collect torn"
            using b by blast+
          then show ?thesis using quiet2 gb body_in_copy by blast
        qed simp
        then show ?thesis using conf3 out unfolding W_def by blast
      next
        case Inr3: (Inr crc)
        have b3: "crc = crc32 (catalog_body h es')" "cands d3 (catalog_gate t) \<subseteq> {INVALIDATED}"
          "\<forall>i < length (padded (catalog_body h es')) div BLOCK. cands d3 (CATALOG ! t + i) \<subseteq> {chunk (padded (catalog_body h es')) i}"
          using b Inr3 by auto
        have gate: "\<lparr>g_copy = of_nat t, g_store = fs_store s, g_sequence = h_sequence h,
            g_entry_count = h_entry_count h, body_crc = crc\<rparr> = copy_gate t h es'"
          using ok by (simp add: copy_gate_def b3(1))
        have glen: "length (gate_encode (copy_gate t h es')) = BLOCK"
          using gate_encode_framed [of "copy_gate t h es'"] nextc
          by (auto simp: framed_def copy_gate_def next_catalog_def wf_cat_header_def BLOCK_def)
        have gt: "unat (g_copy (copy_gate t h es')) = t" using t2 by (simp add: copy_gate_def word_unat_of_nat)
        obtain r4 d4 where gw: "commit_gate D (copy_gate t h es') d3 = (r4, d4)" by (rule prod.exhaust)
        note g = commit_gate_spec [OF confined_good [OF conf3] glen gt b3(2) gw]
        have body4: "cands d4 b \<subseteq> cands d3 b" if "body_region (CATALOG ! t) b" for b
          using confined_at(1) [OF g [THEN conjunct1]] gate_page(2) [OF t2] that by blast
        have conf4: "confined W (fs_dev s) d4"
          using confined_trans [OF conf3 confined_mono [OF g [THEN conjunct1]]] gate_page(1) [OF t2] by (simp add: W_def)
        have blocks: "body_region (CATALOG ! t) (CATALOG ! t + i)" if "i < length (padded (catalog_body h es')) div BLOCK" for i
          using body_blocks [OF hdr ent cap] that by (simp add: body_region_def)
        have gb: "copy_region t (catalog_gate t)" by (simp add: copy_region_def catalog_gate_def fmt_consts)
        have upd: "s2 = s1\<lparr>fs_dev := fs_dev s2, fs_reservations := fs_reservations s2\<rparr>" using p by blast
        have geo2: "fs_geometry s2 = fs_geometry s" "fs_extents s2 = fs_extents s" "fs_store s2 = fs_store s"
          using arg_cong [OF upd, of fs_geometry] arg_cong [OF upd, of fs_extents] arg_cong [OF upd, of fs_store] same1 by simp_all
        let ?set = "commit_settle D plan h t crc (s2\<lparr>fs_dev := d4\<rparr>)"
        note z = commit_settle_effect [of "s2\<lparr>fs_dev := d4\<rparr>" plan h t crc, simplified, OF confined_good [OF conf4]]
        have out: "fs_dev s' = d4 \<and> (\<exists>e. r = Inl e) \<or> s' = ?set \<and> r4 = Inr () \<and> r = Inr (h_sequence h)"
          using run2 Inr2 Inr3 g
          by (auto simp: rest_def bindS_def pay devS_def bd gate gw require_remount_def Let_def)
        have "confined W d4 (fs_dev s') \<and> (\<forall>b. copy_region t b \<longrightarrow> cands (fs_dev s') b \<subseteq> cands d4 b)"
          using out confined_refl [OF confined_good [OF conf4]] confined_mono [OF z(1), of W]
            confined_at(1) [OF z(1)] copies_disjoint(3) [OF t2] by (auto simp: W_def)
        then have fin: "confined W (fs_dev s) (fs_dev s')" "\<And>b. copy_region t b \<Longrightarrow> cands (fs_dev s') b \<subseteq> cands d4 b"
          using confined_trans [OF conf4] by blast+
        have "cands (fs_dev s') (CATALOG ! t + i) \<subseteq> {chunk (padded (catalog_body h es')) i}"
          if "i < length (padded (catalog_body h es')) div BLOCK" for i
          using fin(2) [OF body_in_copy [OF blocks [OF that]]] body4 [OF blocks [OF that]] b3(3) that by blast
        moreover have "cands (fs_dev s') (catalog_gate t) \<subseteq> {INVALIDATED, gate_encode (copy_gate t h es')} \<union> Collect torn"
          using fin(2) [OF gb] g by blast
        moreover have "q = h_sequence h \<and> cands (fs_dev s') (catalog_gate t) \<subseteq> {gate_encode (copy_gate t h es')}
             \<and> fs_geometry s' = fs_geometry s \<and> fs_extents s' = fs_extents s
             \<and> sv_copy (fs_served s') = t \<and> sv_entry_count (fs_served s') = h_entry_count h
             \<and> sv_next_object (fs_served s') = next_object h
             \<and> fs_store s' = fs_store s \<and> sv_high_water (fs_served s') = h_sequence h" if "r = Inr q" for q
          using out that fin(2) [OF gb] g z(2-) geo2 by auto
        ultimately show ?thesis using nextc fin(1) out unfolding W_def by blast
      qed
    qed
  qed
qed

end


context block_device
begin

lemma commit_outcome:
  assumes good: "good (fs_dev s)" and st: "store_ok s"
    and cat: "catalog_held (media (fs_dev s)) s es" and es: "\<forall>e\<in>set es. ranges_ok (fs_extents s) (e_ranges e)"
    and mu: "\<forall>mu\<in>set ms. mutation_ok mu" and t: "t = 1 - sv_copy (fs_served s)"
    and run: "commit D ms s = (r, s')" and cut: "\<forall>b. img b \<in> cands (fs_dev s') b"
  shows "(\<forall>b. copy_region t b \<or> data_region b \<or> img b \<in> cands (fs_dev s) b)
    \<and> ((\<forall>b. body_region (CATALOG ! t) b \<longrightarrow> img b \<in> cands (fs_dev s) b) \<and> img (catalog_gate t) \<in> cands (fs_dev s) (catalog_gate t)
       \<or> img (catalog_gate t) = INVALIDATED \<or> torn (img (catalog_gate t))
       \<or> (\<exists>h es'. next_catalog s ms es h es' \<and> copy_image img t h es'))
    \<and> (\<forall>q. r = Inr q \<longrightarrow> (\<exists>h es'. next_catalog s ms es h es' \<and> q = h_sequence h \<and> copy_image img t h es' \<and> catalog_held img s' es'))"
proof -
  have on: "array_on (media (fs_dev s)) (CATALOG ! sv_copy (fs_served s) + 1) (length es) (fs_dev s)"
    using good media_len [OF good] by (simp add: array_on_def)
  note c = commit_cases [OF on cat st es mu t run]
  have conf: "copy_region t b \<or> data_region b \<or> cands (fs_dev s') b \<subseteq> cands (fs_dev s) b" for b
    using c [THEN conjunct1] by (auto simp: confined_def)
  have t2: "t < 2" using t by simp
  have complete: "copy_image img t h es'"
    if "\<forall>i < length (padded (catalog_body h es')) div BLOCK. cands (fs_dev s') (CATALOG ! t + i) \<subseteq> {chunk (padded (catalog_body h es')) i}"
      "img (catalog_gate t) = gate_encode (copy_gate t h es')" for h es'
    using that cut unfolding copy_image_def holds_at_def by blast
  have held: "catalog_held img s' es'"
    if "next_catalog s ms es h es'" "copy_image img t h es'" "fs_geometry s' = fs_geometry s" "fs_extents s' = fs_extents s"
      "sv_copy (fs_served s') = t" "sv_entry_count (fs_served s') = h_entry_count h" "sv_next_object (fs_served s') = next_object h" for h es'
    using that t2 by (intro copy_image_held [of h]) (auto simp: next_catalog_def)
  have "(\<forall>b. copy_region t b \<or> data_region b \<or> img b \<in> cands (fs_dev s) b)" using conf cut by blast
  then show ?thesis using c [THEN conjunct2] complete held cut by (elim disjE exE conjE) blast+
qed

end

text \<open>Both passes of a merge keep the emitter contract on the simulated card.\<close>

interpretation check_pass: emitter sparse_dev sd_good sd_powered sd_view sd_cands sd_torn accept_emit
  "\<lambda>out st d. accept_all (structure_new g) out = Inr st" "\<lambda>_. False" final
  for g final
  by (rule sparse.check_emitter)

subsection \<open>Properties\<close>

text \<open>
  C6: a commit is atomic. Take any card the power may leave behind while or after a commit runs,
  on any device that keeps the contract. Outside the copy that was not served and the object and
  journal areas every block is one the card could already have held before, so the served catalog
  and both superblocks survive. The other copy is still what it was up to its gate, or its gate is
  invalid or torn, or it holds a complete new catalog under its gate: the batch applied to the
  served entries, well formed, under the next sequence. And when the commit reports success the
  last of these holds: the returned sequence is the one on the card and the store serves those entries.
\<close>

theorem commit_is_atomic:
  assumes bd: "block_device D good alive media cands torn" and good: "good (fs_dev s)" and st: "store_ok s"
    and cat: "catalog_held (media (fs_dev s)) s es" and es: "\<forall>e\<in>set es. ranges_ok (fs_extents s) (e_ranges e)"
    and mu: "\<forall>mu\<in>set ms. mutation_ok mu" and t: "t = 1 - sv_copy (fs_served s)"
    and run: "commit D ms s = (r, s')" and cut: "\<forall>b. img b \<in> cands (fs_dev s') b"
  shows "(\<forall>b. copy_region t b \<or> data_region b \<or> img b \<in> cands (fs_dev s) b)
    \<and> ((\<forall>b. body_region (CATALOG ! t) b \<longrightarrow> img b \<in> cands (fs_dev s) b) \<and> img (catalog_gate t) \<in> cands (fs_dev s) (catalog_gate t)
       \<or> img (catalog_gate t) = INVALIDATED \<or> torn (img (catalog_gate t))
       \<or> (\<exists>h es'. next_catalog s ms es h es' \<and> copy_image img t h es'))
    \<and> (\<forall>q. r = Inr q \<longrightarrow> (\<exists>h es'. next_catalog s ms es h es' \<and> q = h_sequence h \<and> copy_image img t h es' \<and> catalog_held img s' es'))"
  by (rule block_device.commit_outcome [OF assms])

text \<open>The sample store with one published object.\<close>

definition sample_published :: "sparse_disk fstore" where
  "sample_published = sample_store\<lparr>
     fs_dev := sd_insert (fs_dev sample_store) (CATALOG ! 0 + 1) (padded (entry_encode sample_entry)),
     fs_store := zeros 16, fs_served := (fs_served sample_store)\<lparr>sv_next_object := 8, sv_entry_count := 1\<rparr>\<rparr>"

lemma sample_published_held:
  "sd_good (fs_dev sample_published)" "store_ok sample_published"
  "catalog_held (sd_view (fs_dev sample_published)) sample_published [sample_entry]"
  "ranges_ok (fs_extents sample_published) (e_ranges sample_entry)"
proof -
  have wf: "wf_entry 64 sample_entry"
    by (simp add: wf_entry_def sample_entry_def in_card_def MAX_RANGES_def)
  then have len: "length (entry_encode sample_entry) = 128" by (simp add: wf_entry_def)
  then have pad: "length (padded (entry_encode sample_entry)) = BLOCK" by (simp add: length_padded div_ceil_def BLOCK_def)
  then show "sd_good (fs_dev sample_published)"
    by (simp add: sample_published_def sample_store_def blank_def sd_good_def sd_blank_def sd_insert_def)
  show "store_ok sample_published"
    by (simp add: store_ok_def sample_published_def sample_store_def blank_def wf_geometry_def fmt_consts)
  show "ranges_ok (fs_extents sample_published) (e_ranges sample_entry)"
    by (simp add: ranges_ok_def sample_published_def sample_store_def sample_entry_def in_card_def ranges_extents_def fmt_consts)
  have "sd_view (fs_dev sample_published) (CATALOG ! 0 + 1) = padded (entry_encode sample_entry)"
    by (simp add: sample_published_def sample_store_def blank_def sd_view_def sd_blank_def sd_insert_def sd_block_def)
  then have "entry_at (sd_view (fs_dev sample_published)) (CATALOG ! 0 + 1) 0 = entry_encode sample_entry"
    using len by (simp add: entry_at_def padded_def fmt_consts slice_append_left slice_all)
  moreover have "entry_check \<lparr>log2 = 20\<rparr> sample_entry = Inr ()" "complete_group (group_of [sample_entry] sample_entry)"
      "obj (e_meta sample_entry) < 8" "1 \<le> ENTRY_CAPACITY"
    by (simp_all add: entry_check_def Let_def ASSISTANT_ACCEPTED_def RESERVED_def sample_entry_def group_of_def has_flag_def RETAINED_def extents_for_def extent_size_def div_ceil_def
        ranges_extents_def fmt_consts)
  ultimately show "catalog_held (sd_view (fs_dev sample_published)) sample_published [sample_entry]"
    using entry_roundtrip [OF wf]
    by (simp add: catalog_held_def array_holds_def sample_published_def sample_store_def wf_catalog_def)
qed

theorem commit_is_atomic_witness:
  "\<exists>r s'. commit sparse_dev [Remove 7 1] sample_published = (r, s')
    \<and> (\<forall>b. copy_region 1 b \<or> data_region b \<or> sd_view (fs_dev s') b \<in> sd_cands (fs_dev sample_published) b)
    \<and> (\<forall>q. r = Inr q \<longrightarrow> (\<exists>h. next_catalog sample_published [Remove 7 1] [sample_entry] h []
         \<and> copy_image (sd_view (fs_dev s')) 1 h []))"
proof -
  obtain r s' where run: "commit sparse_dev [Remove 7 1] sample_published = (r, s')" by (rule prod.exhaust)
  have on: "sparse.array_on (sd_view (fs_dev sample_published)) (CATALOG ! sv_copy (fs_served sample_published) + 1) (length [sample_entry])
      (fs_dev sample_published)"
    using sample_published_held(1) sparse.media_len by (simp add: sparse.array_on_def)
  have t: "1 = 1 - sv_copy (fs_served sample_published)" by (simp add: sample_published_def sample_store_def)
  have es: "\<forall>e\<in>set [sample_entry]. ranges_ok (fs_extents sample_published) (e_ranges e)"
    and mu: "\<forall>mu\<in>set [Remove 7 1]. mutation_ok mu" using sample_published_held(4) by simp_all
  note held = sample_published_held(2,3) es mu t run
  have "sd_good (fs_dev s')"
    using sparse.commit_cases [OF on sample_published_held(3,2) es mu t run] sparse.confined_good by blast
  then have "\<forall>b. sd_view (fs_dev s') b \<in> sd_cands (fs_dev s') b" using sparse.media_cand by blast
  note a = commit_is_atomic [OF sparse.block_device_axioms sample_published_held(1) held this]
  have "es' = []" if "next_catalog sample_published [Remove 7 1] [sample_entry] h es'" for h es'
  proof -
    have "applies [Remove 7 1] [sample_entry] es'" using that by (simp add: next_catalog_def)
    moreover have "ek sample_entry = (7, 1)" by (simp add: sample_entry_def meta_key_def)
    ultimately have "x \<notin> set es'" for x by (auto simp: applies_def)
    then show ?thesis using list.set_intros(1) by (cases es') auto
  qed
  then show ?thesis using run a by metis
qed

text \<open>
  C8: the search finds what the catalog holds. On any device that keeps the contract, looking up
  an object by bisection over the card's entry array returns the retained revision and the head
  that a scan of the whole array would return, or reports the card's error; it changes nothing of
  the store but the device's own state and nothing the card holds.
\<close>

theorem find_finds:
  assumes bd: "block_device D good alive media cands torn" and good: "good (fs_dev s)"
    and cat: "catalog_held (media (fs_dev s)) s es" and run: "store_find D i s = (r, s')"
  shows "r \<in> {Inl Media, Inr (lookup es i)} \<and> s' = s\<lparr>fs_dev := fs_dev s'\<rparr>
    \<and> (\<forall>b. cands (fs_dev s') b \<subseteq> cands (fs_dev s) b)"
proof -
  have on: "block_device.array_on good alive media (media (fs_dev s)) (CATALOG ! sv_copy (fs_served s) + 1) (length es) (fs_dev s)"
    using good block_device.media_len [OF bd good] by (simp add: block_device.array_on_def [OF bd])
  from block_device.store_find_spec [OF bd on cat run]
  show ?thesis by (auto simp: block_device.confined_def [OF bd])
qed

theorem find_finds_witness:
  "fst (store_find sparse_dev 7 sample_published) \<in> {Inl Media, Inr (None, Some sample_entry)}"
proof -
  have "lookup [sample_entry] 7 = (None, Some sample_entry)" by (simp add: lookup_def sample_entry_def has_flag_def RETAINED_def)
  then show ?thesis
    using find_finds [OF sparse.block_device_axioms sample_published_held(1,3), of 7] by (metis prod.collapse)
qed

end
