(* ===== verification/Flat_Mount.thy ===== *)
theory Flat_Mount
  imports Flat_Publish
begin

text \<open>
  What mount makes of a card. \<open>Store::load\<close> reads a catalog copy in windows, decodes and checks every
  entry, claims its extents and checks the CRC of the body. It is shown to accept exactly the whole
  copies, and mount to serve the whole copy whose certified gate is the newest. With the
  atomicity of a commit this gives the behaviour of the store across a power cut.
\<close>

declare load_loop.simps [simp del]

subsection \<open>One pass over the array\<close>

text \<open>What the pass collects besides the structure state.\<close>

definition note_loaded :: "entry \<Rightarrow> loaded \<Rightarrow> loaded" where
  "note_loaded e ld = ld\<lparr>ld_recording := (if is_recording e then Some e else ld_recording ld),
     ld_exhausted := (ld_exhausted ld \<or> rev (e_meta e) = - 1)\<rparr>"

text \<open>The windowed loops of \<open>load\<close> as one pass over the encoded entries.\<close>

fun absorb :: "nat \<Rightarrow> bytes list \<Rightarrow> structure_state \<times> loaded \<Rightarrow> (free_map, structure_state \<times> loaded) io" where
  "absorb ec [] x = retS x"
| "absorb ec (b # bs) x =
     bindS (liftE (map_errE (\<lambda>_. Invalid) (entry_decode b ec))) (\<lambda>e.
     bindS (liftE (map_errE (\<lambda>_. Invalid) (accept (fst x) e))) (\<lambda>st.
     bindS (claimS (e_ranges e)) (\<lambda>_.
       absorb ec bs (st, note_loaded e (snd x)))))"

lemma load_window_absorb:
  "load_window ec window is x = absorb ec (map (\<lambda>i. slice (i * ENTRY_STRIDE) ENTRY_STRIDE window) is) x"
  by (induction ec window "is" x rule: load_window.induct) (simp_all add: note_loaded_def cong: if_cong)

lemma bindS_assoc: "bindS (bindS m f) g = bindS m (\<lambda>x. bindS (f x) g)"
  by (rule ext) (simp add: bindS_def split: prod.splits sum.splits)

lemma absorb_append: "absorb ec (xs @ ys) x = bindS (absorb ec xs x) (absorb ec ys)"
  by (induction ec xs x rule: absorb.induct) (auto simp: bindS_assoc fun_eq_iff bindS_def split: sum.split prod.split)

definition takes :: "nat \<Rightarrow> bytes list \<Rightarrow> structure_state \<Rightarrow> nat set \<Rightarrow> entry list \<Rightarrow> structure_state \<Rightarrow> bool" where
  "takes ec bs st U es st' \<longleftrightarrow> list_all2 (\<lambda>b e. entry_decode b ec = Inr e) bs es \<and> accept_all st es = Inr st'
     \<and> distinct (entry_extents es) \<and> set (entry_extents es) \<inter> U = {}"

lemma takes_Cons:
  assumes "entry_decode b ec = Inr e" and "accept st e = Inr st1"
  shows "takes ec (b # bs) st U es st' \<longleftrightarrow> distinct (expand (e_ranges e)) \<and> set (expand (e_ranges e)) \<inter> U = {}
    \<and> (\<exists>es1. es = e # es1 \<and> takes ec bs st1 (U \<union> set (expand (e_ranges e))) es1 st')"
  using assms by (auto simp: takes_def list_all2_Cons1)

lemma takes_unique:
  "takes ec bs st U es st1 \<Longrightarrow> takes ec bs st U es' st2 \<Longrightarrow> es' = es \<and> st2 = st1"
proof -
  have "list_all2 (\<lambda>b e. entry_decode b ec = Inr e) bs es \<Longrightarrow> list_all2 (\<lambda>b e. entry_decode b ec = Inr e) bs es' \<Longrightarrow> es' = es"
    by (rule list_eq_iff_nth_eq [THEN iffD2]) (auto simp: list_all2_conv_all_nth)
  then show "takes ec bs st U es st1 \<Longrightarrow> takes ec bs st U es' st2 \<Longrightarrow> es' = es \<and> st2 = st1" by (auto simp: takes_def)
qed

lemma takes_stops:
  "entry_decode b ec = Inl x \<Longrightarrow> \<not> takes ec (b # bs) st U es st'"
  "entry_decode b ec = Inr e \<Longrightarrow> accept st e = Inl y \<Longrightarrow> \<not> takes ec (b # bs) st U es st'"
  by (auto simp: takes_def list_all2_Cons1)

lemma absorb_spec:
  assumes "wf_map fm" and "ec \<le> MAX_EXTENTS" and "\<forall>b\<in>set bs. length b = 128" and "absorb ec bs (st, ld) fm = (r, fm')"
  shows "r = Inl Invalid \<and> (\<forall>es st'. \<not> takes ec bs st (used fm) es st')
    \<or> (\<exists>es st'. takes ec bs st (used fm) es st' \<and> wf_map fm' \<and> fm_extents fm' = fm_extents fm
        \<and> used fm' = used fm \<union> set (entry_extents es) \<and> r = Inr (st', fold note_loaded es ld))"
  using assms(1,3,4)
proof (induction bs arbitrary: st ld fm)
  case Nil
  then show ?case by (auto simp: takes_def)
next
  case (Cons b bs)
  show ?case
  proof (cases "entry_decode b ec")
    case (Inl e)
    then show ?thesis using Cons.prems(3) takes_stops(1) [OF Inl] by (auto simp: bindS_def)
  next
    case dec: (Inr e)
    show ?thesis
    proof (cases "accept st e")
      case (Inl x)
      then show ?thesis using Cons.prems(3) dec takes_stops(2) [OF dec] by (auto simp: bindS_def)
    next
      case acc: (Inr st1)
      note step = takes_Cons [OF dec acc]
      have "wf_entry ec e" using entry_decode_Inr [OF dec] Cons.prems(2) by simp
      then have rng: "list_all wf_range (e_ranges e)"
        using assms(2) unfolding wf_entry_ranges in_card_def list_all_iff wf_range_def
        by (auto simp: unat_gt_0 dest!: bspec)
      obtain fm1 c where cl: "fm_claim fm (e_ranges e) = (fm1, c)" by (rule prod.exhaust)
      note claim = fm_claim_spec [OF Cons.prems(1) rng cl]
      show ?thesis
      proof (cases c)
        case (Inl x)
        then have "r = Inl Invalid" using Cons.prems(3) dec acc cl by (simp add: bindS_def claimS_def)
        then show ?thesis using claim Inl step by auto
      next
        case (Inr u)
        have ok: "distinct (expand (e_ranges e))" "set (expand (e_ranges e)) \<inter> used fm = {}"
            "used fm1 = used fm \<union> set (expand (e_ranges e))" "wf_map fm1" "fm_extents fm1 = fm_extents fm"
          using claim Inr by simp_all
        have rest: "absorb ec bs (st1, note_loaded e ld) fm1 = (r, fm')"
          using Cons.prems(3) dec acc Inr cl by (simp add: bindS_def claimS_def)
        have "\<forall>b\<in>set bs. length b = 128" using Cons.prems(2) by simp
        from Cons.IH [OF ok(4) this rest]
        show ?thesis
        proof (elim disjE exE conjE)
          assume "r = Inl Invalid" "\<forall>es st'. \<not> takes ec bs st1 (used fm1) es st'"
          then show ?thesis using step ok(3) by simp
        next
          fix es st' assume "takes ec bs st1 (used fm1) es st'" and "wf_map fm'" "fm_extents fm' = fm_extents fm1"
            "used fm' = used fm1 \<union> set (entry_extents es)" "r = Inr (st', fold note_loaded es (note_loaded e ld))"
          then have "takes ec (b # bs) st (used fm) (e # es) st' \<and> wf_map fm' \<and> fm_extents fm' = fm_extents fm
              \<and> used fm' = used fm \<union> set (entry_extents (e # es)) \<and> r = Inr (st', fold note_loaded (e # es) ld)"
            using step ok by auto
          then show ?thesis by blast
        qed
      qed
    qed
  qed
qed

subsection \<open>Loading a copy\<close>

text \<open>The entries of a window that starts at entry \<open>at\<close>.\<close>

lemma window_records:
  assumes len: "\<And>b. length (m b) = BLOCK" and "at mod 4 = 0" and "count \<le> blocks * 4"
  shows "map (\<lambda>i. slice (i * ENTRY_STRIDE) ENTRY_STRIDE (concat (map m [base + at div 4..<base + at div 4 + blocks]))) [0..<count]
    = map (entry_at m base) [at..<at + count]"
proof -
  let ?W = "concat (map m [base + at div 4..<base + at div 4 + blocks])"
  have one: "slice (i * ENTRY_STRIDE) ENTRY_STRIDE ?W = entry_at m base (at + i)" if "i < count" for i
  proof -
    have off: "i * ENTRY_STRIDE = i div 4 * BLOCK + i mod 4 * 128"
    proof -
      have "i * 128 = (i div 4 * 4 + i mod 4) * 128" by (simp only: div_mult_mod_eq)
      then show ?thesis by (simp only: add_mult_distrib) (simp add: fmt_consts)
    qed
    have "i mod 4 * 128 + 128 \<le> BLOCK" using mod_less_divisor [of 4 i] unfolding BLOCK_def by linarith
    moreover have "i div 4 < blocks" using that assms(3) by (simp add: less_mult_imp_div_less)
    ultimately have "slice (i div 4 * BLOCK + i mod 4 * 128) 128 ?W = slice (i mod 4 * 128) 128 (m (base + at div 4 + i div 4))"
      by (intro slice_blocks len)
    moreover have "(at + i) mod 4 = i mod 4" "(at + i) div 4 = at div 4 + i div 4" using assms(2) by presburger+
    ultimately show ?thesis unfolding off by (simp add: entry_at_def fmt_consts add.assoc)
  qed
  have "map (entry_at m base) [at..<at + count] = map (\<lambda>i. entry_at m base (at + i)) [0..<count]"
    by (intro nth_equalityI) simp_all
  then show ?thesis using one by simp
qed

lemma concat_slices: "c * w \<le> length bs \<Longrightarrow> concat (map (\<lambda>i. slice (i * w) w bs) [0..<c]) = take (c * w) bs"
proof (induction c)
  case (Suc c)
  then have "concat (map (\<lambda>i. slice (i * w) w bs) [0..<c]) = take (c * w) bs" by simp
  then show ?case using take_add [of "c * w" w bs] by (simp add: slice_def add.commute)
qed simp

lemma length_entry_at:
  assumes "\<And>b. length (m b) = BLOCK"
  shows "length (entry_at m base i) = 128"
proof -
  have "i mod 4 * 128 + 128 \<le> 512" using mod_less_divisor [of 4 i] by linarith
  then show ?thesis using assms by (simp add: entry_at_def fmt_consts)
qed

text \<open>
  The copy is whole under its gate: the header agrees with the gate, the array decodes to a
  well-formed catalog whose objects share no extent, and the gate's CRC is that of the body.
\<close>

definition whole_copy :: "(nat \<Rightarrow> bytes) \<Rightarrow> 'd fstore \<Rightarrow> nat \<Rightarrow> gate \<Rightarrow> cat_header \<Rightarrow> entry list \<Rightarrow> bool" where
  "whole_copy m s copy gate h es \<longleftrightarrow> cat_header_decode (m (CATALOG ! copy)) (fs_store s) = Inr h
     \<and> h_entry_count h = g_entry_count gate \<and> h_sequence h = g_sequence gate \<and> length es = unat (h_entry_count h)
     \<and> array_holds m (CATALOG ! copy + 1) (fs_extents s) es \<and> wf_catalog (fs_geometry s) (next_object h) es
     \<and> distinct (entry_extents es)
     \<and> body_crc gate = crc32 (m (CATALOG ! copy) @ concat (map (entry_at m (CATALOG ! copy + 1)) [0..<length es]))"

definition loaded_of :: "cat_header \<Rightarrow> entry list \<Rightarrow> loaded" where
  "loaded_of h es = fold note_loaded es \<lparr>ld_next_object = next_object h, ld_recording = None, ld_exhausted = False\<rparr>"

text \<open>The free map mount builds: what the catalog names is taken, and what lies beyond the card.\<close>

definition map_of_catalog :: "'d fstore \<Rightarrow> entry list \<Rightarrow> bool" where
  "map_of_catalog s es \<longleftrightarrow> wf_map (fs_free s) \<and> fm_extents (fs_free s) = fs_extents s
     \<and> used (fs_free s) = {fs_extents s..<MAX_EXTENTS} \<union> set (entry_extents es)"

lemma takes_whole:
  assumes hdr: "cat_header_decode (m (CATALOG ! copy)) (fs_store s) = Inr h" "h_entry_count h = g_entry_count gate"
    "h_sequence h = g_sequence gate" and n: "n = unat (h_entry_count h)" and ec: "fs_extents s \<le> MAX_EXTENTS"
    and len: "\<forall>b. length (m b) = BLOCK"
  shows "whole_copy m s copy gate h es \<longleftrightarrow> (\<exists>st. takes (fs_extents s) (map (entry_at m (CATALOG ! copy + 1)) [0..<n])
      (structure_new (fs_geometry s)) {fs_extents s..<MAX_EXTENTS} es st \<and> structure_finish st h = Inr ())
    \<and> body_crc gate = crc32 (m (CATALOG ! copy) @ concat (map (entry_at m (CATALOG ! copy + 1)) [0..<n]))"
    (is "?L \<longleftrightarrow> ?R")
proof -
  let ?dec = "\<lambda>b e. entry_decode b (fs_extents s) = Inr e" and ?recs = "map (entry_at m (CATALOG ! copy + 1)) [0..<n]"
  have dec: "list_all2 ?dec ?recs es \<longleftrightarrow> length es = n \<and> array_holds m (CATALOG ! copy + 1) (fs_extents s) es"
    by (auto simp: list_all2_conv_all_nth array_holds_def)
  have pass: "(\<exists>st. accept_all (structure_new (fs_geometry s)) es = Inr st \<and> structure_finish st h = Inr ())
      \<longleftrightarrow> wf_catalog (fs_geometry s) (next_object h) es"
    using wf_catalog_iff_pass [of "fs_geometry s" h es] by (auto simp: structure_pass_def bindE_eq_Inr)
  have low: "set (entry_extents es) \<inter> {fs_extents s..<MAX_EXTENTS} = {}" if "list_all2 ?dec ?recs es"
  proof -
    have wf: "wf_entry (fs_extents s) e" if "e \<in> set es" for e
      using array_holds_wf [of m _ "fs_extents s" es e, OF _ len [rule_format] that] dec \<open>list_all2 ?dec ?recs es\<close> by blast
    have "x < fs_extents s" if es: "e \<in> set es" and x: "x \<in> set (expand (e_ranges e))" for e x
    proof -
      have card: "in_card (fs_extents s) (e_ranges e)" using wf [OF es]
        by (simp add: wf_entry_ranges)
      obtain f c where fc: "(f, c) \<in> set (e_ranges e)" "x \<in> set (span_of (f, c))" using x by (auto simp: expand_def)
      have "unat f + unat c \<le> fs_extents s" using card fc(1) by (auto simp: in_card_def list_all_iff)
      then show ?thesis using fc(2) by (simp add: span_of_def)
    qed
    then show ?thesis by (fastforce simp: entry_extents_def)
  qed
  show ?thesis
    unfolding whole_copy_def takes_def using hdr n dec pass low by auto
qed

text \<open>A card of \<open>blocks\<close> blocks that, while it is \<open>calm\<close>, answers every read of the metadata regions.\<close>

locale calm_device = block_device D good alive media cands torn
  for D :: "'d bdev" and good alive and media :: "'d \<Rightarrow> nat \<Rightarrow> bytes" and cands torn +
  fixes calm :: "'d \<Rightarrow> bool" and blocks :: nat
  assumes calm_read: "good d \<Longrightarrow> calm d \<Longrightarrow> lba + n \<le> EXTENT_AREA \<Longrightarrow> bd_read D lba n d = (v, d') \<Longrightarrow> v \<noteq> None \<and> calm d'"
    and calm_count: "good d \<Longrightarrow> calm d \<Longrightarrow> bd_block_count D d = (c, d') \<Longrightarrow> c = Some blocks \<and> calm d'"
begin

text \<open>Reading what the card holds, \<open>m\<close>.\<close>

definition holding :: "(nat \<Rightarrow> bytes) \<Rightarrow> 'd \<Rightarrow> bool" where
  "holding m d \<longleftrightarrow> good d \<and> (\<forall>b. length (m b) = BLOCK) \<and> (alive d \<longrightarrow> media d = m)"

lemma holding_media: "good d \<Longrightarrow> holding (media d) d"
  by (simp add: holding_def media_len)

lemma holding_confined: "holding m d \<Longrightarrow> confined (\<lambda>_. False) d d' \<Longrightarrow> holding m d'"
  by (auto simp: holding_def confined_def fun_eq_iff)

lemma read_holding:
  assumes "holding m d" and "read_blocks D lba n d = (r, d')" and "lba + n \<le> EXTENT_AREA"
  shows "confined (\<lambda>_. False) d d'" and "holding m d'" and "calm d \<Longrightarrow> calm d'"
    and "r = Inl Media \<and> \<not> calm d \<or> r = Inr (concat (map m [lba..<lba + n]))"
proof -
  have good: "good d" using assms(1) by (simp add: holding_def)
  note c = read_blocks_cases [OF good assms(2)]
  show conf: "confined (\<lambda>_. False) d d'" by (rule read_confined [OF good assms(2)])
  show "holding m d'" by (rule holding_confined [OF assms(1) conf])
  obtain v d1 where rd: "bd_read D lba n d = (v, d1)" by (rule prod.exhaust)
  have d1: "d1 = d'" "r = Inl Media \<longleftrightarrow> v = None" using assms(2) by (auto simp: read_blocks_def rd split: option.splits)
  show "calm d \<Longrightarrow> calm d'" using calm_read [OF good _ assms(3) rd] d1 by simp
  show "r = Inl Media \<and> \<not> calm d \<or> r = Inr (concat (map m [lba..<lba + n]))"
    using c calm_read [OF good _ assms(3) rd] d1 assms(1) by (auto simp: holding_def)
qed

lemma load_loop_spec:
  assumes n: "n \<le> ENTRY_CAPACITY" and copy: "copy < 2"
  shows "holding m d \<Longrightarrow> at mod 4 = 0 \<or> n \<le> at \<Longrightarrow> load_loop D ec copy n at dg x (d, fm) = (r, d', fm') \<Longrightarrow>
    confined (\<lambda>_. False) d d' \<and> (calm d \<longrightarrow> calm d') \<and> (r = Inl Media \<and> \<not> calm d
     \<or> (case absorb ec (map (entry_at m (CATALOG ! copy + 1)) [at..<n]) x fm of
          (Inl e, _) \<Rightarrow> r = Inl e
        | (Inr x', fm2) \<Rightarrow> r = Inr (crc_update dg (concat (map (entry_at m (CATALOG ! copy + 1)) [at..<n])), x') \<and> fm' = fm2))"
proof (induction "n - at" arbitrary: at dg x d fm rule: less_induct)
  case less
  let ?base = "CATALOG ! copy + 1"
  let ?recs = "\<lambda>i j. map (entry_at m ?base) [i..<j]"
  show ?case
  proof (cases "at < n")
    case False
    then have "?recs at n = []" by simp
    moreover have "r = Inr (dg, x) \<and> d' = d \<and> fm' = fm" using less.prems(3) False by (subst (asm) load_loop.simps) simp
    ultimately show ?thesis using less.prems(1) by (auto simp: confined_refl holding_def crc_update_def)
  next
    case True
    define remaining blocks where "remaining = n - at" and "blocks = min (div_ceil remaining ENTRIES_PER_BLOCK) MOUNT_STREAM_BLOCKS"
    define count where "count = min remaining (blocks * ENTRIES_PER_BLOCK)"
    have at4: "at mod 4 = 0" using less.prems(2) True by simp
    have len: "\<And>b. length (m b) = BLOCK" using less.prems(1) by (simp add: holding_def)
    have blocks0: "0 < blocks"
      using True le_div_ceil_mult [of ENTRIES_PER_BLOCK remaining]
      by (cases "div_ceil remaining ENTRIES_PER_BLOCK") (auto simp: blocks_def remaining_def MOUNT_STREAM_BLOCKS_def fmt_consts)
    have count: "0 < count" "at + count \<le> n" "(at + count) mod 4 = 0 \<or> n \<le> at + count" "count \<le> blocks * 4"
      using True blocks0 at4 by (auto simp: count_def remaining_def fmt_consts min_def)
    have copy_at: "CATALOG ! copy \<le> 576" using two_copies [OF copy] by (auto simp: CATALOG_def)
    have "at div 4 \<le> n div 4" using True by (simp add: div_le_mono)
    then have fits: "?base + at div 4 + blocks \<le> EXTENT_AREA"
      using n copy_at by (simp add: blocks_def MOUNT_STREAM_BLOCKS_def EXTENT_AREA_def fmt_consts)
    define window where "window = concat (map m [?base + at div 4..<?base + at div 4 + blocks])"
    have lw: "length window = blocks * BLOCK" unfolding window_def by (rule length_blocks [OF len])
    have recs: "map (\<lambda>i. slice (i * ENTRY_STRIDE) ENTRY_STRIDE window) [0..<count] = ?recs at (at + count)"
      unfolding window_def by (rule window_records [OF len at4 count(4)])
    have part: "take (count * ENTRY_STRIDE) window = concat (?recs at (at + count))"
      unfolding recs [symmetric] by (rule concat_slices [symmetric]) (use count(4) lw in \<open>simp add: fmt_consts\<close>)
    have split: "?recs at n = ?recs at (at + count) @ ?recs (at + count) n"
      using upt_add_eq_append [of at "at + count" "n - (at + count)"] count(2) by simp
    obtain r1 d1 where rd: "read_blocks D (?base + at div 4) blocks d = (r1, d1)" by (rule prod.exhaust)
    note w = read_holding [OF less.prems(1) rd fits, folded window_def]
    obtain r2 fm2 where lw2: "absorb ec (?recs at (at + count)) x fm = (r2, fm2)" by (rule prod.exhaust)
    have step: "load_loop D ec copy n at dg x (d, fm) = (case r1 of Inl e \<Rightarrow> (Inl e, d1, fm) | Inr wd \<Rightarrow>
        bindS (on_map (absorb ec (map (\<lambda>i. slice (i * ENTRY_STRIDE) ENTRY_STRIDE wd) [0..<count]) x)) (\<lambda>x.
          load_loop D ec copy n (at + count) (crc_update dg (take (count * ENTRY_STRIDE) wd)) x) (d1, fm))"
    proof -
      have e4: "at div ENTRIES_PER_BLOCK = at div 4" by (simp add: fmt_consts)
      have "load_loop D ec copy n at dg x (d, fm) = bindS (on_dev (read_blocks D (?base + at div ENTRIES_PER_BLOCK) blocks)) (\<lambda>window.
          bindS (on_map (load_window ec window [0..<count] x)) (\<lambda>x.
            load_loop D ec copy n (at + count) (crc_update dg (take (count * ENTRY_STRIDE) window)) x)) (d, fm)"
        using True by (subst load_loop.simps) (simp only: if_True Let_def remaining_def blocks_def count_def)
      then show ?thesis using rd by (cases r1) (simp_all add: e4 bindS_def [of "on_dev _"] on_dev_def load_window_absorb)
    qed
    show ?thesis
    proof (cases r1)
      case (Inl e)
      then show ?thesis using w less.prems(3) step by auto
    next
      case (Inr wd)
      then have wd: "wd = window" using w(4) by simp
      show ?thesis
      proof (cases r2)
        case (Inl e)
        then have "r = Inl e" "d' = d1" using less.prems(3) step Inr wd recs lw2 by (simp_all add: bindS_def on_map_def)
        then show ?thesis using w split Inl lw2 by (simp add: absorb_append bindS_def)
      next
        case Inr2: (Inr x2)
        then have rest: "load_loop D ec copy n (at + count) (crc_update dg (concat (?recs at (at + count)))) x2 (d1, fm2) = (r, d', fm')"
          using less.prems(3) step Inr wd recs lw2 part by (simp add: bindS_def on_map_def)
        have "n - (at + count) < n - at" using count True by linarith
        note IH = less.hyps [OF this w(2) count(3) rest]
        have a: "absorb ec (?recs at n) x fm = absorb ec (?recs (at + count) n) x2 fm2"
          unfolding split absorb_append by (simp only: bindS_def lw2 Inr2 prod.case sum.case)
        have b: "crc_update dg (concat (?recs at n)) = crc_update (crc_update dg (concat (?recs at (at + count)))) (concat (?recs (at + count) n))"
          unfolding split by (simp only: concat_append crc_update_append)
        show ?thesis unfolding a b
        proof (intro conjI)
          show "confined (\<lambda>_. False) d d'" by (rule confined_trans [OF w(1) IH [THEN conjunct1]])
          show "calm d \<longrightarrow> calm d'" using w(3) IH [THEN conjunct2, THEN conjunct1] by simp
          have "r = Inl Media \<and> \<not> calm d1 \<Longrightarrow> r = Inl Media \<and> \<not> calm d" using w(3) by blast
          then show "r = Inl Media \<and> \<not> calm d \<or> (case absorb ec (?recs (at + count) n) x2 fm2 of (Inl e, _) \<Rightarrow> r = Inl e
              | (Inr x', fm3) \<Rightarrow> r = Inr (crc_update (crc_update dg (concat (?recs at (at + count)))) (concat (?recs (at + count) n)), x')
                  \<and> fm' = fm3)"
            by (rule disj_forward [OF IH [THEN conjunct2, THEN conjunct2]])
        qed
      qed
    qed
  qed
qed

text \<open>\<open>load\<close> accepts exactly the whole copies, unless a read fails.\<close>

lemma load_spec:
  assumes hold: "holding m (fs_dev s)" and copy: "copy < 2" and ec: "fs_extents s \<le> MAX_EXTENTS"
    and run: "load D copy gate s = (r, s')"
  shows "confined (\<lambda>_. False) (fs_dev s) (fs_dev s') \<and> s' = s\<lparr>fs_dev := fs_dev s', fs_free := fs_free s'\<rparr>
    \<and> (calm (fs_dev s) \<longrightarrow> calm (fs_dev s'))
    \<and> (r = Inl Media \<and> \<not> calm (fs_dev s) \<or> r = Inl Invalid \<and> (\<forall>h es. \<not> whole_copy m s copy gate h es)
      \<or> (\<exists>h es. r = Inr (loaded_of h es) \<and> whole_copy m s copy gate h es \<and> map_of_catalog s' es))"
proof -
  have good: "good (fs_dev s)" and len: "\<And>b. length (m b) = BLOCK" using hold by (simp_all add: holding_def)
  have copy_at: "CATALOG ! copy + 1 \<le> EXTENT_AREA"
    using two_copies [OF copy] by (auto simp: CATALOG_def EXTENT_AREA_def)
  define fm where "fm = fm_reset (fs_extents s)"
  have fm: "wf_map fm" "used fm = {fs_extents s..<MAX_EXTENTS}" "fm_extents fm = fs_extents s"
    using fm_reset_wf [OF ec] by (simp_all add: fm_def)
  obtain r1 d1 where rd: "read_blocks D (CATALOG ! copy) 1 (fs_dev s) = (r1, d1)" by (rule prod.exhaust)
  note w = read_holding [OF hold rd copy_at]
  define rest where "rest = (\<lambda>hb. bindS (liftE (map_errE (\<lambda>_. Invalid) (cat_header_decode hb (fs_store s)))) (\<lambda>h.
        if h_entry_count h \<noteq> g_entry_count gate \<or> h_sequence h \<noteq> g_sequence gate then failS Invalid
        else bindS (load_loop D (fs_extents s) copy (unat (h_entry_count h)) 0 (crc_update crc_new hb)
            (structure_new (fs_geometry s),
             \<lparr>ld_next_object = next_object h, ld_recording = None, ld_exhausted = False\<rparr>)) (\<lambda>(digest, st, ld).
        bindS (liftE (map_errE (\<lambda>_. Invalid) (structure_finish st h))) (\<lambda>_.
        if finalize digest \<noteq> body_crc gate then failS Invalid else retS ld))))"
  obtain r2 d2 fm2 where tail: "(case r1 of Inl e \<Rightarrow> (Inl e, d1, fm) | Inr hb \<Rightarrow> rest hb (d1, fm)) = (r2, d2, fm2)"
    using prod_cases3 by blast
  have out: "r = r2" "s' = s\<lparr>fs_dev := d2, fs_free := fm2\<rparr>"
  proof -
    have "load D copy gate s = (case (case r1 of Inl e \<Rightarrow> (Inl e, d1, fm) | Inr hb \<Rightarrow> rest hb (d1, fm)) of
        (r, d, fm) \<Rightarrow> (r, s\<lparr>fs_dev := d, fs_free := fm\<rparr>))"
      unfolding load_def Let_def rest_def fm_def
      by (cases r1) (simp_all only: bindS_def [of "on_dev _"] on_dev_def fst_conv snd_conv rd prod.case sum.case)
    then show "r = r2" "s' = s\<lparr>fs_dev := d2, fs_free := fm2\<rparr>" using run tail by simp_all
  qed
  have goal: ?thesis if "confined (\<lambda>_. False) d1 d2" "calm d1 \<longrightarrow> calm d2" "r2 = Inl Media \<and> \<not> calm (fs_dev s)
      \<or> r2 = Inl Invalid \<and> (\<forall>h es. \<not> whole_copy m s copy gate h es)
      \<or> (\<exists>h es. r2 = Inr (loaded_of h es) \<and> whole_copy m s copy gate h es \<and> map_of_catalog (s\<lparr>fs_dev := d2, fs_free := fm2\<rparr>) es)"
    using that confined_trans [OF w(1) that(1)] w(3) by (simp add: out)
  have stop: ?thesis if "d2 = d1" "r2 = Inl Invalid" "\<forall>h es. \<not> whole_copy m s copy gate h es"
    by (rule goal) (use that confined_refl [OF confined_good [OF w(1)]] in simp_all)
  show ?thesis
  proof (cases r1)
    case (Inl e)
    then have "r2 = Inl Media" "d2 = d1" "\<not> calm (fs_dev s)" using tail w(4) by auto
    then show ?thesis by (intro goal) (use confined_refl [OF confined_good [OF w(1)]] in simp_all)
  next
    case (Inr hb)
    then have hb: "hb = m (CATALOG ! copy)" using w(4) by simp
    have run2: "rest (m (CATALOG ! copy)) (d1, fm) = (r2, d2, fm2)" using tail Inr hb by simp
    show ?thesis
    proof (cases "cat_header_decode (m (CATALOG ! copy)) (fs_store s)")
      case (Inl e)
      then show ?thesis using run2 by (intro stop) (auto simp: rest_def bindS_def whole_copy_def)
    next
      case dec: (Inr h)
      show ?thesis
      proof (cases "h_entry_count h \<noteq> g_entry_count gate \<or> h_sequence h \<noteq> g_sequence gate")
        case True
        then show ?thesis using run2 dec by (intro stop) (auto simp: rest_def bindS_def whole_copy_def)
      next
        case False
        define n where "n = unat (h_entry_count h)"
        have n: "n \<le> ENTRY_CAPACITY"
          using cat_header_decode_Inr [OF dec] len by (simp add: n_def wf_cat_header_def BLOCK_def)
        have head: "h_entry_count h = g_entry_count gate" "h_sequence h = g_sequence gate" using False by auto
        let ?recs = "map (entry_at m (CATALOG ! copy + 1)) [0..<n]"
        let ?body = "m (CATALOG ! copy) @ concat ?recs"
        let ?x = "(structure_new (fs_geometry s), \<lparr>ld_next_object = next_object h, ld_recording = None, ld_exhausted = False\<rparr>)"
        let ?takes = "takes (fs_extents s) ?recs (structure_new (fs_geometry s)) {fs_extents s..<MAX_EXTENTS}"
        have whole: "whole_copy m s copy gate h2 es \<longleftrightarrow> h2 = h \<and> (\<exists>st. ?takes es st \<and> structure_finish st h = Inr ())
            \<and> body_crc gate = crc32 ?body" for h2 es
          using takes_whole [where m = m, OF dec head n_def ec] len dec by (auto simp: whole_copy_def)
        obtain r3 d3 fm3 where lp: "load_loop D (fs_extents s) copy n 0 (crc_update crc_new (m (CATALOG ! copy))) ?x (d1, fm) = (r3, d3, fm3)"
          using prod_cases3 by blast
        note l = load_loop_spec [OF n copy w(2) _ lp]
        obtain r4 fm4 where ab: "absorb (fs_extents s) ?recs ?x fm = (r4, fm4)" by (rule prod.exhaust)
        have "\<forall>b\<in>set ?recs. length b = 128" using length_entry_at [of m] len by auto
        note a = absorb_spec [OF fm(1) ec this ab, unfolded fm(2,3)]
        have crc: "finalize (crc_update (crc_update crc_new (m (CATALOG ! copy))) (concat ?recs)) = crc32 ?body"
          by (simp only: crc32_def checksum_def crc_update_append)
        have run3: "(case r3 of Inl e \<Rightarrow> (Inl e, d3, fm3) | Inr (digest, st, ld) \<Rightarrow>
            bindS (liftE (map_errE (\<lambda>_. Invalid) (structure_finish st h))) (\<lambda>_.
              if finalize digest \<noteq> body_crc gate then failS Invalid else retS ld) (d3, fm3)) = (r2, d2, fm2)"
          using run2 [unfolded rest_def] dec False lp by (cases r3) (auto simp: bindS_def n_def split: prod.splits sum.splits if_splits)
        have d2: "d2 = d3" "fm2 = fm3"
          using run3 by (cases r3; auto simp: bindS_def split: sum.splits if_splits prod.splits)+
        have lc: "confined (\<lambda>_. False) d1 d2" "calm d1 \<longrightarrow> calm d2" using l d2 by auto
        from l consider "r3 = Inl Media" "\<not> calm d1" | e where "r4 = Inl e" "r3 = Inl e"
          | x' where "r4 = Inr x'" "fm3 = fm4" "r3 = Inr (crc_update (crc_update crc_new (m (CATALOG ! copy))) (concat ?recs), x')"
          unfolding ab by (cases r4) auto
        then show ?thesis
        proof cases
          case 1
          then show ?thesis using lc run3 w(3) by (intro goal) auto
        next
          case 2
          then have "\<not> whole_copy m s copy gate h2 es" for h2 es using a whole by auto
          then show ?thesis using lc run3 2 a by (intro goal) auto
        next
          case 3
          then obtain es st where t: "?takes es st" "wf_map fm4" "fm_extents fm4 = fs_extents s"
              "used fm4 = {fs_extents s..<MAX_EXTENTS} \<union> set (entry_extents es)" "x' = (st, loaded_of h es)"
            using a by (auto simp: loaded_of_def)
          have only: "whole_copy m s copy gate h2 es2 \<longleftrightarrow> h2 = h \<and> es2 = es \<and> structure_finish st h = Inr () \<and> body_crc gate = crc32 ?body" for h2 es2
            unfolding whole using takes_unique [OF t(1)] t(1) by blast
          have "r2 = (if structure_finish st h = Inr () \<and> body_crc gate = crc32 ?body then Inr (loaded_of h es) else Inl Invalid)"
            using run3 3(3) t(5) crc by (cases "structure_finish st h") (auto simp: bindS_def split: if_splits)
          then show ?thesis using lc t d2 3(2) only by (intro goal) (auto simp: map_of_catalog_def)
        qed
      qed
    qed
  qed
qed

end

subsection \<open>Recovering a ride touches only payload\<close>

context block_device
begin

lemma stays_repair_compare: "stays (\<lambda>d. d) W (repair_compare D from to bs differs) (\<lambda>_. True)"
  by (induction bs arbitrary: differs) (auto intro!: stays_ret stays_bind [OF stays_read])

lemma stays_repair_copy:
  "EXTENT_AREA \<le> to \<Longrightarrow> stays (\<lambda>d. d) extent_region (repair_copy D from to bs) (\<lambda>_. True)"
proof (induction bs)
  case (Cons b bs)
  have "extent_region a" if "touched (to + b) 1 a" for a
    using touched_above [OF that, of 128] Cons.prems by (simp add: extent_region_def EXTENT_AREA_def)
  then show ?case using Cons
    by (auto intro!: stays_bind [OF stays_read] stays_then [OF stays_write [of _ 1]])
qed (simp add: stays_ret)

lemma stays_repair_rollover: "stays (\<lambda>d. d) extent_region (repair_rollover D g rs p) (\<lambda>_. True)"
  unfolding repair_rollover_def Let_def
  by (auto intro!: stays_fail stays_then [OF stays_repair_compare] stays_then [OF stays_repair_copy] stays_sync
      simp: locate_def dest: locate_loop_extent split: option.split)

lemma candidates_confined: "good d \<Longrightarrow> candidates D store ec e is d = (cs, d') \<Longrightarrow> confined (\<lambda>_. False) d d'"
proof (induction "is" arbitrary: d cs d')
  case (Cons i js)
  obtain r1 d1 where rd: "read_blocks D (slot_header_block i) 1 d = (r1, d1)" by (rule prod.exhaust)
  obtain cs2 d2 where c: "candidates D store ec e js d1 = (cs2, d2)" by (rule prod.exhaust)
  have c1: "confined (\<lambda>_. False) d d1" by (rule read_confined [OF Cons.prems(1) rd])
  have "d' = d2" using Cons.prems(2) rd c by (cases r1) auto
  then show ?case using confined_trans [OF c1 Cons.IH [OF confined_good [OF c1] c]] by simp
qed (auto simp: confined_refl)

lemma slot_intact_confined:
  assumes "good d" and "slot_intact D store slot d = (x, d')"
  shows "confined (\<lambda>_. False) d d'"
proof -
  obtain r d1 where lp: "intact_loop D (slot_block (unat (sl_slot slot))) [0, 8, 16, 24]
      (header_digest (header_bytes slot store)) d = (r, d1)" by (rule prod.exhaust)
  have "d' = d1" using assms(2) by (cases r) (simp_all only: slot_intact_def lp prod.case sum.case prod.inject)
  then show ?thesis using staysD [OF stays_intact_loop assms(1) lp] by simp
qed

declare recover_loop.simps [simp del]

lemma recover_loop_confined:
  "good d \<Longrightarrow> recover_loop D store g e cs d = (x, d') \<Longrightarrow> confined extent_region d d'"
proof (induction "live_count cs" arbitrary: cs d rule: less_induct)
  case less
  note unfolded = less.prems(2) [unfolded recover_loop.simps [of D store g e cs d]]
  show ?case
  proof (cases "newest cs")
    case None
    then show ?thesis using unfolded confined_refl [OF less.prems(1)] by simp
  next
    case (Some i)
    define slot cs' where "slot = the (cs ! i)" and "cs' = cs[i := None]"
    have smaller: "live_count cs' < live_count cs" using live_count_take [OF Some] by (simp add: cs'_def)
    obtain b d1 where in1: "slot_intact D store slot d = (b, d1)" by (rule prod.exhaust)
    have c1: "confined extent_region d d1"
      using slot_intact_confined [OF less.prems(1) in1] by (rule confined_mono) simp
    have next1: ?thesis if "recover_loop D store g e cs' d1 = (x, d')"
      using confined_trans [OF c1 less.hyps [OF smaller confined_good [OF c1] that]] .
    show ?thesis
    proof (cases "sl_proof_sequence slot = 0 \<or> \<not> b \<or> checked_add 64 (unat (sl_sequence slot)) 1 = None")
      case True
      then show ?thesis using unfolded c1 next1
        by (auto simp: Some slot_def [symmetric] cs'_def [symmetric] in1 split: if_splits bool.splits)
    next
      case False
      show ?thesis
      proof (cases "proof_of cs' slot")
        case None
        then show ?thesis using unfolded False next1
          by (auto simp: Some slot_def [symmetric] cs'_def [symmetric] in1)
      next
        case (Some p)
        obtain b2 d2 where in2: "slot_intact D store p d1 = (b2, d2)" by (rule prod.exhaust)
        have c2: "confined extent_region d d2"
          using confined_trans [OF c1 confined_mono [OF slot_intact_confined [OF confined_good [OF c1] in2]]] by simp
        have next2: ?thesis if "recover_loop D store g e cs' d2 = (x, d')"
          using confined_trans [OF c2 less.hyps [OF smaller confined_good [OF c2] that]] .
        obtain r3 d3 where rep: "repair_rollover D g (e_ranges e) p d2 = (r3, d3)" by (rule prod.exhaust)
        have c3: "confined extent_region d d3"
          using confined_trans [OF c2 staysD [OF stays_repair_rollover confined_good [OF c2] rep]] .
        show ?thesis using unfolded False Some next1 next2 c3
          by (auto simp: \<open>newest cs = Some i\<close> slot_def [symmetric] cs'_def [symmetric] in1 in2 rep Let_def
              split: if_splits bool.splits sum.splits)
      qed
    qed
  qed
qed

lemma recover_ride_spec:
  assumes "good (fs_dev s)"
  shows "confined extent_region (fs_dev s) (fs_dev (recover_ride D e s))"
    and "recover_ride D e s = s\<lparr>fs_dev := fs_dev (recover_ride D e s), fs_served := fs_served (recover_ride D e s),
        fs_ride := fs_ride (recover_ride D e s), fs_recovered := fs_recovered (recover_ride D e s)\<rparr>"
    and "fs_served (recover_ride D e s) \<in> {fs_served s, (fs_served s)\<lparr>sv_mode := CatalogUnreadable\<rparr>}"
proof -
  obtain cs d1 where c: "candidates D (fs_store s) (fs_extents s) e [0..<SLOTS] (fs_dev s) = (cs, d1)" by (rule prod.exhaust)
  obtain x d2 where l: "recover_loop D (fs_store s) (fs_geometry s) e cs d1 = (x, d2)" by (rule prod.exhaust)
  have c1: "confined extent_region (fs_dev s) d1"
    using candidates_confined [OF assms c] by (rule confined_mono) simp
  have c2: "confined extent_region (fs_dev s) d2"
    using confined_trans [OF c1 recover_loop_confined [OF confined_good [OF c1] l]] .
  have dev: "fs_dev (recover_ride D e s) = d2" by (cases x) (simp_all add: recover_ride_def c l)
  show "confined extent_region (fs_dev s) (fs_dev (recover_ride D e s))" using c2 dev by simp
  show "fs_served (recover_ride D e s) \<in> {fs_served s, (fs_served s)\<lparr>sv_mode := CatalogUnreadable\<rparr>}"
    by (cases x) (simp_all add: recover_ride_def c l)
  show "recover_ride D e s = s\<lparr>fs_dev := fs_dev (recover_ride D e s), fs_served := fs_served (recover_ride D e s),
        fs_ride := fs_ride (recover_ride D e s), fs_recovered := fs_recovered (recover_ride D e s)\<rparr>"
    by (cases x) (simp_all add: recover_ride_def c l)
qed

end

subsection \<open>Trying the copies in order\<close>

lemma loaded_of_facts:
  "ld_next_object (loaded_of h es) = next_object h"
  "ld_exhausted (loaded_of h es) \<longleftrightarrow> (\<exists>e\<in>set es. rev (e_meta e) = - 1)"
  "ld_recording (loaded_of h es) = None \<longleftrightarrow> (\<forall>e\<in>set es. \<not> is_recording e)"
proof -
  have "ld_next_object (fold note_loaded es ld) = ld_next_object ld
      \<and> (ld_exhausted (fold note_loaded es ld) \<longleftrightarrow> ld_exhausted ld \<or> (\<exists>e\<in>set es. rev (e_meta e) = - 1))
      \<and> (ld_recording (fold note_loaded es ld) = None \<longleftrightarrow> ld_recording ld = None \<and> (\<forall>e\<in>set es. \<not> is_recording e))" for ld
    by (induction es arbitrary: ld) (auto simp: note_loaded_def)
  then show "ld_next_object (loaded_of h es) = next_object h"
    "ld_exhausted (loaded_of h es) \<longleftrightarrow> (\<exists>e\<in>set es. rev (e_meta e) = - 1)"
    "ld_recording (loaded_of h es) = None \<longleftrightarrow> (\<forall>e\<in>set es. \<not> is_recording e)"
    by (simp_all add: loaded_of_def)
qed

text \<open>The mounted state: the catalog of a whole copy is served, and its extents are taken.\<close>

definition mounted_mode :: "served_state \<Rightarrow> entry list \<Rightarrow> bool" where
  "mounted_mode sv es \<longleftrightarrow>
     sv_mode sv = (if \<exists>e\<in>set es. rev (e_meta e) = - 1 then RevisionSpaceExhausted
       else if sv_high_water sv = - 1 then SequenceSpaceExhausted else ReadWrite)
     \<or> sv_mode sv = CatalogUnreadable \<and> (\<exists>e\<in>set es. is_recording e)"

definition serves :: "(nat \<Rightarrow> bytes) \<Rightarrow> 'd fstore \<Rightarrow> nat \<Rightarrow> gate \<Rightarrow> cat_header \<Rightarrow> entry list \<Rightarrow> bool" where
  "serves m s copy gate h es \<longleftrightarrow> whole_copy m s copy gate h es \<and> catalog_held m s es \<and> map_of_catalog s es
     \<and> sv_copy (fs_served s) = copy \<and> sv_sequence (fs_served s) = g_sequence gate \<and> sv_body_crc (fs_served s) = body_crc gate
     \<and> sv_next_object (fs_served s) = next_object h \<and> mounted_mode (fs_served s) es"

definition same_card :: "'d fstore \<Rightarrow> 'd fstore \<Rightarrow> bool" where
  "same_card s s' \<longleftrightarrow> fs_store s' = fs_store s \<and> fs_geometry s' = fs_geometry s \<and> fs_extents s' = fs_extents s"

lemma whole_copy_same: "same_card s s' \<Longrightarrow> whole_copy m s' = whole_copy m s"
  by (simp add: same_card_def whole_copy_def fun_eq_iff)

lemma serves_fields:
  assumes whole: "whole_copy m s copy gate h es" and card: "same_card s s'" and copy: "copy < 2" and len: "\<forall>b. length (m b) = BLOCK"
    and map: "map_of_catalog s' es"
    and sv: "sv_copy (fs_served s') = copy" "sv_sequence (fs_served s') = g_sequence gate" "sv_body_crc (fs_served s') = body_crc gate"
      "sv_next_object (fs_served s') = next_object h" "sv_entry_count (fs_served s') = g_entry_count gate" "mounted_mode (fs_served s') es"
  shows "serves m s' copy gate h es"
proof -
  have whole': "whole_copy m s' copy gate h es" using whole whole_copy_same [OF card] by simp
  then have "length es \<le> ENTRY_CAPACITY"
    using cat_header_decode_Inr [of "m (CATALOG ! copy)" _ h] len by (auto simp: whole_copy_def wf_cat_header_def BLOCK_def)
  then show ?thesis using whole' copy map sv by (simp add: serves_def catalog_held_def whole_copy_def)
qed

abbreviation gate_of :: "gate option \<times> gate option \<Rightarrow> nat \<Rightarrow> gate option" where
  "gate_of gates copy \<equiv> (if copy = 0 then fst gates else snd gates)"

definition no_copy :: "(nat \<Rightarrow> bytes) \<Rightarrow> 'd fstore \<Rightarrow> gate option \<times> gate option \<Rightarrow> nat \<Rightarrow> bool" where
  "no_copy m s gates copy \<longleftrightarrow> (\<forall>gate h es. gate_of gates copy = Some gate \<longrightarrow> \<not> whole_copy m s copy gate h es)"

text \<open>The first copy of the order that is whole under its gate is the one served.\<close>

definition picks :: "(nat \<Rightarrow> bytes) \<Rightarrow> 'd fstore \<Rightarrow> gate option \<times> gate option \<Rightarrow> nat list \<Rightarrow> 'd fstore \<Rightarrow> bool" where
  "picks m s gates order s' \<longleftrightarrow> (\<exists>pre copy post gate h es. order = pre @ copy # post \<and> (\<forall>c\<in>set pre. no_copy m s gates c)
     \<and> gate_of gates copy = Some gate \<and> serves m s' copy gate h es)"

lemma picks_skip: "no_copy m s gates c \<Longrightarrow> picks m s gates order s' \<Longrightarrow> picks m s gates (c # order) s'"
  unfolding picks_def by (metis append_Cons set_ConsD)

lemma picks_here: "gate_of gates copy = Some gate \<Longrightarrow> serves m s' copy gate h es \<Longrightarrow> picks m s gates (copy # rest) s'"
  unfolding picks_def by (intro exI [of _ "[]"]) auto

lemma no_copy_same: "same_card s s' \<Longrightarrow> no_copy m s' = no_copy m s"
  by (simp add: no_copy_def fun_eq_iff whole_copy_same)

lemma picks_same: "same_card s s1 \<Longrightarrow> picks m s1 gates order s' = picks m s gates order s'"
  by (simp add: picks_def no_copy_same)

context calm_device
begin

lemma try_copies_spec:
  assumes ec: "fs_extents s \<le> MAX_EXTENTS"
  shows "holding m (fs_dev s) \<Longrightarrow> calm (fs_dev s) \<Longrightarrow> set order \<subseteq> {0, 1} \<Longrightarrow> sv_mode sv = CatalogUnreadable \<Longrightarrow>
    confined extent_region (fs_dev s) (fs_dev (try_copies D gates sv order s)) \<and> same_card s (try_copies D gates sv order s)
    \<and> sv_high_water (fs_served (try_copies D gates sv order s)) = sv_high_water sv
    \<and> (picks m s gates order (try_copies D gates sv order s)
      \<or> (\<forall>c\<in>set order. no_copy m s gates c) \<and> fs_mode (try_copies D gates sv order s) = CatalogUnreadable)"
  using ec
proof (induction order arbitrary: s)
  case Nil
  then show ?case by (simp add: confined_refl holding_def same_card_def)
next
  case (Cons copy rest)
  let ?s' = "try_copies D gates sv (copy # rest) s"
  have good: "good (fs_dev s)" and len: "\<forall>b. length (m b) = BLOCK" using Cons.prems(1) by (simp_all add: holding_def)
  have copy: "copy < 2" and rest: "set rest \<subseteq> {0, 1}" using Cons.prems(3) by auto
  have skip: ?case if no: "no_copy m s gates copy" and same: "?s' = try_copies D gates sv rest s1"
    and s1: "s1 = s\<lparr>fs_dev := fs_dev s1, fs_free := fs_free s1\<rparr>" "confined (\<lambda>_. False) (fs_dev s) (fs_dev s1)" "calm (fs_dev s1)" for s1
  proof -
    have card: "same_card s s1" by (subst s1(1)) (simp add: same_card_def)
    have "fs_extents s1 \<le> MAX_EXTENTS" using card Cons.prems(5) by (simp add: same_card_def)
    note IH = Cons.IH [OF holding_confined [OF Cons.prems(1) s1(2)] s1(3) rest Cons.prems(4) this]
    have "confined extent_region (fs_dev s) (fs_dev (try_copies D gates sv rest s1))"
      using confined_trans [OF confined_mono [OF s1(2)] IH [THEN conjunct1]] by simp
    moreover have "same_card s (try_copies D gates sv rest s1)" using IH card by (auto simp: same_card_def)
    ultimately show ?thesis
      using IH no picks_skip [OF no] by (simp only: same no_copy_same [OF card] picks_same [OF card]) auto
  qed
  show ?case
  proof (cases "gate_of gates copy")
    case None
    then have "?s' = try_copies D gates sv rest s" by simp
    then show ?thesis
      by (rule skip [rotated]) (use None confined_refl [OF good] Cons.prems(2) in \<open>simp_all add: no_copy_def\<close>)
  next
    case (Some gate)
    obtain r s1 where ld: "load D copy gate s = (r, s1)" by (rule prod.exhaust)
    note l = load_spec [OF Cons.prems(1) copy Cons.prems(5) ld]
    have s1: "s1 = s\<lparr>fs_dev := fs_dev s1, fs_free := fs_free s1\<rparr>" "confined (\<lambda>_. False) (fs_dev s) (fs_dev s1)" "calm (fs_dev s1)"
      using l Cons.prems(2) by blast+
    show ?thesis
    proof (cases r)
      case (Inl e)
      then have "?s' = try_copies D gates sv rest s1" using Some ld by simp
      moreover have "no_copy m s gates copy" using l Inl Some Cons.prems(2) by (auto simp: no_copy_def)
      ultimately show ?thesis using skip s1 by blast
    next
      case (Inr x)
      then obtain h es where x: "x = loaded_of h es" "whole_copy m s copy gate h es" "map_of_catalog s1 es" using l by auto
      define sv' where "sv' = sv\<lparr>sv_copy := copy, sv_sequence := g_sequence gate, sv_next_object := ld_next_object x,
                     sv_entry_count := g_entry_count gate, sv_body_crc := body_crc gate,
                     sv_mode := (if ld_exhausted x then RevisionSpaceExhausted
                       else if sv_high_water sv = - 1 then SequenceSpaceExhausted else ReadWrite)\<rparr>"
      have s': "?s' = (case ld_recording x of None \<Rightarrow> s1\<lparr>fs_served := sv'\<rparr> | Some e \<Rightarrow> recover_ride D e (s1\<lparr>fs_served := sv'\<rparr>))"
        by (simp only: try_copies.simps Some ld Inr option.case prod.case sum.case sv'_def Let_def)
      define s2 where "s2 = s1\<lparr>fs_served := sv'\<rparr>"
      have "same_card s s1" by (subst s1(1)) (simp add: same_card_def)
      then have card2: "same_card s s2" by (simp add: same_card_def s2_def)
      have dev2: "good (fs_dev s2)" "fs_dev s2 = fs_dev s1" using confined_good [OF s1(2)] by (simp_all add: s2_def)
      have map2: "map_of_catalog s2 es" using x(3) by (simp add: s2_def map_of_catalog_def)
      have mode2: "mounted_mode sv' es" by (simp add: mounted_mode_def sv'_def x(1) loaded_of_facts)
      define S where "S = ?s'"
      have fin: ?thesis if "same_card s S" "confined extent_region (fs_dev s) (fs_dev S)" "map_of_catalog S es"
          "fs_served S = sv' \<or> fs_served S = sv'\<lparr>sv_mode := CatalogUnreadable\<rparr> \<and> (\<exists>e\<in>set es. is_recording e)"
      proof -
        have "mounted_mode (fs_served S) es"
          using that(4) mode2 by (elim disjE conjE) (simp, simp add: mounted_mode_def)
        moreover have "sv_copy (fs_served S) = copy" "sv_sequence (fs_served S) = g_sequence gate" "sv_body_crc (fs_served S) = body_crc gate"
            "sv_next_object (fs_served S) = next_object h" "sv_entry_count (fs_served S) = g_entry_count gate"
            "sv_high_water (fs_served S) = sv_high_water sv"
          using that(4) by (auto simp: sv'_def x(1) loaded_of_facts)
        ultimately have "serves m S copy gate h es" "sv_high_water (fs_served S) = sv_high_water sv"
          using serves_fields [OF x(2) that(1) copy len that(3)] by blast+
        then show ?thesis unfolding S_def [symmetric] using that(1,2) picks_here [OF Some] by blast
      qed
      show ?thesis
      proof (cases "ld_recording x")
        case None
        then show ?thesis
          by (intro fin) (use s' card2 map2 confined_mono [OF s1(2)] in \<open>simp_all add: s2_def S_def del: try_copies.simps\<close>)
      next
        case rec: (Some e)
        then have S: "S = recover_ride D e s2" using s' by (simp only: s2_def S_def option.case)
        note r = recover_ride_spec [OF dev2(1), of e, folded S]
        have "\<exists>e\<in>set es. is_recording e" using rec loaded_of_facts(3) [of h es] x(1) by auto
        moreover have "same_card s S" using card2 by (subst r(2)) (simp add: same_card_def)
        moreover have "map_of_catalog S es" using map2 by (subst r(2)) (simp add: map_of_catalog_def)
        moreover have "confined extent_region (fs_dev s) (fs_dev S)"
          using confined_trans [OF confined_mono [OF s1(2)]] r(1) dev2(2) by simp
        moreover have "fs_served S = sv' \<or> fs_served S = sv'\<lparr>sv_mode := CatalogUnreadable\<rparr>"
          using r(3) by (simp add: s2_def)
        ultimately show ?thesis by (intro fin) blast+
      qed
    qed
  qed
qed

end

subsection \<open>Mount\<close>

definition card_superblock :: "(nat \<Rightarrow> bytes) \<Rightarrow> superblock option" where
  "card_superblock m = (case okR (sb_decode (m (SUPERBLOCK ! 0))) of
     Some sb \<Rightarrow> Some sb | None \<Rightarrow> okR (sb_decode (m (SUPERBLOCK ! 1))))"

definition card_gates :: "(nat \<Rightarrow> bytes) \<Rightarrow> store_id \<Rightarrow> gate option \<times> gate option" where
  "card_gates m store = (okR (gate_decode (m (catalog_gate 0)) 0 store), okR (gate_decode (m (catalog_gate 1)) 1 store))"

definition of_superblock :: "'d fstore \<Rightarrow> superblock \<Rightarrow> bool" where
  "of_superblock s sb \<longleftrightarrow> fs_store s = sb_store sb \<and> fs_geometry s = sb_geometry sb \<and> fs_extents s = sb_extent_count sb"

context calm_device
begin

lemma quiet_trans: "confined (\<lambda>_. False) d d1 \<Longrightarrow> confined W d1 d2 \<Longrightarrow> confined W d d2"
  using confined_trans [OF confined_mono] by blast

lemma read_gate_calm:
  assumes "holding m d" and "calm d" and "copy < 2" and "read_gate D store copy d = (g, d')"
  shows "g = okR (gate_decode (m (catalog_gate copy)) copy store) \<and> confined (\<lambda>_. False) d d' \<and> holding m d' \<and> calm d'"
proof -
  obtain r1 d1 where rd: "read_blocks D (catalog_gate copy) 1 d = (r1, d1)" by (rule prod.exhaust)
  have "catalog_gate copy + 1 \<le> EXTENT_AREA"
    using two_copies [OF assms(3)] by (auto simp: catalog_gate_def CATALOG_def fmt_consts)
  note w = read_holding [OF assms(1) rd this]
  then show ?thesis using assms(2,4) rd by (auto simp: read_gate_def)
qed

lemma find_superblock_calm:
  assumes "holding m d" and "calm d"
  shows "fst (find_superblock D SUPERBLOCK d) = card_superblock m
    \<and> confined (\<lambda>_. False) d (snd (find_superblock D SUPERBLOCK d)) \<and> calm (snd (find_superblock D SUPERBLOCK d))"
proof -
  obtain r0 d0 where rd0: "read_blocks D 0 1 d = (r0, d0)" by (rule prod.exhaust)
  obtain r1 d1 where rd1: "read_blocks D 32 1 d0 = (r1, d1)" by (rule prod.exhaust)
  note w0 = read_holding [OF assms(1) rd0]
  note w1 = read_holding [OF w0(2) rd1]
  show ?thesis using w0 w1 assms(2) confined_trans [OF w0(1) w1(1)] rd0 rd1
    by (auto simp: SUPERBLOCK_def card_superblock_def EXTENT_AREA_def split: sum.splits)
qed

lemma mount_spec:
  assumes hold: "holding m d" and calm: "calm d" and run: "mount D addr d = s'"
  shows "confined extent_region d (fs_dev s') \<and> (case card_superblock m of
     None \<Rightarrow> fs_mode s' = Unformatted
   | Some sb \<Rightarrow> of_superblock s' sb \<and>
       (if blocks < unat (total_blocks sb) then fs_mode s' = CardTooSmall
        else let gates = card_gates m (sb_store sb) in
          sv_high_water (fs_served s') = gates_high_water (fst gates) (snd gates)
          \<and> (case mount_order (fst gates) (snd gates) of
               None \<Rightarrow> fs_mode s' = CatalogUnreadable
             | Some order \<Rightarrow> picks m s' gates order s'
                 \<or> (\<forall>c\<in>set order. no_copy m s' gates c) \<and> fs_mode s' = CatalogUnreadable)))"
proof -
  have good: "good d" and len: "\<And>b. length (m b) = BLOCK" using hold by (simp_all add: holding_def)
  obtain x0 d0 where fs: "find_superblock D SUPERBLOCK d = (x0, d0)" by (rule prod.exhaust)
  have f: "x0 = card_superblock m" "confined (\<lambda>_. False) d d0" "calm d0"
    using find_superblock_calm [OF hold calm] by (simp_all add: fs)
  have ext: "confined extent_region d d1" if "confined (\<lambda>_. False) d d1" for d1 using confined_mono [OF that] by simp
  show ?thesis
  proof (cases "card_superblock m")
    case None
    then show ?thesis using run f fs ext by (auto simp: mount_def bring_up_def blank_def)
  next
    case (Some sb)
    have wf: "sb_extent_count sb \<le> MAX_EXTENTS"
    proof -
      have "sb_decode bs = Inr sb \<Longrightarrow> length bs = 512 \<Longrightarrow> ?thesis" for bs
        using sb_decode_Inr [of bs sb] by (simp add: wf_superblock_def sb_extent_count_def) (meson le_trans mod_less_eq_dividend)
      then show ?thesis using Some len
        by (auto simp: card_superblock_def BLOCK_def okR_eq_Some split: option.splits)
    qed
    define s1 where "s1 = (blank addr d)\<lparr>fs_dev := d0, fs_store := sb_store sb, fs_geometry := sb_geometry sb,
                fs_extents := sb_extent_count sb\<rparr>"
    obtain x1 d1 where bc: "block_count D d0 = (x1, d1)" by (rule prod.exhaust)
    have b: "x1 = Inr blocks" "confined (\<lambda>_. False) d0 d1" "calm d1"
    proof -
      obtain v d1' where "bd_block_count D d0 = (v, d1')" by (rule prod.exhaust)
      then have "v = Some blocks \<and> calm d1'" "x1 = (case v of None \<Rightarrow> Inl Media | Some n \<Rightarrow> Inr n)" "d1 = d1'"
          "good d1' \<and> (\<forall>b. cands d1' b \<subseteq> cands d0 b) \<and> (alive d1' \<longrightarrow> alive d0 \<and> media d1' = media d0)"
        using calm_count [OF confined_good [OF f(2)] f(3)] count_law [OF confined_good [OF f(2)]] bc
        by (auto simp: block_count_def split: option.splits)
      then show "x1 = Inr blocks" "confined (\<lambda>_. False) d0 d1" "calm d1" by (simp_all add: confined_def)
    qed
    have h1: "confined (\<lambda>_. False) d d1" "holding m d1"
      using confined_trans [OF f(2) b(2)] holding_confined [OF hold] by blast+
    obtain ga d2 where ga: "read_gate D (sb_store sb) 0 d1 = (ga, d2)" by (rule prod.exhaust)
    note g0 = read_gate_calm [OF h1(2) b(3) _ ga, simplified]
    obtain gb d3 where gb: "read_gate D (sb_store sb) 1 d2 = (gb, d3)" by (rule prod.exhaust)
    have g1: "gb = okR (gate_decode (m (catalog_gate 1)) 1 (sb_store sb))" "confined (\<lambda>_. False) d2 d3" "holding m d3" "calm d3"
      using read_gate_calm [OF _ _ _ gb, of m] g0 by simp_all
    have gates: "card_gates m (sb_store sb) = (ga, gb)" using g0 g1 by (simp add: card_gates_def)
    have c3: "confined (\<lambda>_. False) d d3"
      using confined_trans [OF h1(1)] confined_trans [OF _ g1(2)] g0 by blast
    define s2 where "s2 = s1\<lparr>fs_dev := d3\<rparr>"
    define sv where "sv = (fs_served s1)\<lparr>sv_mode := CatalogUnreadable, sv_high_water := gates_high_water ga gb\<rparr>"
    have s': "s' = (if blocks < unat (total_blocks sb) then s1\<lparr>fs_dev := d1, fs_served := (fs_served s1)\<lparr>sv_mode := CardTooSmall\<rparr>\<rparr>
        else case mount_order ga gb of None \<Rightarrow> s2\<lparr>fs_served := sv\<rparr> | Some order \<Rightarrow> try_copies D (ga, gb) sv order s2)"
      unfolding run [symmetric] mount_def bring_up_def s2_def sv_def s1_def blank_def
      by (cases "mount_order ga gb") (simp_all add: fs f(1) Some bc b(1) ga gb [simplified] Let_def del: try_copies.simps)
    have of1: "of_superblock s1 sb" "of_superblock s2 sb" by (simp_all add: of_superblock_def s1_def s2_def)
    show ?thesis
    proof (cases "blocks < unat (total_blocks sb)")
      case True
      then show ?thesis using s' Some ext [OF h1(1)] of1(1) by (simp add: of_superblock_def)
    next
      case False
      show ?thesis
      proof (cases "mount_order ga gb")
        case None
        then show ?thesis using s' Some False ext [OF c3] of1(2)
          by (simp add: of_superblock_def gates s2_def sv_def)
      next
        case order: (Some order)
        have s': "s' = try_copies D (ga, gb) sv order s2" using s' False order by simp
        have "set order \<subseteq> {0, 1}" using order by (auto simp: mount_order_def split: option.splits if_splits)
        then have t: "confined extent_region d3 (fs_dev s') \<and> same_card s2 s' \<and> sv_high_water (fs_served s') = sv_high_water sv
            \<and> (picks m s2 (ga, gb) order s' \<or> (\<forall>c\<in>set order. no_copy m s2 (ga, gb) c) \<and> fs_mode s' = CatalogUnreadable)"
          unfolding s' using try_copies_spec [of s2 m order sv "(ga, gb)"] wf g1 by (simp add: s2_def s1_def sv_def)
        then have same: "same_card s2 s'" by blast
        have "of_superblock s' sb" using of1(2) same by (simp add: same_card_def of_superblock_def)
        moreover have "confined extent_region d (fs_dev s')" using quiet_trans [OF c3] t by blast
        moreover have "picks m s' (ga, gb) order s' \<or> (\<forall>c\<in>set order. no_copy m s' (ga, gb) c) \<and> fs_mode s' = CatalogUnreadable"
          using t unfolding picks_same [OF same] no_copy_same [OF same] by blast
        moreover have "sv_high_water (fs_served s') = gates_high_water ga gb" using t by (simp add: sv_def)
        ultimately show ?thesis using False by (simp add: Some order gates Let_def)
      qed
    qed
  qed
qed

end

subsection \<open>Which copy mount serves\<close>

lemma whole_copy_unique:
  assumes "whole_copy m s copy gate h es" and "whole_copy m s copy gate h' es'"
  shows "h' = h \<and> es' = es"
proof -
  have "h' = h" "length es' = length es" using assms by (auto simp: whole_copy_def)
  then show ?thesis using assms by (auto simp: whole_copy_def array_holds_def intro!: nth_equalityI)
qed

lemma whole_copy_region:
  assumes same: "\<And>b. copy_region copy b \<Longrightarrow> m' b = m b" and whole: "whole_copy m s copy gate h es"
  shows "whole_copy m' s copy gate h es"
proof -
  have n: "length es \<le> ENTRY_CAPACITY"
    using whole by (auto simp: whole_copy_def cat_header_decode_def Let_def split: if_splits)
  have "entry_at m' (CATALOG ! copy + 1) i = entry_at m (CATALOG ! copy + 1) i" if "i < length es" for i
  proof -
    have "i div 4 \<le> ENTRY_CAPACITY div 4" using that n by (intro div_le_mono) simp
    then have "copy_region copy (CATALOG ! copy + 1 + i div 4)" by (simp add: copy_region_def fmt_consts)
    then show ?thesis using same by (simp add: entry_at_def fmt_consts)
  qed
  then have eqs: "map (entry_at m' (CATALOG ! copy + 1)) [0..<length es] = map (entry_at m (CATALOG ! copy + 1)) [0..<length es]"
      "array_holds m' (CATALOG ! copy + 1) (fs_extents s) es = array_holds m (CATALOG ! copy + 1) (fs_extents s) es"
    by (auto simp: array_holds_def intro!: map_cong [OF refl])
  have "m' (CATALOG ! copy) = m (CATALOG ! copy)" by (rule same) (simp add: copy_region_def)
  then show ?thesis using whole unfolding whole_copy_def eqs by simp
qed

text \<open>A copy a commit completed is whole, once its entries share no extent.\<close>

lemma copy_image_whole:
  assumes img: "copy_image m copy h es" and next': "next_catalog s ms es0 h es" and dis: "distinct (entry_extents es)"
  shows "whole_copy m s copy (copy_gate copy h es) h es"
proof -
  have n: "wf_cat_header h" "\<forall>e\<in>set es. wf_entry (fs_extents s) e" "length es = unat (h_entry_count h)" "h_store h = fs_store s"
      "wf_catalog (fs_geometry s) (next_object h) es"
    using next' by (simp_all add: next_catalog_def)
  note hlen = length_header [OF n(1)]
  have ent: "\<forall>e\<in>set es. length (entry_encode e) = 128" using n(2) by (auto simp: wf_entry_def)
  have hold: "holds_at m (CATALOG ! copy) (padded (catalog_body h es))" using img by (simp add: copy_image_def)
  note len = length_catalog_body [OF hlen ent]
  have "0 < length (padded (catalog_body h es)) div BLOCK"
    using le_div_ceil_mult [of BLOCK "length (catalog_body h es)"] by (simp add: length_padded len BLOCK_def div_ceil_def)
  then have "m (CATALOG ! copy + 0) = chunk (padded (catalog_body h es)) 0" using hold unfolding holds_at_def by blast
  also have "\<dots> = cat_header_encode h"
    using hlen by (simp add: chunk_def padded_def catalog_body_def slice_def BLOCK_def)
  finally have head: "m (CATALOG ! copy) = cat_header_encode h" by simp
  have at: "entry_at m (CATALOG ! copy + 1) i = entry_encode (es ! i)" if "i < length es" for i
    by (rule body_entry [OF hlen ent hold that])
  have "map (entry_at m (CATALOG ! copy + 1)) [0..<length es] = map entry_encode es"
    using at by (intro nth_equalityI) simp_all
  moreover have "array_holds m (CATALOG ! copy + 1) (fs_extents s) es"
    using at n(2) entry_roundtrip by (auto simp: array_holds_def)
  ultimately show ?thesis
    using n dis cat_header_roundtrip [OF n(1)] by (simp add: whole_copy_def copy_gate_def head catalog_body_def)
qed

lemma copy_image_entries:
  assumes img: "copy_image m copy h es" and next': "next_catalog s ms es0 h es" and whole: "whole_copy m s copy (copy_gate copy h es) h2 es2"
  shows "es2 = es"
proof -
  have n: "wf_cat_header h" "\<forall>e\<in>set es. wf_entry (fs_extents s) e" "length es = unat (h_entry_count h)"
    using next' by (simp_all add: next_catalog_def)
  have ent: "\<forall>e\<in>set es. length (entry_encode e) = 128" using n(2) by (auto simp: wf_entry_def)
  have hold: "holds_at m (CATALOG ! copy) (padded (catalog_body h es))" using img by (simp add: copy_image_def)
  have len: "length es2 = length es" using whole n(3) by (simp add: whole_copy_def copy_gate_def)
  show ?thesis
  proof (rule nth_equalityI [OF len])
    fix i assume i: "i < length es2"
    have "entry_decode (entry_at m (CATALOG ! copy + 1) i) (fs_extents s) = Inr (es2 ! i)"
      using whole i unfolding whole_copy_def array_holds_def by blast
    then have "entry_decode (entry_encode (es ! i)) (fs_extents s) = Inr (es2 ! i)"
      using body_entry [OF length_header [OF n(1)] ent hold, of i] i len by simp
    then show "es2 ! i = es ! i" using entry_roundtrip [of "fs_extents s" "es ! i"] n(2) i len by simp
  qed
qed

lemma copy_gate_decodes:
  assumes "copy_image m copy h es" and "next_catalog s ms es0 h es" and "copy < 2"
  shows "gate_decode (m (catalog_gate copy)) copy (fs_store s) = Inr (copy_gate copy h es)"
proof -
  have "wf_gate (copy_gate copy h es)" "g_store (copy_gate copy h es) = fs_store s" "unat (g_copy (copy_gate copy h es)) = copy"
    using assms by (auto simp: next_catalog_def copy_gate_def wf_gate_def wf_cat_header_def word_unat_of_nat)
  then show ?thesis using gate_roundtrip [of "copy_gate copy h es" copy] assms(1) by (simp add: copy_image_def)
qed

lemma mount_order_has:
  assumes "gate_of gates copy = Some gate" and "copy < 2"
    and "\<And>g. gate_of gates (1 - copy) = Some g \<Longrightarrow> g_sequence g \<noteq> g_sequence gate"
  shows "\<exists>order. mount_order (fst gates) (snd gates) = Some order \<and> copy \<in> set order \<and> set order \<subseteq> {copy, 1 - copy}"
  using assms two_copies [OF assms(2)]
  by (cases gates; cases "fst gates"; cases "snd gates") (auto simp: mount_order_def)

lemma mount_order_newer:
  assumes "gate_of gates copy = Some gate" and "copy < 2" and "gate_of gates (1 - copy) = Some g" and "g_sequence g < g_sequence gate"
  shows "mount_order (fst gates) (snd gates) = Some [copy, 1 - copy]"
  using assms two_copies [OF assms(2)]
  by (cases gates; cases "fst gates"; cases "snd gates") (auto simp: mount_order_def)

context calm_device
begin

text \<open>A whole copy whose gate is the only one or the newer one is served.\<close>

lemma mount_newest:
  fixes s :: "'d fstore"
  assumes hold: "holding m d" and calm: "calm d" and sb: "card_superblock m = Some sb" and big: "unat (total_blocks sb) \<le> blocks"
    and card: "of_superblock s sb" and copy: "copy < 2" and gate: "gate_of (card_gates m (sb_store sb)) copy = Some gate"
    and whole: "whole_copy m s copy gate h es"
    and other: "\<And>g. gate_of (card_gates m (sb_store sb)) (1 - copy) = Some g \<Longrightarrow> g_sequence g < g_sequence gate
      \<or> g_sequence gate < g_sequence g \<and> (\<forall>h es. \<not> whole_copy m s (1 - copy) g h es)"
  shows "serves m (mount D addr d) copy gate h es"
proof -
  let ?gates = "card_gates m (sb_store sb)"
  define s' where "s' = mount D addr d"
  note spec = mount_spec [OF hold calm s'_def [symmetric], unfolded sb option.case]
  have same: "same_card s s'" using spec card by (simp add: same_card_def of_superblock_def)
  note w = whole_copy_same [OF same]
  obtain order where order: "mount_order (fst ?gates) (snd ?gates) = Some order" "copy \<in> set order" "set order \<subseteq> {copy, 1 - copy}"
    using mount_order_has [OF gate copy] other by fastforce
  have busy: "\<not> no_copy m s' ?gates copy" using gate whole w unfolding no_copy_def by metis
  then have "picks m s' ?gates order s'"
    using spec big order by (auto simp: Let_def)
  then obtain pre c post g h' es' where p: "order = pre @ c # post" "\<forall>c\<in>set pre. no_copy m s' ?gates c"
      "gate_of ?gates c = Some g" "serves m s' c g h' es'" unfolding picks_def by blast
  have c2: "c = copy \<or> c = 1 - copy" using order(3) by (auto simp: p(1))
  show ?thesis
  proof (cases "c = copy")
    case True
    then have "g = gate" "whole_copy m s' copy gate h' es'" using p(3,4) gate by (auto simp: serves_def)
    then show ?thesis using p(4) True whole_copy_unique [of m s' copy gate h' es' h es] whole w by (simp add: s'_def [symmetric])
  next
    case False
    then have c: "c = 1 - copy" using c2 by blast
    have "whole_copy m s (1 - copy) g h' es'" using p(4) w c by (simp add: serves_def)
    then have "g_sequence g < g_sequence gate" using other [OF p(3) [unfolded c]] by blast
    then have "order = [copy, 1 - copy]" using mount_order_newer [OF gate copy p(3) [unfolded c]] order(1) by simp
    then have "copy \<in> set pre" using p(1) False by (cases pre) simp_all
    then show ?thesis using p(2) busy by blast
  qed
qed

end

subsection \<open>Across a power cut\<close>

text \<open>
  A settled store: on every card the power can leave behind now, the superblock is the mounted one,
  the served copy is whole under the newest gate, and the other copy's gate is older if it decodes.
\<close>

definition settled :: "('d \<Rightarrow> nat \<Rightarrow> bytes set) \<Rightarrow> nat \<Rightarrow> 'd fstore \<Rightarrow> entry list \<Rightarrow> bool" where
  "settled cands blocks s es \<longleftrightarrow> (\<forall>img. (\<forall>b. img b \<in> cands (fs_dev s) b) \<longrightarrow>
     (\<exists>sb gate h. card_superblock img = Some sb \<and> of_superblock s sb \<and> unat (total_blocks sb) \<le> blocks
        \<and> gate_of (card_gates img (fs_store s)) (sv_copy (fs_served s)) = Some gate
        \<and> g_sequence gate = sv_high_water (fs_served s)
        \<and> whole_copy img s (sv_copy (fs_served s)) gate h es
        \<and> (\<forall>g. gate_of (card_gates img (fs_store s)) (1 - sv_copy (fs_served s)) = Some g \<longrightarrow> g_sequence g < g_sequence gate)))"

lemma gate_of_card: "copy < 2 \<Longrightarrow> gate_of (card_gates m st) copy = okR (gate_decode (m (catalog_gate copy)) copy st)"
  using two_copies by (auto simp: card_gates_def)

lemma superblock_region:
  assumes "\<And>b. b \<in> set SUPERBLOCK \<Longrightarrow> m' b = m b"
  shows "card_superblock m' = card_superblock m"
proof -
  have "m' (SUPERBLOCK ! 0) = m (SUPERBLOCK ! 0)" "m' (SUPERBLOCK ! 1) = m (SUPERBLOCK ! 1)"
    by (rule assms; simp add: SUPERBLOCK_def)+
  then show ?thesis unfolding card_superblock_def by (simp only:)
qed

context block_device
begin

text \<open>What a settled store still has on any card its commit can leave behind.\<close>

lemma served_side:
  fixes s :: "'d fstore"
  assumes good: "good (fs_dev s)" and st: "store_ok s" and cat: "catalog_held (media (fs_dev s)) s es"
    and settled: "settled cands blocks s es" and es: "\<forall>e\<in>set es. ranges_ok (fs_extents s) (e_ranges e)"
    and mu: "\<forall>mu\<in>set ms. mutation_ok mu" and t: "t = 1 - sv_copy (fs_served s)" and run: "commit D ms s = (r, s')"
    and cut: "\<forall>b. m b \<in> cands (fs_dev s') b"
  shows "\<exists>sb gate h. card_superblock m = Some sb \<and> of_superblock s sb \<and> unat (total_blocks sb) \<le> blocks
      \<and> gate_of (card_gates m (fs_store s)) (sv_copy (fs_served s)) = Some gate \<and> g_sequence gate = sv_high_water (fs_served s)
      \<and> whole_copy m s (sv_copy (fs_served s)) gate h es
      \<and> (m (catalog_gate t) \<in> cands (fs_dev s) (catalog_gate t) \<longrightarrow>
          (\<forall>g. gate_of (card_gates m (fs_store s)) t = Some g \<longrightarrow> g_sequence g < g_sequence gate))"
proof -
  define c where "c = sv_copy (fs_served s)"
  have c2: "c < 2" and t2: "t < 2" and ct: "1 - c = t" using cat by (auto simp: catalog_held_def c_def t)
  have same: "copy_region t b \<or> data_region b \<or> m b \<in> cands (fs_dev s) b" for b
    using commit_outcome [OF good st cat es mu t run cut] by blast
  define keep where "keep = {b. b = catalog_gate t \<and> m b \<in> cands (fs_dev s) b}"
  define old where "old b = (if (copy_region t b \<or> data_region b) \<and> b \<notin> keep then media (fs_dev s) b else m b)" for b
  have here: "old b = m b" if "copy_region c b \<or> b \<in> set SUPERBLOCK" for b
  proof -
    have "\<not> copy_region t b \<and> \<not> data_region b"
    proof (cases "copy_region c b")
      case True
      then show ?thesis using copies_disjoint(1-3) [OF c2 True] ct by simp
    next
      case False
      then have b: "b \<in> set SUPERBLOCK" using that by blast
      then have "\<not> data_region b" by (auto simp: SUPERBLOCK_def extent_region_def journal_region_def fmt_consts)
      then show ?thesis using copies_disjoint(4) [OF t2, of b] b by blast
    qed
    then show ?thesis by (simp add: old_def)
  qed
  have gc: "copy_region c (catalog_gate c)" by (simp add: copy_region_def catalog_gate_def fmt_consts)
  have "\<forall>b. old b \<in> cands (fs_dev s) b" using same media_cand [OF good] by (auto simp: old_def keep_def)
  then obtain sb gate h where o: "card_superblock old = Some sb" "of_superblock s sb" "unat (total_blocks sb) \<le> blocks"
      "gate_of (card_gates old (fs_store s)) c = Some gate" "g_sequence gate = sv_high_water (fs_served s)"
      "whole_copy old s c gate h es"
      "\<forall>g. gate_of (card_gates old (fs_store s)) t = Some g \<longrightarrow> g_sequence g < g_sequence gate"
    using settled unfolding settled_def c_def [symmetric] ct by blast
  have "card_superblock m = card_superblock old" by (rule superblock_region) (simp add: here)
  moreover have "whole_copy m s c gate h es" by (rule whole_copy_region [OF _ o(6)]) (simp add: here)
  moreover have "gate_of (card_gates m (fs_store s)) c = Some gate"
    using o(4) here [of "catalog_gate c"] gc by (simp add: gate_of_card [OF c2])
  moreover have "old (catalog_gate t) = m (catalog_gate t)" if "m (catalog_gate t) \<in> cands (fs_dev s) (catalog_gate t)"
    using that by (simp add: old_def keep_def)
  ultimately show ?thesis using o unfolding c_def [symmetric] by (metis gate_of_card [OF t2])
qed

text \<open>A commit that succeeds leaves a settled store again.\<close>

lemma commit_keeps_settled:
  fixes s :: "'d fstore"
  assumes good: "good (fs_dev s)" and st: "store_ok s" and cat: "catalog_held (media (fs_dev s)) s es"
    and settled: "settled cands blocks s es" and es: "\<forall>e\<in>set es. ranges_ok (fs_extents s) (e_ranges e)"
    and mu: "\<forall>mu\<in>set ms. mutation_ok mu" and run: "commit D ms s = (Inr q, s')"
    and dis: "distinct (entry_extents es @ reserved_extents s)"
  shows "\<exists>h es'. next_catalog s ms es h es' \<and> q = h_sequence h \<and> settled cands blocks s' es'"
proof -
  define t where "t = 1 - sv_copy (fs_served s)"
  have t2: "t < 2" and ct: "1 - t = sv_copy (fs_served s)" using cat by (auto simp: catalog_held_def t_def)
  have on: "array_on (media (fs_dev s)) (CATALOG ! sv_copy (fs_served s) + 1) (length es) (fs_dev s)"
    using good media_len [OF good] by (simp add: array_on_def)
  from commit_cases [OF on cat st es mu t_def run] obtain h es' where n: "next_catalog s ms es h es'"
      and body: "\<forall>i < length (padded (catalog_body h es')) div BLOCK.
          cands (fs_dev s') (CATALOG ! t + i) \<subseteq> {chunk (padded (catalog_body h es')) i}"
      and q: "q = h_sequence h" and gate: "cands (fs_dev s') (catalog_gate t) \<subseteq> {gate_encode (copy_gate t h es')}"
      and same: "fs_geometry s' = fs_geometry s" "fs_extents s' = fs_extents s" "sv_copy (fs_served s') = t"
        "fs_store s' = fs_store s" "sv_high_water (fs_served s') = h_sequence h"
    by auto
  have card: "same_card s s'" using same by (simp add: same_card_def)
  have dis': "distinct (entry_extents es')" using n dis by (simp add: next_catalog_def)
  have "settled cands blocks s' es'"
    unfolding settled_def
  proof (intro allI impI)
    fix img assume cut: "\<forall>b. img b \<in> cands (fs_dev s') b"
    have img: "copy_image img t h es'" using body gate cut unfolding copy_image_def holds_at_def by blast
    obtain sb g h0 where o: "card_superblock img = Some sb" "of_superblock s sb" "unat (total_blocks sb) \<le> blocks"
        "gate_of (card_gates img (fs_store s)) (sv_copy (fs_served s)) = Some g" "g_sequence g = sv_high_water (fs_served s)"
      using served_side [OF good st cat settled es mu t_def run cut] by blast
    have "g_sequence g < g_sequence (copy_gate t h es')"
      using n o(5) by (simp add: next_catalog_def copy_gate_def word_less_nat_alt)
    moreover have "gate_of (card_gates img (fs_store s)) t = Some (copy_gate t h es')"
      using copy_gate_decodes [OF img n t2] by (simp add: gate_of_card [OF t2])
    moreover have "whole_copy img s' t (copy_gate t h es') h es'"
      using copy_image_whole [OF img n dis'] whole_copy_same [OF card] by simp
    moreover have "of_superblock s' sb" using o(2) same by (simp add: of_superblock_def)
    moreover have "g_sequence (copy_gate t h es') = sv_high_water (fs_served s')" by (simp add: copy_gate_def same)
    ultimately show "\<exists>sb gate h. card_superblock img = Some sb \<and> of_superblock s' sb \<and> unat (total_blocks sb) \<le> blocks
        \<and> gate_of (card_gates img (fs_store s')) (sv_copy (fs_served s')) = Some gate
        \<and> g_sequence gate = sv_high_water (fs_served s')
        \<and> whole_copy img s' (sv_copy (fs_served s')) gate h es'
        \<and> (\<forall>g. gate_of (card_gates img (fs_store s')) (1 - sv_copy (fs_served s')) = Some g \<longrightarrow> g_sequence g < g_sequence gate)"
      using o(1,3,4) unfolding same ct by (metis option.inject)
  qed
  then show ?thesis using n q by blast
qed

end

context calm_device
begin

lemma remount_after_commit:
  fixes s :: "'d fstore"
  assumes good: "good (fs_dev s)" and st: "store_ok s" and cat: "catalog_held (media (fs_dev s)) s es"
    and settled: "settled cands blocks s es" and es: "\<forall>e\<in>set es. ranges_ok (fs_extents s) (e_ranges e)"
    and mu: "\<forall>mu\<in>set ms. mutation_ok mu" and t: "t = 1 - sv_copy (fs_served s)" and run: "commit D ms s = (r, s')"
    and d: "good d" "calm d" and cut: "\<forall>b. media d b \<in> cands (fs_dev s') b"
    and gate: "torn (media d (catalog_gate t)) \<Longrightarrow> okR (gate_decode (media d (catalog_gate t)) t (fs_store s)) = None"
  shows "\<exists>copy g h es2. serves (media d) (mount D addr d) copy g h es2 \<and> (es2 = es \<or> next_catalog s ms es h es2)
    \<and> (\<forall>q. r = Inr q \<and> distinct (entry_extents es @ reserved_extents s) \<longrightarrow> next_catalog s ms es h es2 \<and> h_sequence h = q)"
proof -
  define m c where "m = media d" and "c = sv_copy (fs_served s)"
  have hold: "holding m d" using holding_media [OF d(1)] by (simp add: m_def)
  have c2: "c < 2" and t2: "t < 2" and ct: "1 - c = t" "1 - t = c" using cat by (auto simp: catalog_held_def c_def t)
  note atomic = commit_outcome [OF good st cat es mu t run cut, folded m_def]
  obtain sb gate h where n: "card_superblock m = Some sb" "of_superblock s sb" "unat (total_blocks sb) \<le> blocks"
      "gate_of (card_gates m (fs_store s)) c = Some gate" "g_sequence gate = sv_high_water (fs_served s)"
      "whole_copy m s c gate h es"
      "m (catalog_gate t) \<in> cands (fs_dev s) (catalog_gate t) \<Longrightarrow>
          gate_of (card_gates m (fs_store s)) t = Some g \<Longrightarrow> g_sequence g < g_sequence gate" for g
    using served_side [OF good st cat settled es mu t run cut, folded c_def m_def] by blast
  have store: "sb_store sb = fs_store s" using n(2) by (simp add: of_superblock_def)
  note newest = mount_newest [OF hold d(2) n(1,3,2), unfolded store]
  have stays: "serves m (mount D addr d) c gate h es"
    if "\<And>g. gate_of (card_gates m (fs_store s)) t = Some g \<Longrightarrow> g_sequence g < g_sequence gate
        \<or> g_sequence gate < g_sequence g \<and> (\<forall>h es. \<not> whole_copy m s t g h es)"
    by (rule newest [OF c2 n(4) n(6), unfolded ct(1), OF that])
  have new: "serves m (mount D addr d) t (copy_gate t h' es') h' es' \<or>
      \<not> distinct (entry_extents es') \<and> serves m (mount D addr d) c gate h es"
    if next': "next_catalog s ms es h' es'" and img: "copy_image m t h' es'" for h' es'
  proof -
    have gt: "gate_of (card_gates m (fs_store s)) t = Some (copy_gate t h' es')"
      using copy_gate_decodes [OF img next' t2] by (simp add: gate_of_card [OF t2])
    have newer: "g_sequence gate < g_sequence (copy_gate t h' es')"
      using next' n(5) by (simp add: next_catalog_def copy_gate_def word_less_nat_alt)
    show ?thesis
    proof (cases "distinct (entry_extents es')")
      case True
      have "serves m (mount D addr d) t (copy_gate t h' es') h' es'"
        by (rule newest [OF t2 gt copy_image_whole [OF img next' True], unfolded ct(2) n(4)]) (use newer in simp)
      then show ?thesis by blast
    next
      case False
      have "\<not> whole_copy m s t (copy_gate t h' es') h2 es2" for h2 es2
        using copy_image_entries [OF img next', of h2 es2] False by (auto simp: whole_copy_def)
      then have "serves m (mount D addr d) c gate h es" using gt newer by (intro stays) auto
      then show ?thesis using False by blast
    qed
  qed
  define post where "post g = (\<exists>copy h es2. serves m (mount D addr d) copy g h es2 \<and> (es2 = es \<or> next_catalog s ms es h es2)
        \<and> (\<forall>q. r = Inr q \<and> distinct (entry_extents es @ reserved_extents s) \<longrightarrow> next_catalog s ms es h es2 \<and> h_sequence h = q))" for g
  have "\<exists>g. post g"
  proof (cases "\<exists>q. r = Inr q")
    case True
    then obtain q h' es' where q: "r = Inr q" "next_catalog s ms es h' es'" "q = h_sequence h'" "copy_image m t h' es'"
      using atomic by blast
    have "distinct (entry_extents es @ reserved_extents s) \<Longrightarrow> distinct (entry_extents es')"
      using q(2) by (simp add: next_catalog_def)
    then show ?thesis using new [OF q(2,4)] q(1,2,3) unfolding post_def by blast
  next
    case False
    then have kept: "post g" if "serves m (mount D addr d) copy g h2 es2" "es2 = es \<or> next_catalog s ms es h2 es2" for copy g h2 es2
      using that unfolding post_def by blast
    have old_ok: ?thesis if "\<And>g. gate_of (card_gates m (fs_store s)) t = Some g \<Longrightarrow> g_sequence g < g_sequence gate"
      using kept [OF stays] that by blast
    from atomic [THEN conjunct2, THEN conjunct1]
    show ?thesis
    proof (elim disjE exE conjE)
      assume "m (catalog_gate t) \<in> cands (fs_dev s) (catalog_gate t)"
      then show ?thesis using old_ok n(7) by blast
    next
      assume "m (catalog_gate t) = INVALIDATED"
      then have "gate_of (card_gates m (fs_store s)) t = None" by (simp add: gate_of_card [OF t2] invalidated_gate)
      then show ?thesis using old_ok by simp
    next
      assume "torn (m (catalog_gate t))"
      then have "gate_of (card_gates m (fs_store s)) t = None" using gate by (simp add: gate_of_card [OF t2] m_def)
      then show ?thesis using old_ok by simp
    next
      fix h' es' assume n': "next_catalog s ms es h' es'" "copy_image m t h' es'"
      show ?thesis using new [OF n'] kept n'(1) by blast
    qed
  qed
  then show ?thesis unfolding post_def m_def by blast
qed

end

context calm_device
begin

lemma mount_picks_newest:
  assumes hold: "holding m d" and calm: "calm d" and sb: "card_superblock m = Some sb" and big: "unat (total_blocks sb) \<le> blocks"
    and run: "mount D addr d = s'" and gates: "gates = card_gates m (sb_store sb)"
  shows "of_superblock s' sb
    \<and> ((\<exists>copy gate h es. copy < 2 \<and> gate_of gates copy = Some gate \<and> serves m s' copy gate h es
          \<and> (\<forall>g. gate_of gates (1 - copy) = Some g \<longrightarrow> g_sequence g < g_sequence gate \<or> (\<forall>h es. \<not> whole_copy m s' (1 - copy) g h es)))
      \<or> fs_mode s' = CatalogUnreadable
        \<and> ((\<exists>a b. gates = (Some a, Some b) \<and> g_sequence a = g_sequence b)
           \<or> (\<forall>copy gate h es. copy < 2 \<and> gate_of gates copy = Some gate \<longrightarrow> \<not> whole_copy m s' copy gate h es)))"
proof -
  note spec = mount_spec [OF hold calm run, unfolded sb option.case, folded gates]
  have small: "\<not> blocks < unat (total_blocks sb)" using big by simp
  have of_sb: "of_superblock s' sb" using spec by blast
  show ?thesis
  proof (cases "mount_order (fst gates) (snd gates)")
    case None
    then have "\<exists>a b. gates = (Some a, Some b) \<and> g_sequence a = g_sequence b"
      by (cases gates; cases "fst gates"; cases "snd gates") (auto simp: mount_order_def split: if_splits)
    then show ?thesis using spec small of_sb None by (simp add: Let_def)
  next
    case (Some order)
    then have two: "set order = {0, 1}"
      by (cases gates; cases "fst gates"; cases "snd gates") (auto simp: mount_order_def split: if_splits)
    have "picks m s' gates order s' \<or> (\<forall>c\<in>set order. no_copy m s' gates c) \<and> fs_mode s' = CatalogUnreadable"
      using spec small by (simp only: Some if_False Let_def option.case)
    then consider "picks m s' gates order s'" | "\<forall>c\<in>set order. no_copy m s' gates c" "fs_mode s' = CatalogUnreadable"
      by blast
    then show ?thesis
    proof cases
      case 1
      then obtain pre c post gate h es where p: "order = pre @ c # post" "\<forall>c\<in>set pre. no_copy m s' gates c"
          "gate_of gates c = Some gate" "serves m s' c gate h es" unfolding picks_def by blast
      have "c \<in> set order" by (simp add: p(1))
      then have c: "c < 2" unfolding two by auto
      have "g_sequence g < g_sequence gate \<or> (\<forall>h es. \<not> whole_copy m s' (1 - c) g h es)" if g: "gate_of gates (1 - c) = Some g" for g
      proof (rule disjCI)
        assume "\<not> (\<forall>h es. \<not> whole_copy m s' (1 - c) g h es)"
        then have busy: "\<not> no_copy m s' gates (1 - c)" using g unfolding no_copy_def by blast
        have flip: "1 - (1 - c) = c" "1 - c < 2" using c by auto
        show "g_sequence g < g_sequence gate"
        proof (rule ccontr)
          assume "\<not> g_sequence g < g_sequence gate"
          moreover have "g_sequence g \<noteq> g_sequence gate"
            using Some p(3) g c two_copies [OF c] by (cases gates) (auto simp: mount_order_def)
          ultimately have "g_sequence gate < g_sequence g" by (metis linorder_neqE)
          then have "mount_order (fst gates) (snd gates) = Some [1 - c, c]"
            using mount_order_newer [OF g flip(2), unfolded flip(1), OF p(3)] by simp
          then have "pre @ c # post = [1 - c, c]" using Some p(1) by simp
          moreover have "1 - c \<noteq> c" using two_copies [OF c] by auto
          ultimately have "1 - c \<in> set pre" by (cases pre) simp_all
          then show False using p(2) busy by blast
        qed
      qed
      then show ?thesis using p(3,4) c of_sb by blast
    next
      case 2
      then show ?thesis using two of_sb unfolding no_copy_def
        by (metis insert_iff less_2_cases One_nat_def)
    qed
  qed
qed

end

subsection \<open>The simulated card\<close>

definition sd_calm :: "nat \<Rightarrow> sparse_disk \<Rightarrow> bool" where
  "sd_calm n d \<longleftrightarrow> sd_powered d \<and> sd_plan d = None \<and> sd_total d = n \<and> EXTENT_AREA \<le> n"

interpretation sparse_calm: calm_device sparse_dev sd_good sd_powered sd_view sd_cands sd_torn "sd_calm n" n
  for n
proof unfold_locales
  fix d v d' and lba k :: nat
  assume "sd_good d" "sd_calm n d" "lba + k \<le> EXTENT_AREA" "bd_read sparse_dev lba k d = (v, d')"
  then show "v \<noteq> None \<and> sd_calm n d'"
    by (auto simp: sparse_dev_ops sd_read_def sd_begin_def sd_calm_def cut_is_def split: if_splits)
next
  fix d c d' assume "sd_good d" "sd_calm n d" "bd_block_count sparse_dev d = (c, d')"
  then show "c = Some n \<and> sd_calm n d'" by (auto simp: sparse_dev_def sd_calm_def)
qed

text \<open>A freshly initialized card: one superblock, an empty catalog in the first copy, its gate.\<close>

definition sample_sb :: superblock where
  "sample_sb = \<lparr>sb_store = zeros 16, total_blocks = 135168, sb_geometry = \<lparr>log2 = 20\<rparr>\<rparr>"

definition sample_header :: cat_header where
  "sample_header = \<lparr>h_store = zeros 16, h_sequence = 1, next_object = 1, h_entry_count = 0\<rparr>"

definition sample_disk :: sparse_disk where
  "sample_disk = sd_insert (sd_insert (sd_insert (sd_blank 135168 7) (SUPERBLOCK ! 0) (sb_encode sample_sb))
     (CATALOG ! 0) (cat_header_encode sample_header)) (catalog_gate 0) (gate_encode (copy_gate 0 sample_header []))"

definition sample_card :: "sparse_disk fstore" where
  "sample_card = sample_store\<lparr>fs_dev := sample_disk, fs_store := zeros 16\<rparr>"

lemma sample_lengths:
  "length (sb_encode sample_sb) = 512" "length (cat_header_encode sample_header) = 512"
  "length (gate_encode (copy_gate 0 sample_header [])) = 512"
proof -
  show "length (sb_encode sample_sb) = 512" by (simp add: sample_sb_def)
  show "length (cat_header_encode sample_header) = 512"
    by (rule length_header) (simp add: sample_header_def wf_cat_header_def)
  show "length (gate_encode (copy_gate 0 sample_header [])) = 512"
    using gate_encode_framed [of "copy_gate 0 sample_header []"] by (simp add: framed_def copy_gate_def sample_header_def)
qed

lemma sample_blocks:
  "sd_view sample_disk b = (if b = 544 then gate_encode (copy_gate 0 sample_header []) else if b = 64 then cat_header_encode sample_header
     else if b = 0 then sb_encode sample_sb else zeros BLOCK)"
  by (simp add: sample_disk_def sd_view_def sd_block_def sd_insert_def sd_blank_def SUPERBLOCK_def CATALOG_def catalog_gate_def CATALOG_GATE_BLOCK_def)

lemma sample_disk_good: "sd_good sample_disk" "sd_calm 135168 sample_disk" "sd_cands sample_disk b = {sd_view sample_disk b}"
  using sample_lengths
  by (auto simp: sample_disk_def sd_good_def sd_insert_def sd_blank_def sd_calm_def sd_cands_def sd_view_def sd_block_def fmt_consts)

lemma sample_sb_decodes: "card_superblock (sd_view sample_disk) = Some sample_sb"
proof -
  have "wf_superblock sample_sb"
    by (simp add: wf_superblock_def sample_sb_def wf_geometry_def extent_count_def extent_blocks_def extent_size_def fmt_consts)
  then have "sb_decode (sb_encode sample_sb) = Inr sample_sb" by (rule sb_roundtrip)
  then show ?thesis by (simp add: card_superblock_def sample_blocks SUPERBLOCK_def)
qed

lemma sample_gates:
  "card_gates (sd_view sample_disk) (zeros 16) = (Some (copy_gate 0 sample_header []), None)"
proof -
  have "gate_decode (gate_encode (copy_gate 0 sample_header [])) 0 (zeros 16) = Inr (copy_gate 0 sample_header [])"
    using gate_roundtrip [of "copy_gate 0 sample_header []" 0]
    by (simp add: wf_gate_def copy_gate_def sample_header_def)
  moreover have "gate_decode (zeros BLOCK) 1 (zeros 16) = Inl (DecodeError Gate Magic)"
    using invalidated_gate [of 1 "zeros 16"] by (simp add: INVALIDATED_def)
  ultimately show ?thesis by (simp add: card_gates_def sample_blocks catalog_gate_def CATALOG_def CATALOG_GATE_BLOCK_def)
qed

lemma sample_whole: "whole_copy (sd_view sample_disk) sample_card 0 (copy_gate 0 sample_header []) sample_header []"
proof -
  have "cat_header_decode (cat_header_encode sample_header) (zeros 16) = Inr sample_header"
    using cat_header_roundtrip [of sample_header] by (simp add: sample_header_def wf_cat_header_def)
  then show ?thesis
    by (simp add: whole_copy_def sample_card_def sample_blocks CATALOG_def copy_gate_def sample_header_def array_holds_def wf_catalog_def catalog_body_def)
qed

lemma sample_card_settled: "settled sd_cands 135168 sample_card []"
  unfolding settled_def
proof (intro allI impI)
  fix img assume "\<forall>b. img b \<in> sd_cands (fs_dev sample_card) b"
  then have img: "img = sd_view sample_disk" by (auto simp: sample_card_def sample_disk_good)
  have "of_superblock sample_card sample_sb"
    by (simp add: of_superblock_def sample_card_def sample_store_def sample_sb_def sb_extent_count_def extent_count_def
        extent_blocks_def extent_size_def fmt_consts)
  then show "\<exists>sb gate h. card_superblock img = Some sb \<and> of_superblock sample_card sb \<and> unat (total_blocks sb) \<le> 135168
        \<and> gate_of (card_gates img (fs_store sample_card)) (sv_copy (fs_served sample_card)) = Some gate
        \<and> g_sequence gate = sv_high_water (fs_served sample_card)
        \<and> whole_copy img sample_card (sv_copy (fs_served sample_card)) gate h []
        \<and> (\<forall>g. gate_of (card_gates img (fs_store sample_card)) (1 - sv_copy (fs_served sample_card)) = Some g \<longrightarrow> g_sequence g < g_sequence gate)"
    using sample_whole
    by (intro exI [of _ sample_sb] exI [of _ "copy_gate 0 sample_header []"] exI [of _ sample_header])
      (simp add: img sample_sb_decodes sample_gates, simp add: sample_card_def sample_store_def sample_sb_def copy_gate_def sample_header_def sample_gates)
qed

subsection \<open>Properties\<close>





end
