(* ===== verification/Link_Ids.thy ===== *)
theory Link_Ids
  imports Bytes
begin

text \<open>
  The vocabulary of the link protocol, \<open>firmware/obc-link/src/flat/ids.rs\<close>, and the types of the
  store seam as the engine declares them, \<open>store.rs\<close>: object kinds, entry flags, display names,
  entry metadata, modes, refusals and mutations. The newtypes \<open>ObjectId\<close>, \<open>Revision\<close> and
  \<open>RequestId\<close> are words; a \<open>StoreId\<close> is its 16 bytes.

  The card declares the same vocabulary a second time (\<open>Flat_Seam\<close>); nothing is shared between the
  two but the binder that translates one into the other.
\<close>

subsection \<open>Object kinds and entry flags\<close>

datatype link_kind =
    KRoute | KTrip | KRide | KMapShard | KMapSetManifest | KUpdatePackage | KRollbackReserve | KMetadata

definition lk_decode :: "u16 \<Rightarrow> link_kind option" where
  "lk_decode v =
     (if v = 1 then Some KRoute
      else if v = 2 then Some KTrip
      else if v = 3 then Some KRide
      else if v = 5 then Some KMapShard
      else if v = 6 then Some KMapSetManifest
      else if v = 7 then Some KUpdatePackage
      else if v = 8 then Some KRollbackReserve
      else if v = 9 then Some KMetadata
      else None)"

fun lk_value :: "link_kind \<Rightarrow> u16" where
  "lk_value KRoute = 1"
| "lk_value KTrip = 2"
| "lk_value KRide = 3"
| "lk_value KMapShard = 5"
| "lk_value KMapSetManifest = 6"
| "lk_value KUpdatePackage = 7"
| "lk_value KRollbackReserve = 8"
| "lk_value KMetadata = 9"

definition is_device_owned :: "link_kind \<Rightarrow> bool" where
  "is_device_owned k \<longleftrightarrow> k = KRide \<or> k = KRollbackReserve \<or> k = KMetadata"

definition LF_NONE :: u16 where "LF_NONE = 0"
definition LF_RECORDING :: u16 where "LF_RECORDING = 1"
definition LF_RETAINED :: u16 where "LF_RETAINED = 2"
definition LF_RESERVED :: u16 where "LF_RESERVED = 4"
definition LF_ASSISTANT_ACCEPTED :: u16 where "LF_ASSISTANT_ACCEPTED = 8"
definition LF_DEFINED :: u16 where "LF_DEFINED = 0b1111"

definition lf_decode :: "u16 \<Rightarrow> u16 option" where
  "lf_decode v = (if v AND NOT LF_DEFINED = 0 then Some v else None)"

definition lf_has :: "u16 \<Rightarrow> u16 \<Rightarrow> bool" where
  "lf_has f g \<longleftrightarrow> f AND g = g"

definition lf_with :: "u16 \<Rightarrow> u16 \<Rightarrow> u16" where
  "lf_with f g = f OR g"

definition lf_is_route_head :: "u16 \<Rightarrow> bool" where
  "lf_is_route_head f \<longleftrightarrow> f = LF_NONE \<or> f = LF_ASSISTANT_ACCEPTED"

definition is_untouchable :: "u16 \<Rightarrow> bool" where
  "is_untouchable f \<longleftrightarrow> lf_has f LF_RECORDING \<or> lf_has f LF_RESERVED"

text \<open>\<open>Revision::next\<close>: the end of the space has no successor.\<close>

definition revision_next :: "u64 \<Rightarrow> u64 option" where
  "revision_next r = (if r = - 1 then None else Some (r + 1))"

definition id_is_some :: "u64 \<Rightarrow> bool" where
  "id_is_some i \<longleftrightarrow> i \<noteq> 0"

subsection \<open>Display names\<close>

definition LINK_NAME :: nat where "LINK_NAME = 48"

record link_name =
  ln_bytes :: bytes
  ln_len :: u8

definition ln_default :: link_name where
  "ln_default = \<lparr>ln_bytes = zeros LINK_NAME, ln_len = 0\<rparr>"

definition ln_from_bytes :: "bytes \<Rightarrow> link_name option" where
  "ln_from_bytes txt =
     (if length txt > LINK_NAME then None
      else Some (ln_default\<lparr>ln_bytes := put_bytes (ln_bytes ln_default) 0 txt,
                           ln_len := of_nat (length txt)\<rparr>))"

definition ln_as_bytes :: "link_name \<Rightarrow> bytes" where
  "ln_as_bytes n = take (unat (ln_len n)) (ln_bytes n)"

text \<open>What \<open>from_bytes\<close> establishes: 48 bytes with a zero pad.\<close>

definition wf_link_name :: "link_name \<Rightarrow> bool" where
  "wf_link_name n \<longleftrightarrow> length (ln_bytes n) = LINK_NAME \<and> unat (ln_len n) \<le> LINK_NAME
     \<and> is_zero (ln_bytes n) (unat (ln_len n)) (LINK_NAME - unat (ln_len n))"

text \<open>
  \<open>core::str::from_utf8(..).is_ok()\<close>: the well-formed byte sequences of the Unicode standard, with
  no overlong form, no surrogate and nothing above \<open>U+10FFFF\<close>.
\<close>

definition continuation :: "u8 \<Rightarrow> bool" where
  "continuation b \<longleftrightarrow> 0x80 \<le> b \<and> b \<le> 0xBF"

fun utf8_ok :: "bytes \<Rightarrow> bool" where
  "utf8_ok [] = True"
| "utf8_ok (a # bs) =
     (if a < 0x80 then utf8_ok bs
      else if 0xC2 \<le> a \<and> a \<le> 0xDF then
        (case bs of b # r \<Rightarrow> continuation b \<and> utf8_ok r | _ \<Rightarrow> False)
      else if 0xE0 \<le> a \<and> a \<le> 0xEF then
        (case bs of b # c # r \<Rightarrow>
             continuation b \<and> (a = 0xE0 \<longrightarrow> 0xA0 \<le> b) \<and> (a = 0xED \<longrightarrow> b \<le> 0x9F) \<and> continuation c \<and> utf8_ok r
         | _ \<Rightarrow> False)
      else if 0xF0 \<le> a \<and> a \<le> 0xF4 then
        (case bs of b # c # d # r \<Rightarrow>
             continuation b \<and> (a = 0xF0 \<longrightarrow> 0x90 \<le> b) \<and> (a = 0xF4 \<longrightarrow> b \<le> 0x8F)
             \<and> continuation c \<and> continuation d \<and> utf8_ok r
         | _ \<Rightarrow> False)
      else False)"

subsection \<open>Entries, mutations and what the seam fails with\<close>

record link_meta =
  m_id :: u64
  m_rev :: u64
  m_kind :: link_kind
  m_flags :: u16
  m_len :: u64
  m_crc :: u32
  m_name :: link_name

text \<open>The tuple order of \<open>(ObjectId, Revision)\<close>.\<close>

definition lkey_le :: "u64 \<times> u64 \<Rightarrow> u64 \<times> u64 \<Rightarrow> bool" where
  "lkey_le a b \<longleftrightarrow> fst a < fst b \<or> fst a = fst b \<and> snd a \<le> snd b"

definition lm_key :: "link_meta \<Rightarrow> u64 \<times> u64" where
  "lm_key m = (m_id m, m_rev m)"

datatype link_mode =
    LReadWrite | LRevisionSpaceExhausted | LSequenceSpaceExhausted | LCatalogUnreadable
  | LUnformatted | LCardTooSmall

definition l_writable :: "link_mode \<Rightarrow> bool" where
  "l_writable m \<longleftrightarrow> m = LReadWrite"

definition l_readable :: "link_mode \<Rightarrow> bool" where
  "l_readable m \<longleftrightarrow> m = LReadWrite \<or> m = LRevisionSpaceExhausted \<or> m = LSequenceSpaceExhausted"

datatype link_error =
    LNotFound | LRevisionConflict u64 | LNoSpace u64 | LTooFragmented | LCatalogFull | LInvalid
  | LMedia | LReadOnly | LBusy

datatype 'a link_source = LFresh 'a | LAmend

datatype 'a link_mutation = LPut link_meta "'a link_source" | LRemove u64 u64

record archive_source =
  as_store :: bytes
  as_id :: u64
  as_rev :: u64
  as_len :: u64
  as_crc :: u32

record archive_result =
  ar_sequence :: u64
  ar_timestamp :: u32

datatype archive_error = AUnsupported | ASourceMismatch | AStore link_error

subsection \<open>Lemmas\<close>

lemmas link_flag_defs = LF_NONE_def LF_RECORDING_def LF_RETAINED_def LF_RESERVED_def
  LF_ASSISTANT_ACCEPTED_def LF_DEFINED_def

lemma lk_decode_value [simp]: "lk_decode (lk_value k) = Some k"
  by (cases k) (simp_all add: lk_decode_def)

lemma lk_decode_Some: "lk_decode v = Some k \<longleftrightarrow> v = lk_value k"
  by (cases k) (auto simp: lk_decode_def split: if_splits)

lemma lk_value_nz [simp]: "lk_value k \<noteq> 0"
  by (cases k) simp_all

lemma lk_value_inject [simp]: "lk_value k = lk_value k' \<longleftrightarrow> k = k'"
  by (metis lk_decode_value option.inject)

lemma lf_decode_Some: "lf_decode v = Some f \<longleftrightarrow> v = f \<and> f AND NOT LF_DEFINED = 0"
  by (auto simp: lf_decode_def)

lemma wf_ln_default [simp]: "wf_link_name ln_default"
  by (simp add: wf_link_name_def ln_default_def LINK_NAME_def codec_simps)

lemma ln_from_field:
  assumes "length field = LINK_NAME" and "unat l \<le> LINK_NAME" and "is_zero field (unat l) (LINK_NAME - unat l)"
  shows "ln_from_bytes (take (unat l) field) = Some \<lparr>ln_bytes = field, ln_len = l\<rparr>"
proof -
  have "slice (unat l) (LINK_NAME - unat l) field = zeros (LINK_NAME - unat l)"
    using assms by (simp add: is_zero_iff)
  then have "drop (unat l) field = zeros (LINK_NAME - unat l)"
    using assms(1) by (simp add: slice_def)
  then have "put_bytes (zeros LINK_NAME) 0 (take (unat l) field) = field"
    using assms(1,2) append_take_drop_id [of "unat l" field] by (simp add: put_bytes_def min_def zeros_def)
  moreover have "min LINK_NAME (unat l) = unat l" using assms(2) by simp
  ultimately show ?thesis using assms(1,2) by (simp add: ln_from_bytes_def ln_default_def)
qed

end
