(* ===== verification/Link_Wire.thy ===== *)
theory Link_Wire
  imports Link_Ids
begin

text \<open>
  The bytes of the link protocol, \<open>firmware/obc-link/src/flat/wire.rs\<close> and its client half
  \<open>wire/client.rs\<close>: the control frame, the nine requests, the responses, the error body and the
  stream frame. A decoder returns a typed message or a typed refusal; an encoder writes into the
  caller's buffer and returns the length with the buffer it left, or \<open>None\<close> when the frame does
  not fit, in which case it has written nothing.
\<close>

definition WIRE_MAJOR :: u8 where "WIRE_MAJOR = 4"

text \<open>\<open>b"OBC4"\<close>.\<close>

definition WIRE_MAGIC :: bytes where "WIRE_MAGIC = [0x4F, 0x42, 0x43, 0x34]"

definition HEADER_LEN :: nat where "HEADER_LEN = 16"
definition STREAM_HEADER_LEN :: nat where "STREAM_HEADER_LEN = 16"
definition ERROR_BODY_LEN :: nat where "ERROR_BODY_LEN = 16"
definition LIST_PREFIX_LEN :: nat where "LIST_PREFIX_LEN = 24"
definition LIST_ENTRY_LEN :: nat where "LIST_ENTRY_LEN = 88"
definition CONTROL_FLOOR :: nat where "CONTROL_FLOOR = HEADER_LEN + LIST_PREFIX_LEN + LIST_ENTRY_LEN"

lemmas wire_consts = HEADER_LEN_def STREAM_HEADER_LEN_def ERROR_BODY_LEN_def LIST_PREFIX_LEN_def
  LIST_ENTRY_LEN_def CONTROL_FLOOR_def LINK_NAME_def

subsection \<open>Opcodes, errors and refusals\<close>

datatype opcode = OpList | OpStatus | OpGet | OpPut | OpRemove | OpCancel | OpArm | OpFormat | OpArchiveRide

definition op_decode :: "u8 \<Rightarrow> opcode option" where
  "op_decode v =
     (if v = 1 then Some OpList
      else if v = 2 then Some OpStatus
      else if v = 3 then Some OpGet
      else if v = 4 then Some OpPut
      else if v = 5 then Some OpRemove
      else if v = 6 then Some OpCancel
      else if v = 7 then Some OpArm
      else if v = 8 then Some OpFormat
      else if v = 9 then Some OpArchiveRide
      else None)"

fun op_value :: "opcode \<Rightarrow> u8" where
  "op_value OpList = 1"
| "op_value OpStatus = 2"
| "op_value OpGet = 3"
| "op_value OpPut = 4"
| "op_value OpRemove = 5"
| "op_value OpCancel = 6"
| "op_value OpArm = 7"
| "op_value OpFormat = 8"
| "op_value OpArchiveRide = 9"

fun request_body_len :: "opcode \<Rightarrow> nat" where
  "request_body_len OpList = 32"
| "request_body_len OpStatus = 16"
| "request_body_len OpGet = 16"
| "request_body_len OpPut = 84"
| "request_body_len OpRemove = 16"
| "request_body_len OpCancel = 4"
| "request_body_len OpArm = 16"
| "request_body_len OpFormat = 32"
| "request_body_len OpArchiveRide = 44"

definition FLAG_RESPONSE :: u16 where "FLAG_RESPONSE = 1"
definition FLAG_ERROR :: u16 where "FLAG_ERROR = 2"
definition FLAG_MORE :: u16 where "FLAG_MORE = 4"

lemmas frame_flag_defs = FLAG_RESPONSE_def FLAG_ERROR_def FLAG_MORE_def

datatype error_code =
    Unsupported | InvalidFrame | InvalidRequest | ENotFound | ERevisionConflict | ENoSpace
  | ChecksumFailure | MediaIo | EBusy | Cancelled | Rejected | Internal | CatalogChanged | EReadOnly

fun code_value :: "error_code \<Rightarrow> u16" where
  "code_value Unsupported = 1"
| "code_value InvalidFrame = 2"
| "code_value InvalidRequest = 3"
| "code_value ENotFound = 4"
| "code_value ERevisionConflict = 5"
| "code_value ENoSpace = 6"
| "code_value ChecksumFailure = 7"
| "code_value MediaIo = 8"
| "code_value EBusy = 9"
| "code_value Cancelled = 10"
| "code_value Rejected = 11"
| "code_value Internal = 12"
| "code_value CatalogChanged = 13"
| "code_value EReadOnly = 14"

definition code_decode :: "u16 \<Rightarrow> error_code option" where
  "code_decode v =
     (if v = 1 then Some Unsupported
      else if v = 2 then Some InvalidFrame
      else if v = 3 then Some InvalidRequest
      else if v = 4 then Some ENotFound
      else if v = 5 then Some ERevisionConflict
      else if v = 6 then Some ENoSpace
      else if v = 7 then Some ChecksumFailure
      else if v = 8 then Some MediaIo
      else if v = 9 then Some EBusy
      else if v = 10 then Some Cancelled
      else if v = 11 then Some Rejected
      else if v = 12 then Some Internal
      else if v = 13 then Some CatalogChanged
      else if v = 14 then Some EReadOnly
      else None)"

text \<open>The details, scoped by their code.\<close>

definition D_OPCODE :: u16 where "D_OPCODE = 1"
definition D_KIND :: u16 where "D_KIND = 2"
definition D_WIRE_MAJOR :: u16 where "D_WIRE_MAJOR = 3"
definition D_MAGIC :: u16 where "D_MAGIC = 1"
definition D_LENGTH :: u16 where "D_LENGTH = 2"
definition D_TRUNCATED :: u16 where "D_TRUNCATED = 3"
definition D_TRAILING :: u16 where "D_TRAILING = 4"
definition D_RESERVED_BITS :: u16 where "D_RESERVED_BITS = 1"
definition D_BAD_COMBINATION :: u16 where "D_BAD_COMBINATION = 3"
definition D_STREAM_OFFSET :: u16 where "D_STREAM_OFFSET = 4"
definition D_OBJECT :: u16 where "D_OBJECT = 1"
definition D_REVISION :: u16 where "D_REVISION = 2"
definition D_HEAD_DIFFERS :: u16 where "D_HEAD_DIFFERS = 1"
definition D_HEAD_ABSENT :: u16 where "D_HEAD_ABSENT = 2"
definition D_EXTENTS :: u16 where "D_EXTENTS = 1"
definition D_CATALOG_FULL :: u16 where "D_CATALOG_FULL = 2"
definition D_TOO_FRAGMENTED :: u16 where "D_TOO_FRAGMENTED = 3"
definition D_PAYLOAD :: u16 where "D_PAYLOAD = 1"
definition D_READ :: u16 where "D_READ = 1"
definition D_WRITE :: u16 where "D_WRITE = 2"
definition D_SYNC :: u16 where "D_SYNC = 3"
definition D_TRANSFER :: u16 where "D_TRANSFER = 1"
definition D_HOLDS :: u16 where "D_HOLDS = 2"
definition D_BY_CLIENT :: u16 where "D_BY_CLIENT = 1"
definition D_BY_DEVICE :: u16 where "D_BY_DEVICE = 2"
definition D_LINK_LOST :: u16 where "D_LINK_LOST = 3"
definition D_LISTING :: u16 where "D_LISTING = 1"
definition D_CATALOG_UNREADABLE :: u16 where "D_CATALOG_UNREADABLE = 1"
definition D_REVISION_SPACE_EXHAUSTED :: u16 where "D_REVISION_SPACE_EXHAUSTED = 2"
definition D_UNFORMATTED :: u16 where "D_UNFORMATTED = 3"

record refusal =
  rf_code :: error_code
  rf_detail :: u16
  rf_context :: u64

definition rf_plain :: "error_code \<Rightarrow> refusal" where
  "rf_plain c = \<lparr>rf_code = c, rf_detail = 0, rf_context = 0\<rparr>"

definition rf_new :: "error_code \<Rightarrow> u16 \<Rightarrow> refusal" where
  "rf_new c d = \<lparr>rf_code = c, rf_detail = d, rf_context = 0\<rparr>"

definition rf_with_context :: "error_code \<Rightarrow> u16 \<Rightarrow> u64 \<Rightarrow> refusal" where
  "rf_with_context c d x = \<lparr>rf_code = c, rf_detail = d, rf_context = x\<rparr>"

definition rf_encode :: "refusal \<Rightarrow> bytes" where
  "rf_encode r =
     put_u64 (put_u16 (put_u16 (zeros ERROR_BODY_LEN) 0 (code_value (rf_code r))) 2 (rf_detail r)) 4 (rf_context r)"

definition rf_decode :: "bytes \<Rightarrow> refusal option" where
  "rf_decode body =
     (if length body \<noteq> ERROR_BODY_LEN \<or> \<not> is_zero body 12 4 then None
      else case code_decode (u16_at body 0) of
          None \<Rightarrow> None
        | Some c \<Rightarrow> Some \<lparr>rf_code = c, rf_detail = u16_at body 2, rf_context = u64_at body 4\<rparr>)"

definition reserved_bits :: refusal where
  "reserved_bits = rf_new InvalidRequest D_RESERVED_BITS"

definition bad_combination :: refusal where
  "bad_combination = rf_new InvalidRequest D_BAD_COMBINATION"

datatype control_error = Unanswerable | Refused u32 refusal

subsection \<open>Requests\<close>

record header =
  hd_opcode :: opcode
  hd_request :: u32

record list_cursor =
  lc_id :: u64
  lc_rev :: u64
  lc_sequence :: u64

record list_request =
  lr_kind :: "link_kind option"
  lr_cursor :: "list_cursor option"

record status_request =
  sr_id :: u64
  sr_rev :: u64

record get_request =
  gr_id :: u64
  gr_rev :: u64

record put_request =
  pr_id :: u64
  pr_expected :: u64
  pr_len :: u64
  pr_crc :: u32
  pr_kind :: link_kind
  pr_name :: link_name

record remove_request =
  rr_id' :: u64
  rr_expected :: u64

record arm_request =
  am_package :: u64
  am_expected :: u64

record format_request =
  fr_expected :: bytes
  fr_replacement :: bytes

text \<open>A cancel request is the identifier of the transfer it names.\<close>

datatype request =
    ReqList list_request | ReqStatus status_request | ReqGet get_request | ReqPut put_request
  | ReqRemove remove_request | ReqCancel u32 | ReqArm arm_request | ReqFormat format_request
  | ReqArchive archive_source

fun request_opcode :: "request \<Rightarrow> opcode" where
  "request_opcode (ReqList _) = OpList"
| "request_opcode (ReqStatus _) = OpStatus"
| "request_opcode (ReqGet _) = OpGet"
| "request_opcode (ReqPut _) = OpPut"
| "request_opcode (ReqRemove _) = OpRemove"
| "request_opcode (ReqCancel _) = OpCancel"
| "request_opcode (ReqArm _) = OpArm"
| "request_opcode (ReqFormat _) = OpFormat"
| "request_opcode (ReqArchive _) = OpArchiveRide"

definition decode_archive :: "bytes \<Rightarrow> refusal + archive_source" where
  "decode_archive body =
     (let source = \<lparr>as_store = bytes16_at body 0, as_id = u64_at body 16, as_rev = u64_at body 24,
                    as_len = u64_at body 32, as_crc = u32_at body 40\<rparr> in
      if as_store source = zeros 16 \<or> as_id source = 0 \<or> as_rev source = 0 \<or> as_len source = 0
      then Inl bad_combination else Inr source)"

definition decode_list :: "bytes \<Rightarrow> refusal + list_request" where
  "decode_list body =
     (let filt = u16_at body 0; flags = u16_at body 2;
          cursor = \<lparr>lc_id = u64_at body 8, lc_rev = u64_at body 16, lc_sequence = u64_at body 24\<rparr> in
      bindE (if filt = 0 then Inr None
             else case lk_decode filt of Some k \<Rightarrow> Inr (Some k) | None \<Rightarrow> Inl (rf_new Unsupported D_KIND)) (\<lambda>k.
      if flags AND NOT 1 \<noteq> 0 \<or> \<not> is_zero body 4 4 then Inl reserved_bits
      else if flags AND 1 = 0 then
        (if lc_id cursor \<noteq> 0 \<or> lc_rev cursor \<noteq> 0 \<or> lc_sequence cursor \<noteq> 0 then Inl bad_combination
         else Inr \<lparr>lr_kind = k, lr_cursor = None\<rparr>)
      else Inr \<lparr>lr_kind = k, lr_cursor = Some cursor\<rparr>))"

definition decode_status :: "bytes \<Rightarrow> refusal + status_request" where
  "decode_status body =
     (if \<not> id_is_some (u64_at body 0) then Inl bad_combination
      else Inr \<lparr>sr_id = u64_at body 0, sr_rev = u64_at body 8\<rparr>)"

definition decode_get :: "bytes \<Rightarrow> refusal + get_request" where
  "decode_get body = Inr \<lparr>gr_id = u64_at body 0, gr_rev = u64_at body 8\<rparr>"

text \<open>The 49-byte name field shared by \<open>LIST\<close> and \<open>PUT\<close>; \<open>field\<close> is its 48 bytes.\<close>

definition decode_name :: "u8 \<Rightarrow> bytes \<Rightarrow> refusal + link_name" where
  "decode_name len field =
     (let n = unat len in
      if n > LINK_NAME then Inl bad_combination
      else if \<not> is_zero field n (LINK_NAME - n) then Inl reserved_bits
      else if \<not> utf8_ok (take n field) then Inl bad_combination
      else ok_or (ln_from_bytes (take n field)) bad_combination)"

definition decode_put :: "bytes \<Rightarrow> refusal + put_request" where
  "decode_put body =
     (let i = u64_at body 0; expected = u64_at body 8 in
      if id_is_some i \<noteq> (expected \<noteq> 0) then Inl bad_combination
      else case lk_decode (u16_at body 28) of
          None \<Rightarrow> Inl (rf_new Unsupported D_KIND)
        | Some k \<Rightarrow>
            if u16_at body 30 \<noteq> 0 \<or> \<not> is_zero body 33 3 then Inl reserved_bits
            else bindE (decode_name (body ! 32) (slice 36 LINK_NAME body)) (\<lambda>n.
              Inr \<lparr>pr_id = i, pr_expected = expected, pr_len = u64_at body 16, pr_crc = u32_at body 24,
                   pr_kind = k, pr_name = n\<rparr>))"

definition decode_remove :: "bytes \<Rightarrow> refusal + remove_request" where
  "decode_remove body = Inr \<lparr>rr_id' = u64_at body 0, rr_expected = u64_at body 8\<rparr>"

definition decode_cancel :: "bytes \<Rightarrow> refusal + u32" where
  "decode_cancel body = Inr (u32_at body 0)"

definition decode_arm :: "bytes \<Rightarrow> refusal + arm_request" where
  "decode_arm body = Inr \<lparr>am_package = u64_at body 0, am_expected = u64_at body 8\<rparr>"

definition decode_format :: "bytes \<Rightarrow> refusal + format_request" where
  "decode_format body =
     (let expected = bytes16_at body 0; replacement = bytes16_at body 16 in
      if replacement = zeros 16 \<or> replacement = expected then Inl bad_combination
      else Inr \<lparr>fr_expected = expected, fr_replacement = replacement\<rparr>)"

fun decode_body :: "opcode \<Rightarrow> bytes \<Rightarrow> refusal + request" where
  "decode_body OpList body = map_sum id ReqList (decode_list body)"
| "decode_body OpStatus body = map_sum id ReqStatus (decode_status body)"
| "decode_body OpGet body = map_sum id ReqGet (decode_get body)"
| "decode_body OpPut body = map_sum id ReqPut (decode_put body)"
| "decode_body OpRemove body = map_sum id ReqRemove (decode_remove body)"
| "decode_body OpCancel body = map_sum id ReqCancel (decode_cancel body)"
| "decode_body OpArm body = map_sum id ReqArm (decode_arm body)"
| "decode_body OpFormat body = map_sum id ReqFormat (decode_format body)"
| "decode_body OpArchiveRide body = map_sum id ReqArchive (decode_archive body)"

definition decode_request :: "bytes \<Rightarrow> control_error + header \<times> request" where
  "decode_request rec =
     (if length rec < HEADER_LEN then Inl Unanswerable
      else let req = u32_at rec 12; refuse = (\<lambda>r. Inl (Refused req r)) in
      if req = 0 then Inl Unanswerable
      else if slice 0 4 rec \<noteq> WIRE_MAGIC then refuse (rf_new InvalidFrame D_MAGIC)
      else if rec ! 4 \<noteq> WIRE_MAJOR then refuse (rf_new Unsupported D_WIRE_MAJOR)
      else case op_decode (rec ! 5) of
          None \<Rightarrow> refuse (rf_new Unsupported D_OPCODE)
        | Some opc \<Rightarrow>
            if u16_at rec 6 \<noteq> 0 \<or> u16_at rec 10 \<noteq> 0 then refuse reserved_bits
            else if unat (u16_at rec 8) \<noteq> request_body_len opc then refuse (rf_new InvalidFrame D_LENGTH)
            else if length rec - HEADER_LEN < unat (u16_at rec 8) then refuse (rf_new InvalidFrame D_TRUNCATED)
            else if length rec - HEADER_LEN > unat (u16_at rec 8) then refuse (rf_new InvalidFrame D_TRAILING)
            else case decode_body opc (drop HEADER_LEN rec) of
                Inr m \<Rightarrow> Inr (\<lparr>hd_opcode = opc, hd_request = req\<rparr>, m)
              | Inl r \<Rightarrow> refuse r)"

subsection \<open>Writing a frame\<close>

text \<open>Overwrites the head of the caller's buffer; \<open>None\<close> leaves it as it was.\<close>

definition write_header :: "bytes \<Rightarrow> opcode \<Rightarrow> u16 \<Rightarrow> nat \<Rightarrow> u32 \<Rightarrow> (nat \<times> bytes) option" where
  "write_header out opc flags payload req =
     (let n = HEADER_LEN + payload in
      if length out < n \<or> payload > 65535 then None
      else Some (n,
        put_u32 (put_u16 (put_u16 (put_u16 (put_u8 (put_u8 (put_bytes out 0 WIRE_MAGIC) 4 WIRE_MAJOR)
          5 (op_value opc)) 6 flags) 8 (of_nat payload)) 10 0) 12 req))"

text \<open>A frame whose body, \<open>out[16..total]\<close>, is overwritten as a whole.\<close>

definition write_frame :: "bytes \<Rightarrow> opcode \<Rightarrow> u16 \<Rightarrow> bytes \<Rightarrow> u32 \<Rightarrow> (nat \<times> bytes) option" where
  "write_frame out opc flags body req =
     map_option (\<lambda>(n, out'). (n, put_bytes out' HEADER_LEN body))
       (write_header out opc flags (length body) req)"

definition encode_error :: "bytes \<Rightarrow> opcode \<Rightarrow> u32 \<Rightarrow> refusal \<Rightarrow> (nat \<times> bytes) option" where
  "encode_error out opc req r = write_frame out opc (FLAG_RESPONSE OR FLAG_ERROR) (rf_encode r) req"

datatype object_state = Absent | Committed | Superseded

fun state_value :: "object_state \<Rightarrow> u8" where
  "state_value Absent = 0"
| "state_value Committed = 1"
| "state_value Superseded = 2"

record status_response =
  st_state :: object_state
  st_rev :: u64
  st_len :: u64
  st_crc :: u32

definition status_absent :: status_response where
  "status_absent = \<lparr>st_state = Absent, st_rev = 0, st_len = 0, st_crc = 0\<rparr>"

definition encode_status :: "bytes \<Rightarrow> u32 \<Rightarrow> status_response \<Rightarrow> (nat \<times> bytes) option" where
  "encode_status out req a =
     write_frame out OpStatus FLAG_RESPONSE
       (put_u32 (put_u64 (put_u64 (put_u8 (zeros 24) 0 (state_value (st_state a))) 4 (st_rev a))
          12 (st_len a)) 20 (st_crc a)) req"

definition encode_get :: "bytes \<Rightarrow> u32 \<Rightarrow> u64 \<Rightarrow> u64 \<Rightarrow> u32 \<Rightarrow> (nat \<times> bytes) option" where
  "encode_get out req revision plen crc =
     write_frame out OpGet FLAG_RESPONSE
       (put_u32 (put_u64 (put_u64 (zeros 24) 0 revision) 8 plen) 16 crc) req"

definition encode_put :: "bytes \<Rightarrow> u32 \<Rightarrow> u64 \<Rightarrow> u64 \<Rightarrow> u64 \<Rightarrow> u32 \<Rightarrow> (nat \<times> bytes) option" where
  "encode_put out req i revision plen crc =
     write_frame out OpPut FLAG_RESPONSE
       (put_u32 (put_u64 (put_u64 (put_u64 (zeros 32) 0 i) 8 revision) 16 plen) 24 crc) req"

definition encode_remove :: "bytes \<Rightarrow> u32 \<Rightarrow> u64 \<Rightarrow> (nat \<times> bytes) option" where
  "encode_remove out req sequence = write_frame out OpRemove FLAG_RESPONSE (le64 sequence) req"

definition encode_cancel :: "bytes \<Rightarrow> u32 \<Rightarrow> bool \<Rightarrow> (nat \<times> bytes) option" where
  "encode_cancel out req cancelled = write_frame out OpCancel FLAG_RESPONSE [if cancelled then 0 else 1] req"

definition encode_arm :: "bytes \<Rightarrow> u32 \<Rightarrow> u64 \<Rightarrow> u64 \<Rightarrow> (nat \<times> bytes) option" where
  "encode_arm out req reserve sequence =
     write_frame out OpArm FLAG_RESPONSE (le64 reserve @ le64 sequence) req"

definition encode_format :: "bytes \<Rightarrow> u32 \<Rightarrow> bytes \<Rightarrow> (nat \<times> bytes) option" where
  "encode_format out req store = write_frame out OpFormat FLAG_RESPONSE store req"

definition encode_archive :: "bytes \<Rightarrow> u32 \<Rightarrow> archive_result \<Rightarrow> (nat \<times> bytes) option" where
  "encode_archive out req a =
     write_frame out OpArchiveRide FLAG_RESPONSE
       (put_u32 (put_u64 (zeros 16) 0 (ar_sequence a)) 8 (ar_timestamp a)) req"

subsection \<open>LIST pages\<close>

record list_writer =
  lw_ceiling :: nat
  lw_filled :: nat

definition lw_start :: "bytes \<Rightarrow> nat \<Rightarrow> bytes \<Rightarrow> u64 \<Rightarrow> (list_writer \<times> bytes) option" where
  "lw_start out ceiling store sequence =
     (let ceiling = min ceiling (length out) in
      if ceiling < CONTROL_FLOOR then None
      else Some (\<lparr>lw_ceiling = ceiling, lw_filled = LIST_PREFIX_LEN\<rparr>,
        put_u64 (put_bytes out HEADER_LEN store) (HEADER_LEN + 16) sequence))"

definition lw_room :: "list_writer \<Rightarrow> nat" where
  "lw_room w = (lw_ceiling w - HEADER_LEN - lw_filled w) div LIST_ENTRY_LEN"

text \<open>The 88 bytes of an entry, from a zeroed field.\<close>

definition list_entry :: "link_meta \<Rightarrow> bytes" where
  "list_entry m =
     put_bytes (put_u8 (put_u16 (put_u16 (put_u32 (put_u64 (put_u64 (put_u64 (zeros LIST_ENTRY_LEN)
       0 (m_id m)) 8 (m_rev m)) 16 (m_len m)) 24 (m_crc m)) 28 (lk_value (m_kind m))) 30 (m_flags m))
       32 (ln_len (m_name m))) 36 (ln_bytes (m_name m))"

definition lw_push :: "list_writer \<Rightarrow> bytes \<Rightarrow> link_meta \<Rightarrow> bool \<times> list_writer \<times> bytes" where
  "lw_push w out m =
     (if lw_room w = 0 then (False, w, out)
      else (True, w\<lparr>lw_filled := lw_filled w + LIST_ENTRY_LEN\<rparr>,
            put_bytes out (HEADER_LEN + lw_filled w) (list_entry m)))"

definition lw_finish :: "list_writer \<Rightarrow> bytes \<Rightarrow> u32 \<Rightarrow> bool \<Rightarrow> (nat \<times> bytes) option" where
  "lw_finish w out req has_more =
     write_header out OpList (FLAG_RESPONSE OR (if has_more then FLAG_MORE else 0)) (lw_filled w) req"

subsection \<open>The client half\<close>

text \<open>\<open>encode_request\<close>: the body by opcode over a zeroed body, then a decode of its own record.\<close>

definition pair_at :: "bytes \<Rightarrow> nat \<Rightarrow> u64 \<Rightarrow> u64 \<Rightarrow> bytes" where
  "pair_at body off i revision = put_u64 (put_u64 body off i) (off + 8) revision"

fun request_body :: "request \<Rightarrow> bytes" where
  "request_body (ReqList r) =
     (let body = put_u16 (zeros 32) 0 (case lr_kind r of None \<Rightarrow> 0 | Some k \<Rightarrow> lk_value k) in
      case lr_cursor r of None \<Rightarrow> body
      | Some c \<Rightarrow> put_u64 (put_u64 (put_u64 (put_u16 body 2 1) 8 (lc_id c)) 16 (lc_rev c)) 24 (lc_sequence c))"
| "request_body (ReqStatus r) = pair_at (zeros 16) 0 (sr_id r) (sr_rev r)"
| "request_body (ReqGet r) = pair_at (zeros 16) 0 (gr_id r) (gr_rev r)"
| "request_body (ReqPut r) =
     put_bytes (put_u8 (put_u16 (put_u32 (put_u64 (pair_at (zeros 84) 0 (pr_id r) (pr_expected r))
       16 (pr_len r)) 24 (pr_crc r)) 28 (lk_value (pr_kind r))) 32 (ln_len (pr_name r))) 36 (ln_bytes (pr_name r))"
| "request_body (ReqRemove r) = pair_at (zeros 16) 0 (rr_id' r) (rr_expected r)"
| "request_body (ReqCancel t) = put_u32 (zeros 4) 0 t"
| "request_body (ReqArm r) = pair_at (zeros 16) 0 (am_package r) (am_expected r)"
| "request_body (ReqFormat r) = put_bytes (put_bytes (zeros 32) 0 (fr_expected r)) 16 (fr_replacement r)"
| "request_body (ReqArchive r) =
     put_u32 (put_u64 (pair_at (put_bytes (zeros 44) 0 (as_store r)) 16 (as_id r) (as_rev r)) 32 (as_len r)) 40 (as_crc r)"

text \<open>The length, if the record is a request, and the buffer as it was left.\<close>

definition encode_request :: "bytes \<Rightarrow> u32 \<Rightarrow> request \<Rightarrow> nat option \<times> bytes" where
  "encode_request out i r =
     (if i = 0 then (None, out)
      else case write_header out (request_opcode r) 0 (request_body_len (request_opcode r)) i of
          None \<Rightarrow> (None, out)
        | Some (n, out1) \<Rightarrow>
            let out2 = put_bytes out1 HEADER_LEN (request_body r) in
            (case decode_request (take n out2) of
               Inl _ \<Rightarrow> (None, out2) | Inr _ \<Rightarrow> (Some n, out2)))"

datatype response_error = RInvalidFrame | RUnsupported

record transfer_response =
  tr_id :: u64
  tr_rev :: u64
  tr_len :: u64
  tr_crc :: u32

record list_page =
  pg_store :: bytes
  pg_sequence :: u64
  pg_more :: bool
  pg_entries :: bytes

datatype response =
    RespList list_page | RespStatus status_response | RespGet transfer_response | RespPut transfer_response
  | RespRemove u64 | RespCancel bool | RespArm u64 u64 | RespFormat bytes | RespArchive archive_result
  | RespError refusal

definition decode_entry :: "bytes \<Rightarrow> link_meta option" where
  "decode_entry bs =
     (if \<not> is_zero bs 33 3 \<or> \<not> is_zero bs 84 4 then None
      else case (lk_decode (u16_at bs 28), lf_decode (u16_at bs 30), decode_name (bs ! 32) (slice 36 48 bs)) of
          (Some k, Some f, Inr n) \<Rightarrow>
            (if u64_at bs 0 \<noteq> 0 \<and> u64_at bs 8 \<noteq> 0
             then Some \<lparr>m_id = u64_at bs 0, m_rev = u64_at bs 8, m_kind = k, m_flags = f,
                        m_len = u64_at bs 16, m_crc = u32_at bs 24, m_name = n\<rparr>
             else None)
        | _ \<Rightarrow> None)"

text \<open>\<open>as_chunks::<LIST_ENTRY_LEN>().0\<close>: the whole entries of the page.\<close>

definition entry_chunks :: "bytes \<Rightarrow> bytes list" where
  "entry_chunks es = map (\<lambda>i. slice (i * LIST_ENTRY_LEN) LIST_ENTRY_LEN es) [0..<length es div LIST_ENTRY_LEN]"

text \<open>\<open>ListPage::entries\<close>; a page is only built from entries that decode.\<close>

definition page_entries :: "list_page \<Rightarrow> link_meta list" where
  "page_entries p = map (\<lambda>e. the (decode_entry e)) (entry_chunks (pg_entries p))"

definition state_decode :: "u8 \<Rightarrow> object_state option" where
  "state_decode b = (if b = 0 then Some Absent else if b = 1 then Some Committed
     else if b = 2 then Some Superseded else None)"

definition decode_list_page :: "u16 \<Rightarrow> bytes \<Rightarrow> response_error + response" where
  "decode_list_page bits body =
     (if length body < LIST_PREFIX_LEN \<or> (length body - LIST_PREFIX_LEN) mod LIST_ENTRY_LEN \<noteq> 0
      then Inl RInvalidFrame
      else let es = drop LIST_PREFIX_LEN body in
      if list_ex (\<lambda>e. decode_entry e = None) (entry_chunks es) \<or> bits AND FLAG_MORE \<noteq> 0 \<and> es = []
      then Inl RInvalidFrame
      else Inr (RespList \<lparr>pg_store = bytes16_at body 0, pg_sequence = u64_at body 16,
                          pg_more = (bits AND FLAG_MORE \<noteq> 0), pg_entries = es\<rparr>))"

definition decode_status_answer :: "bytes \<Rightarrow> response_error + response" where
  "decode_status_answer body =
     (if length body = 24 \<and> is_zero body 1 3 then
        (case state_decode (body ! 0) of
           None \<Rightarrow> Inl RInvalidFrame
         | Some s \<Rightarrow>
             let v = \<lparr>st_state = s, st_rev = u64_at body 4, st_len = u64_at body 12, st_crc = u32_at body 20\<rparr> in
             if s = Absent \<and> v \<noteq> status_absent \<or> s \<noteq> Absent \<and> st_rev v = 0 then Inl RInvalidFrame
             else Inr (RespStatus v))
      else Inl RInvalidFrame)"

fun decode_answer :: "opcode \<Rightarrow> u16 \<Rightarrow> bytes \<Rightarrow> response_error + response" where
  "decode_answer OpList bits body = decode_list_page bits body"
| "decode_answer OpStatus bits body = decode_status_answer body"
| "decode_answer OpGet bits body =
     (if length body = 24 \<and> is_zero body 20 4
      then Inr (RespGet \<lparr>tr_id = 0, tr_rev = u64_at body 0, tr_len = u64_at body 8, tr_crc = u32_at body 16\<rparr>)
      else Inl RInvalidFrame)"
| "decode_answer OpPut bits body =
     (if length body = 32 \<and> is_zero body 28 4
      then Inr (RespPut \<lparr>tr_id = u64_at body 0, tr_rev = u64_at body 8, tr_len = u64_at body 16, tr_crc = u32_at body 24\<rparr>)
      else Inl RInvalidFrame)"
| "decode_answer OpRemove bits body =
     (if length body = 8 then Inr (RespRemove (u64_at body 0)) else Inl RInvalidFrame)"
| "decode_answer OpCancel bits body =
     (if length body = 1 \<and> body ! 0 \<le> 1 then Inr (RespCancel (body ! 0 = 0)) else Inl RInvalidFrame)"
| "decode_answer OpArm bits body =
     (if length body = 16 then Inr (RespArm (u64_at body 0) (u64_at body 8)) else Inl RInvalidFrame)"
| "decode_answer OpFormat bits body =
     (if length body = 16 then Inr (RespFormat body) else Inl RInvalidFrame)"
| "decode_answer OpArchiveRide bits body =
     (if length body = 16 \<and> is_zero body 12 4
      then Inr (RespArchive \<lparr>ar_sequence = u64_at body 0, ar_timestamp = u32_at body 8\<rparr>)
      else Inl RInvalidFrame)"

definition decode_response :: "bytes \<Rightarrow> response_error + header \<times> response" where
  "decode_response rec =
     (if length rec < HEADER_LEN \<or> slice 0 4 rec \<noteq> WIRE_MAGIC \<or> u32_at rec 12 = 0 then Inl RInvalidFrame
      else if rec ! 4 \<noteq> WIRE_MAJOR then Inl RUnsupported
      else case op_decode (rec ! 5) of
          None \<Rightarrow> Inl RUnsupported
        | Some opc \<Rightarrow>
            let bits = u16_at rec 6; body = drop HEADER_LEN rec;
                hdr = \<lparr>hd_opcode = opc, hd_request = u32_at rec 12\<rparr> in
            if u16_at rec 10 \<noteq> 0 \<or> length body \<noteq> unat (u16_at rec 8) \<or> bits AND FLAG_RESPONSE = 0
              \<or> bits AND NOT (FLAG_RESPONSE OR FLAG_ERROR OR FLAG_MORE) \<noteq> 0
              \<or> bits AND FLAG_MORE \<noteq> 0 \<and> (opc \<noteq> OpList \<or> bits AND FLAG_ERROR \<noteq> 0)
            then Inl RInvalidFrame
            else if bits AND FLAG_ERROR \<noteq> 0
            then (case rf_decode body of None \<Rightarrow> Inl RInvalidFrame | Some r \<Rightarrow> Inr (hdr, RespError r))
            else map_sum id (\<lambda>a. (hdr, a)) (decode_answer opc bits body))"

subsection \<open>Stream records\<close>

record stream_frame =
  sf_transfer :: u32
  sf_offset :: u64
  sf_len :: u16

definition sf_encode :: "stream_frame \<Rightarrow> bytes" where
  "sf_encode f =
     put_u16 (put_u64 (put_u32 (zeros STREAM_HEADER_LEN) 0 (sf_transfer f)) 4 (sf_offset f)) 12 (sf_len f)"

definition sf_split :: "bytes \<Rightarrow> (stream_frame \<times> bytes) option" where
  "sf_split rec =
     (if length rec < STREAM_HEADER_LEN \<or> u16_at rec 14 \<noteq> 0 then None
      else let len = u16_at rec 12 in
      if len = 0 \<or> length rec \<noteq> STREAM_HEADER_LEN + unat len then None
      else Some (\<lparr>sf_transfer = u32_at rec 0, sf_offset = u64_at rec 4, sf_len = len\<rparr>,
                 drop STREAM_HEADER_LEN rec))"

text \<open>The header over a payload the caller has already placed in the buffer.\<close>

definition write_stream :: "bytes \<Rightarrow> u32 \<Rightarrow> u64 \<Rightarrow> nat \<Rightarrow> (nat \<times> bytes) option" where
  "write_stream out transfer offset len =
     (let n = STREAM_HEADER_LEN + len in
      if length out < n \<or> len = 0 \<or> len > 65535 then None
      else Some (n, put_bytes out 0
        (sf_encode \<lparr>sf_transfer = transfer, sf_offset = offset, sf_len = of_nat len\<rparr>)))"

end
