(* ===== verification/Link_Codec.thy ===== *)
theory Link_Codec
  imports Link_Wire
begin

text \<open>
  What the codec of \<open>Link_Wire\<close> does: a frame is its header and its body, a request decodes exactly
  when it is the encoding of an admissible request, and every answer the device encodes is the answer
  the client decodes, \<open>LIST\<close> pages included.
\<close>

subsection \<open>Frames\<close>

definition frame :: "opcode \<Rightarrow> u16 \<Rightarrow> bytes \<Rightarrow> u32 \<Rightarrow> bytes" where
  "frame opc flags body req =
     WIRE_MAGIC @ [WIRE_MAJOR] @ [op_value opc] @ le16 flags @ le16 (of_nat (length body)) @ le16 0 @ le32 req @ body"

lemma op_decode_value [simp]: "op_decode (op_value c) = Some c"
  by (cases c) (simp_all add: op_decode_def)

lemma op_decode_Some: "op_decode v = Some c \<longleftrightarrow> v = op_value c"
  by (cases c) (auto simp: op_decode_def split: if_splits)

lemma code_decode_value [simp]: "code_decode (code_value c) = Some c"
  by (cases c) (simp_all add: code_decode_def)

lemma length_wire_magic [simp]: "length WIRE_MAGIC = 4"
  by (simp add: WIRE_MAGIC_def)

lemma length_frame [simp]: "length (frame opc flags body req) = 16 + length body"
  by (simp add: frame_def)

lemma frame_fields:
  shows "slice 0 4 (frame opc flags body req) = WIRE_MAGIC"
    and "frame opc flags body req ! 4 = WIRE_MAJOR"
    and "frame opc flags body req ! 5 = op_value opc"
    and "u16_at (frame opc flags body req) 6 = flags"
    and "u16_at (frame opc flags body req) 8 = of_nat (length body)"
    and "u16_at (frame opc flags body req) 10 = 0"
    and "u32_at (frame opc flags body req) 12 = req"
    and "drop 16 (frame opc flags body req) = body"
proof -
  let ?fs = "[WIRE_MAGIC, [WIRE_MAJOR], [op_value opc], le16 flags, le16 (of_nat (length body)), le16 0, le32 req]"
  have eq: "frame opc flags body req = [] @ concat ?fs @ body" by (simp add: frame_def)
  have "cells (length ([] :: bytes)) [4, 1, 1, 2, 2, 2, 4] ([] @ concat ?fs @ body) = ?fs"
    by (rule cells_concat) simp
  then have "cells 0 [4, 1, 1, 2, 2, 2, 4] (frame opc flags body req) = ?fs" by (simp add: eq)
  then show "slice 0 4 (frame opc flags body req) = WIRE_MAGIC" "frame opc flags body req ! 4 = WIRE_MAJOR"
    "frame opc flags body req ! 5 = op_value opc" "u16_at (frame opc flags body req) 6 = flags"
    "u16_at (frame opc flags body req) 8 = of_nat (length body)" "u16_at (frame opc flags body req) 10 = 0"
    "u32_at (frame opc flags body req) 12 = req"
    by (simp_all add: u16_at_def u32_at_def slice_one)
  show "drop 16 (frame opc flags body req) = body" by (simp add: eq)
qed

lemma frame_same: "frame opc flags body i = frame opc flags body j \<longleftrightarrow> i = j"
  by (metis frame_fields(7))

lemma frame_eqI:
  assumes "16 \<le> length rec" and "slice 0 4 rec = WIRE_MAGIC" and "rec ! 4 = WIRE_MAJOR" and "rec ! 5 = op_value opc"
    and "u16_at rec 6 = flags" and "unat (u16_at rec 8) = length rec - 16" and "u16_at rec 10 = 0"
  shows "rec = frame opc flags (drop 16 rec) (u32_at rec 12)"
proof -
  have len: "u16_at rec 8 = of_nat (length rec - 16)" by (simp add: assms(6) [symmetric])
  have "cells 0 [4, 1, 1, 2, 2, 2, 4, length rec - 16] rec =
      cells 0 [4, 1, 1, 2, 2, 2, 4, length rec - 16] (frame opc flags (drop 16 rec) (u32_at rec 12))"
    using assms(1-5,7) len frame_fields [of opc flags "drop 16 rec" "u32_at rec 12"]
    by (simp add: slice_one slice_at(1,2) slice_def [of 16] frame_def)
  then show ?thesis by (rule cells_eqI) (use assms(1) in simp_all)
qed

lemma zeros_0 [simp]: "zeros 0 = []"
  by (simp add: zeros_def)

lemma of_le_zeros [simp]: "of_le (zeros n) = 0"
  by (induction n) (simp_all add: zeros_def)

lemma le_zero: "le16 0 = zeros 2" "le32 0 = zeros 4" "le64 0 = zeros 8"
  using to_le_of_le [of "zeros 2" 2, where ?'a = 16] to_le_of_le [of "zeros 4" 4, where ?'a = 32]
    to_le_of_le [of "zeros 8" 8, where ?'a = 64]
  by (simp_all add: le16_def le32_def le64_def)

lemma put_next:
  "off' = off + length xs \<Longrightarrow> off + length xs + length ys \<le> length out \<Longrightarrow>
   put_bytes (put_bytes out off xs) off' ys = put_bytes out off (xs @ ys)"
  by (simp add: put_bytes_append)

lemma write_frame_eq:
  "write_frame out opc flags body req =
     (if length out < 16 + length body \<or> length body > 65535 then None
      else Some (16 + length body, frame opc flags body req @ drop (16 + length body) out))"
proof (cases "length out < 16 + length body \<or> length body > 65535")
  case True
  then show ?thesis by (simp add: write_frame_def write_header_def HEADER_LEN_def)
next
  case False
  let ?h = "put_u32 (put_u16 (put_u16 (put_u16 (put_u8 (put_u8 (put_bytes out 0 WIRE_MAGIC) 4 WIRE_MAJOR)
          5 (op_value opc)) 6 flags) 8 (of_nat (length body))) 10 0) 12 req"
  have "put_bytes ?h 16 body = put_bytes out 0 (frame opc flags body req)"
    using False by (simp add: put_defs put_next frame_def)
  then have "put_bytes ?h 16 body = frame opc flags body req @ drop (16 + length body) out"
    by (simp add: put_bytes_def)
  then show ?thesis using False by (simp add: write_frame_def write_header_def HEADER_LEN_def)
qed

subsection \<open>Requests\<close>

text \<open>The requests a client may send; every other one is refused by the decoder.\<close>

definition wf_text :: "link_name \<Rightarrow> bool" where
  "wf_text n \<longleftrightarrow> wf_link_name n \<and> utf8_ok (ln_as_bytes n)"

fun wf_request :: "request \<Rightarrow> bool" where
  "wf_request (ReqStatus r) \<longleftrightarrow> sr_id r \<noteq> 0"
| "wf_request (ReqPut r) \<longleftrightarrow> (pr_id r \<noteq> 0 \<longleftrightarrow> pr_expected r \<noteq> 0) \<and> wf_text (pr_name r)"
| "wf_request (ReqFormat r) \<longleftrightarrow> length (fr_expected r) = 16 \<and> length (fr_replacement r) = 16
     \<and> fr_replacement r \<noteq> zeros 16 \<and> fr_replacement r \<noteq> fr_expected r"
| "wf_request (ReqArchive r) \<longleftrightarrow> length (as_store r) = 16 \<and> as_store r \<noteq> zeros 16
     \<and> as_id r \<noteq> 0 \<and> as_rev r \<noteq> 0 \<and> as_len r \<noteq> 0"
| "wf_request _ \<longleftrightarrow> True"

lemma decode_name_Inr:
  assumes "length field = 48"
  shows "decode_name l field = Inr n \<longleftrightarrow> wf_text n \<and> ln_bytes n = field \<and> ln_len n = l"
proof -
  have "unat l \<le> 48 \<Longrightarrow> is_zero field (unat l) (48 - unat l) \<Longrightarrow>
      ln_from_bytes (take (unat l) field) = Some \<lparr>ln_bytes = field, ln_len = l\<rparr>"
    using assms by (intro ln_from_field) (simp_all add: LINK_NAME_def)
  then show ?thesis
    using assms by (auto simp: decode_name_def wf_text_def wf_link_name_def ln_as_bytes_def LINK_NAME_def Let_def)
qed

lemma length_request_body [simp]: "wf_request r \<Longrightarrow> length (request_body r) = request_body_len (request_opcode r)"
  by (cases r) (auto simp: pair_at_def put_defs wf_text_def wf_link_name_def LINK_NAME_def Let_def split: option.splits)

lemma decode_request_body: "wf_request r \<Longrightarrow> decode_body (request_opcode r) (request_body r) = Inr r"
proof (cases r)
  case (ReqPut p)
  assume wf: "wf_request r"
  then have name: "wf_text (pr_name p)" "length (ln_bytes (pr_name p)) = 48"
    using ReqPut by (auto simp: wf_text_def wf_link_name_def LINK_NAME_def)
  have "decode_name (ln_len (pr_name p)) (ln_bytes (pr_name p)) = Inr (pr_name p)"
    using name by (simp add: decode_name_Inr)
  then show ?thesis
    using wf name(2) ReqPut
    by (simp add: decode_put_def pair_at_def codec_simps slice_zeros LINK_NAME_def id_is_some_def Let_def)
qed (auto simp: decode_list_def decode_status_def decode_get_def decode_remove_def decode_cancel_def decode_arm_def
       decode_format_def decode_archive_def pair_at_def codec_simps slice_zeros id_is_some_def Let_def
       split: option.splits)

lemma id_zero [simp]: "map_sum id f x = Inr y \<longleftrightarrow> (\<exists>z. x = Inr z \<and> y = f z)"
  by (cases x) auto

lemma flag_bit_0: "w AND NOT 1 = 0 \<longleftrightarrow> w = 0 \<or> w = (1 :: u16)"
proof
  assume w: "w AND NOT 1 = 0"
  have "w = w AND 1"
  proof (rule bit_word_eqI)
    fix n
    have "\<not> bit (w AND NOT 1) n" using w by simp
    then show "bit w n = bit (w AND 1) n" by (auto simp: bit_simps dest: bit_imp_le_length)
  qed
  then show "w = 0 \<or> w = 1" by (metis and_one_eq mod2_eq_if)
qed auto

lemma slices_at:
  "u16_at a off = u16_at b off \<Longrightarrow> off + 2 \<le> length a \<Longrightarrow> off + 2 \<le> length b \<Longrightarrow> slice off 2 a = slice off 2 b"
  "u32_at a off = u32_at b off \<Longrightarrow> off + 4 \<le> length a \<Longrightarrow> off + 4 \<le> length b \<Longrightarrow> slice off 4 a = slice off 4 b"
  "u64_at a off = u64_at b off \<Longrightarrow> off + 8 \<le> length a \<Longrightarrow> off + 8 \<le> length b \<Longrightarrow> slice off 8 a = slice off 8 b"
  by (metis le_at(1), metis le_at(2), metis le_at(3))

text \<open>The fields of the \<open>LIST\<close> body, by the cursor bit.\<close>

definition cursor_fields :: "list_cursor option \<Rightarrow> u16 \<times> u64 \<times> u64 \<times> u64" where
  "cursor_fields c = (case c of None \<Rightarrow> (0, 0, 0, 0) | Some c \<Rightarrow> (1, lc_id c, lc_rev c, lc_sequence c))"

lemma decode_list_Inr:
  "decode_list body = Inr r \<longleftrightarrow> is_zero body 4 4
     \<and> u16_at body 0 = (case lr_kind r of None \<Rightarrow> 0 | Some k \<Rightarrow> lk_value k)
     \<and> (u16_at body 2, u64_at body 8, u64_at body 16, u64_at body 24) = cursor_fields (lr_cursor r)"
  (is "_ \<longleftrightarrow> ?fields")
proof -
  have kind: "(if v = 0 then Inr None else case lk_decode v of Some k \<Rightarrow> Inr (Some k) | None \<Rightarrow> Inl e) = Inr k
      \<longleftrightarrow> v = (case k of None \<Rightarrow> 0 | Some k \<Rightarrow> lk_value k)" for v and k :: "link_kind option" and e :: refusal
    by (auto simp: lk_decode_Some split: option.splits)
  have "decode_list body = Inr r \<longleftrightarrow> u16_at body 0 = (case lr_kind r of None \<Rightarrow> 0 | Some k \<Rightarrow> lk_value k)
      \<and> (u16_at body 2 = 0 \<or> u16_at body 2 = 1) \<and> is_zero body 4 4
      \<and> (u16_at body 2 AND 1 = 0 \<longrightarrow> u64_at body 8 = 0 \<and> u64_at body 16 = 0 \<and> u64_at body 24 = 0 \<and> lr_cursor r = None)
      \<and> (u16_at body 2 AND 1 \<noteq> 0 \<longrightarrow> lr_cursor r = Some \<lparr>lc_id = u64_at body 8, lc_rev = u64_at body 16,
           lc_sequence = u64_at body 24\<rparr>)"
    by (cases r) (auto simp: decode_list_def Let_def bindE_eq_Inr kind flag_bit_0 [symmetric])
  then show ?thesis by (auto simp: cursor_fields_def split: option.splits)
qed

lemma list_body_fields:
  "is_zero (request_body (ReqList r)) 4 4"
  "u16_at (request_body (ReqList r)) 0 = (case lr_kind r of None \<Rightarrow> 0 | Some k \<Rightarrow> lk_value k)"
  "(u16_at (request_body (ReqList r)) 2, u64_at (request_body (ReqList r)) 8, u64_at (request_body (ReqList r)) 16,
    u64_at (request_body (ReqList r)) 24) = cursor_fields (lr_cursor r)"
  by (auto simp: cursor_fields_def Let_def codec_simps slice_zeros split: option.splits)

lemma pair_body: "length body = 16 \<Longrightarrow> pair_at (zeros 16) 0 (u64_at body 0) (u64_at body 8) = body"
  by (rule cells_eqI [where ws = "[8, 8]"]) (simp_all add: pair_at_def codec_simps le_of_le)

lemma body_of_decoded:
  assumes "length body = request_body_len opc" and "decode_body opc body = Inr r"
  shows "wf_request r \<and> request_opcode r = opc \<and> request_body r = body"
proof (cases opc)
  case OpList
  then obtain l where r: "r = ReqList l" and l: "decode_list body = Inr l" using assms(2) by auto
  define b where "b = request_body (ReqList l)"
  have len: "length b = 32" "length body = 32"
    using assms(1) OpList length_request_body [of "ReqList l"] by (simp_all add: b_def)
  have f: "u16_at b 0 = u16_at body 0" "u16_at b 2 = u16_at body 2" "u64_at b 8 = u64_at body 8"
    "u64_at b 16 = u64_at body 16" "u64_at b 24 = u64_at body 24" "slice 4 4 b = slice 4 4 body"
    using l list_body_fields [of l, folded b_def] len by (simp_all add: decode_list_Inr is_zero_iff prod_eq_iff)
  have "slice 0 2 b = slice 0 2 body" "slice 2 2 b = slice 2 2 body" "slice 8 8 b = slice 8 8 body"
    "slice 16 8 b = slice 16 8 body" "slice 24 8 b = slice 24 8 body"
    by (rule slices_at, use f len in simp_all)+
  with f(6) have "cells 0 [2, 2, 4, 8, 8, 8] b = cells 0 [2, 2, 4, 8, 8, 8] body"
    by (simp del: add_2_eq_Suc add_2_eq_Suc')
  then have "b = body" by (rule cells_eqI) (simp_all add: len)
  then have "request_body (ReqList l) = body" by (simp only: b_def)
  then show ?thesis using r OpList by simp
next
  case OpPut
  then obtain q where r: "r = ReqPut q" and q: "decode_put body = Inr q" using assms(2) by auto
  have len: "length body = 84" using assms(1) OpPut by simp
  have name: "wf_text (pr_name q) \<and> ln_bytes (pr_name q) = slice 36 48 body \<and> ln_len (pr_name q) = body ! 32"
    and q': "(pr_id q \<noteq> 0 \<longleftrightarrow> pr_expected q \<noteq> 0)" "pr_id q = u64_at body 0" "pr_expected q = u64_at body 8"
      "pr_len q = u64_at body 16" "pr_crc q = u32_at body 24" "u16_at body 28 = lk_value (pr_kind q)"
      "u16_at body 30 = 0" "is_zero body 33 3"
    using q len by (auto simp: decode_put_def Let_def bindE_eq_Inr decode_name_Inr lk_decode_Some LINK_NAME_def
        id_is_some_def split: if_splits option.splits)
  have z: "slice 33 3 body = zeros 3" "slice 30 2 body = zeros 2" "slice 28 2 body = le16 (lk_value (pr_kind q))"
    using q'(6,7,8) len slice_at(1) [of body 30 0] slice_at(1) [of body 28 "lk_value (pr_kind q)"]
    by (simp_all add: is_zero_iff le_zero)
  have "request_body (ReqPut q) = body"
  proof (rule cells_eqI [where ws = "[8, 8, 8, 4, 2, 2, 1, 3, 48]"])
    show "cells 0 [8, 8, 8, 4, 2, 2, 1, 3, 48] (request_body (ReqPut q)) = cells 0 [8, 8, 8, 4, 2, 2, 1, 3, 48] body"
      using q'(2-5) name z len by (simp add: pair_at_def codec_simps slice_zeros slice_one le_of_le)
  qed (use len name in \<open>simp_all add: pair_at_def put_defs\<close>)
  then show ?thesis using r OpPut q'(1) name by simp
next
  case OpFormat
  then obtain f where r: "r = ReqFormat f" and f: "decode_format body = Inr f" using assms(2) by auto
  have len: "length body = 32" using assms(1) OpFormat by simp
  have "slice 0 16 body @ slice 16 16 body = body" using len slice_append_slice [of 0 16 body 16] by (simp add: slice_def)
  then show ?thesis using r f OpFormat len
    by (auto simp: decode_format_def Let_def bytes16_at_def put_bytes_def zeros_def split: if_splits)
next
  case OpArchiveRide
  then obtain a where r: "r = ReqArchive a" and a: "decode_archive body = Inr a" using assms(2) by auto
  have len: "length body = 44" using assms(1) OpArchiveRide by simp
  have fs: "as_store a = slice 0 16 body" "as_id a = u64_at body 16" "as_rev a = u64_at body 24"
    "as_len a = u64_at body 32" "as_crc a = u32_at body 40" "as_store a \<noteq> zeros 16" "as_id a \<noteq> 0" "as_rev a \<noteq> 0" "as_len a \<noteq> 0"
    using a by (auto simp: decode_archive_def Let_def bytes16_at_def split: if_splits)
  have "request_body (ReqArchive a) = body"
    by (rule cells_eqI [where ws = "[16, 8, 8, 8, 4]"])
      (use fs len in \<open>simp_all add: pair_at_def codec_simps le_of_le\<close>)
  then show ?thesis using r OpArchiveRide fs len by simp
next
  case OpCancel
  then show ?thesis using assms
    by (auto simp: decode_cancel_def put_u32_def put_bytes_def le_at slice_def zeros_def)
qed (use assms pair_body [of body] in
     \<open>auto simp: decode_status_def decode_get_def decode_remove_def decode_arm_def id_is_some_def split: if_splits\<close>)

lemma decode_request_Inr:
  "decode_request rec = Inr (h, r) \<longleftrightarrow> hd_request h \<noteq> 0 \<and> wf_request r \<and> hd_opcode h = request_opcode r
     \<and> rec = frame (request_opcode r) 0 (request_body r) (hd_request h)"
  (is "?decodes \<longleftrightarrow> ?encoded")
proof
  assume d: ?decodes
  then obtain opc where opc: "rec ! 5 = op_value opc" "unat (u16_at rec 8) = request_body_len opc"
    and len: "length rec - 16 = unat (u16_at rec 8)" "16 \<le> length rec"
    and rest: "slice 0 4 rec = WIRE_MAGIC" "rec ! 4 = WIRE_MAJOR" "u16_at rec 6 = 0" "u16_at rec 10 = 0"
      "u32_at rec 12 \<noteq> 0" "decode_body opc (drop 16 rec) = Inr r" "h = \<lparr>hd_opcode = opc, hd_request = u32_at rec 12\<rparr>"
    by (auto simp: decode_request_def Let_def HEADER_LEN_def op_decode_Some not_less
        split: if_splits option.splits sum.splits)
  have "wf_request r \<and> request_opcode r = opc \<and> request_body r = drop 16 rec"
    by (rule body_of_decoded) (use opc len rest in simp_all)
  moreover have "rec = frame opc 0 (drop 16 rec) (u32_at rec 12)"
    by (rule frame_eqI) (use opc len rest in simp_all)
  ultimately show ?encoded using rest by simp
next
  assume e: ?encoded
  then have "unat (of_nat (length (request_body r)) :: u16) = request_body_len (request_opcode r)"
    by (cases "request_opcode r") simp_all
  then show ?decodes
    using e by (cases h) (simp add: decode_request_def frame_fields HEADER_LEN_def decode_request_body Let_def)
qed

text \<open>The array lengths the types of the source fix.\<close>

fun shaped_request :: "request \<Rightarrow> bool" where
  "shaped_request (ReqPut r) \<longleftrightarrow> length (ln_bytes (pr_name r)) = 48"
| "shaped_request (ReqFormat r) \<longleftrightarrow> length (fr_expected r) = 16 \<and> length (fr_replacement r) = 16"
| "shaped_request (ReqArchive r) \<longleftrightarrow> length (as_store r) = 16"
| "shaped_request _ \<longleftrightarrow> True"

lemma wf_shaped: "wf_request r \<Longrightarrow> shaped_request r"
  by (cases r) (auto simp: wf_text_def wf_link_name_def LINK_NAME_def)

lemma shaped_body_len: "shaped_request r \<Longrightarrow> length (request_body r) = request_body_len (request_opcode r)"
  by (cases r) (auto simp: pair_at_def put_defs Let_def split: option.splits)

lemma shaped_decode:
  assumes "shaped_request r" and "decode_body (request_opcode r) (request_body r) = Inr r'"
  shows "r' = r"
proof (cases r)
  case (ReqPut p)
  then have len: "length (ln_bytes (pr_name p)) = 48" using assms(1) by simp
  obtain q where q: "decode_put (request_body (ReqPut p)) = Inr q" "r' = ReqPut q" using assms(2) ReqPut by auto
  have "\<exists>n. decode_name (ln_len (pr_name p)) (ln_bytes (pr_name p)) = Inr n \<and> q = p\<lparr>pr_name := n\<rparr>"
    using q(1) len
    by (cases p) (auto simp: decode_put_def pair_at_def codec_simps slice_zeros LINK_NAME_def Let_def bindE_eq_Inr
        split: if_splits)
  then show ?thesis using q(2) ReqPut len by (auto simp: decode_name_Inr)
next
  case (ReqList l)
  then show ?thesis using assms(2) decode_request_body [of r] by simp
qed (use assms in \<open>auto simp: decode_status_def decode_get_def decode_remove_def decode_cancel_def decode_arm_def
       decode_format_def decode_archive_def pair_at_def codec_simps slice_zeros Let_def split: if_splits\<close>)

lemma encode_request_eq:
  assumes "shaped_request r"
  shows "encode_request out i r =
    (let n = 16 + request_body_len (request_opcode r); rec = frame (request_opcode r) 0 (request_body r) i in
     if i = 0 \<or> length out < n then (None, out)
     else (if wf_request r then Some n else None, rec @ drop n out))"
proof (cases "i = 0 \<or> length out < 16 + request_body_len (request_opcode r)")
  case True
  then show ?thesis by (auto simp: encode_request_def write_header_def HEADER_LEN_def Let_def)
next
  case False
  let ?b = "request_body r" and ?opc = "request_opcode r"
  let ?n = "16 + request_body_len ?opc"
  have len: "length ?b = request_body_len ?opc" using assms by (rule shaped_body_len)
  have small: "request_body_len ?opc \<le> 65535" by (cases ?opc) simp_all
  obtain out1 where w: "write_header out ?opc 0 (request_body_len ?opc) i = Some (?n, out1)"
    using False small by (simp add: write_header_def HEADER_LEN_def Let_def)
  have "write_frame out ?opc 0 ?b i = Some (?n, put_bytes out1 16 ?b)"
    by (simp add: write_frame_def len w HEADER_LEN_def)
  then have out2: "put_bytes out1 16 ?b = frame ?opc 0 ?b i @ drop ?n out"
    using False small by (simp add: write_frame_eq len)
  have "decode_request (frame ?opc 0 ?b i) = Inr x \<longleftrightarrow> wf_request r \<and> x = (\<lparr>hd_opcode = ?opc, hd_request = i\<rparr>, r)" for x
  proof (cases x)
    case (Pair h r')
    have "decode_request (frame ?opc 0 ?b i) = Inr (h, r') \<Longrightarrow> r' = r"
      by (rule shaped_decode [OF assms])
        (use len small in \<open>auto simp: decode_request_def frame_fields Let_def HEADER_LEN_def split: if_splits sum.splits\<close>)
    then show ?thesis using False by (cases h) (auto simp: Pair decode_request_Inr frame_same)
  qed
  then have "isl (decode_request (frame ?opc 0 ?b i)) \<longleftrightarrow> \<not> wf_request r"
    by (cases "decode_request (frame ?opc 0 ?b i)") auto
  then show ?thesis
    using False
    by (cases "decode_request (frame ?opc 0 ?b i)") (auto simp: encode_request_def w Let_def out2 len HEADER_LEN_def)
qed

text \<open>
  C18: the request codec. A record decodes to a request exactly when it is the record the client's
  encoder writes for it into an empty buffer, whatever bytes a hostile peer sends: one record per
  request, no slack byte, no reserved bit, no unregistered opcode or kind, no name that is not UTF-8.
\<close>

theorem request_codec:
  "decode_request rec = Inr (h, r) \<longleftrightarrow> shaped_request r \<and> hd_opcode h = request_opcode r
     \<and> encode_request (zeros (length rec)) (hd_request h) r = (Some (length rec), rec)"
proof (cases "shaped_request r")
  case False
  then show ?thesis using wf_shaped by (auto simp: decode_request_Inr)
next
  case True
  let ?n = "16 + request_body_len (request_opcode r)"
  have "length (frame (request_opcode r) 0 (request_body r) i) = ?n" for i using shaped_body_len [OF True] by simp
  then show ?thesis
    using True wf_shaped by (auto simp: decode_request_Inr encode_request_eq Let_def split: if_splits)
qed

subsection \<open>Answers\<close>

text \<open>The two flag bits an answer other than a \<open>LIST\<close> page carries.\<close>

lemma answer_bits:
  "FLAG_RESPONSE AND FLAG_RESPONSE \<noteq> 0" "FLAG_RESPONSE AND FLAG_MORE = 0" "FLAG_RESPONSE AND FLAG_ERROR = 0"
  "FLAG_RESPONSE AND NOT (FLAG_RESPONSE OR FLAG_ERROR OR FLAG_MORE) = 0"
  "(FLAG_RESPONSE OR FLAG_ERROR) AND FLAG_RESPONSE \<noteq> 0" "(FLAG_RESPONSE OR FLAG_ERROR) AND FLAG_ERROR \<noteq> 0"
  "(FLAG_RESPONSE OR FLAG_ERROR) AND FLAG_MORE = 0"
  "(FLAG_RESPONSE OR FLAG_ERROR) AND NOT (FLAG_RESPONSE OR FLAG_ERROR OR FLAG_MORE) = 0"
  "(FLAG_RESPONSE OR FLAG_MORE) AND FLAG_RESPONSE \<noteq> 0" "(FLAG_RESPONSE OR FLAG_MORE) AND FLAG_ERROR = 0"
  "(FLAG_RESPONSE OR FLAG_MORE) AND FLAG_MORE \<noteq> 0"
  "(FLAG_RESPONSE OR FLAG_MORE) AND NOT (FLAG_RESPONSE OR FLAG_ERROR OR FLAG_MORE) = 0"
  by (simp_all add: frame_flag_defs)

lemma decode_answer_frame:
  assumes "req \<noteq> 0" and "length body \<le> 65535"
  shows "decode_response (frame opc FLAG_RESPONSE body req) =
      map_sum id (\<lambda>a. (\<lparr>hd_opcode = opc, hd_request = req\<rparr>, a)) (decode_answer opc FLAG_RESPONSE body)"
    and "decode_response (frame OpList (FLAG_RESPONSE OR FLAG_MORE) body req) =
      map_sum id (\<lambda>a. (\<lparr>hd_opcode = OpList, hd_request = req\<rparr>, a)) (decode_list_page (FLAG_RESPONSE OR FLAG_MORE) body)"
    and "decode_response (frame opc (FLAG_RESPONSE OR FLAG_ERROR) body req) =
      (case rf_decode body of None \<Rightarrow> Inl RInvalidFrame
         | Some r \<Rightarrow> Inr (\<lparr>hd_opcode = opc, hd_request = req\<rparr>, RespError r))"
proof -
  have len: "unat (of_nat (length body) :: u16) = length body" using assms(2) by (simp add: word_unat_of_nat)
  note [simp] = frame_fields len frame_flag_defs HEADER_LEN_def Let_def assms(1)
  show "decode_response (frame opc FLAG_RESPONSE body req) =
      map_sum id (\<lambda>a. (\<lparr>hd_opcode = opc, hd_request = req\<rparr>, a)) (decode_answer opc FLAG_RESPONSE body)"
    by (simp add: decode_response_def)
  show "decode_response (frame OpList (FLAG_RESPONSE OR FLAG_MORE) body req) =
      map_sum id (\<lambda>a. (\<lparr>hd_opcode = OpList, hd_request = req\<rparr>, a)) (decode_list_page (FLAG_RESPONSE OR FLAG_MORE) body)"
    by (simp add: decode_response_def op_decode_def)
  show "decode_response (frame opc (FLAG_RESPONSE OR FLAG_ERROR) body req) =
      (case rf_decode body of None \<Rightarrow> Inl RInvalidFrame
         | Some r \<Rightarrow> Inr (\<lparr>hd_opcode = opc, hd_request = req\<rparr>, RespError r))"
    by (simp add: decode_response_def)
qed

lemma rf_roundtrip [simp]: "rf_decode (rf_encode r) = Some r"
  by (simp add: rf_decode_def rf_encode_def ERROR_BODY_LEN_def codec_simps)

lemma length_rf_encode [simp]: "length (rf_encode r) = 16"
  by (simp add: rf_encode_def ERROR_BODY_LEN_def put_defs)

text \<open>
  The frame an encoder leaves at the head of the buffer, and what the client makes of it.
\<close>

definition answers :: "(nat \<times> bytes) option \<Rightarrow> opcode \<Rightarrow> u32 \<Rightarrow> response \<Rightarrow> bool" where
  "answers enc opc req a \<longleftrightarrow> (\<forall>n out. enc = Some (n, out) \<longrightarrow>
     n \<le> length out \<and> decode_response (take n out) = Inr (\<lparr>hd_opcode = opc, hd_request = req\<rparr>, a))"

lemma answers_frame:
  assumes "req \<noteq> 0" and "decode_answer opc FLAG_RESPONSE body = Inr a" and "opc \<noteq> OpList"
  shows "answers (write_frame out opc FLAG_RESPONSE body req) opc req a"
  using assms by (auto simp: answers_def write_frame_eq decode_answer_frame split: if_splits)

definition wf_status :: "status_response \<Rightarrow> bool" where
  "wf_status a \<longleftrightarrow> (if st_state a = Absent then a = status_absent else st_rev a \<noteq> 0)"

lemma answers_error: "req \<noteq> 0 \<Longrightarrow> answers (encode_error out opc req r) opc req (RespError r)"
  by (auto simp: answers_def encode_error_def write_frame_eq decode_answer_frame split: if_splits)

lemma answers_status: "req \<noteq> 0 \<Longrightarrow> wf_status a \<Longrightarrow> answers (encode_status out req a) OpStatus req (RespStatus a)"
  unfolding encode_status_def
  by (rule answers_frame; cases a; cases "st_state a")
    (auto simp: decode_status_answer_def wf_status_def status_absent_def state_decode_def codec_simps slice_zeros Let_def
      split: if_splits)

lemma answers_get:
  "req \<noteq> 0 \<Longrightarrow> answers (encode_get out req revision plen crc) OpGet req
     (RespGet \<lparr>tr_id = 0, tr_rev = revision, tr_len = plen, tr_crc = crc\<rparr>)"
  unfolding encode_get_def by (rule answers_frame) (simp_all add: codec_simps slice_zeros)

lemma answers_put:
  "req \<noteq> 0 \<Longrightarrow> answers (encode_put out req i revision plen crc) OpPut req
     (RespPut \<lparr>tr_id = i, tr_rev = revision, tr_len = plen, tr_crc = crc\<rparr>)"
  unfolding encode_put_def by (rule answers_frame) (simp_all add: codec_simps slice_zeros)

lemma answers_remove: "req \<noteq> 0 \<Longrightarrow> answers (encode_remove out req sequence) OpRemove req (RespRemove sequence)"
  unfolding encode_remove_def by (rule answers_frame) (simp_all add: u64_at_def slice_def)

lemma answers_cancel: "req \<noteq> 0 \<Longrightarrow> answers (encode_cancel out req c) OpCancel req (RespCancel c)"
  unfolding encode_cancel_def by (rule answers_frame) simp_all

lemma answers_arm: "req \<noteq> 0 \<Longrightarrow> answers (encode_arm out req reserve sequence) OpArm req (RespArm reserve sequence)"
  unfolding encode_arm_def by (rule answers_frame) (simp_all add: u64_at_def slice_def)

lemma answers_format: "req \<noteq> 0 \<Longrightarrow> length store = 16 \<Longrightarrow> answers (encode_format out req store) OpFormat req (RespFormat store)"
  unfolding encode_format_def by (rule answers_frame) simp_all

lemma answers_archive: "req \<noteq> 0 \<Longrightarrow> answers (encode_archive out req a) OpArchiveRide req (RespArchive a)"
  unfolding encode_archive_def by (rule answers_frame) (simp_all add: codec_simps slice_zeros)

text \<open>
  C19: the answers. Whatever buffer the device encodes an answer into, the record it reports decodes on
  the client to the same request identifier and the same values, for the error response of every
  opcode and for every response with a body of fixed length.
\<close>

theorem answers_roundtrip:
  assumes "req \<noteq> 0"
  shows "answers (encode_error out opc req r) opc req (RespError r)
    \<and> (wf_status a \<longrightarrow> answers (encode_status out req a) OpStatus req (RespStatus a))
    \<and> answers (encode_get out req revision plen crc) OpGet req
        (RespGet \<lparr>tr_id = 0, tr_rev = revision, tr_len = plen, tr_crc = crc\<rparr>)
    \<and> answers (encode_put out req i revision plen crc) OpPut req
        (RespPut \<lparr>tr_id = i, tr_rev = revision, tr_len = plen, tr_crc = crc\<rparr>)
    \<and> answers (encode_remove out req sequence) OpRemove req (RespRemove sequence)
    \<and> answers (encode_cancel out req c) OpCancel req (RespCancel c)
    \<and> answers (encode_arm out req reserve sequence) OpArm req (RespArm reserve sequence)
    \<and> (length store = 16 \<longrightarrow> answers (encode_format out req store) OpFormat req (RespFormat store))
    \<and> answers (encode_archive out req res) OpArchiveRide req (RespArchive res)"
  using assms by (simp add: answers_error answers_status answers_get answers_put answers_remove answers_cancel
      answers_arm answers_format answers_archive)

theorem answers_roundtrip_witness:
  "answers (encode_status (zeros 64) 9 \<lparr>st_state = Committed, st_rev = 3, st_len = 42137, st_crc = 7\<rparr>) OpStatus 9
     (RespStatus \<lparr>st_state = Committed, st_rev = 3, st_len = 42137, st_crc = 7\<rparr>)"
  using answers_roundtrip [of 9 "zeros 64" OpList "rf_plain Internal"
      "\<lparr>st_state = Committed, st_rev = 3, st_len = 42137, st_crc = 7\<rparr>" 0 0 0 0 0 False 0 "zeros 16"
      "\<lparr>ar_sequence = 0, ar_timestamp = 0\<rparr>"]
  by (simp add: wf_status_def)

subsection \<open>LIST pages\<close>

definition wf_listed :: "link_meta \<Rightarrow> bool" where
  "wf_listed m \<longleftrightarrow> m_id m \<noteq> 0 \<and> m_rev m \<noteq> 0 \<and> m_flags m AND NOT LF_DEFINED = 0 \<and> wf_text (m_name m)"

lemma length_list_entry [simp]: "length (ln_bytes (m_name m)) = 48 \<Longrightarrow> length (list_entry m) = 88"
  by (simp add: list_entry_def LIST_ENTRY_LEN_def put_defs)

lemma decode_list_entry: "wf_listed m \<Longrightarrow> decode_entry (list_entry m) = Some m"
proof -
  assume wf: "wf_listed m"
  then have len: "length (ln_bytes (m_name m)) = 48" by (simp add: wf_listed_def wf_text_def wf_link_name_def LINK_NAME_def)
  have "decode_name (ln_len (m_name m)) (ln_bytes (m_name m)) = Inr (m_name m)"
    using wf len by (simp add: decode_name_Inr wf_listed_def)
  then show ?thesis
    using wf len by (simp add: decode_entry_def list_entry_def LIST_ENTRY_LEN_def codec_simps slice_zeros lf_decode_def wf_listed_def)
qed

text \<open>The page a writer has filled: the store, the sequence and the entries pushed so far.\<close>

definition page_holds :: "bytes \<Rightarrow> list_writer \<Rightarrow> bytes \<Rightarrow> u64 \<Rightarrow> link_meta list \<Rightarrow> bool" where
  "page_holds out w store sequence ms \<longleftrightarrow> length store = 16 \<and> lw_filled w = 24 + 88 * length ms
     \<and> 16 + lw_filled w \<le> lw_ceiling w \<and> lw_ceiling w \<le> length out
     \<and> slice 16 (lw_filled w) out = store @ le64 sequence @ concat (map list_entry ms)"

lemma lw_start_holds:
  assumes "lw_start out ceiling store sequence = Some (w, out')" and "length store = 16"
  shows "page_holds out' w store sequence [] \<and> length out' = length out \<and> lw_ceiling w = min ceiling (length out)"
proof -
  have room: "128 \<le> length out" "128 \<le> ceiling" and w: "w = \<lparr>lw_ceiling = min ceiling (length out), lw_filled = 24\<rparr>"
    and out': "out' = put_bytes (put_bytes out 16 store) 32 (le64 sequence)"
    using assms(1) by (auto simp: lw_start_def wire_consts put_defs Let_def split: if_splits)
  have "out' = put_bytes out 16 (store @ le64 sequence)"
    using room assms(2) by (simp add: out' put_next)
  then show ?thesis
    using room assms(2) by (auto simp: page_holds_def w codec_simps)
qed

lemma lw_push_holds:
  assumes "page_holds out w store sequence ms" and "length (ln_bytes (m_name m)) = 48" and "lw_push w out m = (ok, w', out')"
  shows "if ok then page_holds out' w' store sequence (ms @ [m]) \<and> length out' = length out \<and> lw_ceiling w' = lw_ceiling w
    \<and> lw_room w = Suc (lw_room w') else w' = w \<and> out' = out \<and> lw_room w = 0"
proof (cases "lw_room w = 0")
  case True
  then show ?thesis using assms(3) by (simp add: lw_push_def)
next
  case False
  then have room: "lw_filled w + 104 \<le> lw_ceiling w" and ok: "ok" and w': "w' = w\<lparr>lw_filled := lw_filled w + 88\<rparr>"
    and out': "out' = put_bytes out (16 + lw_filled w) (list_entry m)"
    using assms(3) div_less [of "lw_ceiling w - 16 - lw_filled w" 88]
    by (auto simp: lw_push_def lw_room_def wire_consts split: if_splits)
  have h: "lw_filled w = 24 + 88 * length ms" "lw_ceiling w \<le> length out"
    "slice 16 (lw_filled w) out = store @ le64 sequence @ concat (map list_entry ms)" "length store = 16"
    using assms(1) unfolding page_holds_def by blast+
  have "slice 16 (lw_filled w + 88) out' = slice 16 (lw_filled w) out' @ slice (16 + lw_filled w) 88 out'"
    by (simp add: slice_append_slice)
  then have "slice 16 (lw_filled w + 88) out' = store @ le64 sequence @ concat (map list_entry (ms @ [m]))"
    using room h assms(2) by (simp add: out' codec_simps)
  moreover have "(lw_ceiling w - 16 - lw_filled w) div 88 = Suc ((lw_ceiling w - 16 - (lw_filled w + 88)) div 88)"
  proof -
    define x where "x = lw_ceiling w - 16 - (lw_filled w + 88)"
    have "lw_ceiling w - 16 - lw_filled w = 88 + x" using room by (simp add: x_def)
    moreover have "(88 + x) div 88 = Suc (x div 88)" by simp
    ultimately show ?thesis by (simp only: x_def)
  qed
  ultimately show ?thesis
    using ok room h assms(2) by (simp add: page_holds_def w' lw_room_def wire_consts) (simp add: out')
qed

lemma entry_chunks_concat:
  assumes "\<And>m. m \<in> set ms \<Longrightarrow> length (f m) = 88"
  shows "entry_chunks (concat (map f ms)) = map f ms"
  using assms
proof (induction ms)
  case Nil
  then show ?case by (simp add: entry_chunks_def)
next
  case (Cons m ms)
  have len: "length (concat (map f ms)) = 88 * length ms"
    using Cons.prems by (induction ms) auto
  have "entry_chunks (f m @ concat (map f ms)) = f m # entry_chunks (concat (map f ms))"
    using Cons.prems [of m] len
    by (simp add: entry_chunks_def LIST_ENTRY_LEN_def upt_conv_Cons map_Suc_upt [symmetric] slice_append_left
        slice_append_right slice_def [of 0] del: upt_Suc)
  then show ?case using Cons by simp
qed

lemma lw_finish_frame:
  assumes "page_holds out w store sequence ms" and "lw_finish w out req has_more = Some (n, out')"
  shows "n = 16 + lw_filled w \<and> length out' = length out \<and> take n out' =
    frame OpList (FLAG_RESPONSE OR (if has_more then FLAG_MORE else 0)) (store @ le64 sequence @ concat (map list_entry ms)) req"
proof -
  define b where "b = store @ le64 sequence @ concat (map list_entry ms)"
  have b: "slice 16 (lw_filled w) out = b" and fit: "16 + lw_filled w \<le> length out"
    using assms(1) unfolding page_holds_def b_def by linarith+
  then have len: "length b = lw_filled w" by (auto dest: arg_cong [where f = length])
  have small: "lw_filled w \<le> 65535" using assms(2) by (auto simp: lw_finish_def write_header_def Let_def split: if_splits)
  define f where "f = FLAG_RESPONSE OR (if has_more then FLAG_MORE else 0)"
  have "write_frame out OpList f b req = Some (n, put_bytes out' 16 b)"
    using assms(2) by (simp add: write_frame_def lw_finish_def len HEADER_LEN_def f_def [symmetric])
  then have n: "n = 16 + lw_filled w" and fr: "put_bytes out' 16 b = frame OpList f b req @ drop (16 + lw_filled w) out"
    using small fit by (auto simp: write_frame_eq len)
  have "slice 16 (lw_filled w) out' = b" and lo: "length out' = length out"
    using assms(2) b fit
    by (auto simp: lw_finish_def write_header_def Let_def HEADER_LEN_def codec_simps split: if_splits)
  then have "put_bytes out' 16 b = out'"
    using fit len by (simp add: put_bytes_def slice_def) (metis append_take_drop_id drop_drop add.commute)
  then have "take n out' = frame OpList f b req" using fr n len by (metis append_eq_conv_conj length_frame)
  then show ?thesis using n lo by (simp add: b_def f_def)
qed

lemma decode_page:
  assumes "req \<noteq> 0" and "length store = 16" and "\<And>m. m \<in> set ms \<Longrightarrow> wf_listed m" and "has_more \<Longrightarrow> ms \<noteq> []"
    and "24 + 88 * length ms \<le> 65535"
  shows "\<exists>p. decode_response (frame OpList (FLAG_RESPONSE OR (if has_more then FLAG_MORE else 0))
      (store @ le64 sequence @ concat (map list_entry ms)) req) = Inr (\<lparr>hd_opcode = OpList, hd_request = req\<rparr>, RespList p)
    \<and> pg_store p = store \<and> pg_sequence p = sequence \<and> pg_more p = has_more \<and> page_entries p = ms"
proof -
  let ?es = "concat (map list_entry ms)" and ?b = "store @ le64 sequence @ concat (map list_entry ms)"
  have el: "length (list_entry m) = 88" if "m \<in> set ms" for m
    using assms(3) [OF that] by (simp add: wf_listed_def wf_text_def wf_link_name_def LINK_NAME_def)
  then have len: "length ?es = 88 * length ms" by (induction ms) auto
  have chunks: "entry_chunks ?es = map list_entry ms" by (rule entry_chunks_concat) (rule el)
  have all: "\<not> list_ex (\<lambda>e. decode_entry e = None) (map list_entry ms)"
    using assms(3) by (auto simp: list_ex_iff decode_list_entry)
  have pe: "page_entries \<lparr>pg_store = store, pg_sequence = sequence, pg_more = has_more, pg_entries = ?es\<rparr> = ms"
    using assms(3) by (simp add: page_entries_def chunks decode_list_entry map_idI)
  have es: "?es = [] \<longleftrightarrow> ms = []" using len by (metis length_0_conv mult_is_0 zero_neq_numeral)
  let ?f = "FLAG_RESPONSE OR (if has_more then FLAG_MORE else 0)"
  have "decode_list_page ?f ?b =
      Inr (RespList \<lparr>pg_store = store, pg_sequence = sequence, pg_more = has_more, pg_entries = ?es\<rparr>)"
    using assms(2,4) len all es
    by (auto simp: decode_list_page_def wire_consts chunks bytes16_at_def u64_at_def slice_def frame_flag_defs Let_def)
  moreover have "decode_response (frame OpList ?f ?b req) =
      map_sum id (\<lambda>a. (\<lparr>hd_opcode = OpList, hd_request = req\<rparr>, a)) (decode_list_page ?f ?b)"
    using decode_answer_frame(1) [of req ?b OpList] decode_answer_frame(2) [of req ?b] assms(1,2,5) len
    by (cases has_more) simp_all
  ultimately show ?thesis using pe by simp
qed

subsection \<open>Stream records\<close>

lemma length_sf_encode [simp]: "length (sf_encode f) = 16"
  by (simp add: sf_encode_def STREAM_HEADER_LEN_def put_defs)

lemma sf_fields:
  "u32_at (sf_encode f) 0 = sf_transfer f" "u64_at (sf_encode f) 4 = sf_offset f"
  "u16_at (sf_encode f) 12 = sf_len f" "u16_at (sf_encode f) 14 = 0"
  by (simp_all add: sf_encode_def STREAM_HEADER_LEN_def codec_simps slice_zeros)

lemma sf_split_Some:
  "sf_split rec = Some (f, p) \<longleftrightarrow> rec = sf_encode f @ p \<and> length p = unat (sf_len f) \<and> sf_len f \<noteq> 0"
proof
  assume "sf_split rec = Some (f, p)"
  then have s: "16 \<le> length rec" "u16_at rec 14 = 0" "u16_at rec 12 \<noteq> 0" "length rec = 16 + unat (u16_at rec 12)"
    "f = \<lparr>sf_transfer = u32_at rec 0, sf_offset = u64_at rec 4, sf_len = u16_at rec 12\<rparr>" "p = drop 16 rec"
    by (auto simp: sf_split_def STREAM_HEADER_LEN_def Let_def split: if_splits)
  have "slice 14 2 rec = zeros 2" using slice_at(1) [of rec 14 0] s by (simp add: le_zero)
  then have "cells 0 [4, 8, 2, 2] (sf_encode f) = cells 0 [4, 8, 2, 2] (take 16 rec)"
    using s by (simp add: sf_encode_def STREAM_HEADER_LEN_def codec_simps slice_zeros slice_take le_of_le)
  then have "sf_encode f = take 16 rec" by (rule cells_eqI) (use s in simp_all)
  then show "rec = sf_encode f @ p \<and> length p = unat (sf_len f) \<and> sf_len f \<noteq> 0" using s by simp
next
  assume a: "rec = sf_encode f @ p \<and> length p = unat (sf_len f) \<and> sf_len f \<noteq> 0"
  have "u32_at (sf_encode f @ p) 0 = sf_transfer f" "u64_at (sf_encode f @ p) 4 = sf_offset f"
    "u16_at (sf_encode f @ p) 12 = sf_len f" "u16_at (sf_encode f @ p) 14 = 0"
    using sf_fields [of f] by (simp_all add: at_defs slice_append_left)
  then show "sf_split rec = Some (f, p)" using a by (cases f) (simp add: sf_split_def STREAM_HEADER_LEN_def)
qed

lemma write_stream_record:
  assumes "write_stream out transfer offset len = Some (n, out')" and "slice 16 len out = p"
  shows "n = 16 + len \<and> length out' = length out \<and> length p = len \<and> 0 < len \<and>
    sf_split (take n out') = Some (\<lparr>sf_transfer = transfer, sf_offset = offset, sf_len = of_nat len\<rparr>, p)"
proof -
  let ?f = "\<lparr>sf_transfer = transfer, sf_offset = offset, sf_len = of_nat len\<rparr>"
  have n: "n = 16 + len" "16 + len \<le> length out" "0 < len" "len \<le> 65535" and o: "out' = put_bytes out 0 (sf_encode ?f)"
    using assms(1) by (auto simp: write_stream_def STREAM_HEADER_LEN_def Let_def split: if_splits)
  have "take n out' = sf_encode ?f @ p" using n assms(2) by (simp add: o put_bytes_def slice_def)
  moreover have "length p = len" using assms(2) n by auto
  moreover have u: "unat (of_nat len :: u16) = len" using n by (simp add: word_unat_of_nat)
  moreover have "(of_nat len :: u16) \<noteq> 0" using n(3) u by (metis less_irrefl unat_0)
  ultimately show ?thesis using n by (simp add: sf_split_Some o word_unat_of_nat)
qed

end
