(* ===== verification/Link_Records.thy ===== *)
theory Link_Records
  imports Link_Codec
begin

text \<open>
  Record boundaries over byte transports. On BLE the stream record's own header frames it:
  \<open>StreamRecordAssembler\<close> of \<open>firmware/obc-link/src/flat/wire.rs\<close> and the reader loop of
  \<open>firmware/obc-fw-nrf54l/src/ble/v4.rs\<close> that drives it. On USB a length prefix and padding do:
  \<open>Reassembler\<close> of \<open>obc-link/src/flat/records.rs\<close>, the reader of \<open>obc-fw-nrf54l/src/usb/records.rs\<close>,
  and the writers on both sides of the cable.

  Both readers are proved equal to a parser of the whole byte stream, so where the transport cuts
  the stream makes no difference.
\<close>

subsection \<open>Stream records over L2CAP\<close>

record assembler =
  sa_filled :: nat
  sa_expected :: "nat option"

datatype assembly = NeedMore | Complete nat | TooLarge nat

definition sa_new :: assembler where
  "sa_new = \<lparr>sa_filled = 0, sa_expected = None\<rparr>"

definition sa_reset :: "assembler \<Rightarrow> assembler" where
  "sa_reset a = a\<lparr>sa_filled := 0, sa_expected := None\<rparr>"

text \<open>
  The loop of \<open>push\<close>: what is consumed, the outcome, the cursor and the record buffer. \<open>None\<close> is
  the panic of a subtraction or a slice out of range.
\<close>

function sa_loop :: "assembler \<Rightarrow> bytes \<Rightarrow> bytes \<Rightarrow> nat \<Rightarrow> (nat \<times> assembly \<times> assembler \<times> bytes) option" where
  "sa_loop a rec input consumed =
     (if input = [] then Some (consumed, NeedMore, a, rec)
      else let target = (case sa_expected a of None \<Rightarrow> STREAM_HEADER_LEN | Some e \<Rightarrow> e);
               n = min (target - sa_filled a) (length input) in
      if target < sa_filled a \<or> length rec < sa_filled a + n then None
      else let rec' = put_bytes rec (sa_filled a) (take n input); filled' = sa_filled a + n;
               need = STREAM_HEADER_LEN + unat (u16_at rec' 12);
               parse = (sa_expected a = None \<and> filled' = STREAM_HEADER_LEN);
               expected' = (if parse then Some need else sa_expected a) in
      if parse \<and> need > length rec'
      then Some (consumed + n, TooLarge need, a\<lparr>sa_filled := filled'\<rparr>, rec')
      else if expected' = Some filled'
      then Some (consumed + n, Complete filled', \<lparr>sa_filled = filled', sa_expected = expected'\<rparr>, rec')
      else sa_loop \<lparr>sa_filled = filled', sa_expected = expected'\<rparr> rec' (drop n input) (consumed + n))"
  by pat_completeness auto
termination
proof (relation "measure (\<lambda>(a, rec, input, consumed). 2 * length input + (if sa_expected a = None then 1 else 0))", goal_cases)
  case (2 a rec input consumed target n rec' filled' need parse expected')
  then show ?case
  proof (cases "n = 0")
    case True
    then have "target = sa_filled a" using 2(1-4) by (cases "length input") auto
    then show ?thesis using 2 True by (cases "sa_expected a") auto
  next
    case False
    then have "length (drop n input) < length input" using 2(1) by simp
    then show ?thesis by (simp only: in_measure prod.case) auto
  qed
qed simp

definition sa_push :: "assembler \<Rightarrow> bytes \<Rightarrow> bytes \<Rightarrow> (nat \<times> assembly \<times> assembler \<times> bytes) option" where
  "sa_push a rec input =
     (if length rec < STREAM_HEADER_LEN then Some (0, TooLarge STREAM_HEADER_LEN, a, rec)
      else sa_loop a rec input 0)"


text \<open>
  The body of the reader loop for one SDU, with the records it hands to the driver: the buffer is
  released before the next byte is assembled. \<open>Inl\<close> is the framing error that ends the pump.
\<close>

function pump_sdu :: "assembler \<Rightarrow> bytes \<Rightarrow> bytes \<Rightarrow> (bytes list \<times> (nat + assembler \<times> bytes)) option" where
  "pump_sdu a rx bs =
     (if bs = [] then Some ([], Inr (a, rx))
      else case sa_push a rx bs of
          None \<Rightarrow> None
        | Some (used, st, a', rx') \<Rightarrow>
            (case st of
               NeedMore \<Rightarrow> if used = 0 then None else pump_sdu a' rx' (drop used bs)
             | TooLarge n \<Rightarrow> Some ([], Inl n)
             | Complete n \<Rightarrow>
                 if used = 0 \<and> sa_filled a = 0 then None
                 else map_option (\<lambda>(records, e). (take n rx' # records, e)) (pump_sdu (sa_reset a') rx' (drop used bs))))"
  by pat_completeness auto
termination
  by (relation "measures [\<lambda>(a, rx, bs). length bs, \<lambda>(a, rx, bs). sa_filled a]") (auto simp: sa_reset_def)

text \<open>\<open>reader_pump\<close> over the SDUs received; an empty one is skipped.\<close>

fun reader_pump :: "assembler \<Rightarrow> bytes \<Rightarrow> bytes list \<Rightarrow> (bytes list \<times> (nat + assembler \<times> bytes)) option" where
  "reader_pump a rx [] = Some ([], Inr (a, rx))"
| "reader_pump a rx (sdu # sdus) =
     (if sdu = [] then reader_pump a rx sdus
      else case pump_sdu a rx sdu of
          None \<Rightarrow> None
        | Some (records, Inl n) \<Rightarrow> Some (records, Inl n)
        | Some (records, Inr (a', rx')) \<Rightarrow>
            map_option (\<lambda>(rest, e). (records @ rest, e)) (reader_pump a' rx' sdus))"

subsection \<open>The parser of the whole stream\<close>

text \<open>The next record of a stream: not whole yet, too large for the buffer, or its length.\<close>

definition next_record :: "nat \<Rightarrow> bytes \<Rightarrow> (nat + nat) option" where
  "next_record cap bs =
     (if length bs < STREAM_HEADER_LEN then None
      else let n = STREAM_HEADER_LEN + unat (u16_at bs 12) in
      if n > cap then Some (Inl n) else if length bs < n then None else Some (Inr n))"

function split_records :: "nat \<Rightarrow> bytes \<Rightarrow> bytes list \<times> (nat + bytes)" where
  "split_records cap bs =
     (case next_record cap bs of
        None \<Rightarrow> ([], Inr bs)
      | Some (Inl n) \<Rightarrow> ([], Inl n)
      | Some (Inr n) \<Rightarrow> (case split_records cap (drop n bs) of (records, e) \<Rightarrow> (take n bs # records, e)))"
  by pat_completeness auto
termination
  by (relation "measure (\<lambda>(cap, bs). length bs)")
    (auto simp: next_record_def STREAM_HEADER_LEN_def Let_def split: if_splits)

declare sa_loop.simps [simp del] pump_sdu.simps [simp del] split_records.simps [simp del]

subsection \<open>One push\<close>

text \<open>The assembler holds the bytes \<open>p\<close> of a record that is not whole yet.\<close>

definition sa_holds :: "assembler \<Rightarrow> bytes \<Rightarrow> bytes \<Rightarrow> bool" where
  "sa_holds a rec p \<longleftrightarrow> 16 \<le> length rec \<and> sa_filled a \<le> length rec \<and> take (sa_filled a) rec = p \<and> sa_filled a = length p
     \<and> (case sa_expected a of None \<Rightarrow> length p < 16
          | Some e \<Rightarrow> 16 \<le> length p \<and> length p < e \<and> e \<le> length rec \<and> e = 16 + unat (u16_at p 12))"

lemma u16_prefix: "14 \<le> n \<Longrightarrow> u16_at (take n bs) 12 = u16_at bs 12"
  by (simp add: u16_at_def slice_take)

lemma sa_holds_pending: "sa_holds a rec p \<Longrightarrow> next_record (length rec) p = None"
  by (auto simp: sa_holds_def next_record_def STREAM_HEADER_LEN_def split: option.splits)

text \<open>What \<open>push\<close> owes for the pending bytes and its input.\<close>

definition push_outcome :: "bytes \<Rightarrow> bytes \<Rightarrow> bytes \<Rightarrow> nat \<Rightarrow> (nat \<times> assembly \<times> assembler \<times> bytes) option \<Rightarrow> bool" where
  "push_outcome rec p input consumed r \<longleftrightarrow> (\<exists>used st a' rec'. r = Some (used, st, a', rec') \<and> length rec' = length rec
     \<and> (case next_record (length rec) (p @ input) of
          None \<Rightarrow> st = NeedMore \<and> used = consumed + length input \<and> sa_holds a' rec' (p @ input)
        | Some (Inl n) \<Rightarrow> st = TooLarge n
        | Some (Inr n) \<Rightarrow> st = Complete n \<and> length p \<le> n \<and> used = consumed + (n - length p)
            \<and> n \<le> length rec \<and> take n rec' = take n (p @ input)))"

lemma push_more:
  "push_outcome rec' (p @ take n input) (drop n input) (consumed + n) r \<Longrightarrow> length rec' = length rec \<Longrightarrow>
   n \<le> length input \<Longrightarrow> push_outcome rec p input consumed r"
  unfolding push_outcome_def
  by (cases "next_record (length rec) (p @ input)"; simp; cases "the (next_record (length rec) (p @ input))"; fastforce)

lemma sa_loop_spec:
  "sa_holds a rec p \<Longrightarrow> push_outcome rec p input consumed (sa_loop a rec input consumed)"
proof (induction "length input" arbitrary: a rec p input consumed rule: less_induct)
  case 1: less
  show ?case
  proof (cases "input = []")
    case True
    then show ?thesis
      using 1(2) sa_holds_pending [OF 1(2)] by (simp add: push_outcome_def sa_loop.simps)
  next
    case False
    define target where "target = (case sa_expected a of None \<Rightarrow> STREAM_HEADER_LEN | Some e \<Rightarrow> e)"
    define n where "n = min (target - sa_filled a) (length input)"
    define rec' where "rec' = put_bytes rec (sa_filled a) (take n input)"
    define p' where "p' = p @ take n input"
    define need where "need = STREAM_HEADER_LEN + unat (u16_at rec' 12)"
    define parse where "parse = (sa_expected a = None \<and> length p' = STREAM_HEADER_LEN)"
    define e' where "e' = (if parse then Some need else sa_expected a)"
    have h: "16 \<le> length rec" "sa_filled a = length p" "take (length p) rec = p" "length p < target" "target \<le> length rec"
      using 1(2) by (auto simp: sa_holds_def target_def STREAM_HEADER_LEN_def split: option.splits)
    have n: "0 < n" "n \<le> length input" "length p + n \<le> target" using h False by (auto simp: n_def)
    have p': "length p' = length p + n" "take (length p') rec' = p'" "length rec' = length rec"
      using h n by (simp_all add: p'_def rec'_def put_bytes_def)
    have cont: "p' @ drop n input = p @ input" by (simp add: p'_def)
    have len16: "16 \<le> length p' \<Longrightarrow> u16_at rec' 12 = u16_at p' 12"
      using u16_prefix [of "length p'" rec'] p'(2) by simp
    have len16': "16 \<le> length p' \<Longrightarrow> u16_at (p @ input) 12 = u16_at p' 12"
      using u16_prefix [of "length p'" "p' @ drop n input"] by (simp only: cont) (simp add: cont [symmetric])
    have step: "sa_loop a rec input consumed =
        (if parse \<and> need > length rec' then Some (consumed + n, TooLarge need, a\<lparr>sa_filled := length p'\<rparr>, rec')
         else if e' = Some (length p')
         then Some (consumed + n, Complete (length p'), \<lparr>sa_filled = length p', sa_expected = e'\<rparr>, rec')
         else sa_loop \<lparr>sa_filled = length p', sa_expected = e'\<rparr> rec' (drop n input) (consumed + n))"
    proof -
      have "\<not> (target < sa_filled a \<or> length rec < sa_filled a + n)" and filled: "sa_filled a + n = length p'"
        using h n p'(1) by auto
      then show ?thesis
        by (subst sa_loop.simps) (simp only: False if_False Let_def target_def [symmetric] n_def [symmetric]
            rec'_def [symmetric] need_def [symmetric] filled parse_def [symmetric] e'_def [symmetric])
    qed
    show ?thesis
    proof (cases "parse \<and> need > length rec'")
      case True
      then have "next_record (length rec) (p @ input) = Some (Inl need)"
        using len16 len16' p' h arg_cong [OF cont, of length]
        by (simp add: next_record_def parse_def need_def STREAM_HEADER_LEN_def)
      then show ?thesis using step True p'(3) by (simp add: push_outcome_def)
    next
      case fits: False
      have exp: "e' = Some e \<Longrightarrow> 16 \<le> length p' \<and> e = 16 + unat (u16_at p' 12) \<and> e \<le> length rec" for e
      proof (cases parse)
        case True
        assume "e' = Some e"
        then show ?thesis using True fits len16 p' h by (simp add: e'_def need_def parse_def STREAM_HEADER_LEN_def)
      next
        case False
        assume "e' = Some e"
        then have "sa_expected a = Some e" using False by (simp add: e'_def)
        then have "16 \<le> length p" "e = 16 + unat (u16_at p 12)" "e \<le> length rec" using 1(2) by (auto simp: sa_holds_def)
        then show ?thesis using u16_prefix [of "length p" p'] p'(1) by (simp add: p'_def)
      qed
      show ?thesis
      proof (cases "e' = Some (length p')")
        case True
        note e = exp [OF True]
        have "next_record (length rec) (p @ input) = Some (Inr (length p'))"
          using e len16' arg_cong [OF cont, of length] by (simp add: next_record_def STREAM_HEADER_LEN_def)
        moreover have "take (length p') (p @ input) = p'" by (simp add: cont [symmetric])
        ultimately show ?thesis using step fits True p' e by (auto simp: push_outcome_def)
      next
        case False
        let ?a = "\<lparr>sa_filled = length p', sa_expected = e'\<rparr>"
        have holds: "sa_holds ?a rec' p'"
        proof (cases e')
          case None
          then have "sa_expected a = None" "\<not> parse" by (auto simp: e'_def split: if_splits)
          then have "length p' < 16" using h(2) p'(1) n(3) by (simp add: parse_def target_def STREAM_HEADER_LEN_def)
          then show ?thesis using None p' h by (simp add: sa_holds_def)
        next
          case (Some e)
          have "length p' \<le> e"
          proof (cases parse)
            case True
            then show ?thesis using Some exp [OF Some] h(2) p'(1) by (simp add: parse_def STREAM_HEADER_LEN_def)
          next
            case False
            then show ?thesis using Some n(3) p'(1) by (simp add: e'_def target_def)
          qed
          then show ?thesis using Some exp [OF Some] \<open>e' \<noteq> Some (length p')\<close> p' h by (simp add: sa_holds_def)
        qed
        have "push_outcome rec' p' (drop n input) (consumed + n) (sa_loop ?a rec' (drop n input) (consumed + n))"
          by (rule 1(1) [OF _ holds]) (use n False in simp)
        then show ?thesis using push_more [OF _ p'(3) n(2)] step fits False by (simp add: p'_def)
      qed
    qed
  qed
qed

subsection \<open>The whole stream\<close>

text \<open>The result of a pump as the parser states it: the pending bytes instead of cursor and buffer.\<close>

definition pending :: "bytes list \<times> (nat + assembler \<times> bytes) \<Rightarrow> bytes list \<times> (nat + bytes)" where
  "pending x = (fst x, map_sum id (\<lambda>(a, rx). take (sa_filled a) rx) (snd x))"

text \<open>A pump from the pending bytes \<open>p\<close> over the bytes \<open>bs\<close>, with the buffer kept for the next one.\<close>

definition pumps :: "nat \<Rightarrow> bytes \<Rightarrow> (bytes list \<times> (nat + assembler \<times> bytes)) option \<Rightarrow> bool" where
  "pumps cap bs r \<longleftrightarrow> (\<exists>x. r = Some x \<and> pending x = split_records cap bs
     \<and> (\<forall>a rx. snd x = Inr (a, rx) \<longrightarrow> length rx = cap \<and> sa_holds a rx (take (sa_filled a) rx)))"

lemma sa_holds_new: "16 \<le> length rx \<Longrightarrow> sa_holds sa_new rx []" "16 \<le> length rx \<Longrightarrow> sa_holds (sa_reset a) rx []"
  by (simp_all add: sa_holds_def sa_new_def sa_reset_def)

lemma pumps_cons:
  assumes "pumps cap (drop n bs) r" and "next_record cap bs = Some (Inr n)" and "t = take n bs"
  shows "pumps cap bs (map_option (\<lambda>(records, e). (t # records, e)) r)"
  using assms by (auto simp: pumps_def pending_def split_records.simps [of cap bs] split: prod.splits)

lemma pump_sdu_spec: "sa_holds a rx p \<Longrightarrow> pumps (length rx) (p @ bs) (pump_sdu a rx bs)"
proof (induction "length bs" arbitrary: a rx p bs rule: less_induct)
  case less
  have cap: "16 \<le> length rx" and p: "take (sa_filled a) rx = p" using less.prems unfolding sa_holds_def by blast+
  show ?case
  proof (cases "bs = []")
    case True
    then show ?thesis
      using less.prems sa_holds_pending [OF less.prems] p
      by (simp add: pump_sdu.simps pumps_def pending_def split_records.simps [of _ p])
  next
    case False
    have "push_outcome rx p bs 0 (sa_push a rx bs)"
      using sa_loop_spec [OF less.prems] cap by (simp add: sa_push_def STREAM_HEADER_LEN_def)
    then obtain used st a' rx' where push: "sa_push a rx bs = Some (used, st, a', rx')" and len: "length rx' = length rx"
      and out: "case next_record (length rx) (p @ bs) of
          None \<Rightarrow> st = NeedMore \<and> used = 0 + length bs \<and> sa_holds a' rx' (p @ bs)
        | Some (Inl n) \<Rightarrow> st = TooLarge n
        | Some (Inr n) \<Rightarrow> st = Complete n \<and> length p \<le> n \<and> used = 0 + (n - length p)
            \<and> n \<le> length rx \<and> take n rx' = take n (p @ bs)"
      unfolding push_outcome_def by blast
    show ?thesis
    proof (cases "next_record (length rx) (p @ bs)")
      case None
      then have st: "st = NeedMore" "used = length bs" "sa_holds a' rx' (p @ bs)" using out by simp_all
      then have "pumps (length rx) (p @ bs) (pump_sdu a' rx' [])"
        using less.hyps [of "[]" a' rx' "p @ bs"] False len by simp
      then show ?thesis using st False push by (simp add: pump_sdu.simps [of a rx bs])
    next
      case (Some nr)
      show ?thesis
      proof (cases nr)
        case (Inl n)
        then show ?thesis
          using out Some False push by (simp add: pump_sdu.simps [of a rx bs] pumps_def pending_def split_records.simps [of _ "p @ bs"])
      next
        case (Inr n)
        then have st: "st = Complete n" "length p \<le> n" "used = n - length p" "n \<le> length rx" "take n rx' = take n (p @ bs)"
          using out Some by simp_all
        have "length p < n"
        proof (rule ccontr)
          assume "\<not> length p < n"
          then have n: "n = length p" using st(2) by simp
          then have "next_record (length rx) p = Some (Inr n)"
            using Some Inr u16_prefix [of "length p" "p @ bs"] by (auto simp: next_record_def STREAM_HEADER_LEN_def Let_def split: if_splits)
          then show False using sa_holds_pending [OF less.prems] by simp
        qed
        then have used: "0 < used" using st by simp
        then have shorter: "length (drop used bs) < length bs" using False by (simp add: diff_less)
        have "pumps (length rx') ([] @ drop used bs) (pump_sdu (sa_reset a') rx' (drop used bs))"
          by (rule less.hyps [OF shorter sa_holds_new(2)]) (use cap len in simp)
        then have "pumps (length rx) (drop n (p @ bs)) (pump_sdu (sa_reset a') rx' (drop used bs))"
          using st len by simp
        then have "pumps (length rx) (p @ bs)
            (map_option (\<lambda>(records, e). (take n rx' # records, e)) (pump_sdu (sa_reset a') rx' (drop used bs)))"
          by (rule pumps_cons) (use Some Inr st in simp_all)
        then show ?thesis using st used False push by (simp add: pump_sdu.simps [of a rx bs])
      qed
    qed
  qed
qed

lemma next_record_append: "next_record cap xs = Some x \<Longrightarrow> next_record cap (xs @ ys) = Some x"
  by (auto simp: next_record_def STREAM_HEADER_LEN_def u16_at_def slice_append_left Let_def split: if_splits)

lemma next_record_within: "next_record cap xs = Some (Inr n) \<Longrightarrow> n \<le> length xs \<and> 16 \<le> n"
  by (auto simp: next_record_def STREAM_HEADER_LEN_def Let_def split: if_splits)

lemma split_records_append:
  "split_records cap xs = (rs, e) \<Longrightarrow> split_records cap (xs @ ys) = (case e of Inl n \<Rightarrow> (rs, Inl n)
     | Inr p \<Rightarrow> (case split_records cap (p @ ys) of (rs', e') \<Rightarrow> (rs @ rs', e')))"
proof (induction cap xs arbitrary: rs rule: split_records.induct)
  case (1 cap xs)
  show ?case
  proof (cases "next_record cap xs")
    case None
    then have "rs = []" "e = Inr xs" using 1(2) by (simp_all add: split_records.simps [of cap xs])
    then show ?thesis by (simp split: prod.splits)
  next
    case (Some nr)
    show ?thesis
    proof (cases nr)
      case (Inl n)
      then show ?thesis using 1(2) Some next_record_append [OF Some, of ys] by (auto simp: split_records.simps [of cap])
    next
      case (Inr n)
      obtain rs0 where rs: "split_records cap (drop n xs) = (rs0, e)" "rs = take n xs # rs0"
        using 1(2) Some Inr by (auto simp: split_records.simps [of cap xs] split: prod.splits)
      note ih = 1(1) [OF Some Inr rs(1)]
      have "drop n (xs @ ys) = drop n xs @ ys" "take n (xs @ ys) = take n xs"
        using next_record_within Some Inr by fastforce+
      then show ?thesis
        using ih rs Some Inr next_record_append [OF Some, of ys]
        by (subst split_records.simps) (simp split: sum.splits prod.splits)
    qed
  qed
qed

lemma reader_pump_spec: "sa_holds a rx p \<Longrightarrow> pumps (length rx) (p @ concat sdus) (reader_pump a rx sdus)"
proof (induction sdus arbitrary: a rx p)
  case Nil
  then show ?case using pump_sdu_spec [OF Nil, of "[]"] by (simp add: pump_sdu.simps)
next
  case (Cons sdu sdus)
  show ?case
  proof (cases "sdu = []")
    case True
    then show ?thesis using Cons by simp
  next
    case False
    obtain x where x: "pump_sdu a rx sdu = Some x" "pending x = split_records (length rx) (p @ sdu)"
      "\<And>a rx'. snd x = Inr (a, rx') \<Longrightarrow> length rx' = length rx \<and> sa_holds a rx' (take (sa_filled a) rx')"
      using pump_sdu_spec [OF Cons.prems, of sdu] by (auto simp: pumps_def)
    obtain rs e where rs: "x = (rs, e)" by fastforce
    show ?thesis
    proof (cases e)
      case (Inl n)
      then show ?thesis
        using False x rs split_records_append [of "length rx" "p @ sdu" rs "Inl n" "concat sdus"]
        by (simp add: pumps_def pending_def)
    next
      case (Inr ar)
      obtain a' rx' where ar: "ar = (a', rx')" by fastforce
      define q where "q = take (sa_filled a') rx'"
      have q: "length rx' = length rx" "sa_holds a' rx' q" using x(3) rs Inr ar by (auto simp: q_def)
      have split: "split_records (length rx) (p @ sdu) = (rs, Inr q)" using x(2) rs Inr ar by (simp add: pending_def q_def)
      have "pumps (length rx) (q @ concat sdus) (reader_pump a' rx' sdus)" using Cons.IH [OF q(2)] q(1) by simp
      then show ?thesis
        using False x(1) rs Inr ar split_records_append [OF split, of "concat sdus"]
        by (auto simp: pumps_def pending_def split: prod.splits)
    qed
  qed
qed

lemma split_valid_records:
  "\<forall>r\<in>set rs. sf_split r \<noteq> None \<and> length r \<le> cap \<Longrightarrow> split_records cap (concat rs) = (rs, Inr [])"
proof (induction rs)
  case Nil
  then show ?case by (simp add: split_records.simps next_record_def STREAM_HEADER_LEN_def)
next
  case (Cons r rs)
  then have "next_record cap r = Some (Inr (length r))"
    by (auto simp: sf_split_def next_record_def STREAM_HEADER_LEN_def Let_def split: if_splits)
  then have "next_record cap (r @ concat rs) = Some (Inr (length r))" by (rule next_record_append)
  then show ?case using Cons by (subst split_records.simps) simp
qed

text \<open>
  C17: cutting the L2CAP byte stream into SDUs makes no difference. Whatever the SDUs, the reader loop
  hands on exactly the records a parse of their concatenation yields, keeps exactly the bytes of the
  unfinished record, and stops with the same framing error where the parse does; it never panics and
  never waits on a record that is whole.
\<close>

theorem reader_pump_is_parser:
  assumes "STREAM_HEADER_LEN \<le> length rx"
  shows "map_option pending (reader_pump sa_new rx sdus) = Some (split_records (length rx) (concat sdus))"
proof -
  have "pumps (length rx) ([] @ concat sdus) (reader_pump sa_new rx sdus)"
    by (rule reader_pump_spec, rule sa_holds_new) (use assms in \<open>simp add: STREAM_HEADER_LEN_def\<close>)
  then show ?thesis by (auto simp: pumps_def)
qed

theorem reader_pump_is_parser_witness:
  "map_option pending (reader_pump sa_new (zeros 64) [[1, 0], zeros 20, [7]]) =
     Some (split_records 64 ([1, 0] @ zeros 20 @ [7]))"
  using reader_pump_is_parser [of "zeros 64" "[[1, 0], zeros 20, [7]]"] by (simp add: STREAM_HEADER_LEN_def)

subsection \<open>Records over USB\<close>

definition RECORD_PREFIX :: nat where "RECORD_PREFIX = 4"
definition RECORD_ALIGNMENT :: nat where "RECORD_ALIGNMENT = 4"

text \<open>\<open>(n + 3) & !3\<close>: the low bits cleared.\<close>

definition padded_len :: "nat \<Rightarrow> nat" where
  "padded_len n = n + (RECORD_ALIGNMENT - 1) - (n + (RECORD_ALIGNMENT - 1)) mod RECORD_ALIGNMENT"

definition buffer_len :: "nat \<Rightarrow> nat \<Rightarrow> nat" where
  "buffer_len ceiling armed = RECORD_PREFIX + padded_len ceiling + armed"

datatype record_fault = ZeroLength | OverCeiling nat nat | NonZeroPadding

record reassembler =
  ra_ceiling :: nat
  ra_filled :: nat
  ra_at :: nat

definition ra_new :: "nat \<Rightarrow> reassembler" where
  "ra_new ceiling = \<lparr>ra_ceiling = ceiling, ra_filled = 0, ra_at = 0\<rparr>"

definition ra_reset :: "reassembler \<Rightarrow> reassembler" where
  "ra_reset r = r\<lparr>ra_filled := 0, ra_at := 0\<rparr>"

definition buffered :: "reassembler \<Rightarrow> nat" where
  "buffered r = ra_filled r - ra_at r"

text \<open>Where the next read lands, with the buffer after a compaction.\<close>

definition read_offset :: "reassembler \<Rightarrow> bytes \<Rightarrow> nat \<Rightarrow> nat \<times> reassembler \<times> bytes" where
  "read_offset r buf armed =
     (if length buf - ra_filled r < armed
      then let r' = r\<lparr>ra_filled := ra_filled r - ra_at r, ra_at := 0\<rparr> in
        (ra_filled r', r', put_bytes buf 0 (slice (ra_at r) (ra_filled r - ra_at r) buf))
      else (ra_filled r, r, buf))"

definition ra_landed :: "nat \<Rightarrow> reassembler \<Rightarrow> reassembler" where
  "ra_landed n r = r\<lparr>ra_filled := ra_filled r + n\<rparr>"

definition ra_take :: "reassembler \<Rightarrow> bytes \<Rightarrow> (record_fault + (nat \<times> nat) option) \<times> reassembler" where
  "ra_take r buf =
     (if buffered r < RECORD_PREFIX then (Inr None, r)
      else let len = unat (u32_at buf (ra_at r)) in
      if len = 0 then (Inl ZeroLength, r)
      else if len > ra_ceiling r then (Inl (OverCeiling len (ra_ceiling r)), r)
      else let padded = padded_len len in
      if buffered r < RECORD_PREFIX + padded then (Inr None, r)
      else let start = ra_at r + RECORD_PREFIX in
      if \<not> is_zero buf (start + len) (padded - len) then (Inl NonZeroPadding, r)
      else (Inr (Some (start, len)), r\<lparr>ra_at := ra_at r + (RECORD_PREFIX + padded)\<rparr>))"

text \<open>The endpoint's answers to a read, and how a reader ends.\<close>

datatype ep_read = Packet bytes | EpDisabled | EpFault

datatype record_end = LinkDown | BadFraming | DriverEnd

record record_reader =
  rd_buf :: bytes
  rd_frames :: reassembler
  rd_armed :: nat

text \<open>
  \<open>RecordReader::next\<close> over the endpoint's next answers: the record or the end, with the answers not
  consumed. \<open>None\<close> is a reader still waiting on the endpoint.
\<close>

fun reader_next :: "record_reader \<Rightarrow> ep_read list \<Rightarrow> (record_end + bytes) option \<times> record_reader \<times> ep_read list" where
  "reader_next rd reads =
     (case ra_take (rd_frames rd) (rd_buf rd) of
        (Inr (Some (start, len)), fr) \<Rightarrow> (Some (Inr (slice start len (rd_buf rd))), rd\<lparr>rd_frames := fr\<rparr>, reads)
      | (Inl _, fr) \<Rightarrow> (Some (Inl BadFraming), rd\<lparr>rd_frames := fr\<rparr>, reads)
      | (Inr None, fr) \<Rightarrow>
          (case read_offset fr (rd_buf rd) (rd_armed rd) of
             (at, fr', buf) \<Rightarrow>
               let rd' = rd\<lparr>rd_buf := buf, rd_frames := fr'\<rparr> in
               (case reads of
                  [] \<Rightarrow> (None, rd', [])
                | Packet bs # rest \<Rightarrow>
                    reader_next (if bs = [] then rd' else rd'\<lparr>rd_buf := put_bytes buf at bs, rd_frames := ra_landed (length bs) fr'\<rparr>) rest
                | EpDisabled # rest \<Rightarrow> (Some (Inl LinkDown), rd', rest)
                | EpFault # rest \<Rightarrow> (Some (Inl DriverEnd), rd', rest))))"

text \<open>\<open>RecordWriter::send\<close>: the bytes that go out for one frame; \<open>None\<close> when no prefix can name it.\<close>

definition send_bytes :: "bytes \<Rightarrow> bytes option" where
  "send_bytes fr = (if length fr < 2 ^ 32
     then Some (le32 (of_nat (length fr)) @ fr @ zeros (padded_len (length fr) - length fr)) else None)"

text \<open>The next record of a framed stream: not whole yet, a fault, or the length of its frame.\<close>

definition next_framed :: "nat \<Rightarrow> bytes \<Rightarrow> (record_fault + nat) option" where
  "next_framed ceiling bs =
     (if length bs < 4 then None
      else let len = unat (u32_at bs 0) in
      if len = 0 then Some (Inl ZeroLength)
      else if len > ceiling then Some (Inl (OverCeiling len ceiling))
      else if length bs < 4 + padded_len len then None
      else if \<not> is_zero bs (4 + len) (padded_len len - len) then Some (Inl NonZeroPadding)
      else Some (Inr len))"

lemma padded_len_props: "n \<le> padded_len n" "padded_len n < n + 4" "m \<le> n \<Longrightarrow> padded_len m \<le> padded_len n"
proof -
  have eq: "padded_len k = 4 * ((k + 3) div 4)" for k
    using minus_mod_eq_mult_div [of "k + 3" 4] by (simp add: padded_len_def RECORD_ALIGNMENT_def)
  show "n \<le> padded_len n" "padded_len n < n + 4" by (simp_all add: eq)
  show "m \<le> n \<Longrightarrow> padded_len m \<le> padded_len n" by (simp add: eq div_le_mono)
qed

text \<open>The reassembler holds the bytes \<open>p\<close> not yet handed on.\<close>

definition ra_holds :: "reassembler \<Rightarrow> bytes \<Rightarrow> bytes \<Rightarrow> bool" where
  "ra_holds r buf p \<longleftrightarrow> ra_at r + length p = ra_filled r \<and> ra_filled r \<le> length buf
     \<and> slice (ra_at r) (length p) buf = p"

lemma ra_holds_slice:
  "ra_holds r buf p \<Longrightarrow> off + n \<le> length p \<Longrightarrow> slice (ra_at r + off) n buf = slice off n p"
  by (metis ra_holds_def slice_slice)

lemma ra_take_spec:
  assumes "ra_holds r buf p" and "ra_take r buf = (x, r')"
  shows "case next_framed (ra_ceiling r) p of
      None \<Rightarrow> x = Inr None \<and> r' = r
    | Some (Inl f) \<Rightarrow> x = Inl f
    | Some (Inr n) \<Rightarrow> x = Inr (Some (ra_at r + 4, n)) \<and> slice (ra_at r + 4) n buf = slice 4 n p
        \<and> ra_ceiling r' = ra_ceiling r \<and> ra_holds r' buf (drop (4 + padded_len n) p)"
proof (cases "length p < 4")
  case True
  moreover have "buffered r = length p" using assms(1) by (auto simp: buffered_def ra_holds_def)
  ultimately show ?thesis using assms(2) by (simp add: ra_take_def next_framed_def RECORD_PREFIX_def)
next
  case False
  have b: "buffered r = length p" using assms(1) by (auto simp: buffered_def ra_holds_def)
  have len: "u32_at buf (ra_at r) = u32_at p 0"
    using ra_holds_slice [OF assms(1), of 0 4] False by (simp add: u32_at_def)
  define n where "n = unat (u32_at p 0)"
  have pad: "is_zero buf (ra_at r + 4 + n) (padded_len n - n) = is_zero p (4 + n) (padded_len n - n)"
    if "4 + padded_len n \<le> length p"
    using ra_holds_slice [OF assms(1), of "4 + n" "padded_len n - n"] padded_len_props(1) [of n] that
    by (simp add: is_zero_def add.assoc)
  have body: "slice (ra_at r + 4) n buf = slice 4 n p" if "4 + padded_len n \<le> length p"
    using ra_holds_slice [OF assms(1), of 4 n] padded_len_props(1) [of n] that by simp
  have rest: "ra_holds (r\<lparr>ra_at := ra_at r + (4 + padded_len n)\<rparr>) buf (drop (4 + padded_len n) p)"
    if "4 + padded_len n \<le> length p"
    using assms(1) ra_holds_slice [OF assms(1), of "4 + padded_len n" "length p - (4 + padded_len n)"] that
    by (simp add: ra_holds_def slice_def [of "4 + padded_len n"])
  show ?thesis
    using assms(2) False b len pad body rest
    by (auto simp: ra_take_def next_framed_def RECORD_PREFIX_def n_def Let_def split: if_splits)
qed

lemma next_framed_pending: "next_framed ceiling p = None \<Longrightarrow> length p < 4 + padded_len ceiling"
  using padded_len_props(3) [of "unat (u32_at p 0)" ceiling]
  by (auto simp: next_framed_def Let_def split: if_splits)

lemma read_offset_room:
  assumes "ra_holds r buf p" and "next_framed (ra_ceiling r) p = None" and "buffer_len (ra_ceiling r) armed \<le> length buf"
    and "read_offset r buf armed = (off, r', buf')"
  shows "ra_holds r' buf' p \<and> off = ra_filled r' \<and> off + armed \<le> length buf' \<and> length buf' = length buf
    \<and> ra_ceiling r' = ra_ceiling r"
proof (cases "length buf - ra_filled r < armed")
  case False
  then show ?thesis using assms(1,4) by (auto simp: read_offset_def ra_holds_def)
next
  case True
  have "length p + armed \<le> length buf"
    using next_framed_pending [OF assms(2)] assms(3) by (simp add: buffer_len_def RECORD_PREFIX_def)
  moreover have n: "ra_filled r - ra_at r = length p" using assms(1) by (auto simp: ra_holds_def)
  moreover have "slice (ra_at r) (ra_filled r - ra_at r) buf = p" using assms(1) by (simp only: n) (simp add: ra_holds_def)
  ultimately show ?thesis
    using True assms(4) by (auto simp: read_offset_def ra_holds_def codec_simps)
qed

text \<open>A reader whose buffer is as large as its contract asks, holding \<open>p\<close>.\<close>

definition rd_holds :: "record_reader \<Rightarrow> bytes \<Rightarrow> bool" where
  "rd_holds rd p \<longleftrightarrow> ra_holds (rd_frames rd) (rd_buf rd) p
     \<and> buffer_len (ra_ceiling (rd_frames rd)) (rd_armed rd) \<le> length (rd_buf rd)"

declare reader_next.simps [simp del]

lemma next_framed_append:
  "next_framed c p = Some nr \<Longrightarrow> next_framed c (p @ q) = Some nr"
  "next_framed c p = Some (Inr n) \<Longrightarrow> 4 + padded_len n \<le> length p"
  using padded_len_props(1) [of "unat (u32_at p 0)"]
  by (auto simp: next_framed_def u32_at_def slice_append_left is_zero_def Let_def split: if_splits)

lemma reader_next_ready:
  assumes "rd_holds rd p" and "next_framed (ra_ceiling (rd_frames rd)) p = Some nr"
  shows "\<exists>rd'. rd_armed rd' = rd_armed rd \<and> reader_next rd reads =
      (Some (case nr of Inl _ \<Rightarrow> Inl BadFraming | Inr n \<Rightarrow> Inr (slice 4 n p)), rd', reads)
    \<and> (\<forall>n. nr = Inr n \<longrightarrow> rd_holds rd' (drop (4 + padded_len n) p) \<and> ra_ceiling (rd_frames rd') = ra_ceiling (rd_frames rd))"
proof -
  obtain x r' where t: "ra_take (rd_frames rd) (rd_buf rd) = (x, r')" by fastforce
  have h: "ra_holds (rd_frames rd) (rd_buf rd) p" "buffer_len (ra_ceiling (rd_frames rd)) (rd_armed rd) \<le> length (rd_buf rd)"
    using assms(1) by (simp_all add: rd_holds_def)
  show ?thesis
    using ra_take_spec [OF h(1) t] assms(2) h(2) t
    by (cases nr) (simp_all add: reader_next.simps [of rd reads] rd_holds_def)
qed

lemma reader_next_waits:
  assumes "rd_holds rd p" and "next_framed (ra_ceiling (rd_frames rd)) p = None"
  shows "\<exists>rd'. rd_holds rd' p \<and> rd_armed rd' = rd_armed rd \<and> ra_ceiling (rd_frames rd') = ra_ceiling (rd_frames rd)
    \<and> reader_next rd [] = (None, rd', [])
    \<and> (\<forall>bs reads. length bs \<le> rd_armed rd \<longrightarrow> (\<exists>rd''. rd_holds rd'' (p @ bs) \<and> rd_armed rd'' = rd_armed rd
          \<and> ra_ceiling (rd_frames rd'') = ra_ceiling (rd_frames rd) \<and> reader_next rd (Packet bs # reads) = reader_next rd'' reads))"
proof -
  obtain x r' where t: "ra_take (rd_frames rd) (rd_buf rd) = (x, r')" by fastforce
  have h: "ra_holds (rd_frames rd) (rd_buf rd) p" "buffer_len (ra_ceiling (rd_frames rd)) (rd_armed rd) \<le> length (rd_buf rd)"
    using assms(1) by (simp_all add: rd_holds_def)
  have x: "x = Inr None" "r' = rd_frames rd" using ra_take_spec [OF h(1) t] assms(2) by simp_all
  obtain off fr buf where ro: "read_offset (rd_frames rd) (rd_buf rd) (rd_armed rd) = (off, fr, buf)" by (rule prod_cases3)
  note room = read_offset_room [OF h(1) assms(2) h(2) ro]
  let ?rd = "rd\<lparr>rd_buf := buf, rd_frames := fr\<rparr>"
  have grow: "rd_holds (?rd\<lparr>rd_buf := put_bytes buf off bs, rd_frames := ra_landed (length bs) fr\<rparr>) (p @ bs)"
    if "length bs \<le> rd_armed rd" for bs
  proof -
    have r: "ra_at fr + length p = off" "off + length bs \<le> length buf" "slice (ra_at fr) (length p) buf = p"
      "length buf = length (rd_buf rd)" "off = ra_filled fr" "ra_ceiling fr = ra_ceiling (rd_frames rd)"
      using room that by (auto simp: ra_holds_def)
    have "slice (ra_at fr) (length p + length bs) (put_bytes buf off bs) = p @ bs"
      using slice_append_slice [of "ra_at fr" "length p" "put_bytes buf off bs" "length bs"] r by (simp add: codec_simps)
    then show ?thesis using r h(2) by (simp add: rd_holds_def ra_holds_def ra_landed_def)
  qed
  have "rd_holds ?rd p" using room h(2) by (simp add: rd_holds_def)
  moreover have "reader_next rd [] = (None, ?rd, [])" by (simp add: reader_next.simps [of rd] t x ro)
  moreover have "reader_next rd (Packet bs # reads) = reader_next (if bs = [] then ?rd
      else ?rd\<lparr>rd_buf := put_bytes buf off bs, rd_frames := ra_landed (length bs) fr\<rparr>) reads" for bs reads
    by (simp add: reader_next.simps [of rd] t x ro Let_def)
  ultimately show ?thesis using grow room
    by (intro exI [of _ ?rd]) (auto intro!: exI [of _ "if bs = [] then ?rd else
      ?rd\<lparr>rd_buf := put_bytes buf off bs, rd_frames := ra_landed (length bs) fr\<rparr>" for bs] simp: ra_landed_def)
qed

text \<open>What one call of \<open>next\<close> owes for the pending bytes and the packets of the endpoint.\<close>

definition next_owes :: "nat \<Rightarrow> nat \<Rightarrow> bytes \<Rightarrow> bytes list
    \<Rightarrow> (record_end + bytes) option \<times> record_reader \<times> ep_read list \<Rightarrow> bool" where
  "next_owes ceiling armed p packets r \<longleftrightarrow> (let bs = p @ concat packets in case r of (x, rd', reads) \<Rightarrow>
     (case next_framed ceiling bs of
        None \<Rightarrow> x = None \<and> reads = [] \<and> rd_holds rd' bs
      | Some (Inl f) \<Rightarrow> x = Some (Inl BadFraming)
      | Some (Inr n) \<Rightarrow> x = Some (Inr (slice 4 n bs)) \<and>
          (\<exists>p' k. reads = map Packet (drop k packets) \<and> rd_holds rd' p' \<and> rd_armed rd' = armed
             \<and> ra_ceiling (rd_frames rd') = ceiling \<and> p' @ concat (drop k packets) = drop (4 + padded_len n) bs)))"

lemma next_owes_more: "next_owes c a (p @ bs) packets r \<Longrightarrow> next_owes c a p (bs # packets) r"
proof (cases r; cases "next_framed c (p @ bs @ concat packets)")
  fix x rd reads nr
  assume o: "next_owes c a (p @ bs) packets r" and r: "r = (x, rd, reads)"
    and nr: "next_framed c (p @ bs @ concat packets) = Some nr"
  show "next_owes c a p (bs # packets) r"
  proof (cases nr)
    case (Inr n)
    then obtain p' k where "x = Some (Inr (slice 4 n (p @ bs @ concat packets)))"
      "reads = map Packet (drop k packets)" "rd_holds rd p'" "rd_armed rd = a" "ra_ceiling (rd_frames rd) = c"
      "p' @ concat (drop k packets) = drop (4 + padded_len n) (p @ bs @ concat packets)"
      using o nr r by (auto simp: next_owes_def)
    then show ?thesis using nr r Inr by (auto simp: next_owes_def intro!: exI [of _ p'] exI [of _ "Suc k"])
  qed (use o nr r in \<open>simp add: next_owes_def\<close>)
qed (simp add: next_owes_def)

lemma next_owes_ready:
  assumes "rd_holds rd p" and "next_framed (ra_ceiling (rd_frames rd)) p = Some nr"
  shows "next_owes (ra_ceiling (rd_frames rd)) (rd_armed rd) p packets (reader_next rd (map Packet packets))"
proof -
  note app = next_framed_append(1) [OF assms(2), of "concat packets"]
  show ?thesis
  proof (cases nr)
    case (Inl f)
    then show ?thesis using reader_next_ready [OF assms, of "map Packet packets"] app by (auto simp: next_owes_def)
  next
    case (Inr n)
    then have n: "4 + padded_len n \<le> length p" "4 + n \<le> length p"
      using next_framed_append(2) assms(2) padded_len_props(1) [of n] by fastforce+
    have "\<exists>p' k. map Packet packets = map Packet (drop k packets) \<and> p' = drop (4 + padded_len n) p
        \<and> p' @ concat (drop k packets) = drop (4 + padded_len n) (p @ concat packets)"
      by (intro exI [of _ "drop (4 + padded_len n) p"] exI [of _ 0]) (use n in simp)
    then show ?thesis
      using reader_next_ready [OF assms, of "map Packet packets"] app Inr n
      by (fastforce simp: next_owes_def slice_append_left)
  qed
qed

lemma reader_next_spec:
  "rd_holds rd p \<Longrightarrow> \<forall>bs\<in>set packets. length bs \<le> rd_armed rd \<Longrightarrow>
   next_owes (ra_ceiling (rd_frames rd)) (rd_armed rd) p packets (reader_next rd (map Packet packets))"
proof (induction packets arbitrary: rd p)
  case Nil
  show ?case
  proof (cases "next_framed (ra_ceiling (rd_frames rd)) p")
    case None
    then show ?thesis using reader_next_waits [OF Nil(1) None] by (auto simp: next_owes_def)
  qed (rule next_owes_ready [OF Nil(1)])
next
  case (Cons bs packets)
  show ?case
  proof (cases "next_framed (ra_ceiling (rd_frames rd)) p")
    case None
    then obtain rd' where rd': "rd_holds rd' (p @ bs)" "rd_armed rd' = rd_armed rd"
      "ra_ceiling (rd_frames rd') = ra_ceiling (rd_frames rd)"
      "reader_next rd (Packet bs # map Packet packets) = reader_next rd' (map Packet packets)"
      using reader_next_waits [OF Cons.prems(1) None] Cons.prems(2) by (metis list.set_intros(1))
    have "next_owes (ra_ceiling (rd_frames rd')) (rd_armed rd') (p @ bs) packets (reader_next rd' (map Packet packets))"
      by (rule Cons.IH [OF rd'(1)]) (use Cons.prems(2) rd'(2) in simp)
    then show ?thesis using next_owes_more rd' by simp
  qed (rule next_owes_ready [OF Cons.prems(1)])
qed

lemma next_framed_sent:
  assumes "send_bytes f = Some wire" and "f \<noteq> []" and "length f \<le> ceiling"
  shows "next_framed ceiling (wire @ q) = Some (Inr (length f)) \<and> slice 4 (length f) (wire @ q) = f"
proof -
  have w: "wire = le32 (of_nat (length f)) @ f @ zeros (padded_len (length f) - length f)" and len: "length f < 2 ^ 32"
    using assms(1) by (auto simp: send_bytes_def split: if_splits)
  have u: "unat (of_nat (length f) :: u32) = length f" using len by (simp add: word_unat_of_nat)
  have n: "u32_at (wire @ q) 0 = of_nat (length f)" by (simp add: w u32_at_def slice_def)
  have s: "slice 4 (length f) (wire @ q) = f" by (simp add: w slice_def)
  have z: "is_zero (wire @ q) (4 + length f) (padded_len (length f) - length f)"
    by (simp add: w is_zero_def slice_def) (simp add: zeros_def list_all_length)
  have l: "length (wire @ q) = 4 + padded_len (length f) + length q"
    using padded_len_props(1) [of "length f"] by (simp add: w)
  show ?thesis using n s z l u assms(2,3) by (simp add: next_framed_def)
qed

text \<open>
  C16: cutting the USB record stream into packets makes no difference. A reader whose buffer has the
  size its constructor asks for, with any bytes pending and any packets no larger than an armed read,
  returns from \<open>next\<close> exactly the first record of the pending bytes and the packets joined, and still
  holds exactly the bytes after it; it ends on a framing fault exactly when that stream begins with
  one, and waits exactly when the record is not whole. A frame the writer sent arrives as it was.
\<close>

theorem usb_reader_is_parser:
  assumes "rd_holds rd p" and "\<forall>bs\<in>set packets. length bs \<le> rd_armed rd"
  shows "next_owes (ra_ceiling (rd_frames rd)) (rd_armed rd) p packets (reader_next rd (map Packet packets))
    \<and> (\<forall>f wire q. send_bytes f = Some wire \<and> f \<noteq> [] \<and> length f \<le> ra_ceiling (rd_frames rd)
         \<and> p @ concat packets = wire @ q \<longrightarrow> fst (reader_next rd (map Packet packets)) = Some (Inr f))"
proof -
  have owes: "next_owes (ra_ceiling (rd_frames rd)) (rd_armed rd) p packets (reader_next rd (map Packet packets))"
    by (rule reader_next_spec [OF assms])
  have "fst (reader_next rd (map Packet packets)) = Some (Inr f)"
    if "send_bytes f = Some wire" "f \<noteq> []" "length f \<le> ra_ceiling (rd_frames rd)" "p @ concat packets = wire @ q" for f wire q
    using owes next_framed_sent [OF that(1-3), of q] that(4) by (auto simp: next_owes_def split: prod.splits)
  with owes show ?thesis by blast
qed

definition demo_reader :: record_reader where
  "demo_reader = \<lparr>rd_buf = zeros 32, rd_frames = ra_new 8, rd_armed = 16\<rparr>"

theorem usb_reader_is_parser_witness:
  "fst (reader_next demo_reader (map Packet [[3, 0], [0, 0, 5, 6], [7, 0, 9]])) = Some (Inr [5, 6, 7])"
proof -
  have h: "rd_holds demo_reader []"
    by (simp add: demo_reader_def rd_holds_def ra_holds_def ra_new_def buffer_len_def padded_len_def RECORD_PREFIX_def
        RECORD_ALIGNMENT_def slice_def)
  have "le32 3 = [3, 0, 0, 0]" by code_simp
  then have "send_bytes [5, 6, 7] = Some [3, 0, 0, 0, 5, 6, 7, 0]"
    by (simp add: send_bytes_def padded_len_def RECORD_ALIGNMENT_def zeros_def)
  moreover have "[] @ concat [[3, 0], [0, 0, 5, 6], [7, 0, 9]] = [3, 0, 0, 0, 5, 6, 7, 0] @ [9 :: u8]" by simp
  ultimately show ?thesis
    using usb_reader_is_parser [OF h, of "[[3, 0], [0, 0, 5, 6], [7, 0, 9]]"] by (auto simp: demo_reader_def ra_new_def)
qed

end
