(* ===== verification/Link_Engine.thy ===== *)
theory Link_Engine
  imports Crc32 Link_Codec
begin

text \<open>
  The transfer engine of the link protocol, \<open>firmware/obc-link/src/flat/engine.rs\<close>, over any store
  and any policy: \<open>Store\<close> and \<open>Policy\<close> of \<open>store.rs\<close> are records of operations on a state. One
  world threads the engine, the store, the policy and the adapter's reaction buffer through every
  handler; a handler returns its reaction and the world it left.

  \<open>entries\<close> yields its items one card read at a time, and every walk may stop early. The record
  gives the walk as the list of its items, each with the store as it is once that item is read.

  \<open>usize\<close> narrowing is written out where the source narrows a 64-bit count: \<open>usz\<close> is the width of
  \<open>usize\<close> on the target, 32 on the board.
\<close>

subsection \<open>The seam\<close>

record ('s, 'a, 'h) link_store =
  ls_mode :: "'s \<Rightarrow> link_mode"
  ls_store_id :: "'s \<Rightarrow> bytes"
  ls_sequence :: "'s \<Rightarrow> u64"
  ls_next_id :: "'s \<Rightarrow> u64"
  ls_allocate :: "u64 \<Rightarrow> 's \<Rightarrow> (link_error + 'a) \<times> 's"
  ls_write :: "'a \<Rightarrow> bytes \<Rightarrow> 's \<Rightarrow> (link_error + unit) \<times> 'a \<times> 's"
  ls_cancel :: "'a \<Rightarrow> 's \<Rightarrow> 's"
  ls_commit :: "'a link_mutation list \<Rightarrow> 's \<Rightarrow> (link_error + u64) \<times> 's"
  ls_open :: "u64 \<Rightarrow> u64 option \<Rightarrow> 's \<Rightarrow> (link_error + 'h) \<times> 's"
  ls_read :: "'h \<Rightarrow> u64 \<Rightarrow> nat \<Rightarrow> 's \<Rightarrow> (link_error + bytes) \<times> 's"
  ls_close :: "'h \<Rightarrow> 's \<Rightarrow> 's"
  ls_entries :: "'s \<Rightarrow> ((link_error + link_meta) \<times> 's) list"
  ls_archive :: "archive_source \<Rightarrow> 's \<Rightarrow> (archive_error + archive_result) \<times> 's"
  ls_format :: "bytes \<Rightarrow> 's \<Rightarrow> (link_error + unit) \<times> 's"

record 'p policy =
  pl_accept :: "link_kind \<Rightarrow> u64 \<Rightarrow> 'p \<Rightarrow> (u16 + unit) \<times> 'p"
  pl_validate :: "u64 \<Rightarrow> u64 \<Rightarrow> 'p \<Rightarrow> (u16 + u64) \<times> 'p"
  pl_hand_off :: "u64 \<times> u64 \<Rightarrow> u64 \<times> u64 \<Rightarrow> 'p \<Rightarrow> (u16 + unit) \<times> 'p"

text \<open>\<open>OpenPolicy\<close>: the trait's own bodies, which the board uses unchanged.\<close>

definition open_policy :: "'p policy" where
  "open_policy = \<lparr>pl_accept = (\<lambda>_ _ p. (Inr (), p)), pl_validate = (\<lambda>_ _ p. (Inl 0, p)),
     pl_hand_off = (\<lambda>_ _ p. (Inl 0, p))\<rparr>"

subsection \<open>The engine's state\<close>

datatype channel = Control | Stream

datatype reaction = Idle | Send channel nat | SendAndReboot nat | Close channel

datatype cancel_cause = CauseDevice | CauseLinkLost

fun cause_detail :: "cancel_cause \<Rightarrow> u16" where
  "cause_detail CauseDevice = D_BY_DEVICE"
| "cause_detail CauseLinkLost = D_LINK_LOST"

definition STALL_TIMEOUT_MS :: u32 where "STALL_TIMEOUT_MS = 15000 + 4000 + 2000"

datatype stall = StallIdle | Watching u32 | Abandoned u32

record anchor =
  an_request :: u32
  an_bytes :: u64
  an_at :: u32

record ceilings =
  ce_control :: nat
  ce_stream :: nat

definition ceilings_new :: "nat \<Rightarrow> nat \<Rightarrow> ceilings option" where
  "ceilings_new c s =
     (if c \<ge> CONTROL_FLOOR \<and> s > STREAM_HEADER_LEN then Some \<lparr>ce_control = c, ce_stream = s\<rparr> else None)"

definition ceilings_for_ble :: "nat \<Rightarrow> nat \<Rightarrow> nat \<Rightarrow> ceilings option" where
  "ceilings_for_ble att_mtu coc_sdu buffer =
     (if att_mtu < 3 then None else ceilings_new (min (att_mtu - 3) buffer) (min coc_sdu buffer))"

definition ceilings_for_usb :: "nat \<Rightarrow> ceilings option" where
  "ceilings_for_usb rec = ceilings_new rec rec"

text \<open>The adapter's admission latch: the identifier admitted last.\<close>

definition admission_new :: "u32 option" where
  "admission_new = None"

definition needs_query :: "u32 option \<Rightarrow> u32 \<Rightarrow> bool" where
  "needs_query admitted fr \<longleftrightarrow> admitted \<noteq> Some fr"

definition observed :: "u32 \<Rightarrow> u32 option \<Rightarrow> bool \<times> u32 option" where
  "observed fr live = (if live = Some fr then (False, Some fr) else (True, None))"

datatype link = Ble | Usb

fun link_index :: "link \<Rightarrow> nat" where
  "link_index Ble = 0"
| "link_index Usb = 1"

datatype upload_end = EndCommitted u64 bool | EndRefused error_code

record 'a upload =
  up_link :: link
  up_ceilings :: ceilings
  up_request :: u32
  up_id :: u64
  up_rev :: u64
  up_kind :: link_kind
  up_name :: link_name
  up_len :: u64
  up_declared_crc :: u32
  up_displaced :: "u64 option"
  up_received :: u64
  up_staged :: nat
  up_bank :: nat
  up_crc :: "crc32_hasher option"
  up_alloc :: 'a

record 'h download =
  dn_link :: link
  dn_ceilings :: ceilings
  dn_request :: u32
  dn_rev :: u64
  dn_len :: u64
  dn_crc :: u32
  dn_sent :: u64
  dn_handle :: 'h

datatype ('a, 'h) live = NotLive | Uploading "'a upload" | Downloading "'h download"

record owed =
  ow_link :: link
  ow_opcode :: opcode
  ow_request :: u32
  ow_refusal :: refusal

record ('a, 'h) engine =
  en_ceilings :: "ceilings option list"
  en_live :: "('a, 'h) live"
  en_stall :: "anchor option"
  en_owed :: "owed option"
  en_upload_end :: "(link_kind \<times> upload_end) option"
  en_staging :: bytes

definition engine_new :: "nat \<Rightarrow> ('a, 'h) engine" where
  "engine_new stage = \<lparr>en_ceilings = [None, None], en_live = NotLive, en_stall = None, en_owed = None,
     en_upload_end = None, en_staging = zeros stage\<rparr>"

record ('s, 'a, 'h, 'p) world =
  w_engine :: "('a, 'h) engine"
  w_store :: 's
  w_policy :: 'p
  w_out :: bytes

text \<open>An update of the engine; an operation of the store, or of the policy, on the world.\<close>

definition on_engine :: "(('a, 'h) engine \<Rightarrow> ('a, 'h) engine) \<Rightarrow> ('s, 'a, 'h, 'p) world \<Rightarrow> ('s, 'a, 'h, 'p) world" where
  "on_engine f w = w\<lparr>w_engine := f (w_engine w)\<rparr>"

definition storeW :: "('s \<Rightarrow> 'r \<times> 's) \<Rightarrow> ('s, 'a, 'h, 'p) world \<Rightarrow> 'r \<times> ('s, 'a, 'h, 'p) world" where
  "storeW op w = (case op (w_store w) of (r, s) \<Rightarrow> (r, w\<lparr>w_store := s\<rparr>))"

definition policyW :: "('p \<Rightarrow> 'r \<times> 'p) \<Rightarrow> ('s, 'a, 'h, 'p) world \<Rightarrow> 'r \<times> ('s, 'a, 'h, 'p) world" where
  "policyW op w = (case op (w_policy w) of (r, p) \<Rightarrow> (r, w\<lparr>w_policy := p\<rparr>))"

text \<open>Refusals as errors of a computation on the world.\<close>

type_synonym ('w, 'r) wio = "'w \<Rightarrow> (refusal + 'r) \<times> 'w"

definition bindW :: "('w, 'q) wio \<Rightarrow> ('q \<Rightarrow> ('w, 'r) wio) \<Rightarrow> ('w, 'r) wio" where
  "bindW m f w = (case m w of (Inl e, w') \<Rightarrow> (Inl e, w') | (Inr x, w') \<Rightarrow> f x w')"

definition retW :: "'r \<Rightarrow> ('w, 'r) wio" where
  "retW x w = (Inr x, w)"

definition refuseW :: "refusal \<Rightarrow> ('w, 'r) wio" where
  "refuseW r w = (Inl r, w)"

definition refuse_if :: "refusal option \<Rightarrow> ('w, unit) wio" where
  "refuse_if o' w = (case o' of None \<Rightarrow> (Inr (), w) | Some r \<Rightarrow> (Inl r, w))"

definition asW :: "('e \<Rightarrow> refusal) \<Rightarrow> ('w \<Rightarrow> ('e + 'r) \<times> 'w) \<Rightarrow> ('w, 'r) wio" where
  "asW f m w = (case m w of (Inl e, w') \<Rightarrow> (Inl (f e), w') | (Inr x, w') \<Rightarrow> (Inr x, w'))"

subsection \<open>Refusals by mode and by seam error\<close>

fun read_only_detail :: "link_mode \<Rightarrow> u16" where
  "read_only_detail LReadWrite = 0"
| "read_only_detail LRevisionSpaceExhausted = D_REVISION_SPACE_EXHAUSTED"
| "read_only_detail LSequenceSpaceExhausted = D_REVISION_SPACE_EXHAUSTED"
| "read_only_detail LCatalogUnreadable = D_CATALOG_UNREADABLE"
| "read_only_detail LUnformatted = D_UNFORMATTED"
| "read_only_detail LCardTooSmall = D_UNFORMATTED"

definition read_refusal :: "link_mode \<Rightarrow> refusal option" where
  "read_refusal m = (if l_readable m then None else Some (rf_new EReadOnly (read_only_detail m)))"

definition write_refusal :: "link_mode \<Rightarrow> refusal option" where
  "write_refusal m = (if l_writable m then None else Some (rf_new EReadOnly (read_only_detail m)))"

definition media_refusal :: "u16 \<Rightarrow> link_error \<Rightarrow> refusal" where
  "media_refusal at e = (if e = LReadOnly then rf_new EReadOnly 0 else rf_new MediaIo at)"

fun allocate_refusal :: "u64 \<Rightarrow> link_error \<Rightarrow> refusal" where
  "allocate_refusal bytes (LNoSpace req) = rf_with_context ENoSpace D_EXTENTS req"
| "allocate_refusal bytes LTooFragmented = rf_with_context ENoSpace D_TOO_FRAGMENTED bytes"
| "allocate_refusal bytes LCatalogFull = rf_with_context ENoSpace D_CATALOG_FULL bytes"
| "allocate_refusal bytes LMedia = rf_new MediaIo D_WRITE"
| "allocate_refusal bytes LReadOnly = rf_new EReadOnly D_REVISION_SPACE_EXHAUSTED"
| "allocate_refusal bytes LBusy = rf_plain EBusy"
| "allocate_refusal bytes LInvalid = rf_plain Internal"
| "allocate_refusal bytes LNotFound = rf_plain Internal"
| "allocate_refusal bytes (LRevisionConflict c) = rf_plain Internal"

fun open_refusal :: "link_error \<Rightarrow> refusal" where
  "open_refusal LNotFound = rf_new ENotFound D_OBJECT"
| "open_refusal LBusy = rf_new EBusy D_HOLDS"
| "open_refusal LMedia = rf_new MediaIo D_READ"
| "open_refusal LReadOnly = rf_new EReadOnly D_CATALOG_UNREADABLE"
| "open_refusal _ = rf_plain Internal"

fun commit_refusal :: "u64 \<Rightarrow> link_error \<Rightarrow> refusal" where
  "commit_refusal bytes LNotFound = rf_new ENotFound D_OBJECT"
| "commit_refusal bytes (LRevisionConflict c) = rf_with_context ERevisionConflict D_HEAD_DIFFERS c"
| "commit_refusal bytes (LNoSpace req) = rf_with_context ENoSpace D_EXTENTS req"
| "commit_refusal bytes LTooFragmented = rf_with_context ENoSpace D_TOO_FRAGMENTED bytes"
| "commit_refusal bytes LCatalogFull = rf_with_context ENoSpace D_CATALOG_FULL bytes"
| "commit_refusal bytes LMedia = rf_new MediaIo D_SYNC"
| "commit_refusal bytes LReadOnly = rf_new EReadOnly D_REVISION_SPACE_EXHAUSTED"
| "commit_refusal bytes LInvalid = rf_plain Internal"
| "commit_refusal bytes LBusy = rf_plain EBusy"

subsection \<open>Looking an object up\<close>

record found =
  fo_head :: "link_meta option"
  fo_retained :: "link_meta option"

fun lookup_walk :: "u64 \<Rightarrow> found \<Rightarrow> ((link_error + link_meta) \<times> 's) list \<Rightarrow> 's \<Rightarrow> (link_error + found) \<times> 's" where
  "lookup_walk i f [] s = (Inr f, s)"
| "lookup_walk i f ((Inl e, s') # items) s = (Inl e, s')"
| "lookup_walk i f ((Inr m, s') # items) s =
     (if m_id m \<noteq> i then (if m_id m > i then (Inr f, s') else lookup_walk i f items s')
      else lookup_walk i
        (if lf_has (m_flags m) LF_RETAINED then f\<lparr>fo_retained := Some m\<rparr> else f\<lparr>fo_head := Some m\<rparr>) items s')"

definition lookup :: "('s, 'a, 'h) link_store \<Rightarrow> u64 \<Rightarrow> 's \<Rightarrow> (link_error + found) \<times> 's" where
  "lookup S i s = lookup_walk i \<lparr>fo_head = None, fo_retained = None\<rparr> (ls_entries S s) s"

subsection \<open>What is live\<close>

definition link_ceilings :: "('a, 'h) engine \<Rightarrow> link \<Rightarrow> ceilings option" where
  "link_ceilings e l = en_ceilings e ! link_index l"

definition live_link :: "('a, 'h) engine \<Rightarrow> link option" where
  "live_link e = (case en_live e of NotLive \<Rightarrow> None | Uploading u \<Rightarrow> Some (up_link u) | Downloading d \<Rightarrow> Some (dn_link d))"

definition live_transfer :: "('a, 'h) engine \<Rightarrow> u32 option" where
  "live_transfer e = (case en_live e of NotLive \<Rightarrow> None | Uploading u \<Rightarrow> Some (up_request u)
     | Downloading d \<Rightarrow> Some (dn_request d))"

definition live_bytes :: "('a, 'h) engine \<Rightarrow> u64" where
  "live_bytes e = (case en_live e of NotLive \<Rightarrow> 0 | Uploading u \<Rightarrow> up_received u | Downloading d \<Rightarrow> dn_sent d)"

definition live_upload :: "('a, 'h) engine \<Rightarrow> (u32 \<times> link_kind \<times> u64 \<times> u64) option" where
  "live_upload e = (case en_live e of Uploading u \<Rightarrow> Some (up_request u, up_kind u, up_received u, up_len u) | _ \<Rightarrow> None)"

definition upload_matches :: "('a, 'h) engine \<Rightarrow> link \<Rightarrow> u32 \<Rightarrow> link_kind \<Rightarrow> bool" where
  "upload_matches e l req k = (case en_live e of
     Uploading u \<Rightarrow> up_link u = l \<and> up_request u = req \<and> up_kind u = k | _ \<Rightarrow> False)"

definition upload_declared_len :: "('a, 'h) engine \<Rightarrow> link \<Rightarrow> u32 \<Rightarrow> link_kind \<Rightarrow> u64 option" where
  "upload_declared_len e l req k = (case en_live e of
     Uploading u \<Rightarrow> if up_link u = l \<and> up_request u = req \<and> up_kind u = k then Some (up_len u) else None | _ \<Rightarrow> None)"

definition take_upload_end :: "('a, 'h) engine \<Rightarrow> (link_kind \<times> upload_end) option \<times> ('a, 'h) engine" where
  "take_upload_end e = (en_upload_end e, e\<lparr>en_upload_end := None\<rparr>)"

definition is_quiet :: "('a, 'h) engine \<Rightarrow> bool" where
  "is_quiet e \<longleftrightarrow> en_owed e = None \<and> en_live e = NotLive"

definition upload_stage_bank :: "('a, 'h) engine \<Rightarrow> nat option" where
  "upload_stage_bank e = (case en_live e of Uploading u \<Rightarrow> Some (up_bank u) | _ \<Rightarrow> None)"

definition owed_request :: "('a, 'h) engine \<Rightarrow> u32" where
  "owed_request e = (case live_transfer e of None \<Rightarrow> 0 | Some r \<Rightarrow> r)"

definition busy_refusal :: "('a, 'h) engine \<Rightarrow> refusal option" where
  "busy_refusal e = map_option (\<lambda>live. rf_with_context EBusy D_TRANSFER (ucast live)) (live_transfer e)"

subsection \<open>Answering and abandoning\<close>

text \<open>The reaction to an encoder: the frame on the control channel, or what the caller says.\<close>

definition emit :: "(bytes \<Rightarrow> (nat \<times> bytes) option) \<Rightarrow> (nat \<Rightarrow> reaction)
    \<Rightarrow> (('s, 'a, 'h, 'p) world \<Rightarrow> reaction \<times> ('s, 'a, 'h, 'p) world) \<Rightarrow> ('s, 'a, 'h, 'p) world
    \<Rightarrow> reaction \<times> ('s, 'a, 'h, 'p) world" where
  "emit enc sent otherwise w = (case enc (w_out w) of None \<Rightarrow> otherwise w | Some (n, out) \<Rightarrow> (sent n, w\<lparr>w_out := out\<rparr>))"

definition emit_error :: "opcode \<Rightarrow> u32 \<Rightarrow> refusal \<Rightarrow> ('s, 'a, 'h, 'p) world \<Rightarrow> reaction \<times> ('s, 'a, 'h, 'p) world" where
  "emit_error opc req r = emit (\<lambda>out. encode_error out opc req r) (Send Control) (Pair Idle)"

definition abandon :: "('s, 'a, 'h) link_store \<Rightarrow> ('s, 'a, 'h, 'p) world \<Rightarrow> ('s, 'a, 'h, 'p) world" where
  "abandon S w =
     (let e = w_engine w; w' = w\<lparr>w_engine := e\<lparr>en_stall := None, en_live := NotLive\<rparr>\<rparr> in
      case en_live e of
        NotLive \<Rightarrow> w'
      | Uploading u \<Rightarrow> w'\<lparr>w_store := ls_cancel S (up_alloc u) (w_store w)\<rparr>
      | Downloading d \<Rightarrow> w'\<lparr>w_store := ls_close S (dn_handle d) (w_store w)\<rparr>)"

definition fail_upload :: "('s, 'a, 'h) link_store \<Rightarrow> refusal \<Rightarrow> ('s, 'a, 'h, 'p) world \<Rightarrow> reaction \<times> ('s, 'a, 'h, 'p) world" where
  "fail_upload S r w =
     (let req = owed_request (w_engine w);
          w' = (case en_live (w_engine w) of
                  Uploading u \<Rightarrow> on_engine (en_upload_end_update (\<lambda>_. Some (up_kind u, EndRefused (rf_code r)))) w
                | _ \<Rightarrow> w)
      in emit_error OpPut req r (abandon S w'))"

definition fail_download :: "('s, 'a, 'h) link_store \<Rightarrow> refusal \<Rightarrow> ('s, 'a, 'h, 'p) world \<Rightarrow> reaction \<times> ('s, 'a, 'h, 'p) world" where
  "fail_download S r w = emit_error OpGet (owed_request (w_engine w)) r (abandon S w)"

subsection \<open>Links, cancel and the watchdog\<close>

definition owed_to :: "('a, 'h) engine \<Rightarrow> link \<Rightarrow> bool" where
  "owed_to e l \<longleftrightarrow> (case en_owed e of None \<Rightarrow> False | Some o' \<Rightarrow> ow_link o' = l)"

definition release_link :: "('s, 'a, 'h) link_store \<Rightarrow> link \<Rightarrow> ('s, 'a, 'h, 'p) world \<Rightarrow> ('s, 'a, 'h, 'p) world" where
  "release_link S l w =
     (let w1 = (if live_link (w_engine w) = Some l then abandon S w else w) in
      if owed_to (w_engine w1) l then on_engine (en_owed_update (\<lambda>_. None)) w1 else w1)"

definition on_link_up :: "('s, 'a, 'h) link_store \<Rightarrow> link \<Rightarrow> ceilings \<Rightarrow> ('s, 'a, 'h, 'p) world \<Rightarrow> ('s, 'a, 'h, 'p) world" where
  "on_link_up S l c w = on_engine (en_ceilings_update (\<lambda>cs. cs[link_index l := Some c])) (release_link S l w)"

definition on_link_lost :: "('s, 'a, 'h) link_store \<Rightarrow> link \<Rightarrow> ('s, 'a, 'h, 'p) world \<Rightarrow> ('s, 'a, 'h, 'p) world" where
  "on_link_lost S l w = on_engine (en_ceilings_update (\<lambda>cs. cs[link_index l := None])) (release_link S l w)"

definition live_opcode :: "('a, 'h) engine \<Rightarrow> opcode" where
  "live_opcode e = (case en_live e of Uploading _ \<Rightarrow> OpPut | _ \<Rightarrow> OpGet)"

definition cancel_live :: "('s, 'a, 'h) link_store \<Rightarrow> cancel_cause \<Rightarrow> ('s, 'a, 'h, 'p) world \<Rightarrow> bool \<times> ('s, 'a, 'h, 'p) world" where
  "cancel_live S cause w =
     (let e = w_engine w in
      case (live_transfer e, live_link e) of
        (Some req, Some l) \<Rightarrow>
          (True, on_engine (en_owed_update (\<lambda>_. Some \<lparr>ow_link = l, ow_opcode = live_opcode e, ow_request = req,
            ow_refusal = rf_new Cancelled (cause_detail cause)\<rparr>)) (abandon S w))
      | _ \<Rightarrow> (False, w))"

text \<open>\<open>checked_sub\<close> of the elapsed time, which is computed modulo the clock's wrap.\<close>

definition watch_stall :: "('s, 'a, 'h) link_store \<Rightarrow> u32 \<Rightarrow> ('s, 'a, 'h, 'p) world \<Rightarrow> stall \<times> ('s, 'a, 'h, 'p) world" where
  "watch_stall S now w =
     (let e = w_engine w in
      case live_transfer e of
        None \<Rightarrow> (StallIdle, w)
      | Some req \<Rightarrow>
          let fresh = \<lparr>an_request = req, an_bytes = live_bytes e, an_at = now\<rparr>;
              kept = (case en_stall e of
                  Some a \<Rightarrow> if an_request a = req \<and> an_bytes a = live_bytes e then Some a else None
                | None \<Rightarrow> None);
              a = (case kept of Some a \<Rightarrow> a | None \<Rightarrow> fresh);
              w' = (case kept of Some _ \<Rightarrow> w | None \<Rightarrow> on_engine (en_stall_update (\<lambda>_. Some fresh)) w);
              elapsed = now - an_at a in
          if elapsed < STALL_TIMEOUT_MS then (Watching (STALL_TIMEOUT_MS - elapsed), w')
          else (Abandoned req, snd (cancel_live S CauseDevice w')))"

subsection \<open>Downloads\<close>

definition poll :: "nat \<Rightarrow> ('s, 'a, 'h) link_store \<Rightarrow> link \<Rightarrow> ('s, 'a, 'h, 'p) world \<Rightarrow> reaction \<times> ('s, 'a, 'h, 'p) world" where
  "poll usz S l w =
     (case (if owed_to (w_engine w) l then en_owed (w_engine w) else None) of
        Some o' \<Rightarrow> emit_error (ow_opcode o') (ow_request o') (ow_refusal o') (on_engine (en_owed_update (\<lambda>_. None)) w)
      | None \<Rightarrow>
     (case en_live (w_engine w) of
        Downloading d \<Rightarrow>
          if dn_link d \<noteq> l then (Idle, w)
          else if dn_sent d \<ge> dn_len d
          then emit (\<lambda>out. encode_get out (dn_request d) (dn_rev d) (dn_len d) (dn_crc d)) (Send Control) (Pair Idle) (abandon S w)
          else if length (w_out w) \<le> STREAM_HEADER_LEN then fail_download S (rf_plain Internal) w
          else let room = min (length (w_out w)) (ce_stream (dn_ceilings d)) - STREAM_HEADER_LEN;
                   want = min room (unat (dn_len d - dn_sent d) mod 2 ^ usz) in
            (case storeW (ls_read S (dn_handle d) (dn_sent d) want) w of
               (Inl e, w1) \<Rightarrow> fail_download S (media_refusal D_READ e) w1
             | (Inr bs, w1) \<Rightarrow>
                 if bs = [] then fail_download S (media_refusal D_READ LMedia) w1
                 else emit (\<lambda>out. write_stream out (dn_request d) (dn_sent d) (length bs)) (Send Stream) (Pair Idle)
                   (on_engine (en_live_update (\<lambda>_. Downloading (d\<lparr>dn_sent := dn_sent d + of_nat (length bs)\<rparr>)))
                     (w1\<lparr>w_out := put_bytes (w_out w1) STREAM_HEADER_LEN bs\<rparr>)))
      | _ \<Rightarrow> (Idle, w)))"

definition lookupW :: "('s, 'a, 'h) link_store \<Rightarrow> u64 \<Rightarrow> (('s, 'a, 'h, 'p) world, found) wio" where
  "lookupW S i = asW (media_refusal D_READ) (storeW (lookup S i))"

text \<open>\<open>[retained, head].into_iter().flatten().find(..)\<close>.\<close>

definition revision_of :: "u64 \<Rightarrow> found \<Rightarrow> link_meta option" where
  "revision_of r f = (if r = 0 then fo_head f
     else case fo_retained f of
         Some m \<Rightarrow> if m_rev m = r then Some m else (case fo_head f of Some h \<Rightarrow> if m_rev h = r then Some h else None | None \<Rightarrow> None)
       | None \<Rightarrow> (case fo_head f of Some h \<Rightarrow> if m_rev h = r then Some h else None | None \<Rightarrow> None))"

text \<open>Everything a \<open>GET\<close> is checked for, and the open handle of the entry it serves.\<close>

definition admit_get :: "('s, 'a, 'h) link_store \<Rightarrow> get_request \<Rightarrow> (('s, 'a, 'h, 'p) world, link_meta \<times> 'h) wio" where
  "admit_get S get w =
     bindW (refuse_if (busy_refusal (w_engine w))) (\<lambda>_.
     bindW (refuse_if (read_refusal (ls_mode S (w_store w)))) (\<lambda>_.
     bindW (lookupW S (gr_id get)) (\<lambda>found.
       case revision_of (gr_rev get) found of
         None \<Rightarrow> refuseW (rf_new ENotFound (if fo_head found = None then D_OBJECT else D_REVISION))
       | Some m \<Rightarrow>
           if is_untouchable (m_flags m) then refuseW (rf_new InvalidRequest D_BAD_COMBINATION)
           else bindW (asW open_refusal (storeW (ls_open S (m_id m) (Some (m_rev m))))) (\<lambda>h. retW (m, h))))) w"

definition on_get :: "nat \<Rightarrow> ('s, 'a, 'h) link_store \<Rightarrow> link \<Rightarrow> ceilings \<Rightarrow> u32 \<Rightarrow> get_request
    \<Rightarrow> ('s, 'a, 'h, 'p) world \<Rightarrow> reaction \<times> ('s, 'a, 'h, 'p) world" where
  "on_get usz S l c req get w =
     (case admit_get S get w of
        (Inl r, w1) \<Rightarrow> emit_error OpGet req r w1
      | (Inr (m, h), w1) \<Rightarrow>
          poll usz S l (on_engine (en_live_update (\<lambda>_. Downloading \<lparr>dn_link = l, dn_ceilings = c, dn_request = req,
            dn_rev = m_rev m, dn_len = m_len m, dn_crc = m_crc m, dn_sent = 0, dn_handle = h\<rparr>)) w1))"

subsection \<open>Uploads\<close>

text \<open>
  The target of a \<open>PUT\<close>: the object, the revision it publishes and the head it displaces. A create
  takes its identifier at the commit.
\<close>

definition put_target :: "('s, 'a, 'h) link_store \<Rightarrow> put_request \<Rightarrow> (('s, 'a, 'h, 'p) world, u64 \<times> u64 \<times> u64 option) wio" where
  "put_target S put =
     (if \<not> id_is_some (pr_id put) then retW (0, 1, None)
      else bindW (lookupW S (pr_id put)) (\<lambda>found.
        case fo_head found of
          None \<Rightarrow> refuseW (rf_new ERevisionConflict D_HEAD_ABSENT)
        | Some head \<Rightarrow>
            if m_rev head \<noteq> pr_expected put
            then refuseW (rf_with_context ERevisionConflict D_HEAD_DIFFERS (m_rev head))
            else if m_kind head = KMetadata \<or> is_untouchable (m_flags head) then refuseW bad_combination
            else if m_kind head \<noteq> pr_kind put then refuseW bad_combination
            else (case revision_next (m_rev head) of
                None \<Rightarrow> refuseW (rf_new EReadOnly D_REVISION_SPACE_EXHAUSTED)
              | Some r \<Rightarrow> retW (pr_id put, r, Some (m_rev head)))))"

definition new_upload :: "link \<Rightarrow> ceilings \<Rightarrow> u32 \<Rightarrow> put_request \<Rightarrow> u64 \<times> u64 \<times> u64 option \<Rightarrow> 'a \<Rightarrow> 'a upload" where
  "new_upload l c req put target a =
     \<lparr>up_link = l, up_ceilings = c, up_request = req, up_id = fst target, up_rev = fst (snd target),
      up_kind = pr_kind put, up_name = pr_name put, up_len = pr_len put, up_declared_crc = pr_crc put,
      up_displaced = snd (snd target), up_received = 0, up_staged = 0, up_bank = 0,
      up_crc = (if l = Usb \<and> pr_kind put = KMapShard then None else Some crc_new), up_alloc = a\<rparr>"

definition admit_put :: "('s, 'a, 'h) link_store \<Rightarrow> link \<Rightarrow> ceilings \<Rightarrow> u32 \<Rightarrow> put_request
    \<Rightarrow> (('s, 'a, 'h, 'p) world, unit) wio" where
  "admit_put S l c req put w =
     bindW (refuse_if (busy_refusal (w_engine w))) (\<lambda>_.
     bindW (refuse_if (write_refusal (ls_mode S (w_store w)))) (\<lambda>_.
       if pr_len put = 0 then refuseW bad_combination
       else if is_device_owned (pr_kind put) then refuseW bad_combination
       else bindW (put_target S put) (\<lambda>target.
         bindW (asW (allocate_refusal (pr_len put)) (storeW (ls_allocate S (pr_len put)))) (\<lambda>a w.
           retW () (on_engine (en_live_update (\<lambda>_. Uploading (new_upload l c req put target a))) w))))) w"

definition on_put :: "('s, 'a, 'h) link_store \<Rightarrow> link \<Rightarrow> ceilings \<Rightarrow> u32 \<Rightarrow> put_request
    \<Rightarrow> ('s, 'a, 'h, 'p) world \<Rightarrow> reaction \<times> ('s, 'a, 'h, 'p) world" where
  "on_put S l c req put w =
     (case admit_put S l c req put w of
        (Inr _, w1) \<Rightarrow> (Idle, w1)
      | (Inl r, w1) \<Rightarrow>
          emit_error OpPut req r
            (if rf_code r = ENoSpace
             then on_engine (en_upload_end_update (\<lambda>_. Some (pr_kind put, EndRefused (rf_code r)))) w1 else w1))"

text \<open>
  The loop of \<open>absorb\<close> over the upload, the staging buffer and the store. Every pass takes at least
  one byte of a stage that is not full, so the bound, the length of the input, is never what stops it.
\<close>

primrec absorb_loop :: "nat \<Rightarrow> ('s, 'a, 'h) link_store \<Rightarrow> bytes \<Rightarrow> 'a upload \<times> bytes \<times> 's
    \<Rightarrow> (link_error + unit) \<times> 'a upload \<times> bytes \<times> 's" where
  "absorb_loop 0 S input x = (if input = [] then Inr () else Inl LInvalid, x)"
| "absorb_loop (Suc fuel) S input x =
     (case x of (u, stage, s) \<Rightarrow>
      if input = [] then (Inr (), u, stage, s)
      else if up_staged u = 0 \<and> length input \<ge> length stage
      then let n = length input - length input mod length stage in
        (case ls_write S (up_alloc u) (take n input) s of
           (Inl e, a, s') \<Rightarrow> (Inl e, u\<lparr>up_alloc := a\<rparr>, stage, s')
         | (Inr _, a, s') \<Rightarrow> absorb_loop fuel S (drop n input) (u\<lparr>up_alloc := a\<rparr>, stage, s'))
      else let n = min (length stage - up_staged u) (length input);
               stage' = put_bytes stage (up_staged u) (take n input);
               u' = u\<lparr>up_staged := up_staged u + n\<rparr> in
        if up_staged u' = length stage'
        then (case ls_write S (up_alloc u') stage' s of
           (Inl e, a, s') \<Rightarrow> (Inl e, u'\<lparr>up_alloc := a\<rparr>, stage', s')
         | (Inr _, a, s') \<Rightarrow> absorb_loop fuel S (drop n input) (u'\<lparr>up_alloc := a, up_staged := 0\<rparr>, stage', s'))
        else absorb_loop fuel S (drop n input) (u', stage', s))"

definition absorb :: "('s, 'a, 'h) link_store \<Rightarrow> bytes \<Rightarrow> ('s, 'a, 'h, 'p) world
    \<Rightarrow> (link_error + unit) \<times> ('s, 'a, 'h, 'p) world" where
  "absorb S payload w =
     (case en_live (w_engine w) of
        Uploading u \<Rightarrow>
          let u' = u\<lparr>up_crc := map_option (\<lambda>c. crc_update c payload) (up_crc u),
                     up_received := up_received u + of_nat (length payload)\<rparr> in
          (case absorb_loop (length payload) S payload (u', en_staging (w_engine w), w_store w) of
             (r, u'', stage, s) \<Rightarrow>
               (r, w\<lparr>w_engine := (w_engine w)\<lparr>en_live := Uploading u'', en_staging := stage\<rparr>, w_store := s\<rparr>))
      | _ \<Rightarrow> (Inl LInvalid, w))"

definition flush :: "('s, 'a, 'h) link_store \<Rightarrow> ('s, 'a, 'h, 'p) world \<Rightarrow> (link_error + unit) \<times> ('s, 'a, 'h, 'p) world" where
  "flush S w =
     (case en_live (w_engine w) of
        Uploading u \<Rightarrow>
          if up_staged u = 0 then (Inr (), w)
          else (case ls_write S (up_alloc u) (take (up_staged u) (en_staging (w_engine w))) (w_store w) of
              (Inl e, a, s) \<Rightarrow>
                (Inl e, on_engine (en_live_update (\<lambda>_. Uploading (u\<lparr>up_alloc := a\<rparr>))) (w\<lparr>w_store := s\<rparr>))
            | (Inr _, a, s) \<Rightarrow>
                (Inr (), on_engine (en_live_update (\<lambda>_. Uploading (u\<lparr>up_alloc := a, up_staged := 0\<rparr>))) (w\<lparr>w_store := s\<rparr>)))
      | _ \<Rightarrow> (Inr (), w))"

text \<open>The one commit of a \<open>PUT\<close>: the new head, and what it displaces.\<close>

definition publish_batch :: "'a upload \<Rightarrow> u64 \<Rightarrow> found \<Rightarrow> 'a link_mutation list" where
  "publish_batch u i found =
     LPut \<lparr>m_id = i, m_rev = up_rev u, m_kind = up_kind u, m_flags = LF_NONE, m_len = up_len u,
           m_crc = up_declared_crc u, m_name = up_name u\<rparr> (LFresh (up_alloc u))
     # (case (fo_head found, fo_retained found) of
          (None, _) \<Rightarrow> []
        | (Some h, None) \<Rightarrow> [LRemove (m_id h) (m_rev h)]
        | (Some h, Some r) \<Rightarrow> [LRemove (m_id h) (m_rev h), LRemove (m_id r) (m_rev r)])"

definition publish :: "('s, 'a, 'h) link_store \<Rightarrow> (('s, 'a, 'h, 'p) world, u64 \<times> u64 \<times> u64 \<times> u32) wio" where
  "publish S w =
     (case en_live (w_engine w) of
        Uploading u \<Rightarrow>
          let i = (if id_is_some (up_id u) then up_id u else ls_next_id S (w_store w)) in
          bindW (lookupW S i) (\<lambda>found.
            if map_option m_rev (fo_head found) \<noteq> up_displaced u
            then refuseW (rf_with_context ERevisionConflict D_HEAD_DIFFERS
              (case fo_head found of None \<Rightarrow> 0 | Some h \<Rightarrow> m_rev h))
            else bindW (asW (commit_refusal (up_len u)) (storeW (ls_commit S (publish_batch u i found)))) (\<lambda>_.
              retW (i, up_rev u, up_len u, up_declared_crc u))) w
      | _ \<Rightarrow> (Inl (rf_plain Internal), w))"

text \<open>The checks and the commit of a complete upload.\<close>

definition complete :: "('s, 'a, 'h) link_store \<Rightarrow> 'p policy \<Rightarrow> 'a upload
    \<Rightarrow> (('s, 'a, 'h, 'p) world, u64 \<times> u64 \<times> u64 \<times> u32) wio" where
  "complete S P u =
     bindW (refuse_if (case up_crc u of
         None \<Rightarrow> None
       | Some c \<Rightarrow> if finalize c \<noteq> up_declared_crc u
           then Some (rf_with_context ChecksumFailure D_PAYLOAD (ucast (up_declared_crc u))) else None)) (\<lambda>_.
     bindW (asW (rf_new Rejected) (policyW (pl_accept P (up_kind u) (up_len u)))) (\<lambda>_.
     bindW (asW (media_refusal D_WRITE) (flush S)) (\<lambda>_. publish S)))"

definition finish_upload :: "('s, 'a, 'h) link_store \<Rightarrow> 'p policy \<Rightarrow> ('s, 'a, 'h, 'p) world
    \<Rightarrow> reaction \<times> ('s, 'a, 'h, 'p) world" where
  "finish_upload S P w =
     (case en_live (w_engine w) of
        Uploading u \<Rightarrow>
          (case complete S P u w of
             (Inl r, w1) \<Rightarrow> fail_upload S r w1
           | (Inr (i, revision, len, crc), w1) \<Rightarrow>
               emit (\<lambda>out. encode_put out (owed_request (w_engine w1)) i revision len crc) (Send Control) (Pair Idle)
                 (on_engine (\<lambda>e. e\<lparr>en_live := NotLive,
                   en_upload_end := Some (up_kind u, EndCommitted i (up_displaced u \<noteq> None))\<rparr>) w1))
      | _ \<Rightarrow> (Idle, w))"

definition on_stream :: "('s, 'a, 'h) link_store \<Rightarrow> 'p policy \<Rightarrow> link \<Rightarrow> bytes \<Rightarrow> ('s, 'a, 'h, 'p) world
    \<Rightarrow> reaction \<times> ('s, 'a, 'h, 'p) world" where
  "on_stream S P l rec w =
     (if live_link (w_engine w) \<noteq> Some l then (Idle, w)
      else case (sf_split rec, en_live (w_engine w)) of
        (None, Uploading u) \<Rightarrow> emit_error OpPut (up_request u) (rf_new InvalidFrame D_LENGTH) (abandon S w)
      | (Some (fr, payload), Uploading u) \<Rightarrow>
          if sf_transfer fr \<noteq> up_request u then (Idle, w)
          else if unat (sf_len fr) > ce_stream (up_ceilings u) - STREAM_HEADER_LEN
          then fail_upload S (rf_new InvalidFrame D_LENGTH) w
          else if sf_offset fr \<noteq> up_received u \<or> up_received u + of_nat (length payload) > up_len u
          then fail_upload S (rf_new InvalidRequest D_STREAM_OFFSET) w
          else (case absorb S payload w of
              (Inl e, w1) \<Rightarrow> fail_upload S (media_refusal D_WRITE e) w1
            | (Inr _, w1) \<Rightarrow>
                if up_received u + of_nat (length payload) < up_len u then (Idle, w1) else finish_upload S P w1)
      | _ \<Rightarrow> (Idle, w))"

record map_batch =
  mb_request :: u32
  mb_offset :: u64
  mb_len :: nat
  mb_bank :: nat
  mb_stage :: bytes

definition on_usb_map_batch :: "('s, 'a, 'h) link_store \<Rightarrow> 'p policy \<Rightarrow> map_batch \<Rightarrow> ('s, 'a, 'h, 'p) world
    \<Rightarrow> reaction \<times> ('s, 'a, 'h, 'p) world" where
  "on_usb_map_batch S P b w =
     (let n = length (mb_stage b); bs = take (mb_len b) (mb_stage b) in
      if n < 512 \<or> n mod 512 \<noteq> 0 \<or> upload_stage_bank (w_engine w) \<noteq> Some (mb_bank b) \<or> mb_len b = 0 \<or> mb_len b > n
      then (Close Stream, w)
      else if live_link (w_engine w) \<noteq> Some Usb then (Idle, w)
      else case en_live (w_engine w) of
        Uploading u \<Rightarrow>
          if up_request u \<noteq> mb_request b then (Idle, w)
          else if up_kind u \<noteq> KMapShard \<or> up_staged u \<noteq> 0 then fail_upload S (rf_plain Internal) w
          else if mb_offset b \<noteq> up_received u \<or> mb_offset b + of_nat (mb_len b) > up_len u
          then fail_upload S (rf_new InvalidRequest D_STREAM_OFFSET) w
          else let u1 = u\<lparr>up_crc := map_option (\<lambda>c. crc_update c bs) (up_crc u)\<rparr> in
            (case ls_write S (up_alloc u1) bs (w_store w) of
               (r, a, s) \<Rightarrow>
                 let u2 = u1\<lparr>up_alloc := a\<rparr>; live = (\<lambda>u. on_engine (en_live_update (\<lambda>_. Uploading u)) (w\<lparr>w_store := s\<rparr>)) in
                 (case r of
                    Inl e \<Rightarrow> fail_upload S (media_refusal D_WRITE e) (live u2)
                  | Inr _ \<Rightarrow>
                      let u3 = u2\<lparr>up_received := up_received u + of_nat (mb_len b), up_bank := up_bank u XOR 1\<rparr> in
                      if up_received u3 < up_len u3 then (Idle, live u3) else finish_upload S P (live u3)))
      | _ \<Rightarrow> (Idle, w))"

subsection \<open>Requests that answer at once\<close>

text \<open>An answer on the control channel; a frame that does not fit is answered \<open>internal\<close>.\<close>

definition answer :: "opcode \<Rightarrow> u32 \<Rightarrow> (bytes \<Rightarrow> (nat \<times> bytes) option) \<Rightarrow> ('s, 'a, 'h, 'p) world
    \<Rightarrow> reaction \<times> ('s, 'a, 'h, 'p) world" where
  "answer opc req enc = emit enc (Send Control) (emit_error opc req (rf_plain Internal))"

primrec list_walk :: "((link_error + link_meta) \<times> 's) list \<Rightarrow> (u64 \<times> u64) option \<Rightarrow> link_kind option
    \<Rightarrow> list_writer \<times> bytes \<times> 's \<Rightarrow> (link_error + bool) \<times> list_writer \<times> bytes \<times> 's" where
  "list_walk [] cursor k x = (Inr False, x)"
| "list_walk (item # items) cursor k x =
     (case x of (lw, out, s) \<Rightarrow>
      case item of
        (Inl e, s') \<Rightarrow> (Inl e, lw, out, s')
      | (Inr m, s') \<Rightarrow>
          if (case cursor of None \<Rightarrow> False | Some c \<Rightarrow> lkey_le (lm_key m) c) then list_walk items cursor k (lw, out, s')
          else if (case k of None \<Rightarrow> False | Some k \<Rightarrow> k \<noteq> m_kind m) then list_walk items cursor k (lw, out, s')
          else (case lw_push lw out m of (pushed, lw', out') \<Rightarrow>
            if pushed then list_walk items cursor k (lw', out', s') else (Inr True, lw', out', s')))"

definition on_list :: "('s, 'a, 'h) link_store \<Rightarrow> ceilings \<Rightarrow> u32 \<Rightarrow> list_request \<Rightarrow> ('s, 'a, 'h, 'p) world
    \<Rightarrow> reaction \<times> ('s, 'a, 'h, 'p) world" where
  "on_list S c req lst w =
     (case read_refusal (ls_mode S (w_store w)) of
        Some r \<Rightarrow> emit_error OpList req r w
      | None \<Rightarrow>
     let sequence = ls_sequence S (w_store w) in
     if (case lr_cursor lst of None \<Rightarrow> False | Some cur \<Rightarrow> lc_sequence cur \<noteq> sequence)
     then emit_error OpList req (rf_with_context CatalogChanged D_LISTING sequence) w
     else case lw_start (w_out w) (ce_control c) (ls_store_id S (w_store w)) sequence of
        None \<Rightarrow> emit_error OpList req (rf_plain Internal) w
      | Some (lw, out) \<Rightarrow>
          (case list_walk (ls_entries S (w_store w)) (map_option (\<lambda>cur. (lc_id cur, lc_rev cur)) (lr_cursor lst))
              (lr_kind lst) (lw, out, w_store w) of
             (r, lw', out', s) \<Rightarrow>
               let w' = w\<lparr>w_store := s, w_out := out'\<rparr> in
               (case r of
                  Inl e \<Rightarrow> emit_error OpList req (media_refusal D_READ e) w'
                | Inr has_more \<Rightarrow> answer OpList req (\<lambda>out. lw_finish lw' out req has_more) w')))"

definition status_of :: "status_request \<Rightarrow> found \<Rightarrow> status_response" where
  "status_of st f = (case fo_head f of
     None \<Rightarrow> status_absent
   | Some h \<Rightarrow> \<lparr>st_state = (if m_rev h = sr_rev st then Committed else Superseded), st_rev = m_rev h,
       st_len = m_len h, st_crc = m_crc h\<rparr>)"

definition on_status :: "('s, 'a, 'h) link_store \<Rightarrow> u32 \<Rightarrow> status_request \<Rightarrow> ('s, 'a, 'h, 'p) world
    \<Rightarrow> reaction \<times> ('s, 'a, 'h, 'p) world" where
  "on_status S req st w =
     (case read_refusal (ls_mode S (w_store w)) of
        Some r \<Rightarrow> emit_error OpStatus req r w
      | None \<Rightarrow>
     (case lookupW S (sr_id st) w of
        (Inl r, w1) \<Rightarrow> emit_error OpStatus req r w1
      | (Inr f, w1) \<Rightarrow> answer OpStatus req (\<lambda>out. encode_status out req (status_of st f)) w1))"

definition apply_remove :: "('s, 'a, 'h) link_store \<Rightarrow> remove_request \<Rightarrow> (('s, 'a, 'h, 'p) world, u64) wio" where
  "apply_remove S rm w =
     bindW (refuse_if (write_refusal (ls_mode S (w_store w)))) (\<lambda>_.
     bindW (lookupW S (rr_id' rm)) (\<lambda>found.
       case fo_head found of
         None \<Rightarrow> refuseW (rf_new ENotFound D_OBJECT)
       | Some head \<Rightarrow>
           if m_rev head \<noteq> rr_expected rm
           then refuseW (rf_with_context ERevisionConflict D_HEAD_DIFFERS (m_rev head))
           else if m_kind head = KMetadata \<or> is_untouchable (m_flags head) then refuseW bad_combination
           else asW (commit_refusal 0) (storeW (ls_commit S (LRemove (m_id head) (m_rev head) #
             (case fo_retained found of None \<Rightarrow> [] | Some r \<Rightarrow> [LRemove (m_id r) (m_rev r)])))))) w"

definition on_remove :: "('s, 'a, 'h) link_store \<Rightarrow> u32 \<Rightarrow> remove_request \<Rightarrow> ('s, 'a, 'h, 'p) world
    \<Rightarrow> reaction \<times> ('s, 'a, 'h, 'p) world" where
  "on_remove S req rm w =
     (case apply_remove S rm w of
        (Inr sequence, w1) \<Rightarrow> answer OpRemove req (\<lambda>out. encode_remove out req sequence) w1
      | (Inl r, w1) \<Rightarrow> emit_error OpRemove req r w1)"

definition on_cancel :: "('s, 'a, 'h) link_store \<Rightarrow> link \<Rightarrow> u32 \<Rightarrow> u32 \<Rightarrow> ('s, 'a, 'h, 'p) world
    \<Rightarrow> reaction \<times> ('s, 'a, 'h, 'p) world" where
  "on_cancel S l req transfer w =
     (let e = w_engine w;
          cancelled = (live_transfer e = Some transfer \<and> live_link e = Some l);
          w' = (if cancelled
                then on_engine (en_owed_update (\<lambda>_. Some \<lparr>ow_link = l, ow_opcode = live_opcode e, ow_request = transfer,
                  ow_refusal = rf_new Cancelled D_BY_CLIENT\<rparr>)) (abandon S w)
                else w)
      in answer OpCancel req (\<lambda>out. encode_cancel out req cancelled) w')"

text \<open>
  \<open>ARM\<close>: the rollback reserve is committed before the hand-off, and taken back when the hand-off is
  refused.
\<close>

definition reserve_meta :: "u64 \<Rightarrow> link_meta" where
  "reserve_meta i = \<lparr>m_id = i, m_rev = 1, m_kind = KRollbackReserve, m_flags = LF_RESERVED, m_len = 0, m_crc = 0,
     m_name = ln_default\<rparr>"

definition arm_package :: "('s, 'a, 'h) link_store \<Rightarrow> arm_request \<Rightarrow> (('s, 'a, 'h, 'p) world, link_meta) wio" where
  "arm_package S arm w =
     bindW (refuse_if (busy_refusal (w_engine w))) (\<lambda>_.
     bindW (refuse_if (write_refusal (ls_mode S (w_store w)))) (\<lambda>_.
     bindW (lookupW S (am_package arm)) (\<lambda>found.
       case fo_head found of
         None \<Rightarrow> refuseW (rf_new ENotFound D_OBJECT)
       | Some head \<Rightarrow>
           if m_rev head \<noteq> am_expected arm
           then refuseW (rf_with_context ERevisionConflict D_HEAD_DIFFERS (m_rev head))
           else if m_kind head \<noteq> KUpdatePackage then refuseW bad_combination
           else retW head))) w"

definition arm_reserve :: "('s, 'a, 'h) link_store \<Rightarrow> u64 \<Rightarrow> (('s, 'a, 'h, 'p) world, u64 \<times> u64) wio" where
  "arm_reserve S len =
     bindW (asW (allocate_refusal len) (storeW (ls_allocate S len))) (\<lambda>a w.
       let i = ls_next_id S (w_store w) in
       (case storeW (ls_commit S [LPut (reserve_meta i) (LFresh a)]) w of
          (Inr sequence, w1) \<Rightarrow> (Inr (i, sequence), w1)
        | (Inl e, w1) \<Rightarrow> (Inl (commit_refusal len e), w1\<lparr>w_store := ls_cancel S a (w_store w1)\<rparr>)))"

definition apply_arm :: "('s, 'a, 'h) link_store \<Rightarrow> 'p policy \<Rightarrow> arm_request \<Rightarrow> (('s, 'a, 'h, 'p) world, u64 \<times> u64) wio" where
  "apply_arm S P arm =
     bindW (arm_package S arm) (\<lambda>head.
     bindW (asW (rf_new Rejected) (policyW (pl_validate P (m_id head) (m_rev head)))) (\<lambda>len.
     bindW (arm_reserve S len) (\<lambda>(i, sequence) w.
       case policyW (pl_hand_off P (m_id head, m_rev head) (i, 1)) w of
         (Inr _, w1) \<Rightarrow> (Inr (i, sequence), w1)
       | (Inl _, w1) \<Rightarrow> (Inl (rf_plain Internal), snd (storeW (ls_commit S [LRemove i 1]) w1)))))"

definition on_arm :: "('s, 'a, 'h) link_store \<Rightarrow> 'p policy \<Rightarrow> u32 \<Rightarrow> arm_request \<Rightarrow> ('s, 'a, 'h, 'p) world
    \<Rightarrow> reaction \<times> ('s, 'a, 'h, 'p) world" where
  "on_arm S P req arm w =
     (case apply_arm S P arm w of
        (Inr (i, sequence), w1) \<Rightarrow>
          emit (\<lambda>out. encode_arm out req i sequence) SendAndReboot (emit_error OpArm req (rf_plain Internal)) w1
      | (Inl r, w1) \<Rightarrow> emit_error OpArm req r w1)"

definition admit_format :: "('s, 'a, 'h) link_store \<Rightarrow> format_request \<Rightarrow> (('s, 'a, 'h, 'p) world, unit) wio" where
  "admit_format S f w =
     bindW (refuse_if (busy_refusal (w_engine w))) (\<lambda>_.
       let expected = (if l_readable (ls_mode S (w_store w)) then ls_store_id S (w_store w) else zeros 16) in
       refuse_if (if fr_expected f \<noteq> expected then Some bad_combination else None)) w"

definition on_format :: "('s, 'a, 'h) link_store \<Rightarrow> u32 \<Rightarrow> format_request \<Rightarrow> ('s, 'a, 'h, 'p) world
    \<Rightarrow> reaction \<times> ('s, 'a, 'h, 'p) world" where
  "on_format S req f w =
     (case admit_format S f w of
        (Inl r, w1) \<Rightarrow> emit_error OpFormat req r w1
      | (Inr _, w1) \<Rightarrow>
          (case storeW (ls_format S (fr_replacement f)) w1 of
             (Inr _, w2) \<Rightarrow> emit (\<lambda>out. encode_format out req (fr_replacement f)) SendAndReboot (Pair (Close Control)) w2
           | (Inl e, w2) \<Rightarrow>
               emit (\<lambda>out. encode_error out OpFormat req (media_refusal D_WRITE e)) SendAndReboot (Pair (Close Control)) w2))"

definition archive_refusal :: "link_mode \<Rightarrow> archive_error \<Rightarrow> refusal" where
  "archive_refusal m e = (case e of
     AUnsupported \<Rightarrow> rf_plain Unsupported
   | ASourceMismatch \<Rightarrow> bad_combination
   | AStore e \<Rightarrow>
       if e = LMedia then rf_plain MediaIo
       else (case write_refusal m of Some r \<Rightarrow> r | None \<Rightarrow> allocate_refusal 0 e))"

definition on_archive :: "('s, 'a, 'h) link_store \<Rightarrow> u32 \<Rightarrow> archive_source \<Rightarrow> ('s, 'a, 'h, 'p) world
    \<Rightarrow> reaction \<times> ('s, 'a, 'h, 'p) world" where
  "on_archive S req src w =
     (case (case busy_refusal (w_engine w) of Some r \<Rightarrow> Some r | None \<Rightarrow> read_refusal (ls_mode S (w_store w))) of
        Some r \<Rightarrow> emit_error OpArchiveRide req r w
      | None \<Rightarrow>
          (case storeW (ls_archive S src) w of
             (Inr res, w1) \<Rightarrow> emit (\<lambda>out. encode_archive out req res) (Send Control) (Pair (Close Control)) w1
           | (Inl e, w1) \<Rightarrow> emit_error OpArchiveRide req (archive_refusal (ls_mode S (w_store w1)) e) w1))"

subsection \<open>Control records\<close>

definition refused_opcode :: "bytes \<Rightarrow> opcode" where
  "refused_opcode rec = (case op_decode (if 5 < length rec then rec ! 5 else 0) of None \<Rightarrow> OpList | Some c \<Rightarrow> c)"

fun serve :: "nat \<Rightarrow> ('s, 'a, 'h) link_store \<Rightarrow> 'p policy \<Rightarrow> link \<Rightarrow> ceilings \<Rightarrow> u32 \<Rightarrow> request \<Rightarrow> ('s, 'a, 'h, 'p) world
    \<Rightarrow> reaction \<times> ('s, 'a, 'h, 'p) world" where
  "serve usz S P l c req (ReqList r) w = on_list S c req r w"
| "serve usz S P l c req (ReqStatus r) w = on_status S req r w"
| "serve usz S P l c req (ReqGet r) w = on_get usz S l c req r w"
| "serve usz S P l c req (ReqPut r) w = on_put S l c req r w"
| "serve usz S P l c req (ReqRemove r) w = on_remove S req r w"
| "serve usz S P l c req (ReqCancel t) w = on_cancel S l req t w"
| "serve usz S P l c req (ReqArm r) w = on_arm S P req r w"
| "serve usz S P l c req (ReqFormat r) w = on_format S req r w"
| "serve usz S P l c req (ReqArchive r) w = on_archive S req r w"

definition on_control :: "nat \<Rightarrow> ('s, 'a, 'h) link_store \<Rightarrow> 'p policy \<Rightarrow> link \<Rightarrow> bytes \<Rightarrow> ('s, 'a, 'h, 'p) world
    \<Rightarrow> reaction \<times> ('s, 'a, 'h, 'p) world" where
  "on_control usz S P l rec w =
     (case link_ceilings (w_engine w) l of
        None \<Rightarrow> (Idle, w)
      | Some c \<Rightarrow>
          (case decode_request rec of
             Inl Unanswerable \<Rightarrow> (Close Control, w)
           | Inl (Refused req r) \<Rightarrow> emit_error (refused_opcode rec) req r w
           | Inr (h, r) \<Rightarrow> serve usz S P l c (hd_request h) r w))"

end
