(* ===== verification/Link_Trace.thy ===== *)
theory Link_Trace
  imports Link_Engine
begin

text \<open>
  What the transfer engine asks of its store. \<open>traced\<close> puts a log of the resource calls beside the
  state of any store and changes nothing else; \<open>ledger\<close> reads the log as the life of the one resource
  the engine may hold, an allocation being filled or an open object. Along every sequence of link
  events the ledger is what the engine's live transfer says it is, so nothing leaks, nothing is
  released twice and only whole uploads are committed.
\<close>

subsection \<open>Events\<close>

text \<open>
  One call of the engine. \<open>Lend\<close> is an adapter putting another reaction buffer in place: the source
  passes one with each call.
\<close>

datatype link_event =
    LinkUp link ceilings
  | LinkLost link
  | ControlRecord link bytes
  | StreamRecord link bytes
  | MapBatch map_batch
  | PollLink link
  | CancelLive cancel_cause
  | StallLook u32
  | TakeUploadEnd
  | Lend bytes

primrec link_step :: "nat \<Rightarrow> ('s, 'a, 'h) link_store \<Rightarrow> 'p policy \<Rightarrow> link_event
    \<Rightarrow> ('s, 'a, 'h, 'p) world \<Rightarrow> ('s, 'a, 'h, 'p) world" where
  "link_step usz S P (LinkUp l c) w = on_link_up S l c w"
| "link_step usz S P (LinkLost l) w = on_link_lost S l w"
| "link_step usz S P (ControlRecord l rec) w = snd (on_control usz S P l rec w)"
| "link_step usz S P (StreamRecord l rec) w = snd (on_stream S P l rec w)"
| "link_step usz S P (MapBatch b) w = snd (on_usb_map_batch S P b w)"
| "link_step usz S P (PollLink l) w = snd (poll usz S l w)"
| "link_step usz S P (CancelLive c) w = snd (cancel_live S c w)"
| "link_step usz S P (StallLook now) w = snd (watch_stall S now w)"
| "link_step usz S P TakeUploadEnd w = on_engine (\<lambda>e. snd (take_upload_end e)) w"
| "link_step usz S P (Lend out) w = w\<lparr>w_out := out\<rparr>"

subsection \<open>The log\<close>

text \<open>The calls that take, fill or give back a resource; a call that was refused takes nothing.\<close>

datatype ('a, 'h) seam_call =
    Allocated u64 'a
  | Wrote 'a bytes 'a bool
  | Cancelled' 'a
  | Committed' "'a link_mutation list" bool
  | Opened 'h
  | Closed 'h

definition logged :: "('r \<Rightarrow> 'c list) \<Rightarrow> ('s \<Rightarrow> 'r \<times> 's) \<Rightarrow> 's \<times> 'c list \<Rightarrow> 'r \<times> 's \<times> 'c list" where
  "logged f op x = (case op (fst x) of (r, s') \<Rightarrow> (r, s', snd x @ f r))"

definition traced :: "('s, 'a, 'h) link_store \<Rightarrow> ('s \<times> ('a, 'h) seam_call list, 'a, 'h) link_store" where
  "traced S = \<lparr>
     ls_mode = (\<lambda>x. ls_mode S (fst x)),
     ls_store_id = (\<lambda>x. ls_store_id S (fst x)),
     ls_sequence = (\<lambda>x. ls_sequence S (fst x)),
     ls_next_id = (\<lambda>x. ls_next_id S (fst x)),
     ls_allocate = (\<lambda>n. logged (\<lambda>r. case r of Inr a \<Rightarrow> [Allocated n a] | Inl _ \<Rightarrow> []) (ls_allocate S n)),
     ls_write = (\<lambda>a bs x. case ls_write S a bs (fst x) of
       (r, a', s') \<Rightarrow> (r, a', s', snd x @ [Wrote a bs a' (case r of Inr _ \<Rightarrow> True | Inl _ \<Rightarrow> False)])),
     ls_cancel = (\<lambda>a x. (ls_cancel S a (fst x), snd x @ [Cancelled' a])),
     ls_commit = (\<lambda>ms. logged (\<lambda>r. [Committed' ms (case r of Inr _ \<Rightarrow> True | Inl _ \<Rightarrow> False)]) (ls_commit S ms)),
     ls_open = (\<lambda>i r. logged (\<lambda>r. case r of Inr h \<Rightarrow> [Opened h] | Inl _ \<Rightarrow> []) (ls_open S i r)),
     ls_read = (\<lambda>h off n. logged (\<lambda>_. []) (ls_read S h off n)),
     ls_close = (\<lambda>h x. (ls_close S h (fst x), snd x @ [Closed h])),
     ls_entries = (\<lambda>x. map (\<lambda>(r, s'). (r, s', snd x)) (ls_entries S (fst x))),
     ls_archive = (\<lambda>src. logged (\<lambda>_. []) (ls_archive S src)),
     ls_format = (\<lambda>i. logged (\<lambda>_. []) (ls_format S i))\<rparr>"

text \<open>Between two calls of the engine anything else may have used the store.\<close>

datatype 's traced_event = Engine link_event | DeviceWork 's

fun traced_step :: "nat \<Rightarrow> ('s, 'a, 'h) link_store \<Rightarrow> 'p policy \<Rightarrow> 's traced_event
    \<Rightarrow> ('s \<times> ('a, 'h) seam_call list, 'a, 'h, 'p) world \<Rightarrow> ('s \<times> ('a, 'h) seam_call list, 'a, 'h, 'p) world" where
  "traced_step usz S P (Engine ev) w = link_step usz (traced S) P ev w"
| "traced_step usz S P (DeviceWork s) w = w\<lparr>w_store := (s, snd (w_store w))\<rparr>"

definition traced_run :: "nat \<Rightarrow> ('s, 'a, 'h) link_store \<Rightarrow> 'p policy \<Rightarrow> 's traced_event list
    \<Rightarrow> ('s \<times> ('a, 'h) seam_call list, 'a, 'h, 'p) world \<Rightarrow> ('s \<times> ('a, 'h) seam_call list, 'a, 'h, 'p) world" where
  "traced_run usz S P = fold (traced_step usz S P)"

definition fresh_world :: "nat \<Rightarrow> 's \<Rightarrow> 'p \<Rightarrow> bytes \<Rightarrow> ('s \<times> ('a, 'h) seam_call list, 'a, 'h, 'p) world" where
  "fresh_world stage s p out = \<lparr>w_engine = engine_new stage, w_store = (s, []), w_policy = p, w_out = out\<rparr>"

subsection \<open>The ledger\<close>

text \<open>
  \<open>Filling n a p\<close>: room for \<open>n\<close> bytes was allocated, \<open>a\<close> is the token of the last write and \<open>p\<close> what
  was written. \<open>Spoiled\<close>: a write failed, and the token may only be cancelled. \<open>Broken\<close>: a call used
  what the engine does not hold, or a second resource was taken.
\<close>

datatype ('a, 'h) ledger = Free | Filling u64 'a bytes | Spoiled 'a | Reading 'h | Broken

definition fresh_tokens :: "'a link_mutation list \<Rightarrow> 'a list" where
  "fresh_tokens ms = concat (map (\<lambda>m. case m of LPut _ (LFresh a) \<Rightarrow> [a] | _ \<Rightarrow> []) ms)"

text \<open>What a commit may publish over an allocation: a reserve, which has no bytes, or a whole upload.\<close>

definition whole :: "u64 \<Rightarrow> bytes \<Rightarrow> link_meta \<Rightarrow> bool" where
  "whole n p m \<longleftrightarrow> m_len m = n \<and> length p = unat n \<and> (m_kind m = KMapShard \<or> crc32 p = m_crc m)"

definition may_commit :: "u64 \<Rightarrow> bytes \<Rightarrow> 'a link_mutation list \<Rightarrow> bool" where
  "may_commit n p ms \<longleftrightarrow> (\<forall>m\<in>set ms. case m of
     LPut meta (LFresh a) \<Rightarrow> m_kind meta = KRollbackReserve \<and> p = [] \<or> whole n p meta
   | LPut meta LAmend \<Rightarrow> False
   | LRemove i r \<Rightarrow> True)"

fun book :: "('a, 'h) seam_call \<Rightarrow> ('a, 'h) ledger \<Rightarrow> ('a, 'h) ledger" where
  "book (Allocated n a) l = (if l = Free then Filling n a [] else Broken)"
| "book (Wrote a bs a' ok) l = (case l of
     Filling n b p \<Rightarrow> if a = b then (if ok then Filling n a' (p @ bs) else Spoiled a') else Broken
   | _ \<Rightarrow> Broken)"
| "book (Cancelled' a) l = (case l of
     Filling n b p \<Rightarrow> if a = b then Free else Broken
   | Spoiled b \<Rightarrow> if a = b then Free else Broken
   | _ \<Rightarrow> Broken)"
| "book (Committed' ms ok) l = (if fresh_tokens ms = [] then l else case l of
     Filling n b p \<Rightarrow> if fresh_tokens ms = [b] \<and> may_commit n p ms then (if ok then Free else l) else Broken
   | _ \<Rightarrow> Broken)"
| "book (Opened h) l = (if l = Free then Reading h else Broken)"
| "book (Closed h) l = (if l = Reading h then Free else Broken)"

definition ledger_of :: "('a, 'h) seam_call list \<Rightarrow> ('a, 'h) ledger" where
  "ledger_of t = fold book t Free"

abbreviation log_of :: "('s \<times> ('a, 'h) seam_call list, 'a, 'h, 'p) world \<Rightarrow> ('a, 'h) seam_call list" where
  "log_of w \<equiv> snd (w_store w)"

abbreviation books :: "('s \<times> ('a, 'h) seam_call list, 'a, 'h, 'p) world \<Rightarrow> ('a, 'h) ledger" where
  "books w \<equiv> ledger_of (log_of w)"

lemma ledger_Nil [simp]: "ledger_of [] = Free"
  and ledger_snoc [simp]: "ledger_of (t @ [c]) = book c (ledger_of t)"
  by (simp_all add: ledger_of_def)

lemma book_Broken [simp]: "book c Broken = Broken"
  by (cases c) auto

lemma ledger_stays_Broken: "ledger_of t = Broken \<Longrightarrow> ledger_of (t @ u) = Broken"
proof (induction u rule: rev_induct)
  case (snoc c u)
  then show ?case by (simp flip: append_assoc)
qed simp

subsection \<open>The ledger follows the engine\<close>

text \<open>
  \<open>upload_filled\<close>: what was written and what waits in the stage are together the bytes received, with their
  running checksum. A shard of a map from the cable carries no checksum of the engine.
\<close>

definition upload_filled :: "'a upload \<Rightarrow> bytes \<Rightarrow> bytes \<Rightarrow> bool" where
  "upload_filled u stage p \<longleftrightarrow> up_staged u < length stage
     \<and> length (p @ take (up_staged u) stage) = unat (up_received u)
     \<and> (case up_crc u of None \<Rightarrow> up_kind u = KMapShard | Some c \<Rightarrow> c = crc_update crc_new (p @ take (up_staged u) stage))
     \<and> unat (up_len u) < 2 ^ 63 \<and> \<not> is_device_owned (up_kind u)"

definition held :: "('a, 'h) engine \<Rightarrow> ('a, 'h) ledger \<Rightarrow> bool" where
  "held e l \<longleftrightarrow> 0 < length (en_staging e) \<and> (case en_live e of
     NotLive \<Rightarrow> l = Free
   | Downloading d \<Rightarrow> l = Reading (dn_handle d)
   | Uploading u \<Rightarrow> l = Spoiled (up_alloc u) \<or> (\<exists>n p. l = Filling n (up_alloc u) p))"

definition agrees :: "('a, 'h) engine \<Rightarrow> ('a, 'h) ledger \<Rightarrow> bool" where
  "agrees e l \<longleftrightarrow> held e l \<and> (case en_live e of
     Uploading u \<Rightarrow> up_received u < up_len u
       \<and> (\<exists>p. l = Filling (up_len u) (up_alloc u) p \<and> upload_filled u (en_staging e) p)
   | _ \<Rightarrow> True)"

abbreviation held_in :: "('s \<times> ('a, 'h) seam_call list, 'a, 'h, 'p) world \<Rightarrow> bool" where
  "held_in w \<equiv> held (w_engine w) (books w)"

abbreviation agrees_in :: "('s \<times> ('a, 'h) seam_call list, 'a, 'h, 'p) world \<Rightarrow> bool" where
  "agrees_in w \<equiv> agrees (w_engine w) (books w)"

lemma agrees_held: "agrees e l \<Longrightarrow> held e l"
  by (simp add: agrees_def)

lemma agrees_idle: "en_live e = NotLive \<Longrightarrow> agrees e l \<longleftrightarrow> 0 < length (en_staging e) \<and> l = Free"
  by (simp add: agrees_def held_def)

lemma agrees_cong:
  "en_live e' = en_live e \<Longrightarrow> en_staging e' = en_staging e \<Longrightarrow> agrees e' l = agrees e l"
  by (auto simp: agrees_def held_def split: live.splits)

text \<open>Computations that leave the engine and the log alone.\<close>

definition keeps :: "('s \<times> 'c list, 'a, 'h, 'p) world \<Rightarrow> ('s \<times> 'c list, 'a, 'h, 'p) world \<Rightarrow> bool" where
  "keeps w w' \<longleftrightarrow> w_engine w' = w_engine w \<and> snd (w_store w') = snd (w_store w)"

definition calm :: "(('s \<times> 'c list, 'a, 'h, 'p) world \<Rightarrow> 'r \<times> ('s \<times> 'c list, 'a, 'h, 'p) world) \<Rightarrow> bool" where
  "calm m \<longleftrightarrow> (\<forall>w. keeps w (snd (m w)))"

lemma calmD: "calm m \<Longrightarrow> m w = (r, w') \<Longrightarrow> keeps w w'"
  unfolding calm_def by (metis snd_conv)

lemma keeps_refl [simp]: "keeps w w"
  by (simp add: keeps_def)

lemma keeps_trans: "keeps w w' \<Longrightarrow> keeps w' w'' \<Longrightarrow> keeps w w''"
  by (simp add: keeps_def)

lemma keeps_out [simp]: "keeps w (w'\<lparr>w_out := out\<rparr>) = keeps w w'"
  by (simp add: keeps_def)

lemma keeps_agrees: "keeps w w' \<Longrightarrow> agrees_in w' = agrees_in w"
  by (simp add: keeps_def)

lemma keeps_held: "keeps w w' \<Longrightarrow> held_in w' = held_in w"
  by (simp add: keeps_def)

named_theorems calm_intros

lemma calm_ret [calm_intros]: "calm (retW x)" and calm_refuse [calm_intros]: "calm (refuseW r)"
  and calm_refuse_if [calm_intros]: "calm (refuse_if c)"
  by (auto simp: calm_def retW_def refuseW_def refuse_if_def split: option.splits)

lemma calm_at: "calm m \<Longrightarrow> keeps w (snd (m w))"
  by (simp add: calm_def)

lemma calm_cases [calm_intros]:
  "calm m \<Longrightarrow> calm n \<Longrightarrow> calm (if c then m else n)"
  "calm m \<Longrightarrow> (\<And>x. calm (f x)) \<Longrightarrow> calm (case o' of None \<Rightarrow> m | Some x \<Rightarrow> f x)"
  by (auto split: option.splits)

lemma calm_bind [calm_intros]:
  assumes "calm m" and "\<And>x. calm (f x)"
  shows "calm (bindW m f)"
  unfolding calm_def
proof
  fix w
  obtain r w1 where m: "m w = (r, w1)" by (rule prod.exhaust)
  have "keeps w w1" by (rule calmD [OF assms(1) m])
  moreover have "keeps w1 (snd (f x w1))" for x using assms(2) by (simp add: calm_def)
  ultimately show "keeps w (snd (bindW m f w))"
    by (cases r) (auto simp: bindW_def m intro: keeps_trans)
qed

lemma calm_as [calm_intros]: "calm m \<Longrightarrow> calm (asW f m)"
  unfolding calm_def asW_def by (auto split: prod.splits sum.splits) (metis snd_conv)+

lemma calm_store: "(\<And>x r x'. op x = (r, x') \<Longrightarrow> snd x' = snd x) \<Longrightarrow> calm (storeW op)"
  unfolding calm_def storeW_def keeps_def by (auto split: prod.splits)

lemma calm_policy [calm_intros]: "calm (policyW op)"
  by (auto simp: calm_def policyW_def keeps_def split: prod.splits)

lemma lookup_walk_log:
  "\<forall>x\<in>set items. snd (snd x) = t \<Longrightarrow> snd s = t \<Longrightarrow> snd (snd (lookup_walk i f items s)) = t"
proof (induction items arbitrary: f s)
  case (Cons x items)
  obtain r s' where x: "x = (r, s')" by (rule prod.exhaust)
  show ?case using Cons by (cases r) (auto simp: x)
qed simp

lemma traced_entries: "(r, s') \<in> set (ls_entries (traced S) x) \<Longrightarrow> snd s' = snd x"
  by (auto simp: traced_def)

lemma calm_lookup [calm_intros]: "calm (lookupW (traced S) i)"
  unfolding lookupW_def
proof (intro calm_as calm_store)
  fix x r and x' :: "'a \<times> ('b, 'c) seam_call list"
  assume "lookup (traced S) i x = (r, x')"
  moreover have "snd (snd (lookup (traced S) i x)) = snd x"
    unfolding lookup_def by (rule lookup_walk_log) (auto dest: traced_entries)
  ultimately show "snd x' = snd x" by simp
qed

lemma traced_quiet:
  "snd (snd (ls_read (traced S) h off n x)) = snd x" "snd (snd (ls_archive (traced S) src x)) = snd x"
  "snd (snd (ls_format (traced S) i x)) = snd x"
  by (simp_all add: traced_def logged_def split: prod.splits)

lemma traced_writes:
  "ls_write (traced S) a bs x = (r, a', x') \<Longrightarrow> snd x' = snd x @ [Wrote a bs a' (case r of Inr _ \<Rightarrow> True | Inl _ \<Rightarrow> False)]"
  by (auto simp: traced_def split: prod.splits)

lemma traced_frees:
  "snd (ls_cancel (traced S) a x) = snd x @ [Cancelled' a]" "snd (ls_close (traced S) h x) = snd x @ [Closed h]"
  by (simp_all add: traced_def)

lemma traced_commit:
  "snd (snd (ls_commit (traced S) ms x)) =
     snd x @ [Committed' ms (case fst (ls_commit (traced S) ms x) of Inr _ \<Rightarrow> True | Inl _ \<Rightarrow> False)]"
  by (simp add: traced_def logged_def split: prod.splits)

lemma traced_takes:
  "ls_allocate (traced S) n x = (Inr a, x') \<Longrightarrow> snd x' = snd x @ [Allocated n a]"
  "ls_allocate (traced S) n x = (Inl e, x') \<Longrightarrow> snd x' = snd x"
  "ls_open (traced S) i rv x = (Inr h, x') \<Longrightarrow> snd x' = snd x @ [Opened h]"
  "ls_open (traced S) i rv x = (Inl e, x') \<Longrightarrow> snd x' = snd x"
  by (auto simp: traced_def logged_def split: prod.splits)

text \<open>Answers change only the reaction buffer.\<close>

lemma emit_keeps: "(\<And>w. keeps w (snd (otherwise w))) \<Longrightarrow> keeps w (snd (emit enc sent otherwise w))"
  by (auto simp: emit_def split: option.splits)

lemma emit_error_keeps [simp]: "keeps w (snd (emit_error opc req r w))"
  unfolding emit_error_def by (rule emit_keeps) simp

lemma emit_or_error_keeps [simp]: "keeps w (snd (emit enc sent (emit_error opc req r) w))"
  by (rule emit_keeps) simp

lemma answer_keeps [simp]: "keeps w (snd (answer opc req enc w))"
  unfolding answer_def by (rule emit_keeps) simp

lemma emit_idle_keeps [simp]: "keeps w (snd (emit enc sent (Pair r) w))"
  by (rule emit_keeps) simp

lemmas emits_agree [simp] = emit_error_keeps [THEN keeps_agrees] answer_keeps [THEN keeps_agrees]
  emit_idle_keeps [THEN keeps_agrees] emit_or_error_keeps [THEN keeps_agrees]

text \<open>Every abandonment gives back what is held.\<close>

lemma abandon_frees:
  assumes "held_in w"
  shows "agrees_in (abandon (traced S) w)" and "en_live (w_engine (abandon (traced S) w)) = NotLive"
  using assms by (auto simp: abandon_def Let_def held_def agrees_def traced_frees split: live.splits)

lemma abandon_idle: "en_live (w_engine w) = NotLive \<Longrightarrow> abandon S w = w\<lparr>w_engine := (w_engine w)\<lparr>en_stall := None\<rparr>\<rparr>"
  by (simp add: abandon_def Let_def)

lemma fail_upload_frees: "held_in w \<Longrightarrow> agrees_in (snd (fail_upload (traced S) r w))"
  unfolding fail_upload_def Let_def emits_agree
  by (rule abandon_frees) (simp add: held_def on_engine_def split: live.splits)

lemma fail_download_frees: "held_in w \<Longrightarrow> agrees_in (snd (fail_download (traced S) r w))"
  unfolding fail_download_def by (simp add: abandon_frees)

subsection \<open>Links, cancel and the watchdog\<close>

lemma on_engine_agrees [simp]:
  "(\<And>e. en_live (f e) = en_live e) \<Longrightarrow> (\<And>e. en_staging (f e) = en_staging e) \<Longrightarrow> agrees_in (on_engine f w) = agrees_in w"
  unfolding on_engine_def by simp (rule agrees_cong; simp)

lemma release_link_agrees: "agrees_in w \<Longrightarrow> agrees_in (release_link (traced S) l w)"
  unfolding release_link_def Let_def using abandon_frees(1) [OF agrees_held, of w S] by simp

lemma on_link_up_agrees: "agrees_in w \<Longrightarrow> agrees_in (on_link_up (traced S) l c w)"
  unfolding on_link_up_def by (simp add: release_link_agrees)

lemma on_link_lost_agrees: "agrees_in w \<Longrightarrow> agrees_in (on_link_lost (traced S) l w)"
  unfolding on_link_lost_def by (simp add: release_link_agrees)

lemma cancel_live_agrees: "agrees_in w \<Longrightarrow> agrees_in (snd (cancel_live (traced S) c w))"
  unfolding cancel_live_def Let_def using abandon_frees(1) [OF agrees_held, of w S] by (simp split: option.splits)

lemma watch_stall_agrees: "agrees_in w \<Longrightarrow> agrees_in (snd (watch_stall (traced S) now w))"
  unfolding watch_stall_def Let_def by (simp add: cancel_live_agrees split: option.split)

lemma on_cancel_agrees: "agrees_in w \<Longrightarrow> agrees_in (snd (on_cancel (traced S) l req t w))"
  unfolding on_cancel_def Let_def emits_agree using abandon_frees(1) [OF agrees_held, of w S] by simp

subsection \<open>Requests that hold nothing\<close>

lemma storeW_quiet: "snd (snd (op (w_store w))) = snd (w_store w) \<Longrightarrow> keeps w (snd (storeW op w))"
  by (auto simp: storeW_def keeps_def split: prod.splits)

lemma list_walk_log:
  "\<forall>x\<in>set items. snd (snd x) = t \<Longrightarrow> snd s = t \<Longrightarrow> snd (snd (snd (snd (list_walk items cursor k (lw, out, s))))) = t"
proof (induction items arbitrary: lw out s)
  case (Cons x items)
  obtain r s' where x: "x = (r, s')" by (rule prod.exhaust)
  show ?case using Cons by (cases r) (auto simp: x split: prod.splits)
qed simp

lemma on_list_agrees: "agrees_in w \<Longrightarrow> agrees_in (snd (on_list (traced S) c req lst w))"
proof -
  assume ok: "agrees_in w"
  have log: "snd (snd (snd (snd (list_walk (ls_entries (traced S) (w_store w)) cur k (lw, out, w_store w))))) = log_of w" for cur k lw out
    by (rule list_walk_log) (auto dest: traced_entries)
  have "agrees_in (w\<lparr>w_store := s, w_out := out'\<rparr>)"
    if "list_walk (ls_entries (traced S) (w_store w)) cur k (lw, out, w_store w) = (r, lw', out', s)" for cur k lw out r lw' out' s
    using log [of cur k lw out] ok by (simp add: that)
  then show ?thesis using ok by (auto simp: on_list_def Let_def split: option.splits prod.splits sum.splits)
qed

lemma on_status_agrees: "agrees_in w \<Longrightarrow> agrees_in (snd (on_status (traced S) req st w))"
  unfolding on_status_def
  by (auto simp: keeps_agrees [OF calmD [OF calm_lookup]] split: option.splits prod.splits sum.splits)

lemma keeps_lookup: "lookupW (traced S) i w = (r, w') \<Longrightarrow> keeps w w'"
  by (rule calmD [OF calm_lookup])

text \<open>A commit without an allocation, or over an engine that holds nothing.\<close>

lemma removal_keeps:
  assumes "fresh_tokens ms = []" and "storeW (ls_commit (traced S) ms) w = (r, w')"
  shows "agrees_in w' = agrees_in w"
proof -
  obtain s where c: "ls_commit (traced S) ms (w_store w) = (r, s)" and w': "w' = w\<lparr>w_store := s\<rparr>"
    using assms(2) by (auto simp: storeW_def split: prod.splits)
  show ?thesis using traced_commit [of S ms "w_store w"] by (simp add: c w' assms(1))
qed

lemma bindW_run: "bindW m f w = (r, w') \<Longrightarrow> (\<exists>e. m w = (Inl e, w') \<and> r = Inl e) \<or> (\<exists>x w1. m w = (Inr x, w1) \<and> f x w1 = (r, w'))"
  by (auto simp: bindW_def split: prod.splits sum.splits)

lemma refuse_if_run: "refuse_if c w = (r, w') \<Longrightarrow> w' = w"
  by (auto simp: refuse_if_def split: option.splits)

lemma asW_run: "asW f m w = (r, w') \<Longrightarrow> \<exists>r'. m w = (r', w') \<and> (\<forall>x. r = Inr x \<longrightarrow> r' = Inr x) \<and> (\<forall>e. r = Inl e \<longrightarrow> (\<exists>e'. r' = Inl e'))"
  by (auto simp: asW_def split: prod.splits sum.splits)

lemma apply_remove_agrees:
  assumes "agrees_in w" and "apply_remove (traced S) rm w = (r, w')"
  shows "agrees_in w'"
proof -
  obtain w1 f where l: "lookupW (traced S) (rr_id' rm) w = (f, w1)" by (rule prod.exhaust)
  have ok: "agrees_in w1" using keeps_agrees [OF keeps_lookup [OF l]] assms(1) by simp
  have rem: "agrees_in v' = agrees_in v" if "storeW (ls_commit (traced S) ms) v = (q, v')"
    "ms = [LRemove a b] \<or> ms = [LRemove a b, LRemove c d]" for ms a b c d v v' q
    by (rule removal_keeps [OF _ that(1)]) (use that(2) in \<open>auto simp: fresh_tokens_def\<close>)
  show ?thesis
    using assms ok unfolding apply_remove_def
    by (auto dest!: bindW_run refuse_if_run asW_run dest: rem simp: l refuseW_def split: option.splits if_splits)
qed

lemma on_remove_agrees: "agrees_in w \<Longrightarrow> agrees_in (snd (on_remove (traced S) req rm w))"
  unfolding on_remove_def by (auto dest: apply_remove_agrees split: prod.splits sum.splits)

lemma on_format_agrees: "agrees_in w \<Longrightarrow> agrees_in (snd (on_format (traced S) req f w))"
proof -
  assume ok: "agrees_in w"
  have a: "calm (admit_format (traced S) f)"
    unfolding admit_format_def calm_def bindW_def refuse_if_def by (auto simp: Let_def split: option.splits)
  have "keeps w' (snd (storeW (ls_format (traced S) i) w'))" for w' i by (rule storeW_quiet) (simp add: traced_quiet)
  then have f: "keeps w' w''" if "storeW (ls_format (traced S) i) w' = (r, w'')" for w' w'' i r
    by (metis that snd_conv)
  show ?thesis using ok unfolding on_format_def
    by (auto simp: keeps_agrees [OF calmD [OF a]] keeps_agrees [OF f] split: prod.splits sum.splits)
qed

lemma on_archive_agrees: "agrees_in w \<Longrightarrow> agrees_in (snd (on_archive (traced S) req src w))"
proof -
  assume ok: "agrees_in w"
  have "keeps w' (snd (storeW (ls_archive (traced S) src) w'))" for w' by (rule storeW_quiet) (simp add: traced_quiet)
  then have f: "keeps w' w''" if "storeW (ls_archive (traced S) src) w' = (r, w'')" for w' w'' r
    by (metis that snd_conv)
  show ?thesis using ok unfolding on_archive_def
    by (auto simp: keeps_agrees [OF f] split: prod.splits sum.splits option.splits)
qed

subsection \<open>The rollback reserve\<close>

lemma admission_run:
  assumes "bindW (refuse_if (busy_refusal (w_engine w))) f w = (r, w')"
  shows "(\<exists>e. r = Inl e \<and> w' = w) \<or> en_live (w_engine w) = NotLive \<and> f () w = (r, w')"
  using assms
  by (auto simp: bindW_def refuse_if_def busy_refusal_def live_transfer_def split: option.splits live.splits sum.splits)

lemma arm_package_run:
  assumes "arm_package (traced S) arm w = (r, w')"
  shows "keeps w w'" and "r = Inr m \<Longrightarrow> en_live (w_engine w) = NotLive"
proof -
  have "keeps w (snd (arm_package (traced S) arm w))"
    unfolding arm_package_def by (rule calm_at) (intro calm_intros)
  then show "keeps w w'" by (simp add: assms)
  show "r = Inr m \<Longrightarrow> en_live (w_engine w) = NotLive"
    using assms admission_run unfolding arm_package_def by fastforce
qed

lemma arm_reserve_agrees:
  assumes "agrees_in w" and "en_live (w_engine w) = NotLive" and "arm_reserve (traced S) n w = (r, w')"
  shows "agrees_in w'" and "en_live (w_engine w') = NotLive"
proof -
  have free: "books w = Free" "0 < length (en_staging (w_engine w))" using assms(1,2) by (simp_all add: agrees_idle)
  obtain q x where al: "ls_allocate (traced S) n (w_store w) = (q, x)" by (rule prod.exhaust)
  have "agrees_in w' \<and> en_live (w_engine w') = NotLive"
  proof (cases q)
    case (Inl e)
    then have "w' = w\<lparr>w_store := x\<rparr>" using assms(3) by (auto simp: arm_reserve_def bindW_def asW_def storeW_def al)
    then show ?thesis using assms(1,2) traced_takes(2) [OF al [unfolded Inl]] by simp
  next
    case (Inr a)
    define ms where "ms = [LPut (reserve_meta (ls_next_id (traced S) x)) (LFresh a)]"
    obtain c y where cm: "ls_commit (traced S) ms x = (c, y)" by (rule prod.exhaust)
    have x: "ledger_of (snd x) = Filling n a []" using traced_takes(1) [OF al [unfolded Inr]] free by simp
    have "fresh_tokens ms = [a]" "may_commit n [] ms" by (simp_all add: ms_def fresh_tokens_def may_commit_def reserve_meta_def)
    then have y: "ledger_of (snd y) = (case c of Inr _ \<Rightarrow> Free | Inl _ \<Rightarrow> Filling n a [])"
      using traced_commit [of S ms x] x by (cases c) (simp_all add: cm)
    have "w_engine w' = w_engine w \<and> books w' = Free"
      using assms(3) y
      by (auto simp: arm_reserve_def bindW_def asW_def storeW_def al Inr cm traced_frees ms_def [symmetric] split: sum.splits)
    then show ?thesis using free assms(2) by (simp add: agrees_idle)
  qed
  then show "agrees_in w'" and "en_live (w_engine w') = NotLive" by simp_all
qed

lemma apply_arm_agrees:
  assumes "agrees_in w" and "apply_arm (traced S) P arm w = (r, w')"
  shows "agrees_in w'"
proof -
  obtain q w1 where p: "arm_package (traced S) arm w = (q, w1)" by (rule prod.exhaust)
  have k1: "keeps w w1" by (rule arm_package_run(1) [OF p])
  show ?thesis
  proof (cases q)
    case (Inl e)
    then show ?thesis using assms keeps_agrees [OF k1] by (simp add: apply_arm_def bindW_def p)
  next
    case (Inr head)
    then have idle: "en_live (w_engine w1) = NotLive" using arm_package_run(2) [OF p] k1 by (simp add: keeps_def)
    obtain v w2 where v: "asW (rf_new Rejected) (policyW (pl_validate P (m_id head) (m_rev head))) w1 = (v, w2)" by (rule prod.exhaust)
    have "keeps w1 (snd (asW (rf_new Rejected) (policyW (pl_validate P (m_id head) (m_rev head))) w1))"
      by (rule calm_at) (intro calm_intros)
    then have k2: "keeps w1 w2" by (simp add: v)
    have ok2: "agrees_in w2" "en_live (w_engine w2) = NotLive"
      using assms(1) keeps_agrees [OF k1] keeps_agrees [OF k2] idle k2 by (simp_all add: keeps_def)
    show ?thesis
    proof (cases v)
      case (Inl e)
      then show ?thesis using assms ok2 Inr by (simp add: apply_arm_def bindW_def p v)
    next
      case (Inr n)
      obtain z w3 where z: "arm_reserve (traced S) n w2 = (z, w3)" by (rule prod.exhaust)
      have ok3: "agrees_in w3" by (rule arm_reserve_agrees(1) [OF ok2 z])
      have hand: "agrees_in w4" if "policyW op w3 = (y, w4)" for op y w4
        using keeps_agrees [OF calmD [OF calm_policy that]] ok3 by simp
      have undo: "agrees_in (snd (storeW (ls_commit (traced S) [LRemove i b]) w4))" if "agrees_in w4" for i b w4
      proof -
        obtain y w5 where "storeW (ls_commit (traced S) [LRemove i b]) w4 = (y, w5)" by (rule prod.exhaust)
        then show ?thesis using removal_keeps [of "[LRemove i b]" S w4 y w5] that by (simp add: fresh_tokens_def)
      qed
      show ?thesis
        using assms(2) Inr \<open>q = Inr head\<close> ok3
        by (cases z) (auto simp: apply_arm_def bindW_def p v z dest: hand intro!: undo split: prod.splits sum.splits)
    qed
  qed
qed

lemma on_arm_agrees: "agrees_in w \<Longrightarrow> agrees_in (snd (on_arm (traced S) P req arm w))"
  unfolding on_arm_def
  by (auto dest: apply_arm_agrees split: prod.splits sum.splits)

subsection \<open>Downloads\<close>

lemma poll_agrees:
  assumes "agrees_in w"
  shows "agrees_in (snd (poll usz (traced S) l w))"
proof -
  have held: "held_in w" by (rule agrees_held [OF assms])
  note frees = abandon_frees(1) [OF held] fail_download_frees [OF held]
  have "agrees_in (snd (poll usz (traced S) l w))" if d: "en_live (w_engine w) = Downloading d" for d
  proof -
    define want where "want = min (min (length (w_out w)) (ce_stream (dn_ceilings d)) - STREAM_HEADER_LEN)
      (unat (dn_len d - dn_sent d) mod 2 ^ usz)"
    obtain r x where rd: "ls_read (traced S) (dn_handle d) (dn_sent d) want (w_store w) = (r, x)" by (rule prod.exhaust)
    have log: "snd x = log_of w" using traced_quiet(1) [of S "dn_handle d" "dn_sent d" want "w_store w"] by (simp add: rd)
    have same: "held_in (w\<lparr>w_store := x\<rparr>)" using held log by simp
    have on: "agrees_in (on_engine (en_live_update (\<lambda>_. Downloading (d\<lparr>dn_sent := n\<rparr>))) (w\<lparr>w_store := x, w_out := out\<rparr>))" for n out
      using held log by (simp add: agrees_def held_def on_engine_def d)
    show ?thesis
      unfolding poll_def Let_def
      using assms frees fail_download_frees [OF same] on
      by (simp add: d storeW_def rd flip: want_def split: option.split sum.split)
  qed
  moreover have "agrees_in (snd (poll usz (traced S) l w))" if "\<And>d. en_live (w_engine w) \<noteq> Downloading d"
    using assms that by (simp add: poll_def split: option.split live.split)
  ultimately show ?thesis by blast
qed

lemma open_run:
  assumes "asW f (storeW (ls_open (traced S) i rv)) w = (r, w')"
  shows "(\<exists>e. r = Inl e) \<and> keeps w w' \<or> (\<exists>h. r = Inr h \<and> w_engine w' = w_engine w \<and> log_of w' = log_of w @ [Opened h])"
proof -
  obtain q x where op: "ls_open (traced S) i rv (w_store w) = (q, x)" by (rule prod.exhaust)
  show ?thesis
    using assms traced_takes(3,4) [where S = S and i = i and rv = rv and x = "w_store w" and x' = x]
    by (cases q) (auto simp: asW_def storeW_def op keeps_def)
qed

lemma admit_get_run:
  assumes "admit_get (traced S) get w = (r, w')"
  shows "(\<exists>e. r = Inl e) \<and> keeps w w'
    \<or> (\<exists>m h. r = Inr (m, h) \<and> en_live (w_engine w) = NotLive \<and> w_engine w' = w_engine w \<and> log_of w' = log_of w @ [Opened h])"
proof -
  obtain f w1 where l: "lookupW (traced S) (gr_id get) w = (f, w1)" by (rule prod.exhaust)
  have k: "keeps w w1" by (rule keeps_lookup [OF l])
  from assms consider e where "r = Inl e" "w' = w"
    | "en_live (w_engine w) = NotLive" "bindW (refuse_if (read_refusal (ls_mode (traced S) (w_store w)))) (\<lambda>_.
        bindW (lookupW (traced S) (gr_id get)) (\<lambda>found.
        case revision_of (gr_rev get) found of
          None \<Rightarrow> refuseW (rf_new ENotFound (if fo_head found = None then D_OBJECT else D_REVISION))
        | Some m \<Rightarrow>
            if is_untouchable (m_flags m) then refuseW (rf_new InvalidRequest D_BAD_COMBINATION)
            else bindW (asW open_refusal (storeW (ls_open (traced S) (m_id m) (Some (m_rev m))))) (\<lambda>h. retW (m, h)))) w = (r, w')"
    unfolding admit_get_def using admission_run by blast
  then show ?thesis
  proof cases
    case 2
    then show ?thesis using k
      by (auto dest!: bindW_run refuse_if_run open_run simp: l refuseW_def retW_def keeps_def split: option.splits if_splits)
  qed simp
qed

lemma on_get_agrees:
  assumes "agrees_in w"
  shows "agrees_in (snd (on_get usz (traced S) l c req get w))"
proof -
  obtain r w1 where a: "admit_get (traced S) get w = (r, w1)" by (rule prod.exhaust)
  from admit_get_run [OF a] show ?thesis
  proof (elim disjE conjE exE)
    fix e
    assume "r = Inl e" "keeps w w1"
    then show ?thesis using assms by (simp add: on_get_def a keeps_agrees)
  next
    fix m h
    assume r: "r = Inr (m, h)" "en_live (w_engine w) = NotLive" "w_engine w1 = w_engine w" "log_of w1 = log_of w @ [Opened h]"
    have "agrees_in (on_engine (en_live_update (\<lambda>_. Downloading \<lparr>dn_link = l, dn_ceilings = c, dn_request = req,
      dn_rev = m_rev m, dn_len = m_len m, dn_crc = m_crc m, dn_sent = 0, dn_handle = h\<rparr>)) w1)"
      using assms r(2,3,4) by (simp add: agrees_def held_def on_engine_def)
    then show ?thesis by (simp add: on_get_def a r(1) poll_agrees)
  qed
qed

subsection \<open>Uploads\<close>

text \<open>A card holds less than \<open>2 ^ 63\<close> bytes, so no store has room for more.\<close>

definition sized :: "('s, 'a, 'h) link_store \<Rightarrow> bool" where
  "sized S \<longleftrightarrow> (\<forall>n s a s'. ls_allocate S n s = (Inr a, s') \<longrightarrow> unat n < 2 ^ 63)"

lemma traced_sized: "sized S \<Longrightarrow> ls_allocate (traced S) n x = (Inr a, x') \<Longrightarrow> unat n < 2 ^ 63"
  unfolding sized_def by (auto simp: traced_def logged_def split: prod.splits) 

lemma put_target_keeps: "put_target (traced S) put w = (r, w') \<Longrightarrow> keeps w w'"
proof -
  assume "put_target (traced S) put w = (r, w')"
  moreover have "calm (put_target (traced S) put)" unfolding put_target_def by (intro calm_intros)
  ultimately show "keeps w w'" by (rule calmD [rotated])
qed

lemma admit_put_agrees:
  assumes "agrees_in w" and "sized S" and "admit_put (traced S) l c req put w = (r, w')"
  shows "agrees_in w'"
proof -
  from assms(3) consider e where "r = Inl e" "w' = w"
    | "en_live (w_engine w) = NotLive" "bindW (refuse_if (write_refusal (ls_mode (traced S) (w_store w)))) (\<lambda>_.
        if pr_len put = 0 then refuseW bad_combination
        else if is_device_owned (pr_kind put) then refuseW bad_combination
        else bindW (put_target (traced S) put) (\<lambda>target.
          bindW (asW (allocate_refusal (pr_len put)) (storeW (ls_allocate (traced S) (pr_len put)))) (\<lambda>a w.
            retW () (on_engine (en_live_update (\<lambda>_. Uploading (new_upload l c req put target a))) w)))) w = (r, w')"
    unfolding admit_put_def using admission_run by blast
  then show ?thesis
  proof cases
    case 2
    have free: "books w = Free" "0 < length (en_staging (w_engine w))" using assms(1) 2(1) by (simp_all add: agrees_idle)
    have new: "agrees_in (on_engine (en_live_update (\<lambda>_. Uploading (new_upload l c req put target a))) (v\<lparr>w_store := x\<rparr>))"
      if al: "ls_allocate (traced S) (pr_len put) (w_store v) = (Inr a, x)" and k: "keeps w v"
        and put: "pr_len put \<noteq> 0" "\<not> is_device_owned (pr_kind put)" for target a v x
      using free k put traced_sized [OF assms(2) al] traced_takes(1) [OF al]
      by (simp add: agrees_def held_def keeps_def on_engine_def new_upload_def upload_filled_def word_gt_0)
    have none: "agrees_in (v\<lparr>w_store := x\<rparr>)"
      if al: "ls_allocate (traced S) (pr_len put) (w_store v) = (Inl e, x)" and k: "keeps w v" for e v x
      using assms(1) k traced_takes(2) [OF al] by (simp add: keeps_def)
    obtain t w1 where t: "put_target (traced S) put w = (t, w1)" by (rule prod.exhaust)
    note k = put_target_keeps [OF t]
    obtain q x where al: "ls_allocate (traced S) (pr_len put) (w_store w1) = (q, x)" by (rule prod.exhaust)
    show ?thesis
    proof (cases q)
      case (Inl e)
      then show ?thesis
        using 2(2) assms(1) keeps_agrees [OF k] none [OF al [unfolded Inl] k]
        by (auto dest!: bindW_run refuse_if_run simp: t asW_def storeW_def al refuseW_def retW_def split: if_splits)
    next
      case (Inr a)
      then show ?thesis
        using 2(2) assms(1) keeps_agrees [OF k] new [OF al [unfolded Inr] k]
        by (auto dest!: bindW_run refuse_if_run simp: t asW_def storeW_def al refuseW_def retW_def split: if_splits)
    qed
  qed (use assms(1) in simp)
qed

lemma on_put_agrees: "agrees_in w \<Longrightarrow> sized S \<Longrightarrow> agrees_in (snd (on_put (traced S) l c req put w))"
  unfolding on_put_def by (auto dest: admit_put_agrees split: prod.splits sum.splits)

text \<open>
  The bytes an upload has taken in, wherever they are, and the state in which they are all there.
\<close>

lemma absorb_full:
  assumes "input \<noteq> []" and "\<not> (up_staged u = 0 \<and> length stage \<le> length input)"
    and "k = min (length stage - up_staged u) (length input)" and "stage1 = put_bytes stage (up_staged u) (take k input)"
    and "u1 = u\<lparr>up_staged := up_staged u + k\<rparr>" and "up_staged u1 = length stage1"
  shows "absorb_loop (Suc fuel) S input (u, stage, x) = (case ls_write S (up_alloc u1) stage1 x of
    (r, a, y) \<Rightarrow> (case r of Inl e \<Rightarrow> (Inl e, u1\<lparr>up_alloc := a\<rparr>, stage1, y)
      | Inr _ \<Rightarrow> absorb_loop fuel S (drop k input) (u1\<lparr>up_alloc := a, up_staged := 0\<rparr>, stage1, y)))"
  unfolding absorb_loop.simps Let_def prod.case assms(3,4,5) [symmetric]
  unfolding if_not_P [OF assms(1)] if_not_P [OF assms(2)] if_P [OF assms(6)]
  by (simp split: prod.split sum.split)

lemma absorb_loop_run:
  assumes "absorb_loop fuel (traced S) input (u, stage, x) = (r, u', stage', x')"
    and "length input \<le> fuel" and "up_staged u < length stage" and "ledger_of (snd x) = Filling n (up_alloc u) p"
  shows "length stage' = length stage \<and> u' = u\<lparr>up_alloc := up_alloc u', up_staged := up_staged u'\<rparr>
    \<and> (case r of Inl e \<Rightarrow> ledger_of (snd x') = Spoiled (up_alloc u')
       | Inr _ \<Rightarrow> up_staged u' < length stage \<and> (\<exists>p'. ledger_of (snd x') = Filling n (up_alloc u') p'
           \<and> p' @ take (up_staged u') stage' = p @ take (up_staged u) stage @ input))"
  using assms
proof (induction fuel arbitrary: input u stage x p)
  case 0
  then show ?case by auto
next
  case (Suc fuel)
  note run = Suc.prems(1) and ledger = Suc.prems(4)
  have pos: "0 < length stage" using Suc.prems(3) by auto
  show ?case
  proof (cases "input = []")
    case True
    then show ?thesis using run ledger Suc.prems(3) by auto
  next
    case False
    then have some: "0 < length input" by simp
    show ?thesis
    proof (cases "up_staged u = 0 \<and> length input \<ge> length stage")
      case True
      define k where "k = length input - length input mod length stage"
      have k: "0 < k" "k \<le> length input"
      proof -
        have "length input mod length stage < length stage" using pos by simp
        then show "0 < k" using True unfolding k_def by linarith
      qed (simp add: k_def)
      obtain q a y where wr: "ls_write (traced S) (up_alloc u) (take k input) x = (q, a, y)" using prod_cases3 by blast
      note lg = traced_writes [OF wr]
      show ?thesis
      proof (cases q)
        case (Inl e)
        then show ?thesis using run False True lg ledger by (auto simp: wr simp flip: k_def)
      next
        case (Inr unit)
        have run': "absorb_loop fuel (traced S) (drop k input) (u\<lparr>up_alloc := a\<rparr>, stage, y) = (r, u', stage', x')"
          using run False True Inr by (simp add: wr flip: k_def)
        have lg': "ledger_of (snd y) = Filling n (up_alloc (u\<lparr>up_alloc := a\<rparr>)) (p @ take k input)" using lg ledger Inr by simp
        show ?thesis
          using Suc.IH [OF run' _ _ lg'] Suc.prems(2,3) True k by (auto split: sum.splits)
      qed
    next
      case part: False
      define k where "k = min (length stage - up_staged u) (length input)"
      have k: "0 < k" "k \<le> length input" "up_staged u + k \<le> length stage" using Suc.prems(3) some by (auto simp: k_def)
      define stage1 where "stage1 = put_bytes stage (up_staged u) (take k input)"
      have l1: "length stage1 = length stage" using k by (simp add: stage1_def)
      have t1: "take (up_staged u + k) stage1 = take (up_staged u) stage @ take k input"
        using k Suc.prems(3) by (simp add: stage1_def put_bytes_def)
      define u1 where "u1 = u\<lparr>up_staged := up_staged u + k\<rparr>"
      show ?thesis
      proof (cases "up_staged u1 = length stage1")
        case full: True
        obtain q a y where wr: "ls_write (traced S) (up_alloc u1) stage1 x = (q, a, y)" using prod_cases3 by blast
        note lg = traced_writes [OF wr]
        have s1: "stage1 = take (up_staged u) stage @ take k input" using t1 full by (simp add: u1_def)
        have run1: "(case q of Inl e \<Rightarrow> (Inl e, u1\<lparr>up_alloc := a\<rparr>, stage1, y)
            | Inr _ \<Rightarrow> absorb_loop fuel (traced S) (drop k input) (u1\<lparr>up_alloc := a, up_staged := 0\<rparr>, stage1, y)) = (r, u', stage', x')"
          using run unfolding absorb_full [OF False part k_def stage1_def u1_def full] by (simp add: wr)
        show ?thesis
        proof (cases q)
          case (Inl e)
          then show ?thesis using run1 lg ledger l1 by (auto simp: u1_def)
        next
          case (Inr unit)
          define u2 where "u2 = u1\<lparr>up_alloc := a, up_staged := 0\<rparr>"
          have run': "absorb_loop fuel (traced S) (drop k input) (u2, stage1, y) = (r, u', stage', x')"
            using run1 Inr by (simp add: u2_def)
          have lg': "ledger_of (snd y) = Filling n (up_alloc u2) (p @ stage1)" using lg ledger Inr by (simp add: u1_def u2_def)
          show ?thesis
            using Suc.IH [OF run' _ _ lg'] Suc.prems(2,3) k l1 s1 pos by (auto simp: u2_def u1_def split: sum.splits)
        qed
      next
        case notfull: False
        have run': "absorb_loop fuel (traced S) (drop k input) (u1, stage1, x) = (r, u', stage', x')"
          using run False part notfull by (simp add: u1_def flip: k_def stage1_def)
        have lg': "ledger_of (snd x) = Filling n (up_alloc u1) p" using ledger by (simp add: u1_def)
        have lt: "up_staged u1 < length stage1" using notfull k l1 by (simp add: u1_def)
        show ?thesis
          using Suc.IH [OF run' _ lt lg'] Suc.prems(2) k l1 t1 by (auto simp: u1_def split: sum.splits)
      qed
    qed
  qed
qed

text \<open>Every byte received and none too many: what \<open>finish_upload\<close> starts from.\<close>

definition complete_in :: "('s \<times> ('a, 'h) seam_call list, 'a, 'h, 'p) world \<Rightarrow> 'a upload \<Rightarrow> bool" where
  "complete_in w u \<longleftrightarrow> en_live (w_engine w) = Uploading u \<and> up_received u = up_len u
     \<and> (\<exists>p. books w = Filling (up_len u) (up_alloc u) p \<and> upload_filled u (en_staging (w_engine w)) p)"

lemma complete_held: "complete_in w u \<Longrightarrow> held_in w"
  by (auto simp: complete_in_def held_def upload_filled_def)

lemma flush_run:
  assumes "en_live (w_engine w) = Uploading u" and "books w = Filling n (up_alloc u) p"
    and "0 < length (en_staging (w_engine w))" and "flush (traced S) w = (r, w')"
  shows "held_in w'" and "r = Inr x \<Longrightarrow> \<exists>a. en_live (w_engine w') = Uploading (u\<lparr>up_alloc := a, up_staged := 0\<rparr>)
    \<and> books w' = Filling n a (p @ take (up_staged u) (en_staging (w_engine w)))"
proof -
  obtain q a y where wr: "ls_write (traced S) (up_alloc u) (take (up_staged u) (en_staging (w_engine w))) (w_store w) = (q, a, y)"
    using prod_cases3 by blast
  note lg = traced_writes [OF wr]
  show "held_in w'" using assms lg
    by (auto simp: flush_def wr on_engine_def held_def split: if_splits sum.splits)
  show "r = Inr x \<Longrightarrow> \<exists>a. en_live (w_engine w') = Uploading (u\<lparr>up_alloc := a, up_staged := 0\<rparr>)
    \<and> books w' = Filling n a (p @ take (up_staged u) (en_staging (w_engine w)))"
    using assms lg by (auto simp: flush_def wr on_engine_def split: if_splits sum.splits)
qed

lemma publish_run:
  assumes "en_live (w_engine w) = Uploading u" and "books w = Filling (up_len u) (up_alloc u) p"
    and "length p = unat (up_len u)" and "up_kind u = KMapShard \<or> crc32 p = up_declared_crc u"
    and "publish (traced S) w = (r, w')"
  shows "w_engine w' = w_engine w \<and> books w' = (case r of Inr _ \<Rightarrow> Free | Inl _ \<Rightarrow> books w)"
proof -
  define i where "i = (if id_is_some (up_id u) then up_id u else ls_next_id (traced S) (w_store w))"
  obtain f w1 where l: "lookupW (traced S) i w = (f, w1)" by (rule prod.exhaust)
  have k: "keeps w w1" by (rule keeps_lookup [OF l])
  have one: "fresh_tokens (publish_batch u i found) = [up_alloc u]" for found
    by (auto simp: publish_batch_def fresh_tokens_def split: option.splits)
  have may: "may_commit (up_len u) p (publish_batch u i found)" for found
    using assms(3,4) by (auto simp: publish_batch_def may_commit_def whole_def split: option.splits)
  have commit: "w_engine w2 = w_engine v \<and> books w2 = (case q of Inr _ \<Rightarrow> Free | Inl _ \<Rightarrow> books w)"
    if c: "storeW (ls_commit (traced S) (publish_batch u i found)) v = (q, w2)" and v: "keeps w v" for found q v w2
  proof -
    obtain s where s: "ls_commit (traced S) (publish_batch u i found) (w_store v) = (q, s)" "w2 = v\<lparr>w_store := s\<rparr>"
      using c by (auto simp: storeW_def split: prod.splits)
    then show ?thesis
      using traced_commit [of S "publish_batch u i found" "w_store v"] one may assms(2) v
      by (cases q) (simp_all add: keeps_def)
  qed
  show ?thesis
    using assms(1,2,5) k unfolding publish_def
    by (auto dest!: bindW_run asW_run commit simp: l refuseW_def retW_def keeps_def simp flip: i_def split: if_splits sum.splits)
qed

lemma complete_run:
  assumes "complete_in w u" and "complete (traced S) P u w = (r, w')"
  shows "case r of Inl e \<Rightarrow> held_in w' | Inr _ \<Rightarrow> books w' = Free \<and> 0 < length (en_staging (w_engine w'))"
proof -
  let ?st = "en_staging (w_engine w)"
  obtain p where u: "en_live (w_engine w) = Uploading u" "up_received u = up_len u"
    and p: "books w = Filling (up_len u) (up_alloc u) p" and fl: "upload_filled u ?st p"
    using assms(1) by (auto simp: complete_in_def)
  have held: "held_in w" by (rule complete_held [OF assms(1)])
  define crc where "crc = (case up_crc u of
         None \<Rightarrow> None
       | Some c \<Rightarrow> if finalize c \<noteq> up_declared_crc u
           then Some (rf_with_context ChecksumFailure D_PAYLOAD (ucast (up_declared_crc u))) else None)"
  show ?thesis
  proof (cases crc)
    case (Some e)
    then show ?thesis using assms(2) held by (auto simp: complete_def bindW_def refuse_if_def simp flip: crc_def)
  next
    case None
    obtain a w1 where pol: "asW (rf_new Rejected) (policyW (pl_accept P (up_kind u) (up_len u))) w = (a, w1)" by (rule prod.exhaust)
    have "keeps w (snd (asW (rf_new Rejected) (policyW (pl_accept P (up_kind u) (up_len u))) w))"
      by (rule calm_at) (intro calm_intros)
    then have k: "keeps w w1" by (simp add: pol)
    obtain b w2 where fw: "flush (traced S) w1 = (b, w2)" by (rule prod.exhaust)
    have w1: "en_live (w_engine w1) = Uploading u" "books w1 = Filling (up_len u) (up_alloc u) p" "en_staging (w_engine w1) = ?st"
      using k u(1) p by (simp_all add: keeps_def)
    have pos: "0 < length (en_staging (w_engine w1))" using fl by (auto simp: w1 upload_filled_def)
    note f = flush_run [OF w1(1,2) pos fw]
    have fa: "asW (media_refusal D_WRITE) (flush (traced S)) w1 = (case b of Inl e \<Rightarrow> Inl (media_refusal D_WRITE e) | Inr x \<Rightarrow> Inr x, w2)"
      by (cases b) (simp_all add: asW_def fw)
    show ?thesis
    proof (cases a)
      case (Inl e)
      then show ?thesis using assms(2) None keeps_held [OF k] held
        by (auto simp: complete_def bindW_def refuse_if_def pol simp flip: crc_def)
    next
      case a: (Inr un)
      show ?thesis
      proof (cases b)
        case (Inl e)
        then show ?thesis using assms(2) None a f(1)
          by (auto simp: complete_def bindW_def refuse_if_def pol fa simp flip: crc_def)
      next
        case (Inr un')
        obtain t where t: "en_live (w_engine w2) = Uploading (u\<lparr>up_alloc := t, up_staged := 0\<rparr>)"
            "books w2 = Filling (up_len u) t (p @ take (up_staged u) ?st)"
          using f(2) [OF Inr] by (auto simp: w1)
        have run: "publish (traced S) w2 = (r, w')"
          using assms(2) None a Inr by (simp add: complete_def bindW_def refuse_if_def pol fa flip: crc_def)
        have len: "length (p @ take (up_staged u) ?st) = unat (up_len u)" using fl u(2) by (auto simp: upload_filled_def min_def)
        have sum: "up_kind u = KMapShard \<or> crc32 (p @ take (up_staged u) ?st) = up_declared_crc u"
          using fl None by (auto simp: upload_filled_def crc_def finalize_new_update split: option.splits if_splits)
        have "w_engine w' = w_engine w2 \<and> books w' = (case r of Inr _ \<Rightarrow> Free | Inl _ \<Rightarrow> books w2)"
          using publish_run [OF t(1) _ _ _ run] t(2) len sum by simp
        then show ?thesis using f(1) by (cases r) (simp_all add: held_def)
      qed
    qed
  qed
qed

lemma finish_upload_agrees:
  assumes "complete_in w u"
  shows "agrees_in (snd (finish_upload (traced S) P w))"
proof -
  obtain r w' where c: "complete (traced S) P u w = (r, w')" by (rule prod.exhaust)
  have live: "en_live (w_engine w) = Uploading u" using assms by (simp add: complete_in_def)
  show ?thesis
    using complete_run [OF assms c] fail_upload_frees [of w' S]
    by (auto simp: finish_upload_def live c on_engine_def agrees_idle split: sum.splits)
qed

text \<open>Arithmetic of the byte count: the declared length bounds it, and it never wraps.\<close>

lemma received_step:
  assumes "unat n < 2 ^ 63" and "k < 2 ^ 63" and "r < n" and "\<not> r + of_nat k > (n :: u64)"
  shows "unat (r + of_nat k) = unat r + k"
proof -
  have "unat r < 2 ^ 63" using assms(1,3) by (simp add: word_less_nat_alt)
  moreover have "unat (of_nat k :: u64) = k" using assms(2) by (simp add: unat_of_nat take_bit_nat_eq_self)
  ultimately show ?thesis using assms(2) by (simp add: unat_word_ariths(1))
qed

lemma on_stream_agrees:
  assumes "agrees_in w" and "sized S"
  shows "agrees_in (snd (on_stream (traced S) P l rec w))"
proof -
  have held: "held_in w" by (rule agrees_held [OF assms(1)])
  note fails = fail_upload_frees [OF held] abandon_frees(1) [OF held]
  show ?thesis
  proof (cases "live_link (w_engine w) \<noteq> Some l")
    case True
    then show ?thesis using assms(1) by (simp add: on_stream_def)
  next
    case mine: False
    show ?thesis
    proof (cases "en_live (w_engine w)")
      case (Uploading u)
      obtain p where p: "books w = Filling (up_len u) (up_alloc u) p" "upload_filled u (en_staging (w_engine w)) p" "up_received u < up_len u"
        using assms(1) Uploading by (auto simp: agrees_def)
      show ?thesis
      proof (cases "sf_split rec")
        case None
        then show ?thesis using mine Uploading fails by (simp add: on_stream_def)
      next
        case (Some fp)
        obtain fr payload where fp: "fp = (fr, payload)" by (rule prod.exhaust)
        have small: "length payload < 2 ^ 63"
        proof -
          have "length payload = unat (sf_len fr)" using sf_split_Some Some fp by blast
          then show ?thesis using unsigned_less [of "sf_len fr", where ?'a = nat] by simp
        qed
        define bad where "bad = (sf_offset fr \<noteq> up_received u \<or> up_received u + of_nat (length payload) > up_len u)"
        have absorbed: "agrees_in (snd (case absorb (traced S) payload w of
              (Inl e, w1) \<Rightarrow> fail_upload (traced S) (media_refusal D_WRITE e) w1
            | (Inr _, w1) \<Rightarrow>
                if up_received u + of_nat (length payload) < up_len u then (Idle, w1) else finish_upload (traced S) P w1))"
          if fits: "\<not> bad"
        proof -
          define u0 where "u0 = u\<lparr>up_crc := map_option (\<lambda>c. crc_update c payload) (up_crc u), up_received := up_received u + of_nat (length payload)\<rparr>"
          obtain r u1 stage x where loop: "absorb_loop (length payload) (traced S) payload (u0, en_staging (w_engine w), w_store w) = (r, u1, stage, x)"
            using prod_cases4 by blast
          have pre: "up_staged u0 < length (en_staging (w_engine w))" "ledger_of (log_of w) = Filling (up_len u) (up_alloc u0) p"
            using p by (simp_all add: u0_def upload_filled_def)
          note spec = absorb_loop_run [OF loop order_refl pre]
          define w1 where "w1 = w\<lparr>w_engine := (w_engine w)\<lparr>en_live := Uploading u1, en_staging := stage\<rparr>, w_store := x\<rparr>"
          have ab: "absorb (traced S) payload w = (r, w1)" by (simp add: absorb_def Uploading Let_def w1_def loop flip: u0_def)
          have pos: "0 < length stage" using spec [THEN conjunct1] pre(1) by linarith
          have u1: "up_len u1 = up_len u" "up_received u1 = up_received u0" "up_crc u1 = up_crc u0" "up_kind u1 = up_kind u"
            by (subst spec [THEN conjunct2, THEN conjunct1], simp add: u0_def)+
          show ?thesis
          proof (cases r)
            case (Inl e)
            then have "held_in w1" using spec pos by (simp add: held_def w1_def)
            then show ?thesis using Inl by (simp add: ab fail_upload_frees)
          next
            case (Inr un)
            then obtain p' where p': "ledger_of (snd x) = Filling (up_len u) (up_alloc u1) p'" "up_staged u1 < length stage"
                "p' @ take (up_staged u1) stage = p @ take (up_staged u) (en_staging (w_engine w)) @ payload"
              using spec by (auto simp: u0_def)
            have n63: "unat (up_len u) < 2 ^ 63" using p(2) by (simp add: upload_filled_def)
            have cnt: "unat (up_received u0) = unat (up_received u) + length payload"
              unfolding u0_def using received_step [OF n63 small p(3)] fits by (simp add: bad_def)
            have fl: "upload_filled u1 stage p'"
              using p(2) p'(2,3) cnt u1 unfolding upload_filled_def
              by (auto simp: u0_def crc_update_append simp flip: append_assoc split: option.splits)
            show ?thesis
            proof (cases "up_received u + of_nat (length payload) < up_len u")
              case True
              have "agrees_in w1" using p'(1) fl u1 True pos by (simp add: agrees_def held_def w1_def u0_def)
              then show ?thesis using True Inr by (simp add: ab)
            next
              case False
              have "complete_in w1 u1" using p'(1) fl u1 False fits by (simp add: complete_in_def w1_def u0_def bad_def)
              then show ?thesis using False Inr by (simp add: ab finish_upload_agrees)
            qed
          qed
        qed
        show ?thesis
          using mine fails assms(1) absorbed unfolding on_stream_def
          by (simp add: Some fp Uploading bad_def)
      qed
    qed (use assms(1) mine in \<open>simp_all add: on_stream_def split: option.split\<close>)
  qed
qed

lemma on_usb_map_batch_agrees:
  assumes "agrees_in w" and "length (mb_stage b) < 2 ^ 63"
  shows "agrees_in (snd (on_usb_map_batch (traced S) P b w))"
proof -
  have held: "held_in w" by (rule agrees_held [OF assms(1)])
  note fails = fail_upload_frees [OF held]
  define bs where "bs = take (mb_len b) (mb_stage b)"
  define odd where "odd = (length (mb_stage b) < 512 \<or> length (mb_stage b) mod 512 \<noteq> 0
    \<or> upload_stage_bank (w_engine w) \<noteq> Some (mb_bank b) \<or> mb_len b = 0 \<or> mb_len b > length (mb_stage b))"
  show ?thesis
  proof (cases "odd \<or> live_link (w_engine w) \<noteq> Some Usb")
    case True
    then show ?thesis using assms(1) by (auto simp: on_usb_map_batch_def Let_def odd_def)
  next
    case mine: False
    show ?thesis
    proof (cases "en_live (w_engine w)")
      case (Uploading u)
      obtain p where p: "books w = Filling (up_len u) (up_alloc u) p" "upload_filled u (en_staging (w_engine w)) p" "up_received u < up_len u"
        using assms(1) Uploading by (auto simp: agrees_def)
      define skip where "skip = (up_request u \<noteq> mb_request b)"
      define wrong where "wrong = (up_kind u \<noteq> KMapShard \<or> up_staged u \<noteq> 0)"
      define bad where "bad = (mb_offset b \<noteq> up_received u \<or> mb_offset b + of_nat (mb_len b) > up_len u)"
      define u1 where "u1 = u\<lparr>up_crc := map_option (\<lambda>c. crc_update c bs) (up_crc u)\<rparr>"
      obtain q a y where wr: "ls_write (traced S) (up_alloc u1) bs (w_store w) = (q, a, y)" using prod_cases3 by blast
      define v where "v = (\<lambda>u. on_engine (en_live_update (\<lambda>_. Uploading u)) (w\<lparr>w_store := y\<rparr>))"
      define u3 where "u3 = u1\<lparr>up_alloc := a, up_received := up_received u + of_nat (mb_len b), up_bank := up_bank u XOR 1\<rparr>"
      have run: "on_usb_map_batch (traced S) P b w = (if skip then (Idle, w)
          else if wrong then fail_upload (traced S) (rf_plain Internal) w
          else if bad then fail_upload (traced S) (rf_new InvalidRequest D_STREAM_OFFSET) w
          else case q of Inl e \<Rightarrow> fail_upload (traced S) (media_refusal D_WRITE e) (v (u1\<lparr>up_alloc := a\<rparr>))
            | Inr _ \<Rightarrow> if up_received u3 < up_len u3 then (Idle, v u3) else finish_upload (traced S) P (v u3))"
        using mine unfolding on_usb_map_batch_def Let_def odd_def [symmetric] bs_def [symmetric]
        unfolding skip_def wrong_def bad_def u3_def v_def
        by (cases q) (simp_all add: Uploading wr flip: u1_def)
      note lg = traced_writes [OF wr]
      have pos: "0 < length (en_staging (w_engine w))" using held by (simp add: held_def)
      have stop: "held_in (v (u1\<lparr>up_alloc := a\<rparr>))" if "q = Inl e" for e
        using lg p(1) pos by (simp add: held_def v_def on_engine_def u1_def that)
      have go: "up_received u3 < up_len u3 \<longrightarrow> agrees_in (v u3)" "\<not> up_received u3 < up_len u3 \<longrightarrow> complete_in (v u3) u3"
        if ok: "q = Inr e" "\<not> wrong" "\<not> bad" for e
      proof -
        have len: "mb_len b \<le> length (mb_stage b)" using mine by (simp add: odd_def)
        have n63: "unat (up_len u) < 2 ^ 63" using p(2) by (simp add: upload_filled_def)
        have "mb_len b < 2 ^ 63" using len assms(2) by simp
        then have cnt: "unat (up_received u3) = unat (up_received u) + length bs"
          using received_step [OF n63 _ p(3), of "mb_len b"] ok(3) len by (simp add: u3_def bad_def bs_def)
        have fl: "upload_filled u3 (en_staging (w_engine w)) (p @ bs)"
          using p(2) cnt ok(2) unfolding upload_filled_def
          by (auto simp: u3_def u1_def wrong_def crc_update_append split: option.splits)
        have led: "books (v u3) = Filling (up_len u3) (up_alloc u3) (p @ bs)"
          using lg p(1) ok(1) by (simp add: v_def on_engine_def u1_def u3_def)
        show "up_received u3 < up_len u3 \<longrightarrow> agrees_in (v u3)" using led fl pos by (simp add: agrees_def held_def v_def on_engine_def)
        show "\<not> up_received u3 < up_len u3 \<longrightarrow> complete_in (v u3) u3"
          using led fl ok(3) by (auto simp: complete_in_def v_def on_engine_def bad_def u3_def u1_def not_less intro: order.antisym)
      qed
      show ?thesis
        unfolding run using assms(1) fails fail_upload_frees [OF stop] go finish_upload_agrees [of "v u3" u3 S P]
        by (cases q) auto
    qed (use mine assms(1) in \<open>auto simp: on_usb_map_batch_def Let_def odd_def upload_stage_bank_def\<close>)
  qed
qed

subsection \<open>Runs\<close>

lemma on_control_agrees: "agrees_in w \<Longrightarrow> sized S \<Longrightarrow> agrees_in (snd (on_control usz (traced S) P l rec w))"
proof -
  assume ok: "agrees_in w" "sized S"
  have "agrees_in (snd (serve usz (traced S) P l c req r w))" for c req r
    using ok by (cases r) (simp_all add: on_list_agrees on_status_agrees on_get_agrees on_put_agrees on_remove_agrees
      on_cancel_agrees on_arm_agrees on_format_agrees on_archive_agrees)
  then show ?thesis using ok(1) by (auto simp: on_control_def split: option.splits sum.splits control_error.splits)
qed

text \<open>A slice of memory is shorter than \<open>2 ^ 63\<close>.\<close>

definition event_sized :: "'s traced_event \<Rightarrow> bool" where
  "event_sized ev = (case ev of Engine (MapBatch b) \<Rightarrow> length (mb_stage b) < 2 ^ 63 | _ \<Rightarrow> True)"

lemma traced_step_agrees:
  assumes "agrees_in w" and "sized S" and "event_sized ev"
  shows "agrees_in (traced_step usz S P ev w)"
proof (cases ev)
  case (Engine e)
  then show ?thesis
    using assms
    by (cases e) (simp_all add: on_link_up_agrees on_link_lost_agrees on_control_agrees on_stream_agrees on_usb_map_batch_agrees
        poll_agrees cancel_live_agrees watch_stall_agrees take_upload_end_def event_sized_def)
qed (use assms in simp)

lemma traced_run_agrees:
  "agrees_in w \<Longrightarrow> sized S \<Longrightarrow> \<forall>ev\<in>set evs. event_sized ev \<Longrightarrow> agrees_in (traced_run usz S P evs w)"
proof (induction evs arbitrary: w)
  case (Cons ev evs)
  have "agrees_in (traced_step usz S P ev w)" using Cons.prems by (intro traced_step_agrees) auto
  then show ?case using Cons by (simp add: traced_run_def)
qed (simp add: traced_run_def)

lemma fresh_agrees: "0 < stage \<Longrightarrow> agrees_in (fresh_world stage s p out)"
  by (simp add: agrees_idle fresh_world_def engine_new_def)

end
