(* ===== verification/Link_Transfer.thy ===== *)
theory Link_Transfer
  imports Link_Trace
begin

text \<open>
  What the link protocol promises, over every store and policy: what the engine does to its store,
  how the two links stay apart and when the watchdog gives up. What a listing or a download delivers to
  the client is in \<open>Link_Delivery\<close>.
\<close>

subsection \<open>A store to run the engine on\<close>

text \<open>
  A small store for concrete runs: the catalog is a list of entries with their payloads, a token is
  the bytes written so far, a handle the payload it reads.
\<close>

type_synonym memory = "(link_meta \<times> bytes) list"

fun memory_apply :: "bytes link_mutation \<Rightarrow> memory \<Rightarrow> memory" where
  "memory_apply (LPut m (LFresh p)) c = c @ [(m, p)]"
| "memory_apply (LPut m LAmend) c = c"
| "memory_apply (LRemove i r) c = filter (\<lambda>(m, p). \<not> (m_id m = i \<and> m_rev m = r)) c"

definition memory_store :: "(memory, bytes, bytes) link_store" where
  "memory_store = \<lparr>
     ls_mode = (\<lambda>_. LReadWrite), ls_store_id = (\<lambda>_. replicate 16 7), ls_sequence = (\<lambda>c. of_nat (length c)),
     ls_next_id = (\<lambda>c. of_nat (length c) + 1),
     ls_allocate = (\<lambda>n c. (if n < 65536 then Inr [] else Inl (LNoSpace n), c)),
     ls_write = (\<lambda>a bs c. (Inr (), a @ bs, c)),
     ls_cancel = (\<lambda>a c. c),
     ls_commit = (\<lambda>ms c. let c' = fold memory_apply ms c in (Inr (of_nat (length c')), c')),
     ls_open = (\<lambda>i r c. case find (\<lambda>(m, p). m_id m = i) c of None \<Rightarrow> (Inl LNotFound, c) | Some (m, p) \<Rightarrow> (Inr p, c)),
     ls_read = (\<lambda>h off n c. (Inr (take n (drop (unat off) h)), c)),
     ls_close = (\<lambda>h c. c),
     ls_entries = (\<lambda>c. map (\<lambda>(m, p). (Inr m, c)) c),
     ls_archive = (\<lambda>src c. (Inl AUnsupported, c)),
     ls_format = (\<lambda>i c. (Inl LReadOnly, c))\<rparr>"

lemma memory_sized: "sized memory_store"
  by (auto simp: sized_def memory_store_def word_less_nat_alt split: if_splits)

lemma memory_ops:
  "ls_mode (traced memory_store) x = LReadWrite"
  "ls_next_id (traced memory_store) x = of_nat (length (fst x)) + 1"
  "ls_allocate (traced memory_store) n x = (if n < 65536 then (Inr [], fst x, snd x @ [Allocated n []]) else (Inl (LNoSpace n), x))"
  "ls_write (traced memory_store) a bs x = (Inr (), a @ bs, fst x, snd x @ [Wrote a bs (a @ bs) True])"
  "ls_commit (traced memory_store) ms x = (Inr (of_nat (length (fold memory_apply ms (fst x)))), fold memory_apply ms (fst x), snd x @ [Committed' ms True])"
  "ls_cancel (traced memory_store) a x = (fst x, snd x @ [Cancelled' a])"
  "ls_entries (traced memory_store) x = map (\<lambda>(m, p). (Inr m, x)) (fst x)"
  by (simp_all add: traced_def memory_store_def logged_def Let_def case_prod_unfold)

text \<open>A request that arrives as its encoding is served as that request.\<close>

lemma on_control_request:
  assumes "link_ceilings (w_engine w) l = Some c" and "req \<noteq> 0" and "wf_request r"
  shows "on_control usz S P l (frame (request_opcode r) 0 (request_body r) req) w = serve usz S P l c req r w"
proof -
  have "decode_request (frame (request_opcode r) 0 (request_body r) req) = Inr (\<lparr>hd_opcode = request_opcode r, hd_request = req\<rparr>, r)"
    by (subst decode_request_Inr) (use assms(2,3) in simp)
  then show ?thesis using assms(1) by (simp add: on_control_def)
qed

text \<open>A cable with 256-byte records, and a route put on it in one record.\<close>

definition cable :: ceilings where
  "cable = \<lparr>ce_control = 256, ce_stream = 256\<rparr>"

definition a_route :: "bytes \<Rightarrow> put_request" where
  "a_route p = \<lparr>pr_id = 0, pr_expected = 0, pr_len = of_nat (length p), pr_crc = crc32 p, pr_kind = KRoute, pr_name = ln_default\<rparr>"

definition put_record :: "u32 \<Rightarrow> bytes \<Rightarrow> link_event" where
  "put_record req p = ControlRecord Usb (frame OpPut 0 (request_body (ReqPut (a_route p))) req)"

definition stream_record :: "u32 \<Rightarrow> bytes \<Rightarrow> link_event" where
  "stream_record req p = StreamRecord Usb (sf_encode \<lparr>sf_transfer = req, sf_offset = 0, sf_len = of_nat (length p)\<rparr> @ p)"

definition demo_world :: "(memory \<times> (bytes, bytes) seam_call list, bytes, bytes, unit) world" where
  "demo_world = fresh_world 512 [] () (zeros 256)"

abbreviation demo_step :: "link_event \<Rightarrow> (memory \<times> (bytes, bytes) seam_call list, bytes, bytes, unit) world
    \<Rightarrow> (memory \<times> (bytes, bytes) seam_call list, bytes, bytes, unit) world" where
  "demo_step ev \<equiv> traced_step 32 memory_store open_policy (Engine ev)"

definition up_world :: "(memory \<times> (bytes, bytes) seam_call list, bytes, bytes, unit) world" where
  "up_world = demo_world\<lparr>w_engine := (w_engine demo_world)\<lparr>en_ceilings := [None, Some cable]\<rparr>\<rparr>"

lemma demo_up: "demo_step (LinkUp Usb cable) demo_world = up_world"
  by (simp add: up_world_def demo_world_def on_link_up_def release_link_def fresh_world_def engine_new_def live_link_def
      owed_to_def on_engine_def)

lemmas demo_defs = up_world_def demo_world_def fresh_world_def engine_new_def on_engine_def memory_ops

lemma demo_admits:
  assumes "req \<noteq> 0" and "p \<noteq> []" and "length p < 65536"
    and "link_ceilings (w_engine w) Usb = Some cable" and "en_live (w_engine w) = NotLive"
  shows "demo_step (put_record req p) w = w\<lparr>w_engine := (w_engine w)\<lparr>en_live :=
     Uploading (new_upload Usb cable req (a_route p) (0, 1, None) [])\<rparr>, w_store := (fst (w_store w), log_of w @ [Allocated (of_nat (length p)) []])\<rparr>"
proof -
  have small: "unat (of_nat (length p) :: u64) = length p" using assms(3) by (simp add: unat_of_nat take_bit_nat_eq_self)
  have "of_nat (length p) \<noteq> (0 :: u64)" "(of_nat (length p) :: u64) < 65536"
    using small assms(2,3) by (auto simp: word_less_nat_alt)
  moreover have "wf_request (ReqPut (a_route p))" by (simp add: a_route_def wf_text_def wf_link_name_def ln_default_def ln_as_bytes_def LINK_NAME_def zeros_def is_zero_def slice_def list_all_iff)
  ultimately show ?thesis
    using on_control_request [of w Usb cable req "ReqPut (a_route p)" 32 "traced memory_store" open_policy] assms(1,4,5)
    by (simp add: put_record_def on_put_def admit_put_def bindW_def refuse_if_def busy_refusal_def live_transfer_def
        write_refusal_def l_writable_def put_target_def id_is_some_def retW_def asW_def storeW_def on_engine_def memory_ops
        a_route_def is_device_owned_def)
qed

definition uploading_world :: "u32 \<Rightarrow> bytes \<Rightarrow> (memory \<times> (bytes, bytes) seam_call list, bytes, bytes, unit) world" where
  "uploading_world req p = up_world\<lparr>w_engine := (w_engine up_world)\<lparr>en_live :=
     Uploading (new_upload Usb cable req (a_route p) (0, 1, None) [])\<rparr>, w_store := ([], [Allocated (of_nat (length p)) []])\<rparr>"

lemma demo_uploads: "req \<noteq> 0 \<Longrightarrow> p \<noteq> [] \<Longrightarrow> length p < 65536 \<Longrightarrow> demo_step (put_record req p) up_world = uploading_world req p"
  by (subst demo_admits) (simp_all add: uploading_world_def link_ceilings_def demo_defs)

definition route_meta :: "bytes \<Rightarrow> link_meta" where
  "route_meta p = \<lparr>m_id = 1, m_rev = 1, m_kind = KRoute, m_flags = LF_NONE, m_len = of_nat (length p), m_crc = crc32 p, m_name = ln_default\<rparr>"

lemma demo_commits:
  assumes "p \<noteq> []" and "length p < 200"
  shows "\<exists>w. demo_step (stream_record req p) (on_engine (en_stall_update (\<lambda>_. stall)) (uploading_world req p)) = w
    \<and> w_store w = ([(route_meta p, p)], [Allocated (of_nat (length p)) [], Wrote [] p p True, Committed' [LPut (route_meta p) (LFresh p)] True])
    \<and> en_live (w_engine w) = NotLive \<and> en_owed (w_engine w) = None \<and> en_stall (w_engine w) = stall \<and> en_ceilings (w_engine w) = [None, Some cable]"
proof -
  have small: "unat (of_nat (length p) :: u64) = length p" "unat (of_nat (length p) :: u16) = length p"
    using assms(2) by (simp_all add: unat_of_nat take_bit_nat_eq_self)
  have "sf_split (sf_encode \<lparr>sf_transfer = req, sf_offset = 0, sf_len = of_nat (length p)\<rparr> @ p)
      = Some (\<lparr>sf_transfer = req, sf_offset = 0, sf_len = of_nat (length p)\<rparr>, p)"
    using small assms by (auto simp: sf_split_Some)
  moreover have "absorb_loop (length p) (traced memory_store) p (u, zeros 512, x) = (Inr (), u\<lparr>up_staged := length p\<rparr>, put_bytes (zeros 512) 0 p, x)"
    if "up_staged u = 0" for u x
  proof -
    obtain k where k: "length p = Suc k" using assms(1) by (cases p) auto
    have "absorb_loop k (traced memory_store) [] y = (Inr (), y)" for y by (cases k; cases y) auto
    then show ?thesis unfolding k using that assms k by (simp add: Let_def)
  qed
  ultimately show ?thesis
    using small assms
    by (simp add: stream_record_def on_stream_def uploading_world_def demo_defs live_link_def new_upload_def cable_def
        STREAM_HEADER_LEN_def a_route_def absorb_def finish_upload_def complete_def bindW_def refuse_if_def asW_def policyW_def
        open_policy_def flush_def publish_def id_is_some_def lookupW_def storeW_def lookup_def retW_def finalize_new_update
        publish_batch_def route_meta_def Let_def emit_def put_bytes_def split: option.split)
qed

lemma demo_sized [simp]:
  "event_sized (Engine (LinkUp l c))" "event_sized (Engine (put_record req p))" "event_sized (Engine (stream_record req p))"
  by (simp_all add: event_sized_def put_record_def stream_record_def)

lemma demo_upload_runs:
  assumes "p \<noteq> []" and "length p < 200" and "req \<noteq> 0"
  shows "w_store (traced_run 32 memory_store open_policy (map Engine [LinkUp Usb cable, put_record req p, stream_record req p]) demo_world)
    = ([(route_meta p, p)], [Allocated (of_nat (length p)) [], Wrote [] p p True, Committed' [LPut (route_meta p) (LFresh p)] True])"
proof -
  have "demo_step (put_record req p) up_world = uploading_world req p" by (rule demo_uploads) (use assms in simp_all)
  moreover have "on_engine (en_stall_update (\<lambda>_. None)) (uploading_world req p) = uploading_world req p"
    by (simp add: uploading_world_def demo_defs)
  ultimately show ?thesis
    using demo_up demo_commits [of p req None] assms by (auto simp: traced_run_def)
qed

subsection \<open>What the engine does to its store\<close>

text \<open>
  C10: nothing leaks. Along every sequence of link events over both links, with the store used by others in
  between, the engine holds exactly one resource while a transfer is live and none otherwise: an
  allocation with room for the declared length, filled with everything received but the bytes still
  staged, or the open handle being served. No token is used after it was given back, none is given
  back twice, and a failed write is only ever followed by its cancel.
\<close>

theorem ledger_follows_engine:
  assumes "sized S" and "0 < stage" and "\<forall>ev\<in>set evs. event_sized ev"
    and "w = traced_run usz S P evs (fresh_world stage s p out)"
  shows "case en_live (w_engine w) of
      NotLive \<Rightarrow> books w = Free
    | Downloading d \<Rightarrow> books w = Reading (dn_handle d)
    | Uploading u \<Rightarrow> up_received u < up_len u \<and> (\<exists>q. books w = Filling (up_len u) (up_alloc u) q
        \<and> length q + up_staged u = unat (up_received u))"
proof -
  have "agrees_in w" unfolding assms(4) by (rule traced_run_agrees [OF fresh_agrees [OF assms(2)] assms(1,3)])
  then show ?thesis by (auto simp: agrees_def held_def upload_filled_def min_def split: live.splits)
qed

theorem ledger_follows_engine_witness:
  "books (uploading_world 9 [1, 2, 3]) = Filling 3 [] []"
proof -
  have "demo_step (put_record 9 [1, 2, 3]) up_world = uploading_world 9 [1, 2, 3]" by (rule demo_uploads) simp_all
  then have run: "uploading_world 9 [1, 2, 3] =
      traced_run 32 memory_store open_policy (map Engine [LinkUp Usb cable, put_record 9 [1, 2, 3]]) (fresh_world 512 [] () (zeros 256))"
    using demo_up by (simp add: traced_run_def flip: demo_world_def)
  have "\<forall>ev\<in>set (map Engine [LinkUp Usb cable, put_record 9 [1, 2, 3]]). event_sized ev" by simp
  from ledger_follows_engine [OF memory_sized _ this run] show ?thesis
    by (auto simp: uploading_world_def new_upload_def a_route_def)
qed



subsection \<open>The watchdog\<close>

lemma live_transfer_some: "live_transfer e = Some req \<longleftrightarrow>
    (\<exists>u. en_live e = Uploading u \<and> up_request u = req) \<or> (\<exists>d. en_live e = Downloading d \<and> dn_request d = req)"
  by (simp add: live_transfer_def split: live.splits)

lemma live_link_transfer: "live_transfer e = Some req \<Longrightarrow> \<exists>l. live_link e = Some l"
  by (auto simp: live_transfer_def live_link_def split: live.splits)

lemma abandon_engine: "w_engine (abandon S w) = (w_engine w)\<lparr>en_stall := None, en_live := NotLive\<rparr>"
  by (simp add: abandon_def Let_def split: live.splits)

text \<open>What a look does, by the anchor it finds.\<close>

lemma watch_stall_look:
  assumes "live_transfer (w_engine w) = Some req" and "live_link (w_engine w) = Some l"
    and "a = (case en_stall (w_engine w) of
        Some a \<Rightarrow> if an_request a = req \<and> an_bytes a = live_bytes (w_engine w) then a
          else \<lparr>an_request = req, an_bytes = live_bytes (w_engine w), an_at = now\<rparr>
      | None \<Rightarrow> \<lparr>an_request = req, an_bytes = live_bytes (w_engine w), an_at = now\<rparr>)"
  shows "if now - an_at a < STALL_TIMEOUT_MS
    then watch_stall S now w = (Watching (STALL_TIMEOUT_MS - (now - an_at a)), on_engine (en_stall_update (\<lambda>_. Some a)) w)
    else fst (watch_stall S now w) = Abandoned req \<and> en_live (w_engine (snd (watch_stall S now w))) = NotLive
      \<and> en_stall (w_engine (snd (watch_stall S now w))) = None
      \<and> en_owed (w_engine (snd (watch_stall S now w))) = Some \<lparr>ow_link = l, ow_opcode = live_opcode (w_engine w),
          ow_request = req, ow_refusal = rf_new Cancelled D_BY_DEVICE\<rparr>"
proof -
  define kept where "kept = (case en_stall (w_engine w) of
      Some a \<Rightarrow> if an_request a = req \<and> an_bytes a = live_bytes (w_engine w) then Some a else None | None \<Rightarrow> None)"
  define fresh where "fresh = \<lparr>an_request = req, an_bytes = live_bytes (w_engine w), an_at = now\<rparr>"
  have a: "a = (case kept of Some a \<Rightarrow> a | None \<Rightarrow> fresh)"
    unfolding assms(3) kept_def fresh_def by (auto split: option.split)
  define w' where "w' = (case kept of Some _ \<Rightarrow> w | None \<Rightarrow> on_engine (en_stall_update (\<lambda>_. Some fresh)) w)"
  have w': "w' = on_engine (en_stall_update (\<lambda>_. Some a)) w"
    by (auto simp: w'_def a on_engine_def kept_def split: option.splits if_splits)
  have same: "live_transfer (w_engine w') = Some req" "live_link (w_engine w') = Some l" "live_opcode (w_engine w') = live_opcode (w_engine w)"
    using assms(1,2) by (simp_all add: w' on_engine_def live_transfer_def live_link_def live_opcode_def)
  have run: "watch_stall S now w = (if now - an_at a < STALL_TIMEOUT_MS then (Watching (STALL_TIMEOUT_MS - (now - an_at a)), w')
    else (Abandoned req, snd (cancel_live S CauseDevice w')))"
    unfolding watch_stall_def Let_def assms(1) option.case unfolding fresh_def [symmetric] kept_def [symmetric]
    unfolding a [symmetric] w'_def [symmetric] by simp
  show ?thesis
  proof (cases "now - an_at a < STALL_TIMEOUT_MS")
    case True
    then show ?thesis by (simp add: run w')
  next
    case False
    then show ?thesis using same by (simp add: run cancel_live_def on_engine_def abandon_engine)
  qed
qed


definition watched_world :: "u32 \<Rightarrow> (memory \<times> (bytes, bytes) seam_call list, bytes, bytes, unit) world" where
  "watched_world t = on_engine (en_stall_update (\<lambda>_. Some \<lparr>an_request = 9, an_bytes = 0, an_at = t\<rparr>)) (uploading_world 9 [1, 2, 3])"

lemma uploading_live:
  "live_transfer (w_engine (uploading_world req p)) = Some req" "live_link (w_engine (uploading_world req p)) = Some Usb"
  "live_bytes (w_engine (uploading_world req p)) = 0" "en_stall (w_engine (uploading_world req p)) = None"
  by (simp_all add: uploading_world_def new_upload_def live_transfer_def live_link_def live_bytes_def demo_defs)

lemma watched_live:
  "live_transfer (w_engine (watched_world t)) = Some 9" "live_link (w_engine (watched_world t)) = Some Usb"
  "live_bytes (w_engine (watched_world t)) = 0" "en_stall (w_engine (watched_world t)) = Some \<lparr>an_request = 9, an_bytes = 0, an_at = t\<rparr>"
  using uploading_live [of 9 "[1, 2, 3]"]
  by (simp_all add: watched_world_def on_engine_def live_transfer_def live_link_def live_bytes_def)

lemma first_look: "watch_stall S t (uploading_world 9 [1, 2, 3]) = (Watching 21000, watched_world t)"
  using watch_stall_look [OF uploading_live(1,2) refl, where now = t and S = S, of 9 "[1, 2, 3]"]
  by (simp add: uploading_live watched_world_def STALL_TIMEOUT_MS_def)


text \<open>
  C15: the deadline of one upload can fall on the next. The anchor of the watchdog survives an upload that
  completes, so the next transfer that reuses the request identifier and has received nothing is
  abandoned at its very first look when 21 seconds have passed since the first look at the old one:
  here a cable uploads one record, is replugged, and the first \<open>PUT\<close> of the new connection, which
  counts its requests from the same number, is dropped at once.
\<close>

theorem anchor_outlives_upload:
  assumes "p \<noteq> []" and "length p < 200" and "q \<noteq> []" and "length q < 200" and "req \<noteq> 0" and "STALL_TIMEOUT_MS \<le> t1 - t0"
  shows "let w = fold demo_step [LinkUp Usb cable, put_record req p, StallLook t0, stream_record req p, StallLook t1,
      LinkLost Usb, LinkUp Usb cable, put_record req q] demo_world
    in live_transfer (w_engine w) = Some req \<and> live_bytes (w_engine w) = 0
       \<and> fst (watch_stall (traced memory_store) t1 w) = Abandoned req
       \<and> map fst (fst (w_store w)) = [route_meta p]"
proof -
  let ?a = "\<lparr>an_request = req, an_bytes = 0, an_at = t0\<rparr>"
  have up: "demo_step (put_record req p) up_world = uploading_world req p" by (rule demo_uploads) (use assms in simp_all)
  have look: "demo_step (StallLook t0) (uploading_world req p) = on_engine (en_stall_update (\<lambda>_. Some ?a)) (uploading_world req p)"
    using watch_stall_look [OF uploading_live(1,2) refl, where now = t0 and S = "traced memory_store", of req p]
    by (simp add: uploading_live STALL_TIMEOUT_MS_def)
  obtain w where w: "demo_step (stream_record req p) (on_engine (en_stall_update (\<lambda>_. Some ?a)) (uploading_world req p)) = w"
    "w_store w = ([(route_meta p, p)], [Allocated (of_nat (length p)) [], Wrote [] p p True, Committed' [LPut (route_meta p) (LFresh p)] True])"
    "en_live (w_engine w) = NotLive" "en_owed (w_engine w) = None" "en_stall (w_engine w) = Some ?a" "en_ceilings (w_engine w) = [None, Some cable]"
    using demo_commits [OF assms(1,2), of req "Some ?a"] by auto
  have idle: "demo_step (StallLook t1) w = w" using w(3) by (simp add: watch_stall_def Let_def live_transfer_def)
  have down: "demo_step (LinkLost Usb) w = on_engine (en_ceilings_update (\<lambda>_. [None, None])) w"
    using w by (simp add: on_link_lost_def release_link_def live_link_def owed_to_def on_engine_def)
  have again: "demo_step (LinkUp Usb cable) (on_engine (en_ceilings_update (\<lambda>_. [None, None])) w) = w"
    using w by (simp add: on_link_up_def release_link_def live_link_def owed_to_def on_engine_def)
  define v where "v = demo_step (put_record req q) w"
  have v: "v = w\<lparr>w_engine := (w_engine w)\<lparr>en_live := Uploading (new_upload Usb cable req (a_route q) (0, 1, None) [])\<rparr>,
      w_store := (fst (w_store w), log_of w @ [Allocated (of_nat (length q)) []])\<rparr>"
    unfolding v_def by (rule demo_admits) (use assms w in \<open>simp_all add: link_ceilings_def\<close>)
  have live: "live_transfer (w_engine v) = Some req" "live_link (w_engine v) = Some Usb" "live_bytes (w_engine v) = 0" "en_stall (w_engine v) = Some ?a"
    using w by (simp_all add: v live_transfer_def live_link_def live_bytes_def new_upload_def)
  have "fst (watch_stall (traced memory_store) t1 v) = Abandoned req"
    using watch_stall_look [OF live(1,2) refl, where S = "traced memory_store" and now = t1] live assms(6) by simp
  moreover have "fold demo_step [LinkUp Usb cable, put_record req p, StallLook t0, stream_record req p, StallLook t1,
      LinkLost Usb, LinkUp Usb cable, put_record req q] demo_world = v"
    by (simp only: fold_simps o_apply id_apply demo_up up look w(1) idle down again v_def)
  moreover have "fst (w_store v) = [(route_meta p, p)]" using w by (simp add: v)
  ultimately show ?thesis using live by (simp add: Let_def)
qed

theorem anchor_outlives_upload_witness:
  "let w = fold demo_step [LinkUp Usb cable, put_record 2 [5], StallLook 100, stream_record 2 [5], StallLook 30000,
      LinkLost Usb, LinkUp Usb cable, put_record 2 [6, 7]] demo_world
    in live_transfer (w_engine w) = Some 2 \<and> live_bytes (w_engine w) = 0
       \<and> fst (watch_stall (traced memory_store) 30000 w) = Abandoned 2 \<and> map fst (fst (w_store w)) = [route_meta [5]]"
  using anchor_outlives_upload [of "[5]" "[6, 7]" 2 30000 100] by (simp add: STALL_TIMEOUT_MS_def del: fold_simps)

subsection \<open>Two links\<close>

text \<open>Computations that leave the engine alone, over any store.\<close>

definition aside :: "(('s, 'a, 'h, 'p) world \<Rightarrow> 'r \<times> ('s, 'a, 'h, 'p) world) \<Rightarrow> bool" where
  "aside m \<longleftrightarrow> (\<forall>w. w_engine (snd (m w)) = w_engine w)"

lemma asideD: "aside m \<Longrightarrow> m w = (r, w') \<Longrightarrow> w_engine w' = w_engine w"
  unfolding aside_def by (metis snd_conv)

lemma aside_at: "aside m \<Longrightarrow> w_engine (snd (m w)) = w_engine w"
  by (simp add: aside_def)

named_theorems aside_intros

lemma aside_basic [aside_intros]:
  "aside (retW x)" "aside (refuseW r)" "aside (refuse_if c)" "aside (storeW op)" "aside (policyW op')"
  by (auto simp: aside_def retW_def refuseW_def refuse_if_def storeW_def policyW_def split: option.splits prod.splits)

lemma aside_cases [aside_intros]:
  "aside m \<Longrightarrow> aside n \<Longrightarrow> aside (if c then m else n)"
  "aside m \<Longrightarrow> (\<And>x. aside (f x)) \<Longrightarrow> aside (case o' of None \<Rightarrow> m | Some x \<Rightarrow> f x)"
  by (auto split: option.splits)

lemma aside_bind [aside_intros]: "aside m \<Longrightarrow> (\<And>x. aside (f x)) \<Longrightarrow> aside (bindW m f)"
  unfolding aside_def bindW_def by (auto split: prod.splits sum.splits) (metis snd_conv)+

lemma aside_as [aside_intros]: "aside m \<Longrightarrow> aside (asW f m)"
  unfolding aside_def asW_def by (auto split: prod.splits sum.splits) (metis snd_conv)+

lemma aside_lookup [aside_intros]: "aside (lookupW S i)"
  unfolding lookupW_def by (intro aside_intros)

lemma emit_aside: "(\<And>w. w_engine (snd (otherwise w)) = w_engine w) \<Longrightarrow> w_engine (snd (emit enc sent otherwise w)) = w_engine w"
  by (auto simp: emit_def split: option.splits)

lemma answers_aside [simp]:
  "w_engine (snd (emit enc sent (Pair r) w)) = w_engine w"
  "w_engine (snd (emit_error opc req r' w)) = w_engine w"
  "w_engine (snd (emit enc sent (emit_error opc req r') w)) = w_engine w"
  "w_engine (snd (answer opc req enc w)) = w_engine w"
proof -
  show err: "w_engine (snd (emit_error opc req r' w)) = w_engine w" for opc req r' w
    unfolding emit_error_def by (rule emit_aside) simp
  show "w_engine (snd (emit enc sent (Pair r) w)) = w_engine w" by (rule emit_aside) simp
  show "w_engine (snd (emit enc sent (emit_error opc req r') w)) = w_engine w" by (rule emit_aside) (rule err)
  show "w_engine (snd (answer opc req enc w)) = w_engine w" unfolding answer_def by (rule emit_aside) (rule err)
qed

lemma requests_aside:
  "w_engine (snd (on_list S c req lst w)) = w_engine w"
  "w_engine (snd (on_status S req st w)) = w_engine w"
  "w_engine (snd (on_remove S req rm w)) = w_engine w"
  "w_engine (snd (on_arm S P req arm w)) = w_engine w"
  "w_engine (snd (on_format S req f w)) = w_engine w"
  "w_engine (snd (on_archive S req src w)) = w_engine w"
proof -
  show "w_engine (snd (on_list S c req lst w)) = w_engine w"
    by (auto simp: on_list_def Let_def split: option.splits prod.splits sum.splits)
  show "w_engine (snd (on_status S req st w)) = w_engine w"
    by (auto simp: on_status_def asideD [OF aside_lookup] split: option.splits prod.splits sum.splits)
  have "w_engine (snd (apply_remove S rm w)) = w_engine w"
    unfolding apply_remove_def by (rule aside_at) (intro aside_intros)
  then show "w_engine (snd (on_remove S req rm w)) = w_engine w"
    by (auto simp: on_remove_def split: prod.splits sum.splits)
  have pkg: "aside (arm_package S arm)"
    unfolding aside_def arm_package_def by (intro allI aside_at) (intro aside_intros)
  have res: "aside (arm_reserve S n)" for n
    unfolding arm_reserve_def by (intro aside_intros) (auto simp: aside_def Let_def storeW_def split: prod.splits sum.splits)
  have "aside (apply_arm S P arm)"
    unfolding apply_arm_def
    by (intro aside_intros pkg res) (auto simp: aside_def storeW_def policyW_def split: prod.splits sum.splits)
  then have "w_engine (snd (apply_arm S P arm w)) = w_engine w" by (rule aside_at)
  then show "w_engine (snd (on_arm S P req arm w)) = w_engine w"
    by (auto simp: on_arm_def split: prod.splits sum.splits)
  have "w_engine (snd (admit_format S f w)) = w_engine w"
    unfolding admit_format_def Let_def by (rule aside_at) (intro aside_intros)
  then show "w_engine (snd (on_format S req f w)) = w_engine w"
    by (auto simp: on_format_def storeW_def split: prod.splits sum.splits)
  show "w_engine (snd (on_archive S req src w)) = w_engine w"
    by (auto simp: on_archive_def storeW_def split: prod.splits sum.splits option.splits)
qed

text \<open>What stays while a transfer ends: the ceilings and the answer owed.\<close>

definition ends :: "('s, 'a, 'h, 'p) world \<Rightarrow> ceilings option list \<times> owed option" where
  "ends w = (en_ceilings (w_engine w), en_owed (w_engine w))"

lemma ends_engine: "w_engine w' = w_engine w \<Longrightarrow> ends w' = ends w"
  by (simp add: ends_def)

lemma abandon_ends [simp]: "ends (abandon S w) = ends w"
  by (simp add: ends_def abandon_engine)

lemma answers_ends [simp]:
  "ends (snd (emit_error opc req r w)) = ends w" "ends (snd (emit enc sent (Pair r') w)) = ends w"
  by (simp_all add: ends_def)

lemma fails_ends [simp]: "ends (snd (fail_upload S r w)) = ends w" "ends (snd (fail_download S r w)) = ends w"
proof -
  have "ends (on_engine (en_upload_end_update f) w) = ends w" for f by (simp add: ends_def on_engine_def)
  then show "ends (snd (fail_upload S r w)) = ends w" "ends (snd (fail_download S r w)) = ends w"
    by (simp_all add: fail_upload_def fail_download_def Let_def split: live.splits)
qed

definition keeps_ends :: "(('s, 'a, 'h, 'p) world \<Rightarrow> 'r \<times> ('s, 'a, 'h, 'p) world) \<Rightarrow> bool" where
  "keeps_ends m \<longleftrightarrow> (\<forall>w. ends (snd (m w)) = ends w)"

lemma keeps_ends_aside: "aside m \<Longrightarrow> keeps_ends m"
  by (simp add: aside_def keeps_ends_def ends_def)

lemma keeps_ends_bind: "keeps_ends m \<Longrightarrow> (\<And>x. keeps_ends (f x)) \<Longrightarrow> keeps_ends (bindW m f)"
  unfolding keeps_ends_def bindW_def by (auto split: prod.splits sum.splits) (metis snd_conv)+

lemma keeps_ends_as: "keeps_ends m \<Longrightarrow> keeps_ends (asW f m)"
  unfolding keeps_ends_def asW_def by (auto split: prod.splits sum.splits) (metis snd_conv)+

lemma keeps_ends_basic:
  "keeps_ends (refuseW r)" "keeps_ends (refuse_if c)" "keeps_ends m \<Longrightarrow> keeps_ends n \<Longrightarrow> keeps_ends (if b then m else n)"
  by (simp_all add: keeps_ends_aside [OF aside_basic(2)] keeps_ends_aside [OF aside_basic(3)])

lemma keeps_ends_at: "keeps_ends m \<Longrightarrow> ends (snd (m w)) = ends w"
  by (simp add: keeps_ends_def)

lemma flush_ends: "keeps_ends (flush S)"
  by (auto simp: keeps_ends_def flush_def ends_def on_engine_def split: live.splits prod.splits sum.splits)

lemma publish_aside: "aside (publish S)"
proof -
  have "w_engine (snd (bindW (lookupW S i) (\<lambda>found.
            if map_option m_rev (fo_head found) \<noteq> up_displaced u
            then refuseW (rf_with_context ERevisionConflict D_HEAD_DIFFERS
              (case fo_head found of None \<Rightarrow> 0 | Some h \<Rightarrow> m_rev h))
            else bindW (asW (commit_refusal (up_len u)) (storeW (ls_commit S (publish_batch u i found)))) (\<lambda>_.
              retW (i, up_rev u, up_len u, up_declared_crc u))) w)) = w_engine w" for u i w
    by (rule aside_at) (intro aside_intros)
  then show ?thesis by (auto simp: aside_def publish_def Let_def split: live.splits)
qed

lemma complete_ends:
  assumes "complete S P u w = (r, w')"
  shows "ends w' = ends w"
proof -
  have "keeps_ends (complete S P u)"
    unfolding complete_def
    by (intro keeps_ends_bind keeps_ends_as keeps_ends_aside [OF publish_aside] flush_ends)
      (rule keeps_ends_aside, intro aside_intros)+
  then show ?thesis using assms unfolding keeps_ends_def by (metis snd_conv)
qed

lemma finish_ends [simp]: "ends (snd (finish_upload S P w)) = ends w"
proof -
  have e: "ends (snd (emit enc sent (Pair r) v)) = ends v" for enc sent r v by (simp add: ends_def)
  have o: "ends (on_engine (\<lambda>e. e\<lparr>en_live := l, en_upload_end := x\<rparr>) v) = ends v" for l x v by (simp add: ends_def on_engine_def)
  show ?thesis by (auto simp: finish_upload_def e o complete_ends split: live.splits prod.splits sum.splits)
qed

lemma ends_updates [simp]:
  "ends (on_engine (en_live_update f) w) = ends w" "ends (w\<lparr>w_store := s\<rparr>) = ends w" "ends (w\<lparr>w_out := x\<rparr>) = ends w"
  by (simp_all add: ends_def on_engine_def)

lemma ends_store: "storeW op w = (r, w') \<Longrightarrow> ends w' = ends w"
  by (auto simp: storeW_def split: prod.splits)

lemma poll_ends: "\<not> owed_to (w_engine w) l \<Longrightarrow> ends (snd (poll usz S l w)) = ends w"
  by (auto simp: poll_def Let_def ends_store split: live.splits prod.splits sum.splits)

lemma aside_target: "aside (put_target S put)"
  unfolding put_target_def by (intro aside_intros)

lemma admit_put_run:
  fixes w :: "('s, 'a, 'h, 'p) world"
  assumes "admit_put S l c req put w = (r, w')"
  shows "ends w' = ends w" and "en_live (w_engine w) = NotLive \<or> w_engine w' = w_engine w"
proof -
  define rest where "rest = (\<lambda>w :: ('s, 'a, 'h, 'p) world. bindW (refuse_if (write_refusal (ls_mode S (w_store w)))) (\<lambda>_.
       if pr_len put = 0 then refuseW bad_combination
       else if is_device_owned (pr_kind put) then refuseW bad_combination
       else bindW (put_target S put) (\<lambda>target.
         bindW (asW (allocate_refusal (pr_len put)) (storeW (ls_allocate S (pr_len put)))) (\<lambda>a w.
           retW () (on_engine (en_live_update (\<lambda>_. Uploading (new_upload l c req put target a))) w)))) w)"
  have "keeps_ends rest"
  proof -
    have k: "keeps_ends (\<lambda>w. retW () (on_engine (en_live_update f) w))" "keeps_ends (put_target S put)"
      "keeps_ends (asW (allocate_refusal (pr_len put)) (storeW (ls_allocate S (pr_len put))))" for f
      by (simp add: keeps_ends_def retW_def) (rule keeps_ends_aside, intro aside_intros aside_target)+
    have "keeps_ends (bindW (refuse_if x) (\<lambda>_.
       if pr_len put = 0 then refuseW bad_combination
       else if is_device_owned (pr_kind put) then refuseW bad_combination
       else bindW (put_target S put) (\<lambda>target.
         bindW (asW (allocate_refusal (pr_len put)) (storeW (ls_allocate S (pr_len put)))) (\<lambda>a w.
           retW () (on_engine (en_live_update (\<lambda>_. Uploading (new_upload l c req put target a))) w)))))" for x
      by (intro keeps_ends_bind keeps_ends_basic k)
    then show ?thesis unfolding keeps_ends_def rest_def by blast
  qed
  then have e: "ends (snd (rest v)) = ends v" for v by (simp add: keeps_ends_def)
  have run: "bindW (refuse_if (busy_refusal (w_engine w))) (\<lambda>_. rest) w = (r, w')"
    using assms unfolding admit_put_def rest_def bindW_def [of "refuse_if (busy_refusal (w_engine w))"]
    by (cases "busy_refusal (w_engine w)") (simp_all only: refuse_if_def option.case prod.case sum.case, auto)
  from admission_run [OF run] show "ends w' = ends w" using e [of w] by auto
  from admission_run [OF run] show "en_live (w_engine w) = NotLive \<or> w_engine w' = w_engine w" by auto
qed

lemma absorb_ends: "absorb S payload w = (r, w') \<Longrightarrow> ends w' = ends w"
  by (auto simp: absorb_def Let_def ends_def split: live.splits prod.splits)

lemma on_stream_ends: "ends (snd (on_stream S P l rec w)) = ends w"
  by (auto simp: on_stream_def absorb_ends split: option.splits prod.splits live.splits sum.splits)

lemma on_batch_ends: "ends (snd (on_usb_map_batch S P b w)) = ends w"
  by (auto simp: on_usb_map_batch_def Let_def split: live.splits prod.splits sum.splits)

text \<open>The link an event comes in on; the others are the device's own.\<close>

primrec event_link :: "link_event \<Rightarrow> link option" where
  "event_link (LinkUp l c) = Some l"
| "event_link (LinkLost l) = Some l"
| "event_link (ControlRecord l rec) = Some l"
| "event_link (StreamRecord l rec) = Some l"
| "event_link (MapBatch b) = Some Usb"
| "event_link (PollLink l) = Some l"
| "event_link (CancelLive c) = None"
| "event_link (StallLook now) = None"
| "event_link TakeUploadEnd = None"
| "event_link (Lend out) = None"

definition apart :: "link \<Rightarrow> link \<Rightarrow> ('s, 'a, 'h, 'p) world \<Rightarrow> ('s, 'a, 'h, 'p) world \<Rightarrow> bool" where
  "apart l l' w w' \<longleftrightarrow> link_ceilings (w_engine w') l' = link_ceilings (w_engine w) l'
     \<and> (live_link (w_engine w) = Some l' \<longrightarrow> en_live (w_engine w') = en_live (w_engine w))
     \<and> (owed_to (w_engine w) l' \<and> live_link (w_engine w) \<noteq> Some l \<longrightarrow> en_owed (w_engine w') = en_owed (w_engine w))"

lemma apart_same: "w_engine w' = w_engine w \<Longrightarrow> apart l l' w w'"
  by (simp add: apart_def)

lemma link_index_other: "l' \<noteq> l \<Longrightarrow> link_index l' \<noteq> link_index l"
  by (cases l; cases l') simp_all

lemma release_apart:
  assumes "l' \<noteq> l"
  shows "apart l l' w (release_link S l w)"
  using assms by (auto simp: apart_def release_link_def Let_def abandon_engine on_engine_def link_ceilings_def owed_to_def
      live_link_def split: option.splits)

lemma ceilings_apart: "l' \<noteq> l \<Longrightarrow> apart l l' w v \<Longrightarrow> apart l l' w (on_engine (en_ceilings_update (\<lambda>cs. cs[link_index l := c])) v)"
  using link_index_other [of l' l] by (simp add: apart_def on_engine_def link_ceilings_def)

lemma poll_apart:
  assumes "l' \<noteq> l"
  shows "apart l l' w (snd (poll usz S l w))"
proof (cases "owed_to (w_engine w) l")
  case True
  then show ?thesis using assms by (auto simp: poll_def apart_def on_engine_def link_ceilings_def owed_to_def split: option.splits)
next
  case False
  show ?thesis
  proof (cases "en_live (w_engine w)")
    case (Downloading d)
    show ?thesis
    proof (cases "dn_link d = l")
      case True
      have "ends (snd (poll usz S l w)) = ends w" by (rule poll_ends [OF False])
      then show ?thesis using True assms Downloading by (simp add: apart_def ends_def link_ceilings_def live_link_def)
    qed (simp add: poll_def False Downloading apart_same)
  qed (simp_all add: poll_def False apart_same)
qed

lemma admit_get_free:
  assumes "admit_get S get w = (Inr x, w')"
  shows "en_live (w_engine w) = NotLive"
  using assms unfolding admit_get_def by (auto dest: admission_run)

lemma admit_get_aside: "w_engine (snd (admit_get S get w)) = w_engine w"
  unfolding admit_get_def by (rule aside_at) (intro aside_intros)

lemma control_apart:
  assumes "l' \<noteq> l"
  shows "apart l l' w (snd (on_control usz S P l rec w))"
proof -
  have get: "apart l l' w (snd (on_get usz S l c req get w))" for c req get
  proof (cases "admit_get S get w")
    case (Pair r w1)
    have e: "w_engine w1 = w_engine w" using admit_get_aside [of S get w] by (simp add: Pair)
    show ?thesis
    proof (cases r)
      case (Inr x)
      then have idle: "en_live (w_engine w) = NotLive" using admit_get_free Pair by blast
      obtain m h where x: "x = (m, h)" by (rule prod.exhaust)
      define v where "v = on_engine (en_live_update (\<lambda>_. Downloading \<lparr>dn_link = l, dn_ceilings = c, dn_request = req,
            dn_rev = m_rev m, dn_len = m_len m, dn_crc = m_crc m, dn_sent = 0, dn_handle = h\<rparr>)) w1"
      have "apart l l' v (snd (poll usz S l v))" by (rule poll_apart [OF assms])
      moreover have "ends (snd (poll usz S l v)) = ends v \<or> owed_to (w_engine v) l" using poll_ends by blast
      ultimately have "apart l l' w (snd (poll usz S l v))"
        using idle e assms by (auto simp: apart_def v_def on_engine_def ends_def link_ceilings_def owed_to_def live_link_def split: option.splits)
      then show ?thesis by (simp add: on_get_def Pair Inr x v_def)
    qed (simp add: on_get_def Pair apart_same e)
  qed
  have put: "apart l l' w (snd (on_put S l c req put w))" for c req put
  proof -
    obtain r w1 where a: "admit_put S l c req put w = (r, w1)" by (rule prod.exhaust)
    have "en_ceilings (w_engine w1) = en_ceilings (w_engine w) \<and> en_owed (w_engine w1) = en_owed (w_engine w)
      \<and> (en_live (w_engine w) = NotLive \<or> w_engine w1 = w_engine w)"
      using admit_put_run [OF a] by (simp add: ends_def)
    then show ?thesis
      by (auto simp: on_put_def a apart_def link_ceilings_def on_engine_def live_link_def split: sum.splits)
  qed
  have cancel: "apart l l' w (snd (on_cancel S l req t w))" for req t
    using assms by (auto simp: on_cancel_def Let_def apart_def on_engine_def abandon_engine link_ceilings_def live_link_def)
  have "apart l l' w (snd (serve usz S P l c req r w))" for c req r
    by (cases r) (simp_all add: get put cancel apart_same requests_aside)
  then show ?thesis by (auto simp: on_control_def apart_same split: option.splits sum.splits control_error.splits)
qed

lemma step_apart:
  assumes "event_link ev = Some l" and "l' \<noteq> l"
  shows "apart l l' w (link_step usz S P ev w)"
proof -
  have stay: "apart l l' w w'" if "ends w' = ends w" "live_link (w_engine w) = Some l' \<longrightarrow> w' = w" for w'
    using that by (auto simp: apart_def ends_def link_ceilings_def)
  show ?thesis
  proof (cases ev)
    case (LinkUp k c)
    then show ?thesis using assms by (simp add: on_link_up_def ceilings_apart release_apart)
  next
    case (LinkLost k)
    then show ?thesis using assms by (simp add: on_link_lost_def ceilings_apart release_apart)
  next
    case (ControlRecord k rec)
    then show ?thesis using assms by (simp add: control_apart)
  next
    case (StreamRecord k rec)
    then have "live_link (w_engine w) = Some l' \<longrightarrow> snd (on_stream S P l rec w) = w" using assms(2) by (simp add: on_stream_def)
    then show ?thesis using StreamRecord assms(1) by (simp add: stay on_stream_ends)
  next
    case (MapBatch b)
    then have "live_link (w_engine w) = Some l' \<longrightarrow> snd (on_usb_map_batch S P b w) = w" using assms
      by (auto simp: on_usb_map_batch_def Let_def)
    then show ?thesis using MapBatch by (simp add: stay on_batch_ends)
  next
    case (PollLink k)
    then show ?thesis using assms by (simp add: poll_apart)
  qed (use assms(1) in simp_all)
qed

text \<open>
  C11: one wire cannot disturb the other. Whatever arrives on one link, well-formed or not, whether it comes
  up, is lost, or is polled, the other link's transfer stays exactly as it is, with its byte count, its
  checksum and its handle, and so do the ceilings it is framed with and the answer still owed to it.
  The one exception is written out: the engine owes at most one answer, so a link that has its own
  transfer cancelled takes the place of an answer the other was still owed.
\<close>

theorem links_are_apart:
  assumes "event_link ev = Some l" and "l' \<noteq> l"
  shows "let e = w_engine w; e' = w_engine (link_step usz S P ev w) in
      link_ceilings e' l' = link_ceilings e l'
    \<and> (live_link e = Some l' \<longrightarrow> en_live e' = en_live e)
    \<and> (owed_to e l' \<and> live_link e \<noteq> Some l \<longrightarrow> en_owed e' = en_owed e)"
  using step_apart [OF assms, of w usz S P] by (simp add: apart_def Let_def)

theorem links_are_apart_witness:
  "en_live (w_engine (link_step 32 (traced memory_store) open_policy (LinkLost Ble) (uploading_world 9 [1, 2, 3])))
     = Uploading (new_upload Usb cable 9 (a_route [1, 2, 3]) (0, 1, None) [])"
  using links_are_apart [of "LinkLost Ble" Ble Usb "uploading_world 9 [1, 2, 3]" 32 "traced memory_store" open_policy] uploading_live(2)
  by (simp add: Let_def) (simp add: uploading_world_def)

text \<open>The exception is real: the answer owed to one link is lost when the other cancels its own transfer.\<close>

lemma owed_answer_lost:
  assumes "owed_to (w_engine w) Ble" and "live_link (w_engine w) = Some Usb" and "live_transfer (w_engine w) = Some t"
  shows "\<not> owed_to (w_engine (snd (on_cancel S Usb req t w))) Ble"
  using assms by (simp add: on_cancel_def Let_def owed_to_def on_engine_def)

end
