(* ===== verification/Link_Delivery.thy ===== *)
theory Link_Delivery
  imports Link_Transfer
begin

text \<open>
  What reaches the client: a listing page by page, and a download record by record. Both ends are the
  repository's own, the engine of \<open>engine.rs\<close> and the client's decoders of \<open>wire.rs\<close> and
  \<open>wire/client.rs\<close>.
\<close>

subsection \<open>Listings\<close>

text \<open>The entries a \<open>LIST\<close> asks for: after the cursor, of the kind.\<close>

definition listed :: "(u64 \<times> u64) option \<Rightarrow> link_kind option \<Rightarrow> link_meta list \<Rightarrow> link_meta list" where
  "listed cursor k ms = filter (\<lambda>m. \<not> (case cursor of None \<Rightarrow> False | Some c \<Rightarrow> lkey_le (lm_key m) c)
     \<and> \<not> (case k of None \<Rightarrow> False | Some k \<Rightarrow> k \<noteq> m_kind m)) ms"

lemma list_walk_listed:
  assumes "map fst items = map Inr ms" and "page_holds out lw store sequence ps" and "\<forall>m\<in>set ms. wf_listed m"
  shows "\<exists>lw' out' s'. list_walk items cursor k (lw, out, s) = (Inr (lw_room lw < length (listed cursor k ms)), lw', out', s')
    \<and> page_holds out' lw' store sequence (ps @ take (lw_room lw) (listed cursor k ms)) \<and> length out' = length out"
  using assms
proof (induction items arbitrary: ms lw out s ps)
  case Nil
  then show ?case by (simp add: listed_def)
next
  case (Cons x items)
  obtain m rest where ms: "ms = m # rest" using Cons.prems(1) by (cases ms) auto
  obtain s' where x: "x = (Inr m, s')" using Cons.prems(1) ms by (cases x) auto
  have rest: "map fst items = map Inr rest" "\<forall>m\<in>set rest. wf_listed m" using Cons.prems(1,3) ms by auto
  define out1 where "out1 = ((case cursor of None \<Rightarrow> False | Some c \<Rightarrow> lkey_le (lm_key m) c) \<or> (case k of None \<Rightarrow> False | Some k \<Rightarrow> k \<noteq> m_kind m))"
  show ?case
  proof (cases out1)
    case True
    then have "listed cursor k ms = listed cursor k rest" by (auto simp: listed_def ms out1_def)
    moreover have "list_walk (x # items) cursor k (lw, out, s) = list_walk items cursor k (lw, out, s')"
      using True by (auto simp: x out1_def)
    ultimately show ?thesis using Cons.IH [OF rest(1) Cons.prems(2) rest(2)] by simp
  next
    case False
    then have l: "listed cursor k ms = m # listed cursor k rest" by (auto simp: listed_def ms out1_def)
    obtain ok lw1 o1 where p: "lw_push lw out m = (ok, lw1, o1)" using prod_cases3 by blast
    have step: "list_walk (x # items) cursor k (lw, out, s) =
        (if ok then list_walk items cursor k (lw1, o1, s') else (Inr True, lw1, o1, s'))"
      using False by (auto simp: x out1_def p)
    have name: "length (ln_bytes (m_name m)) = 48"
      using Cons.prems(3) ms by (simp add: wf_listed_def wf_text_def wf_link_name_def LINK_NAME_def)
    note push = lw_push_holds [OF Cons.prems(2) name p]
    show ?thesis
    proof (cases ok)
      case True
      then have "page_holds o1 lw1 store sequence (ps @ [m])" "length o1 = length out" "lw_room lw = Suc (lw_room lw1)"
        using push by simp_all
      then show ?thesis unfolding step l using True Cons.IH [OF rest(1) _ rest(2), of o1 lw1 "ps @ [m]" s'] by simp
    next
      case no: False
      then show ?thesis unfolding step l using push Cons.prems(2) by simp
    qed
  qed
qed

lemma listed_resumes:
  assumes "sorted_wrt (\<lambda>a b. \<not> lkey_le (lm_key b) (lm_key a)) ms" and "0 < room" and "room < length (listed after k ms)"
  shows "listed (Some (lm_key (last (take room (listed after k ms))))) k ms = drop room (listed after k ms)"
proof -
  let ?L = "listed after k ms"
  define z where "z = last (take room ?L)"
  have some: "take room ?L \<noteq> []" using assms(2,3) by auto
  have zin: "z \<in> set (take room ?L)" unfolding z_def by (rule last_in_set [OF some])
  then have "z \<in> set ?L" by (rule in_set_takeD)
  then have z: "\<not> (case after of None \<Rightarrow> False | Some c \<Rightarrow> lkey_le (lm_key z) c)" by (simp add: listed_def)
  have weaker: "\<not> (case after of None \<Rightarrow> False | Some c \<Rightarrow> lkey_le (lm_key m) c)" if "\<not> lkey_le (lm_key m) (lm_key z)" for m
    using z that by (auto simp: lkey_le_def split: option.splits)
  have "listed (Some (lm_key z)) k ms = filter (\<lambda>m. \<not> lkey_le (lm_key m) (lm_key z)) ?L"
    unfolding listed_def filter_filter by (rule filter_cong) (use weaker in auto)
  also have "\<dots> = filter (\<lambda>m. \<not> lkey_le (lm_key m) (lm_key z)) (take room ?L @ drop room ?L)" by simp
  also have "\<dots> = drop room ?L"
  proof -
    have sL: "sorted_wrt (\<lambda>a b. \<not> lkey_le (lm_key b) (lm_key a)) (take room ?L @ drop room ?L)"
      using assms(1) by (simp add: listed_def sorted_wrt_filter)
    have tk: "take room ?L = butlast (take room ?L) @ [z]" unfolding z_def using some by simp
    have "lkey_le (lm_key m) (lm_key z)" if "m \<in> set (take room ?L)" for m
    proof -
      have "sorted_wrt (\<lambda>a b. \<not> lkey_le (lm_key b) (lm_key a)) (butlast (take room ?L) @ [z])"
        using sL unfolding sorted_wrt_append tk [symmetric] by blast
      moreover have "m \<in> set (butlast (take room ?L)) \<or> m = z" using that tk by (metis Un_iff empty_iff insert_iff list.set set_append)
      ultimately show ?thesis by (auto simp: sorted_wrt_append lkey_le_def)
    qed
    moreover have "\<not> lkey_le (lm_key m) (lm_key z)" if "m \<in> set (drop room ?L)" for m
      using sL zin that unfolding sorted_wrt_append by blast
    ultimately show ?thesis unfolding filter_append by (simp add: filter_empty_conv filter_id_conv)
  qed
  finally show ?thesis by (simp add: z_def)
qed


definition stored_world :: "(memory, bytes, bytes, unit) world" where
  "stored_world = \<lparr>w_engine = (engine_new 512)\<lparr>en_ceilings := [None, Some cable]\<rparr>, w_store = [(route_meta [1, 2, 3], [1, 2, 3])],
     w_policy = (), w_out = zeros 256\<rparr>"

lemma route_listed: "wf_listed (route_meta p)"
  by (simp add: wf_listed_def route_meta_def LF_NONE_def wf_text_def wf_link_name_def ln_default_def ln_as_bytes_def
      LINK_NAME_def zeros_def is_zero_def slice_def list_all_iff)


subsection \<open>Downloads\<close>

text \<open>
  A store that serves the payload \<open>p\<close> under the handle \<open>h\<close>: a read may be short, but yields at least
  a byte where there is one.
\<close>

definition serves :: "('s, 'a, 'h) link_store \<Rightarrow> 'h \<Rightarrow> bytes \<Rightarrow> bool" where
  "serves S h p \<longleftrightarrow> (\<forall>off n s. unat off < length p \<and> 0 < n \<longrightarrow>
     (\<exists>k s'. ls_read S h off n s = (Inr (take k (drop (unat off) p)), s') \<and> 0 < k \<and> k \<le> n))"

text \<open>A driver polling a link: the stream records it sends, and the reaction that ends the run.\<close>

primrec drain :: "nat \<Rightarrow> nat \<Rightarrow> ('s, 'a, 'h) link_store \<Rightarrow> link \<Rightarrow> ('s, 'a, 'h, 'p) world
    \<Rightarrow> bytes list \<times> reaction \<times> ('s, 'a, 'h, 'p) world" where
  "drain 0 usz S l w = ([], Idle, w)"
| "drain (Suc n) usz S l w =
     (case poll usz S l w of
        (Send Stream k, w') \<Rightarrow> (case drain n usz S l w' of (recs, r, w'') \<Rightarrow> (take k (w_out w') # recs, r, w''))
      | (r, w') \<Rightarrow> ([], r, w'))"

text \<open>The payload a client puts together: each record continues where the last one ended.\<close>

fun joined :: "u32 \<Rightarrow> nat \<Rightarrow> bytes list \<Rightarrow> bytes option" where
  "joined req off [] = Some []"
| "joined req off (rec # recs) =
     (case sf_split rec of
        None \<Rightarrow> None
      | Some (f, p) \<Rightarrow>
          if sf_transfer f = req \<and> unat (sf_offset f) = off then map_option ((@) p) (joined req (off + length p) recs) else None)"

text \<open>One poll of a download that has bytes left.\<close>

lemma poll_sends:
  assumes "en_live (w_engine w) = Downloading d" and "dn_link d = l" and "\<not> owed_to (w_engine w) l"
    and "serves S (dn_handle d) p" and "length p = unat (dn_len d)" and "dn_sent d < dn_len d"
    and "unat (dn_len d) < 2 ^ usz" and "STREAM_HEADER_LEN < length (w_out w)" and "STREAM_HEADER_LEN < ce_stream (dn_ceilings d)"
    and "ce_stream (dn_ceilings d) \<le> 65551"
  obtains k w' where "poll usz S l w = (Send Stream (16 + k), w')"
    and "sf_split (take (16 + k) (w_out w')) = Some (\<lparr>sf_transfer = dn_request d, sf_offset = dn_sent d, sf_len = of_nat k\<rparr>,
      take k (drop (unat (dn_sent d)) p))"
    and "0 < k" and "unat (dn_sent d) + k \<le> length p" and "length (w_out w') = length (w_out w)"
    and "w_engine w' = (w_engine w)\<lparr>en_live := Downloading (d\<lparr>dn_sent := of_nat (unat (dn_sent d) + k)\<rparr>)\<rparr>"
proof -
  let ?off = "unat (dn_sent d)"
  define want where "want = min (min (length (w_out w)) (ce_stream (dn_ceilings d)) - STREAM_HEADER_LEN)
    (unat (dn_len d - dn_sent d) mod 2 ^ usz)"
  have rest: "unat (dn_len d - dn_sent d) = length p - ?off" "?off < length p"
    using assms(5,6) by (simp_all add: unat_sub_if' word_less_nat_alt)
  have "length p - ?off < 2 ^ usz" using assms(5,7) by (metis less_imp_diff_less)
  then have "unat (dn_len d - dn_sent d) mod 2 ^ usz = length p - ?off" using rest by simp
  then have want: "0 < want" "want \<le> length p - ?off" "want \<le> length (w_out w) - 16" "want \<le> 65535"
    using assms(8,9,10) rest by (auto simp: want_def STREAM_HEADER_LEN_def)
  obtain k0 s where rd0: "ls_read S (dn_handle d) (dn_sent d) want (w_store w) = (Inr (take k0 (drop ?off p)), s)" "0 < k0" "k0 \<le> want"
    using assms(4) rest(2) want(1) unfolding serves_def by blast
  define k where "k = k0"
  define bs where "bs = take k (drop ?off p)"
  have len: "length bs = k" using rd0(3) want(2) by (simp add: bs_def k_def)
  have rd: "ls_read S (dn_handle d) (dn_sent d) want (w_store w) = (Inr bs, s)" using rd0(1) by (simp add: bs_def k_def)
  have kpos: "0 < k" "bs \<noteq> []" using rd0(2) len by (auto simp: k_def)
  have room: "16 + k \<le> length (w_out w)" "k \<le> 65535" using rd0(3) want(3,4) assms(8) by (auto simp: k_def STREAM_HEADER_LEN_def)
  define out where "out = put_bytes (w_out w) 16 bs"
  have out: "length out = length (w_out w)" "slice 16 k out = bs" using room len by (simp_all add: out_def slice_put_same)
  obtain o2 where ws: "write_stream out (dn_request d) (dn_sent d) k = Some (16 + k, o2)"
    using room kpos out by (simp add: write_stream_def Let_def STREAM_HEADER_LEN_def)
  note rec = write_stream_record [OF ws out(2)]
  define w' where "w' = w\<lparr>w_engine := (w_engine w)\<lparr>en_live := Downloading (d\<lparr>dn_sent := of_nat (?off + k)\<rparr>)\<rparr>, w_store := s, w_out := o2\<rparr>"
  have go: "\<not> dn_sent d \<ge> dn_len d" "\<not> length (w_out w) \<le> STREAM_HEADER_LEN" using assms(6,8) by simp_all
  have "poll usz S l w = (Send Stream (16 + k), w')"
    unfolding poll_def Let_def using assms(1,2,3) go kpos(2)
    by (simp add: storeW_def rd [unfolded want_def STREAM_HEADER_LEN_def] len emit_def on_engine_def STREAM_HEADER_LEN_def ws w'_def
        flip: out_def)
  moreover have "?off + k \<le> length p" using rd0(3) want(2) rest(2) by (simp add: k_def)
  ultimately show ?thesis using that [of k w'] rec out kpos by (simp add: w'_def bs_def)
qed

lemma download_drains:
  assumes "en_live (w_engine w) = Downloading d" and "dn_link d = l" and "\<not> owed_to (w_engine w) l"
    and "serves S (dn_handle d) p" and "length p = unat (dn_len d)" and "dn_sent d \<le> dn_len d"
    and "unat (dn_len d) < 2 ^ usz" and "40 \<le> length (w_out w)" and "STREAM_HEADER_LEN < ce_stream (dn_ceilings d)"
    and "ce_stream (dn_ceilings d) \<le> 65551" and "dn_request d \<noteq> 0" and "length p - unat (dn_sent d) < n"
  shows "\<exists>recs k w'. drain n usz S l w = (recs, Send Control k, w')
    \<and> joined (dn_request d) (unat (dn_sent d)) recs = Some (drop (unat (dn_sent d)) p)
    \<and> decode_response (take k (w_out w')) = Inr (\<lparr>hd_opcode = OpGet, hd_request = dn_request d\<rparr>,
        RespGet \<lparr>tr_id = 0, tr_rev = dn_rev d, tr_len = dn_len d, tr_crc = dn_crc d\<rparr>)
    \<and> en_live (w_engine w') = NotLive"
  using assms
proof (induction n arbitrary: w d)
  case 0
  then show ?case by simp
next
  case (Suc n)
  show ?case
  proof (cases "dn_sent d < dn_len d")
    case True
    have out: "STREAM_HEADER_LEN < length (w_out w)" using Suc.prems(8) by (simp add: STREAM_HEADER_LEN_def)
    obtain k w1 where poll: "poll usz S l w = (Send Stream (16 + k), w1)"
      and rec: "sf_split (take (16 + k) (w_out w1)) = Some (\<lparr>sf_transfer = dn_request d, sf_offset = dn_sent d, sf_len = of_nat k\<rparr>,
        take k (drop (unat (dn_sent d)) p))"
      and k: "0 < k" "unat (dn_sent d) + k \<le> length p" and o1: "length (w_out w1) = length (w_out w)"
      and e1: "w_engine w1 = (w_engine w)\<lparr>en_live := Downloading (d\<lparr>dn_sent := of_nat (unat (dn_sent d) + k)\<rparr>)\<rparr>"
      using poll_sends [OF Suc.prems(1-5) True Suc.prems(7) out Suc.prems(9,10)] by blast
    define d1 where "d1 = d\<lparr>dn_sent := of_nat (unat (dn_sent d) + k)\<rparr>"
    have "unat (dn_sent d) + k < 2 ^ 64" using k(2) Suc.prems(5) unsigned_less [of "dn_len d", where 'a = nat] by simp
    then have sent: "unat (dn_sent d1) = unat (dn_sent d) + k" unfolding d1_def by (simp add: unat_of_nat take_bit_nat_eq_self del: of_nat_add)
    have "\<exists>recs j w'. drain n usz S l w1 = (recs, Send Control j, w')
      \<and> joined (dn_request d1) (unat (dn_sent d1)) recs = Some (drop (unat (dn_sent d1)) p)
      \<and> decode_response (take j (w_out w')) = Inr (\<lparr>hd_opcode = OpGet, hd_request = dn_request d1\<rparr>,
          RespGet \<lparr>tr_id = 0, tr_rev = dn_rev d1, tr_len = dn_len d1, tr_crc = dn_crc d1\<rparr>)
      \<and> en_live (w_engine w') = NotLive"
    proof (rule Suc.IH)
      show "en_live (w_engine w1) = Downloading d1" "\<not> owed_to (w_engine w1) l"
        using Suc.prems(3) by (simp_all add: e1 d1_def owed_to_def)
      show "dn_sent d1 \<le> dn_len d1" using sent k(2) Suc.prems(5) by (simp add: word_le_nat_alt) (simp add: d1_def)
      show "length p - unat (dn_sent d1) < n" using sent k Suc.prems(12) by simp
    qed (use Suc.prems o1 in \<open>simp_all add: d1_def\<close>)
    then obtain recs j w' where rest: "drain n usz S l w1 = (recs, Send Control j, w')"
      "joined (dn_request d) (unat (dn_sent d) + k) recs = Some (drop (unat (dn_sent d) + k) p)"
      "decode_response (take j (w_out w')) = Inr (\<lparr>hd_opcode = OpGet, hd_request = dn_request d\<rparr>,
          RespGet \<lparr>tr_id = 0, tr_rev = dn_rev d, tr_len = dn_len d, tr_crc = dn_crc d\<rparr>)"
      "en_live (w_engine w') = NotLive"
      unfolding sent by (auto simp: d1_def)
    have "length (take k (drop (unat (dn_sent d)) p)) = k" using k(2) by simp
    moreover have "take k (drop (unat (dn_sent d)) p) @ drop (unat (dn_sent d) + k) p = drop (unat (dn_sent d)) p"
      by (metis add.commute append_take_drop_id drop_drop)
    ultimately show ?thesis using rest by (simp add: poll rec)
  next
    case False
    define body where "body = put_u32 (put_u64 (put_u64 (zeros 24) 0 (dn_rev d)) 8 (dn_len d)) 16 (dn_crc d)"
    have len: "length body = 24" by (simp add: body_def put_defs)
    have "dn_sent d = dn_len d" using False Suc.prems(6) by simp
    then have all: "drop (unat (dn_sent d)) p = []" using Suc.prems(5) by simp
    obtain k o' where enc: "encode_get (w_out w) (dn_request d) (dn_rev d) (dn_len d) (dn_crc d) = Some (k, o')"
      using Suc.prems(8) len by (auto simp: encode_get_def write_frame_eq simp flip: body_def)
    have ans: "decode_response (take k o') = Inr (\<lparr>hd_opcode = OpGet, hd_request = dn_request d\<rparr>,
          RespGet \<lparr>tr_id = 0, tr_rev = dn_rev d, tr_len = dn_len d, tr_crc = dn_crc d\<rparr>)"
      using answers_get [OF Suc.prems(11), of "w_out w" "dn_rev d" "dn_len d" "dn_crc d"] enc by (simp add: answers_def)
    have ab: "w_out (abandon S w) = w_out w" by (simp add: abandon_def Let_def split: live.splits)
    have "poll usz S l w = (Send Control k, (abandon S w)\<lparr>w_out := o'\<rparr>)"
      using Suc.prems(1,2,3) False by (simp add: poll_def emit_def ab enc not_less)
    then show ?thesis using all ans by (simp add: abandon_engine)
  qed
qed

text \<open>
  C12: a download delivers the object. From an admitted \<open>GET\<close> over a store that serves the payload, even
  in short reads, polling the link sends stream records that the client puts together into exactly the
  payload, each decoding to the transfer's number and the offset where the last one ended, and then, after
  at most one poll per byte, the \<open>GET\<close> answer with the revision, length and checksum of the
  catalog; the engine is idle again. The payload must be shorter than the address space of \<open>usize\<close>,
  and a record no longer than its 16-bit length field.
\<close>

theorem download_delivers:
  assumes "en_live (w_engine w) = Downloading d" and "dn_link d = l" and "\<not> owed_to (w_engine w) l" and "dn_sent d = 0"
    and "serves S (dn_handle d) p" and "length p = unat (dn_len d)" and "unat (dn_len d) < 2 ^ usz" and "40 \<le> length (w_out w)"
    and "STREAM_HEADER_LEN < ce_stream (dn_ceilings d)" and "ce_stream (dn_ceilings d) \<le> 65551" and "dn_request d \<noteq> 0"
  shows "\<exists>recs k w'. drain (length p + 1) usz S l w = (recs, Send Control k, w')
    \<and> joined (dn_request d) 0 recs = Some p
    \<and> decode_response (take k (w_out w')) = Inr (\<lparr>hd_opcode = OpGet, hd_request = dn_request d\<rparr>,
        RespGet \<lparr>tr_id = 0, tr_rev = dn_rev d, tr_len = dn_len d, tr_crc = dn_crc d\<rparr>)
    \<and> en_live (w_engine w') = NotLive"
  using download_drains [OF assms(1,2,3,5,6) _ assms(7-11), where n = "length p + 1"] assms(4) by simp

definition getting_world :: "(memory, bytes, bytes, unit) world" where
  "getting_world = stored_world\<lparr>w_engine := (w_engine stored_world)\<lparr>en_live := Downloading \<lparr>dn_link = Usb, dn_ceilings = cable,
     dn_request = 4, dn_rev = 1, dn_len = 3, dn_crc = crc32 [1, 2, 3], dn_sent = 0, dn_handle = [1, 2, 3]\<rparr>\<rparr>\<rparr>"

lemma memory_serves: "serves memory_store h h"
  unfolding serves_def by (auto simp: memory_store_def intro!: exI [where x = "_ :: nat"])

theorem download_delivers_witness:
  "\<exists>recs k w'. drain 4 32 memory_store Usb getting_world = (recs, Send Control k, w') \<and> joined 4 0 recs = Some [1, 2, 3]"
proof -
  define d :: "bytes download" where "d = \<lparr>dn_link = Usb, dn_ceilings = cable, dn_request = 4, dn_rev = 1, dn_len = 3,
    dn_crc = crc32 [1, 2, 3], dn_sent = 0, dn_handle = [1, 2, 3]\<rparr>"
  have four: "length [1 :: u8, 2, 3] + 1 = 4" by simp
  have "\<exists>recs k w'. drain (length [1 :: u8, 2, 3] + 1) 32 memory_store Usb getting_world = (recs, Send Control k, w')
    \<and> joined (dn_request d) 0 recs = Some [1, 2, 3]
    \<and> decode_response (take k (w_out w')) = Inr (\<lparr>hd_opcode = OpGet, hd_request = dn_request d\<rparr>,
        RespGet \<lparr>tr_id = 0, tr_rev = dn_rev d, tr_len = dn_len d, tr_crc = dn_crc d\<rparr>)
    \<and> en_live (w_engine w') = NotLive"
    by (rule download_delivers)
      (simp_all add: getting_world_def stored_world_def d_def engine_new_def owed_to_def memory_serves cable_def STREAM_HEADER_LEN_def)
  then show ?thesis unfolding four by (auto simp: d_def)
qed

text \<open>
  The bound on the payload is needed: with a 32-bit \<open>usize\<close>, an object of exactly 4 GiB asks for an
  empty read and is refused as a failure of the card.
\<close>

lemma four_gib_download_fails:
  assumes "en_live (w_engine w) = Downloading d" and "dn_link d = l" and "\<not> owed_to (w_engine w) l"
    and "dn_sent d = 0" and "dn_len d = 2 ^ 32" and "STREAM_HEADER_LEN < length (w_out w)"
    and "\<And>s. ls_read S (dn_handle d) 0 0 s = (Inr [], s)"
  shows "poll 32 S l w = fail_download S (rf_new MediaIo D_READ) w"
proof -
  have "unat (2 ^ 32 :: u64) = 2 ^ 32" by simp
  then have "min room (unat (dn_len d - dn_sent d) mod 2 ^ 32) = 0" for room using assms(4,5) by simp
  then show ?thesis
    using assms by (simp add: poll_def Let_def storeW_def media_refusal_def)
qed

subsection \<open>Taking a payload in\<close>

text \<open>
  C40: taking in a payload always ends. Each pass of the absorb loop takes at least one byte, so every
  bound of at least the payload's length gives the same result, whatever the store does: the loop's
  bound is never what stops it.
\<close>

theorem absorb_terminates:
  assumes "up_staged u < length stage" and "length input \<le> f" and "length input \<le> g"
  shows "absorb_loop f S input (u, stage, s) = absorb_loop g S input (u, stage, s)"
  using assms
proof (induction f arbitrary: g input u s stage)
  case 0
  then show ?case by (cases g) auto
next
  case (Suc f)
  show ?case
  proof (cases "input = []")
    case True
    then show ?thesis by (cases g) auto
  next
    case False
    then obtain g' where g: "g = Suc g'" using Suc.prems(3) by (cases g) auto
    define k where "k = length input - length input mod length stage"
    define n where "n = min (length stage - up_staged u) (length input)"
    have k: "0 < k" if "length input \<ge> length stage"
    proof -
      have "length input mod length stage < length stage" by (rule mod_less_divisor) (use Suc.prems(1) in linarith)
      then show ?thesis using that unfolding k_def by linarith
    qed
    have n: "0 < n" "up_staged u + n \<le> length stage" "n \<le> length input" using Suc.prems(1) False by (auto simp: n_def)
    have len: "length (put_bytes stage (up_staged u) (take n input)) = length stage" using n by simp
    have a: "absorb_loop f S (drop k input) (u\<lparr>up_alloc := a\<rparr>, stage, s') = absorb_loop g' S (drop k input) (u\<lparr>up_alloc := a\<rparr>, stage, s')"
      if "length input \<ge> length stage" for a s'
      by (rule Suc.IH) (use Suc.prems g k [OF that] in auto)
    have b: "absorb_loop f S (drop n input) (u', put_bytes stage (up_staged u) (take n input), s') =
        absorb_loop g' S (drop n input) (u', put_bytes stage (up_staged u) (take n input), s')"
      if "up_staged u' < length stage" for u' s'
      by (rule Suc.IH) (use Suc.prems g n len that in auto)
    have pos: "0 < length stage" using Suc.prems(1) by auto
    show ?thesis
      unfolding g absorb_loop.simps Let_def prod.case k_def [symmetric] n_def [symmetric]
      using a b n pos by (auto simp: len split: prod.split sum.split)
  qed
qed

theorem absorb_terminates_witness:
  "absorb_loop 3 memory_store [1, 2, 3] (new_upload Usb cable 9 (a_route [1, 2, 3]) (0, 1, None) [], zeros 2, [])
     = absorb_loop 9 memory_store [1, 2, 3] (new_upload Usb cable 9 (a_route [1, 2, 3]) (0, 1, None) [], zeros 2, [])"
  by (rule absorb_terminates) (simp_all add: new_upload_def)

end
