(* ===== verification/Spec2Isabelle.thy ===== *)
theory Spec2Isabelle
  imports Dfu_Lifecycle Flat_Mount Link_Records Link_Delivery
begin

text \<open>
  Verification of OpenBikeComputer's firmware core: the signed-update path, the crash-safe flat object
  store and the protocol that carries objects over BLE and USB.

  \<^bold>\<open>The program.\<close> The bike computer keeps maps, routes, rides and update packages as objects in a
  flat store on its card (\<open>firmware/obc-storage\<close>), and updates itself by staging a signed image
  that a bootloader installs on the next start (\<open>firmware/obc-dfu\<close>, \<open>firmware/obc-boot\<close>,
  \<open>firmware/obc-fw-nrf54l/src/dfu.rs\<close>). Both rely on one CRC-32 (\<open>firmware/obc-crc\<close>). The update
  reads its image from store extents; the store itself knows nothing of updates.

  \<^bold>\<open>Shared theories.\<close> \<open>Prelude\<close> holds the error monad on sums (\<open>bindE\<close>, \<open>ok_or\<close>), list slices
  and range updates, rounding division and checked arithmetic. \<open>Bytes\<close> holds the little-endian
  accessors of \<open>flat/raw.rs\<close> and the algebra of records written field by field. \<open>Crc32\<close> models
  \<open>obc-crc\<close>: the tables, the streaming hasher and the slice-by-eight build, which is proved equal to
  the byte-at-a-time one; damage inside a four-byte window always changes the checksum.

  \<^bold>\<open>Update path.\<close>
  \<^item> \<open>Dfu_Image\<close>: \<open>image.rs\<close>, \<open>layout.rs\<close>, \<open>blobstage.rs\<close>: header codec, memory map, the staged
    blob in the execution carve, the message that is signed.
  \<^item> \<open>Dfu_State\<close>: \<open>state.rs\<close>: the boot-state page, its codec, \<open>decide\<close> and \<open>verdict\<close>.
  \<^item> \<open>Dfu_Engine\<close>: \<open>engine.rs\<close>: verify, flash, readback and the pipeline over an arbitrary
    \<open>InstallIo\<close>, a record of operations whose contract is a locale.
  \<^item> \<open>Dfu_Boot\<close>: \<open>obc-boot\<close>: \<open>BootIo\<close> over driver records and the boot loop with its ten laps.
  \<^item> \<open>Dfu_Armer\<close>: \<open>armer.rs\<close>, \<open>sig.rs\<close>: scan, arm and confirm. Ed25519 is a crate outside the
    repository and is a parameter with its documented incremental law.
  \<^item> \<open>Dfu_Lifecycle\<close>: the board's arm path and the life of the page across arm, boot and confirm as
    a step relation with its reachable states.

  \<^bold>\<open>Flat store.\<close>
  \<^item> \<open>Flat_Seam\<close> (\<open>seam.rs\<close>, \<open>error.rs\<close>), \<open>Flat_Layout\<close> (\<open>layout.rs\<close>), \<open>Flat_Bitmap\<close>
    (\<open>bitmap.rs\<close>), \<open>Flat_Superblock\<close>, \<open>Flat_Catalog\<close> (\<open>catalog.rs\<close>, \<open>mod.rs\<close>): vocabulary, address
    arithmetic, the free map, the record codecs, the one-pass structure check.
  \<^item> \<open>Flat_Device\<close> (\<open>device.rs\<close>, \<open>sim.rs\<close>): the \<open>BlockDevice\<close> trait. The locale \<open>block_device\<close> states
    what a card promises: \<open>media\<close> is what a read sees, \<open>cands\<close> are the contents a block may have
    after a power cut; a write adds candidates, a sync removes them. The repository's \<open>SparseDisk\<close>
    simulator, with every power-cut plan, is proved to keep the contract.
  \<^item> \<open>Flat_Journal\<close> (\<open>journal.rs\<close>), \<open>Flat_Stream\<close>, \<open>Flat_Store\<close>, \<open>Flat_Ride\<close>, \<open>Flat_Commit\<close>
    (\<open>store.rs\<close>): the store itself, operation by operation, as state-passing functions over an
    arbitrary device.
  \<^item> \<open>Flat_Lookup\<close>: what the binary search and the merge walk compute over the entry array, for
    every device that keeps the contract.
  \<^item> \<open>Flat_Effects\<close>: which part of the card an operation may write, as rules over the state
    monad; \<open>Flat_Payload\<close>: what is appended to an allocation is what its sealed form reads;
    \<open>Flat_Publish\<close>: the phases of a commit put together, so that any power cut leaves the served
    catalog whole and the other copy either uncertified or a complete next catalog; the entries of
    that catalog share no extent when the old ones and the reservations did not.
  \<^item> \<open>Flat_Mount\<close>: \<open>load\<close> accepts exactly the whole copies and mount serves the newest of them; with
    the atomicity of a commit, a card that lost power during or after a commit mounts to the old
    entries or to the complete new ones.

  \<^bold>\<open>Link protocol.\<close>
  \<^item> \<open>Link_Ids\<close> (\<open>ids.rs\<close>, the types of \<open>store.rs\<close>) and \<open>Link_Wire\<close> (\<open>wire.rs\<close>, \<open>wire/client.rs\<close>): the
    vocabulary, and both directions of every request, answer, LIST page and stream frame.
  \<^item> \<open>Link_Codec\<close>: a record decodes to a request exactly when it is that request's canonical encoding;
    every answer survives the trip to the client; LIST pages hold what was pushed.
  \<^item> \<open>Link_Records\<close>: records over the two byte streams: the USB reassembler (\<open>records.rs\<close>) under the
    board's reader (\<open>obc-fw-nrf54l/src/usb/records.rs\<close>) and the BLE assembler under its reader loop
    (\<open>obc-fw-nrf54l/src/ble/v4.rs\<close>) are proved equal to a parse of the joined bytes, however they are cut.
  \<^item> \<open>Link_Engine\<close> (\<open>engine.rs\<close>): every handler of the transfer engine over an arbitrary store and policy,
    which are records of operations as the traits are. A world is the engine's state with its staging
    buffer, the store, the policy and the reaction buffer. The stage loop \<open>absorb_loop\<close> has as fuel the length of its input; \<open>absorb_terminates\<close> shows that
    it is never what stops the loop. The width of \<open>usize\<close> is the argument \<open>usz\<close> of the one handler
    that casts to it.
  \<^item> \<open>Link_Trace\<close>: the same engine over a store that logs its resource calls. The ledger read off the
    log agrees with the live transfer after every event; one lemma per handler. It asks of the
    store only \<open>sized\<close>: no allocation of \<open>2 ^ 63\<close> bytes or more.
  \<^item> \<open>Link_Transfer\<close>: resources are never leaked nor released twice, only whole uploads with their
    declared checksum are committed, the stall watchdog, and what one link can and cannot do to the
    other's transfer. \<open>anchor_outlives_upload\<close> and \<open>owed_answer_lost\<close> state two cases in which the
    engine falls short of its own comments. \<open>memory_store\<close> is a small store for concrete runs only.
  \<^item> \<open>Link_Delivery\<close>: pages of a listing joined by their cursors are the listing, and a drained download
    is the object's bytes in order; \<open>four_gib_download_fails\<close> is the case of a 32-bit \<open>usize\<close>.

  \<^bold>\<open>Integers, errors, loops.\<close> Sizes that index lists are \<open>nat\<close>, with the checked additions of the
  source as \<open>checked_add\<close> at their width; fields that are stored or compared keep their width as
  words. Every refusal of the source is a value of its error type. Loops are total functions with a
  measure; the boot loop has its source bound of ten laps, and the payload loop \<open>fill_loop\<close> has
  fuel, for which the length of the input is enough because every pass takes at least one byte.

  \<^bold>\<open>Not modelled.\<close> Asynchronous glue, pin and clock set-up, the user interface, rendering, map
  reading, routing, the client side of the link and the host tools. The test harnesses of the store are not
  modelled except its simulated disk, which serves as the concrete device.
\<close>

end
